(* ===== verification/Prelude.thy ===== *)
theory Prelude
  imports Main "HOL-Library.Char_ord" "HOL-Library.Sublist" "HOL-Library.Word"
begin

text \<open>
  Shared vocabulary of the development. A Go string is a sequence of bytes, so it is modelled by
  \<open>string\<close> (a list of \<open>char\<close>, and a \<open>char\<close> of HOL is exactly one byte). The functions of the
  Go package \<open>strings\<close> that the router calls are defined here on lists; a Go index result of
  \<open>-1\<close> is \<open>None\<close>.
\<close>

type_synonym byte = char
type_synonym gostring = string

named_theorems go_slice "facts about slicing and byte search"
named_theorems wf_intros "introduction rules for well-formedness invariants"

text \<open>The delimiter bytes of \<open>fox.go\<close>.\<close>

abbreviation slashDelim :: char where "slashDelim \<equiv> CHR ''/''"
abbreviation dotDelim :: char where "dotDelim \<equiv> CHR ''.''"
abbreviation bracketDelim :: char where "bracketDelim \<equiv> CHR ''{''"
abbreviation starDelim :: char where "starDelim \<equiv> CHR ''*''"
abbreviation plusDelim :: char where "plusDelim \<equiv> CHR ''+''"

subsection \<open>Slices\<close>

text \<open>\<open>s[i:j]\<close> of Go, for \<open>i \<le> j \<le> len(s)\<close>.\<close>

definition slice :: "'a list \<Rightarrow> nat \<Rightarrow> nat \<Rightarrow> 'a list" where
  "slice s i j = take (j - i) (drop i s)"

lemma slice_0 [simp, go_slice]: "slice s 0 j = take j s"
  by (simp add: slice_def)

lemma slice_refl [simp, go_slice]: "slice s i i = []"
  by (simp add: slice_def)

lemma slice_all [simp, go_slice]: "slice s i (length s) = drop i s"
  by (simp add: slice_def)

lemma length_slice [simp, go_slice]: "i \<le> j \<Longrightarrow> j \<le> length s \<Longrightarrow> length (slice s i j) = j - i"
  by (simp add: slice_def)

lemma slice_append [go_slice]:
  "i \<le> j \<Longrightarrow> j \<le> k \<Longrightarrow> slice s i j @ slice s j k = slice s i k"
proof -
  assume "i \<le> j" "j \<le> k"
  then have "take (k - i) (drop i s) = take (j - i) (drop i s) @ take (k - j) (drop (j - i) (drop i s))"
    by (metis add_diff_cancel_left' le_add_diff_inverse take_add diff_le_mono diff_diff_left)
  with \<open>i \<le> j\<close> show ?thesis by (simp add: slice_def)
qed

subsection \<open>Byte search, prefixes and suffixes\<close>

text \<open>\<open>strings.IndexByte\<close> and \<open>strings.LastIndexByte\<close>.\<close>

primrec index_byte :: "'a list \<Rightarrow> 'a \<Rightarrow> nat option" where
  "index_byte [] c = None"
| "index_byte (x # xs) c = (if x = c then Some 0 else map_option Suc (index_byte xs c))"

primrec last_index_byte :: "'a list \<Rightarrow> 'a \<Rightarrow> nat option" where
  "last_index_byte [] c = None"
| "last_index_byte (x # xs) c =
     (case last_index_byte xs c of
        Some i \<Rightarrow> Some (Suc i)
      | None \<Rightarrow> (if x = c then Some 0 else None))"

lemma index_byte_None [go_slice]: "index_byte s c = None \<longleftrightarrow> c \<notin> set s"
  by (induction s) auto

lemma last_index_byte_None [go_slice]: "last_index_byte s c = None \<longleftrightarrow> c \<notin> set s"
proof (induction s)
  case (Cons a s)
  then show ?case by (cases "last_index_byte s c") auto
qed simp

lemma index_byte_SomeD:
  "index_byte s c = Some i \<Longrightarrow> i < length s \<and> s ! i = c \<and> c \<notin> set (take i s)"
  by (induction s arbitrary: i) (auto split: if_splits)

lemma index_byte_append:
  "index_byte (s @ t) c = (case index_byte s c of Some i \<Rightarrow> Some i
     | None \<Rightarrow> map_option (\<lambda>i. length s + i) (index_byte t c))"
proof (induction s)
  case Nil
  then show ?case by (cases "index_byte t c") auto
next
  case (Cons a s)
  then show ?case by (cases "index_byte s c"; cases "index_byte t c") auto
qed

lemma index_byte_split:
  "index_byte s c = Some i \<Longrightarrow> s = take i s @ c # drop (Suc i) s"
  by (metis id_take_nth_drop index_byte_SomeD)

lemma last_index_byte_SomeD:
  "last_index_byte s c = Some i \<Longrightarrow> i < length s \<and> s ! i = c \<and> c \<notin> set (drop (Suc i) s)"
  by (induction s arbitrary: i)
    (auto split: if_splits option.splits dest: last_index_byte_None [THEN iffD1])

lemma last_index_byte_append:
  "last_index_byte (s @ t) c = (case last_index_byte t c of
     Some i \<Rightarrow> Some (length s + i) | None \<Rightarrow> last_index_byte s c)"
proof (induction s)
  case Nil
  then show ?case by (cases "last_index_byte t c") auto
next
  case (Cons a s)
  then show ?case by (cases "last_index_byte t c"; cases "last_index_byte s c") auto
qed

text \<open>\<open>strings.HasPrefix\<close>, \<open>strings.HasSuffix\<close> and \<open>strings.TrimSuffix\<close>.\<close>

definition has_prefix :: "'a list \<Rightarrow> 'a list \<Rightarrow> bool" where
  "has_prefix s p \<longleftrightarrow> take (length p) s = p"

definition has_suffix :: "'a list \<Rightarrow> 'a list \<Rightarrow> bool" where
  "has_suffix s p \<longleftrightarrow> length p \<le> length s \<and> drop (length s - length p) s = p"

definition trim_suffix :: "'a list \<Rightarrow> 'a list \<Rightarrow> 'a list" where
  "trim_suffix s p = (if has_suffix s p then take (length s - length p) s else s)"

lemma has_prefix_Nil [simp]: "has_prefix s []"
  by (simp add: has_prefix_def)

lemma has_prefix_Cons [simp]:
  "has_prefix (x # s) (y # p) \<longleftrightarrow> x = y \<and> has_prefix s p"
  "\<not> has_prefix [] (y # p)"
  by (auto simp: has_prefix_def)

lemma has_prefix_empty [simp]: "has_prefix [] p \<longleftrightarrow> p = []"
  by (auto simp: has_prefix_def)

lemma has_prefix_iff: "has_prefix s p \<longleftrightarrow> (\<exists>t. s = p @ t)"
  by (metis append_eq_conv_conj append_take_drop_id has_prefix_def)

lemma has_prefix_append [simp, go_slice]: "has_prefix (p @ t) p"
  by (auto simp: has_prefix_iff)

lemma has_prefix_length: "has_prefix s p \<Longrightarrow> length p \<le> length s"
  by (auto simp: has_prefix_iff)

lemma has_prefix_drop: "has_prefix s p \<Longrightarrow> s = p @ drop (length p) s"
  by (metis append_take_drop_id has_prefix_def)

lemma has_suffix_iff: "has_suffix s p \<longleftrightarrow> (\<exists>t. s = t @ p)"
  by (metis append_eq_conv_conj append_take_drop_id diff_add_inverse2 has_suffix_def le_add2
      length_append)

lemma has_suffix_append [simp, go_slice]: "has_suffix (t @ p) p"
  by (auto simp: has_suffix_iff)

lemma has_suffix_single: "has_suffix s [c] \<longleftrightarrow> s \<noteq> [] \<and> last s = c"
proof
  assume "has_suffix s [c]"
  then show "s \<noteq> [] \<and> last s = c" by (auto simp: has_suffix_iff)
next
  assume "s \<noteq> [] \<and> last s = c"
  then have "s = butlast s @ [c]" by (metis append_butlast_last_id)
  then show "has_suffix s [c]" unfolding has_suffix_iff by blast
qed

lemma trim_suffix_append [simp]: "trim_suffix (s @ p) p = s"
  by (simp add: trim_suffix_def)

subsection \<open>Splitting at a predicate\<close>

lemma dropWhile_length_less: "x \<noteq> [] \<Longrightarrow> P (hd x) \<Longrightarrow> length (dropWhile P x) < length x"
  by (cases x) (auto simp: le_imp_less_Suc length_dropWhile_le)

lemma takeWhile_neq_index:
  "takeWhile (\<lambda>x. x \<noteq> c) s = (case index_byte s c of Some i \<Rightarrow> take i s | None \<Rightarrow> s)"
  by (induction s) (auto split: option.splits)

lemma dropWhile_neq_hd: "dropWhile (\<lambda>x. x \<noteq> c) s \<noteq> [] \<Longrightarrow> hd (dropWhile (\<lambda>x. x \<noteq> c) s) = c"
  using hd_dropWhile [of "\<lambda>x. x \<noteq> c" s] by auto

subsection \<open>Splitting and joining at a delimiter\<close>

text \<open>\<open>strings.Split(s, c)\<close> for a one-byte separator; \<open>join_after\<close> puts the separator before each part.\<close>

fun split_byte :: "'a \<Rightarrow> 'a list \<Rightarrow> 'a list list" where
  "split_byte c [] = [[]]"
| "split_byte c (x # xs) =
     (if x = c then [] # split_byte c xs
      else (x # hd (split_byte c xs)) # tl (split_byte c xs))"

definition join_after :: "'a \<Rightarrow> 'a list list \<Rightarrow> 'a list" where
  "join_after c ss = concat (map (\<lambda>s. c # s) ss)"

lemma join_after_simps [simp]:
  "join_after c [] = []"
  "join_after c (s # ss) = c # s @ join_after c ss"
  "join_after c (ss @ ts) = join_after c ss @ join_after c ts"
  by (simp_all add: join_after_def)

lemma split_byte_not_Nil [simp]: "split_byte c s \<noteq> []"
  by (cases s) auto

lemma join_split [simp]: "join_after c (split_byte c s) = c # s"
proof (induction s)
  case (Cons a s)
  then show ?case by (cases "split_byte c s") auto
qed simp

lemma split_byte_free: "p \<in> set (split_byte c s) \<Longrightarrow> c \<notin> set p"
proof (induction s arbitrary: p)
  case (Cons a s)
  then show ?case by (cases "split_byte c s") (auto split: if_splits)
qed simp

lemma split_byte_append:
  "c \<notin> set s \<Longrightarrow> split_byte c (s @ t) = (s @ hd (split_byte c t)) # tl (split_byte c t)"
  by (induction s) auto

lemma split_byte_join:
  "\<forall>s \<in> set ss. c \<notin> set s \<Longrightarrow> ss \<noteq> [] \<Longrightarrow> split_byte c (tl (join_after c ss)) = ss"
proof (induction ss)
  case (Cons s ss)
  show ?case
  proof (cases ss)
    case Nil
    with Cons.prems show ?thesis using split_byte_append [of c s "[]"] by simp
  next
    case (Cons s' ss')
    with Cons.IH Cons.prems have "split_byte c (s' @ join_after c ss') = s' # ss'" by simp
    with Cons Cons.prems show ?thesis using split_byte_append [of c s "c # s' @ join_after c ss'"] by simp
  qed
qed simp

end
