(* ===== verification/Path_Norm.thy ===== *)
theory Path_Norm
  imports Prelude
begin

text \<open>
  Path normalisation (\<open>path.go\<close>): merging of consecutive slashes, removal of dot segments with the
  lazily allocated output buffer of the code, and the helpers of the trailing-slash redirects.
  The output of both passes is \<open>path[:w]\<close> while the buffer is empty and \<open>buf[:w]\<close> afterwards;
  \<open>buf_view\<close> names that reading and \<open>buf_app_view\<close> is the fact every loop proof rests on.
\<close>

subsection \<open>The lazy buffer\<close>

text \<open>
  \<open>bufApp\<close>: an empty buffer means that the output so far equals the input, so a byte equal to the one
  already at \<open>s[w]\<close> needs no allocation. A new buffer is zeroed and as long as \<open>s\<close>, whether it is
  the stack buffer or one from the heap.
\<close>

definition bufApp :: "string \<Rightarrow> string \<Rightarrow> nat \<Rightarrow> char \<Rightarrow> string" where
  "bufApp buf s w c =
     (if buf = [] then
        (if s ! w = c then buf
         else (take w s @ replicate (length s - w) (CHR 0x00))[w := c])
      else buf[w := c])"

definition buf_view :: "string \<Rightarrow> string \<Rightarrow> string" where
  "buf_view path buf = (if buf = [] then path else buf)"

definition buf_ok :: "string \<Rightarrow> string \<Rightarrow> bool" where
  "buf_ok path buf \<longleftrightarrow> buf = [] \<or> length buf = length path"

lemma buf_ok_Nil [simp]: "buf_ok path []"
  by (simp add: buf_ok_def)

lemma buf_ok_app: "buf_ok path buf \<Longrightarrow> w < length path \<Longrightarrow> buf_ok path (bufApp buf path w c)"
  by (auto simp: buf_ok_def bufApp_def)

lemma length_buf_view: "buf_ok path buf \<Longrightarrow> length (buf_view path buf) = length path"
  by (auto simp: buf_ok_def buf_view_def)

lemma take_Suc_update: "w < length xs \<Longrightarrow> take (Suc w) (xs[w := c]) = take w xs @ [c]"
  by (simp add: take_Suc_conv_app_nth)

lemma buf_app_view:
  assumes "buf_ok path buf" "w < length path"
  shows "take (Suc w) (buf_view path (bufApp buf path w c)) = take w (buf_view path buf) @ [c]"
proof (cases "buf = []")
  case True
  show ?thesis
  proof (cases "path ! w = c")
    case True
    with assms \<open>buf = []\<close> show ?thesis
      by (simp add: bufApp_def buf_view_def take_Suc_conv_app_nth)
  next
    case False
    with assms \<open>buf = []\<close> show ?thesis
      by (simp add: bufApp_def buf_view_def take_Suc_update)
  qed
next
  case False
  with assms show ?thesis
    by (auto simp: bufApp_def buf_view_def buf_ok_def take_Suc_update)
qed

subsection \<open>MergeSlashes\<close>

text \<open>The search for the first pair of slashes, from \<open>j\<close>: the result is \<open>j - 1\<close> in the code.\<close>

function first_double_slash :: "string \<Rightarrow> nat \<Rightarrow> nat option" where
  "first_double_slash path j =
     (if j < length path then
        (if path ! j = slashDelim \<and> path ! (j - 1) = slashDelim then Some (j - 1)
         else first_double_slash path (Suc j))
      else None)"
  by pat_completeness auto
termination by (relation "measure (\<lambda>(path, j). length path - j)") auto

function merge_loop :: "string \<Rightarrow> nat \<Rightarrow> nat \<Rightarrow> string \<Rightarrow> nat \<times> string" where
  "merge_loop path j w buf =
     (if j < length path then
        (if path ! j = slashDelim \<and> path ! (j - 1) = slashDelim then merge_loop path (Suc j) w buf
         else merge_loop path (Suc j) (Suc w) (bufApp buf path w (path ! j)))
      else (w, buf))"
  by pat_completeness auto
termination by (relation "measure (\<lambda>(path, j, w, buf). length path - j)") auto

definition MergeSlashes :: "string \<Rightarrow> string" where
  "MergeSlashes path =
     (case first_double_slash path 1 of
        None \<Rightarrow> path
      | Some i \<Rightarrow>
          (case merge_loop path (i + 1) (i + 1) [] of
             (w, buf) \<Rightarrow> if buf = [] then take w path else take w buf))"

declare first_double_slash.simps [simp del] merge_loop.simps [simp del]

text \<open>The specification: drop every slash that follows a slash.\<close>

fun squeeze_after :: "char \<Rightarrow> string \<Rightarrow> string" where
  "squeeze_after p [] = []"
| "squeeze_after p (c # cs) =
     (if c = slashDelim \<and> p = slashDelim then squeeze_after c cs else c # squeeze_after c cs)"

definition squeeze :: "string \<Rightarrow> string" where
  "squeeze s = (case s of [] \<Rightarrow> [] | c # cs \<Rightarrow> c # squeeze_after c cs)"

fun no_double_slash :: "string \<Rightarrow> bool" where
  "no_double_slash (a # b # s) \<longleftrightarrow> \<not> (a = slashDelim \<and> b = slashDelim) \<and> no_double_slash (b # s)"
| "no_double_slash _ \<longleftrightarrow> True"

lemma no_double_slash_squeeze_after: "no_double_slash (p # squeeze_after p s)"
  by (induction p s rule: squeeze_after.induct) auto

lemma squeeze_after_id: "no_double_slash (p # s) \<Longrightarrow> squeeze_after p s = s"
  by (induction p s rule: squeeze_after.induct) auto

lemma length_squeeze_after: "length (squeeze_after p s) \<le> length s"
  by (induction p s rule: squeeze_after.induct) auto

lemma squeeze_after_eq_length: "length (squeeze_after p s) = length s \<Longrightarrow> squeeze_after p s = s"
proof (induction p s rule: squeeze_after.induct)
  case (2 p c cs)
  then show ?case using length_squeeze_after [of c cs] by (auto split: if_splits)
qed simp

lemma no_double_slash_squeeze: "no_double_slash (squeeze s)"
  by (auto simp: squeeze_def no_double_slash_squeeze_after split: list.split)

lemma squeeze_id: "no_double_slash s \<Longrightarrow> squeeze s = s"
  by (cases s) (auto simp: squeeze_def squeeze_after_id)

lemma length_squeeze: "length (squeeze s) \<le> length s"
  by (auto simp: squeeze_def length_squeeze_after split: list.split)

lemma squeeze_eq_length: "length (squeeze s) = length s \<Longrightarrow> squeeze s = s"
  by (auto simp: squeeze_def dest: squeeze_after_eq_length split: list.splits)

lemma merge_loop_spec:
  assumes "0 < j" "j \<le> length path" "w \<le> j" "buf_ok path buf"
    and "merge_loop path j w buf = (w', buf')"
  shows "take w' (buf_view path buf')
           = take w (buf_view path buf) @ squeeze_after (path ! (j - 1)) (drop j path)"
  using assms
proof (induction path j w buf rule: merge_loop.induct)
  case (1 path j w buf)
  show ?case
  proof (cases "j < length path")
    case False
    then have "merge_loop path j w buf = (w, buf)" by (simp add: merge_loop.simps [of path j w buf])
    with "1.prems" False show ?thesis by simp
  next
    case True
    then have drop: "drop j path = path ! j # drop (Suc j) path" by (simp add: Cons_nth_drop_Suc)
    show ?thesis
    proof (cases "path ! j = slashDelim \<and> path ! (j - 1) = slashDelim")
      case skip: True
      with True "1.prems" have "merge_loop path (Suc j) w buf = (w', buf')"
        by (simp add: merge_loop.simps [of path j])
      with "1.IH"(1) [OF True skip] "1.prems" True skip drop show ?thesis by simp
    next
      case copy: False
      with True "1.prems" have "merge_loop path (Suc j) (Suc w) (bufApp buf path w (path ! j)) = (w', buf')"
        by (auto simp: merge_loop.simps [of path j])
      with "1.IH"(2) [OF True copy] "1.prems" True copy drop show ?thesis
        by (auto simp: buf_app_view buf_ok_app)
    qed
  qed
qed

lemma first_double_slash_None:
  "first_double_slash path j = None \<Longrightarrow> 0 < j \<Longrightarrow> squeeze_after (path ! (j - 1)) (drop j path) = drop j path"
proof (induction path j rule: first_double_slash.induct)
  case (1 path j)
  show ?case
  proof (cases "j < length path")
    case True
    then have "drop j path = path ! j # drop (Suc j) path" by (simp add: Cons_nth_drop_Suc)
    with 1 True show ?thesis
      by (auto simp: first_double_slash.simps [of path j] split: if_splits)
  qed simp
qed

lemma first_double_slash_Some:
  assumes "first_double_slash path j = Some i" "0 < j" "j \<le> length path"
  shows "j \<le> i + 1 \<and> i + 1 < length path \<and>
         squeeze_after (path ! (j - 1)) (drop j path)
           = slice path j (i + 1) @ squeeze_after (path ! i) (drop (i + 1) path)"
  using assms
proof (induction path j rule: first_double_slash.induct)
  case (1 path j)
  then have lt: "j < length path" by (auto simp: first_double_slash.simps [of path j] split: if_splits)
  show ?case
  proof (cases "path ! j = slashDelim \<and> path ! (j - 1) = slashDelim")
    case True
    with 1 lt have "i = j - 1" by (simp add: first_double_slash.simps [of path j])
    with 1 lt show ?thesis by (simp add: slice_def)
  next
    case False
    with 1 lt have rec: "first_double_slash path (Suc j) = Some i"
      by (auto simp: first_double_slash.simps [of path j])
    with "1.IH" lt False have IH: "Suc j \<le> i + 1 \<and> i + 1 < length path \<and>
         squeeze_after (path ! j) (drop (Suc j) path)
           = slice path (Suc j) (i + 1) @ squeeze_after (path ! i) (drop (i + 1) path)" by auto
    moreover have drop: "drop j path = path ! j # drop (Suc j) path"
      using lt by (simp add: Cons_nth_drop_Suc)
    moreover have "slice path j (i + 1) = path ! j # slice path (Suc j) (i + 1)"
      using IH drop by (simp add: slice_def Suc_diff_le)
    ultimately show ?thesis using False by auto
  qed
qed

lemma MergeSlashes_eq_squeeze: "MergeSlashes path = squeeze path"
proof (cases path)
  case Nil
  then show ?thesis by (simp add: MergeSlashes_def squeeze_def first_double_slash.simps)
next
  case (Cons c cs)
  then have sq: "squeeze path = take 1 path @ squeeze_after (path ! 0) (drop 1 path)"
    by (simp add: squeeze_def)
  show ?thesis
  proof (cases "first_double_slash path 1")
    case None
    with first_double_slash_None [of path 1] sq Cons show ?thesis by (simp add: MergeSlashes_def)
  next
    case (Some i)
    obtain w buf where ml: "merge_loop path (i + 1) (i + 1) [] = (w, buf)" by fastforce
    have i: "i + 1 < length path" "squeeze_after (path ! 0) (drop 1 path)
        = slice path 1 (i + 1) @ squeeze_after (path ! i) (drop (i + 1) path)"
      using first_double_slash_Some [OF Some] Cons by auto
    have "take w (buf_view path buf) = take (i + 1) path @ squeeze_after (path ! i) (drop (i + 1) path)"
      using merge_loop_spec [OF _ _ _ _ ml] i by (simp add: buf_view_def)
    also have "\<dots> = squeeze path"
      using sq i slice_append [of 0 1 "i + 1" path] by simp
    finally show ?thesis using Some ml by (simp add: MergeSlashes_def buf_view_def split: if_splits)
  qed
qed

subsection \<open>Dot segments\<close>

text \<open>\<open>dotSegmentIndex\<close>, its loop variable made explicit. \<open>max(i-1, 0)\<close> is subtraction on \<open>nat\<close>.\<close>

function dotSegmentIndex_from :: "string \<Rightarrow> nat \<Rightarrow> nat option" where
  "dotSegmentIndex_from path i0 =
     (case index_byte (drop i0 path) dotDelim of
        None \<Rightarrow> None
      | Some j \<Rightarrow>
          let i = i0 + j in
          if i = 0 \<or> path ! (i - 1) = slashDelim then
            (if i + 1 = length path \<or> path ! (i + 1) = slashDelim then Some (i - 1)
             else if path ! (i + 1) = dotDelim \<and>
                  (i + 2 = length path \<or> path ! (i + 2) = slashDelim) then Some (i - 1)
             else dotSegmentIndex_from path (i + 1))
          else dotSegmentIndex_from path (i + 1))"
  by pat_completeness auto
termination
  by (relation "measure (\<lambda>(path, i). length path - i)") (auto dest!: index_byte_SomeD)

declare dotSegmentIndex_from.simps [simp del]

definition dotSegmentIndex :: "string \<Rightarrow> nat option" where
  "dotSegmentIndex path = dotSegmentIndex_from path 0"

definition hasDotSegment :: "string \<Rightarrow> bool" where
  "hasDotSegment path \<longleftrightarrow> dotSegmentIndex path \<noteq> None"

text \<open>The inner loop of the default case: copy up to the next slash.\<close>

function copy_segment :: "string \<Rightarrow> nat \<Rightarrow> nat \<Rightarrow> string \<Rightarrow> nat \<times> nat \<times> string" where
  "copy_segment path r w buf =
     (if r < length path \<and> path ! r \<noteq> slashDelim
      then copy_segment path (r + 1) (w + 1) (bufApp buf path w (path ! r))
      else (r, w, buf))"
  by pat_completeness auto
termination by (relation "measure (\<lambda>(path, r, w, buf). length path - r)") auto

declare copy_segment.simps [simp del]

lemma copy_segment_ge: "r \<le> fst (copy_segment path r w buf)"
proof (induction path r w buf rule: copy_segment.induct)
  case (1 path r w buf)
  show ?case
  proof (cases "r < length path \<and> path ! r \<noteq> slashDelim")
    case True
    with 1 show ?thesis by (subst copy_segment.simps) simp
  next
    case False
    then show ?thesis by (subst copy_segment.simps) auto
  qed
qed

lemma copy_segment_gt:
  "r < length path \<Longrightarrow> path ! r \<noteq> slashDelim \<Longrightarrow> r < fst (copy_segment path r w buf)"
  using copy_segment_ge [of "r + 1" path "w + 1" "bufApp buf path w (path ! r)"]
  by (subst copy_segment.simps) simp

text \<open>The default case: move one segment, with its leading slash, to the output.\<close>

definition move_segment :: "string \<Rightarrow> nat \<Rightarrow> nat \<Rightarrow> string \<Rightarrow> nat \<times> nat \<times> string" where
  "move_segment path r w buf =
     (if path ! r = slashDelim then copy_segment path (r + 1) (w + 1) (bufApp buf path w slashDelim)
      else copy_segment path r w buf)"

lemma move_segment_gt: "r < length path \<Longrightarrow> r < fst (move_segment path r w buf)"
  using copy_segment_ge [of "r + 1" path "w + 1" "bufApp buf path w slashDelim"]
    copy_segment_gt [of r path w buf]
  by (auto simp: move_segment_def)

text \<open>The write position after a \<open>".."\<close> removed the last segment of the output.\<close>

definition pop_segment :: "string \<Rightarrow> nat \<Rightarrow> string \<Rightarrow> nat" where
  "pop_segment path w buf =
     (case last_index_byte (take w (if buf = [] then path else buf)) slashDelim of
        Some i \<Rightarrow> i | None \<Rightarrow> 0)"

text \<open>
  The main loop of \<open>CollapseDotSegments\<close>, in the order of the cases of its \<open>switch\<close>. The result is
  the final write position and buffer, or \<open>None\<close> for \<open>ok = false\<close>.
\<close>

function collapse_loop :: "string \<Rightarrow> nat \<Rightarrow> nat \<Rightarrow> string \<Rightarrow> (nat \<times> string) option" where
  "collapse_loop path r w buf =
     (if \<not> r < length path then Some (w, buf)
      else if path ! r = dotDelim \<and> r + 1 = length path then collapse_loop path (r + 1) w buf
      else if path ! r = dotDelim \<and> path ! (r + 1) = slashDelim then collapse_loop path (r + 2) w buf
      else if path ! r = dotDelim \<and> path ! (r + 1) = dotDelim \<and>
              (r + 2 = length path \<or> path ! (r + 2) = slashDelim) then None
      else if path ! r = slashDelim \<and> r + 1 < length path \<and> path ! (r + 1) = dotDelim \<and>
              (r + 2 = length path \<or> path ! (r + 2) = slashDelim) then
        (if r + 2 = length path
         then collapse_loop path (r + 2) (w + 1) (bufApp buf path w slashDelim)
         else collapse_loop path (r + 2) w buf)
      else if path ! r = slashDelim \<and> r + 2 < length path \<and> path ! (r + 1) = dotDelim \<and>
              path ! (r + 2) = dotDelim \<and> (r + 3 = length path \<or> path ! (r + 3) = slashDelim) then
        (if w = 0 then None
         else if r + 3 = length path
         then collapse_loop path (r + 3) (pop_segment path w buf + 1)
                (bufApp buf path (pop_segment path w buf) slashDelim)
         else collapse_loop path (r + 3) (pop_segment path w buf) buf)
      else (case move_segment path r w buf of (r', w', buf') \<Rightarrow> collapse_loop path r' w' buf'))"
  by pat_completeness auto
termination
proof (relation "measure (\<lambda>(path, r, w, buf). length path - r)")
  fix path :: string and r w :: nat and buf r' z w' buf'
  assume "\<not> \<not> r < length path" and "(r', z) = move_segment path r w buf" and "(w', buf') = z"
  then have "r < r'" using move_segment_gt [of r path w buf] by (metis fst_conv)
  with \<open>\<not> \<not> r < length path\<close>
  show "((path, r', w', buf'), path, r, w, buf) \<in> measure (\<lambda>(path, r, w, buf). length path - r)"
    by simp
qed auto

declare collapse_loop.simps [simp del]

definition CollapseDotSegments :: "string \<Rightarrow> string option" where
  "CollapseDotSegments path =
     (case dotSegmentIndex path of
        None \<Rightarrow> Some path
      | Some i \<Rightarrow>
          (case collapse_loop path i i [] of
             None \<Rightarrow> None
           | Some (w, buf) \<Rightarrow> if buf = [] then Some (take w path) else Some (take w buf)))"

subsection \<open>Dot-segment removal on segments\<close>

text \<open>
  The specification works on the list of segments of a rooted path and a stack of kept segments
  (last one first). A dot segment at the end leaves an empty segment, the trailing slash.
\<close>

fun collapse_segs :: "string list \<Rightarrow> string list \<Rightarrow> string list option" where
  "collapse_segs [] st = Some (rev st)"
| "collapse_segs (s # ss) st =
     (if s = ''.'' then (if ss = [] then Some (rev ([] # st)) else collapse_segs ss st)
      else if s = ''..'' then
        (case st of [] \<Rightarrow> None
         | t # st' \<Rightarrow> if ss = [] then Some (rev ([] # st')) else collapse_segs ss st')
      else collapse_segs ss (s # st))"

definition slash_free :: "string list \<Rightarrow> bool" where
  "slash_free ss \<longleftrightarrow> (\<forall>s \<in> set ss. slashDelim \<notin> set s)"

lemma slash_free_simps [simp]:
  "slash_free []" "slash_free (s # ss) \<longleftrightarrow> slashDelim \<notin> set s \<and> slash_free ss"
  "slash_free (ss @ ts) \<longleftrightarrow> slash_free ss \<and> slash_free ts"
  by (auto simp: slash_free_def)

lemma join_hd: "join_after slashDelim ss = [] \<or> join_after slashDelim ss ! 0 = slashDelim"
  by (cases ss) auto

lemma segment_is_dot:
  assumes "slashDelim \<notin> set s" "u = [] \<or> u ! 0 = slashDelim" "X = slashDelim # s @ u"
  shows "(1 < length X \<and> X ! 1 = dotDelim \<and> (2 = length X \<or> X ! 2 = slashDelim)) \<longleftrightarrow> s = ''.''"
proof (cases s)
  case Nil
  with assms show ?thesis by (cases u) auto
next
  case (Cons a s')
  with assms show ?thesis by (cases s'; cases u) auto
qed

lemma segment_is_dotdot:
  assumes "slashDelim \<notin> set s" "u = [] \<or> u ! 0 = slashDelim" "X = slashDelim # s @ u"
  shows "(2 < length X \<and> X ! 1 = dotDelim \<and> X ! 2 = dotDelim \<and> (3 = length X \<or> X ! 3 = slashDelim))
           \<longleftrightarrow> s = ''..''"
proof (cases s)
  case Nil
  with assms show ?thesis by (cases u) (auto simp: nth_Cons')
next
  case (Cons a s')
  with assms show ?thesis
  proof (cases s')
    case Nil
    with Cons assms show ?thesis by (cases u) (auto simp: nth_Cons')
  next
    case Cons2: (Cons b s'')
    with Cons assms show ?thesis by (cases s''; cases u) (auto simp: nth_Cons')
  qed
qed

lemma copy_segment_spec:
  assumes "copy_segment path r w buf = (r', w', buf')" "r \<le> length path" "w \<le> r" "buf_ok path buf"
  shows "drop r path = takeWhile (\<lambda>c. c \<noteq> slashDelim) (drop r path) @ drop r' path
       \<and> take w' (buf_view path buf') = take w (buf_view path buf) @ takeWhile (\<lambda>c. c \<noteq> slashDelim) (drop r path)
       \<and> r' \<le> length path \<and> w' \<le> r' \<and> buf_ok path buf'"
  using assms
proof (induction path r w buf rule: copy_segment.induct)
  case (1 path r w buf)
  show ?case
  proof (cases "r < length path \<and> path ! r \<noteq> slashDelim")
    case True
    then have drop: "drop r path = path ! r # drop (r + 1) path" by (simp add: Cons_nth_drop_Suc)
    have "copy_segment path (r + 1) (w + 1) (bufApp buf path w (path ! r)) = (r', w', buf')"
      using "1.prems"(1) True by (subst (asm) copy_segment.simps) simp
    with "1.IH" [OF True] "1.prems" True drop show ?thesis
      by (simp add: buf_ok_app buf_app_view)
  next
    case False
    with "1.prems" have eq: "r' = r \<and> w' = w \<and> buf' = buf"
      by (subst (asm) copy_segment.simps) auto
    have "takeWhile (\<lambda>c. c \<noteq> slashDelim) (drop r path) = []"
    proof (cases "r < length path")
      case True
      with False have "drop r path = slashDelim # drop (r + 1) path"
        by (metis Cons_nth_drop_Suc Suc_eq_plus1)
      then show ?thesis by simp
    qed simp
    with "1.prems" eq show ?thesis by simp
  qed
qed

lemma takeWhile_segment:
  assumes "slashDelim \<notin> set s"
  shows "takeWhile (\<lambda>c. c \<noteq> slashDelim) (s @ join_after slashDelim ss) = s"
proof -
  have "takeWhile (\<lambda>c. c \<noteq> slashDelim) s = s" using assms by (auto simp: takeWhile_eq_all_conv)
  moreover have "takeWhile (\<lambda>c. c \<noteq> slashDelim) (join_after slashDelim ss) = []" by (cases ss) auto
  ultimately show ?thesis using assms by (subst takeWhile_append) auto
qed

lemma move_segment_spec:
  assumes "move_segment path r w buf = (r', w', buf')" "w \<le> r" "buf_ok path buf"
    and "drop r path = slashDelim # s @ join_after slashDelim ss" "slashDelim \<notin> set s"
  shows "drop r' path = join_after slashDelim ss
       \<and> take w' (buf_view path buf') = take w (buf_view path buf) @ slashDelim # s
       \<and> r' \<le> length path \<and> w' \<le> r' \<and> buf_ok path buf'"
proof -
  have lt: "r < length path" using assms(4) by (metis drop_eq_Nil leI list.distinct(1))
  have r: "path ! r = slashDelim" "drop (r + 1) path = s @ join_after slashDelim ss"
    using assms(4) lt by (metis nth_via_drop, metis Suc_eq_plus1 drop_Suc list.sel(3) tl_drop)
  have cs: "copy_segment path (r + 1) (w + 1) (bufApp buf path w slashDelim) = (r', w', buf')"
    using assms(1) r by (simp add: move_segment_def)
  from copy_segment_spec [OF cs] lt assms(2,3) r(2) takeWhile_segment [OF assms(5), of ss]
  have "s @ join_after slashDelim ss = s @ drop r' path
      \<and> take w' (buf_view path buf') = take (Suc w) (buf_view path (bufApp buf path w slashDelim)) @ s
      \<and> r' \<le> length path \<and> w' \<le> r' \<and> buf_ok path buf'"
    by (simp add: buf_ok_app)
  with lt assms(2,3) show ?thesis by (simp add: buf_app_view)
qed

lemma pop_segment_spec:
  assumes "take w (buf_view path buf) = join_after slashDelim (rev (t # st))" "slashDelim \<notin> set t"
    and "buf_ok path buf" "w \<le> length path"
  shows "pop_segment path w buf < w
       \<and> take (pop_segment path w buf) (buf_view path buf) = join_after slashDelim (rev st)"
proof -
  let ?o = "join_after slashDelim (rev st)"
  have o: "take w (buf_view path buf) = ?o @ slashDelim # t" using assms(1) by simp
  have "last_index_byte t slashDelim = None" using assms(2) by (simp add: last_index_byte_None)
  then have "last_index_byte (?o @ slashDelim # t) slashDelim = Some (length ?o)"
    by (simp add: last_index_byte_append)
  then have pop: "pop_segment path w buf = length ?o"
    using o by (simp add: pop_segment_def buf_view_def)
  have "length ?o < w"
    using o length_buf_view [OF assms(3)] assms(4) by (metis length_append length_take less_add_Suc1
        add_Suc_right length_Cons min.absorb2)
  moreover have "take (length ?o) (buf_view path buf) = ?o"
    using o \<open>length ?o < w\<close> by (metis append_eq_conv_conj less_imp_le_nat min_def take_take)
  ultimately show ?thesis using pop by simp
qed

definition collapse_out :: "string \<Rightarrow> (nat \<times> string) option \<Rightarrow> string option" where
  "collapse_out path = map_option (\<lambda>(w, buf). take w (buf_view path buf))"

text \<open>The loop over bytes and a lazily allocated buffer refines the stack of segments.\<close>

lemma collapse_loop_refines:
  assumes "drop r path = join_after slashDelim todo" "slash_free todo"
    and "take w (buf_view path buf) = join_after slashDelim (rev st)" "slash_free st"
    and "buf_ok path buf" "w \<le> r" "r \<le> length path"
  shows "collapse_out path (collapse_loop path r w buf)
           = map_option (join_after slashDelim) (collapse_segs todo st)"
  using assms
proof (induction todo arbitrary: r w buf st)
  case Nil
  then have "collapse_loop path r w buf = Some (w, buf)" by (subst collapse_loop.simps) simp
  with Nil show ?case by (simp add: collapse_out_def)
next
  case (Cons s ss)
  let ?X = "slashDelim # s @ join_after slashDelim ss"
  have X: "drop r path = ?X" and s: "slashDelim \<notin> set s" "slash_free ss"
    using Cons.prems by auto
  have len: "length path = r + length ?X" and nth: "\<And>k. path ! (r + k) = ?X ! k"
    using X Cons.prems(7) by (metis le_add_diff_inverse length_drop, metis nth_drop)
  have lt: "r < length path" and hd: "path ! r = slashDelim" using len nth [of 0] by auto
  have char_neq: "slashDelim \<noteq> dotDelim" by simp
  have w: "w = 0 \<longleftrightarrow> st = []"
    using Cons.prems(3,5,6,7) length_buf_view [of path buf] by (cases st) (auto intro: gr0I)
  have dot: "(r + 1 < length path \<and> path ! (r + 1) = dotDelim \<and>
      (r + 2 = length path \<or> path ! (r + 2) = slashDelim)) \<longleftrightarrow> s = ''.''"
    using segment_is_dot [OF s(1) join_hd refl, of ss]
    by (simp only: len nth add_less_cancel_left add_left_cancel)
  have dotdot: "(r + 2 < length path \<and> path ! (r + 1) = dotDelim \<and> path ! (r + 2) = dotDelim \<and>
      (r + 3 = length path \<or> path ! (r + 3) = slashDelim)) \<longleftrightarrow> s = ''..''"
    using segment_is_dotdot [OF s(1) join_hd refl, of ss]
    by (simp only: len nth add_less_cancel_left add_left_cancel)
  have step: "collapse_loop path r w buf =
      (if s = ''.'' then
        (if r + 2 = length path then collapse_loop path (r + 2) (w + 1) (bufApp buf path w slashDelim)
         else collapse_loop path (r + 2) w buf)
      else if s = ''..'' then
        (if w = 0 then None
         else if r + 3 = length path
         then collapse_loop path (r + 3) (pop_segment path w buf + 1)
                (bufApp buf path (pop_segment path w buf) slashDelim)
         else collapse_loop path (r + 3) (pop_segment path w buf) buf)
      else (case move_segment path r w buf of (r', w', buf') \<Rightarrow> collapse_loop path r' w' buf'))"
    using lt hd char_neq by (subst collapse_loop.simps)
      (simp only: dot dotdot not_False_eq_True not_True_eq_False simp_thms if_True if_False)
  have stop: "\<And>w buf. collapse_loop path (length path) w buf = Some (w, buf)"
    by (subst collapse_loop.simps) simp
  consider (d) "s = ''.''" | (dd) "s = ''..''" | (m) "s \<noteq> ''.''" "s \<noteq> ''..''" by blast
  then show ?case
  proof cases
    case d
    show ?thesis
    proof (cases "ss = []")
      case True
      with d len have "r + 2 = length path" by simp
      with d True step stop Cons.prems lt show ?thesis by (simp add: collapse_out_def buf_app_view)
    next
      case False
      then have "r + 2 \<noteq> length path" using d len by (cases ss) auto
      moreover have "drop (r + 2) path = join_after slashDelim ss"
        using X d by (metis add.commute append_Cons append_Nil drop_Suc_Cons drop_drop drop0 numeral_2_eq_2)
      ultimately show ?thesis
        using Cons.IH [of "r + 2" w buf st] d False step Cons.prems len by simp
    qed
  next
    case dd
    show ?thesis
    proof (cases st)
      case Nil
      with dd step w show ?thesis by (simp add: collapse_out_def)
    next
      case (Cons t st')
      with w have "w \<noteq> 0" by simp
      have pop: "pop_segment path w buf < w"
        "take (pop_segment path w buf) (buf_view path buf) = join_after slashDelim (rev st')"
        using pop_segment_spec [of w path buf t st'] Cons Cons.prems by simp_all
      show ?thesis
      proof (cases "ss = []")
        case True
        with dd len have "r + 3 = length path" by simp
        with dd True step stop Cons Cons.prems lt pop \<open>w \<noteq> 0\<close> show ?thesis
          by (simp add: collapse_out_def buf_app_view)
      next
        case False
        then have "r + 3 \<noteq> length path" using dd len by (cases ss) auto
        moreover have "drop (r + 3) path = join_after slashDelim ss"
          using X dd by (metis add.commute append_Cons append_Nil drop_Suc_Cons drop_drop drop0 numeral_3_eq_3)
        ultimately show ?thesis
          using Cons.IH [of "r + 3" "pop_segment path w buf" buf st'] dd False step Cons Cons.prems
            len pop \<open>w \<noteq> 0\<close> by simp
      qed
    qed
  next
    case m
    obtain r' w' buf' where mv: "move_segment path r w buf = (r', w', buf')" by (metis prod_cases3)
    from move_segment_spec [OF mv Cons.prems(6,5) X s(1)] m step mv
    show ?thesis using Cons.IH [of r' w' buf' "s # st"] Cons.prems s by simp
  qed
qed

text \<open>
  \<open>dotSegmentIndex\<close> on a rooted path: nothing before the returned position is a dot segment, and the
  position starts one.
\<close>

definition is_dot :: "string \<Rightarrow> bool" where
  "is_dot s \<longleftrightarrow> s = ''.'' \<or> s = ''..''"

lemma index_byte_free_append: "c \<notin> set s \<Longrightarrow> index_byte (s @ c # t) c = Some (length s)"
  by (induction s) auto

lemma collapse_segs_no_dots:
  "\<forall>s \<in> set ss. \<not> is_dot s \<Longrightarrow> collapse_segs (ss @ ts) st = collapse_segs ts (rev ss @ st)"
  by (induction ss arbitrary: st) (auto simp: is_dot_def)

lemma collapse_segs_step:
  assumes "collapse_segs (s # ss) st = Some rs"
  obtains (keep) "\<not> is_dot s" "collapse_segs ss (s # st) = Some rs"
  | (stop) st' t where "is_dot s" "st' = st \<or> st = t # st'" "ss = []" "rs = rev ([] # st')"
  | (drop) st' t where "is_dot s" "st' = st \<or> st = t # st'" "collapse_segs ss st' = Some rs"
proof (cases "is_dot s")
  case False
  with assms show ?thesis using keep by (simp add: is_dot_def)
next
  case True
  show ?thesis
  proof (cases "s = ''.''")
    case True
    with assms \<open>is_dot s\<close> show ?thesis using stop [of st "[]"] drop [of st "[]"] by (simp split: if_splits)
  next
    case False
    with True assms obtain t st' where "s = ''..''" "st = t # st'"
      by (auto simp: is_dot_def split: list.splits)
    with True assms show ?thesis using stop [of st' t] drop [of st' t] by (auto split: if_splits)
  qed
qed

lemma collapse_segs_result_no_dots:
  "collapse_segs ss st = Some rs \<Longrightarrow> \<forall>s \<in> set st. \<not> is_dot s \<Longrightarrow> \<forall>s \<in> set rs. \<not> is_dot s"
proof (induction ss arbitrary: st)
  case (Cons s ss)
  from Cons.prems(1) show ?case
  proof (cases rule: collapse_segs_step)
    case keep
    with Cons show ?thesis by (metis set_ConsD)
  next
    case (stop st' t)
    moreover have "\<not> is_dot []" by (simp add: is_dot_def)
    ultimately show ?thesis using Cons.prems(2) by auto
  next
    case (drop st' t)
    then have "\<forall>s \<in> set st'. \<not> is_dot s" using Cons.prems(2) by auto
    with drop(3) show ?thesis by (rule Cons.IH)
  qed
qed auto

lemma collapse_segs_slash_free:
  "collapse_segs ss st = Some rs \<Longrightarrow> slash_free ss \<Longrightarrow> slash_free st \<Longrightarrow> slash_free rs"
proof (induction ss arbitrary: st)
  case (Cons s ss)
  from Cons.prems(1) show ?case
  proof (cases rule: collapse_segs_step)
    case keep
    with Cons show ?thesis by simp
  next
    case (stop st' t)
    with Cons.prems(3) show ?thesis by (auto simp: slash_free_def)
  next
    case (drop st' t)
    then have "slash_free st'" using Cons.prems(3) by (auto simp: slash_free_def)
    with drop Cons show ?thesis by simp
  qed
qed (auto simp: slash_free_def)

text \<open>One step of the scan, at a byte that starts a segment.\<close>

lemma dsi_skip: "j < length path \<Longrightarrow> path ! j \<noteq> dotDelim \<Longrightarrow>
  dotSegmentIndex_from path j = dotSegmentIndex_from path (Suc j)"
proof -
  assume j: "j < length path" "path ! j \<noteq> dotDelim"
  then have ib: "index_byte (drop j path) dotDelim = map_option Suc (index_byte (drop (Suc j) path) dotDelim)"
    by (simp add: Cons_nth_drop_Suc [symmetric])
  show ?thesis
  proof (cases "index_byte (drop (Suc j) path) dotDelim")
    case None
    with ib show ?thesis by (simp add: dotSegmentIndex_from.simps [of path j]
          dotSegmentIndex_from.simps [of path "Suc j"])
  next
    case (Some k)
    with ib show ?thesis unfolding dotSegmentIndex_from.simps [of path j]
        dotSegmentIndex_from.simps [of path "Suc j"] by (simp add: Let_def)
  qed
qed

lemma dsi_dot: "j < length path \<Longrightarrow> path ! j = dotDelim \<Longrightarrow>
  dotSegmentIndex_from path j =
    (if (j = 0 \<or> path ! (j - 1) = slashDelim) \<and>
        (j + 1 = length path \<or> path ! (j + 1) = slashDelim \<or>
         path ! (j + 1) = dotDelim \<and> (j + 2 = length path \<or> path ! (j + 2) = slashDelim))
     then Some (j - 1) else dotSegmentIndex_from path (Suc j))"
  by (subst dotSegmentIndex_from.simps) (auto simp: Cons_nth_drop_Suc [symmetric])

lemma dsi_end: "length path \<le> j \<Longrightarrow> dotSegmentIndex_from path j = None"
  by (simp add: dotSegmentIndex_from.simps [of path j])

text \<open>Inside a segment the scan never succeeds, whatever the bytes.\<close>

lemma dsi_inside:
  assumes "drop j path = s @ join_after slashDelim ss" "slashDelim \<notin> set s"
    and "0 < j" "path ! (j - 1) \<noteq> slashDelim" "j \<le> length path"
  shows "dotSegmentIndex_from path j = dotSegmentIndex_from path (j + length s)"
  using assms
proof (induction s arbitrary: j)
  case (Cons a s)
  have lt: "j < length path" and a: "path ! j = a" and drop: "drop (Suc j) path = s @ join_after slashDelim ss"
    using Cons.prems(1) by (metis drop_eq_Nil leI append_Cons list.distinct(1),
        metis append_Cons nth_via_drop, metis append_Cons drop_Suc list.sel(3) tl_drop)
  have "dotSegmentIndex_from path j = dotSegmentIndex_from path (Suc j)"
    using Cons.prems lt a by (cases "a = dotDelim") (auto simp: dsi_skip dsi_dot)
  also have "\<dots> = dotSegmentIndex_from path (Suc j + length s)"
    using Cons.IH [OF drop] Cons.prems lt a by auto
  finally show ?case by simp
qed simp

lemma dsi_segment:
  assumes "drop j path = slashDelim # s @ join_after slashDelim ss" "slashDelim \<notin> set s"
  shows "dotSegmentIndex_from path j =
           (if is_dot s then Some j else dotSegmentIndex_from path (j + 1 + length s))"
proof -
  let ?X = "slashDelim # s @ join_after slashDelim ss"
  have lt: "j < length path" using assms(1) by (metis drop_eq_Nil leI list.distinct(1))
  then have len: "length path = j + length ?X" and nth: "\<And>k. path ! (j + k) = ?X ! k"
    using assms(1) by (metis le_add_diff_inverse less_imp_le length_drop, metis less_imp_le nth_drop)
  have j0: "path ! j = slashDelim" using nth [of 0] by simp
  have drop1: "drop (j + 1) path = s @ join_after slashDelim ss"
    using assms(1) by (metis Suc_eq_plus1 drop_Suc list.sel(3) tl_drop)
  have skip: "dotSegmentIndex_from path j = dotSegmentIndex_from path (j + 1)"
    using dsi_skip [OF lt] j0 by simp
  show ?thesis
  proof (cases s)
    case Nil
    with skip show ?thesis by (simp add: is_dot_def)
  next
    case (Cons a s')
    have lt1: "j + 1 < length path" using len Cons by simp
    have a: "path ! (j + 1) = a" using nth [of 1] Cons by simp
    have rest: "dotSegmentIndex_from path (Suc (j + 1)) = dotSegmentIndex_from path (j + 1 + length s)"
    proof -
      have "drop (Suc (j + 1)) path = s' @ join_after slashDelim ss"
        using drop1 Cons by (metis append_Cons drop_Suc list.sel(3) tl_drop)
      from dsi_inside [OF this] show ?thesis using Cons assms(2) a lt1 by auto
    qed
    have dots: "(path ! (j + 1) = dotDelim \<and>
        (j + 2 = length path \<or> path ! (j + 2) = slashDelim \<or>
         path ! (j + 2) = dotDelim \<and> (j + 3 = length path \<or> path ! (j + 3) = slashDelim))) \<longleftrightarrow> is_dot s"
    proof -
      obtain X where X: "X = ?X" by simp
      have "1 < length X" using X Cons by simp
      moreover have "(1 < length X \<and> X ! 1 = dotDelim \<and> (2 = length X \<or> X ! 2 = slashDelim)) \<longleftrightarrow> s = ''.''"
        unfolding X by (rule segment_is_dot [OF assms(2) join_hd refl])
      moreover have "(2 < length X \<and> X ! 1 = dotDelim \<and> X ! 2 = dotDelim \<and>
          (3 = length X \<or> X ! 3 = slashDelim)) \<longleftrightarrow> s = ''..''"
        unfolding X by (rule segment_is_dotdot [OF assms(2) join_hd refl])
      ultimately show ?thesis
        unfolding nth len X [symmetric] add_left_cancel is_dot_def by linarith
    qed
    show ?thesis
    proof (cases "a = dotDelim")
      case True
      with a dots dsi_dot [OF lt1] j0 skip rest show ?thesis by (simp add: numeral_3_eq_3)
    next
      case False
      with a dots dsi_skip [OF lt1] skip rest show ?thesis by auto
    qed
  qed
qed

lemma dsi_segments:
  assumes "drop j path = join_after slashDelim (ss @ ts)" "slash_free (ss @ ts)" "\<forall>s \<in> set ss. \<not> is_dot s"
  shows "dotSegmentIndex_from path j = dotSegmentIndex_from path (j + length (join_after slashDelim ss))"
  using assms
proof (induction ss arbitrary: j)
  case (Cons s ss)
  have "dotSegmentIndex_from path j = dotSegmentIndex_from path (j + 1 + length s)"
    using dsi_segment [of j path s "ss @ ts"] Cons.prems by simp
  also have "\<dots> = dotSegmentIndex_from path (j + 1 + length s + length (join_after slashDelim ss))"
  proof (rule Cons.IH)
    have "drop (j + 1 + length s) path = drop (1 + length s) (drop j path)" by (simp add: ac_simps)
    with Cons.prems(1) show "drop (j + 1 + length s) path = join_after slashDelim (ss @ ts)" by simp
  qed (use Cons.prems in auto)
  finally show ?case by (simp add: add.assoc)
qed simp

lemma dsi_first_dot:
  assumes "slash_free (ss @ d # ts)" "\<forall>s \<in> set ss. \<not> is_dot s" "is_dot d"
  shows "dotSegmentIndex (join_after slashDelim (ss @ d # ts)) = Some (length (join_after slashDelim ss))"
  unfolding dotSegmentIndex_def
  using dsi_segments [of 0 "join_after slashDelim (ss @ d # ts)" ss "d # ts"] assms
    dsi_segment [of "length (join_after slashDelim ss)" "join_after slashDelim (ss @ d # ts)" d ts]
  by simp

lemma dsi_no_dots:
  assumes "slash_free ss" "\<forall>s \<in> set ss. \<not> is_dot s"
  shows "dotSegmentIndex (join_after slashDelim ss) = None"
  unfolding dotSegmentIndex_def
  using dsi_segments [of 0 "join_after slashDelim ss" ss "[]"] assms by (simp add: dsi_end)

lemma slash_free_split: "slash_free (split_byte slashDelim s)"
  by (auto simp: slash_free_def dest: split_byte_free)

lemma hasDotSegment_join:
  "slash_free ss \<Longrightarrow> hasDotSegment (join_after slashDelim ss) \<longleftrightarrow> (\<exists>s \<in> set ss. is_dot s)"
proof (cases "\<exists>s \<in> set ss. is_dot s")
  case True
  assume "slash_free ss"
  moreover obtain us d ts where "ss = us @ d # ts" "is_dot d" "\<forall>s \<in> set us. \<not> is_dot s"
    using split_list_first_prop [OF True] by blast
  ultimately show ?thesis using dsi_first_dot [of us d ts] by (auto simp: hasDotSegment_def)
qed (auto simp: hasDotSegment_def dsi_no_dots)

lemma Collapse_join:
  assumes "slash_free ss"
  shows "CollapseDotSegments (join_after slashDelim ss) = map_option (join_after slashDelim) (collapse_segs ss [])"
proof (cases "\<exists>s \<in> set ss. is_dot s")
  case True
  obtain us d ts where ss: "ss = us @ d # ts" "is_dot d" "\<forall>s \<in> set us. \<not> is_dot s"
    using split_list_first_prop [OF True] by blast
  let ?p = "join_after slashDelim ss" and ?i = "length (join_after slashDelim us)"
  have "collapse_out ?p (collapse_loop ?p ?i ?i []) = map_option (join_after slashDelim) (collapse_segs (d # ts) (rev us))"
    using ss assms by (intro collapse_loop_refines) (auto simp: slash_free_def buf_view_def)
  moreover have "collapse_segs ss [] = collapse_segs (d # ts) (rev us)"
    using collapse_segs_no_dots [OF ss(3), of "d # ts" "[]"] ss(1) by simp
  moreover have "CollapseDotSegments ?p = collapse_out ?p (collapse_loop ?p ?i ?i [])"
    using dsi_first_dot ss assms
    by (auto simp: CollapseDotSegments_def collapse_out_def buf_view_def split: option.split)
  ultimately show ?thesis by simp
next
  case False
  with assms collapse_segs_no_dots [of ss "[]" "[]"] show ?thesis
    by (simp add: CollapseDotSegments_def dsi_no_dots)
qed

lemma rooted_join: "has_prefix path [slashDelim] \<Longrightarrow> join_after slashDelim (split_byte slashDelim (tl path)) = path"
  by (cases path) auto

lemma rooted_tl: "has_prefix path [slashDelim] \<Longrightarrow> slashDelim # tl path = path"
  by (cases path) auto

lemma collapse_segs_length:
  "collapse_segs ss st = Some rs \<Longrightarrow>
     rs = rev st @ ss \<or> length (join_after slashDelim rs) < length (join_after slashDelim (rev st @ ss))"
proof (induction ss arbitrary: st)
  case (Cons s ss)
  from Cons.prems show ?case
  proof (cases rule: collapse_segs_step)
    case keep
    with Cons.IH [of "s # st"] show ?thesis by simp
  next
    case (stop st' t)
    moreover have "0 < length s" using stop(1) by (auto simp: is_dot_def)
    ultimately show ?thesis by auto
  next
    case (drop st' t)
    with Cons.IH [OF drop(3)] show ?thesis by auto
  qed
qed simp

lemma collapse_segs_result_nonempty:
  "collapse_segs ss st = Some rs \<Longrightarrow> ss \<noteq> [] \<or> st \<noteq> [] \<Longrightarrow> rs \<noteq> []"
proof (induction ss arbitrary: st)
  case (Cons s ss)
  from Cons.prems(1) show ?case
  proof (cases rule: collapse_segs_step)
    case keep
    with Cons.IH [of "s # st"] show ?thesis by simp
  next
    case (drop st' t)
    show ?thesis
    proof (cases "ss = []")
      case True
      with Cons.prems(1) show ?thesis by (auto split: if_splits list.splits)
    qed (rule Cons.IH [OF drop(3)], simp)
  qed simp
qed auto

section \<open>Redirect helpers\<close>

definition escapeLeadingSlashes :: "string \<Rightarrow> string" where
  "escapeLeadingSlashes uri =
     (if length uri > 2 \<and> (uri ! 0 = CHR 0x5C \<or> uri ! 0 = slashDelim) then
        (if uri ! 1 = slashDelim then take 1 uri @ ''%2F'' @ drop 2 uri
         else if uri ! 1 = CHR 0x5C then take 1 uri @ ''%5C'' @ drop 2 uri
         else uri)
      else uri)"

definition fixTrailingSlash :: "string \<Rightarrow> string" where
  "fixTrailingSlash path =
     (if length path > 1 \<and> path ! (length path - 1) = slashDelim then take (length path - 1) path
      else path @ [slashDelim])"

text \<open>A location a browser would resolve against another host: two leading slashes or backslashes.\<close>

definition protocol_relative :: "string \<Rightarrow> bool" where
  "protocol_relative s \<longleftrightarrow> length s \<ge> 2 \<and> (s ! 0 = slashDelim \<or> s ! 0 = CHR 0x5C) \<and>
     (s ! 1 = slashDelim \<or> s ! 1 = CHR 0x5C)"

lemma fixTrailingSlash_cases:
  "fixTrailingSlash path =
     (if length path > 1 \<and> last path = slashDelim then butlast path else path @ [slashDelim])"
  by (cases "path = []") (auto simp: fixTrailingSlash_def last_conv_nth butlast_conv_take)

lemma escapeLeadingSlashes_safe:
  assumes "length uri > 2"
  shows "\<not> protocol_relative (escapeLeadingSlashes uri)"
proof -
  obtain a b c where "uri = a # b # c" using assms by (metis Suc_lessE length_Suc_conv numeral_2_eq_2)
  then show ?thesis using assms
    by (auto simp: protocol_relative_def escapeLeadingSlashes_def numeral_2_eq_2)
qed

lemma fixTrailingSlash_involution:
  assumes "path \<noteq> []" "\<not> (length path > 2 \<and> has_suffix path ''//'')"
  shows "fixTrailingSlash (fixTrailingSlash path) = path"
proof (cases "length path > 1 \<and> last path = slashDelim")
  case True
  obtain q where q: "path = q @ [slashDelim]" "q \<noteq> []"
  proof
    show "path = butlast path @ [slashDelim]" using True assms(1) by (metis append_butlast_last_id)
    show "butlast path \<noteq> []" using True by (metis One_nat_def length_butlast list.size(3) zero_less_diff less_numeral_extra(3))
  qed
  have "\<not> (length q > 1 \<and> last q = slashDelim)"
  proof
    assume "length q > 1 \<and> last q = slashDelim"
    moreover from this have "q = butlast q @ [slashDelim]" using q(2) by (metis append_butlast_last_id)
    ultimately have "path = butlast q @ ''//''" "length path > 2" using q(1) by (simp, simp)
    with assms(2) show False by (metis has_suffix_append)
  qed
  with q show ?thesis by (auto simp: fixTrailingSlash_cases)
next
  case False
  with assms(1) show ?thesis by (auto simp: fixTrailingSlash_cases)
qed

section \<open>Properties of path normalisation\<close>

text \<open>
  C29. \<open>MergeSlashes\<close> computes exactly the path with every slash that follows a slash removed, its
  result has no two consecutive slashes, and a second application changes nothing; the path changes
  only if it gets shorter, which is what \<open>redirectRoutingPath\<close> relies on when it compares lengths.
\<close>

theorem MergeSlashes_correct:
  "MergeSlashes path = squeeze path \<and> no_double_slash (MergeSlashes path) \<and>
   MergeSlashes (MergeSlashes path) = MergeSlashes path \<and>
   (MergeSlashes path \<noteq> path \<longrightarrow> length (MergeSlashes path) < length path)"
  using length_squeeze [of path] squeeze_eq_length [of path]
  by (simp add: MergeSlashes_eq_squeeze no_double_slash_squeeze squeeze_id)
    (metis le_neq_implies_less)

theorem MergeSlashes_witness: "length (MergeSlashes ''/a//b///'') < length ''/a//b///''"
proof -
  have "squeeze ''/a//b///'' \<noteq> ''/a//b///''" by (simp add: squeeze_def)
  then show ?thesis using MergeSlashes_correct [of "''/a//b///''"] by metis
qed

text \<open>
  C27. On a rooted path, the byte loop of \<open>CollapseDotSegments\<close> with its lazily allocated output buffer
  implements the removal of dot segments on the list of segments (RFC 3986, 5.2.4, with empty segments
  kept and consumed by \<open>..\<close>); it reports \<open>ok = false\<close> exactly when a \<open>..\<close> finds no segment to remove.
\<close>

theorem CollapseDotSegments_refines:
  assumes "has_prefix path [slashDelim]"
  shows "CollapseDotSegments path =
           map_option (join_after slashDelim) (collapse_segs (split_byte slashDelim (tl path)) [])"
  using Collapse_join [OF slash_free_split, of "tl path"] assms by (simp add: rooted_tl)

theorem CollapseDotSegments_refines_witness:
  "CollapseDotSegments ''/a/./b/../c/..'' = Some ''/a/''"
  using CollapseDotSegments_refines [of "''/a/./b/../c/..''"] by simp

lemma Collapse_facts:
  assumes "has_prefix path [slashDelim]" and "CollapseDotSegments path = Some q"
  shows "\<not> hasDotSegment q \<and> has_prefix q [slashDelim] \<and> CollapseDotSegments q = Some q \<and>
         (q = path \<or> length q < length path)"
proof -
  let ?ss = "split_byte slashDelim (tl path)"
  have "map_option (join_after slashDelim) (collapse_segs ?ss []) = Some q"
    using assms Collapse_join [OF slash_free_split, of "tl path"] by (simp add: rooted_tl)
  then obtain rs where rs: "collapse_segs ?ss [] = Some rs" and q: "q = join_after slashDelim rs"
    by auto
  have free: "slash_free rs" using collapse_segs_slash_free [OF rs slash_free_split] by simp
  have clean: "\<forall>s \<in> set rs. \<not> is_dot s" using collapse_segs_result_no_dots [OF rs] by simp
  have "rs \<noteq> []" using collapse_segs_result_nonempty [OF rs] by simp
  then have "has_prefix q [slashDelim]" using q by (cases rs) auto
  moreover have "\<not> hasDotSegment q" using free clean q by (simp add: hasDotSegment_join)
  moreover have "CollapseDotSegments q = Some q"
    using Collapse_join [OF free] collapse_segs_no_dots [OF clean, of "[]" "[]"] q by simp
  moreover have "q = path \<or> length q < length path"
    using collapse_segs_length [OF rs] rooted_join [OF assms(1)] q by (metis append_Nil rev.simps(1))
  ultimately show ?thesis by blast
qed

text \<open>
  C28. A path that \<open>CollapseDotSegments\<close> accepts has no dot segment left (in the sense of
  \<open>hasDotSegment\<close>, which the router uses to refuse a redirect), is rooted again, is a fixed point, and
  is the input itself unless it is strictly shorter.
\<close>

theorem CollapseDotSegments_clean:
  assumes "has_prefix path [slashDelim]" and "CollapseDotSegments path = Some q"
  shows "\<not> hasDotSegment q \<and> has_prefix q [slashDelim] \<and> CollapseDotSegments q = Some q \<and>
         (q = path \<or> length q < length path)"
  by (rule Collapse_facts [OF assms])

theorem CollapseDotSegments_clean_witness: "\<not> hasDotSegment ''/a/c'' \<and> CollapseDotSegments ''/a/c'' = Some ''/a/c''"
proof -
  have "CollapseDotSegments ''/a/b/../c'' = Some ''/a/c''"
    using Collapse_join [OF slash_free_split, of "''a/b/../c''"] by simp
  then show ?thesis using CollapseDotSegments_clean [of "''/a/b/../c''"] by simp
qed

text \<open>
  The trailing-slash correction is undone by a second one, except on the empty path and on a path
  that ends in \<open>//\<close>; and the escaped target of a redirect longer than two bytes never starts with two
  slashes or backslashes, so a browser does not resolve it against another host.
\<close>

theorem trailing_slash_redirect_safe:
  assumes "path \<noteq> []" "\<not> (length path > 2 \<and> has_suffix path ''//'')"
    and "length (fixTrailingSlash path) > 2"
  shows "fixTrailingSlash (fixTrailingSlash path) = path \<and>
         \<not> protocol_relative (escapeLeadingSlashes (fixTrailingSlash path))"
  using fixTrailingSlash_involution [OF assms(1,2)] escapeLeadingSlashes_safe [OF assms(3)] by blast

theorem trailing_slash_redirect_safe_witness:
  "fixTrailingSlash (fixTrailingSlash ''//evil'') = ''//evil'' \<and>
   \<not> protocol_relative (escapeLeadingSlashes (fixTrailingSlash ''//evil''))"
  by (rule trailing_slash_redirect_safe) (auto simp: has_suffix_def fixTrailingSlash_def)

end
