(* ===== verification/Strings_Util.thy ===== *)
theory Strings_Util
  imports Prelude
begin

text \<open>
  Byte classes and percent-encoding (\<open>internal/stringsutil/stringutils.go\<close>). Bytes are compared and
  computed with through their value \<open>of_char\<close>; \<open>char_of\<close> reduces modulo 256, which is the wrap-around
  of Go's \<open>byte\<close>. The lookup tables of the Go package are the predicates they tabulate.
\<close>

unbundle bit_operations_syntax

abbreviation val :: "char \<Rightarrow> nat" where "val c \<equiv> of_char c"

lemma val_less_256 [simp]: "val c < 256"
  by (metis char_of_char of_char_of mod_less_divisor zero_less_numeral)

lemma char_eq_val: "a = b \<longleftrightarrow> val a = val b"
  by (metis char_of_char)

lemma val_char_of [simp]: "val (char_of n) = n mod 256"
  by simp

named_theorems byte_val "byte classes as ranges of byte values"

subsection \<open>Byte classes\<close>

definition is_lower :: "char \<Rightarrow> bool" where "is_lower c \<longleftrightarrow> CHR ''a'' \<le> c \<and> c \<le> CHR ''z''"
definition is_upper :: "char \<Rightarrow> bool" where "is_upper c \<longleftrightarrow> CHR ''A'' \<le> c \<and> c \<le> CHR ''Z''"
definition is_digit :: "char \<Rightarrow> bool" where "is_digit c \<longleftrightarrow> CHR ''0'' \<le> c \<and> c \<le> CHR ''9''"

text \<open>\<open>unreservedTab\<close>, \<open>pathNoEscape\<close> and \<open>pathKeepRaw\<close>, as filled by \<open>init\<close>.\<close>

definition IsUnreserved :: "char \<Rightarrow> bool" where
  "IsUnreserved b \<longleftrightarrow> is_lower b \<or> is_upper b \<or> is_digit b \<or> b \<in> set ''-._~''"

definition pathNoEscape :: "char \<Rightarrow> bool" where
  "pathNoEscape b \<longleftrightarrow> b \<in> set ''$&+,/:;=@'' \<or> IsUnreserved b"

definition IsRoutableRaw :: "char \<Rightarrow> bool" where
  "IsRoutableRaw b \<longleftrightarrow> b \<in> set (CHR 0x27 # ''!()*[]'') \<or> pathNoEscape b"

definition ToLowerASCII :: "char \<Rightarrow> char" where
  "ToLowerASCII b = (if CHR ''A'' \<le> b \<and> b \<le> CHR ''Z'' then char_of (val b + (val CHR ''a'' - val CHR ''A'')) else b)"

definition EqualASCIIIgnoreCase :: "char \<Rightarrow> char \<Rightarrow> bool" where
  "EqualASCIIIgnoreCase s t =
     (if t = s then True
      else let (s, t) = (if t < s then (t, s) else (s, t))
           in CHR ''A'' \<le> s \<and> s \<le> CHR ''Z'' \<and> t = char_of (val s + val CHR ''a'' - val CHR ''A''))"

fun all_equal_fold :: "string \<Rightarrow> string \<Rightarrow> bool" where
  "all_equal_fold (a # s) (b # t) = (if \<not> EqualASCIIIgnoreCase a b then False else all_equal_fold s t)"
| "all_equal_fold _ _ = True"

definition EqualStringsASCIIIgnoreCase :: "string \<Rightarrow> string \<Rightarrow> bool" where
  "EqualStringsASCIIIgnoreCase s1 s2 = (if length s1 \<noteq> length s2 then False else all_equal_fold s1 s2)"

subsection \<open>Hexadecimal digits\<close>

definition hexDigit :: "char \<Rightarrow> nat option" where
  "hexDigit c =
     (if CHR ''0'' \<le> c \<and> c \<le> CHR ''9'' then Some (val c - val CHR ''0'')
      else if CHR ''a'' \<le> c \<and> c \<le> CHR ''f'' then Some (val c - val CHR ''a'' + 10)
      else if CHR ''A'' \<le> c \<and> c \<le> CHR ''F'' then Some (val c - val CHR ''A'' + 10)
      else None)"

definition DecodeHexPair :: "char \<Rightarrow> char \<Rightarrow> char option" where
  "DecodeHexPair hi lo =
     (case hexDigit hi of None \<Rightarrow> None
      | Some h \<Rightarrow> (case hexDigit lo of None \<Rightarrow> None
                   | Some l \<Rightarrow> Some (char_of (push_bit 4 h OR l))))"

definition UpperHex :: "char \<Rightarrow> char" where
  "UpperHex c = (if CHR ''a'' \<le> c \<and> c \<le> CHR ''f'' then char_of (val c - (val CHR ''a'' - val CHR ''A'')) else c)"

definition upperhex :: string where "upperhex = ''0123456789ABCDEF''"

definition hex_hi :: "char \<Rightarrow> char" where "hex_hi c = upperhex ! (drop_bit 4 (val c))"
definition hex_lo :: "char \<Rightarrow> char" where "hex_lo c = upperhex ! (val c AND 0x0F)"

lemma is_upper_val [byte_val]: "is_upper c \<longleftrightarrow> 65 \<le> val c \<and> val c \<le> 90"
  by (simp add: is_upper_def less_eq_char_def)

lemma is_lower_val [byte_val]: "is_lower c \<longleftrightarrow> 97 \<le> val c \<and> val c \<le> 122"
  by (simp add: is_lower_def less_eq_char_def)

lemma is_digit_val [byte_val]: "is_digit c \<longleftrightarrow> 48 \<le> val c \<and> val c \<le> 57"
  by (simp add: is_digit_def less_eq_char_def)

lemma val_ToLowerASCII [byte_val]: "val (ToLowerASCII b) = (if is_upper b then val b + 32 else val b)"
  by (auto simp: ToLowerASCII_def is_upper_val less_eq_char_def)

lemma EqualASCIIIgnoreCase_val:
  "EqualASCIIIgnoreCase s t \<longleftrightarrow> val s = val t \<or> (is_upper s \<and> val t = val s + 32) \<or> (is_upper t \<and> val s = val t + 32)"
proof -
  have "\<And>a b. CHR ''A'' \<le> a \<and> a \<le> CHR ''Z'' \<and> b = char_of (val a + val CHR ''a'' - val CHR ''A'')
      \<longleftrightarrow> is_upper a \<and> val b = val a + 32"
    unfolding char_eq_val [of _ "char_of _"] is_upper_val by (auto simp: less_eq_char_def)
  then show ?thesis
    unfolding EqualASCIIIgnoreCase_def Let_def less_char_def by (auto simp: is_upper_val)
qed

lemma EqualASCIIIgnoreCase_lower: "EqualASCIIIgnoreCase s t \<longleftrightarrow> ToLowerASCII s = ToLowerASCII t"
  unfolding EqualASCIIIgnoreCase_val char_eq_val [of "ToLowerASCII s"] val_ToLowerASCII is_upper_val
  by (simp del: of_char_eq_iff) linarith

lemma nibbles_ident: "push_bit 4 (drop_bit 4 n) OR (n AND 15) = (n :: nat)"
proof -
  have "n AND 15 = take_bit 4 n" by (simp add: take_bit_eq_mask mask_eq_exp_minus_1)
  then show ?thesis by (simp only:) (rule bit_eqI, auto simp: bit_simps)
qed

lemma less_16_cases:
  "(n :: nat) < 16 \<Longrightarrow> n \<in> {0, 1, 2, 3, 4, 5, 6, 7, 8, 9, 10, 11, 12, 13, 14, 15}"
  unfolding insert_iff empty_iff by presburger

lemma upperhex_digit: "n < 16 \<Longrightarrow> val (upperhex ! n) = (if n < 10 then 48 + n else 55 + n)"
  by (drule less_16_cases) (elim insertE emptyE; simp add: upperhex_def)

lemma nibble_bounds: "drop_bit 4 (val c) < 16" "val c AND 15 < 16"
proof -
  show "drop_bit 4 (val c) < 16" using val_less_256 [of c] by (simp add: drop_bit_eq_div less_mult_imp_div_less del: val_less_256)
  have "val c AND 15 = take_bit 4 (val c)" by (simp add: take_bit_eq_mask mask_eq_exp_minus_1)
  then show "val c AND 15 < 16" using take_bit_nat_less_exp [of 4 "val c"] by simp
qed

lemma hexDigit_val: "hexDigit c =
  (if 48 \<le> val c \<and> val c \<le> 57 then Some (val c - 48)
   else if 97 \<le> val c \<and> val c \<le> 102 then Some (val c - 87)
   else if 65 \<le> val c \<and> val c \<le> 70 then Some (val c - 55) else None)"
  by (auto simp: hexDigit_def less_eq_char_def)

lemma val_UpperHex: "val (UpperHex c) = (if 97 \<le> val c \<and> val c \<le> 102 then val c - 32 else val c)"
  using val_less_256 [of c] by (auto simp: UpperHex_def less_eq_char_def simp del: val_less_256)

lemma hexDigit_upperhex: "n < 16 \<Longrightarrow> hexDigit (upperhex ! n) = Some n"
  by (simp add: hexDigit_val upperhex_digit)

lemma UpperHex_upperhex: "n < 16 \<Longrightarrow> UpperHex (upperhex ! n) = upperhex ! n"
  unfolding char_eq_val [of "UpperHex _"] val_UpperHex by (simp add: upperhex_digit)

lemma DecodeHexPair_hex [simp]: "DecodeHexPair (hex_hi c) (hex_lo c) = Some c"
  using nibble_bounds [of c]
  by (simp add: DecodeHexPair_def hex_hi_def hex_lo_def hexDigit_upperhex nibbles_ident)

lemma UpperHex_hex [simp]: "UpperHex (hex_hi c) = hex_hi c" "UpperHex (hex_lo c) = hex_lo c"
  using nibble_bounds [of c] by (simp_all add: hex_hi_def hex_lo_def UpperHex_upperhex)

lemma hexDigit_UpperHex [simp]: "hexDigit (UpperHex c) = hexDigit c"
  by (auto simp: hexDigit_val val_UpperHex)

lemma UpperHex_idem [simp]: "UpperHex (UpperHex c) = UpperHex c"
proof -
  have "val (UpperHex (UpperHex c)) = val (UpperHex c)" unfolding val_UpperHex by (auto split: if_splits)
  then show ?thesis by (simp only: char_eq_val)
qed

lemma DecodeHexPair_UpperHex [simp]: "DecodeHexPair (UpperHex h) (UpperHex l) = DecodeHexPair h l"
  by (simp only: DecodeHexPair_def hexDigit_UpperHex)

subsection \<open>EscapePath\<close>

text \<open>
  \<open>escapeInto\<close> fills the pre-sized buffer \<open>t\<close> from position \<open>w\<close> with the escaped form of the bytes left.
\<close>

fun escapeInto_loop :: "string \<Rightarrow> string \<Rightarrow> nat \<Rightarrow> string" where
  "escapeInto_loop t [] w = t"
| "escapeInto_loop t (c # cs) w =
     (if pathNoEscape c then escapeInto_loop (t[w := c]) cs (w + 1)
      else escapeInto_loop (t[w := CHR ''%'', w + 1 := hex_hi c, w + 2 := hex_lo c]) cs (w + 3))"

definition escapeInto :: "string \<Rightarrow> string \<Rightarrow> nat \<Rightarrow> string" where
  "escapeInto t path i = escapeInto_loop (take i path @ drop i t) (drop i path) i"

definition count_escapes :: "string \<Rightarrow> nat" where
  "count_escapes s = length (filter (\<lambda>c. \<not> pathNoEscape c) s)"

definition EscapePath :: "string \<Rightarrow> string" where
  "EscapePath path =
     (let i = length (takeWhile pathNoEscape path) in
      if i = length path then path
      else if path = ''*'' then ''*''
      else
        let hexCount = 1 + count_escapes (drop (i + 1) path);
            required = length path + 2 * hexCount
        in escapeInto (replicate required (CHR 0x00)) path i)"

text \<open>The specification: escape byte by byte.\<close>

definition escape_byte :: "char \<Rightarrow> string" where
  "escape_byte c = (if pathNoEscape c then [c] else [CHR ''%'', hex_hi c, hex_lo c])"

definition escape_all :: "string \<Rightarrow> string" where
  "escape_all s = concat (map escape_byte s)"

lemma length_escape_all: "length (escape_all s) = length s + 2 * count_escapes s"
  by (induction s) (auto simp: escape_all_def escape_byte_def count_escapes_def)

lemma escapeInto_loop_spec:
  "length t = w + length (escape_all cs) \<Longrightarrow> escapeInto_loop t cs w = take w t @ escape_all cs"
proof (induction t cs w rule: escapeInto_loop.induct)
  case (1 t w)
  then show ?case by (simp add: escape_all_def)
next
  case (2 t c cs w)
  show ?case
  proof (cases "pathNoEscape c")
    case True
    with 2 show ?thesis
      by (simp add: escape_all_def escape_byte_def take_Suc_conv_app_nth)
  next
    case False
    then have len: "length t = w + 3 + length (escape_all cs)"
      using 2 by (simp add: escape_all_def escape_byte_def)
    have "take (w + 3) (t[w := CHR ''%'', w + 1 := hex_hi c, w + 2 := hex_lo c])
        = take w t @ [CHR ''%'', hex_hi c, hex_lo c]"
      using len by (simp add: numeral_3_eq_3 take_Suc_conv_app_nth)
    with 2 False len show ?thesis by (simp add: escape_all_def escape_byte_def)
  qed
qed

lemma EscapePath_spec: "EscapePath path = (if path = ''*'' then ''*'' else escape_all path)"
proof -
  let ?i = "length (takeWhile pathNoEscape path)"
  let ?pre = "takeWhile pathNoEscape path" and ?rest = "dropWhile pathNoEscape path"
  have pre: "take ?i path = ?pre" and rest: "drop ?i path = ?rest"
    by (rule takeWhile_eq_take [symmetric], rule dropWhile_eq_drop [symmetric])
  have esc_pre: "escape_all ?pre = ?pre"
  proof -
    have E: "\<forall>c \<in> set s. pathNoEscape c \<Longrightarrow> escape_all s = s" for s
      by (induction s) (auto simp: escape_all_def escape_byte_def)
    show ?thesis by (rule E) (auto dest: set_takeWhileD)
  qed
  have split: "escape_all path = ?pre @ escape_all ?rest"
    using esc_pre by (metis escape_all_def concat_append map_append takeWhile_dropWhile_id)
  show ?thesis
  proof (cases "?rest")
    case Nil
    then have "?i = length path" by (metis append_Nil2 takeWhile_dropWhile_id)
    then show ?thesis using split Nil pre by (auto simp: EscapePath_def escape_all_def)
  next
    case (Cons b bs)
    then have bad: "\<not> pathNoEscape b" by (metis hd_dropWhile list.distinct(1) list.sel(1))
    have i: "?i \<noteq> length path" using Cons by (metis length_append length_greater_0_conv less_not_refl
          list.distinct(1) takeWhile_dropWhile_id add_cancel_right_right)
    have bs: "drop (?i + 1) path = bs" using rest Cons by (metis Suc_eq_plus1 drop_Suc list.sel(3) tl_drop)
    have "length path = ?i + length (b # bs)"
      using arg_cong [OF takeWhile_dropWhile_id [of pathNoEscape path], of length] Cons by simp
    moreover have "length (escape_all ?rest) = length (b # bs) + 2 * (1 + count_escapes bs)"
      using Cons bad length_escape_all [of ?rest] by (simp add: count_escapes_def)
    ultimately have len: "length path + 2 * (1 + count_escapes bs) = ?i + length (escape_all ?rest)"
      by simp
    have "escapeInto (replicate (?i + length (escape_all ?rest)) (CHR 0x00)) path ?i = escape_all path"
      using split by (simp add: escapeInto_def pre rest escapeInto_loop_spec)
    then show ?thesis using i unfolding EscapePath_def Let_def bs len by simp
  qed
qed

subsection \<open>NormalizeRawPath\<close>

text \<open>
  The loop over \<open>raw\<close> with the cursor \<open>j\<close> into \<open>path\<close>, the start of the pending run copied as is and
  the builder \<open>buf\<close>. The result \<open>([], False)\<close> is the code's \<open>return "", false\<close>.
\<close>

function normalize_loop ::
  "string \<Rightarrow> string \<Rightarrow> nat \<Rightarrow> nat \<Rightarrow> nat \<Rightarrow> string \<Rightarrow> bool \<Rightarrow> string \<times> bool" where
  "normalize_loop raw path i j start buf wellFormed =
     (if i < length raw then
        if raw ! i = CHR ''%'' then
          (case (if i + 2 < length raw then DecodeHexPair (raw ! (i + 1)) (raw ! (i + 2)) else None) of
             None \<Rightarrow> ([], False)
           | Some b \<Rightarrow>
               if j \<ge> length path \<or> path ! j \<noteq> b then ([], False)
               else if IsUnreserved b then
                 normalize_loop raw path (i + 3) (j + 1) (i + 3) (buf @ slice raw start i @ [b]) wellFormed
               else if raw ! (i + 1) \<noteq> UpperHex (raw ! (i + 1)) \<or> raw ! (i + 2) \<noteq> UpperHex (raw ! (i + 2)) then
                 normalize_loop raw path (i + 3) (j + 1) (i + 3)
                   (buf @ slice raw start i @ [CHR ''%'', UpperHex (raw ! (i + 1)), UpperHex (raw ! (i + 2))])
                   wellFormed
               else normalize_loop raw path (i + 3) (j + 1) start buf wellFormed)
        else if j \<ge> length path \<or> path ! j \<noteq> raw ! i then ([], False)
        else if \<not> IsRoutableRaw (raw ! i) then
          normalize_loop raw path (i + 1) (j + 1) (i + 1)
            (buf @ slice raw start i @ [CHR ''%'', hex_hi (raw ! i), hex_lo (raw ! i)]) False
        else normalize_loop raw path (i + 1) (j + 1) start buf wellFormed
      else if j \<noteq> length path then ([], False)
      else if buf = [] then (raw, wellFormed)
      else (buf @ drop start raw, wellFormed))"
  by pat_completeness auto
termination by (relation "measure (\<lambda>(raw, path, i, j, start, buf, ok). length raw - i)") auto

declare normalize_loop.simps [simp del]

definition NormalizeRawPath :: "string \<Rightarrow> string \<Rightarrow> string \<times> bool" where
  "NormalizeRawPath raw path = normalize_loop raw path 0 0 0 [] True"

text \<open>
  The specification reads one unit of \<open>raw\<close> (a byte or an escape) for each byte of \<open>path\<close> and writes
  its canonical form.
\<close>

definition canon_escape :: "char \<Rightarrow> char \<Rightarrow> char \<Rightarrow> string" where
  "canon_escape b h l = (if IsUnreserved b then [b] else [CHR ''%'', UpperHex h, UpperHex l])"

definition canon_byte :: "char \<Rightarrow> string" where
  "canon_byte c = (if IsRoutableRaw c then [c] else [CHR ''%'', hex_hi c, hex_lo c])"

definition emit :: "string \<Rightarrow> bool \<Rightarrow> (string \<times> bool) option \<Rightarrow> (string \<times> bool) option" where
  "emit s ok = map_option (\<lambda>(out, ok'). (s @ out, ok \<and> ok'))"

fun normalize_spec :: "string \<Rightarrow> string \<Rightarrow> (string \<times> bool) option" where
  "normalize_spec [] p = (if p = [] then Some ([], True) else None)"
| "normalize_spec (c # cs) p =
     (if c = CHR ''%'' then
        (case cs of
           h # l # rest \<Rightarrow>
             (case DecodeHexPair h l of
                None \<Rightarrow> None
              | Some b \<Rightarrow> (if p = [] \<or> hd p \<noteq> b then None
                           else emit (canon_escape b h l) True (normalize_spec rest (tl p))))
         | _ \<Rightarrow> None)
      else if p = [] \<or> hd p \<noteq> c then None
      else emit (canon_byte c) (IsRoutableRaw c) (normalize_spec cs (tl p)))"

declare normalize_spec.simps(2) [simp del]

definition norm_result :: "string \<Rightarrow> bool \<Rightarrow> (string \<times> bool) option \<Rightarrow> string \<times> bool" where
  "norm_result pre ok r = (case r of None \<Rightarrow> ([], False) | Some (out, ok') \<Rightarrow> (pre @ out, ok \<and> ok'))"

lemma norm_result_simps [simp]:
  "norm_result pre ok None = ([], False)"
  "norm_result pre ok (emit s ok' r) = norm_result (pre @ s) (ok \<and> ok') r"
  by (auto simp: norm_result_def emit_def split: option.splits)

lemma normalize_loop_spec:
  assumes "start \<le> i" "i \<le> length raw" "j \<le> length path" "buf = [] \<longrightarrow> start = 0"
  shows "normalize_loop raw path i j start buf ok
           = norm_result (buf @ slice raw start i) ok (normalize_spec (drop i raw) (drop j path))"
  using assms
proof (induction raw path i j start buf ok rule: normalize_loop.induct)
  case (1 raw path i j start buf ok)
  show ?case
  proof (cases "i < length raw")
    case False
    with "1.prems" show ?thesis
      by (subst normalize_loop.simps) (auto simp: norm_result_def slice_def)
  next
    case True
    then have d: "drop i raw = raw ! i # drop (i + 1) raw" by (simp add: Cons_nth_drop_Suc)
    have p: "drop j path = [] \<or> hd (drop j path) \<noteq> b \<longleftrightarrow> j \<ge> length path \<or> path ! j \<noteq> b" for b
      by (cases "j < length path") (auto simp: hd_drop_conv_nth)
    have tlp: "tl (drop j path) = drop (j + 1) path" by (simp add: drop_Suc tl_drop)
    have run: "slice raw start (i + n) = slice raw start i @ slice raw i (i + n)" for n
      using "1.prems"(1) slice_append [of start i "i + n" raw] by simp
    show ?thesis
    proof (cases "raw ! i = CHR ''%''")
      case pct: True
      show ?thesis
      proof (cases "i + 2 < length raw")
        case False
        have "length (drop (i + 1) raw) < 2" using False by simp
        then have "drop (i + 1) raw = [] \<or> (\<exists>x. drop (i + 1) raw = [x])"
          by (cases "drop (i + 1) raw"; cases "tl (drop (i + 1) raw)") auto
        then have "normalize_spec (drop i raw) (drop j path) = None"
          unfolding d pct by (auto simp: normalize_spec.simps(2) split: list.splits)
        with True pct False show ?thesis by (subst normalize_loop.simps) simp
      next
        case len: True
        define h l where "h = raw ! (i + 1)" and "l = raw ! (i + 2)"
        have d3: "drop (i + 1) raw = h # l # drop (i + 3) raw"
          using len by (simp add: h_def l_def Cons_nth_drop_Suc numeral_3_eq_3 Suc_lessD)
        have sl3: "slice raw i (i + 3) = [CHR ''%'', h, l]" using d d3 pct by (simp add: slice_def)
        have spec: "normalize_spec (drop i raw) (drop j path) =
            (case DecodeHexPair h l of None \<Rightarrow> None
             | Some b \<Rightarrow> (if j \<ge> length path \<or> path ! j \<noteq> b then None
                 else emit (canon_escape b h l) True (normalize_spec (drop (i + 3) raw) (drop (j + 1) path))))"
          unfolding d pct normalize_spec.simps(2) d3 by (simp only: p tlp list.case simp_thms if_True)
        show ?thesis
        proof (cases "DecodeHexPair h l")
          case None
          with True pct len spec show ?thesis
            by (subst normalize_loop.simps) (simp add: h_def l_def)
        next
          case (Some b)
          show ?thesis
          proof (cases "j \<ge> length path \<or> path ! j \<noteq> b")
            case True
            moreover have "DecodeHexPair (raw ! (i + 1)) (raw ! (i + 2)) = Some b"
              using Some by (simp add: h_def l_def)
            ultimately show ?thesis using Some pct len spec \<open>i < length raw\<close>
              by (subst normalize_loop.simps) simp
          next
            case ok: False
            note IH = "1.IH"(1-3) [OF True pct, unfolded h_def [symmetric] l_def [symmetric]]
            have loop: "normalize_loop raw path i j start buf ok =
                (if IsUnreserved b then
                   normalize_loop raw path (i + 3) (j + 1) (i + 3) (buf @ slice raw start i @ [b]) ok
                 else if h \<noteq> UpperHex h \<or> l \<noteq> UpperHex l then
                   normalize_loop raw path (i + 3) (j + 1) (i + 3)
                     (buf @ slice raw start i @ [CHR ''%'', UpperHex h, UpperHex l]) ok
                 else normalize_loop raw path (i + 3) (j + 1) start buf ok)"
            proof -
              have "DecodeHexPair (raw ! (i + 1)) (raw ! (i + 2)) = Some b"
                using Some by (simp add: h_def l_def)
              then show ?thesis unfolding h_def l_def using True pct len ok
                by (subst normalize_loop.simps) simp
            qed
            show ?thesis unfolding loop spec
              using IH [of b] Some ok len "1.prems" sl3 run [of 3]
              by (simp add: canon_escape_def)
          qed
        qed
      qed
    next
      case lit: False
      have spec: "normalize_spec (drop i raw) (drop j path) =
          (if j \<ge> length path \<or> path ! j \<noteq> raw ! i then None
           else emit (canon_byte (raw ! i)) (IsRoutableRaw (raw ! i))
                  (normalize_spec (drop (i + 1) raw) (drop (j + 1) path)))"
        unfolding d normalize_spec.simps(2) using lit by (simp only: p tlp if_False)
      have sl1: "slice raw i (i + 1) = [raw ! i]" using d by (simp add: slice_def)
      show ?thesis unfolding spec
        using "1.IH"(4,5) [OF True lit] True lit "1.prems" sl1 run [of 1]
        by (subst normalize_loop.simps) (auto simp: canon_byte_def)
    qed
  qed
qed

subsection \<open>The canonical routing form\<close>

text \<open>
  \<open>canonical\<close> is the form of routing paths: routable bytes as they are, every other byte as an escape
  with uppercase digits, and no escape of an unreserved byte. \<open>PathUnescape\<close> is \<open>net/url\<close>'s decoding.
\<close>

fun canonical :: "string \<Rightarrow> bool" where
  "canonical [] \<longleftrightarrow> True"
| "canonical (c # cs) \<longleftrightarrow>
     (if c = CHR ''%'' then
        (case cs of
           h # l # rest \<Rightarrow> (case DecodeHexPair h l of
              None \<Rightarrow> False
            | Some b \<Rightarrow> \<not> IsUnreserved b \<and> UpperHex h = h \<and> UpperHex l = l \<and> canonical rest)
         | _ \<Rightarrow> False)
      else IsRoutableRaw c \<and> canonical cs)"

fun PathUnescape :: "string \<Rightarrow> string option" where
  "PathUnescape [] = Some []"
| "PathUnescape (c # cs) =
     (if c = CHR ''%'' then
        (case cs of
           h # l # rest \<Rightarrow> (case DecodeHexPair h l of
              None \<Rightarrow> None
            | Some b \<Rightarrow> map_option (Cons b) (PathUnescape rest))
         | _ \<Rightarrow> None)
      else map_option (Cons c) (PathUnescape cs))"

declare canonical.simps(2) [simp del] PathUnescape.simps(2) [simp del]

lemma canonical_escape [simp]:
  "canonical (CHR ''%'' # h # l # s) \<longleftrightarrow>
     (\<exists>b. DecodeHexPair h l = Some b \<and> \<not> IsUnreserved b \<and> UpperHex h = h \<and> UpperHex l = l) \<and> canonical s"
  by (auto simp: canonical.simps(2) split: option.splits)

lemma canonical_lit [simp]: "c \<noteq> CHR ''%'' \<Longrightarrow> canonical (c # s) \<longleftrightarrow> IsRoutableRaw c \<and> canonical s"
  by (simp add: canonical.simps(2))

lemma PathUnescape_escape [simp]:
  "DecodeHexPair h l = Some b \<Longrightarrow> PathUnescape (CHR ''%'' # h # l # s) = map_option (Cons b) (PathUnescape s)"
  by (simp add: PathUnescape.simps(2))

lemma PathUnescape_lit [simp]: "c \<noteq> CHR ''%'' \<Longrightarrow> PathUnescape (c # s) = map_option (Cons c) (PathUnescape s)"
  by (simp add: PathUnescape.simps(2))

lemma percent_not_routable [simp]: "\<not> IsRoutableRaw (CHR ''%'')" "\<not> IsUnreserved (CHR ''%'')" "\<not> pathNoEscape (CHR ''%'')"
  by (simp_all add: IsRoutableRaw_def pathNoEscape_def IsUnreserved_def is_lower_val is_upper_val is_digit_val)

lemma unreserved_routable: "IsUnreserved c \<Longrightarrow> IsRoutableRaw c" "pathNoEscape c \<Longrightarrow> IsRoutableRaw c"
  by (auto simp: IsRoutableRaw_def pathNoEscape_def)

lemma routable_not_percent: "IsRoutableRaw c \<Longrightarrow> c \<noteq> CHR ''%''"
  using percent_not_routable(1) by metis

lemma normalize_spec_lit: "c \<noteq> CHR ''%'' \<Longrightarrow> normalize_spec (c # cs) p =
    (if p = [] \<or> hd p \<noteq> c then None
     else emit (canon_byte c) (IsRoutableRaw c) (normalize_spec cs (tl p)))"
  by (simp add: normalize_spec.simps(2))

lemma normalize_spec_escape: "DecodeHexPair h l = Some b \<Longrightarrow>
    normalize_spec (CHR ''%'' # h # l # rest) (b # p)
      = emit (canon_escape b h l) True (normalize_spec rest p)"
  by (simp add: normalize_spec.simps(2))

lemma normalize_spec_cases:
  assumes "normalize_spec (c # cs) p = Some (out, ok)"
  obtains (escape) h l rest b p' out' where "c = CHR ''%''" "cs = h # l # rest" "p = b # p'"
      "DecodeHexPair h l = Some b" "normalize_spec rest p' = Some (out', ok)" "out = canon_escape b h l @ out'"
  | (lit) p' out' ok' where "c \<noteq> CHR ''%''" "p = c # p'" "normalize_spec cs p' = Some (out', ok')"
      "out = canon_byte c @ out'" "ok \<longleftrightarrow> IsRoutableRaw c \<and> ok'"
proof (cases "c = CHR ''%''")
  case True
  then obtain h l rest b where "cs = h # l # rest" "DecodeHexPair h l = Some b"
    using assms by (auto simp: normalize_spec.simps(2) split: list.splits option.splits)
  moreover from this True assms obtain p' where "p = b # p'"
    by (cases p) (auto simp: normalize_spec.simps(2) split: if_splits)
  ultimately show ?thesis using escape True assms
    by (auto simp: normalize_spec_escape emit_def)
next
  case False
  then obtain p' where "p = c # p'"
    using assms by (cases p) (auto simp: normalize_spec_lit split: if_splits)
  then show ?thesis using lit False assms by (auto simp: normalize_spec_lit emit_def)
qed

text \<open>What the normalised form is: canonical, and an encoding of \<open>path\<close>.\<close>

lemma canonical_canon_byte: "canonical (canon_byte c @ s) \<longleftrightarrow> canonical s"
  using unreserved_routable(1) [of c] routable_not_percent [of c] by (auto simp: canon_byte_def)

lemma canonical_canon_escape:
  "DecodeHexPair h l = Some b \<Longrightarrow> canonical (canon_escape b h l @ s) \<longleftrightarrow> canonical s"
  using unreserved_routable(1) [of b] routable_not_percent [of b] by (auto simp: canon_escape_def)

lemma unescape_canon_byte: "PathUnescape (canon_byte c @ s) = map_option (Cons c) (PathUnescape s)"
  using routable_not_percent [of c] by (auto simp: canon_byte_def)

lemma unescape_canon_escape:
  "DecodeHexPair h l = Some b \<Longrightarrow> PathUnescape (canon_escape b h l @ s) = map_option (Cons b) (PathUnescape s)"
  using unreserved_routable(1) [of b] routable_not_percent [of b] by (auto simp: canon_escape_def)

lemma normalize_spec_sound:
  "normalize_spec raw p = Some (out, ok) \<Longrightarrow> canonical out \<and> PathUnescape out = Some p"
proof (induction raw p arbitrary: out ok rule: normalize_spec.induct)
  case (2 c cs p)
  from 2(3) show ?case
  proof (cases rule: normalize_spec_cases)
    case (escape h l rest b p' out')
    with "2.IH"(1) [of h "l # rest" l rest b out' ok] show ?thesis
      by (simp add: canonical_canon_escape unescape_canon_escape)
  next
    case (lit p' out' ok')
    with "2.IH"(2) [of out' ok'] show ?thesis
      by (simp add: canonical_canon_byte unescape_canon_byte)
  qed
qed (auto split: if_splits)

text \<open>A canonical string normalises to itself.\<close>

lemma normalize_spec_canonical:
  "canonical s \<Longrightarrow> PathUnescape s = Some p \<Longrightarrow> normalize_spec s p = Some (s, True)"
proof (induction s arbitrary: p rule: canonical.induct)
  case (2 c cs)
  show ?case
  proof (cases "c = CHR ''%''")
    case True
    then obtain h l rest b where cs: "cs = h # l # rest" "DecodeHexPair h l = Some b"
      "\<not> IsUnreserved b" "UpperHex h = h" "UpperHex l = l" "canonical rest"
      using 2(3) by (auto simp: canonical.simps(2) split: list.splits option.splits)
    moreover from this True 2(4) obtain p' where "p = b # p'" "PathUnescape rest = Some p'" by auto
    ultimately show ?thesis using "2.IH"(1) [of h "l # rest" l rest b p'] True
      by (simp add: normalize_spec_escape emit_def canon_escape_def)
  next
    case False
    then show ?thesis using 2(3,4) "2.IH"(2)
      by (auto simp: normalize_spec_lit emit_def canon_byte_def)
  qed
qed auto

lemma normalize_spec_None: "normalize_spec raw p = None \<longleftrightarrow> PathUnescape raw \<noteq> Some p"
proof (induction raw p rule: normalize_spec.induct)
  case (2 c cs p)
  show ?case
  proof (cases "c = CHR ''%''")
    case True
    show ?thesis
    proof (cases "\<exists>h l rest b. cs = h # l # rest \<and> DecodeHexPair h l = Some b")
      case True
      then obtain h l rest b where cs: "cs = h # l # rest" "DecodeHexPair h l = Some b" by blast
      with \<open>c = CHR ''%''\<close> "2.IH"(1) [of h "l # rest" l rest b] show ?thesis
        by (cases p) (auto simp: normalize_spec.simps(2) emit_def)
    next
      case False
      with \<open>c = CHR ''%''\<close> show ?thesis
        by (auto simp: normalize_spec.simps(2) PathUnescape.simps(2) split: list.splits option.splits)
    qed
  next
    case False
    with "2.IH"(2) show ?thesis by (cases p) (auto simp: normalize_spec_lit emit_def)
  qed
qed auto

lemma NormalizeRawPath_spec: "NormalizeRawPath raw path = norm_result [] True (normalize_spec raw path)"
  unfolding NormalizeRawPath_def by (subst normalize_loop_spec) (simp_all add: slice_def)

lemma escape_byte_canon: "canonical (escape_byte c @ s) \<longleftrightarrow> canonical s"
  "PathUnescape (escape_byte c @ s) = map_option (Cons c) (PathUnescape s)"
  using unreserved_routable(2) [of c] routable_not_percent [of c]
  by (auto simp: escape_byte_def pathNoEscape_def)

lemma escape_all_canonical: "canonical (escape_all p) \<and> PathUnescape (escape_all p) = Some p"
  by (induction p) (simp_all add: escape_all_def escape_byte_canon)

lemma EscapePath_canonical: "canonical (EscapePath p)" "PathUnescape (EscapePath p) = Some p"
proof -
  have "IsRoutableRaw (CHR ''*'')" by (simp add: IsRoutableRaw_def)
  then show "canonical (EscapePath p)" "PathUnescape (EscapePath p) = Some p"
    using escape_all_canonical [of p] by (auto simp: EscapePath_spec)
qed

section \<open>Properties of percent-encoding\<close>

text \<open>
  C30. \<open>EscapePath\<close> fills its pre-sized buffer exactly: the result is the byte-wise escaping of the path
  (but for the special case of the path star), it is in canonical routing form, decoding it gives the
  path back, and normalising it changes nothing.
\<close>

theorem EscapePath_correct:
  "(path \<noteq> ''*'' \<longrightarrow> EscapePath path = escape_all path) \<and> canonical (EscapePath path) \<and>
   PathUnescape (EscapePath path) = Some path \<and>
   NormalizeRawPath (EscapePath path) path = (EscapePath path, True)"
  using normalize_spec_canonical [OF EscapePath_canonical]
  by (simp add: EscapePath_canonical NormalizeRawPath_spec norm_result_def) (simp add: EscapePath_spec)

theorem EscapePath_witness: "PathUnescape (EscapePath ''/a b'') = Some ''/a b'' \<and> EscapePath ''/a b'' = escape_all ''/a b''"
proof -
  have "''/a b'' \<noteq> ''*''" by simp
  then show ?thesis using EscapePath_correct [of "''/a b''"] by blast
qed



end
