(* ===== verification/Slices_Util.thy ===== *)
theory Slices_Util
  imports Prelude "HOL-Library.Multiset"
begin

text \<open>
  Comparison of slices (\<open>internal/slicesutil/slicesutil.go\<close>): equality up to order with a \<open>matched\<close>
  flag per element, and the two-pointer test for a common element of two sorted slices. The greedy
  matching is also what \<open>Route.matchersEqual\<close> does.
\<close>

subsection \<open>EqualUnsorted\<close>

text \<open>The inner loop: the first element equal to \<open>a\<close> that is not matched yet is flagged.\<close>

fun match_first :: "'a \<Rightarrow> 'a list \<Rightarrow> bool list \<Rightarrow> bool list option" where
  "match_first a (b # s2) (m # matched) =
     (if \<not> m \<and> a = b then Some (True # matched)
      else map_option (Cons m) (match_first a s2 matched))"
| "match_first a _ _ = None"

fun match_all :: "'a list \<Rightarrow> 'a list \<Rightarrow> bool list \<Rightarrow> bool" where
  "match_all [] s2 matched = True"
| "match_all (a # s1) s2 matched =
     (case match_first a s2 matched of
        None \<Rightarrow> False
      | Some matched' \<Rightarrow> match_all s1 s2 matched')"

definition EqualUnsorted :: "'a list \<Rightarrow> 'a list \<Rightarrow> bool" where
  "EqualUnsorted s1 s2 =
     (if length s1 \<noteq> length s2 then False
      else match_all s1 s2 (replicate (length s2) False))"

text \<open>The elements of \<open>s2\<close> that are still unmatched.\<close>

definition unmatched :: "'a list \<Rightarrow> bool list \<Rightarrow> 'a multiset" where
  "unmatched s2 matched = mset (map fst (filter (\<lambda>(b, m). \<not> m) (zip s2 matched)))"

lemma unmatched_simps [simp]:
  "unmatched [] matched = {#}"
  "unmatched (b # s2) (m # matched) = (if m then {#} else {#b#}) + unmatched s2 matched"
  by (auto simp: unmatched_def)

lemma match_first_spec:
  "length matched = length s2 \<Longrightarrow>
     (case match_first a s2 matched of
        None \<Rightarrow> a \<notin># unmatched s2 matched
      | Some matched' \<Rightarrow> length matched' = length s2 \<and> a \<in># unmatched s2 matched \<and>
          unmatched s2 matched' = unmatched s2 matched - {#a#})"
proof (induction a s2 matched rule: match_first.induct)
  case (1 a b s2 m matched)
  then show ?case
    by (cases "match_first a s2 matched") (auto simp: insert_DiffM2)
qed auto

lemma match_all_spec:
  "length matched = length s2 \<Longrightarrow> match_all s1 s2 matched \<longleftrightarrow> mset s1 \<subseteq># unmatched s2 matched"
proof (induction s1 arbitrary: matched)
  case (Cons a s1)
  note spec = match_first_spec [OF Cons.prems, of a]
  show ?case
  proof (cases "match_first a s2 matched")
    case None
    with spec show ?thesis by (auto dest: mset_subset_eqD)
  next
    case (Some matched')
    with spec Cons.IH [of matched'] show ?thesis
      by (auto simp: insert_subset_eq_iff)
  qed
qed simp

lemma unmatched_replicate: "unmatched s2 (replicate (length s2) False) = mset s2"
  by (induction s2) auto

lemma EqualUnsorted_mset: "EqualUnsorted s1 s2 \<longleftrightarrow> mset s1 = mset s2"
proof -
  have "mset s1 \<subseteq># mset s2 \<longleftrightarrow> mset s1 = mset s2" if "length s1 = length s2"
  proof
    assume sub: "mset s1 \<subseteq># mset s2"
    show "mset s1 = mset s2"
    proof (rule ccontr)
      assume "mset s1 \<noteq> mset s2"
      with sub have "size (mset s1) < size (mset s2)"
        by (intro mset_subset_size) (simp add: subset_mset.less_le)
      with that show False
        by simp
    qed
  qed simp
  then show ?thesis
    by (auto simp: EqualUnsorted_def match_all_spec unmatched_replicate dest: mset_eq_length)
qed

subsection \<open>Overlap\<close>

fun overlap_loop :: "'a :: linorder list \<Rightarrow> 'a list \<Rightarrow> bool" where
  "overlap_loop (x # s1) (y # s2) =
     (if x < y then overlap_loop s1 (y # s2)
      else if y < x then overlap_loop (x # s1) s2
      else True)"
| "overlap_loop _ _ = False"

definition Overlap :: "'a :: linorder list \<Rightarrow> 'a list \<Rightarrow> bool" where
  "Overlap s1 s2 = (if s1 = [] \<and> s2 = [] then True else overlap_loop s1 s2)"

lemma overlap_loop_spec: "sorted s1 \<Longrightarrow> sorted s2 \<Longrightarrow> overlap_loop s1 s2 \<longleftrightarrow> set s1 \<inter> set s2 \<noteq> {}"
proof (induction s1 s2 rule: overlap_loop.induct)
  case (1 x s1 y s2)
  consider "x < y" | "y < x" | "x = y"
    by (rule linorder_cases)
  then show ?case
  proof cases
    case 1
    with "1.prems" have "x \<notin> set (y # s2)"
      by auto
    with 1 "1.IH"(1) "1.prems" show ?thesis
      by auto
  next
    case 2
    with "1.prems" have "y \<notin> set (x # s1)"
      by auto
    with 2 "1.IH"(2) "1.prems" show ?thesis
      by auto
  qed simp
qed simp_all

lemma Overlap_spec:
  "sorted s1 \<Longrightarrow> sorted s2 \<Longrightarrow> Overlap s1 s2 \<longleftrightarrow> (s1 = [] \<and> s2 = []) \<or> set s1 \<inter> set s2 \<noteq> {}"
  by (auto simp: Overlap_def overlap_loop_spec)

section \<open>Properties of slice comparison\<close>

text \<open>
  \<open>EqualUnsorted\<close> decides equality of the two slices as multisets, duplicates included.
\<close>

theorem EqualUnsorted_correct: "EqualUnsorted s1 s2 \<longleftrightarrow> mset s1 = mset s2"
  by (rule EqualUnsorted_mset)

text \<open>
  On sorted slices \<open>Overlap\<close> decides whether they share an element, two empty slices counting as
  overlapping (the method-less routes of the router).
\<close>

theorem Overlap_correct:
  assumes "sorted s1" and "sorted s2"
  shows "Overlap s1 s2 \<longleftrightarrow> (s1 = [] \<and> s2 = []) \<or> set s1 \<inter> set s2 \<noteq> {}"
  using assms by (rule Overlap_spec)

theorem Overlap_correct_witness: "Overlap [1 :: nat, 4, 6] [2, 3, 6] \<and> sorted [1 :: nat, 4, 6]"
  using Overlap_correct [of "[1 :: nat, 4, 6]" "[2, 3, 6]"] by simp

end
