(* ===== verification/Net_Util.thy ===== *)
theory Net_Util
  imports Prelude
begin

text \<open>
  Host and address helpers (\<open>internal/netutil/netutil.go\<close>): splitting a \<open>host:port\<close> pair without
  allocating an error, stripping the port and the root dot, and the normal form of a CIDR prefix.
  The IP addresses are those of Go's \<open>net/netip\<close>; its two text parsers are arguments of \<open>ParsePrefix\<close>.
\<close>

unbundle bit_operations_syntax

subsection \<open>Host and port\<close>

definition SplitHostPort :: "string \<Rightarrow> (string \<times> string) option" where
  "SplitHostPort hostport =
     (case last_index_byte hostport CHR '':'' of
        None \<Rightarrow> None
      | Some i \<Rightarrow>
          let split =
            (if hostport ! 0 = CHR ''['' then
               (case index_byte hostport CHR '']'' of
                  None \<Rightarrow> None
                | Some end \<Rightarrow>
                    if end + 1 \<noteq> i then None
                    else Some (slice hostport 1 end, 1, end + 1))
             else
               let host = take i hostport in
               if index_byte host CHR '':'' \<noteq> None then None else Some (host, 0, 0))
          in (case split of
                None \<Rightarrow> None
              | Some (host, j, k) \<Rightarrow>
                  if index_byte (drop j hostport) CHR ''['' \<noteq> None
                     \<or> index_byte (drop k hostport) CHR '']'' \<noteq> None
                  then None
                  else Some (host, drop (i + 1) hostport)))"

definition StripHostPort :: "string \<Rightarrow> string" where
  "StripHostPort h =
     (if h = '''' then h
      else if CHR '':'' \<notin> set h then trim_suffix h ''.''
      else (case SplitHostPort h of
              None \<Rightarrow> h
            | Some (host, _) \<Rightarrow> trim_suffix host ''.''))"

text \<open>What a well-formed pair is: the host alone or in brackets, then a colon and the port.\<close>

definition bracket_free :: "string \<Rightarrow> bool" where
  "bracket_free s \<longleftrightarrow> CHR ''['' \<notin> set s \<and> CHR '']'' \<notin> set s"

definition host_port_form :: "string \<Rightarrow> string \<Rightarrow> string \<Rightarrow> bool" where
  "host_port_form hostport host port \<longleftrightarrow>
     bracket_free host \<and> bracket_free port \<and> CHR '':'' \<notin> set port \<and>
     (hostport = host @ '':'' @ port \<and> CHR '':'' \<notin> set host
      \<or> hostport = ''['' @ host @ '']:'' @ port)"

lemma index_byte_take: "c \<notin> set s \<Longrightarrow> index_byte (s @ c # t) c = Some (length s)"
  by (induction s) auto

lemma last_index_byte_take: "c \<notin> set t \<Longrightarrow> last_index_byte (s @ c # t) c = Some (length s)"
  by (simp add: last_index_byte_append last_index_byte_None [THEN iffD2])

lemma SplitHostPort_complete:
  assumes "host_port_form hostport host port"
  shows "SplitHostPort hostport = Some (host, port)"
proof -
  note free = assms [unfolded host_port_form_def bracket_free_def]
  from free consider
      (plain) "hostport = host @ CHR '':'' # port" "CHR '':'' \<notin> set host"
    | (bracket) "hostport = CHR ''['' # host @ CHR '']'' # CHR '':'' # port"
    by auto
  then show ?thesis
  proof cases
    case plain
    have "hostport ! 0 \<noteq> CHR ''[''"
      using free plain by (cases host) auto
    then show ?thesis
      using free plain
      by (simp add: SplitHostPort_def last_index_byte_take index_byte_None)
  next
    case bracket
    have "last_index_byte hostport CHR '':'' = Some (length host + 2)"
      using free bracket last_index_byte_take [of "CHR '':''" port "CHR ''['' # host @ '']''"] by simp
    moreover have "index_byte hostport CHR '']'' = Some (length host + 1)"
      using free bracket index_byte_take [of "CHR '']''" "CHR ''['' # host"] by simp
    ultimately show ?thesis
      using free bracket by (simp add: SplitHostPort_def slice_def index_byte_None)
  qed
qed

lemma SplitHostPort_sound:
  assumes "SplitHostPort hostport = Some (host, port)"
  shows "host_port_form hostport host port"
proof -
  from assms obtain i where i: "last_index_byte hostport CHR '':'' = Some i"
    by (auto simp: SplitHostPort_def split: option.splits)
  note last = last_index_byte_SomeD [OF i]
  have port: "port = drop (i + 1) hostport"
    using assms i by (auto simp: SplitHostPort_def Let_def split: option.splits if_splits)
  have split: "hostport = take i hostport @ CHR '':'' # port"
    using last port id_take_nth_drop [of i hostport] by simp
  show ?thesis
  proof (cases "hostport ! 0 = CHR ''[''")
    case False
    then have "host = take i hostport" and free: "CHR '':'' \<notin> set host"
        "CHR ''['' \<notin> set hostport" "CHR '']'' \<notin> set hostport"
      using assms i by (auto simp: SplitHostPort_def Let_def index_byte_None split: if_splits)
    then have form: "hostport = host @ CHR '':'' # port"
      using split by simp
    have "CHR '':'' \<notin> set port"
      using last port by simp
    then show ?thesis
      using free form by (auto simp: host_port_form_def bracket_free_def)
  next
    case True
    then obtain e where e: "index_byte hostport CHR '']'' = Some e" and "e + 1 = i"
        and host: "host = slice hostport 1 e"
        and free: "CHR ''['' \<notin> set (drop 1 hostport)" "CHR '']'' \<notin> set (drop i hostport)"
      using assms i by (auto simp: SplitHostPort_def Let_def index_byte_None split: option.splits if_splits)
    note at = index_byte_SomeD [OF e]
    have "e \<noteq> 0"
      using at True by (cases e) auto
    have pre: "take i hostport = take e hostport @ '']''"
      using at \<open>e + 1 = i\<close> by (auto simp: take_Suc_conv_app_nth)
    have "take e hostport = CHR ''['' # host"
      using True \<open>e \<noteq> 0\<close> at host by (cases hostport; cases e) (auto simp: slice_def)
    then have form: "hostport = CHR ''['' # host @ CHR '']'' # CHR '':'' # port"
      using split pre by simp
    moreover have "CHR '']'' \<notin> set host"
      using at \<open>take e hostport = CHR ''['' # host\<close> by auto
    moreover have "drop 1 hostport = host @ CHR '']'' # CHR '':'' # port"
      by (subst form) simp
    moreover have "drop i hostport = CHR '':'' # port"
      using last port Cons_nth_drop_Suc [of i hostport] by simp
    moreover have "CHR '':'' \<notin> set port"
      using last port by simp
    ultimately show ?thesis
      using free by (simp add: host_port_form_def bracket_free_def)
  qed
qed

subsection \<open>Addresses and prefixes\<close>

text \<open>\<open>netip.Addr\<close>: an IPv4 address or an IPv6 address with a zone; \<open>netip.Prefix\<close>: an address and a length.\<close>

datatype addr = IPv4 "32 word" | IPv6 "128 word" string

record prefix =
  paddr :: addr
  pbits :: nat

fun Is4In6 :: "addr \<Rightarrow> bool" where
  "Is4In6 (IPv4 _) = False"
| "Is4In6 (IPv6 w _) = (drop_bit 32 w = 0xFFFF)"

definition Unmap :: "addr \<Rightarrow> addr" where
  "Unmap a = (case a of IPv6 w _ \<Rightarrow> if Is4In6 a then IPv4 (ucast w) else a | IPv4 _ \<Rightarrow> a)"

primrec Zone :: "addr \<Rightarrow> string" where
  "Zone (IPv4 _) = ''''"
| "Zone (IPv6 _ z) = z"

primrec WithoutZone :: "addr \<Rightarrow> addr" where
  "WithoutZone (IPv4 w) = IPv4 w"
| "WithoutZone (IPv6 w _) = IPv6 w ''''"

primrec BitLen :: "addr \<Rightarrow> nat" where
  "BitLen (IPv4 _) = 32"
| "BitLen (IPv6 _ _) = 128"

text \<open>\<open>Prefix.Masked\<close> and \<open>Prefix.Contains\<close>.\<close>

primrec mask_addr :: "nat \<Rightarrow> addr \<Rightarrow> addr" where
  "mask_addr bits (IPv4 w) = IPv4 (push_bit (32 - bits) (drop_bit (32 - bits) w))"
| "mask_addr bits (IPv6 w z) = IPv6 (push_bit (128 - bits) (drop_bit (128 - bits) w)) ''''"

definition Masked :: "prefix \<Rightarrow> prefix" where
  "Masked p = \<lparr>paddr = mask_addr (pbits p) (paddr p), pbits = pbits p\<rparr>"

fun contains_addr :: "addr \<Rightarrow> nat \<Rightarrow> addr \<Rightarrow> bool" where
  "contains_addr (IPv4 p) bits (IPv4 a) = (drop_bit (32 - bits) a = drop_bit (32 - bits) p)"
| "contains_addr (IPv6 p _) bits (IPv6 a z) = (z = '''' \<and> drop_bit (128 - bits) a = drop_bit (128 - bits) p)"
| "contains_addr _ _ _ = False"

definition Contains :: "prefix \<Rightarrow> addr \<Rightarrow> bool" where
  "Contains p a = contains_addr (paddr p) (pbits p) a"

definition ParsePrefix ::
  "(string \<Rightarrow> prefix option) \<Rightarrow> (string \<Rightarrow> addr option) \<Rightarrow> string \<Rightarrow> prefix option" where
  "ParsePrefix netip_ParsePrefix netip_ParseAddr s =
     (if CHR ''/'' \<in> set s then
        (case netip_ParsePrefix s of
           None \<Rightarrow> None
         | Some p \<Rightarrow>
             let p = (if Is4In6 (paddr p) \<and> 96 \<le> pbits p
                      then \<lparr>paddr = Unmap (paddr p), pbits = pbits p - 96\<rparr> else p)
             in Some (Masked p))
      else
        (case netip_ParseAddr s of
           None \<Rightarrow> None
         | Some a \<Rightarrow>
             if Zone a \<noteq> '''' then None
             else let a = Unmap a in Some \<lparr>paddr = a, pbits = BitLen a\<rparr>))"

section \<open>Properties of the host helpers\<close>

text \<open>
  \<open>SplitHostPort\<close> returns a host and a port exactly on the well-formed pairs: a host free of
  colons, or any host in brackets, followed by one colon and the port, with no other bracket.
\<close>

theorem SplitHostPort_correct:
  "SplitHostPort hostport = Some (host, port) \<longleftrightarrow> host_port_form hostport host port"
  using SplitHostPort_sound SplitHostPort_complete by blast

lemma StripHostPort_bracket:
  "bracket_free host \<Longrightarrow> bracket_free port \<Longrightarrow> CHR '':'' \<notin> set port \<Longrightarrow>
     StripHostPort (''['' @ host @ '']:'' @ port) = trim_suffix host ''.''"
  using SplitHostPort_complete [of "''['' @ host @ '']:'' @ port" host port]
  by (simp add: StripHostPort_def host_port_form_def)

lemma StripHostPort_plain:
  "bracket_free host \<Longrightarrow> bracket_free port \<Longrightarrow> CHR '':'' \<notin> set port \<Longrightarrow> CHR '':'' \<notin> set host \<Longrightarrow>
     StripHostPort (host @ '':'' @ port) = StripHostPort host"
  using SplitHostPort_complete [of "host @ '':'' @ port" host port]
  by (auto simp: StripHostPort_def host_port_form_def trim_suffix_def has_suffix_def)

end
