(* ===== verification/Matchers.thy ===== *)
theory Matchers
  imports Strings_Util Net_Util
begin

text \<open>
  Compiled regular expressions, and the request matchers of \<open>matcher.go\<close> with their evaluation and
  their equality. A \<open>*regexp.Regexp\<close> is represented by the source text \<open>String()\<close> returns; whether it
  accepts a string (\<open>MatchString\<close>) is an argument \<open>re_match\<close>. A matcher type defined outside the
  package is \<open>CustomMatcher\<close>: its values stand for the classes of its \<open>Equal\<close> method and \<open>custom\<close>
  is its \<open>Match\<close> method.
\<close>

subsection \<open>Regular expressions\<close>

datatype regexp = Regexp (re_string: string)

definition anchored :: "string \<Rightarrow> string" where
  "anchored expr = ''^(?:'' @ expr @ '')$''"

definition rawExpr :: "regexp \<Rightarrow> string" where
  "rawExpr re =
     (let expr = re_string re in
      if has_prefix expr ''(?i)'' then slice expr 8 (length expr - 2)
      else slice expr 4 (length expr - 2))"

lemma rawExpr_anchored [simp]: "rawExpr (Regexp (anchored e)) = e"
  by (simp add: rawExpr_def anchored_def slice_def)

lemma rawExpr_ignore_case [simp]: "rawExpr (Regexp (''(?i)'' @ anchored e)) = e"
  by (simp add: rawExpr_def anchored_def slice_def)

definition compileAnchoredRegexp :: "(string \<Rightarrow> bool) \<Rightarrow> (string \<Rightarrow> bool) \<Rightarrow> string \<Rightarrow> regexp option" where
  "compileAnchoredRegexp parses too_large expr =
     (if \<not> parses expr then None
      else if too_large expr then None
      else if \<not> parses (anchored expr) then None
      else Some (Regexp (anchored expr)))"

subsection \<open>Matchers\<close>

datatype 'c matcher =
    QueryMatcher string string
  | QueryRegexpMatcher string regexp
  | HeaderMatcher string string
  | HeaderRegexpMatcher string regexp
  | ClientIPMatcher prefix
  | SchemeMatcher string
  | CustomMatcher 'c

text \<open>What a matcher sees of the request: its \<open>RequestContext\<close>.\<close>

record reqctx =
  QueryParams :: "string \<Rightarrow> string list"
  Header :: "string \<Rightarrow> string list"
  TLS :: bool
  ClientIP :: "addr option"

definition QueryMatcher_Match :: "string \<Rightarrow> string \<Rightarrow> reqctx \<Rightarrow> bool" where
  "QueryMatcher_Match key v c =
     (let values = QueryParams c key in if length values = 0 then False else v \<in> set values)"

definition QueryRegexpMatcher_Match :: "(regexp \<Rightarrow> string \<Rightarrow> bool) \<Rightarrow> string \<Rightarrow> regexp \<Rightarrow> reqctx \<Rightarrow> bool" where
  "QueryRegexpMatcher_Match re_match key re c =
     (let values = QueryParams c key in if length values = 0 then False else list_ex (re_match re) values)"

definition HeaderMatcher_Match :: "string \<Rightarrow> string \<Rightarrow> reqctx \<Rightarrow> bool" where
  "HeaderMatcher_Match key v c =
     (let values = Header c key in if length values = 0 then False else v \<in> set values)"

definition HeaderRegexpMatcher_Match :: "(regexp \<Rightarrow> string \<Rightarrow> bool) \<Rightarrow> string \<Rightarrow> regexp \<Rightarrow> reqctx \<Rightarrow> bool" where
  "HeaderRegexpMatcher_Match re_match key re c =
     (let values = Header c key in if length values = 0 then False else list_ex (re_match re) values)"

definition ClientIPMatcher_Match :: "prefix \<Rightarrow> reqctx \<Rightarrow> bool" where
  "ClientIPMatcher_Match p c =
     (case ClientIP c of None \<Rightarrow> False | Some a \<Rightarrow> Contains p (WithoutZone (Unmap a)))"

definition SchemeMatcher_Match :: "string \<Rightarrow> reqctx \<Rightarrow> bool" where
  "SchemeMatcher_Match s c \<longleftrightarrow> (TLS c = (s = ''https''))"

primrec Match ::
  "(regexp \<Rightarrow> string \<Rightarrow> bool) \<Rightarrow> ('c \<Rightarrow> reqctx \<Rightarrow> bool) \<Rightarrow> reqctx \<Rightarrow> 'c matcher \<Rightarrow> bool" where
  "Match re_match custom c (QueryMatcher key v) = QueryMatcher_Match key v c"
| "Match re_match custom c (QueryRegexpMatcher key re) = QueryRegexpMatcher_Match re_match key re c"
| "Match re_match custom c (HeaderMatcher key v) = HeaderMatcher_Match key v c"
| "Match re_match custom c (HeaderRegexpMatcher key re) = HeaderRegexpMatcher_Match re_match key re c"
| "Match re_match custom c (ClientIPMatcher p) = ClientIPMatcher_Match p c"
| "Match re_match custom c (SchemeMatcher s) = SchemeMatcher_Match s c"
| "Match re_match custom c (CustomMatcher m) = custom m c"

text \<open>The \<open>Equal\<close> method of each type: a type switch on the other matcher, then the fields.\<close>

definition QueryMatcher_Equal :: "string \<Rightarrow> string \<Rightarrow> 'c matcher \<Rightarrow> bool" where
  "QueryMatcher_Equal key v other = (case other of QueryMatcher k v' \<Rightarrow> key = k \<and> v = v' | _ \<Rightarrow> False)"

definition QueryRegexpMatcher_Equal :: "string \<Rightarrow> regexp \<Rightarrow> 'c matcher \<Rightarrow> bool" where
  "QueryRegexpMatcher_Equal key re other =
     (case other of QueryRegexpMatcher k re' \<Rightarrow> key = k \<and> re_string re = re_string re' | _ \<Rightarrow> False)"

definition HeaderMatcher_Equal :: "string \<Rightarrow> string \<Rightarrow> 'c matcher \<Rightarrow> bool" where
  "HeaderMatcher_Equal key v other = (case other of HeaderMatcher k v' \<Rightarrow> key = k \<and> v = v' | _ \<Rightarrow> False)"

definition HeaderRegexpMatcher_Equal :: "string \<Rightarrow> regexp \<Rightarrow> 'c matcher \<Rightarrow> bool" where
  "HeaderRegexpMatcher_Equal key re other =
     (case other of HeaderRegexpMatcher k re' \<Rightarrow> key = k \<and> re_string re = re_string re' | _ \<Rightarrow> False)"

definition ClientIPMatcher_Equal :: "prefix \<Rightarrow> 'c matcher \<Rightarrow> bool" where
  "ClientIPMatcher_Equal p other = (case other of ClientIPMatcher p' \<Rightarrow> p = p' | _ \<Rightarrow> False)"

definition SchemeMatcher_Equal :: "string \<Rightarrow> 'c matcher \<Rightarrow> bool" where
  "SchemeMatcher_Equal s other = (case other of SchemeMatcher s' \<Rightarrow> s = s' | _ \<Rightarrow> False)"

primrec Equal :: "'c matcher \<Rightarrow> 'c matcher \<Rightarrow> bool" where
  "Equal (QueryMatcher k v) = QueryMatcher_Equal k v"
| "Equal (QueryRegexpMatcher k re) = QueryRegexpMatcher_Equal k re"
| "Equal (HeaderMatcher k v) = HeaderMatcher_Equal k v"
| "Equal (HeaderRegexpMatcher k re) = HeaderRegexpMatcher_Equal k re"
| "Equal (ClientIPMatcher p) = ClientIPMatcher_Equal p"
| "Equal (SchemeMatcher s) = SchemeMatcher_Equal s"
| "Equal (CustomMatcher m) = (\<lambda>other. case other of CustomMatcher m' \<Rightarrow> m = m' | _ \<Rightarrow> False)"

lemmas Equal_defs = QueryMatcher_Equal_def QueryRegexpMatcher_Equal_def HeaderMatcher_Equal_def
  HeaderRegexpMatcher_Equal_def ClientIPMatcher_Equal_def SchemeMatcher_Equal_def

lemma Equal_iff [simp]: "Equal a b \<longleftrightarrow> a = b"
  by (cases a; cases b) (auto simp: Equal_defs intro: regexp.expand)

subsection \<open>Constructors\<close>

definition MatchQuery :: "string \<Rightarrow> string \<Rightarrow> 'c matcher option" where
  "MatchQuery key v = (if key = '''' then None else Some (QueryMatcher key v))"

definition MatchQueryRegexp ::
  "(string \<Rightarrow> bool) \<Rightarrow> (string \<Rightarrow> bool) \<Rightarrow> string \<Rightarrow> string \<Rightarrow> 'c matcher option" where
  "MatchQueryRegexp parses too_large key expr =
     (if key = '''' then None
      else map_option (QueryRegexpMatcher key) (compileAnchoredRegexp parses too_large expr))"

text \<open>\<open>httpguts.ValidHeaderFieldName\<close> and \<open>http.CanonicalHeaderKey\<close> are arguments.\<close>

definition matchableHeaderKey :: "(string \<Rightarrow> bool) \<Rightarrow> (string \<Rightarrow> string) \<Rightarrow> string \<Rightarrow> string option" where
  "matchableHeaderKey valid canonicalHeaderKey key =
     (if key = '''' then None
      else if \<not> valid key then None
      else let canonicalKey = canonicalHeaderKey key in
           if canonicalKey = ''Host'' \<or> canonicalKey = ''Transfer-Encoding'' then None
           else Some canonicalKey)"

definition MatchHeader ::
  "(string \<Rightarrow> bool) \<Rightarrow> (string \<Rightarrow> string) \<Rightarrow> string \<Rightarrow> string \<Rightarrow> 'c matcher option" where
  "MatchHeader valid canonicalHeaderKey key v =
     map_option (\<lambda>k. HeaderMatcher k v) (matchableHeaderKey valid canonicalHeaderKey key)"

definition MatchHeaderRegexp ::
  "(string \<Rightarrow> bool) \<Rightarrow> (string \<Rightarrow> string) \<Rightarrow> (string \<Rightarrow> bool) \<Rightarrow> (string \<Rightarrow> bool)
   \<Rightarrow> string \<Rightarrow> string \<Rightarrow> 'c matcher option" where
  "MatchHeaderRegexp valid canonicalHeaderKey parses too_large key expr =
     (case matchableHeaderKey valid canonicalHeaderKey key of
        None \<Rightarrow> None
      | Some k \<Rightarrow> map_option (HeaderRegexpMatcher k) (compileAnchoredRegexp parses too_large expr))"

definition MatchClientIP ::
  "(string \<Rightarrow> prefix option) \<Rightarrow> (string \<Rightarrow> addr option) \<Rightarrow> string \<Rightarrow> 'c matcher option" where
  "MatchClientIP netip_ParsePrefix netip_ParseAddr ip =
     map_option ClientIPMatcher (ParsePrefix netip_ParsePrefix netip_ParseAddr ip)"

definition MatchScheme :: "string \<Rightarrow> 'c matcher option" where
  "MatchScheme scheme =
     (let s = map ToLowerASCII scheme in
      if s \<noteq> ''http'' \<and> s \<noteq> ''https'' then None else Some (SchemeMatcher s))"

subsection \<open>Duplicates\<close>

text \<open>\<open>hasDuplicateMatcher\<close> of \<open>route.go\<close>: the matcher at \<open>i\<close> against those before it.\<close>

fun hasDuplicateMatcher_from :: "'c matcher list \<Rightarrow> 'c matcher list \<Rightarrow> bool" where
  "hasDuplicateMatcher_from before [] = False"
| "hasDuplicateMatcher_from before (m # ms) =
     (if list_ex (\<lambda>m'. Equal m' m) before then True
      else hasDuplicateMatcher_from (before @ [m]) ms)"

definition hasDuplicateMatcher :: "'c matcher list \<Rightarrow> bool" where
  "hasDuplicateMatcher ms = hasDuplicateMatcher_from [] ms"

lemma hasDuplicateMatcher_from_iff:
  "distinct before \<Longrightarrow> hasDuplicateMatcher_from before ms \<longleftrightarrow> \<not> distinct (before @ ms)"
  by (induction before ms rule: hasDuplicateMatcher_from.induct) (auto simp: list_ex_iff)

lemma hasDuplicateMatcher_iff: "hasDuplicateMatcher ms \<longleftrightarrow> \<not> distinct ms"
  by (simp add: hasDuplicateMatcher_def hasDuplicateMatcher_from_iff)

end
