(* ===== verification/Routes.thy ===== *)
theory Routes
  imports Matchers Slices_Util "HOL-Library.List_Lexorder"
begin

text \<open>
  Routes and the routes of a leaf (\<open>route.go\<close>, \<open>parser.go\<close>, and the leaf operations of \<open>node.go\<close>):
  tokens, patterns, the comparison of a route's matchers, and the evaluation order in which a leaf
  keeps its routes.
\<close>

subsection \<open>Tokens, patterns and routes\<close>

datatype nodeType = nodeStatic | nodeParam | nodeWildcard

record token =
  tregexp :: "regexp option"
  tvalue :: string
  ttyp :: nodeType
  tnested :: bool
  thsplit :: bool

record pattern =
  pstr :: string
  ptokens :: "token list"
  optionalCatchAll :: bool
  catchAll :: bool
  endHost :: nat
  hostParams :: nat

datatype TrailingSlashOption = ExactSlash | RelaxedSlash | RedirectSlash

text \<open>
  A \<open>Route\<close>. The handlers, middleware, annotations and client-IP resolver of the Go struct are only
  carried along by the routing code: they are the field \<open>rhandlers\<close>, of any type.
\<close>

record ('c, 'h) route =
  rname :: string
  rmethods :: "string list"
  rparams :: "string list"
  rmatchers :: "'c matcher list"
  rmethodFast :: string
  rpattern :: pattern
  rpriority :: nat
  rhandleSlash :: TrailingSlashOption
  rnested :: bool
  rhandlers :: 'h

definition Hostname :: "('c, 'h) route \<Rightarrow> string" where
  "Hostname r = take (endHost (rpattern r)) (pstr (rpattern r))"

definition Path :: "('c, 'h) route \<Rightarrow> string" where
  "Path r = drop (endHost (rpattern r)) (pstr (rpattern r))"

subsection \<open>Comparing matchers\<close>

definition matchersEqual :: "('c, 'h) route \<Rightarrow> 'c matcher list \<Rightarrow> bool" where
  "matchersEqual r ms =
     (if length (rmatchers r) \<noteq> length ms then False
      else match_all (rmatchers r) ms (replicate (length ms) False))"

definition matchersWithin :: "('c, 'h) route \<Rightarrow> 'c matcher list \<Rightarrow> bool" where
  "matchersWithin r ms = list_all (\<lambda>a. list_ex (\<lambda>b. Equal a b) ms) (rmatchers r)"

lemma matchersEqual_mset: "matchersEqual r ms \<longleftrightarrow> mset (rmatchers r) = mset ms"
  using EqualUnsorted_mset [of "rmatchers r" ms] by (simp add: matchersEqual_def EqualUnsorted_def)

lemma matchersWithin_iff: "matchersWithin r ms \<longleftrightarrow> set (rmatchers r) \<subseteq> set ms"
  by (auto simp: matchersWithin_def list_all_iff list_ex_iff)

text \<open>The identity under which \<open>Update\<close> and \<open>Delete\<close> find a registered route.\<close>

definition same_route :: "('c, 'h) route \<Rightarrow> ('c, 'h) route \<Rightarrow> bool" where
  "same_route route r \<longleftrightarrow>
     pstr (rpattern r) = pstr (rpattern route) \<and> rmethods r = rmethods route \<and>
     matchersEqual r (rmatchers route)"

primrec index_func :: "('a \<Rightarrow> bool) \<Rightarrow> 'a list \<Rightarrow> nat option" where
  "index_func P [] = None"
| "index_func P (x # xs) = (if P x then Some 0 else map_option Suc (index_func P xs))"

lemma index_func_None: "index_func P xs = None \<longleftrightarrow> (\<forall>x \<in> set xs. \<not> P x)"
  by (induction xs) auto

lemma index_func_Some:
  "index_func P xs = Some i \<longleftrightarrow> i < length xs \<and> P (xs ! i) \<and> (\<forall>j < i. \<not> P (xs ! j))"
proof (induction xs arbitrary: i)
  case (Cons x xs)
  then show ?case
    by (cases i) (auto simp: less_Suc_eq_0_disj)
qed simp

lemma index_func_less: "index_func P xs = Some i \<Longrightarrow> i < length xs"
  by (simp add: index_func_Some)

subsection \<open>The routes of a leaf\<close>

fun findInsertPosition :: "('c, 'h) route list \<Rightarrow> ('c, 'h) route \<Rightarrow> nat" where
  "findInsertPosition [] route = 0"
| "findInsertPosition (existing # rest) route =
     (let hasMethods = rmethods route \<noteq> [];
          hasMatchers = rmatchers route \<noteq> [];
          existingHasMethods = rmethods existing \<noteq> [];
          existingHasMatchers = rmatchers existing \<noteq> []
      in if hasMethods \<and> \<not> existingHasMethods then 0
         else if hasMethods = existingHasMethods \<and> hasMatchers \<and> \<not> existingHasMatchers then 0
         else if hasMethods = existingHasMethods \<and> hasMatchers \<and> existingHasMatchers
                 \<and> rpriority existing < rpriority route then 0
         else Suc (findInsertPosition rest route))"

text \<open>\<open>slices.Insert\<close>.\<close>

definition insert_at :: "nat \<Rightarrow> 'a \<Rightarrow> 'a list \<Rightarrow> 'a list" where
  "insert_at pos x xs = take pos xs @ x # drop pos xs"

definition addRoute :: "('c, 'h) route list \<Rightarrow> ('c, 'h) route \<Rightarrow> ('c, 'h) route list" where
  "addRoute rs route =
     (if rmethods route = [] \<and> rmatchers route = [] then rs @ [route]
      else insert_at (findInsertPosition rs route) route rs)"

definition delete_at :: "nat \<Rightarrow> 'a list \<Rightarrow> 'a list" where
  "delete_at idx xs = take idx xs @ drop (Suc idx) xs"

definition replaceRoute :: "('c, 'h) route list \<Rightarrow> nat \<Rightarrow> ('c, 'h) route \<Rightarrow> ('c, 'h) route list" where
  "replaceRoute rs idx route =
     (if rpriority (rs ! idx) = rpriority route \<or> rmatchers route = [] then rs[idx := route]
      else let rs' = delete_at idx rs in insert_at (findInsertPosition rs' route) route rs')"

definition delRoute :: "('c, 'h) route list \<Rightarrow> nat \<Rightarrow> ('c, 'h) route list" where
  "delRoute rs idx = delete_at idx rs"

text \<open>
  The order of evaluation of the routes of one leaf: those with methods first, within them those with
  matchers first, and among these the higher priority first.
\<close>

definition before :: "('c, 'h) route \<Rightarrow> ('c, 'h) route \<Rightarrow> bool" where
  "before r r' \<longleftrightarrow>
     (if (rmethods r = []) \<noteq> (rmethods r' = []) then rmethods r' = []
      else if (rmatchers r = []) \<noteq> (rmatchers r' = []) then rmatchers r' = []
      else rmatchers r = [] \<or> rpriority r' \<le> rpriority r)"

abbreviation leaf_sorted :: "('c, 'h) route list \<Rightarrow> bool" where
  "leaf_sorted rs \<equiv> sorted_wrt before rs"

lemma before_trans: "before a b \<Longrightarrow> before b c \<Longrightarrow> before a c"
  unfolding before_def
  by (cases "rmethods a = []"; cases "rmethods b = []"; cases "rmethods c = []";
      cases "rmatchers a = []"; cases "rmatchers b = []"; cases "rmatchers c = []"; simp)

lemma set_mset_eq_of_mset: "mset xs = add_mset x (mset ys) \<Longrightarrow> set xs = insert x (set ys)"
  by (metis set_mset_add_mset_insert set_mset_mset)

lemma mset_insert_at [simp]: "mset (insert_at pos x xs) = add_mset x (mset xs)"
proof -
  have "mset xs = mset (take pos xs) + mset (drop pos xs)"
    by (metis append_take_drop_id mset_append)
  then show ?thesis by (simp add: insert_at_def)
qed

lemma set_insert_at [simp]: "set (insert_at pos x xs) = insert x (set xs)"
  by (rule set_mset_eq_of_mset) simp

lemma mset_delete_at: "idx < length xs \<Longrightarrow> mset (delete_at idx xs) = mset xs - {#xs ! idx#}"
  unfolding delete_at_def
  by (subst (3) id_take_nth_drop [of idx xs]) simp_all

lemma sorted_wrt_delete_at: "sorted_wrt P xs \<Longrightarrow> sorted_wrt P (delete_at idx xs)"
proof -
  assume "sorted_wrt P xs"
  then have "sorted_wrt P (take idx xs @ drop idx xs)" by simp
  then have "sorted_wrt P (take idx xs)" "sorted_wrt P (drop idx xs)"
      "\<forall>x \<in> set (take idx xs). \<forall>y \<in> set (drop idx xs). P x y"
    unfolding sorted_wrt_append by blast+
  moreover have "drop (Suc idx) xs = tl (drop idx xs)"
    by (simp add: drop_Suc tl_drop)
  ultimately show ?thesis
    unfolding delete_at_def sorted_wrt_append
    by (cases "drop idx xs") auto
qed

lemma findInsertPosition_le: "findInsertPosition rs route \<le> length rs"
  by (induction rs route rule: findInsertPosition.induct) (auto simp: Let_def)

lemma findInsertPosition_sorted:
  "leaf_sorted rs \<Longrightarrow> rmethods route \<noteq> [] \<or> rmatchers route \<noteq> [] \<Longrightarrow>
     leaf_sorted (insert_at (findInsertPosition rs route) route rs)"
proof (induction rs route rule: findInsertPosition.induct)
  case (2 existing rest route)
  show ?case
  proof (cases "findInsertPosition (existing # rest) route")
    case 0
    then have "before route existing"
      by (auto simp: before_def Let_def split: if_splits)
    with "2.prems" have "\<forall>r \<in> set rest. before route r"
      using before_trans by auto
    with 0 \<open>before route existing\<close> "2.prems" show ?thesis
      by (simp add: insert_at_def)
  next
    case (Suc k)
    then have k: "k = findInsertPosition rest route" and ex: "before existing route"
      using "2.prems"(2) by (auto simp: before_def Let_def split: if_splits)
    with "2.IH" [OF refl refl refl refl] "2.prems" Suc have "leaf_sorted (insert_at k route rest)"
      by (auto simp: Let_def split: if_splits)
    moreover have "insert_at (Suc k) route (existing # rest) = existing # insert_at k route rest"
      by (simp add: insert_at_def)
    ultimately show ?thesis
      using Suc ex "2.prems"(1) by simp
  qed
qed (simp add: insert_at_def)

lemma before_last: "rmethods route = [] \<Longrightarrow> rmatchers route = [] \<Longrightarrow> before r route"
  by (auto simp: before_def)

lemma addRoute_sorted: "leaf_sorted rs \<Longrightarrow> leaf_sorted (addRoute rs route)"
  by (auto simp: addRoute_def sorted_wrt_append before_last intro: findInsertPosition_sorted)

lemma mset_addRoute [simp]: "mset (addRoute rs route) = add_mset route (mset rs)"
  by (simp add: addRoute_def)

lemma set_addRoute [simp]: "set (addRoute rs route) = insert route (set rs)"
  by (rule set_mset_eq_of_mset) simp

lemma addRoute_not_Nil [simp]: "addRoute rs route \<noteq> []"
  using set_addRoute [of rs route] by fastforce

lemma mset_replaceRoute:
  "idx < length rs \<Longrightarrow> mset (replaceRoute rs idx route) = add_mset route (mset rs - {#rs ! idx#})"
  by (auto simp: replaceRoute_def Let_def mset_update mset_delete_at)

lemma length_replaceRoute: "idx < length rs \<Longrightarrow> length (replaceRoute rs idx route) = length rs"
  using arg_cong [OF mset_replaceRoute [of idx rs route], of size]
  by (simp add: size_Diff_singleton del: size_mset flip: size_mset)

lemma replaceRoute_not_Nil: "idx < length rs \<Longrightarrow> replaceRoute rs idx route \<noteq> []"
  using length_replaceRoute [of idx rs route] by auto

lemma sorted_wrt_update:
  assumes "sorted_wrt P xs" and "i < length xs"
    and "\<And>y. P (xs ! i) y \<Longrightarrow> P x y" and "\<And>y. P y (xs ! i) \<Longrightarrow> P y x"
  shows "sorted_wrt P (xs[i := x])"
  unfolding sorted_wrt_iff_nth_less
proof (intro allI impI)
  fix j k assume jk: "j < k" "k < length (xs[i := x])"
  then have "P (xs ! j) (xs ! k)"
    using assms(1) by (auto simp: sorted_wrt_iff_nth_less)
  with jk assms(3,4) show "P (xs[i := x] ! j) (xs[i := x] ! k)"
    by (cases "i = j"; cases "i = k") auto
qed

lemma before_congs:
  assumes "(rmethods a = []) = (rmethods b = [])" "(rmatchers a = []) = (rmatchers b = [])"
    and "rpriority a = rpriority b \<or> rmatchers b = []"
  shows "before a y = before b y" "before y a = before y b"
  using assms unfolding before_def by (cases "rmatchers b = []"; simp)+

lemma replaceRoute_sorted:
  assumes "leaf_sorted rs" and "idx < length rs" and "same_route route (rs ! idx)"
  shows "leaf_sorted (replaceRoute rs idx route)"
proof (cases "rpriority (rs ! idx) = rpriority route \<or> rmatchers route = []")
  case True
  let ?old = "rs ! idx"
  have tiers: "(rmethods ?old = []) = (rmethods route = [])" "(rmatchers ?old = []) = (rmatchers route = [])"
    using assms(3) by (auto simp: same_route_def matchersEqual_mset)
  have "before ?old y \<Longrightarrow> before route y" "before y ?old \<Longrightarrow> before y route" for y
    using before_congs [OF tiers True] by blast+
  then have "leaf_sorted (rs[idx := route])"
    by (intro sorted_wrt_update [OF assms(1,2)])
  with True show ?thesis by (simp add: replaceRoute_def)
next
  case False
  then show ?thesis
    using assms findInsertPosition_sorted [OF sorted_wrt_delete_at [OF assms(1)], of route]
    by (simp add: replaceRoute_def Let_def)
qed

lemma delRoute_sorted: "leaf_sorted rs \<Longrightarrow> leaf_sorted (delRoute rs idx)"
  by (simp add: delRoute_def sorted_wrt_delete_at)

subsection \<open>Matching a route\<close>

text \<open>
  \<open>Route.match\<close> with its fast path. \<open>failed\<close> is the set of routes recorded by
  \<open>lookupState.setMatcherFailed\<close> during the current lookup; it is consulted and extended for the
  routes with \<open>nested\<close> only. A matcher is evaluated with the route as \<open>matcherRoute\<close>, whose client-IP resolver it
  may call: \<open>ev\<close> takes both.
\<close>

definition matchSlow ::
  "(('c, 'h) route \<Rightarrow> 'c matcher \<Rightarrow> bool) \<Rightarrow> string \<Rightarrow> ('c, 'h) route set \<Rightarrow> ('c, 'h) route \<Rightarrow> bool \<times> ('c, 'h) route set" where
  "matchSlow ev method failed r =
     (let methods = rmethods r in
      if length methods = 1 \<and> methods ! 0 \<noteq> method then (False, failed)
      else if 1 < length methods \<and> method \<notin> set methods then (False, failed)
      else if rnested r \<and> r \<in> failed then (False, failed)
      else if list_all (ev r) (rmatchers r) then (True, failed)
      else (False, if rnested r then insert r failed else failed))"

definition match ::
  "(('c, 'h) route \<Rightarrow> 'c matcher \<Rightarrow> bool) \<Rightarrow> string \<Rightarrow> ('c, 'h) route set \<Rightarrow> ('c, 'h) route \<Rightarrow> bool \<times> ('c, 'h) route set" where
  "match ev method failed r =
     (if rmethodFast r = method then (True, failed) else matchSlow ev method failed r)"

text \<open>What \<open>NewRoute\<close> establishes of \<open>methodFast\<close>, and what a route accepts.\<close>

definition fast_ok :: "('c, 'h) route \<Rightarrow> bool" where
  "fast_ok r \<longleftrightarrow> rmethodFast r = '''' \<or> rmethods r = [rmethodFast r] \<and> rmatchers r = []"

definition accepts :: "(('c, 'h) route \<Rightarrow> 'c matcher \<Rightarrow> bool) \<Rightarrow> string \<Rightarrow> ('c, 'h) route \<Rightarrow> bool" where
  "accepts ev method r \<longleftrightarrow>
     (rmethods r = [] \<or> method \<in> set (rmethods r)) \<and> (\<forall>m \<in> set (rmatchers r). ev r m)"

definition failed_ok :: "(('c, 'h) route \<Rightarrow> 'c matcher \<Rightarrow> bool) \<Rightarrow> ('c, 'h) route set \<Rightarrow> bool" where
  "failed_ok ev failed \<longleftrightarrow> (\<forall>r \<in> failed. \<exists>m \<in> set (rmatchers r). \<not> ev r m)"

lemma length_1_conv: "length xs = Suc 0 \<longleftrightarrow> (\<exists>x. xs = [x])"
  by (cases xs) auto

lemma matchSlow_accepts:
  "failed_ok ev failed \<Longrightarrow> matchSlow ev method failed r = (b, failed') \<Longrightarrow>
     b = accepts ev method r \<and> failed_ok ev failed'"
  by (cases "rmethods r")
    (auto simp: matchSlow_def accepts_def failed_ok_def Let_def length_1_conv list_all_iff split: if_splits)

lemma match_accepts:
  assumes "fast_ok r" and "method \<noteq> ''''" and "failed_ok ev failed"
  shows "fst (match ev method failed r) = accepts ev method r"
    and "failed_ok ev (snd (match ev method failed r))"
proof -
  obtain b f where m: "matchSlow ev method failed r = (b, f)" by fastforce
  from matchSlow_accepts [OF assms(3) this] assms m
  show "fst (match ev method failed r) = accepts ev method r"
    and "failed_ok ev (snd (match ev method failed r))"
    by (auto simp: match_def fast_ok_def accepts_def)
qed


section \<open>Properties of routes and leaves\<close>

text \<open>
  The three matcher comparisons: \<open>matchersEqual\<close> is equality up to order, \<open>matchersWithin\<close> is
  inclusion, and \<open>hasDuplicateMatcher\<close> finds a repeated matcher.
\<close>

theorem matcher_comparisons_correct:
  "(matchersEqual r ms \<longleftrightarrow> mset (rmatchers r) = mset ms)
   \<and> (matchersWithin r ms \<longleftrightarrow> set (rmatchers r) \<subseteq> set ms)
   \<and> (hasDuplicateMatcher ms \<longleftrightarrow> \<not> distinct ms)"
  by (simp add: matchersEqual_mset matchersWithin_iff hasDuplicateMatcher_iff)

text \<open>
  C33. Every operation on a leaf keeps its routes in evaluation order (methods first, then matchers,
  then the higher priority) and changes exactly the intended route.
\<close>

theorem leaf_operations_correct:
  assumes "leaf_sorted rs"
  shows "leaf_sorted (addRoute rs route) \<and> mset (addRoute rs route) = add_mset route (mset rs)
    \<and> leaf_sorted (delRoute rs idx)
    \<and> (idx < length rs \<longrightarrow> mset (delRoute rs idx) = mset rs - {#rs ! idx#}
         \<and> mset (replaceRoute rs idx route) = add_mset route (mset rs - {#rs ! idx#})
         \<and> (same_route route (rs ! idx) \<longrightarrow> leaf_sorted (replaceRoute rs idx route)))"
  using assms delRoute_sorted [OF assms, of idx] mset_delete_at [of idx rs]
  by (simp add: addRoute_sorted replaceRoute_sorted mset_replaceRoute delRoute_def)

definition demo_route :: "string list \<Rightarrow> 'c matcher list \<Rightarrow> nat \<Rightarrow> ('c, unit) route" where
  "demo_route methods ms priority =
     \<lparr>rname = '''', rmethods = methods, rparams = [], rmatchers = ms, rmethodFast = '''',
      rpattern = \<lparr>pstr = ''/a'', ptokens = [\<lparr>tregexp = None, tvalue = ''/a'', ttyp = nodeStatic,
        tnested = False, thsplit = False\<rparr>], optionalCatchAll = False, catchAll = False, endHost = 0,
        hostParams = 0\<rparr>,
      rpriority = priority, rhandleSlash = ExactSlash, rnested = False, rhandlers = ()\<rparr>"

definition demo_leaf :: "(unit, unit) route list" where
  "demo_leaf = [demo_route [''GET''] [SchemeMatcher ''https''] 1, demo_route [''GET''] [] 0, demo_route [] [] 0]"

theorem leaf_operations_witness:
  "leaf_sorted demo_leaf
   \<and> leaf_sorted (addRoute demo_leaf (demo_route [''GET''] [SchemeMatcher ''http''] 2))
   \<and> leaf_sorted (replaceRoute demo_leaf 1 (demo_route [''GET''] [] 0))
   \<and> mset (delRoute demo_leaf 0) = mset demo_leaf - {#demo_leaf ! 0#}"
proof -
  have sorted: "leaf_sorted demo_leaf"
    by (simp add: demo_leaf_def before_def demo_route_def)
  have same: "same_route (demo_route [''GET''] [] 0) (demo_leaf ! 1)"
    by (simp add: demo_leaf_def same_route_def demo_route_def matchersEqual_def)
  have len: "1 < length demo_leaf" "0 < length demo_leaf"
    by (simp_all add: demo_leaf_def)
  show ?thesis
    using sorted leaf_operations_correct [OF sorted] len same by blast
qed

text \<open>
  C32. \<open>Route.match\<close>, with its single-method fast path and the memo of failed matchers, decides whether
  the route accepts the request, and keeps the memo sound.
\<close>

theorem match_correct:
  assumes "fast_ok r" and "method \<noteq> ''''" and "failed_ok ev failed"
  shows "fst (match ev method failed r) = accepts ev method r
    \<and> failed_ok ev (snd (match ev method failed r))"
  using match_accepts [OF assms] by simp

theorem match_correct_witness:
  "let r = demo_route [''GET'', ''PUT''] [SchemeMatcher ''https'' :: unit matcher] 1;
       ev = (\<lambda>_ m. m = SchemeMatcher ''http'')
   in accepts ev ''PUT'' r = fst (match ev ''PUT'' {} r) \<and> \<not> fst (match ev ''PUT'' {} r)"
  using match_correct [of "demo_route [''GET'', ''PUT''] [SchemeMatcher ''https'' :: unit matcher] 1" "''PUT''"
      "\<lambda>_ m. m = SchemeMatcher ''http''" "{}"]
  by (simp add: demo_route_def fast_ok_def failed_ok_def accepts_def Let_def)

end
