(* ===== verification/Node_Edges.thy ===== *)
theory Node_Edges
  imports Routes
begin

text \<open>
  The radix-tree node of \<open>node.go\<close> and its three tables of children: static children sorted by their
  label byte and found by binary search, parameter and wildcard children in evaluation order with the
  unconstrained placeholder (\<open>?\<close> or \<open>*\<close>) last. The locale \<open>edge_table\<close> states what the tree
  operations rely on; it is interpreted on each of the three tables.
\<close>

text \<open>
  The field \<open>prog\<close> of the Go node is \<open>compileProg\<close> of the field \<open>regexp\<close>, and is not repeated. A node
  is a value here: the copy that \<open>writeNode\<close> makes before a modification is the node itself.
\<close>

datatype 'r node =
  Node (nroutes: "'r list") (nregexp: "regexp option") (nkey: string)
    (nstatics: "'r node list") (nparams: "'r node list") (nwildcards: "'r node list")
    (nlabel: char) (nhost: bool) (nnested: bool)

definition new_node :: "'r node" where
  "new_node = Node [] None '''' [] [] [] (CHR 0x00) False False"

primrec set_nroutes :: "'r list \<Rightarrow> 'r node \<Rightarrow> 'r node" where
  "set_nroutes rs (Node _ re k ss ps ws l h ne) = Node rs re k ss ps ws l h ne"

primrec set_nstatics :: "'r node list \<Rightarrow> 'r node \<Rightarrow> 'r node" where
  "set_nstatics ss (Node rs re k _ ps ws l h ne) = Node rs re k ss ps ws l h ne"

primrec set_nparams :: "'r node list \<Rightarrow> 'r node \<Rightarrow> 'r node" where
  "set_nparams ps (Node rs re k ss _ ws l h ne) = Node rs re k ss ps ws l h ne"

primrec set_nwildcards :: "'r node list \<Rightarrow> 'r node \<Rightarrow> 'r node" where
  "set_nwildcards ws (Node rs re k ss ps _ l h ne) = Node rs re k ss ps ws l h ne"

primrec set_nkey :: "char \<Rightarrow> string \<Rightarrow> 'r node \<Rightarrow> 'r node" where
  "set_nkey l k (Node rs re _ ss ps ws _ h ne) = Node rs re k ss ps ws l h ne"

lemma node_updates [simp]:
  "nroutes (set_nroutes rs n) = rs" "nroutes (set_nstatics ss n) = nroutes n"
  "nroutes (set_nparams ss n) = nroutes n" "nroutes (set_nwildcards ss n) = nroutes n"
  "nroutes (set_nkey l k n) = nroutes n"
  "nstatics (set_nroutes rs n) = nstatics n" "nstatics (set_nstatics ss n) = ss"
  "nstatics (set_nparams ss n) = nstatics n" "nstatics (set_nwildcards ss n) = nstatics n"
  "nstatics (set_nkey l k n) = nstatics n"
  "nparams (set_nroutes rs n) = nparams n" "nparams (set_nstatics ss n) = nparams n"
  "nparams (set_nparams ss n) = ss" "nparams (set_nwildcards ss n) = nparams n"
  "nparams (set_nkey l k n) = nparams n"
  "nwildcards (set_nroutes rs n) = nwildcards n" "nwildcards (set_nstatics ss n) = nwildcards n"
  "nwildcards (set_nparams ss n) = nwildcards n" "nwildcards (set_nwildcards ss n) = ss"
  "nwildcards (set_nkey l k n) = nwildcards n"
  by (cases n; simp)+

lemma node_updates_info [simp]:
  "nkey (set_nroutes rs n) = nkey n" "nkey (set_nstatics ss n) = nkey n"
  "nkey (set_nparams ss n) = nkey n" "nkey (set_nwildcards ss n) = nkey n" "nkey (set_nkey l k n) = k"
  "nlabel (set_nroutes rs n) = nlabel n" "nlabel (set_nstatics ss n) = nlabel n"
  "nlabel (set_nparams ss n) = nlabel n" "nlabel (set_nwildcards ss n) = nlabel n"
  "nlabel (set_nkey l k n) = l"
  "nhost (set_nroutes rs n) = nhost n" "nhost (set_nstatics ss n) = nhost n"
  "nhost (set_nparams ss n) = nhost n" "nhost (set_nwildcards ss n) = nhost n" "nhost (set_nkey l k n) = nhost n"
  "nregexp (set_nroutes rs n) = nregexp n" "nregexp (set_nstatics ss n) = nregexp n"
  "nregexp (set_nparams ss n) = nregexp n" "nregexp (set_nwildcards ss n) = nregexp n"
  "nregexp (set_nkey l k n) = nregexp n"
  "nnested (set_nroutes rs n) = nnested n" "nnested (set_nstatics ss n) = nnested n"
  "nnested (set_nparams ss n) = nnested n" "nnested (set_nwildcards ss n) = nnested n"
  "nnested (set_nkey l k n) = nnested n"
  by (cases n; simp)+

lemma new_node_simps [simp]:
  "nroutes new_node = []" "nstatics new_node = []" "nparams new_node = []" "nwildcards new_node = []"
  "nkey new_node = ''''" "nlabel new_node = CHR 0x00"
  by (simp_all add: new_node_def)

definition isLeaf :: "'r node \<Rightarrow> bool" where
  "isLeaf n \<longleftrightarrow> 0 < length (nroutes n)"

lemma isLeaf_iff [simp]: "isLeaf n \<longleftrightarrow> nroutes n \<noteq> []"
  by (simp add: isLeaf_def)

lemma child_size:
  "c \<in> set (nstatics n) \<Longrightarrow> size c < size n"
  "c \<in> set (nparams n) \<Longrightarrow> size c < size n"
  "c \<in> set (nwildcards n) \<Longrightarrow> size c < size n"
  by (cases n; auto dest!: size_list_estimation' [OF _ order_refl, where f = size])+

subsection \<open>Binary search\<close>

text \<open>\<open>sort.Search\<close>: the smallest index below \<open>n\<close> at which the monotone \<open>f\<close> holds, or \<open>n\<close>.\<close>

function sort_Search_loop :: "(nat \<Rightarrow> bool) \<Rightarrow> nat \<Rightarrow> nat \<Rightarrow> nat" where
  "sort_Search_loop f i j =
     (if i < j then
        let h = (i + j) div 2 in
        if \<not> f h then sort_Search_loop f (h + 1) j else sort_Search_loop f i h
      else i)"
  by auto
termination
  by (relation "measure (\<lambda>(f, i, j). j - i)") auto

declare sort_Search_loop.simps [simp del]

definition sort_Search :: "nat \<Rightarrow> (nat \<Rightarrow> bool) \<Rightarrow> nat" where
  "sort_Search n f = sort_Search_loop f 0 n"

definition upward :: "nat \<Rightarrow> (nat \<Rightarrow> bool) \<Rightarrow> bool" where
  "upward n f \<longleftrightarrow> (\<forall>a b. a \<le> b \<longrightarrow> b < n \<longrightarrow> f a \<longrightarrow> f b)"

lemma sort_Search_loop_spec:
  "upward n f \<Longrightarrow> i \<le> j \<Longrightarrow> j \<le> n \<Longrightarrow> \<forall>k < i. \<not> f k \<Longrightarrow> \<forall>k. j \<le> k \<and> k < n \<longrightarrow> f k \<Longrightarrow>
     sort_Search_loop f i j \<le> n \<and> (\<forall>k < sort_Search_loop f i j. \<not> f k)
       \<and> (\<forall>k. sort_Search_loop f i j \<le> k \<and> k < n \<longrightarrow> f k)"
proof (induction f i j rule: sort_Search_loop.induct)
  case (1 f i j)
  note prems = "1.prems"
  show ?case
  proof (cases "i < j")
    case False
    then have eq: "sort_Search_loop f i j = i"
      by (subst sort_Search_loop.simps) simp
    from False prems have "i = j" by simp
    with prems show ?thesis unfolding eq by simp
  next
    case True
    define h where "h = (i + j) div 2"
    have h: "i \<le> h" "h < j" "h < n" using True prems by (auto simp: h_def)
    show ?thesis
    proof (cases "f h")
      case True
      have eq: "sort_Search_loop f i j = sort_Search_loop f i h"
        using True \<open>i < j\<close> by (simp add: sort_Search_loop.simps [of f i j] h_def Let_def)
      have up: "\<forall>k. h \<le> k \<and> k < n \<longrightarrow> f k"
        using prems(1) True unfolding upward_def by blast
      have "\<not> \<not> f h" "h \<le> n" using True h by auto
      from "1.IH"(2) [OF \<open>i < j\<close> h_def this(1) prems(1) h(1) this(2) prems(4) up]
      show ?thesis unfolding eq .
    next
      case False
      have eq: "sort_Search_loop f i j = sort_Search_loop f (h + 1) j"
        using False \<open>i < j\<close> by (simp add: sort_Search_loop.simps [of f i j] h_def Let_def)
      have down: "\<forall>k < h + 1. \<not> f k"
      proof (intro allI impI notI)
        fix k assume "k < h + 1" "f k"
        then have "k \<le> h" by simp
        with \<open>f k\<close> h prems(1) have "f h" unfolding upward_def by blast
        with False show False by simp
      qed
      have "h + 1 \<le> j" using h by simp
      from "1.IH"(1) [OF \<open>i < j\<close> h_def False prems(1) this prems(3) down prems(5)]
      show ?thesis unfolding eq .
    qed
  qed
qed

lemma sort_Search_spec:
  assumes "upward n f"
  shows "sort_Search n f \<le> n" "k < sort_Search n f \<Longrightarrow> \<not> f k" "sort_Search n f \<le> k \<Longrightarrow> k < n \<Longrightarrow> f k"
proof -
  have "sort_Search_loop f 0 n \<le> n \<and> (\<forall>k < sort_Search_loop f 0 n. \<not> f k)
      \<and> (\<forall>k. sort_Search_loop f 0 n \<le> k \<and> k < n \<longrightarrow> f k)"
    by (rule sort_Search_loop_spec [OF assms]) auto
  then show "sort_Search n f \<le> n" "k < sort_Search n f \<Longrightarrow> \<not> f k"
      "sort_Search n f \<le> k \<Longrightarrow> k < n \<Longrightarrow> f k"
    unfolding sort_Search_def by blast+
qed

subsection \<open>Static children\<close>

definition static_index :: "'r node list \<Rightarrow> char \<Rightarrow> nat" where
  "static_index ss label = sort_Search (length ss) (\<lambda>i. label \<le> nlabel (ss ! i))"

definition get_static :: "'r node list \<Rightarrow> char \<Rightarrow> (nat \<times> 'r node) option" where
  "get_static ss label =
     (let idx = static_index ss label in
      if idx < length ss \<and> nlabel (ss ! idx) = label then Some (idx, ss ! idx) else None)"

definition add_static :: "'r node list \<Rightarrow> 'r node \<Rightarrow> 'r node list" where
  "add_static ss child =
     (let num = length ss; idx = static_index ss (nlabel child) in
      if idx \<noteq> num then take idx ss @ child # drop idx ss else ss @ [child])"

text \<open>The panic of \<open>replaceStaticEdge\<close> on a missing edge is \<open>None\<close>.\<close>

definition replace_static :: "'r node list \<Rightarrow> 'r node \<Rightarrow> 'r node list option" where
  "replace_static ss child =
     (let idx = static_index ss (nlabel child) in
      if idx < length ss \<and> nlabel (ss ! idx) = nlabel child then Some (ss[idx := child]) else None)"

definition del_static :: "'r node list \<Rightarrow> char \<Rightarrow> 'r node list" where
  "del_static ss label =
     (let idx = static_index ss label in
      if idx < length ss \<and> nlabel (ss ! idx) = label then delete_at idx ss else ss)"

definition static_inv :: "'r node list \<Rightarrow> bool" where
  "static_inv ss \<longleftrightarrow> sorted_wrt (\<lambda>a b. nlabel a < nlabel b) ss"

subsection \<open>Parameter and wildcard children\<close>

definition get_keyed :: "'r node list \<Rightarrow> string \<Rightarrow> (nat \<times> 'r node) option" where
  "get_keyed cs key = map_option (\<lambda>idx. (idx, cs ! idx)) (index_func (\<lambda>c. nkey c = key) cs)"

definition add_keyed :: "string \<Rightarrow> 'r node list \<Rightarrow> 'r node \<Rightarrow> 'r node list" where
  "add_keyed mark cs child =
     (let cs' = cs @ [child] in
      if nkey child = mark then cs'
      else (case index_func (\<lambda>c. nkey c = mark) cs' of
              None \<Rightarrow> cs'
            | Some idx \<Rightarrow>
                let lastIdx = length cs' - 1 in
                if idx < lastIdx then cs'[idx := cs' ! lastIdx, lastIdx := cs' ! idx] else cs'))"

definition del_keyed :: "'r node list \<Rightarrow> string \<Rightarrow> 'r node list" where
  "del_keyed cs key =
     (case index_func (\<lambda>c. nkey c = key) cs of None \<Rightarrow> cs | Some idx \<Rightarrow> delete_at idx cs)"

definition keyed_inv :: "string \<Rightarrow> 'r node list \<Rightarrow> bool" where
  "keyed_inv mark cs \<longleftrightarrow> distinct (map nkey cs) \<and> (\<forall>c \<in> set (butlast cs). nkey c \<noteq> mark)"

subsection \<open>The operations on a node\<close>

definition getStaticEdge :: "'r node \<Rightarrow> char \<Rightarrow> (nat \<times> 'r node) option" where
  "getStaticEdge n label = get_static (nstatics n) label"

definition addStaticEdge :: "'r node \<Rightarrow> 'r node \<Rightarrow> 'r node" where
  "addStaticEdge n child = set_nstatics (add_static (nstatics n) child) n"

definition replaceStaticEdge :: "'r node \<Rightarrow> 'r node \<Rightarrow> 'r node option" where
  "replaceStaticEdge n child = map_option (\<lambda>ss. set_nstatics ss n) (replace_static (nstatics n) child)"

definition delStaticEdge :: "'r node \<Rightarrow> char \<Rightarrow> 'r node" where
  "delStaticEdge n label = set_nstatics (del_static (nstatics n) label) n"

definition getParamEdge :: "'r node \<Rightarrow> string \<Rightarrow> (nat \<times> 'r node) option" where
  "getParamEdge n key = get_keyed (nparams n) key"

definition addParamEdge :: "'r node \<Rightarrow> 'r node \<Rightarrow> 'r node" where
  "addParamEdge n child = set_nparams (add_keyed ''?'' (nparams n) child) n"

definition delParamEdge :: "'r node \<Rightarrow> string \<Rightarrow> 'r node" where
  "delParamEdge n key = set_nparams (del_keyed (nparams n) key) n"

definition getWildcardEdge :: "'r node \<Rightarrow> string \<Rightarrow> (nat \<times> 'r node) option" where
  "getWildcardEdge n key = get_keyed (nwildcards n) key"

definition addWildcardEdge :: "'r node \<Rightarrow> 'r node \<Rightarrow> 'r node" where
  "addWildcardEdge n child = set_nwildcards (add_keyed ''*'' (nwildcards n) child) n"

definition delWildcardEdge :: "'r node \<Rightarrow> string \<Rightarrow> 'r node" where
  "delWildcardEdge n key = set_nwildcards (del_keyed (nwildcards n) key) n"

subsection \<open>The contract of a table of children\<close>

locale edge_table =
  fixes inv :: "'n list \<Rightarrow> bool"
    and keyof :: "'n \<Rightarrow> 'k"
    and get :: "'n list \<Rightarrow> 'k \<Rightarrow> (nat \<times> 'n) option"
    and add :: "'n list \<Rightarrow> 'n \<Rightarrow> 'n list"
    and del :: "'n list \<Rightarrow> 'k \<Rightarrow> 'n list"
  assumes get_iff: "inv xs \<Longrightarrow> get xs k = Some (i, x) \<longleftrightarrow> i < length xs \<and> xs ! i = x \<and> keyof x = k"
    and distinct_keys: "inv xs \<Longrightarrow> distinct (map keyof xs)"
    and inv_Nil: "inv []"
    and inv_add: "inv xs \<Longrightarrow> get xs (keyof x) = None \<Longrightarrow> inv (add xs x)"
    and mset_add: "inv xs \<Longrightarrow> mset (add xs x) = add_mset x (mset xs)"
    and inv_update: "inv xs \<Longrightarrow> i < length xs \<Longrightarrow> keyof x = keyof (xs ! i) \<Longrightarrow> inv (xs[i := x])"
    and inv_del: "inv xs \<Longrightarrow> inv (del xs k)"
    and mset_del: "inv xs \<Longrightarrow> mset (del xs k) = filter_mset (\<lambda>x. keyof x \<noteq> k) (mset xs)"
begin

definition look :: "'n list \<Rightarrow> 'k \<Rightarrow> 'n option" where
  "look xs k = map_option snd (get xs k)"

lemma set_add: "inv xs \<Longrightarrow> set (add xs x) = insert x (set xs)"
  using mset_add by (rule set_mset_eq_of_mset)

lemma set_del: "inv xs \<Longrightarrow> set (del xs k) = {x \<in> set xs. keyof x \<noteq> k}"
  by (metis mset_del set_mset_filter set_mset_mset)

lemma look_iff: "inv xs \<Longrightarrow> look xs k = Some x \<longleftrightarrow> x \<in> set xs \<and> keyof x = k"
  by (auto simp: look_def get_iff in_set_conv_nth)

lemma get_None: "inv xs \<Longrightarrow> get xs k = None \<longleftrightarrow> (\<forall>x \<in> set xs. keyof x \<noteq> k)"
proof -
  assume "inv xs"
  then have "look xs k = None \<longleftrightarrow> (\<forall>x \<in> set xs. keyof x \<noteq> k)"
    using look_iff [of xs k] by (cases "look xs k") auto
  then show ?thesis by (simp add: look_def)
qed

lemma look_None: "inv xs \<Longrightarrow> look xs k = None \<longleftrightarrow> (\<forall>x \<in> set xs. keyof x \<noteq> k)"
  by (simp add: look_def get_None)

lemma look_Nil: "look [] k = None"
  using look_None [OF inv_Nil] by simp

lemma key_unique: "inv xs \<Longrightarrow> x \<in> set xs \<Longrightarrow> y \<in> set xs \<Longrightarrow> keyof x = keyof y \<Longrightarrow> x = y"
  using distinct_keys [of xs] by (auto simp: distinct_map inj_on_def)

lemma look_eqI:
  assumes "inv xs" and "\<And>x. m k = Some x \<longleftrightarrow> x \<in> set xs \<and> keyof x = k"
  shows "look xs k = m k"
  using look_iff [OF assms(1), of k] assms(2) by (cases "look xs k"; cases "m k") auto

lemma look_add:
  assumes "inv xs" "get xs (keyof x) = None"
  shows "look (add xs x) = (look xs)(keyof x \<mapsto> x)"
proof (rule ext, rule look_eqI)
  show "inv (add xs x)" using assms by (rule inv_add)
  show "((look xs)(keyof x \<mapsto> x)) k = Some y \<longleftrightarrow> y \<in> set (add xs x) \<and> keyof y = k" for k y
    using assms by (auto simp: set_add look_iff get_None)
qed

lemma set_update:
  assumes "inv xs" "get xs k = Some (i, y)" "keyof x = k"
  shows "set (xs[i := x]) = insert x {z \<in> set xs. keyof z \<noteq> k}"
proof -
  have i: "i < length xs" "xs ! i = y" "keyof y = k"
    using assms get_iff by blast+
  have "mset (xs[i := x]) = add_mset x (mset xs - {#y#})"
    using i by (simp add: mset_update)
  then have "set (xs[i := x]) = insert x (set_mset (mset xs - {#y#}))"
    by (metis set_mset_add_mset_insert set_mset_mset)
  moreover have "set_mset (mset xs - {#y#}) = {z \<in> set xs. keyof z \<noteq> k}"
  proof -
    have "distinct xs"
      using distinct_keys [OF assms(1)] by (simp add: distinct_map)
    then have "count (mset xs) y \<le> 1"
      by (simp add: distinct_count_atmost_1)
    then have "y \<notin># mset xs - {#y#}"
      by (metis count_diff count_single diff_is_0_eq not_in_iff)
    moreover have "y \<in> set xs" using i by auto
    ultimately have "z \<in># mset xs - {#y#} \<longleftrightarrow> z \<in> set xs \<and> z \<noteq> y" for z
      by (metis in_diffD insert_DiffM insert_noteq_member set_mset_mset)
    moreover have "z \<noteq> y \<longleftrightarrow> keyof z \<noteq> k" if "z \<in> set xs" for z
      using key_unique [OF assms(1) that \<open>y \<in> set xs\<close>] i by auto
    ultimately show ?thesis by auto
  qed
  ultimately show ?thesis by simp
qed

lemma look_update:
  assumes "inv xs" "get xs k = Some (i, y)" "keyof x = k"
  shows "look (xs[i := x]) = (look xs)(k \<mapsto> x)"
proof (rule ext, rule look_eqI)
  show "inv (xs[i := x])" using assms get_iff by (intro inv_update) auto
  show "((look xs)(k \<mapsto> x)) k' = Some z \<longleftrightarrow> z \<in> set (xs[i := x]) \<and> keyof z = k'" for k' z
    using assms by (auto simp: set_update look_iff)
qed

lemma look_del:
  assumes "inv xs"
  shows "look (del xs k) = (look xs)(k := None)"
proof (rule ext, rule look_eqI)
  show "inv (del xs k)" using assms by (rule inv_del)
  show "((look xs)(k := None)) k' = Some z \<longleftrightarrow> z \<in> set (del xs k) \<and> keyof z = k'" for k' z
    using assms by (auto simp: set_del look_iff)
qed

end

subsection \<open>The static table\<close>

lemma sorted_wrt_insert_at:
  assumes "sorted_wrt P xs" "\<And>j. j < pos \<Longrightarrow> j < length xs \<Longrightarrow> P (xs ! j) x"
    and "\<And>j. pos \<le> j \<Longrightarrow> j < length xs \<Longrightarrow> P x (xs ! j)"
  shows "sorted_wrt P (insert_at pos x xs)"
proof -
  have "sorted_wrt P (take pos xs @ drop pos xs)" using assms(1) by simp
  then have parts: "sorted_wrt P (take pos xs)" "sorted_wrt P (drop pos xs)"
      "\<forall>a \<in> set (take pos xs). \<forall>b \<in> set (drop pos xs). P a b"
    unfolding sorted_wrt_append by blast+
  have "\<forall>a \<in> set (take pos xs). P a x" "\<forall>b \<in> set (drop pos xs). P x b"
    using assms(2,3) by (auto simp: in_set_conv_nth)
  with parts show ?thesis
    by (auto simp: insert_at_def sorted_wrt_append)
qed

lemma mset_delete_at_key:
  assumes "distinct (map f xs)" "i < length xs"
  shows "mset (delete_at i xs) = filter_mset (\<lambda>x. f x \<noteq> f (xs ! i)) (mset xs)"
proof -
  have split: "xs = take i xs @ xs ! i # drop (Suc i) xs"
    using assms(2) by (rule id_take_nth_drop)
  have "distinct (map f (take i xs @ xs ! i # drop (Suc i) xs))"
    using assms(1) split by simp
  then have "\<forall>x \<in> set (take i xs) \<union> set (drop (Suc i) xs). f x \<noteq> f (xs ! i)"
    by (auto simp: image_iff)
  then have "filter (\<lambda>x. f x \<noteq> f (xs ! i)) (take i xs @ xs ! i # drop (Suc i) xs) = delete_at i xs"
    by (simp add: delete_at_def)
  then have "filter (\<lambda>x. f x \<noteq> f (xs ! i)) xs = delete_at i xs"
    using split by simp
  then show ?thesis
    by (metis mset_filter)
qed

lemma static_distinct: "static_inv ss \<Longrightarrow> distinct (map nlabel ss)"
  unfolding static_inv_def by (induction ss) auto

lemma static_index_spec:
  assumes "static_inv ss"
  shows "static_index ss c \<le> length ss" "j < static_index ss c \<Longrightarrow> nlabel (ss ! j) < c"
    "static_index ss c \<le> j \<Longrightarrow> j < length ss \<Longrightarrow> c \<le> nlabel (ss ! j)"
proof -
  have up: "upward (length ss) (\<lambda>i. c \<le> nlabel (ss ! i))"
    unfolding upward_def
  proof (intro allI impI)
    fix a b assume "a \<le> b" "b < length ss" "c \<le> nlabel (ss ! a)"
    show "c \<le> nlabel (ss ! b)"
    proof (cases "a = b")
      case False
      with \<open>a \<le> b\<close> \<open>b < length ss\<close> assms have "nlabel (ss ! a) < nlabel (ss ! b)"
        unfolding static_inv_def sorted_wrt_iff_nth_less by simp
      with \<open>c \<le> nlabel (ss ! a)\<close> show ?thesis by (meson less_imp_le order_trans)
    qed (use \<open>c \<le> nlabel (ss ! a)\<close> in simp)
  qed
  show "static_index ss c \<le> length ss"
    using sort_Search_spec(1) [OF up] by (simp add: static_index_def)
  show "j < static_index ss c \<Longrightarrow> nlabel (ss ! j) < c"
    using sort_Search_spec(2) [OF up, of j] by (simp add: static_index_def not_le)
  show "static_index ss c \<le> j \<Longrightarrow> j < length ss \<Longrightarrow> c \<le> nlabel (ss ! j)"
    using sort_Search_spec(3) [OF up, of j] by (simp add: static_index_def)
qed

lemma static_index_eq:
  assumes "static_inv ss" "i < length ss"
  shows "static_index ss (nlabel (ss ! i)) = i"
proof (rule linorder_cases [of "static_index ss (nlabel (ss ! i))" i])
  assume lt: "static_index ss (nlabel (ss ! i)) < i"
  then have "nlabel (ss ! static_index ss (nlabel (ss ! i))) < nlabel (ss ! i)"
    using assms unfolding static_inv_def sorted_wrt_iff_nth_less by blast
  moreover have "nlabel (ss ! i) \<le> nlabel (ss ! static_index ss (nlabel (ss ! i)))"
    using static_index_spec(3) [OF assms(1) order_refl] lt assms(2) by simp
  ultimately show ?thesis by simp
next
  assume "i < static_index ss (nlabel (ss ! i))"
  then show ?thesis using static_index_spec(2) [OF assms(1)] by blast
qed

lemma get_static_iff:
  assumes "static_inv ss"
  shows "get_static ss c = Some (i, x) \<longleftrightarrow> i < length ss \<and> ss ! i = x \<and> nlabel x = c"
  using static_index_eq [OF assms, of i] by (auto simp: get_static_def Let_def)

lemma add_static_insert: "static_inv ss \<Longrightarrow> add_static ss x = insert_at (static_index ss (nlabel x)) x ss"
  using static_index_spec(1) by (auto simp: add_static_def Let_def insert_at_def)

lemma add_static_inv:
  assumes "static_inv ss" "get_static ss (nlabel x) = None"
  shows "static_inv (add_static ss x)"
proof -
  have ne: "nlabel (ss ! j) \<noteq> nlabel x" if "j < length ss" for j
    using that get_static_iff [OF assms(1), of "nlabel x" j "ss ! j"] assms(2) by auto
  have "sorted_wrt (\<lambda>a b. nlabel a < nlabel b) (insert_at (static_index ss (nlabel x)) x ss)"
  proof (rule sorted_wrt_insert_at)
    show "sorted_wrt (\<lambda>a b. nlabel a < nlabel b) ss"
      using assms(1) by (simp add: static_inv_def)
    show "nlabel (ss ! j) < nlabel x" if "j < static_index ss (nlabel x)" for j
      using static_index_spec(2) [OF assms(1) that] .
    show "nlabel x < nlabel (ss ! j)" if "static_index ss (nlabel x) \<le> j" "j < length ss" for j
      using static_index_spec(3) [OF assms(1) that] ne [OF that(2)] by auto
  qed
  then show ?thesis
    by (simp add: static_inv_def add_static_insert [OF assms(1)])
qed

lemma del_static_eq:
  "del_static ss c = (case get_static ss c of None \<Rightarrow> ss | Some (i, _) \<Rightarrow> delete_at i ss)"
  by (simp add: del_static_def get_static_def Let_def)

lemma mset_del_static:
  assumes "static_inv ss"
  shows "mset (del_static ss c) = filter_mset (\<lambda>x. nlabel x \<noteq> c) (mset ss)"
proof (cases "get_static ss c")
  case None
  then have "\<forall>x \<in> set ss. nlabel x \<noteq> c"
    using get_static_iff [OF assms, of c] by (fastforce simp: in_set_conv_nth)
  then have "filter (\<lambda>x. nlabel x \<noteq> c) ss = ss" by simp
  then have "filter_mset (\<lambda>x. nlabel x \<noteq> c) (mset ss) = mset ss" by (metis mset_filter)
  with None show ?thesis
    by (simp add: del_static_eq)
next
  case (Some p)
  then obtain i x where get: "get_static ss c = Some (i, x)" by (cases p) auto
  then have "i < length ss" "nlabel (ss ! i) = c"
    using get_static_iff [OF assms] by auto
  then show ?thesis
    using mset_delete_at_key [OF static_distinct [OF assms], of i] by (simp add: del_static_eq get)
qed

lemma replace_static_eq:
  "replace_static ss x = map_option (\<lambda>(i, _). ss[i := x]) (get_static ss (nlabel x))"
  by (simp add: replace_static_def get_static_def Let_def)

interpretation st: edge_table static_inv nlabel get_static add_static del_static
proof
  fix ss :: "'r node list" and c i x
  assume inv: "static_inv ss"
  show "get_static ss c = Some (i, x) \<longleftrightarrow> i < length ss \<and> ss ! i = x \<and> nlabel x = c"
    by (rule get_static_iff [OF inv])
  show "distinct (map nlabel ss)"
    by (rule static_distinct [OF inv])
  show "get_static ss (nlabel x) = None \<Longrightarrow> static_inv (add_static ss x)"
    by (rule add_static_inv [OF inv])
  show "mset (add_static ss x) = add_mset x (mset ss)"
    by (simp add: add_static_insert [OF inv])
  show "i < length ss \<Longrightarrow> nlabel x = nlabel (ss ! i) \<Longrightarrow> static_inv (ss[i := x])"
    using inv unfolding static_inv_def by (intro sorted_wrt_update) auto
  show "static_inv (del_static ss c)"
    using inv by (auto simp: del_static_def static_inv_def Let_def sorted_wrt_delete_at)
  show "mset (del_static ss c) = filter_mset (\<lambda>x. nlabel x \<noteq> c) (mset ss)"
    by (rule mset_del_static [OF inv])
next
  show "static_inv []" by (simp add: static_inv_def)
qed

subsection \<open>The parameter and wildcard tables\<close>

lemma get_keyed_iff:
  assumes "distinct (map nkey cs)"
  shows "get_keyed cs k = Some (i, x) \<longleftrightarrow> i < length cs \<and> cs ! i = x \<and> nkey x = k"
proof -
  have "nkey (cs ! j) \<noteq> nkey (cs ! i)" if "j < i" "i < length cs" for i j
    using assms that nth_eq_iff_index_eq [of "map nkey cs" j i] by auto
  then show ?thesis
    by (auto simp: get_keyed_def index_func_Some)
qed

lemma del_keyed_eq:
  "del_keyed cs k = (case get_keyed cs k of None \<Rightarrow> cs | Some (i, _) \<Rightarrow> delete_at i cs)"
  by (simp add: del_keyed_def get_keyed_def split: option.splits)

lemma mset_del_keyed:
  assumes "distinct (map nkey cs)"
  shows "mset (del_keyed cs k) = filter_mset (\<lambda>x. nkey x \<noteq> k) (mset cs)"
proof (cases "get_keyed cs k")
  case None
  then have "\<forall>x \<in> set cs. nkey x \<noteq> k"
    by (simp add: get_keyed_def index_func_None)
  then have "filter (\<lambda>x. nkey x \<noteq> k) cs = cs" by simp
  then have "filter_mset (\<lambda>x. nkey x \<noteq> k) (mset cs) = mset cs" by (metis mset_filter)
  with None show ?thesis
    by (simp add: del_keyed_eq)
next
  case (Some p)
  then obtain i x where get: "get_keyed cs k = Some (i, x)" by (cases p) auto
  then have "i < length cs" "nkey (cs ! i) = k"
    using get_keyed_iff [OF assms] by auto
  then show ?thesis
    using mset_delete_at_key [OF assms, of i] by (simp add: del_keyed_eq get)
qed

lemma index_func_append:
  "\<forall>c \<in> set xs. \<not> P c \<Longrightarrow> P y \<Longrightarrow> index_func P (xs @ y # ys) = Some (length xs)"
  by (induction xs) auto

text \<open>Where a new child goes: before the placeholder when the table ends with it, else at the end.\<close>

lemma add_keyed_eq:
  assumes "keyed_inv mark cs"
  shows "add_keyed mark cs x =
    (if nkey x \<noteq> mark \<and> cs \<noteq> [] \<and> nkey (last cs) = mark then butlast cs @ [x, last cs] else cs @ [x])"
proof (cases "nkey x \<noteq> mark \<and> cs \<noteq> [] \<and> nkey (last cs) = mark")
  case True
  define ys where "ys = butlast cs"
  have cs: "cs = ys @ [last cs]" using True by (simp add: ys_def)
  have "\<forall>c \<in> set ys. nkey c \<noteq> mark" using assms by (simp add: keyed_inv_def ys_def)
  then have idx: "index_func (\<lambda>c. nkey c = mark) (ys @ last cs # [x]) = Some (length ys)"
    using True by (intro index_func_append) auto
  have snoc: "cs @ [x] = ys @ last cs # [x]" and len: "length cs = Suc (length ys)"
    by (subst cs, simp)+
  have "(ys @ last cs # [x])[length ys := x, Suc (length ys) := last cs] = ys @ [x, last cs]"
    by (simp add: list_update_append)
  then have "add_keyed mark cs x = ys @ [x, last cs]"
    using True idx len unfolding add_keyed_def Let_def snoc by (simp add: nth_append)
  with True show ?thesis by (simp add: ys_def)
next
  case False
  show ?thesis
  proof (cases "nkey x = mark \<or> cs = []")
    case True
    then show ?thesis
      by (auto simp: add_keyed_def Let_def split: option.splits dest: index_func_less)
  next
    case noteq: False
    with False have "nkey (last cs) \<noteq> mark" by simp
    moreover have "\<forall>c \<in> set (butlast cs). nkey c \<noteq> mark"
      using assms by (simp add: keyed_inv_def)
    moreover have "set cs = insert (last cs) (set (butlast cs))"
      using noteq by (metis append_butlast_last_id empty_set list.simps(15) set_append sup_bot.right_neutral Un_insert_right)
    ultimately have "index_func (\<lambda>c. nkey c = mark) (cs @ [x]) = None"
      using noteq by (auto simp: index_func_None)
    with False noteq show ?thesis
      by (simp add: add_keyed_def Let_def)
  qed
qed

lemma keyed_inv_snoc: "keyed_inv mark (cs @ [x]) \<longleftrightarrow>
    distinct (map nkey cs) \<and> (\<forall>c \<in> set cs. nkey c \<noteq> mark \<and> nkey c \<noteq> nkey x)"
proof -
  have "nkey x \<notin> nkey ` set cs \<longleftrightarrow> (\<forall>c \<in> set cs. nkey c \<noteq> nkey x)" by (metis imageE imageI)
  then show ?thesis unfolding keyed_inv_def by auto
qed

lemma add_keyed_inv:
  assumes "keyed_inv mark cs" "get_keyed cs (nkey x) = None"
  shows "keyed_inv mark (add_keyed mark cs x)"
proof -
  have new: "nkey c \<noteq> nkey x" if "c \<in> set cs" for c
    using assms(2) that by (simp add: get_keyed_def index_func_None)
  show ?thesis
  proof (cases "nkey x \<noteq> mark \<and> cs \<noteq> [] \<and> nkey (last cs) = mark")
    case True
    define ys where "ys = butlast cs"
    have cs: "cs = ys @ [last cs]" using True by (simp add: ys_def)
    have "keyed_inv mark (ys @ [last cs])" using assms(1) cs by simp
    moreover have "\<forall>c \<in> set ys. nkey c \<noteq> nkey x"
      using new by (simp add: ys_def in_set_butlastD)
    ultimately have "keyed_inv mark ((ys @ [x]) @ [last cs])"
      using True unfolding keyed_inv_snoc by auto
    with True show ?thesis
      by (simp add: add_keyed_eq [OF assms(1)] ys_def)
  next
    case False
    have "nkey c \<noteq> mark" if "c \<in> set cs" for c
    proof
      assume "nkey c = mark"
      then have "nkey x \<noteq> mark" using new [OF that] by auto
      moreover from \<open>nkey c = mark\<close> have "c = last cs"
        using assms(1) that by (cases cs rule: rev_cases) (auto simp: keyed_inv_snoc)
      moreover have "cs \<noteq> []" using that by auto
      ultimately show False using False \<open>nkey c = mark\<close> by simp
    qed
    then have "keyed_inv mark (cs @ [x])"
      using assms(1) new unfolding keyed_inv_snoc by (simp add: keyed_inv_def)
    then show ?thesis
      unfolding add_keyed_eq [OF assms(1)] if_not_P [OF False] .
  qed
qed

lemma keyed_inv_update:
  assumes "keyed_inv mark cs" "i < length cs" "nkey x = nkey (cs ! i)"
  shows "keyed_inv mark (cs[i := x])"
proof -
  have keys: "map nkey (cs[i := x]) = map nkey cs"
    using assms(2,3) by (metis list_update_id map_update)
  have "map nkey (butlast (cs[i := x])) = map nkey (butlast cs)"
    using keys by (metis map_butlast)
  moreover have "(\<forall>c \<in> set ds. nkey c \<noteq> mark) \<longleftrightarrow> mark \<notin> set (map nkey ds)" for ds :: "'a node list"
    by auto
  ultimately show ?thesis
    using assms(1) keys unfolding keyed_inv_def by metis
qed

lemma keyed_inv_delete_at:
  assumes "keyed_inv mark cs"
  shows "keyed_inv mark (delete_at i cs)"
proof (cases "i < length cs")
  case False
  then show ?thesis using assms by (simp add: delete_at_def)
next
  case True
  have "set (butlast (delete_at i cs)) \<subseteq> set (butlast cs)"
  proof (cases "drop (Suc i) cs")
    case Nil
    with True have "length cs - 1 = i" by simp
    with Nil have "delete_at i cs = butlast cs"
      by (simp add: delete_at_def butlast_conv_take)
    then show ?thesis by (auto dest: in_set_butlastD)
  next
    case (Cons a as)
    have "butlast cs = take i cs @ butlast (cs ! i # drop (Suc i) cs)"
      using id_take_nth_drop [OF True] by (metis butlast_append list.discI)
    with Cons show ?thesis
      by (auto simp: delete_at_def butlast_append)
  qed
  moreover have "distinct (map nkey (delete_at i cs))"
  proof -
    have "distinct (map nkey (take i cs @ cs ! i # drop (Suc i) cs))"
      using assms id_take_nth_drop [OF True] by (simp add: keyed_inv_def)
    then show ?thesis by (simp add: delete_at_def)
  qed
  ultimately show ?thesis
    using assms by (auto simp: keyed_inv_def)
qed

interpretation ke: edge_table "keyed_inv mark" nkey get_keyed "add_keyed mark" del_keyed for mark
proof
  fix cs :: "'r node list" and k i x
  assume inv: "keyed_inv mark cs"
  then have d: "distinct (map nkey cs)" by (simp add: keyed_inv_def)
  show "get_keyed cs k = Some (i, x) \<longleftrightarrow> i < length cs \<and> cs ! i = x \<and> nkey x = k"
    by (rule get_keyed_iff [OF d])
  show "distinct (map nkey cs)" by (rule d)
  show "get_keyed cs (nkey x) = None \<Longrightarrow> keyed_inv mark (add_keyed mark cs x)"
    by (rule add_keyed_inv [OF inv])
  show "mset (add_keyed mark cs x) = add_mset x (mset cs)"
  proof (cases "cs = []")
    case False
    then have "mset cs = mset (butlast cs) + {#last cs#}"
      by (metis append_butlast_last_id mset_append mset_single_iff_right)
    then show ?thesis by (simp add: add_keyed_eq [OF inv])
  qed (use add_keyed_eq [OF inv, of x] in simp)
  show "i < length cs \<Longrightarrow> nkey x = nkey (cs ! i) \<Longrightarrow> keyed_inv mark (cs[i := x])"
    by (rule keyed_inv_update [OF inv])
  show "keyed_inv mark (del_keyed cs k)"
    using inv by (auto simp: del_keyed_def keyed_inv_delete_at split: option.splits)
  show "mset (del_keyed cs k) = filter_mset (\<lambda>x. nkey x \<noteq> k) (mset cs)"
    by (rule mset_del_keyed [OF d])
next
  show "keyed_inv mark []" by (simp add: keyed_inv_def)
qed

end
