(* ===== verification/Tree_Map.thy ===== *)
theory Tree_Map
  imports Node_Edges
begin

text \<open>
  The abstract view of a tree: a map from paths of symbols to routes. A symbol is a byte of a static
  key, or the key of a parameter or wildcard child. The view ignores where static keys are cut into
  nodes, so that splitting and merging nodes leave it unchanged. The theory also holds the
  well-formedness invariant of a node and its preservation by the edge operations.
\<close>

datatype sym = SC char | SP string | SW string

type_synonym 'r view = "sym list \<Rightarrow> 'r list"

abbreviation statics_of :: "string \<Rightarrow> sym list" where "statics_of s \<equiv> map SC s"

named_theorems kids_simps "children of an updated node"
named_theorems wf_simps "well-formedness of an updated node"

subsection \<open>Children by their first symbol\<close>

definition kids :: "'r node \<Rightarrow> sym \<Rightarrow> (sym list \<times> 'r node) option" where
  "kids n x =
     (case x of
        SC c \<Rightarrow> map_option (\<lambda>(_, ch). (statics_of (nkey ch), ch)) (getStaticEdge n c)
      | SP k \<Rightarrow> map_option (\<lambda>(_, ch). ([SP k], ch)) (getParamEdge n k)
      | SW k \<Rightarrow> map_option (\<lambda>(_, ch). ([SW k], ch)) (getWildcardEdge n k))"

lemma get_static_mem: "get_static ss c = Some (i, ch) \<Longrightarrow> ch \<in> set ss \<and> i < length ss \<and> ss ! i = ch \<and> nlabel ch = c"
  by (auto simp: get_static_def Let_def split: if_splits)

lemma get_keyed_mem: "get_keyed cs k = Some (i, ch) \<Longrightarrow> ch \<in> set cs \<and> i < length cs \<and> cs ! i = ch \<and> nkey ch = k"
  by (auto simp: get_keyed_def index_func_Some)

lemma kids_size: "kids n x = Some (l, ch) \<Longrightarrow> size ch < size n"
  by (auto simp: kids_def getStaticEdge_def getParamEdge_def getWildcardEdge_def
      split: sym.splits dest!: get_static_mem get_keyed_mem intro: child_size)

function routes_at :: "'r node \<Rightarrow> 'r view" where
  "routes_at n [] = nroutes n"
| "routes_at n (x # s) =
     (case kids n x of
        None \<Rightarrow> []
      | Some (l, ch) \<Rightarrow> if has_prefix (x # s) l then routes_at ch (drop (length l) (x # s)) else [])"
  by pat_completeness auto
termination
  by (relation "measure (size \<circ> fst)") (auto dest: kids_size)

declare routes_at.simps(2) [simp del]

subsection \<open>Views below a prefix\<close>

definition under :: "sym list \<Rightarrow> 'r view \<Rightarrow> 'r view" where
  "under l f s = (if has_prefix s l then f (drop (length l) s) else [])"

definition branch :: "'r node \<Rightarrow> sym \<Rightarrow> 'r view" where
  "branch n x = (case kids n x of None \<Rightarrow> (\<lambda>_. []) | Some (l, ch) \<Rightarrow> under l (routes_at ch))"

abbreviation empty_view :: "'r view" where "empty_view \<equiv> \<lambda>_. []"

lemma routes_at_branch: "routes_at n (x # s) = branch n x (x # s)"
  by (auto simp: routes_at.simps(2) branch_def under_def split: option.splits)

lemma under_append: "under (l1 @ l2) f = under l1 (under l2 f)"
proof (rule ext)
  fix s
  have "has_prefix s (l1 @ l2) \<longleftrightarrow> has_prefix s l1 \<and> has_prefix (drop (length l1) s) l2"
    by (auto simp: has_prefix_iff)
  then show "under (l1 @ l2) f s = under l1 (under l2 f) s"
    by (simp add: under_def add.commute)
qed

lemma under_Nil [simp]: "under [] f = f"
  by (simp add: under_def fun_eq_iff)

lemma under_empty [simp]: "under l empty_view = empty_view"
  by (simp add: under_def fun_eq_iff)

lemma under_update: "under l (f(t := v)) = (under l f)(l @ t := v)"
proof (rule ext)
  fix s
  have "has_prefix s l \<Longrightarrow> drop (length l) s = t \<longleftrightarrow> s = l @ t"
    by (auto simp: has_prefix_iff)
  then show "under l (f(t := v)) s = ((under l f)(l @ t := v)) s"
    by (auto simp: under_def)
qed

lemma under_at [simp]: "under l f (l @ t) = f t"
  by (simp add: under_def)

lemma under_other: "\<not> has_prefix s l \<Longrightarrow> under l f s = []"
  by (simp add: under_def)

text \<open>The one step behind every modification: the view changes at one path if the branch does.\<close>

lemma routes_at_update:
  assumes "nroutes n' = nroutes n" and "\<And>y. y \<noteq> x \<Longrightarrow> kids n' y = kids n y"
    and "branch n' x = (branch n x)(x # w := v)"
  shows "routes_at n' = (routes_at n)(x # w := v)"
proof (rule ext)
  fix s
  show "routes_at n' s = ((routes_at n)(x # w := v)) s"
  proof (cases s)
    case Nil
    with assms(1) show ?thesis by simp
  next
    case (Cons y s')
    show ?thesis
    proof (cases "y = x")
      case True
      with Cons assms(3) show ?thesis by (simp add: routes_at_branch)
    next
      case False
      with Cons assms(2) [OF False] show ?thesis by (simp add: routes_at_branch branch_def)
    qed
  qed
qed

lemma routes_at_same:
  assumes "nroutes n' = nroutes n" and "\<And>x. branch n' x = branch n x"
  shows "routes_at n' = routes_at n"
proof (rule ext)
  fix s show "routes_at n' s = routes_at n s"
    using assms by (cases s) (simp_all add: routes_at_branch)
qed

lemma routes_at_childless:
  assumes "\<And>x. kids n x = None"
  shows "routes_at n = empty_view([] := nroutes n)"
proof (rule ext)
  fix s show "routes_at n s = (empty_view([] := nroutes n)) s"
    using assms by (cases s) (simp_all add: routes_at_branch branch_def)
qed

lemma routes_at_single:
  assumes "nroutes n = []" and "kids n = [x \<mapsto> (x # l, ch)]"
  shows "routes_at n = under (x # l) (routes_at ch)"
proof (rule ext)
  fix s show "routes_at n s = under (x # l) (routes_at ch) s"
    using assms by (cases s) (auto simp: routes_at_branch branch_def under_def)
qed

subsection \<open>The invariant of a node\<close>

definition edges_ok :: "'r node \<Rightarrow> bool" where
  "edges_ok n \<longleftrightarrow>
     static_inv (nstatics n) \<and> keyed_inv ''?'' (nparams n) \<and> keyed_inv ''*'' (nwildcards n) \<and>
     (\<forall>c \<in> set (nstatics n). nkey c \<noteq> [] \<and> nlabel c = hd (nkey c)) \<and>
     (\<forall>c \<in> set (nparams n). nlabel c = CHR 0x00) \<and> (\<forall>c \<in> set (nwildcards n). nlabel c = CHR 0x00)"

definition children :: "'r node \<Rightarrow> 'r node set" where
  "children n = set (nstatics n) \<union> set (nparams n) \<union> set (nwildcards n)"

function wf_node :: "'r node \<Rightarrow> bool" where
  "wf_node n \<longleftrightarrow>
     edges_ok n \<and> (\<forall>c \<in> set (nstatics n). wf_node c) \<and> (\<forall>c \<in> set (nparams n). wf_node c)
       \<and> (\<forall>c \<in> set (nwildcards n). wf_node c)"
  by auto
termination
  by (relation "measure size") (auto intro: child_size)

declare wf_node.simps [simp del]

lemma wf_node_iff: "wf_node n \<longleftrightarrow> edges_ok n \<and> (\<forall>c \<in> children n. wf_node c)"
  by (subst wf_node.simps) (auto simp: children_def)

lemma wf_edges: "wf_node n \<Longrightarrow> edges_ok n"
  using wf_node_iff [of n] by simp

lemma wf_child: "wf_node n \<Longrightarrow> c \<in> children n \<Longrightarrow> wf_node c"
  using wf_node_iff [of n] by simp

lemma edges_okD:
  assumes "edges_ok n"
  shows "static_inv (nstatics n)" "keyed_inv ''?'' (nparams n)" "keyed_inv ''*'' (nwildcards n)"
  using assms by (simp_all add: edges_ok_def)

lemma static_childD:
  assumes "getStaticEdge n c = Some (i, ch)"
  shows "ch \<in> children n" "ch \<in> set (nstatics n)" "i < length (nstatics n)" "nlabel ch = c"
  using get_static_mem [OF assms [unfolded getStaticEdge_def]] by (simp_all add: children_def)

lemma static_keyD:
  assumes "edges_ok n" "getStaticEdge n c = Some (i, ch)"
  shows "\<exists>k. nkey ch = c # k"
  using static_childD [OF assms(2)] assms(1) by (cases "nkey ch") (auto simp: edges_ok_def)

lemma param_childD:
  assumes "getParamEdge n k = Some (i, ch)"
  shows "ch \<in> children n" "ch \<in> set (nparams n)" "i < length (nparams n)" "nkey ch = k"
  using get_keyed_mem [OF assms [unfolded getParamEdge_def]] by (simp_all add: children_def)

lemma wildcard_childD:
  assumes "getWildcardEdge n k = Some (i, ch)"
  shows "ch \<in> children n" "ch \<in> set (nwildcards n)" "i < length (nwildcards n)" "nkey ch = k"
  using get_keyed_mem [OF assms [unfolded getWildcardEdge_def]] by (simp_all add: children_def)

subsection \<open>Children of a modified node\<close>

lemma kids_look:
  "kids n (SC c) = map_option (\<lambda>ch. (statics_of (nkey ch), ch)) (st.look (nstatics n) c)"
  "kids n (SP k) = map_option (\<lambda>ch. ([SP k], ch)) (ke.look (nparams n) k)"
  "kids n (SW k) = map_option (\<lambda>ch. ([SW k], ch)) (ke.look (nwildcards n) k)"
proof -
  show "kids n (SC c) = map_option (\<lambda>ch. (statics_of (nkey ch), ch)) (st.look (nstatics n) c)"
    by (cases "get_static (nstatics n) c") (auto simp: kids_def getStaticEdge_def st.look_def)
  show "kids n (SP k) = map_option (\<lambda>ch. ([SP k], ch)) (ke.look (nparams n) k)"
    by (cases "get_keyed (nparams n) k") (auto simp: kids_def getParamEdge_def ke.look_def)
  show "kids n (SW k) = map_option (\<lambda>ch. ([SW k], ch)) (ke.look (nwildcards n) k)"
    by (cases "get_keyed (nwildcards n) k") (auto simp: kids_def getWildcardEdge_def ke.look_def)
qed

lemma kids_set [simp, kids_simps]:
  "kids (set_nroutes rs n) = kids n" "kids (set_nkey l k n) = kids n"
  by (rule ext, rename_tac x, case_tac x; simp add: kids_look)+

lemma kids_static:
  assumes "st.look (nstatics n') = (st.look (nstatics n))(c := v)"
    and "nparams n' = nparams n" "nwildcards n' = nwildcards n"
  shows "kids n' = (kids n)(SC c := map_option (\<lambda>ch. (statics_of (nkey ch), ch)) v)"
proof (rule ext)
  fix x show "kids n' x = ((kids n)(SC c := map_option (\<lambda>ch. (statics_of (nkey ch), ch)) v)) x"
    using assms by (cases x) (auto simp: kids_look)
qed

lemma kids_param:
  assumes "ke.look (nparams n') = (ke.look (nparams n))(k := v)"
    and "nstatics n' = nstatics n" "nwildcards n' = nwildcards n"
  shows "kids n' = (kids n)(SP k := map_option (\<lambda>ch. ([SP k], ch)) v)"
proof (rule ext)
  fix x show "kids n' x = ((kids n)(SP k := map_option (\<lambda>ch. ([SP k], ch)) v)) x"
    using assms by (cases x) (auto simp: kids_look)
qed

lemma kids_wildcard:
  assumes "ke.look (nwildcards n') = (ke.look (nwildcards n))(k := v)"
    and "nstatics n' = nstatics n" "nparams n' = nparams n"
  shows "kids n' = (kids n)(SW k := map_option (\<lambda>ch. ([SW k], ch)) v)"
proof (rule ext)
  fix x show "kids n' x = ((kids n)(SW k := map_option (\<lambda>ch. ([SW k], ch)) v)) x"
    using assms by (cases x) (auto simp: kids_look)
qed

lemma kids_addStaticEdge [kids_simps]:
  assumes "edges_ok n" "getStaticEdge n (nlabel ch) = None"
  shows "kids (addStaticEdge n ch) = (kids n)(SC (nlabel ch) \<mapsto> (statics_of (nkey ch), ch))"
  using kids_static [of "addStaticEdge n ch" n "nlabel ch" "Some ch"] assms
    st.look_add [of "nstatics n" ch]
  by (simp add: addStaticEdge_def getStaticEdge_def edges_ok_def)

lemma kids_updStatic [kids_simps]:
  assumes "edges_ok n" "getStaticEdge n c = Some (i, old)" "nlabel ch = c"
  shows "kids (set_nstatics ((nstatics n)[i := ch]) n) = (kids n)(SC c \<mapsto> (statics_of (nkey ch), ch))"
  using kids_static [of "set_nstatics ((nstatics n)[i := ch]) n" n c "Some ch"] assms
    st.look_update [of "nstatics n" c i old ch]
  by (simp add: getStaticEdge_def edges_ok_def)

lemma kids_delStaticEdge [kids_simps]:
  assumes "edges_ok n"
  shows "kids (delStaticEdge n c) = (kids n)(SC c := None)"
  using kids_static [of "delStaticEdge n c" n c None] assms st.look_del [of "nstatics n" c]
  by (simp add: delStaticEdge_def edges_ok_def)

lemma kids_addParamEdge [kids_simps]:
  assumes "edges_ok n" "getParamEdge n (nkey ch) = None"
  shows "kids (addParamEdge n ch) = (kids n)(SP (nkey ch) \<mapsto> ([SP (nkey ch)], ch))"
  using kids_param [of "addParamEdge n ch" n "nkey ch" "Some ch"] assms
    ke.look_add [of "''?''" "nparams n" ch]
  by (simp add: addParamEdge_def getParamEdge_def edges_ok_def)

lemma kids_updParam [kids_simps]:
  assumes "edges_ok n" "getParamEdge n k = Some (i, old)" "nkey ch = k"
  shows "kids (set_nparams ((nparams n)[i := ch]) n) = (kids n)(SP k \<mapsto> ([SP k], ch))"
  using kids_param [of "set_nparams ((nparams n)[i := ch]) n" n k "Some ch"] assms
    ke.look_update [of "''?''" "nparams n" k i old ch]
  by (simp add: getParamEdge_def edges_ok_def)

lemma kids_delParamEdge [kids_simps]:
  assumes "edges_ok n"
  shows "kids (delParamEdge n k) = (kids n)(SP k := None)"
  using kids_param [of "delParamEdge n k" n k None] assms ke.look_del [of "''?''" "nparams n" k]
  by (simp add: delParamEdge_def edges_ok_def)

lemma kids_addWildcardEdge [kids_simps]:
  assumes "edges_ok n" "getWildcardEdge n (nkey ch) = None"
  shows "kids (addWildcardEdge n ch) = (kids n)(SW (nkey ch) \<mapsto> ([SW (nkey ch)], ch))"
  using kids_wildcard [of "addWildcardEdge n ch" n "nkey ch" "Some ch"] assms
    ke.look_add [of "''*''" "nwildcards n" ch]
  by (simp add: addWildcardEdge_def getWildcardEdge_def edges_ok_def)

lemma kids_updWildcard [kids_simps]:
  assumes "edges_ok n" "getWildcardEdge n k = Some (i, old)" "nkey ch = k"
  shows "kids (set_nwildcards ((nwildcards n)[i := ch]) n) = (kids n)(SW k \<mapsto> ([SW k], ch))"
  using kids_wildcard [of "set_nwildcards ((nwildcards n)[i := ch]) n" n k "Some ch"] assms
    ke.look_update [of "''*''" "nwildcards n" k i old ch]
  by (simp add: getWildcardEdge_def edges_ok_def)

lemma kids_delWildcardEdge [kids_simps]:
  assumes "edges_ok n"
  shows "kids (delWildcardEdge n k) = (kids n)(SW k := None)"
  using kids_wildcard [of "delWildcardEdge n k" n k None] assms ke.look_del [of "''*''" "nwildcards n" k]
  by (simp add: delWildcardEdge_def edges_ok_def)

lemma kids_None:
  "getStaticEdge n c = None \<Longrightarrow> kids n (SC c) = None"
  "getParamEdge n k = None \<Longrightarrow> kids n (SP k) = None"
  "getWildcardEdge n k = None \<Longrightarrow> kids n (SW k) = None"
  by (simp_all add: kids_def)

lemma kids_Some:
  "getStaticEdge n c = Some (i, ch) \<Longrightarrow> kids n (SC c) = Some (statics_of (nkey ch), ch)"
  "getParamEdge n k = Some (i, ch) \<Longrightarrow> kids n (SP k) = Some ([SP k], ch)"
  "getWildcardEdge n k = Some (i, ch) \<Longrightarrow> kids n (SW k) = Some ([SW k], ch)"
  by (simp_all add: kids_def)

lemma kids_empty: "nstatics n = [] \<Longrightarrow> nparams n = [] \<Longrightarrow> nwildcards n = [] \<Longrightarrow> kids n = Map.empty"
  by (rule ext, rename_tac x, case_tac x) (simp_all add: kids_look st.look_Nil ke.look_Nil)

lemma replaceStaticEdge_eq:
  "replaceStaticEdge n ch = map_option (\<lambda>(i, _). set_nstatics ((nstatics n)[i := ch]) n) (getStaticEdge n (nlabel ch))"
  by (cases "get_static (nstatics n) (nlabel ch)")
    (auto simp: replaceStaticEdge_def replace_static_eq getStaticEdge_def)

subsection \<open>Well-formedness of a modified node\<close>

lemma wf_set [simp, wf_simps]:
  "wf_node (set_nroutes rs n) = wf_node n" "wf_node (set_nkey l k n) = wf_node n"
  using wf_node_iff [of n] wf_node_iff [of "set_nroutes rs n"] wf_node_iff [of "set_nkey l k n"]
  by (simp_all add: edges_ok_def children_def)

lemma wf_nodeI:
  assumes "static_inv (nstatics n)" "keyed_inv ''?'' (nparams n)" "keyed_inv ''*'' (nwildcards n)"
    and "\<And>c. c \<in> set (nstatics n) \<Longrightarrow> nkey c \<noteq> [] \<and> nlabel c = hd (nkey c) \<and> wf_node c"
    and "\<And>c. c \<in> set (nparams n) \<Longrightarrow> nlabel c = CHR 0x00 \<and> wf_node c"
    and "\<And>c. c \<in> set (nwildcards n) \<Longrightarrow> nlabel c = CHR 0x00 \<and> wf_node c"
  shows "wf_node n"
  using assms wf_node_iff [of n] by (auto simp: edges_ok_def children_def)

lemma wf_nodeD:
  assumes "wf_node n"
  shows "static_inv (nstatics n)" "keyed_inv ''?'' (nparams n)" "keyed_inv ''*'' (nwildcards n)"
    and "\<And>c. c \<in> set (nstatics n) \<Longrightarrow> nkey c \<noteq> [] \<and> nlabel c = hd (nkey c) \<and> wf_node c"
    and "\<And>c. c \<in> set (nparams n) \<Longrightarrow> nlabel c = CHR 0x00 \<and> wf_node c"
    and "\<And>c. c \<in> set (nwildcards n) \<Longrightarrow> nlabel c = CHR 0x00 \<and> wf_node c"
  using assms wf_node_iff [of n] by (auto simp: edges_ok_def children_def)

definition static_ok :: "'r node \<Rightarrow> bool" where
  "static_ok c \<longleftrightarrow> nkey c \<noteq> [] \<and> nlabel c = hd (nkey c) \<and> wf_node c"

lemma wf_addStaticEdge [wf_intros]:
  assumes "wf_node n" "static_ok ch" "getStaticEdge n (nlabel ch) = None"
  shows "wf_node (addStaticEdge n ch)"
  using wf_nodeD [OF assms(1)] assms(2,3) st.inv_add [of "nstatics n" ch]
  by - (rule wf_nodeI, auto simp: addStaticEdge_def getStaticEdge_def st.set_add static_ok_def)

lemma wf_updStatic [wf_intros]:
  assumes "wf_node n" "static_ok ch" "getStaticEdge n c = Some (i, old)" "nlabel ch = c"
  shows "wf_node (set_nstatics ((nstatics n)[i := ch]) n)"
proof -
  note d = wf_nodeD [OF assms(1)]
  note get = assms(3) [unfolded getStaticEdge_def]
  have "static_inv ((nstatics n)[i := ch])"
    using get_static_mem [OF get] assms(4) by (intro st.inv_update [OF d(1)]) auto
  then show ?thesis
    using d assms(2) by - (rule wf_nodeI, auto simp: st.set_update [OF d(1) get assms(4)] static_ok_def)
qed

lemma wf_delStaticEdge [wf_intros]:
  assumes "wf_node n"
  shows "wf_node (delStaticEdge n c)"
  using wf_nodeD [OF assms] st.inv_del [of "nstatics n" c]
  by - (rule wf_nodeI, auto simp: delStaticEdge_def st.set_del)

lemma wf_addParamEdge [wf_intros]:
  assumes "wf_node n" "wf_node ch" "getParamEdge n (nkey ch) = None" "nlabel ch = CHR 0x00"
  shows "wf_node (addParamEdge n ch)"
  using wf_nodeD [OF assms(1)] assms(2-4) ke.inv_add [of "''?''" "nparams n" ch]
  by - (rule wf_nodeI, auto simp: addParamEdge_def getParamEdge_def ke.set_add)

lemma wf_updParam [wf_intros]:
  assumes "wf_node n" "wf_node ch" "getParamEdge n k = Some (i, old)" "nkey ch = k" "nlabel ch = CHR 0x00"
  shows "wf_node (set_nparams ((nparams n)[i := ch]) n)"
proof -
  note d = wf_nodeD [OF assms(1)]
  note get = assms(3) [unfolded getParamEdge_def]
  have "keyed_inv ''?'' ((nparams n)[i := ch])"
    using get_keyed_mem [OF get] assms(4) by (intro ke.inv_update [OF d(2)]) auto
  then show ?thesis
    using d assms(2,5) by - (rule wf_nodeI, auto simp: ke.set_update [OF d(2) get assms(4)])
qed

lemma wf_delParamEdge [wf_intros]:
  assumes "wf_node n"
  shows "wf_node (delParamEdge n k)"
  using wf_nodeD [OF assms] ke.inv_del [of "''?''" "nparams n" k]
  by - (rule wf_nodeI, auto simp: delParamEdge_def ke.set_del)

lemma wf_addWildcardEdge [wf_intros]:
  assumes "wf_node n" "wf_node ch" "getWildcardEdge n (nkey ch) = None" "nlabel ch = CHR 0x00"
  shows "wf_node (addWildcardEdge n ch)"
  using wf_nodeD [OF assms(1)] assms(2-4) ke.inv_add [of "''*''" "nwildcards n" ch]
  by - (rule wf_nodeI, auto simp: addWildcardEdge_def getWildcardEdge_def ke.set_add)

lemma wf_updWildcard [wf_intros]:
  assumes "wf_node n" "wf_node ch" "getWildcardEdge n k = Some (i, old)" "nkey ch = k" "nlabel ch = CHR 0x00"
  shows "wf_node (set_nwildcards ((nwildcards n)[i := ch]) n)"
proof -
  note d = wf_nodeD [OF assms(1)]
  note get = assms(3) [unfolded getWildcardEdge_def]
  have "keyed_inv ''*'' ((nwildcards n)[i := ch])"
    using get_keyed_mem [OF get] assms(4) by (intro ke.inv_update [OF d(3)]) auto
  then show ?thesis
    using d assms(2,5) by - (rule wf_nodeI, auto simp: ke.set_update [OF d(3) get assms(4)])
qed

lemma wf_delWildcardEdge [wf_intros]:
  assumes "wf_node n"
  shows "wf_node (delWildcardEdge n k)"
  using wf_nodeD [OF assms] ke.inv_del [of "''*''" "nwildcards n" k]
  by - (rule wf_nodeI, auto simp: delWildcardEdge_def ke.set_del)

subsection \<open>The view of a node with one changed child\<close>

lemma branch_Some: "kids n x = Some (l, ch) \<Longrightarrow> branch n x = under l (routes_at ch)"
  by (simp add: branch_def)

lemma branch_None: "kids n x = None \<Longrightarrow> branch n x = empty_view"
  by (simp add: branch_def)

lemma routes_at_set [simp]:
  "routes_at (set_nkey l k n) = routes_at n"
  by (rule routes_at_same) (simp_all add: branch_def)

lemma routes_at_set_nroutes: "routes_at (set_nroutes rs n) = (routes_at n)([] := rs)"
proof (rule ext)
  fix s show "routes_at (set_nroutes rs n) s = ((routes_at n)([] := rs)) s"
    by (cases s) (simp_all add: routes_at_branch branch_def)
qed

lemma routes_at_below:
  "kids n x = Some (x # l, ch) \<Longrightarrow> routes_at n (x # l @ t) = routes_at ch t"
  using under_at [of "x # l" "routes_at ch" t] by (simp add: routes_at_branch branch_def)

text \<open>A new child, and a replaced child, under the symbols \<open>x # l\<close>.\<close>

lemma view_new_child:
  assumes "kids n' = (kids n)(x \<mapsto> (x # l, ch))" "nroutes n' = nroutes n" "kids n x = None"
    and "routes_at ch = empty_view(t := v)"
  shows "routes_at n' = (routes_at n)(x # l @ t := v)"
proof (rule routes_at_update)
  show "branch n' x = (branch n x)(x # l @ t := v)"
    using assms under_update [of "x # l" empty_view t v] by (simp add: branch_def)
qed (use assms in auto)

lemma view_changed_child:
  assumes "kids n' = (kids n)(x \<mapsto> (x # l, ch'))" "nroutes n' = nroutes n" "kids n x = Some (x # l, ch)"
    and "routes_at ch' = (routes_at ch)(t := v)"
  shows "routes_at n' = (routes_at n)(x # l @ t := v)"
proof (rule routes_at_update)
  show "branch n' x = (branch n x)(x # l @ t := v)"
    using assms under_update [of "x # l" "routes_at ch" t v] by (simp add: branch_def)
qed (use assms in auto)

text \<open>The child at \<open>x # l @ r\<close> is cut: the new child at \<open>x # l\<close> has the old one below it at \<open>r\<close>.\<close>

lemma view_split_child:
  assumes "kids n' = (kids n)(x \<mapsto> (x # l, sp))" "nroutes n' = nroutes n" "kids n x = Some (x # l @ r, ch)"
    and "routes_at sp = (under r (routes_at ch))(t := v)"
  shows "routes_at n' = (routes_at n)(x # l @ t := v)"
proof (rule routes_at_update)
  have "branch n x = under (x # l) (under r (routes_at ch))"
    using assms(3) under_append [of "x # l" r "routes_at ch"] by (simp add: branch_def)
  then show "branch n' x = (branch n x)(x # l @ t := v)"
    using assms under_update [of "x # l" "under r (routes_at ch)" t v] by (simp add: branch_def)
qed (use assms in auto)

text \<open>A removed child.\<close>

lemma view_removed_child:
  assumes "kids n' = (kids n)(x := None)" "nroutes n' = nroutes n" "kids n x = Some (x # l, ch)"
    and "(routes_at ch)(t := []) = empty_view"
  shows "routes_at n' = (routes_at n)(x # l @ t := [])"
proof (rule routes_at_update)
  show "branch n' x = (branch n x)(x # l @ t := [])"
    using assms under_update [of "x # l" "routes_at ch" t "[]"] by (simp add: branch_def)
qed (use assms in auto)

subsection \<open>Static nodes and splitting\<close>

definition new_static :: "string \<Rightarrow> bool \<Rightarrow> 'r node" where
  "new_static key host = Node [] None key [] [] [] (key ! 0) host False"

lemma new_static_simps [simp]:
  "nroutes (new_static k h) = []" "nstatics (new_static k h) = []" "nparams (new_static k h) = []"
  "nwildcards (new_static k h) = []" "nkey (new_static k h) = k" "nlabel (new_static k h) = k ! 0"
  "nhost (new_static k h) = h" "kids (new_static k h) = Map.empty"
  by (simp_all add: new_static_def kids_empty)

lemma wf_leaf: "nstatics n = [] \<Longrightarrow> nparams n = [] \<Longrightarrow> nwildcards n = [] \<Longrightarrow> wf_node n"
  by (rule wf_nodeI) (simp_all add: st.inv_Nil ke.inv_Nil)

lemma getStaticEdge_Nil [simp]: "nstatics n = [] \<Longrightarrow> getStaticEdge n c = None"
  using st.look_Nil [of c] by (simp add: getStaticEdge_def st.look_def)

lemma getEdge_Nil [simp]:
  "nparams n = [] \<Longrightarrow> getParamEdge n k = None"
  "nwildcards n = [] \<Longrightarrow> getWildcardEdge n k = None"
  using ke.look_Nil [of k] by (simp_all add: getParamEdge_def getWildcardEdge_def ke.look_def)

lemma getStaticEdge_kids: "getStaticEdge n c = None \<longleftrightarrow> kids n (SC c) = None"
  by (simp add: kids_def)

definition cut_child :: "nat \<Rightarrow> 'r node \<Rightarrow> 'r node" where
  "cut_child k ch = set_nkey (nkey ch ! k) (drop k (nkey ch)) ch"

lemma static_ok_cut_child: "k < length (nkey ch) \<Longrightarrow> wf_node ch \<Longrightarrow> static_ok (cut_child k ch)"
  by (simp add: cut_child_def static_ok_def hd_drop_conv_nth)

lemma hd_conv_nth0: "xs \<noteq> [] \<Longrightarrow> xs ! 0 = hd xs"
  by (simp add: hd_conv_nth)

text \<open>Adding the cut child to a node without that edge.\<close>

lemma view_add_cut:
  assumes "wf_node sp" "k < length (nkey ch)" "getStaticEdge sp (nkey ch ! k) = None"
    and "routes_at sp = empty_view(t := v)"
    and "t = [] \<or> hd t \<noteq> SC (nkey ch ! k)"
  shows "routes_at (addStaticEdge sp (cut_child k ch)) = (under (statics_of (drop k (nkey ch))) (routes_at ch))(t := v)"
proof -
  let ?x = "SC (nkey ch ! k)"
  let ?n = "addStaticEdge sp (cut_child k ch)"
  have key: "statics_of (drop k (nkey ch)) = ?x # statics_of (drop (Suc k) (nkey ch))"
    using assms(2) by (simp add: Cons_nth_drop_Suc [symmetric])
  have kids: "kids ?n = (kids sp)(?x \<mapsto> (statics_of (drop k (nkey ch)), cut_child k ch))"
    using kids_addStaticEdge [OF wf_edges [OF assms(1)], of "cut_child k ch"] assms(3)
    by (simp add: cut_child_def)
  have routes: "nroutes ?n = nroutes sp" by (simp add: addStaticEdge_def)
  show ?thesis
  proof (rule ext)
    fix s
    show "routes_at ?n s = ((under (statics_of (drop k (nkey ch))) (routes_at ch))(t := v)) s"
    proof (cases s)
      case Nil
      have "routes_at sp [] = (empty_view(t := v)) []" using assms(4) by simp
      with Nil routes key show ?thesis by (auto simp: under_def)
    next
      case (Cons y s')
      show ?thesis
      proof (cases "y = ?x")
        case True
        with Cons kids assms(5) show ?thesis
          by (auto simp: routes_at_branch branch_def cut_child_def)
      next
        case False
        have "branch ?n y = branch sp y"
          using kids False by (simp add: branch_def)
        moreover have "branch sp y s = (empty_view(t := v)) s"
          using assms(4) Cons by (metis routes_at_branch)
        ultimately show ?thesis
          using Cons False key by (auto simp: routes_at_branch under_def)
      qed
    qed
  qed
qed

end
