(* ===== verification/Tree_Names.thy ===== *)
theory Tree_Names
  imports Tree_Map
begin

text \<open>
  The tree of route names (\<open>insertNameIn\<close>, \<open>deleteNameIn\<close>, \<open>mergeChild\<close> and \<open>longestPrefix\<close> of
  \<open>tree.go\<close>, \<open>searchName\<close> of \<open>node.go\<close>, \<open>Router.Name\<close> of \<open>fox.go\<close>). It is a radix tree with static
  children only, and it refines a map from names to routes.
\<close>

subsection \<open>Errors and modes\<close>

datatype ('c, 'h) error =
    RouteConflictError "('c, 'h) route" "('c, 'h) route list" bool
  | RouteNameConflictError "('c, 'h) route" "('c, 'h) route"
  | RouteNotFoundError "('c, 'h) route"
  | Panic string

datatype insertMode = modeInsert | modeUpdate

subsection \<open>Common prefixes\<close>

fun longestPrefix :: "string \<Rightarrow> string \<Rightarrow> nat" where
  "longestPrefix (a # k1) (b # k2) = (if a \<noteq> b then 0 else Suc (longestPrefix k1 k2))"
| "longestPrefix _ _ = 0"

lemma longestPrefix_le: "longestPrefix a b \<le> length a" "longestPrefix a b \<le> length b"
  by (induction a b rule: longestPrefix.induct) auto

lemma longestPrefix_take: "take (longestPrefix a b) a = take (longestPrefix a b) b"
  by (induction a b rule: longestPrefix.induct) auto

lemma longestPrefix_differ:
  "longestPrefix a b < length a \<Longrightarrow> longestPrefix a b < length b \<Longrightarrow> a ! longestPrefix a b \<noteq> b ! longestPrefix a b"
  by (induction a b rule: longestPrefix.induct) auto

lemma longestPrefix_pos: "longestPrefix (c # a) (c # b) \<noteq> 0"
  by simp

lemma longestPrefix_full: "longestPrefix a b = length b \<longleftrightarrow> has_prefix a b"
  by (induction a b rule: longestPrefix.induct) (auto simp: has_prefix_def)

subsection \<open>Insertion\<close>

function insertNameIn ::
  "insertMode \<Rightarrow> ('c, 'h) route node \<Rightarrow> string \<Rightarrow> ('c, 'h) route \<Rightarrow> ('c, 'h) error + ('c, 'h) route node" where
  "insertNameIn mode n search route =
     (if length search = 0 then
        if isLeaf n \<and> mode \<noteq> modeUpdate then Inl (RouteNameConflictError route (nroutes n ! 0))
        else Inr (set_nroutes [route] n)
      else
        (case getStaticEdge n (search ! 0) of
           None \<Rightarrow> Inr (addStaticEdge n (set_nroutes [route] (new_static search False)))
         | Some (idx, child) \<Rightarrow>
             let commonPrefix = longestPrefix search (nkey child) in
             if commonPrefix = length (nkey child) then
               (case insertNameIn mode child (drop commonPrefix search) route of
                  Inl e \<Rightarrow> Inl e
                | Inr newChild \<Rightarrow> Inr (set_nstatics ((nstatics n)[idx := newChild]) n))
             else
               let splitNode = addStaticEdge (new_static (take commonPrefix search) False) (cut_child commonPrefix child);
                   rest = drop commonPrefix search;
                   splitNode = (if length rest = 0 then set_nroutes [route] splitNode
                                else addStaticEdge splitNode (set_nroutes [route] (new_static rest False)))
               in (case replaceStaticEdge n splitNode of
                     None \<Rightarrow> Inl (Panic ''internal error: replacing missing edge'')
                   | Some nc \<Rightarrow> Inr nc)))"
  by pat_completeness auto
termination
  by (relation "measure (\<lambda>(_, n, _, _). size n)") (auto dest: static_childD intro: child_size)

declare insertNameIn.simps [simp del]

subsection \<open>Merging and deletion\<close>

definition mergeChild :: "'r node \<Rightarrow> 'r node" where
  "mergeChild n =
     (let child = nstatics n ! 0 in
      if nlabel n = CHR 0x00 then n
      else if nhost n \<and> has_prefix (nkey child) ''/'' then n
      else set_nstatics (nstatics child)
        (set_nroutes (if nroutes child \<noteq> [] then nroutes child else nroutes n)
          (set_nparams (if nparams child \<noteq> [] then nparams child else nparams n)
            (set_nwildcards (if nwildcards child \<noteq> [] then nwildcards child else nwildcards n)
              (set_nkey (nlabel n) (nkey n @ nkey child) n)))))"

text \<open>
  \<open>is_root\<close> stands for the pointer comparison \<open>n == root\<close>, which holds for the topmost call only.
\<close>

function deleteNameIn :: "bool \<Rightarrow> 'r node \<Rightarrow> string \<Rightarrow> 'r node option" where
  "deleteNameIn is_root n search =
     (if length search = 0 then
        if \<not> isLeaf n then None
        else
          let nc = set_nroutes [] n in
          Some (if \<not> is_root \<and> length (nstatics nc) = 1 then mergeChild nc else nc)
      else
        (case getStaticEdge n (search ! 0) of
           None \<Rightarrow> None
         | Some (idx, child) \<Rightarrow>
             if \<not> has_prefix search (nkey child) then None
             else
               (case deleteNameIn False child (drop (length (nkey child)) search) of
                  None \<Rightarrow> None
                | Some newChild \<Rightarrow>
                    if \<not> isLeaf newChild \<and> length (nstatics newChild) = 0 then
                      let nc = delStaticEdge n (search ! 0) in
                      Some (if \<not> is_root \<and> \<not> isLeaf nc \<and> length (nstatics nc) = 1 then mergeChild nc else nc)
                    else Some (set_nstatics ((nstatics n)[idx := newChild]) n))))"
  by pat_completeness auto
termination
  by (relation "measure (\<lambda>(_, n, _). size n)") (auto dest: static_childD intro: child_size)

declare deleteNameIn.simps [simp del]

subsection \<open>Search\<close>

text \<open>The loop stops inside a key too: the node returned is then the one whose key was entered last.\<close>

function searchName :: "'r node \<Rightarrow> string \<Rightarrow> 'r node option" where
  "searchName current search =
     (if length search = 0 then Some current
      else
        (case getStaticEdge current (search ! 0) of
           None \<Rightarrow> None
         | Some (_, child) \<Rightarrow>
             let keyLen = min (length (nkey child)) (length search) in
             if take keyLen search \<noteq> take keyLen (nkey child) then None
             else searchName child (drop keyLen search)))"
  by pat_completeness auto
termination
  by (relation "measure (\<lambda>(n, _). size n)") (auto dest: static_childD intro: child_size)

declare searchName.simps [simp del]

definition Name :: "('c, 'h) route node \<Rightarrow> string \<Rightarrow> ('c, 'h) route option" where
  "Name root name =
     (case searchName root name of
        None \<Rightarrow> None
      | Some matched \<Rightarrow>
          if \<not> isLeaf matched \<or> rname (nroutes matched ! 0) \<noteq> name then None
          else Some (nroutes matched ! 0))"

subsection \<open>Insertion refines the update of a map\<close>

lemma static_ok_leaf: "k \<noteq> [] \<Longrightarrow> static_ok (set_nroutes rs (new_static k h))"
  by (simp add: static_ok_def hd_conv_nth0 wf_leaf)

lemma view_leaf [simp]: "routes_at (set_nroutes rs (new_static k h)) = empty_view([] := rs)"
  using routes_at_childless [of "set_nroutes rs (new_static k h)"] by simp

lemma view_new_static [simp]: "routes_at (new_static k h) = empty_view"
  using routes_at_childless [of "new_static k h"] by (simp add: fun_eq_iff)

lemma statics_of_Cons: "s \<noteq> [] \<Longrightarrow> statics_of s = SC (s ! 0) # statics_of (tl s)"
  by (cases s) auto

text \<open>The three ways a static key meets the tree: no child, a child whose key is a prefix, a split.\<close>

lemma view_add_static:
  assumes "wf_node n" "getStaticEdge n (nlabel ch) = None" "nlabel ch = nkey ch ! 0" "nkey ch \<noteq> []"
    and "routes_at ch = empty_view(t := v)"
  shows "routes_at (addStaticEdge n ch) = (routes_at n)(statics_of (nkey ch) @ t := v)"
proof -
  note key = statics_of_Cons [OF assms(4)]
  have "kids (addStaticEdge n ch) = (kids n)(SC (nkey ch ! 0) \<mapsto> (SC (nkey ch ! 0) # statics_of (tl (nkey ch)), ch))"
    using kids_addStaticEdge [OF wf_edges [OF assms(1)] assms(2)] assms(3) key by simp
  moreover have "nroutes (addStaticEdge n ch) = nroutes n"
    by (simp add: addStaticEdge_def)
  moreover have "kids n (SC (nkey ch ! 0)) = None"
    using assms(2,3) by (simp add: getStaticEdge_kids)
  ultimately show ?thesis
    using view_new_child [OF _ _ _ assms(5)] key by simp
qed

lemma view_upd_static:
  assumes "wf_node n" "getStaticEdge n c = Some (i, child)" "nlabel ch = c" "nkey ch = nkey child"
    and "routes_at ch = (routes_at child)(t := v)"
  shows "routes_at (set_nstatics ((nstatics n)[i := ch]) n) = (routes_at n)(statics_of (nkey child) @ t := v)"
proof -
  obtain k where k: "nkey child = c # k"
    using static_keyD [OF wf_edges [OF assms(1)] assms(2)] by blast
  have "kids (set_nstatics ((nstatics n)[i := ch]) n) = (kids n)(SC c \<mapsto> (SC c # statics_of k, ch))"
    using kids_updStatic [OF wf_edges [OF assms(1)] assms(2,3)] assms(4) k by simp
  moreover have "kids n (SC c) = Some (SC c # statics_of k, child)"
    using kids_Some(1) [OF assms(2)] k by simp
  ultimately show ?thesis
    using view_changed_child [OF _ _ _ assms(5)] k by simp
qed

lemma view_split_static:
  assumes "wf_node n" "getStaticEdge n c = Some (i, child)" "nlabel sp = c"
    and "nkey sp = take k (nkey child)" "k \<noteq> 0" "k < length (nkey child)"
    and "routes_at sp = (under (statics_of (drop k (nkey child))) (routes_at child))(t := v)"
  shows "routes_at (set_nstatics ((nstatics n)[i := sp]) n) = (routes_at n)(statics_of (nkey sp) @ t := v)"
proof -
  obtain k' where k': "nkey child = c # k'"
    using static_keyD [OF wf_edges [OF assms(1)] assms(2)] by blast
  then obtain l where l: "nkey sp = c # l" "take k (nkey child) = c # l"
    using assms(4,5) by (cases k) auto
  have "kids (set_nstatics ((nstatics n)[i := sp]) n) = (kids n)(SC c \<mapsto> (SC c # statics_of l, sp))"
    using kids_updStatic [OF wf_edges [OF assms(1)] assms(2,3)] l by simp
  moreover have "kids n (SC c) = Some (SC c # statics_of l @ statics_of (drop k (nkey child)), child)"
    using kids_Some(1) [OF assms(2)] l(2) append_take_drop_id [of k "nkey child"]
    by (metis append_Cons list.simps(9) map_append)
  ultimately show ?thesis
    using view_split_child [OF _ _ _ assms(7)] l by simp
qed

lemma replaceStaticEdge_found:
  "getStaticEdge n (nlabel ch) = Some (i, child) \<Longrightarrow>
     replaceStaticEdge n ch = Some (set_nstatics ((nstatics n)[i := ch]) n)"
  by (simp add: replaceStaticEdge_eq)

lemma getStaticEdge_addStaticEdge:
  assumes "wf_node n" "getStaticEdge n (nlabel ch) = None"
  shows "getStaticEdge (addStaticEdge n ch) c = None \<longleftrightarrow> c \<noteq> nlabel ch \<and> getStaticEdge n c = None"
  using kids_addStaticEdge [OF wf_edges [OF assms(1)] assms(2)] by (simp add: getStaticEdge_kids)

lemma addStaticEdge_simps [simp]:
  "nroutes (addStaticEdge n ch) = nroutes n" "nparams (addStaticEdge n ch) = nparams n"
  "nwildcards (addStaticEdge n ch) = nwildcards n" "nkey (addStaticEdge n ch) = nkey n"
  "nlabel (addStaticEdge n ch) = nlabel n" "nhost (addStaticEdge n ch) = nhost n"
  "set_nroutes rs (addStaticEdge n ch) = addStaticEdge (set_nroutes rs n) ch"
  by (cases n; simp add: addStaticEdge_def)+

text \<open>A split node with the cut child below it, and possibly one more static child or a route.\<close>

lemma cut_node_spec:
  fixes child :: "'r node"
  assumes "wf_node child" "0 < k" "k < length (nkey child)"
    and "sp = addStaticEdge (new_static p h) (cut_child k child)"
  shows "wf_node sp" "routes_at sp = under (statics_of (drop k (nkey child))) (routes_at child)"
    and "\<And>c. getStaticEdge sp c = None \<longleftrightarrow> c \<noteq> nkey child ! k"
proof -
  let ?n = "new_static p h :: 'r node"
  have wf0: "wf_node ?n" by (simp add: wf_leaf)
  show "wf_node sp"
    using assms wf0 static_ok_cut_child [of k child] by (simp add: wf_addStaticEdge)
  show "getStaticEdge sp c = None \<longleftrightarrow> c \<noteq> nkey child ! k" for c
    using getStaticEdge_addStaticEdge [OF wf0, of "cut_child k child" c] assms(4) by (simp add: cut_child_def)
  have "routes_at ?n = empty_view([] := [])" by (simp add: fun_upd_idem)
  from view_add_cut [OF wf0 assms(3) _ this] assms(3,4)
  show "routes_at sp = under (statics_of (drop k (nkey child))) (routes_at child)"
    by (auto simp: under_def fun_eq_iff)
qed

definition info :: "'r node \<Rightarrow> string \<times> char \<times> bool \<times> regexp option" where
  "info n = (nkey n, nlabel n, nhost n, nregexp n)"

lemma info_simps [simp]:
  "info (set_nroutes rs n) = info n" "info (set_nstatics ss n) = info n" "info (set_nparams ps n) = info n"
  "info (set_nwildcards ws n) = info n" "info (addStaticEdge n ch) = info n" "info (delStaticEdge n c) = info n"
  "info (addParamEdge n ch) = info n" "info (delParamEdge n k) = info n"
  "info (addWildcardEdge n ch) = info n" "info (delWildcardEdge n k) = info n"
  by (cases n; simp add: info_def addStaticEdge_def delStaticEdge_def addParamEdge_def delParamEdge_def
      addWildcardEdge_def delWildcardEdge_def)+

lemma insertNameIn_split:
  fixes child :: "('c, 'h) route node"
  assumes "wf_node n" "search \<noteq> []" "getStaticEdge n (search ! 0) = Some (i, child)"
    and "k = longestPrefix search (nkey child)" "k \<noteq> length (nkey child)"
    and "sp0 = addStaticEdge (new_static (take k search) False) (cut_child k child)"
    and "sp = (if drop k search = [] then set_nroutes [route] sp0
               else addStaticEdge sp0 (set_nroutes [route] (new_static (drop k search) False)))"
  shows "static_ok sp" "nlabel sp = search ! 0"
    and "routes_at (set_nstatics ((nstatics n)[i := sp]) n) = (routes_at n)(statics_of search := [route])"
proof -
  obtain kk where kk: "nkey child = search ! 0 # kk"
    using static_keyD [OF wf_edges [OF assms(1)] assms(3)] by blast
  have k0: "0 < k" using assms(2,4) kk by (cases search) auto
  have kl: "k < length (nkey child)" using longestPrefix_le(2) [of search "nkey child"] assms(4,5) by simp
  have ks: "k \<le> length search" using longestPrefix_le(1) assms(4) by simp
  have wfc: "wf_node child" using wf_child [OF assms(1) static_childD(1) [OF assms(3)]] .
  note cut = cut_node_spec [OF wfc k0 kl assms(6)]
  have label: "(take k search) ! 0 = search ! 0" using k0 by simp
  have nkey: "nkey sp = take k search" and nlabel: "nlabel sp = search ! 0"
    using assms(6,7) label by simp_all
  then show "nlabel sp = search ! 0" by simp
  have take: "take k search = take k (nkey child)" using longestPrefix_take assms(4) by simp
  have view: "wf_node sp \<and> routes_at sp = (under (statics_of (drop k (nkey child))) (routes_at child))
      (statics_of (drop k search) := [route])"
  proof (cases "drop k search = []")
    case True
    then show ?thesis using cut(1,2) assms(7) by (simp add: routes_at_set_nroutes)
  next
    case False
    let ?leaf = "set_nroutes [route] (new_static (drop k search) False)"
    have d: "drop k search ! 0 \<noteq> nkey child ! k"
      using longestPrefix_differ [of search "nkey child"] False kl assms(4) by simp
    then have none: "getStaticEdge sp0 (nlabel ?leaf) = None" using cut(3) by simp
    have "routes_at (addStaticEdge sp0 ?leaf) = (routes_at sp0)(statics_of (nkey ?leaf) @ [] := [route])"
      by (rule view_add_static [OF cut(1) none]) (use False in simp_all)
    moreover have "wf_node (addStaticEdge sp0 ?leaf)"
      using wf_addStaticEdge [OF cut(1) static_ok_leaf none] False by simp
    ultimately show ?thesis using False cut(2) assms(7) by simp
  qed
  show "static_ok sp"
    using view nkey nlabel assms(2) k0 by (cases search) (auto simp: static_ok_def hd_take)
  have "nkey sp = take k (nkey child)" using nkey take by simp
  with view_split_static [OF assms(1,3) nlabel this _ kl] view k0
  have "routes_at (set_nstatics ((nstatics n)[i := sp]) n)
      = (routes_at n)(statics_of (nkey sp) @ statics_of (drop k search) := [route])" by simp
  moreover have "statics_of (nkey sp) @ statics_of (drop k search) = statics_of search"
    using nkey by (simp flip: map_append)
  ultimately show "routes_at (set_nstatics ((nstatics n)[i := sp]) n) = (routes_at n)(statics_of search := [route])"
    by simp
qed

lemma has_prefix_map [simp]: "inj f \<Longrightarrow> has_prefix (map f a) (map f b) = has_prefix a b"
  by (simp add: has_prefix_def take_map inj_map_eq_map)

lemma inj_SC [simp]: "inj SC"
  by (simp add: inj_def)

lemma routes_at_statics:
  assumes "search \<noteq> []"
  shows "routes_at n (statics_of search) =
    (case getStaticEdge n (search ! 0) of
       None \<Rightarrow> []
     | Some (_, child) \<Rightarrow> if has_prefix search (nkey child)
         then routes_at child (statics_of (drop (length (nkey child)) search)) else [])"
proof -
  obtain c s where search: "search = c # s" using assms by (cases search) auto
  show ?thesis
  proof (cases "getStaticEdge n c")
    case None
    with search kids_None(1) [OF None] show ?thesis
      by (simp add: routes_at_branch branch_None)
  next
    case (Some p)
    then obtain i child where get: "getStaticEdge n c = Some (i, child)" by (cases p) auto
    have "routes_at n (statics_of search) = under (statics_of (nkey child)) (routes_at child) (statics_of search)"
      using search branch_Some [OF kids_Some(1) [OF get]] by (simp add: routes_at_branch)
    with get search show ?thesis
      by (simp add: under_def drop_map has_prefix_map [OF inj_SC] del: list.map(2))
  qed
qed

lemma set_nstatics_Inr_info:
  "getStaticEdge n c = Some (i, child) \<Longrightarrow> info newChild = info child \<Longrightarrow> nlabel newChild = c \<and> nkey newChild = nkey child"
  using static_childD(4) by (auto simp: info_def)

lemma static_ok_child: "wf_node n \<Longrightarrow> c \<in> set (nstatics n) \<Longrightarrow> static_ok c"
  using wf_nodeD(4) [of n c] by (simp add: static_ok_def)

lemma static_ok_info: "static_ok c \<Longrightarrow> info c' = info c \<Longrightarrow> wf_node c' \<Longrightarrow> static_ok c'"
  by (simp add: static_ok_def info_def)

lemma insertNameIn_spec:
  "wf_node n \<Longrightarrow>
     (case insertNameIn mode n search route of
        Inl e \<Rightarrow> mode \<noteq> modeUpdate \<and> routes_at n (statics_of search) \<noteq> []
          \<and> e = RouteNameConflictError route (hd (routes_at n (statics_of search)))
      | Inr n' \<Rightarrow> (mode = modeUpdate \<or> routes_at n (statics_of search) = []) \<and> wf_node n' \<and> info n' = info n
          \<and> routes_at n' = (routes_at n)(statics_of search := [route]))"
proof (induction mode n search route rule: insertNameIn.induct)
  case (1 mode n search route)
  note wf = "1.prems"
  show ?case
  proof (cases "search = []")
    case True
    then show ?thesis
      using wf by (subst insertNameIn.simps) (auto simp: routes_at_set_nroutes hd_conv_nth)
  next
    case ne: False
    show ?thesis
    proof (cases "getStaticEdge n (search ! 0)")
      case None
      let ?leaf = "set_nroutes [route] (new_static search False)"
      have "routes_at (addStaticEdge n ?leaf) = (routes_at n)(statics_of (nkey ?leaf) @ [] := [route])"
        by (rule view_add_static) (use wf None ne in simp_all)
      moreover have "wf_node (addStaticEdge n ?leaf)"
        using None ne by (intro wf_addStaticEdge [OF wf] static_ok_leaf) simp_all
      moreover have "routes_at n (statics_of search) = []"
        using None ne by (simp add: routes_at_statics)
      moreover have "insertNameIn mode n search route = Inr (addStaticEdge n ?leaf)"
        using None ne by (subst insertNameIn.simps) simp
      ultimately show ?thesis by simp
    next
      case (Some p)
      then obtain i child where get: "getStaticEdge n (search ! 0) = Some (i, child)" by (cases p) auto
      define k where "k = longestPrefix search (nkey child)"
      note child = static_childD [OF get]
      have wfc: "wf_node child" using wf_child [OF wf child(1)] .
      show ?thesis
      proof (cases "k = length (nkey child)")
        case True
        then have pre: "has_prefix search (nkey child)" by (simp add: k_def longestPrefix_full)
        have at: "routes_at n (statics_of search) = routes_at child (statics_of (drop k search))"
          using pre get ne True by (simp add: routes_at_statics)
        have eq: "insertNameIn mode n search route = (case insertNameIn mode child (drop k search) route of
            Inl e \<Rightarrow> Inl e | Inr newChild \<Rightarrow> Inr (set_nstatics ((nstatics n)[i := newChild]) n))"
          using ne get True by (subst insertNameIn.simps) (simp add: k_def [symmetric] Let_def)
        have len: "length search \<noteq> 0" using ne by simp
        note IH = "1.IH" [OF len get refl k_def, unfolded fst_conv snd_conv, OF True wfc]
        show ?thesis
        proof (cases "insertNameIn mode child (drop k search) route")
          case (Inl e)
          with IH at show ?thesis by (simp add: eq)
        next
          case (Inr newChild)
          with IH have new: "wf_node newChild" "info newChild = info child"
              "routes_at newChild = (routes_at child)(statics_of (drop k search) := [route])" by simp_all
          note lab = set_nstatics_Inr_info [OF get new(2)]
          have "routes_at (set_nstatics ((nstatics n)[i := newChild]) n)
              = (routes_at n)(statics_of (nkey child) @ statics_of (drop k search) := [route])"
            using view_upd_static [OF wf get _ _ new(3)] lab by simp
          moreover have "nkey child @ drop k search = search"
            using has_prefix_drop [OF pre] True by simp
          then have "statics_of (nkey child) @ statics_of (drop k search) = statics_of search"
            by (metis map_append)
          moreover have "wf_node (set_nstatics ((nstatics n)[i := newChild]) n)"
            using lab new wf_updStatic [OF wf static_ok_info [OF static_ok_child [OF wf child(2)] new(2,1)] get] by simp
          ultimately show ?thesis using IH Inr at by (simp add: eq)
        qed
      next
        case False
        define sp0 :: "('a, 'b) route node" where
          "sp0 = addStaticEdge (new_static (take k search) False) (cut_child k child)"
        define sp where "sp = (if drop k search = [] then set_nroutes [route] sp0
          else addStaticEdge sp0 (set_nroutes [route] (new_static (drop k search) False)))"
        note spec = insertNameIn_split [OF wf ne get k_def False sp0_def sp_def]
        have "\<not> has_prefix search (nkey child)"
          using False by (simp add: k_def longestPrefix_full)
        then have "routes_at n (statics_of search) = []"
          using get ne by (simp add: routes_at_statics)
        moreover have "insertNameIn mode n search route = Inr (set_nstatics ((nstatics n)[i := sp]) n)"
          using ne get False replaceStaticEdge_found [of n sp i child] spec(2)
          by (subst insertNameIn.simps)
            (simp add: k_def [symmetric] Let_def sp0_def [symmetric] sp_def [symmetric] del: drop_eq_Nil)
        moreover have "wf_node (set_nstatics ((nstatics n)[i := sp]) n)"
          by (rule wf_updStatic [OF wf spec(1) get spec(2)])
        ultimately show ?thesis using spec(3) by simp
      qed
    qed
  qed
qed

subsection \<open>Deletion refines the removal from a map\<close>

function static_only :: "'r node \<Rightarrow> bool" where
  "static_only n \<longleftrightarrow> nparams n = [] \<and> nwildcards n = [] \<and> (\<forall>c \<in> set (nstatics n). static_only c)"
  by auto
termination
  by (relation "measure size") (auto intro: child_size)

declare static_only.simps [simp del]

lemma static_onlyD:
  "static_only n \<Longrightarrow> nparams n = []" "static_only n \<Longrightarrow> nwildcards n = []"
  "static_only n \<Longrightarrow> c \<in> set (nstatics n) \<Longrightarrow> static_only c"
  using static_only.simps [of n] by simp_all

lemma static_onlyI:
  "nparams n = [] \<Longrightarrow> nwildcards n = [] \<Longrightarrow> (\<And>c. c \<in> set (nstatics n) \<Longrightarrow> static_only c) \<Longrightarrow> static_only n"
  using static_only.simps [of n] by simp

abbreviation full_view :: "'r node \<Rightarrow> 'r view" where
  "full_view n \<equiv> under (statics_of (nkey n)) (routes_at n)"

lemma kids_one_static:
  assumes "nstatics n = [c]" "nparams n = []" "nwildcards n = []"
  shows "kids n = [SC (nlabel c) \<mapsto> (statics_of (nkey c), c)]"
proof (rule ext)
  have inv: "static_inv [c]" by (simp add: static_inv_def)
  have "st.look [c] l = (if l = nlabel c then Some c else None)" for l
    using st.look_iff [OF inv, of l] st.look_None [OF inv, of l] by auto
  then show "kids n x = [SC (nlabel c) \<mapsto> (statics_of (nkey c), c)] x" for x
    using assms by (cases x) (simp_all add: kids_look ke.look_Nil)
qed

lemma routes_at_one_static:
  assumes "nstatics n = [c]" "nparams n = []" "nwildcards n = []" "nroutes n = []" "static_ok c"
  shows "routes_at n = full_view c"
proof -
  have "statics_of (nkey c) = SC (nlabel c) # statics_of (tl (nkey c))"
    using assms(5) by (cases "nkey c") (auto simp: static_ok_def)
  then show ?thesis
    using routes_at_single [OF assms(4)] kids_one_static [OF assms(1-3)] by simp
qed

text \<open>Merging leaves the full view of the node unchanged, and the key of a labelless node too.\<close>

lemma mergeChild_spec:
  fixes n :: "'r node"
  assumes "wf_node n" "nroutes n = []" "nparams n = []" "nwildcards n = []" "nstatics n = [c]"
  shows "wf_node (mergeChild n)" "full_view (mergeChild n) = full_view n" "nlabel (mergeChild n) = nlabel n"
    "nlabel n = CHR 0x00 \<Longrightarrow> nkey (mergeChild n) = nkey n" "\<exists>k. nkey (mergeChild n) = nkey n @ k"
    "nhost (mergeChild n) = nhost n" "nregexp (mergeChild n) = nregexp n"
proof -
  have ok: "static_ok c" using static_ok_child [OF assms(1)] assms(5) by simp
  let ?m = "mergeChild n"
  have "wf_node ?m \<and> full_view ?m = full_view n"
  proof (cases "nlabel n = CHR 0x00 \<or> nhost n \<and> has_prefix (nkey c) ''/''")
    case True
    then have "?m = n" using assms(5) by (auto simp: mergeChild_def Let_def)
    with assms(1) show ?thesis by simp
  next
    case False
    have parts: "nstatics ?m = nstatics c" "nparams ?m = nparams c" "nwildcards ?m = nwildcards c"
        "nroutes ?m = nroutes c" "nkey ?m = nkey n @ nkey c"
      using False assms by (auto simp: mergeChild_def Let_def)
    have "kids ?m x = kids c x" for x
      using parts by (cases x) (simp_all add: kids_look)
    then have "routes_at ?m = routes_at c"
      using parts by (intro routes_at_same) (simp_all add: branch_def)
    moreover have "wf_node ?m"
    proof -
      have "wf_node c" using ok by (simp add: static_ok_def)
      note d = wf_nodeD [OF this]
      show ?thesis
        by (rule wf_nodeI) (use d parts in simp_all)
    qed
    moreover have "routes_at n = full_view c"
      using routes_at_one_static [OF assms(5,3,4,2) ok] .
    ultimately show ?thesis
      using parts(5) by (simp add: under_append)
  qed
  then show "wf_node ?m" "full_view ?m = full_view n" by auto
  show "nlabel ?m = nlabel n" "nlabel n = CHR 0x00 \<Longrightarrow> nkey ?m = nkey n" "\<exists>k. nkey ?m = nkey n @ k"
    "nhost ?m = nhost n" "nregexp ?m = nregexp n"
    by (simp_all add: mergeChild_def Let_def)
qed

lemma mergeChild_static_only:
  assumes "static_only n" "nstatics n = [c]"
  shows "static_only (mergeChild n)"
proof -
  have c: "static_only c" using static_onlyD(3) [OF assms(1)] assms(2) by simp
  have "nstatics (mergeChild n) = nstatics n \<or> nstatics (mergeChild n) = nstatics c"
    using assms(2) by (auto simp: mergeChild_def Let_def)
  then show ?thesis
    using static_onlyD [OF c] static_onlyD [OF assms(1)]
    by - (rule static_onlyI, auto simp: mergeChild_def Let_def assms(2))
qed

lemma under_inject: "under l f = under l g \<Longrightarrow> f = g"
  by (metis ext under_at)

lemma view_empty_node:
  assumes "nroutes n = []" "nstatics n = []" "nparams n = []" "nwildcards n = []"
  shows "routes_at n = empty_view"
  using routes_at_childless [of n] kids_empty [OF assms(2-4)] assms(1) by (simp add: fun_eq_iff)

text \<open>What a deletion below \<open>n\<close> returns: the same node, possibly merged with its last child.\<close>

definition deleted :: "bool \<Rightarrow> 'r node \<Rightarrow> sym list \<Rightarrow> 'r list \<Rightarrow> 'r node \<Rightarrow> bool" where
  "deleted is_root n s v n' \<longleftrightarrow>
     wf_node n' \<and> nlabel n' = nlabel n \<and> nhost n' = nhost n \<and> nregexp n' = nregexp n \<and>
     (\<exists>k. nkey n' = nkey n @ k) \<and> (is_root \<or> nlabel n = CHR 0x00 \<longrightarrow> nkey n' = nkey n) \<and>
     full_view n' = (full_view n)(statics_of (nkey n) @ s := v)"

lemma deleted_keep:
  assumes "wf_node n'" "info n' = info n" "routes_at n' = (routes_at n)(s := v)"
  shows "deleted is_root n s v n'"
  using assms by (simp add: deleted_def info_def under_update)

lemma deleted_merge:
  assumes "deleted False n s v n'" "nroutes n' = []" "nparams n' = []" "nwildcards n' = []" "nstatics n' = [c]"
  shows "deleted False n s v (mergeChild n')"
proof -
  from assms(1) have wf: "wf_node n'" by (simp add: deleted_def)
  from mergeChild_spec [OF wf assms(2-5)] assms(1) show ?thesis
    by (auto simp: deleted_def)
qed

lemma deleted_plain_view:
  assumes "deleted r n s v n'" "r \<or> nlabel n = CHR 0x00"
  shows "nkey n' = nkey n" "routes_at n' = (routes_at n)(s := v)"
proof -
  from assms show key: "nkey n' = nkey n"
    by (auto simp: deleted_def)
  from assms have "full_view n' = (full_view n)(statics_of (nkey n) @ s := v)"
    unfolding deleted_def by blast
  then have "under (statics_of (nkey n)) (routes_at n') = under (statics_of (nkey n)) ((routes_at n)(s := v))"
    unfolding key under_update .
  then show "routes_at n' = (routes_at n)(s := v)"
    by (rule under_inject)
qed

text \<open>A child replaced by what a deletion in it returned.\<close>

lemma view_deleted_child:
  assumes "wf_node n" "getStaticEdge n c = Some (i, child)" "deleted r child s v new"
  shows "routes_at (set_nstatics ((nstatics n)[i := new]) n) = (routes_at n)(statics_of (nkey child) @ s := v)"
    and "wf_node (set_nstatics ((nstatics n)[i := new]) n)"
proof -
  note d = assms(3) [unfolded deleted_def]
  obtain k where k: "nkey child = c # k"
    using static_keyD [OF wf_edges [OF assms(1)] assms(2)] by blast
  from d obtain k' where k': "nkey new = c # k'" using k by auto
  have lab: "nlabel new = c" using d static_childD(4) [OF assms(2)] by simp
  let ?n = "set_nstatics ((nstatics n)[i := new]) n"
  have kids: "kids ?n = (kids n)(SC c \<mapsto> (statics_of (nkey new), new))"
    by (rule kids_updStatic [OF wf_edges [OF assms(1)] assms(2) lab])
  have "branch ?n (SC c) = (branch n (SC c))(SC c # statics_of k @ s := v)"
    using d kids kids_Some(1) [OF assms(2)] k by (simp add: branch_def)
  then show "routes_at ?n = (routes_at n)(statics_of (nkey child) @ s := v)"
    using routes_at_update [of ?n n "SC c" "statics_of k @ s" v] kids k by simp
  have "static_ok new" using d lab k' by (simp add: static_ok_def)
  then show "wf_node ?n" by (rule wf_updStatic [OF assms(1) _ assms(2) lab])
qed

lemma view_removed_static:
  assumes "wf_node n" "getStaticEdge n c = Some (i, child)" "deleted r child s [] new"
    and "nroutes new = []" "nstatics new = []" "nparams new = []" "nwildcards new = []"
  shows "routes_at (delStaticEdge n c) = (routes_at n)(statics_of (nkey child) @ s := [])"
proof -
  obtain k where k: "nkey child = c # k"
    using static_keyD [OF wf_edges [OF assms(1)] assms(2)] by blast
  have "full_view new = empty_view"
    using view_empty_node [OF assms(4-7)] by simp
  moreover have "full_view new = (full_view child)(statics_of (nkey child) @ s := [])"
    using assms(3) unfolding deleted_def by blast
  ultimately have "under (statics_of (nkey child)) ((routes_at child)(s := [])) = under (statics_of (nkey child)) empty_view"
    unfolding under_update under_empty by (rule trans [OF sym, rotated])
  then have "(routes_at child)(s := []) = empty_view" by (rule under_inject)
  then show ?thesis
    using view_removed_child [of "delStaticEdge n c" n "SC c" "statics_of k" child s]
      kids_delStaticEdge [OF wf_edges [OF assms(1)], of c] kids_Some(1) [OF assms(2)] k
    by (simp add: delStaticEdge_def)
qed

lemma delStaticEdge_simps [simp]:
  "nroutes (delStaticEdge n c) = nroutes n" "nparams (delStaticEdge n c) = nparams n"
  "nwildcards (delStaticEdge n c) = nwildcards n"
  by (simp_all add: delStaticEdge_def)

lemma length_1_iff: "length xs = Suc 0 \<longleftrightarrow> (\<exists>x. xs = [x])"
  by (cases xs) auto

lemma deleteNameIn_spec:
  "wf_node n \<Longrightarrow> static_only n \<Longrightarrow>
     (case deleteNameIn is_root n search of
        None \<Rightarrow> routes_at n (statics_of search) = []
      | Some n' \<Rightarrow> routes_at n (statics_of search) \<noteq> [] \<and> static_only n'
          \<and> deleted is_root n (statics_of search) [] n')"
proof (induction is_root n search rule: deleteNameIn.induct)
  case (1 is_root n search)
  note wf = "1.prems"(1) and so = "1.prems"(2)
  show ?case
  proof (cases "search = []")
    case True
    let ?nc = "set_nroutes [] n"
    have base: "deleted is_root n [] [] ?nc"
      by (rule deleted_keep) (use wf in \<open>simp_all add: routes_at_set_nroutes\<close>)
    have so': "static_only ?nc" using static_onlyD [OF so] by - (rule static_onlyI, simp_all)
    show ?thesis
    proof (cases "isLeaf n \<and> \<not> is_root \<and> length (nstatics ?nc) = 1")
      case False
      then show ?thesis
        using True base so' by (subst deleteNameIn.simps) (auto simp: Let_def)
    next
      case mg: True
      then obtain c where c: "nstatics ?nc = [c]" by (auto simp: length_1_iff)
      have "deleted False n [] [] (mergeChild ?nc)"
        using deleted_merge [of n "[]" "[]" ?nc c] base mg c static_onlyD [OF so] by simp
      moreover have "deleteNameIn is_root n search = Some (mergeChild ?nc)"
        using True mg by (subst deleteNameIn.simps) (simp add: Let_def)
      ultimately show ?thesis
        using True mg mergeChild_static_only [OF so' c] by auto
    qed
  next
    case ne: False
    show ?thesis
    proof (cases "getStaticEdge n (search ! 0)")
      case None
      then show ?thesis
        using ne by (subst deleteNameIn.simps) (simp add: routes_at_statics)
    next
      case (Some p)
      then obtain i child where get: "getStaticEdge n (search ! 0) = Some (i, child)" by (cases p) auto
      note ch = static_childD [OF get]
      have wfc: "wf_node child" and soc: "static_only child"
        using wf_child [OF wf ch(1)] static_onlyD(3) [OF so ch(2)] by auto
      show ?thesis
      proof (cases "has_prefix search (nkey child)")
        case False
        then show ?thesis
          using ne get by (subst deleteNameIn.simps) (simp add: routes_at_statics)
      next
        case pre: True
        let ?rest = "drop (length (nkey child)) search"
        have at: "routes_at n (statics_of search) = routes_at child (statics_of ?rest)"
          using ne get pre by (simp add: routes_at_statics)
        have path: "statics_of (nkey child) @ statics_of ?rest = statics_of search"
          using has_prefix_drop [OF pre] by (metis map_append)
        have len: "length search \<noteq> 0" using ne by simp
        have eq: "deleteNameIn is_root n search = (case deleteNameIn False child ?rest of
            None \<Rightarrow> None
          | Some newChild \<Rightarrow>
              if \<not> isLeaf newChild \<and> length (nstatics newChild) = 0 then
                let nc = delStaticEdge n (search ! 0) in
                Some (if \<not> is_root \<and> \<not> isLeaf nc \<and> length (nstatics nc) = 1 then mergeChild nc else nc)
              else Some (set_nstatics ((nstatics n)[i := newChild]) n))"
          using ne get pre by (subst deleteNameIn.simps) simp
        note IH = "1.IH" [OF len get refl, unfolded not_not, OF pre wfc soc]
        show ?thesis
        proof (cases "deleteNameIn False child ?rest")
          case None
          with IH at show ?thesis by (simp add: eq)
        next
          case (Some newChild)
          with IH have some: "routes_at child (statics_of ?rest) \<noteq> []" and sonew: "static_only newChild"
            and del: "deleted False child (statics_of ?rest) [] newChild" by simp_all
          let ?nc = "delStaticEdge n (search ! 0)"
          have setdel: "set (nstatics ?nc) \<subseteq> set (nstatics n)"
            using st.set_del [OF wf_nodeD(1) [OF wf]] by (auto simp: delStaticEdge_def)
          have sodel: "static_only ?nc"
            using static_onlyD [OF so] setdel by - (rule static_onlyI, auto simp: subset_iff)
          consider (drop) "\<not> isLeaf newChild \<and> length (nstatics newChild) = 0"
            | (keep) "\<not> (\<not> isLeaf newChild \<and> length (nstatics newChild) = 0)" by blast
          then show ?thesis
          proof cases
            case drop
            then have "routes_at ?nc = (routes_at n)(statics_of search := [])"
              using view_removed_static [OF wf get del] static_onlyD [OF sonew] path by simp
            then have base: "deleted r n (statics_of search) [] ?nc" for r
              by (intro deleted_keep) (simp_all add: wf wf_delStaticEdge)
            show ?thesis
            proof (cases "\<not> is_root \<and> \<not> isLeaf ?nc \<and> length (nstatics ?nc) = 1")
              case True
              then obtain c where c: "nstatics ?nc = [c]" by (auto simp: length_1_iff)
              have "deleted False n (statics_of search) [] (mergeChild ?nc)"
                using deleted_merge [OF base _ _ _ c] True static_onlyD [OF sodel] by simp
              then show ?thesis
                using True drop Some some at mergeChild_static_only [OF sodel c] unfolding eq by (auto simp: Let_def)
            next
              case False
              then show ?thesis
                using drop Some some at base sodel unfolding eq by (auto simp: Let_def)
            qed
          next
            case keep
            have "deleted is_root n (statics_of search) [] (set_nstatics ((nstatics n)[i := newChild]) n)"
              using view_deleted_child [OF wf get del] path by (intro deleted_keep) simp_all
            moreover have "static_only (set_nstatics ((nstatics n)[i := newChild]) n)"
              using static_onlyD [OF so] sonew set_update_subset_insert [of "nstatics n" i newChild]
              by - (rule static_onlyI, auto)
            ultimately show ?thesis
              using keep Some some at unfolding eq by auto
          qed
        qed
      qed
    qed
  qed
qed

subsection \<open>Insertion keeps static children only\<close>

lemma static_only_leaf [simp]: "static_only (set_nroutes rs (new_static k h))" "static_only (new_static k h)"
  by (rule static_onlyI; simp)+

lemma static_only_set [simp]: "static_only (set_nroutes rs n) = static_only n" "static_only (set_nkey l k n) = static_only n"
  using static_only.simps [of n] static_only.simps [of "set_nroutes rs n"] static_only.simps [of "set_nkey l k n"]
  by simp_all

lemma set_add_static: "set (add_static ss ch) \<subseteq> insert ch (set ss)"
  by (auto simp: add_static_def Let_def dest: in_set_takeD in_set_dropD)

lemma static_only_addStaticEdge: "static_only n \<Longrightarrow> static_only ch \<Longrightarrow> static_only (addStaticEdge n ch)"
  using static_onlyD [of n] set_add_static [of "nstatics n" ch]
  by - (rule static_onlyI, auto simp: addStaticEdge_def subset_iff)

lemma static_only_update:
  "static_only n \<Longrightarrow> static_only ch \<Longrightarrow> static_only (set_nstatics ((nstatics n)[i := ch]) n)"
  using static_onlyD [of n] set_update_subset_insert [of "nstatics n" i ch]
  by - (rule static_onlyI, auto)

lemma insertNameIn_static_only:
  "static_only n \<Longrightarrow> insertNameIn mode n search route = Inr n' \<Longrightarrow> static_only n'"
proof (induction mode n search route arbitrary: n' rule: insertNameIn.induct)
  case (1 mode n search route)
  note so = "1.prems"(1) and res = "1.prems"(2)
  show ?case
  proof (cases "search = [] \<or> getStaticEdge n (search ! 0) = None")
    case True
    then show ?thesis
      using so res by (subst (asm) insertNameIn.simps) (auto simp: static_only_addStaticEdge split: if_splits)
  next
    case False
    then obtain i child where get: "getStaticEdge n (search ! 0) = Some (i, child)" and ne: "length search \<noteq> 0"
      by auto
    have soc: "static_only child" using static_onlyD(3) [OF so static_childD(2) [OF get]] .
    define k where "k = longestPrefix search (nkey child)"
    show ?thesis
    proof (cases "k = length (nkey child)")
      case True
      then have "(case insertNameIn mode child (drop k search) route of
            Inl e \<Rightarrow> Inl e | Inr newChild \<Rightarrow> Inr (set_nstatics ((nstatics n)[i := newChild]) n)) = Inr n'"
        using res ne get by (subst (asm) insertNameIn.simps) (simp add: k_def [symmetric] Let_def)
      then show ?thesis
        using "1.IH" [OF ne get refl k_def, unfolded fst_conv snd_conv, OF True soc] so
        by (auto simp: static_only_update split: sum.splits)
    next
      case False
      show ?thesis
        using res ne get False so soc
        by (subst (asm) insertNameIn.simps)
          (auto simp: k_def [symmetric] Let_def replaceStaticEdge_eq static_only_update
            static_only_addStaticEdge cut_child_def split: option.splits if_splits)
    qed
  qed
qed

subsection \<open>Search\<close>

lemma under_prefix_None:
  "\<not> has_prefix s l \<Longrightarrow> \<not> has_prefix l s \<Longrightarrow> under l f (s @ t) = []"
proof -
  assume a: "\<not> has_prefix s l" "\<not> has_prefix l s"
  have "\<not> has_prefix (s @ t) l"
  proof
    assume "has_prefix (s @ t) l"
    then obtain u where "s @ t = l @ u" by (auto simp: has_prefix_iff)
    then show False using a by (auto simp: append_eq_append_conv2 has_prefix_iff)
  qed
  then show ?thesis by (rule under_other)
qed

lemma searchName_spec:
  "wf_node n \<Longrightarrow>
     (case searchName n search of
        None \<Rightarrow> (\<forall>t. routes_at n (statics_of search @ t) = [])
      | Some m \<Rightarrow> \<exists>u. (\<forall>t. routes_at n (statics_of (search @ u) @ t) = routes_at m t)
          \<and> (u \<noteq> [] \<longrightarrow> routes_at n (statics_of search) = []) \<and> (search = [] \<longrightarrow> u = []))"
proof (induction n search rule: searchName.induct)
  case (1 n search)
  note wf = "1.prems"
  show ?case
  proof (cases "search = []")
    case True
    then show ?thesis by (subst searchName.simps) simp
  next
    case ne: False
    then have len: "length search \<noteq> 0" by simp
    have hd: "statics_of search @ t = SC (search ! 0) # statics_of (tl search) @ t" for t
      using statics_of_Cons [OF ne] by simp
    show ?thesis
    proof (cases "getStaticEdge n (search ! 0)")
      case None
      then show ?thesis
        using ne hd kids_None(1) [OF None] by (subst searchName.simps) (simp add: routes_at_branch branch_None)
    next
      case (Some p)
      then obtain i child where get: "getStaticEdge n (search ! 0) = Some (i, child)" by (cases p) auto
      have wfc: "wf_node child" using wf_child [OF wf static_childD(1) [OF get]] .
      have at: "routes_at n (statics_of search @ t) = full_view child (statics_of search @ t)" for t
        unfolding hd routes_at_branch using branch_Some [OF kids_Some(1) [OF get]] by simp
      define k where "k = min (length (nkey child)) (length search)"
      consider (differ) "take k search \<noteq> take k (nkey child)"
        | (prefix) "has_prefix search (nkey child)" "k = length (nkey child)"
        | (inside) "has_prefix (nkey child) search" "k = length search" "\<not> has_prefix search (nkey child)"
      proof (cases "has_prefix search (nkey child) \<or> has_prefix (nkey child) search")
        case True
        then show ?thesis
          using has_prefix_length [of search "nkey child"] has_prefix_length [of "nkey child" search] that(2,3)
          by (cases "has_prefix search (nkey child)") (auto simp: k_def min_def)
      next
        case False
        then have "take k search \<noteq> take k (nkey child)"
          by (auto simp: k_def has_prefix_def min_def split: if_splits)
        then show ?thesis by (rule that(1))
      qed
      then show ?thesis
      proof cases
        case differ
        have "\<not> has_prefix search (nkey child)" "\<not> has_prefix (nkey child) search"
          using differ by (auto simp: has_prefix_def k_def min_def split: if_splits)
        then have "routes_at n (statics_of search @ t) = []" for t
          unfolding at by (intro under_prefix_None) simp_all
        then show ?thesis
          using ne get differ by (subst searchName.simps) (simp add: k_def [symmetric] Let_def)
      next
        case prefix
        let ?rest = "drop k search"
        have eqt: "\<not> take k search \<noteq> take k (nkey child)"
          using prefix by (simp add: has_prefix_def)
        have eq: "searchName n search = searchName child ?rest"
          using ne get eqt by (subst searchName.simps) (simp add: k_def [symmetric] Let_def)
        have split: "search = nkey child @ ?rest"
          using has_prefix_drop [OF prefix(1)] prefix(2) by simp
        have below: "routes_at n (statics_of (search @ u) @ t) = routes_at child (statics_of (?rest @ u) @ t)" for u t
        proof -
          have "statics_of search = statics_of (nkey child) @ statics_of ?rest"
            using split by (metis map_append)
          then have "full_view child (statics_of search @ statics_of u @ t) = routes_at child (statics_of (?rest @ u) @ t)"
            by simp
          with at [of "statics_of u @ t"] show ?thesis by simp
        qed
        note IH = "1.IH" [OF len get refl k_def eqt wfc]
        show ?thesis
        proof (cases "searchName child ?rest")
          case None
          then show ?thesis using IH below [of "[]"] by (simp add: eq)
        next
          case (Some m)
          then obtain u where "\<forall>t. routes_at child (statics_of (?rest @ u) @ t) = routes_at m t"
            "u \<noteq> [] \<longrightarrow> routes_at child (statics_of ?rest) = []"
            using IH by auto
          then show ?thesis
            using Some below below [of "[]" "[]"] ne by (auto simp: eq)
        qed
      next
        case inside
        let ?u = "drop k (nkey child)"
        have eqt: "\<not> take k search \<noteq> take k (nkey child)"
          using inside by (simp add: has_prefix_def)
        have found: "searchName n search = Some child"
          using ne get eqt inside(2) by (subst searchName.simps, subst searchName.simps)
            (simp add: k_def [symmetric] Let_def)
        have key: "nkey child = search @ ?u"
          using has_prefix_drop [OF inside(1)] inside(2) by simp
        have "routes_at n (statics_of (search @ ?u) @ t) = routes_at child t" for t
        proof -
          have "statics_of search @ statics_of ?u @ t = statics_of (nkey child) @ t"
            using key by (metis append.assoc map_append)
          then have "full_view child (statics_of search @ statics_of ?u @ t) = routes_at child t"
            by (simp only: under_at)
          with at [of "statics_of ?u @ t"] show ?thesis by simp
        qed
        moreover have "routes_at n (statics_of search) = []"
          using at [of "[]"] inside(3) by (simp add: under_other)
        ultimately show ?thesis
          using ne unfolding found option.case by blast
      qed
    qed
  qed
qed

subsection \<open>The names tree\<close>

definition name_map :: "('c, 'h) route node \<Rightarrow> string \<Rightarrow> ('c, 'h) route option" where
  "name_map n s = (case routes_at n (statics_of s) of [] \<Rightarrow> None | r # _ \<Rightarrow> Some r)"

definition names_ok :: "('c, 'h) route node \<Rightarrow> bool" where
  "names_ok n \<longleftrightarrow> wf_node n \<and> static_only n \<and>
     (\<forall>s. routes_at n (statics_of s) = [] \<or> (\<exists>r. routes_at n (statics_of s) = [r] \<and> rname r = s))"

lemma inj_statics_of: "statics_of a = statics_of b \<longleftrightarrow> a = b"
  by (simp add: inj_map_eq_map)

lemma view_new_node: "routes_at new_node = empty_view"
  by (rule view_empty_node) simp_all

lemma wf_new_node [simp]: "wf_node new_node"
  by (simp add: wf_leaf)

lemma static_only_new_node: "static_only new_node"
  by (rule static_onlyI) simp_all

lemma names_ok_new_node: "names_ok new_node" "name_map new_node = Map.empty"
  by (simp_all add: names_ok_def name_map_def view_new_node static_only_new_node fun_eq_iff)

lemma insertNameIn_names:
  assumes "names_ok n"
  shows "case insertNameIn mode n (rname route) route of
      Inl e \<Rightarrow> mode \<noteq> modeUpdate \<and> (\<exists>r. name_map n (rname route) = Some r \<and> e = RouteNameConflictError route r)
    | Inr n' \<Rightarrow> (mode = modeUpdate \<or> name_map n (rname route) = None) \<and> names_ok n'
        \<and> name_map n' = (name_map n)(rname route \<mapsto> route)"
proof (cases "insertNameIn mode n (rname route) route")
  case (Inl e)
  then show ?thesis
    using insertNameIn_spec [of n mode "rname route" route] assms
    by (auto simp: names_ok_def name_map_def split: list.splits)
next
  case (Inr n')
  with insertNameIn_spec [of n mode "rname route" route] assms
  have spec: "mode = modeUpdate \<or> routes_at n (statics_of (rname route)) = []" "wf_node n'"
      "routes_at n' = (routes_at n)(statics_of (rname route) := [route])"
    by (simp_all add: names_ok_def)
  have "static_only n'"
    using insertNameIn_static_only [OF _ Inr] assms by (simp add: names_ok_def)
  then have "names_ok n'"
    using assms spec(2,3) by (auto simp: names_ok_def inj_statics_of)
  moreover have "name_map n' = (name_map n)(rname route \<mapsto> route)"
    using spec(3) by (auto simp: name_map_def fun_eq_iff inj_statics_of)
  moreover have "mode = modeUpdate \<or> name_map n (rname route) = None"
    using spec(1) by (auto simp: name_map_def)
  ultimately show ?thesis using Inr by simp
qed

lemma deleteNameIn_names:
  assumes "names_ok n"
  shows "case deleteNameIn True n name of
      None \<Rightarrow> name_map n name = None
    | Some n' \<Rightarrow> name_map n name \<noteq> None \<and> names_ok n' \<and> name_map n' = (name_map n)(name := None)"
proof (cases "deleteNameIn True n name")
  case None
  then show ?thesis
    using deleteNameIn_spec [where n = n and is_root = True and search = name] assms by (simp add: names_ok_def name_map_def)
next
  case (Some n')
  with deleteNameIn_spec [where n = n and is_root = True and search = name] assms
  have spec: "routes_at n (statics_of name) \<noteq> []" "static_only n'" "deleted True n (statics_of name) [] n'"
    by (simp_all add: names_ok_def)
  have view: "routes_at n' = (routes_at n)(statics_of name := [])"
    using deleted_plain_view(2) [OF spec(3)] by simp
  have "wf_node n'" using spec(3) by (simp add: deleted_def)
  then have "names_ok n'"
    using assms spec(2) view by (auto simp: names_ok_def inj_statics_of)
  moreover have "name_map n' = (name_map n)(name := None)"
    using view by (auto simp: name_map_def fun_eq_iff inj_statics_of)
  moreover have "name_map n name \<noteq> None"
    using spec(1) by (auto simp: name_map_def split: list.splits)
  ultimately show ?thesis using Some by simp
qed

lemma Name_map:
  assumes "names_ok n"
  shows "Name n name = name_map n name"
proof -
  have wf: "wf_node n" using assms by (simp add: names_ok_def)
  show ?thesis
  proof (cases "searchName n name")
    case None
    with searchName_spec [OF wf, of name] have "\<forall>t. routes_at n (statics_of name @ t) = []" by simp
    then have "routes_at n (statics_of name) = []" by (metis append_Nil2)
    with None show ?thesis by (simp add: Name_def name_map_def)
  next
    case (Some m)
    with searchName_spec [OF wf, of name] obtain u where
        u: "\<forall>t. routes_at n (statics_of (name @ u) @ t) = routes_at m t"
          "u \<noteq> [] \<longrightarrow> routes_at n (statics_of name) = []"
      by auto
    have at: "routes_at n (statics_of (name @ u)) = nroutes m"
      using u(1) [rule_format, of "[]"] by simp
    have "routes_at n (statics_of (name @ u)) = [] \<or>
        (\<exists>r. routes_at n (statics_of (name @ u)) = [r] \<and> rname r = name @ u)"
      using assms unfolding names_ok_def by blast
    then show ?thesis
    proof
      assume "routes_at n (statics_of (name @ u)) = []"
      then show ?thesis
        using at Some u(2) by (cases "u = []") (simp_all add: Name_def name_map_def)
    next
      assume "\<exists>r. routes_at n (statics_of (name @ u)) = [r] \<and> rname r = name @ u"
      then obtain r where "nroutes m = [r]" "rname r = name @ u" using at by auto
      then show ?thesis
        using at Some u(2) by (cases "u = []") (simp_all add: Name_def name_map_def)
    qed
  qed
qed

section \<open>Properties of the names tree\<close>

text \<open>
  C24. Registering a name refines the insertion into a map from names to routes: it fails exactly
  when the name is taken (never in update mode), with the route holding the name in the error, and
  otherwise adds or replaces that one entry and keeps the tree well formed.
\<close>

theorem names_insert_correct:
  assumes "names_ok n"
  shows "case insertNameIn mode n (rname route) route of
      Inl e \<Rightarrow> mode \<noteq> modeUpdate \<and> (\<exists>r. name_map n (rname route) = Some r \<and> e = RouteNameConflictError route r)
    | Inr n' \<Rightarrow> (mode = modeUpdate \<or> name_map n (rname route) = None) \<and> names_ok n'
        \<and> name_map n' = (name_map n)(rname route \<mapsto> route)"
  by (rule insertNameIn_names [OF assms])

definition named_route :: "string \<Rightarrow> (unit, unit) route" where
  "named_route s = (demo_route [''GET''] [] 0)\<lparr>rname := s\<rparr>"

theorem names_insert_witness:
  "\<exists>n. insertNameIn modeInsert new_node ''user'' (named_route ''user'') = Inr n \<and> names_ok n
     \<and> name_map n = [''user'' \<mapsto> named_route ''user'']"
  using names_insert_correct [OF names_ok_new_node(1), of modeInsert "named_route ''user''"]
  by (auto simp: names_ok_new_node named_route_def demo_route_def split: sum.splits)

text \<open>
  C25. Deregistering a name refines the removal from the map: it reports no change exactly when the
  name is absent, and the merging of nodes it performs is invisible.
\<close>

theorem names_delete_correct:
  assumes "names_ok n"
  shows "case deleteNameIn True n name of
      None \<Rightarrow> name_map n name = None
    | Some n' \<Rightarrow> name_map n name \<noteq> None \<and> names_ok n' \<and> name_map n' = (name_map n)(name := None)"
  by (rule deleteNameIn_names [OF assms])

theorem names_delete_witness:
  "names_ok new_node \<and> deleteNameIn True new_node ''user'' = (None :: (unit, unit) route node option)"
  using names_delete_correct [of "new_node :: (unit, unit) route node" "''user''"]
  by (auto simp: names_ok_new_node split: option.splits)

text \<open>
  C26. \<open>Router.Name\<close> returns the route registered under exactly the given name, although \<open>searchName\<close>
  also stops at nodes reached inside a longer key.
\<close>

theorem Name_correct:
  assumes "names_ok n"
  shows "Name n name = name_map n name"
  by (rule Name_map [OF assms])

theorem Name_correct_witness: "Name (new_node :: (unit, unit) route node) ''user'' = None"
  using Name_correct [OF names_ok_new_node(1), of "''user''"] by (simp add: names_ok_new_node)

end
