(* ===== verification/Tree_Insert.thy ===== *)
theory Tree_Insert
  imports Tree_Names
begin

text \<open>
  Insertion and update of a route in the pattern tree (\<open>insertTokens\<close>, \<open>insertStatic\<close>, \<open>insertParam\<close>,
  \<open>insertWildcard\<close>, \<open>insertName\<close>, \<open>deleteName\<close> and \<open>canonicalKey\<close> of \<open>tree.go\<close>). The transaction's tree
  of names is threaded through the recursion, so that the effect of a failed insertion on it is
  visible. The section after the definitions proves that the recursion refines an update of the
  abstract view at the path of the tokens.
\<close>

subsection \<open>Keys of tokens\<close>

text \<open>The callers dispatch on the token's type, so the panic for a static token is never reached.\<close>

definition canonicalKey :: "token \<Rightarrow> string" where
  "canonicalKey tk =
     (case tregexp tk of
        Some re \<Rightarrow> rawExpr re
      | None \<Rightarrow> (case ttyp tk of nodeParam \<Rightarrow> ''?'' | nodeWildcard \<Rightarrow> ''*'' | nodeStatic \<Rightarrow> ''''))"

definition tok_syms :: "token \<Rightarrow> sym list" where
  "tok_syms tk =
     (case ttyp tk of
        nodeStatic \<Rightarrow> statics_of (tvalue tk)
      | nodeParam \<Rightarrow> [SP (canonicalKey tk)]
      | nodeWildcard \<Rightarrow> [SW (canonicalKey tk)])"

definition canon :: "token list \<Rightarrow> sym list" where
  "canon tks = concat (map tok_syms tks)"

lemma canon_simps [simp]:
  "canon [] = []" "canon (tk # tks) = tok_syms tk @ canon tks" "canon (a @ b) = canon a @ canon b"
  by (simp_all add: canon_def)

subsection \<open>Names of routes\<close>

definition insertName ::
  "insertMode \<Rightarrow> ('c, 'h) route node \<Rightarrow> ('c, 'h) route \<Rightarrow> ('c, 'h) route node \<times> ('c, 'h) error option" where
  "insertName mode names route =
     (case insertNameIn mode names (rname route) route of
        Inl e \<Rightarrow> (names, Some e)
      | Inr newRoot \<Rightarrow> (newRoot, None))"

definition deleteName :: "('c, 'h) route node \<Rightarrow> ('c, 'h) route \<Rightarrow> ('c, 'h) route node \<times> bool" where
  "deleteName names route =
     (case deleteNameIn True names (rname route) of
        None \<Rightarrow> (names, False)
      | Some newRoot \<Rightarrow> (newRoot, True))"

subsection \<open>Attaching the route to its leaf\<close>

text \<open>The routes of the leaf that the new route conflicts with, and the two shadowing checks.\<close>

definition conflicting :: "('c, 'h) route \<Rightarrow> ('c, 'h) route \<Rightarrow> bool" where
  "conflicting route r \<longleftrightarrow> matchersEqual r (rmatchers route) \<and> Overlap (rmethods r) (rmethods route)"

definition shadowed_by :: "('c, 'h) route \<Rightarrow> ('c, 'h) route \<Rightarrow> bool" where
  "shadowed_by route r \<longleftrightarrow>
     matchersWithin r (rmatchers route) \<and> (length (rmethods r) = 0 \<or> Overlap (rmethods r) (rmethods route))"

definition shadows :: "('c, 'h) route \<Rightarrow> ('c, 'h) route \<Rightarrow> bool" where
  "shadows route r \<longleftrightarrow>
     optionalCatchAll (rpattern r) \<and> matchersWithin route (rmatchers r) \<and>
     (length (rmethods route) = 0 \<or> Overlap (rmethods route) (rmethods r))"

definition leafInsert ::
  "('c, 'h) route node \<Rightarrow> ('c, 'h) route node option \<Rightarrow> ('c, 'h) route node \<Rightarrow> ('c, 'h) route
   \<Rightarrow> ('c, 'h) route node \<times> (('c, 'h) error + ('c, 'h) route node)" where
  "leafInsert names p n route =
     (let conflicts = (if isLeaf n then filter (conflicting route) (nroutes n) else []) in
      if conflicts \<noteq> [] then (names, Inl (RouteConflictError route conflicts False))
      else
        let conflicts =
          (case p of
             Some parent \<Rightarrow>
               if optionalCatchAll (rpattern route) then filter (shadowed_by route) (nroutes parent) else []
           | None \<Rightarrow> [])
        in if conflicts \<noteq> [] then (names, Inl (RouteConflictError route conflicts True))
        else
          let conflicts = concat (map (\<lambda>wildcard. filter (shadows route) (nroutes wildcard)) (nwildcards n))
          in if conflicts \<noteq> [] then (names, Inl (RouteConflictError route conflicts True))
          else
            (case (if rname route \<noteq> '''' then insertName modeInsert names route else (names, None)) of
               (names', Some e) \<Rightarrow> (names', Inl e)
             | (names', None) \<Rightarrow> (names', Inr (set_nroutes (addRoute (nroutes n) route) n))))"

definition leafUpdate ::
  "('c, 'h) route node \<Rightarrow> ('c, 'h) route node \<Rightarrow> ('c, 'h) route
   \<Rightarrow> ('c, 'h) route node \<times> (('c, 'h) error + ('c, 'h) route node)" where
  "leafUpdate names n route =
     (case index_func (same_route route) (nroutes n) of
        None \<Rightarrow> (names, Inl (RouteNotFoundError route))
      | Some idx \<Rightarrow>
          let oldRoute = nroutes n ! idx;
              nc = set_nroutes (replaceRoute (nroutes n) idx route) n
          in if rname oldRoute \<noteq> '''' then
               if rname route = '''' then (fst (deleteName names oldRoute), Inr nc)
               else if rname oldRoute = rname route then
                 (case insertName modeUpdate names route of
                    (names', Some e) \<Rightarrow> (names', Inl (Panic ''internal error: update name''))
                  | (names', None) \<Rightarrow> (names', Inr nc))
               else
                 (case insertName modeInsert names route of
                    (names', Some e) \<Rightarrow> (names', Inl e)
                  | (names', None) \<Rightarrow> (fst (deleteName names' oldRoute), Inr nc))
             else if rname route \<noteq> '''' then
               (case insertName modeInsert names route of
                  (names', Some e) \<Rightarrow> (names', Inl e)
                | (names', None) \<Rightarrow> (names', Inr nc))
             else (names, Inr nc))"

definition insertLeaf ::
  "insertMode \<Rightarrow> ('c, 'h) route node \<Rightarrow> ('c, 'h) route node option \<Rightarrow> ('c, 'h) route node \<Rightarrow> ('c, 'h) route
   \<Rightarrow> ('c, 'h) route node \<times> (('c, 'h) error + ('c, 'h) route node)" where
  "insertLeaf mode names p n route =
     (case mode of modeInsert \<Rightarrow> leafInsert names p n route | modeUpdate \<Rightarrow> leafUpdate names n route)"

subsection \<open>The descent\<close>

definition weight :: "token list \<Rightarrow> nat" where
  "weight tks = sum_list (map (\<lambda>tk. Suc (length (tvalue tk))) tks)"

definition new_param :: "token \<Rightarrow> 'r node" where
  "new_param tk = Node [] (tregexp tk) (canonicalKey tk) [] [] [] (CHR 0x00) False False"

definition new_wildcard :: "token \<Rightarrow> 'r node" where
  "new_wildcard tk = Node [] (tregexp tk) (canonicalKey tk) [] [] [] (CHR 0x00) False (tnested tk)"

text \<open>
  The Go code links a split node into its parent before it completes it through the pointer; here the
  completed node is linked. The two agree because the label of the split node does not change.
\<close>

function insertTokens ::
    "insertMode \<Rightarrow> ('c, 'h) route node \<Rightarrow> ('c, 'h) route node option \<Rightarrow> ('c, 'h) route node \<Rightarrow> token list
     \<Rightarrow> ('c, 'h) route \<Rightarrow> ('c, 'h) route node \<times> (('c, 'h) error + ('c, 'h) route node)"
  and insertStatic ::
    "insertMode \<Rightarrow> ('c, 'h) route node \<Rightarrow> ('c, 'h) route node option \<Rightarrow> ('c, 'h) route node \<Rightarrow> token \<Rightarrow> token list
     \<Rightarrow> ('c, 'h) route \<Rightarrow> ('c, 'h) route node \<times> (('c, 'h) error + ('c, 'h) route node)"
  and insertParam ::
    "insertMode \<Rightarrow> ('c, 'h) route node \<Rightarrow> ('c, 'h) route node \<Rightarrow> token \<Rightarrow> token list
     \<Rightarrow> ('c, 'h) route \<Rightarrow> ('c, 'h) route node \<times> (('c, 'h) error + ('c, 'h) route node)"
  and insertWildcard ::
    "insertMode \<Rightarrow> ('c, 'h) route node \<Rightarrow> ('c, 'h) route node \<Rightarrow> token \<Rightarrow> token list
     \<Rightarrow> ('c, 'h) route \<Rightarrow> ('c, 'h) route node \<times> (('c, 'h) error + ('c, 'h) route node)"
where
  "insertTokens mode names p n tokens route =
     (case tokens of
        [] \<Rightarrow> insertLeaf mode names p n route
      | tk # remaining \<Rightarrow>
          (case ttyp tk of
             nodeStatic \<Rightarrow> insertStatic mode names p n tk remaining route
           | nodeParam \<Rightarrow> insertParam mode names n tk remaining route
           | nodeWildcard \<Rightarrow> insertWildcard mode names n tk remaining route))"
| "insertStatic mode names p n tk remaining route =
     (let search = tvalue tk in
      if length search = 0 then insertTokens mode names p n remaining route
      else
        (case getStaticEdge n (search ! 0) of
           None \<Rightarrow>
             if mode = modeUpdate then (names, Inl (RouteNotFoundError route))
             else
               (case insertTokens mode names (Some n) (new_static search (thsplit tk)) remaining route of
                  (names', Inl e) \<Rightarrow> (names', Inl e)
                | (names', Inr newChild) \<Rightarrow> (names', Inr (addStaticEdge n newChild)))
         | Some (idx, child) \<Rightarrow>
             let commonPrefix = longestPrefix search (nkey child) in
             if commonPrefix = length (nkey child) then
               (case insertTokens mode names (Some n) child
                       (\<lparr>tregexp = None, tvalue = drop commonPrefix search, ttyp = nodeStatic,
                         tnested = False, thsplit = thsplit tk\<rparr> # remaining) route of
                  (names', Inl e) \<Rightarrow> (names', Inl e)
                | (names', Inr newChild) \<Rightarrow> (names', Inr (set_nstatics ((nstatics n)[idx := newChild]) n)))
             else if mode = modeUpdate then (names, Inl (RouteNotFoundError route))
             else
               let splitNode = new_static (take commonPrefix search) (thsplit tk);
                   search = drop commonPrefix search;
                   modChild = cut_child commonPrefix child;
                   link = (\<lambda>(names', nc). (case nc of
                     None \<Rightarrow> (names', Inl (Panic ''internal error: replacing missing edge''))
                   | Some nc \<Rightarrow> (names', Inr nc)))
               in if length search = 0 then
                    if 0 < length remaining then
                      (case insertTokens mode names (Some n) splitNode remaining route of
                         (names', Inl e) \<Rightarrow> (names', Inl e)
                       | (names', Inr newSplitNode) \<Rightarrow>
                           link (names', replaceStaticEdge n (addStaticEdge newSplitNode modChild)))
                    else
                      (case (if rname route \<noteq> '''' then insertName modeInsert names route else (names, None)) of
                         (names', Some e) \<Rightarrow> (names', Inl e)
                       | (names', None) \<Rightarrow>
                           link (names', replaceStaticEdge n
                             (set_nroutes [route] (addStaticEdge splitNode modChild))))
                  else
                    (case insertTokens mode names (Some n) (new_static search (thsplit tk)) remaining route of
                       (names', Inl e) \<Rightarrow> (names', Inl e)
                     | (names', Inr newChild) \<Rightarrow>
                         link (names', replaceStaticEdge n
                           (addStaticEdge (addStaticEdge splitNode modChild) newChild)))))"
| "insertParam mode names n tk remaining route =
     (let key = canonicalKey tk in
      (case getParamEdge n key of
         None \<Rightarrow>
           if mode = modeUpdate then (names, Inl (RouteNotFoundError route))
           else
             (case insertTokens mode names (Some n) (new_param tk) remaining route of
                (names', Inl e) \<Rightarrow> (names', Inl e)
              | (names', Inr newChild) \<Rightarrow> (names', Inr (addParamEdge n newChild)))
       | Some (idx, child) \<Rightarrow>
           (case insertTokens mode names (Some n) child remaining route of
              (names', Inl e) \<Rightarrow> (names', Inl e)
            | (names', Inr newChild) \<Rightarrow> (names', Inr (set_nparams ((nparams n)[idx := newChild]) n)))))"
| "insertWildcard mode names n tk remaining route =
     (let key = canonicalKey tk in
      (case getWildcardEdge n key of
         None \<Rightarrow>
           if mode = modeUpdate then (names, Inl (RouteNotFoundError route))
           else
             (case insertTokens mode names (Some n) (new_wildcard tk) remaining route of
                (names', Inl e) \<Rightarrow> (names', Inl e)
              | (names', Inr newChild) \<Rightarrow> (names', Inr (addWildcardEdge n newChild)))
       | Some (idx, child) \<Rightarrow>
           (case insertTokens mode names (Some n) child remaining route of
              (names', Inl e) \<Rightarrow> (names', Inl e)
            | (names', Inr newChild) \<Rightarrow> (names', Inr (set_nwildcards ((nwildcards n)[idx := newChild]) n)))))"
  by pat_completeness auto
termination
  by (relation "measures
      [\<lambda>x. case x of Inl (Inl (_, _, _, _, tks, _)) \<Rightarrow> weight tks
                   | Inl (Inr (_, _, _, _, tk, tks, _)) \<Rightarrow> weight (tk # tks)
                   | Inr (Inl (_, _, _, tk, tks, _)) \<Rightarrow> weight (tk # tks)
                   | Inr (Inr (_, _, _, tk, tks, _)) \<Rightarrow> weight (tk # tks),
       \<lambda>x. case x of Inl (Inl (_, _, _, n, _, _)) \<Rightarrow> size n
                   | Inl (Inr (_, _, _, n, _, _, _)) \<Rightarrow> size n
                   | Inr (Inl (_, _, n, _, _, _)) \<Rightarrow> size n
                   | Inr (Inr (_, _, n, _, _, _)) \<Rightarrow> size n,
       \<lambda>x. case x of Inl (Inl _) \<Rightarrow> Suc 0 | _ \<Rightarrow> 0]")
    (auto simp: weight_def dest: static_childD param_childD wildcard_childD intro: child_size)

declare insertTokens.simps [simp del] insertStatic.simps [simp del] insertParam.simps [simp del]
  insertWildcard.simps [simp del]

section \<open>The recursion refines an update of the view\<close>

subsection \<open>Host and path regions\<close>

text \<open>
  Below a node of the hostname region a static child either starts the path (its key starts with a
  slash), or continues the hostname: its key has no slash and it is marked \<open>host\<close>. \<open>toks_ok\<close> says the
  same of the tokens the parser produces: two adjacent static tokens occur at the boundary only.
\<close>

abbreviation path_key :: "string \<Rightarrow> bool" where "path_key k \<equiv> has_prefix k ''/''"

function host_ok :: "'r node \<Rightarrow> bool" where
  "host_ok n \<longleftrightarrow>
     (\<forall>c \<in> set (nstatics n). path_key (nkey c) \<or> slashDelim \<notin> set (nkey c) \<and> nhost c \<and> host_ok c)
     \<and> (\<forall>c \<in> set (nparams n). host_ok c) \<and> (\<forall>c \<in> set (nwildcards n). host_ok c)"
  by auto
termination
  by (relation "measure size") (auto intro: child_size)

declare host_ok.simps [simp del]

fun toks_ok :: "bool \<Rightarrow> token list \<Rightarrow> bool" where
  "toks_ok h [] = True"
| "toks_ok h (tk # tks) =
     (if ttyp tk = nodeStatic then
        let next_static = (case tks of t # _ \<Rightarrow> ttyp t = nodeStatic | [] \<Rightarrow> False) in
        if h \<and> \<not> path_key (tvalue tk) then
          slashDelim \<notin> set (tvalue tk) \<and> thsplit tk \<and>
          (next_static \<longrightarrow> path_key (tvalue (hd tks))) \<and> toks_ok True tks
        else \<not> next_static \<and> toks_ok False tks
      else toks_ok h tks)"

definition static_host :: "'r node \<Rightarrow> bool" where
  "static_host c \<longleftrightarrow> path_key (nkey c) \<or> slashDelim \<notin> set (nkey c) \<and> nhost c \<and> host_ok c"

definition tree_ok :: "bool \<Rightarrow> 'r node \<Rightarrow> bool" where
  "tree_ok h n \<longleftrightarrow> wf_node n \<and> (h \<longrightarrow> host_ok n)"

definition child_ok :: "bool \<Rightarrow> 'r node \<Rightarrow> bool" where
  "child_ok h c \<longleftrightarrow> static_ok c \<and> (h \<longrightarrow> static_host c)"

lemma host_okI:
  "(\<And>c. c \<in> set (nstatics n) \<Longrightarrow> static_host c) \<Longrightarrow> (\<And>c. c \<in> set (nparams n) \<Longrightarrow> host_ok c) \<Longrightarrow>
     (\<And>c. c \<in> set (nwildcards n) \<Longrightarrow> host_ok c) \<Longrightarrow> host_ok n"
  using host_ok.simps [of n] by (simp add: static_host_def)

lemma host_okD:
  "host_ok n \<Longrightarrow> c \<in> set (nstatics n) \<Longrightarrow> static_host c"
  "host_ok n \<Longrightarrow> c \<in> set (nparams n) \<Longrightarrow> host_ok c"
  "host_ok n \<Longrightarrow> c \<in> set (nwildcards n) \<Longrightarrow> host_ok c"
  using host_ok.simps [of n] by (simp_all add: static_host_def)

lemma host_ok_leaf: "nstatics n = [] \<Longrightarrow> nparams n = [] \<Longrightarrow> nwildcards n = [] \<Longrightarrow> host_ok n"
  by (rule host_okI) simp_all

lemma tree_ok_wf: "tree_ok h n \<Longrightarrow> wf_node n"
  by (simp add: tree_ok_def)

lemma tree_ok_leaf: "nstatics n = [] \<Longrightarrow> nparams n = [] \<Longrightarrow> nwildcards n = [] \<Longrightarrow> tree_ok h n"
  by (simp add: tree_ok_def wf_leaf host_ok_leaf)

definition host_kids :: "'r node \<Rightarrow> bool" where
  "host_kids n \<longleftrightarrow> (\<forall>c \<in> set (nstatics n). static_host c) \<and> (\<forall>c \<in> set (nparams n). host_ok c)
     \<and> (\<forall>c \<in> set (nwildcards n). host_ok c)"

lemma tree_ok_iff: "tree_ok h n \<longleftrightarrow> wf_node n \<and> (h \<longrightarrow> host_kids n)"
  using host_ok.simps [of n] by (simp add: tree_ok_def host_kids_def static_host_def)

lemma param_label: "wf_node n \<Longrightarrow> getParamEdge n k = Some (i, c) \<Longrightarrow> nlabel c = CHR 0x00"
  using wf_nodeD(5) [of n c] param_childD(2) [of n k i c] by simp

lemma wildcard_label: "wf_node n \<Longrightarrow> getWildcardEdge n k = Some (i, c) \<Longrightarrow> nlabel c = CHR 0x00"
  using wf_nodeD(6) [of n c] wildcard_childD(2) [of n k i c] by simp

lemma tree_ok_kids: "tree_ok h n \<Longrightarrow> h \<Longrightarrow> host_kids n"
  by (simp add: tree_ok_iff)

lemma tree_ok_host: "tree_ok h n \<Longrightarrow> h \<Longrightarrow> host_ok n"
  by (simp add: tree_ok_def)

lemma tree_ok_static:
  assumes "tree_ok h n" "getStaticEdge n c = Some (i, child)"
  shows "child_ok h child" "tree_ok (h \<and> \<not> path_key (nkey child)) child"
proof -
  have "static_ok child"
    using static_ok_child [OF tree_ok_wf [OF assms(1)] static_childD(2) [OF assms(2)]] .
  moreover have "h \<longrightarrow> static_host child"
    using assms(1) static_childD(2) [OF assms(2)] by (simp add: tree_ok_iff host_kids_def)
  ultimately show "child_ok h child" "tree_ok (h \<and> \<not> path_key (nkey child)) child"
    by (auto simp: child_ok_def tree_ok_def static_host_def static_ok_def)
qed

lemma tree_ok_param:
  assumes "tree_ok h n" "getParamEdge n k = Some (i, child)"
  shows "tree_ok h child"
  using assms(1) wf_child [OF tree_ok_wf [OF assms(1)] param_childD(1) [OF assms(2)]] param_childD(2) [OF assms(2)]
  by (simp add: tree_ok_iff [of h n] tree_ok_def [of h child] host_kids_def)

lemma tree_ok_wildcard:
  assumes "tree_ok h n" "getWildcardEdge n k = Some (i, child)"
  shows "tree_ok h child"
  using assms(1) wf_child [OF tree_ok_wf [OF assms(1)] wildcard_childD(1) [OF assms(2)]] wildcard_childD(2) [OF assms(2)]
  by (simp add: tree_ok_iff [of h n] tree_ok_def [of h child] host_kids_def)

lemma child_ok_update:
  assumes "child_ok h child" "tree_ok (h \<and> \<not> path_key (nkey child)) c'" "info c' = info child"
  shows "child_ok h c'"
  using assms by (auto simp: child_ok_def tree_ok_def static_ok_def static_host_def info_def)

lemma tree_ok_set_nroutes [simp]: "tree_ok h (set_nroutes rs n) = tree_ok h n"
  using host_ok.simps [of n] host_ok.simps [of "set_nroutes rs n"] by (simp add: tree_ok_def)

lemma host_ok_set_nkey [simp]: "host_ok (set_nkey l k n) = host_ok n"
  using host_ok.simps [of n] host_ok.simps [of "set_nkey l k n"] by simp

lemma host_kids_statics:
  assumes "host_kids n" "set ss \<subseteq> insert c (set (nstatics n))" "static_host c"
  shows "host_kids (set_nstatics ss n)"
  using assms by (auto simp: host_kids_def)

lemma host_kids_params:
  assumes "host_kids n" "set ps \<subseteq> insert c (set (nparams n))" "host_ok c"
  shows "host_kids (set_nparams ps n)"
  using assms by (auto simp: host_kids_def)

lemma host_kids_wildcards:
  assumes "host_kids n" "set ws \<subseteq> insert c (set (nwildcards n))" "host_ok c"
  shows "host_kids (set_nwildcards ws n)"
  using assms by (auto simp: host_kids_def)

lemma tree_ok_addStatic:
  assumes "tree_ok h n" "child_ok h ch" "getStaticEdge n (nlabel ch) = None"
  shows "tree_ok h (addStaticEdge n ch)"
proof -
  have "wf_node (addStaticEdge n ch)"
    using assms by (intro wf_addStaticEdge) (auto simp: tree_ok_def child_ok_def)
  moreover have "h \<Longrightarrow> host_kids (addStaticEdge n ch)"
    unfolding addStaticEdge_def using assms(1,2)
    by (intro host_kids_statics [OF _ set_add_static]) (simp_all add: tree_ok_iff child_ok_def)
  ultimately show ?thesis by (simp add: tree_ok_iff)
qed

lemma tree_ok_updStatic:
  assumes "tree_ok h n" "child_ok h ch" "getStaticEdge n c = Some (i, old)" "nlabel ch = c"
  shows "tree_ok h (set_nstatics ((nstatics n)[i := ch]) n)"
proof -
  have "wf_node (set_nstatics ((nstatics n)[i := ch]) n)"
    using assms by (intro wf_updStatic) (auto simp: tree_ok_def child_ok_def)
  moreover have "h \<Longrightarrow> host_kids (set_nstatics ((nstatics n)[i := ch]) n)"
    using assms(1,2)
    by (intro host_kids_statics [OF _ set_update_subset_insert]) (simp_all add: tree_ok_iff child_ok_def)
  ultimately show ?thesis by (simp add: tree_ok_iff)
qed

lemma tree_ok_addParam:
  assumes "tree_ok h n" "tree_ok h ch" "getParamEdge n (nkey ch) = None" "nlabel ch = CHR 0x00"
  shows "tree_ok h (addParamEdge n ch)"
proof -
  have wf: "wf_node n" "wf_node ch" using assms(1,2) by (simp_all add: tree_ok_def)
  have "set (add_keyed ''?'' (nparams n) ch) \<subseteq> insert ch (set (nparams n))"
    using ke.set_add [OF wf_nodeD(2) [OF wf(1)]] by simp
  then have "h \<Longrightarrow> host_kids (addParamEdge n ch)"
    unfolding addParamEdge_def using assms(1,2)
    by (elim host_kids_params [rotated]) (simp_all add: tree_ok_kids tree_ok_host)
  with wf_addParamEdge [OF wf assms(3,4)] show ?thesis by (simp add: tree_ok_iff)
qed

lemma tree_ok_updParam:
  assumes "tree_ok h n" "tree_ok h ch" "getParamEdge n k = Some (i, old)" "nkey ch = k" "nlabel ch = CHR 0x00"
  shows "tree_ok h (set_nparams ((nparams n)[i := ch]) n)"
proof -
  have wf: "wf_node n" "wf_node ch" using assms(1,2) by (simp_all add: tree_ok_def)
  have "h \<Longrightarrow> host_kids (set_nparams ((nparams n)[i := ch]) n)"
    using assms(1,2)
    by (intro host_kids_params [OF _ set_update_subset_insert])
      (simp_all add: tree_ok_kids tree_ok_host)
  with wf_updParam [OF wf assms(3-5)] show ?thesis by (simp add: tree_ok_iff)
qed

lemma tree_ok_addWildcard:
  assumes "tree_ok h n" "tree_ok h ch" "getWildcardEdge n (nkey ch) = None" "nlabel ch = CHR 0x00"
  shows "tree_ok h (addWildcardEdge n ch)"
proof -
  have wf: "wf_node n" "wf_node ch" using assms(1,2) by (simp_all add: tree_ok_def)
  have "set (add_keyed ''*'' (nwildcards n) ch) \<subseteq> insert ch (set (nwildcards n))"
    using ke.set_add [OF wf_nodeD(3) [OF wf(1)]] by simp
  then have "h \<Longrightarrow> host_kids (addWildcardEdge n ch)"
    unfolding addWildcardEdge_def using assms(1,2)
    by (elim host_kids_wildcards [rotated]) (simp_all add: tree_ok_kids tree_ok_host)
  with wf_addWildcardEdge [OF wf assms(3,4)] show ?thesis by (simp add: tree_ok_iff)
qed

lemma tree_ok_updWildcard:
  assumes "tree_ok h n" "tree_ok h ch" "getWildcardEdge n k = Some (i, old)" "nkey ch = k" "nlabel ch = CHR 0x00"
  shows "tree_ok h (set_nwildcards ((nwildcards n)[i := ch]) n)"
proof -
  have wf: "wf_node n" "wf_node ch" using assms(1,2) by (simp_all add: tree_ok_def)
  have "h \<Longrightarrow> host_kids (set_nwildcards ((nwildcards n)[i := ch]) n)"
    using assms(1,2)
    by (intro host_kids_wildcards [OF _ set_update_subset_insert])
      (simp_all add: tree_ok_kids tree_ok_host)
  with wf_updWildcard [OF wf assms(3-5)] show ?thesis by (simp add: tree_ok_iff)
qed

subsection \<open>What a step of the descent keeps\<close>

definition keeps :: "bool \<Rightarrow> 'r node \<Rightarrow> sym list \<Rightarrow> 'r list \<Rightarrow> 'r node \<Rightarrow> bool" where
  "keeps h n s v n' \<longleftrightarrow>
     tree_ok h n' \<and> info n' = info n \<and> routes_at n' = (routes_at n)(s := v)
     \<and> (\<forall>y. s = [] \<or> y \<noteq> hd s \<longrightarrow> kids n' y = kids n y)"

lemma keepsD:
  assumes "keeps h n s v n'"
  shows "tree_ok h n'" "info n' = info n" "routes_at n' = (routes_at n)(s := v)"
    "s = [] \<or> y \<noteq> hd s \<Longrightarrow> kids n' y = kids n y"
  using assms by (auto simp: keeps_def)

lemma keeps_leaf: "tree_ok h n \<Longrightarrow> keeps h n [] rs (set_nroutes rs n)"
  by (simp add: keeps_def routes_at_set_nroutes)

lemma infoD: "info c' = info c \<Longrightarrow> nkey c' = nkey c \<and> nlabel c' = nlabel c \<and> nhost c' = nhost c"
  by (simp add: info_def)

lemma keeps_add_static:
  assumes ok: "tree_ok h n" and get: "getStaticEdge n (search ! 0) = None" and ne: "search \<noteq> []"
    and c': "keeps (h \<and> \<not> path_key search) (new_static search host) t v c'"
    and hst: "h \<and> \<not> path_key search \<Longrightarrow> slashDelim \<notin> set search \<and> host"
  shows "keeps h n (statics_of search @ t) v (addStaticEdge n c')"
proof -
  note k = keepsD [OF c']
  have inf: "nkey c' = search" "nlabel c' = search ! 0" "nhost c' = host"
    using infoD [OF k(2)] by simp_all
  have get': "getStaticEdge n (nlabel c') = None" using get inf by simp
  have wf: "wf_node n" using tree_ok_wf [OF ok] .
  have "static_host c'" if h
    using that k(1) inf hst by (cases "path_key search") (simp_all add: static_host_def tree_ok_def)
  then have "child_ok h c'"
    using tree_ok_wf [OF k(1)] inf ne by (simp add: child_ok_def static_ok_def hd_conv_nth)
  then have "tree_ok h (addStaticEdge n c')"
    using tree_ok_addStatic [OF ok _ get'] by simp
  moreover have "routes_at (addStaticEdge n c') = (routes_at n)(statics_of (nkey c') @ t := v)"
    by (rule view_add_static [OF wf get']) (use inf ne k(3) in simp_all)
  moreover have "hd (statics_of search @ t) = SC (search ! 0)"
    using ne by (cases search) simp_all
  then have "\<forall>y. y \<noteq> hd (statics_of search @ t) \<longrightarrow> kids (addStaticEdge n c') y = kids n y"
    using kids_addStaticEdge [OF wf_edges [OF wf] get'] inf by simp
  ultimately show ?thesis using inf ne by (simp add: keeps_def)
qed

lemma keeps_upd_static:
  assumes ok: "tree_ok h n" and get: "getStaticEdge n c = Some (i, child)"
    and c': "keeps (h \<and> \<not> path_key (nkey child)) child t v c'"
  shows "keeps h n (statics_of (nkey child) @ t) v (set_nstatics ((nstatics n)[i := c']) n)"
proof -
  note k = keepsD [OF c']
  have wf: "wf_node n" using tree_ok_wf [OF ok] .
  obtain kk where kk: "nkey child = c # kk" using static_keyD [OF wf_edges [OF wf] get] by blast
  have inf: "nkey c' = nkey child" "nlabel c' = c"
    using infoD [OF k(2)] static_childD(4) [OF get] by simp_all
  have "child_ok h c'" by (rule child_ok_update [OF tree_ok_static(1) [OF ok get] k(1,2)])
  then have "tree_ok h (set_nstatics ((nstatics n)[i := c']) n)"
    by (rule tree_ok_updStatic [OF ok _ get inf(2)])
  moreover have "\<forall>y. y \<noteq> SC c \<longrightarrow> kids (set_nstatics ((nstatics n)[i := c']) n) y = kids n y"
    using kids_updStatic [OF wf_edges [OF wf] get inf(2)] by simp
  ultimately show ?thesis
    using view_upd_static [OF wf get inf(2,1) k(3)] kk by (simp add: keeps_def)
qed

lemma keeps_split:
  assumes ok: "tree_ok h n" and get: "getStaticEdge n c = Some (i, child)"
    and k: "0 < k" "k < length (nkey child)"
    and sp: "child_ok h sp" "nlabel sp = c" "nkey sp = take k (nkey child)"
    and view: "routes_at sp = (under (statics_of (drop k (nkey child))) (routes_at child))(t := v)"
  shows "keeps h n (statics_of (take k (nkey child)) @ t) v (set_nstatics ((nstatics n)[i := sp]) n)"
proof -
  have wf: "wf_node n" using tree_ok_wf [OF ok] .
  obtain kk where kk: "nkey child = c # kk" using static_keyD [OF wf_edges [OF wf] get] by blast
  have "tree_ok h (set_nstatics ((nstatics n)[i := sp]) n)"
    by (rule tree_ok_updStatic [OF ok sp(1) get sp(2)])
  moreover have "\<forall>y. y \<noteq> SC c \<longrightarrow> kids (set_nstatics ((nstatics n)[i := sp]) n) y = kids n y"
    using kids_updStatic [OF wf_edges [OF wf] get sp(2)] by simp
  moreover have "hd (statics_of (take k (nkey child)) @ t) = SC c"
    using kk k by (cases k) simp_all
  ultimately show ?thesis
    using view_split_static [OF wf get sp(2,3) _ k(2) view] k sp(3) by (auto simp: keeps_def)
qed

lemma keeps_add_param:
  assumes ok: "tree_ok h n" and get: "getParamEdge n key = None"
    and c0: "nkey c0 = key" "routes_at c0 = empty_view" "nlabel c0 = CHR 0x00" and c': "keeps h c0 t v c'"
  shows "keeps h n (SP key # t) v (addParamEdge n c')"
proof -
  note k = keepsD [OF c']
  have key: "nkey c' = key" and lab: "nlabel c' = CHR 0x00" using infoD [OF k(2)] c0 by simp_all
  have get': "getParamEdge n (nkey c') = None" using get key by simp
  note kids = kids_addParamEdge [OF wf_edges [OF tree_ok_wf [OF ok]] get']
  have "routes_at (addParamEdge n c') = (routes_at n)(SP key # [] @ t := v)"
    by (rule view_new_child) (use kids kids_None(2) [OF get] k(3) c0(2) key in \<open>simp_all add: addParamEdge_def\<close>)
  then show ?thesis
    using tree_ok_addParam [OF ok k(1) get' lab] kids key by (simp add: keeps_def)
qed

lemma keeps_upd_param:
  assumes ok: "tree_ok h n" and get: "getParamEdge n key = Some (i, child)" and c': "keeps h child t v c'"
  shows "keeps h n (SP key # t) v (set_nparams ((nparams n)[i := c']) n)"
proof -
  note k = keepsD [OF c']
  have key: "nkey c' = key" using infoD [OF k(2)] param_childD(4) [OF get] by simp
  have lab: "nlabel c' = CHR 0x00" using infoD [OF k(2)] param_label [OF tree_ok_wf [OF ok] get] by simp
  note kids = kids_updParam [OF wf_edges [OF tree_ok_wf [OF ok]] get key]
  have "routes_at (set_nparams ((nparams n)[i := c']) n) = (routes_at n)(SP key # [] @ t := v)"
    by (rule view_changed_child [OF _ _ _ k(3)]) (use kids kids_Some(2) [OF get] in simp_all)
  then show ?thesis
    using tree_ok_updParam [OF ok k(1) get key lab] kids by (simp add: keeps_def)
qed

lemma keeps_add_wildcard:
  assumes ok: "tree_ok h n" and get: "getWildcardEdge n key = None"
    and c0: "nkey c0 = key" "routes_at c0 = empty_view" "nlabel c0 = CHR 0x00" and c': "keeps h c0 t v c'"
  shows "keeps h n (SW key # t) v (addWildcardEdge n c')"
proof -
  note k = keepsD [OF c']
  have key: "nkey c' = key" and lab: "nlabel c' = CHR 0x00" using infoD [OF k(2)] c0 by simp_all
  have get': "getWildcardEdge n (nkey c') = None" using get key by simp
  note kids = kids_addWildcardEdge [OF wf_edges [OF tree_ok_wf [OF ok]] get']
  have "routes_at (addWildcardEdge n c') = (routes_at n)(SW key # [] @ t := v)"
    by (rule view_new_child) (use kids kids_None(3) [OF get] k(3) c0(2) key in \<open>simp_all add: addWildcardEdge_def\<close>)
  then show ?thesis
    using tree_ok_addWildcard [OF ok k(1) get' lab] kids key by (simp add: keeps_def)
qed

lemma keeps_upd_wildcard:
  assumes ok: "tree_ok h n" and get: "getWildcardEdge n key = Some (i, child)" and c': "keeps h child t v c'"
  shows "keeps h n (SW key # t) v (set_nwildcards ((nwildcards n)[i := c']) n)"
proof -
  note k = keepsD [OF c']
  have key: "nkey c' = key" using infoD [OF k(2)] wildcard_childD(4) [OF get] by simp
  have lab: "nlabel c' = CHR 0x00" using infoD [OF k(2)] wildcard_label [OF tree_ok_wf [OF ok] get] by simp
  note kids = kids_updWildcard [OF wf_edges [OF tree_ok_wf [OF ok]] get key]
  have "routes_at (set_nwildcards ((nwildcards n)[i := c']) n) = (routes_at n)(SW key # [] @ t := v)"
    by (rule view_changed_child [OF _ _ _ k(3)]) (use kids kids_Some(3) [OF get] in simp_all)
  then show ?thesis
    using tree_ok_updWildcard [OF ok k(1) get key lab] kids by (simp add: keeps_def)
qed

subsection \<open>The leaf that the tokens reach\<close>

text \<open>
  \<open>leaf_at p n toks p0 n0\<close>: as far as the leaf operation can tell, the descent from \<open>n\<close> (with parent
  \<open>p\<close>) along \<open>toks\<close> reaches \<open>n0\<close> with parent \<open>p0\<close>.
\<close>

definition wild_routes :: "'r view \<Rightarrow> sym list \<Rightarrow> 'r set" where
  "wild_routes V s = (\<Union>k. set (V (s @ [SW k])))"

definition leaf_at :: "'r node option \<Rightarrow> 'r node \<Rightarrow> token list \<Rightarrow> 'r node option \<Rightarrow> 'r node \<Rightarrow> bool" where
  "leaf_at p n toks p0 n0 \<longleftrightarrow>
     nroutes n0 = routes_at n (canon toks)
     \<and> (\<Union>w \<in> set (nwildcards n0). set (nroutes w)) = wild_routes (routes_at n) (canon toks)
     \<and> (toks \<noteq> [] \<and> ttyp (last toks) = nodeWildcard \<longrightarrow>
          (\<exists>q. p0 = Some q \<and> nroutes q = routes_at n (canon (butlast toks))))
     \<and> (toks = [] \<longrightarrow> p0 = p)"

lemma wild_routes_here:
  assumes "wf_node n"
  shows "(\<Union>w \<in> set (nwildcards n). set (nroutes w)) = wild_routes (routes_at n) []"
proof -
  have at: "routes_at n [SW k] = (case ke.look (nwildcards n) k of None \<Rightarrow> [] | Some w \<Rightarrow> nroutes w)" for k
    by (auto simp: routes_at_branch branch_def kids_look under_def split: option.splits)
  note look = ke.look_iff [OF wf_nodeD(3) [OF assms]]
  show ?thesis
  proof (intro equalityI subsetI)
    fix r assume "r \<in> (\<Union>w \<in> set (nwildcards n). set (nroutes w))"
    then obtain w where "w \<in> set (nwildcards n)" "r \<in> set (nroutes w)" by auto
    then have "r \<in> set (routes_at n [SW (nkey w)])" using look [of "nkey w" w] by (simp add: at)
    then show "r \<in> wild_routes (routes_at n) []" by (auto simp: wild_routes_def)
  next
    fix r assume "r \<in> wild_routes (routes_at n) []"
    then obtain k where "r \<in> set (routes_at n [SW k])" by (auto simp: wild_routes_def)
    then obtain w where "ke.look (nwildcards n) k = Some w" "r \<in> set (nroutes w)"
      by (cases "ke.look (nwildcards n) k") (auto simp: at)
    then show "r \<in> (\<Union>w \<in> set (nwildcards n). set (nroutes w))"
      using look [of k w] by auto
  qed
qed

lemma leaf_at_here: "wf_node n \<Longrightarrow> leaf_at p n [] p n"
  by (simp add: leaf_at_def wild_routes_here)

lemma canon_butlast: "toks \<noteq> [] \<Longrightarrow> canon (butlast toks) \<noteq> [] \<Longrightarrow> hd (canon (butlast toks)) = hd (canon toks)"
  by (metis append_butlast_last_id canon_simps(3) hd_append2)

lemma leaf_at_descend:
  assumes leaf: "leaf_at p' c toks' p0 n0" and canon: "canon toks = l @ canon toks'" and ne: "toks \<noteq> []"
    and view: "\<And>s. (s \<noteq> [] \<Longrightarrow> canon toks' \<noteq> [] \<and> hd s = hd (canon toks') \<or> (\<exists>k. hd s = SW k)) \<Longrightarrow>
        routes_at n (l @ s) = routes_at c s"
    and lst: "ttyp (last toks) = nodeWildcard \<Longrightarrow>
        (toks' = [] \<longrightarrow> (\<exists>q. p' = Some q \<and> nroutes q = routes_at n (canon (butlast toks))))
        \<and> (toks' \<noteq> [] \<longrightarrow> ttyp (last toks') = nodeWildcard \<and> canon (butlast toks) = l @ canon (butlast toks'))"
  shows "leaf_at p n toks p0 n0"
proof -
  have here: "routes_at n (canon toks) = routes_at c (canon toks')"
    unfolding canon by (rule view) simp
  have wild: "routes_at n (canon toks @ [SW k]) = routes_at c (canon toks' @ [SW k])" for k
  proof -
    have "routes_at n (l @ (canon toks' @ [SW k])) = routes_at c (canon toks' @ [SW k])"
      by (rule view) (cases "canon toks'", simp_all)
    then show ?thesis by (simp add: canon)
  qed
  have parent: "\<exists>q. p0 = Some q \<and> nroutes q = routes_at n (canon (butlast toks))"
    if w: "ttyp (last toks) = nodeWildcard"
  proof (cases "toks' = []")
    case True
    then have "p0 = p'" using leaf by (simp add: leaf_at_def)
    with lst [OF w] True show ?thesis by simp
  next
    case False
    with lst [OF w] have "ttyp (last toks') = nodeWildcard" and eq: "canon (butlast toks) = l @ canon (butlast toks')"
      by auto
    with leaf False obtain q where q: "p0 = Some q" "nroutes q = routes_at c (canon (butlast toks'))"
      by (auto simp: leaf_at_def)
    have "routes_at n (l @ canon (butlast toks')) = routes_at c (canon (butlast toks'))"
    proof (rule view)
      assume "canon (butlast toks') \<noteq> []"
      moreover from this have "canon toks' \<noteq> []"
        using False by (metis append_butlast_last_id append_is_Nil_conv canon_simps(3))
      ultimately show "canon toks' \<noteq> [] \<and> hd (canon (butlast toks')) = hd (canon toks') \<or> (\<exists>k. hd (canon (butlast toks')) = SW k)"
        using canon_butlast [OF False] by simp
    qed
    with q eq show ?thesis by simp
  qed
  show ?thesis
    using leaf ne here wild parent by (simp add: leaf_at_def wild_routes_def)
qed

definition outcome ::
  "bool \<Rightarrow> insertMode \<Rightarrow> ('c, 'h) route node \<Rightarrow> ('c, 'h) route node option \<Rightarrow> ('c, 'h) route node \<Rightarrow> token list
   \<Rightarrow> ('c, 'h) route \<Rightarrow> ('c, 'h) route node \<times> (('c, 'h) error + ('c, 'h) route node) \<Rightarrow> bool" where
  "outcome h mode names p n toks route res \<longleftrightarrow>
     (\<exists>p0 n0. leaf_at p n toks p0 n0 \<and>
        (case insertLeaf mode names p0 n0 route of
           (ns, Inl e) \<Rightarrow> res = (ns, Inl e)
         | (ns, Inr n1) \<Rightarrow> \<exists>n'. res = (ns, Inr n') \<and> keeps h n (canon toks) (nroutes n1) n'))"

lemma outcome_descend:
  assumes out: "outcome h' mode names p' c toks' route res'"
    and leaf: "\<And>p0 n0. leaf_at p' c toks' p0 n0 \<Longrightarrow> leaf_at p n toks p0 n0"
    and inl: "\<And>ns e. res' = (ns, Inl e) \<Longrightarrow> res = (ns, Inl e)"
    and inr: "\<And>ns c' v. res' = (ns, Inr c') \<Longrightarrow> keeps h' c (canon toks') v c' \<Longrightarrow>
        \<exists>n'. res = (ns, Inr n') \<and> keeps h n (canon toks) v n'"
  shows "outcome h mode names p n toks route res"
proof -
  from out obtain p0 n0 where at: "leaf_at p' c toks' p0 n0" and
    cas: "case insertLeaf mode names p0 n0 route of
           (ns, Inl e) \<Rightarrow> res' = (ns, Inl e)
         | (ns, Inr n1) \<Rightarrow> \<exists>n'. res' = (ns, Inr n') \<and> keeps h' c (canon toks') (nroutes n1) n'"
    by (auto simp: outcome_def)
  obtain ns r where ins: "insertLeaf mode names p0 n0 route = (ns, r)" by fastforce
  show ?thesis
  proof (cases r)
    case (Inl e)
    with cas ins have "res' = (ns, Inl e)" by simp
    from inl [OF this] leaf [OF at] ins Inl show ?thesis unfolding outcome_def by fastforce
  next
    case (Inr n1)
    with cas ins obtain c' where "res' = (ns, Inr c')" "keeps h' c (canon toks') (nroutes n1) c'" by auto
    from inr [OF this] leaf [OF at] ins Inr show ?thesis unfolding outcome_def by fastforce
  qed
qed

lemma outcome_missing:
  assumes "mode = modeUpdate" "res = (names, Inl (RouteNotFoundError route))" "canon toks = l @ canon toks'" "toks \<noteq> []"
    and view: "\<And>s. (s \<noteq> [] \<Longrightarrow> canon toks' \<noteq> [] \<and> hd s = hd (canon toks') \<or> (\<exists>k. hd s = SW k)) \<Longrightarrow> routes_at n (l @ s) = []"
  shows "outcome h mode names p n toks route res"
proof -
  define q where "q = set_nroutes (routes_at n (canon (butlast toks))) new_node"
  have "routes_at n (canon toks) = []"
    unfolding assms(3) by (rule view) simp
  moreover have "routes_at n (canon toks @ [SW k]) = []" for k
  proof -
    have "routes_at n (l @ (canon toks' @ [SW k])) = []"
      by (rule view) (cases "canon toks'", simp_all)
    then show ?thesis by (simp add: assms(3))
  qed
  ultimately have "leaf_at p n toks (Some q) new_node"
    using assms(4) by (auto simp: leaf_at_def q_def wild_routes_def)
  then show ?thesis
    using assms(1,2) unfolding outcome_def by (fastforce simp: insertLeaf_def leafUpdate_def)
qed

subsection \<open>Static tokens\<close>

lemma toks_ok_static:
  assumes "toks_ok h (tk # rest)" "ttyp tk = nodeStatic"
  shows "toks_ok (h \<and> \<not> path_key (tvalue tk)) rest"
    and "h \<and> \<not> path_key (tvalue tk) \<Longrightarrow> slashDelim \<notin> set (tvalue tk) \<and> thsplit tk"
    and "canon rest \<noteq> [] \<Longrightarrow> hd (canon rest) = SC c \<Longrightarrow> h \<and> \<not> path_key (tvalue tk) \<and> c = slashDelim"
proof -
  show "toks_ok (h \<and> \<not> path_key (tvalue tk)) rest"
    using assms by (auto simp: Let_def split: if_splits)
  show "h \<and> \<not> path_key (tvalue tk) \<Longrightarrow> slashDelim \<notin> set (tvalue tk) \<and> thsplit tk"
    using assms by (auto simp: Let_def)
  show "canon rest \<noteq> [] \<Longrightarrow> hd (canon rest) = SC c \<Longrightarrow> h \<and> \<not> path_key (tvalue tk) \<and> c = slashDelim"
  proof (cases rest)
    case (Cons t ts)
    assume a: "canon rest \<noteq> []" "hd (canon rest) = SC c"
    show ?thesis
    proof (cases "ttyp t = nodeStatic")
      case True
      with assms Cons have b: "h \<and> \<not> path_key (tvalue tk) \<and> path_key (tvalue t)"
        by (auto simp: Let_def split: if_splits)
      then obtain v where "tvalue t = slashDelim # v" by (cases "tvalue t") auto
      with a b Cons True show ?thesis by (simp add: tok_syms_def)
    next
      case False
      with a Cons show ?thesis by (cases "ttyp t") (simp_all add: tok_syms_def)
    qed
  qed simp
qed

lemma tok_syms_static: "ttyp tk = nodeStatic \<Longrightarrow> tok_syms tk = statics_of (tvalue tk)"
  by (simp add: tok_syms_def)

lemma last_token:
  assumes "ttyp tk \<noteq> nodeWildcard" "tok_syms tk = l" "ttyp (last (tk # rest)) = nodeWildcard"
  shows "(rest = [] \<longrightarrow> X) \<and> (rest \<noteq> [] \<longrightarrow>
    ttyp (last rest) = nodeWildcard \<and> canon (butlast (tk # rest)) = l @ canon (butlast rest))"
  using assms by (cases rest) auto

lemma routes_at_no_static:
  assumes "getStaticEdge n (search ! 0) = None" "search \<noteq> []"
  shows "routes_at n (statics_of search @ s) = []"
  using assms kids_None(1) [OF assms(1)] statics_of_Cons [OF assms(2)] by (simp add: routes_at_branch branch_None)

text \<open>The static token, the child it meets and the prefix they share, as the split cases need them.\<close>

definition splits_at ::
  "bool \<Rightarrow> 'r node \<Rightarrow> token \<Rightarrow> token list \<Rightarrow> nat \<Rightarrow> 'r node \<Rightarrow> nat \<Rightarrow> bool" where
  "splits_at h n tk rest i child k \<longleftrightarrow>
     tree_ok h n \<and> ttyp tk = nodeStatic \<and> toks_ok h (tk # rest) \<and> tvalue tk \<noteq> [] \<and>
     getStaticEdge n (tvalue tk ! 0) = Some (i, child) \<and>
     k = longestPrefix (tvalue tk) (nkey child) \<and> k \<noteq> length (nkey child)"

lemma splits_atD:
  assumes "splits_at h n tk rest i child k"
  shows "0 < k" "k < length (nkey child)" "k \<le> length (tvalue tk)" "take k (tvalue tk) = take k (nkey child)"
    and "take k (tvalue tk) ! 0 = tvalue tk ! 0"
    and "path_key (nkey child) = path_key (tvalue tk)" "path_key (take k (tvalue tk)) = path_key (tvalue tk)"
    and "k < length (tvalue tk) \<Longrightarrow> tvalue tk ! k \<noteq> nkey child ! k"
proof -
  note a = assms [unfolded splits_at_def]
  obtain kk where kk: "nkey child = tvalue tk ! 0 # kk"
    using static_keyD a tree_ok_wf wf_edges by blast
  obtain c s where cs: "tvalue tk = c # s" using a by (cases "tvalue tk") auto
  show k0: "0 < k" using a kk cs by simp
  show kl: "k < length (nkey child)" "k \<le> length (tvalue tk)"
    using a longestPrefix_le [of "tvalue tk" "nkey child"] by (metis le_neq_implies_less)+
  show "take k (tvalue tk) = take k (nkey child)" using a longestPrefix_take by blast
  show "take k (tvalue tk) ! 0 = tvalue tk ! 0" using k0 by simp
  show "path_key (nkey child) = path_key (tvalue tk)" using kk cs by simp
  show "path_key (take k (tvalue tk)) = path_key (tvalue tk)" using k0 cs by (cases k) simp_all
  show "k < length (tvalue tk) \<Longrightarrow> tvalue tk ! k \<noteq> nkey child ! k"
    using a kl longestPrefix_differ [of "tvalue tk" "nkey child"] by simp
qed

lemma split_host_child:
  assumes "splits_at h n tk rest i child k" "h \<and> \<not> path_key (tvalue tk)"
  shows "slashDelim \<notin> set (nkey child)" "nhost child" "host_ok child"
proof -
  from assms(1) have "child_ok h child"
    unfolding splits_at_def using tree_ok_static(1) by blast
  then have "static_host child" using assms(2) by (simp add: child_ok_def)
  then show "slashDelim \<notin> set (nkey child)" "nhost child" "host_ok child"
    using assms splits_atD(6) [OF assms(1)] by (auto simp: static_host_def)
qed

lemma split_next_differs:
  assumes sp: "splits_at h n tk rest i child k" and s: "canon rest \<noteq> []" "hd (canon rest) = SC c"
  shows "c \<noteq> nkey child ! k"
proof
  assume eq: "c = nkey child ! k"
  from sp s have "h \<and> \<not> path_key (tvalue tk)" "c = slashDelim"
    unfolding splits_at_def using toks_ok_static(3) by blast+
  with split_host_child(1) [OF sp] eq splits_atD(2) [OF sp] show False by (metis nth_mem)
qed

lemma split_miss:
  assumes sp: "splits_at h n tk rest i child k"
    and s: "s \<noteq> [] \<Longrightarrow> canon rest \<noteq> [] \<and> hd s = hd (canon rest) \<or> (\<exists>k. hd s = SW k)"
  shows "routes_at n (statics_of (tvalue tk) @ s) = []"
proof -
  note d = splits_atD [OF sp]
  have get: "getStaticEdge n (tvalue tk ! 0) = Some (i, child)" and ne: "tvalue tk \<noteq> []"
    using sp by (simp_all add: splits_at_def)
  have "\<not> has_prefix (statics_of (tvalue tk) @ s) (statics_of (nkey child))"
  proof
    assume pre: "has_prefix (statics_of (tvalue tk) @ s) (statics_of (nkey child))"
    then obtain u where u: "statics_of (tvalue tk) @ s = statics_of (nkey child) @ u" by (auto simp: has_prefix_iff)
    then have nth: "(statics_of (tvalue tk) @ s) ! k = SC (nkey child ! k)" using d(2) by (simp add: nth_append)
    show False
    proof (cases "k < length (tvalue tk)")
      case True
      with nth d(8) show False by (simp add: nth_append)
    next
      case False
      then have k: "k = length (tvalue tk)" using d(3) by simp
      have "length (statics_of (tvalue tk) @ s) = length (statics_of (nkey child) @ u)" using u by simp
      then have "s \<noteq> []" using d(2) k by auto
      then have "hd s = SC (nkey child ! k)" using nth k by (simp add: nth_append hd_conv_nth)
      with s [OF \<open>s \<noteq> []\<close>] split_next_differs [OF sp, of "nkey child ! k"] show False by auto
    qed
  qed
  then show ?thesis
    using branch_Some [OF kids_Some(1) [OF get]] statics_of_Cons [OF ne] by (simp add: routes_at_branch under_other)
qed

text \<open>The step cases of a static token, each for any result of the recursive call.\<close>

lemma static_empty_step:
  assumes ok: "tree_ok h n" and tk: "ttyp tk = nodeStatic" "tvalue tk = []"
    and out: "outcome h mode names p n rest route res"
  shows "outcome h mode names p n (tk # rest) route res"
proof (rule outcome_descend [OF out])
  have syms: "tok_syms tk = []" using tk by (simp add: tok_syms_static)
  show "leaf_at p n (tk # rest) p0 n0" if "leaf_at p n rest p0 n0" for p0 n0
  proof (rule leaf_at_descend [OF that, where l = "[]"])
    assume "ttyp (last (tk # rest)) = nodeWildcard"
    then show "(rest = [] \<longrightarrow> (\<exists>q. p = Some q \<and> nroutes q = routes_at n (canon (butlast (tk # rest)))))
        \<and> (rest \<noteq> [] \<longrightarrow> ttyp (last rest) = nodeWildcard \<and> canon (butlast (tk # rest)) = [] @ canon (butlast rest))"
      by - (rule last_token [OF _ syms], simp add: tk(1), assumption)
  qed (simp_all add: syms)
  show "\<exists>n'. res = (ns, Inr n') \<and> keeps h n (canon (tk # rest)) v n'"
    if "res = (ns, Inr c')" "keeps h n (canon rest) v c'" for ns c' v
    using that syms by simp
qed

lemma static_new_step:
  assumes ok: "tree_ok h n" and tk: "ttyp tk = nodeStatic" "toks_ok h (tk # rest)" "tvalue tk \<noteq> []"
    and get: "getStaticEdge n (tvalue tk ! 0) = None"
    and out: "outcome (h \<and> \<not> path_key (tvalue tk)) mode names (Some n) (new_static (tvalue tk) (thsplit tk)) rest route r"
    and res: "res = (case r of (names', Inl e) \<Rightarrow> (names', Inl e)
                | (names', Inr newChild) \<Rightarrow> (names', Inr (addStaticEdge n newChild)))"
  shows "outcome h mode names p n (tk # rest) route res"
proof (rule outcome_descend [OF out])
  have syms: "tok_syms tk = statics_of (tvalue tk)" using tk(1) by (rule tok_syms_static)
  show "leaf_at p n (tk # rest) p0 n0"
    if "leaf_at (Some n) (new_static (tvalue tk) (thsplit tk)) rest p0 n0" for p0 n0
  proof (rule leaf_at_descend [OF that, where l = "statics_of (tvalue tk)"])
    show "routes_at n (statics_of (tvalue tk) @ s) = routes_at (new_static (tvalue tk) (thsplit tk)) s" for s
      by (simp add: routes_at_no_static [OF get tk(3)])
    assume "ttyp (last (tk # rest)) = nodeWildcard"
    then show "(rest = [] \<longrightarrow> (\<exists>q. Some n = Some q \<and> nroutes q = routes_at n (canon (butlast (tk # rest)))))
        \<and> (rest \<noteq> [] \<longrightarrow> ttyp (last rest) = nodeWildcard
          \<and> canon (butlast (tk # rest)) = statics_of (tvalue tk) @ canon (butlast rest))"
      by - (rule last_token [OF _ syms], simp add: tk(1), assumption)
  qed (simp_all add: syms)
  fix ns c' v
  assume "r = (ns, Inr c')"
    and k: "keeps (h \<and> \<not> path_key (tvalue tk)) (new_static (tvalue tk) (thsplit tk)) (canon rest) v c'"
  with res have "res = (ns, Inr (addStaticEdge n c'))" by simp
  moreover have "keeps h n (statics_of (tvalue tk) @ canon rest) v (addStaticEdge n c')"
    using keeps_add_static [OF ok get tk(3) k] toks_ok_static(2) [OF tk(2,1)] by blast
  ultimately show "\<exists>n'. res = (ns, Inr n') \<and> keeps h n (canon (tk # rest)) v n'"
    by (simp add: syms)
qed (use res in simp)

lemma toks_ok_suffix:
  assumes ok: "tree_ok h n" and tk: "ttyp tk = nodeStatic" "toks_ok h (tk # rest)"
    and get: "getStaticEdge n (tvalue tk ! 0) = Some (i, child)" and pre: "has_prefix (tvalue tk) (nkey child)"
    and tk': "ttyp tk' = nodeStatic" "tvalue tk' = drop (length (nkey child)) (tvalue tk)" "thsplit tk' = thsplit tk"
  shows "toks_ok (h \<and> \<not> path_key (nkey child)) (tk' # rest)"
proof -
  obtain kk where kk: "nkey child = tvalue tk ! 0 # kk"
    using static_keyD [OF wf_edges [OF tree_ok_wf [OF ok]] get] by blast
  have key: "path_key (nkey child) \<longleftrightarrow> path_key (tvalue tk)"
    using kk has_prefix_drop [OF pre] by (cases "tvalue tk") auto
  show ?thesis
  proof (cases "h \<and> \<not> path_key (tvalue tk)")
    case True
    then have sl: "slashDelim \<notin> set (tvalue tk)" using toks_ok_static(2) [OF tk(2,1)] by blast
    then have "slashDelim \<notin> set (tvalue tk')" using tk'(2) by (auto dest: in_set_dropD)
    then have "\<not> path_key (tvalue tk')" by (cases "tvalue tk'") auto
    with True tk tk' key \<open>slashDelim \<notin> set (tvalue tk')\<close> show ?thesis by (simp add: Let_def)
  next
    case False
    with tk tk' key show ?thesis by (auto simp: Let_def split: if_splits)
  qed
qed

lemma static_match_step:
  assumes ok: "tree_ok h n" and tk: "ttyp tk = nodeStatic" "toks_ok h (tk # rest)" "tvalue tk \<noteq> []"
    and get: "getStaticEdge n (tvalue tk ! 0) = Some (i, child)" and pre: "has_prefix (tvalue tk) (nkey child)"
    and tk': "ttyp tk' = nodeStatic" "tvalue tk' = drop (length (nkey child)) (tvalue tk)"
    and out: "outcome (h \<and> \<not> path_key (nkey child)) mode names (Some n) child (tk' # rest) route r"
    and res: "res = (case r of (names', Inl e) \<Rightarrow> (names', Inl e)
                | (names', Inr newChild) \<Rightarrow> (names', Inr (set_nstatics ((nstatics n)[i := newChild]) n)))"
  shows "outcome h mode names p n (tk # rest) route res"
proof -
  have "tvalue tk = nkey child @ tvalue tk'" using has_prefix_drop [OF pre] tk'(2) by simp
  then have split: "tok_syms tk = statics_of (nkey child) @ tok_syms tk'"
    using tk(1) tk'(1) by (simp add: tok_syms_static)
  obtain kk where kk: "nkey child = tvalue tk ! 0 # kk"
    using static_keyD [OF wf_edges [OF tree_ok_wf [OF ok]] get] by blast
  show ?thesis
  proof (rule outcome_descend [OF out])
    show "leaf_at p n (tk # rest) p0 n0" if "leaf_at (Some n) child (tk' # rest) p0 n0" for p0 n0
    proof (rule leaf_at_descend [OF that, where l = "statics_of (nkey child)"])
      show "routes_at n (statics_of (nkey child) @ s) = routes_at child s" for s
        using routes_at_below [of n "SC (tvalue tk ! 0)" "statics_of kk" child s] kids_Some(1) [OF get] kk by simp
      show "(tk' # rest = [] \<longrightarrow> (\<exists>q. Some n = Some q \<and> nroutes q = routes_at n (canon (butlast (tk # rest)))))
          \<and> (tk' # rest \<noteq> [] \<longrightarrow> ttyp (last (tk' # rest)) = nodeWildcard
            \<and> canon (butlast (tk # rest)) = statics_of (nkey child) @ canon (butlast (tk' # rest)))"
        if "ttyp (last (tk # rest)) = nodeWildcard"
        using that tk(1) tk'(1) split by (cases rest) auto
    qed (use split in simp_all)
    fix ns c' v
    assume "r = (ns, Inr c')" and k: "keeps (h \<and> \<not> path_key (nkey child)) child (canon (tk' # rest)) v c'"
    with res have "res = (ns, Inr (set_nstatics ((nstatics n)[i := c']) n))" by simp
    with keeps_upd_static [OF ok get k] split
    show "\<exists>n'. res = (ns, Inr n') \<and> keeps h n (canon (tk # rest)) v n'" by simp
  qed (use res in simp)
qed

text \<open>The three split cases end in the same way, by linking the completed split node.\<close>

lemma split_link:
  assumes sp: "splits_at h n tk rest i child k"
    and nd: "child_ok h nd" "nkey nd = take k (tvalue tk)" "nlabel nd = tvalue tk ! 0"
    and view: "routes_at nd = (under (statics_of (drop k (nkey child))) (routes_at child))
        (statics_of (drop k (tvalue tk)) @ canon rest := v)"
  shows "\<exists>nc. replaceStaticEdge n nd = Some nc \<and> keeps h n (canon (tk # rest)) v nc"
proof -
  note a = sp [unfolded splits_at_def] and d = splits_atD [OF sp]
  have get: "getStaticEdge n (tvalue tk ! 0) = Some (i, child)" and ok: "tree_ok h n" using a by auto
  have "keeps h n (statics_of (take k (nkey child)) @ statics_of (drop k (tvalue tk)) @ canon rest) v
      (set_nstatics ((nstatics n)[i := nd]) n)"
    by (rule keeps_split [OF ok get d(1,2) nd(1,3) _ view]) (simp add: nd(2) d(4))
  moreover have "statics_of (take k (nkey child)) @ statics_of (drop k (tvalue tk)) = tok_syms tk"
    using a d(4) append_take_drop_id [of k "tvalue tk"] by (metis map_append tok_syms_static)
  then have "statics_of (take k (nkey child)) @ statics_of (drop k (tvalue tk)) @ canon rest = canon (tk # rest)"
    by simp
  ultimately show ?thesis
    using replaceStaticEdge_found [of n nd i child] get nd(3) by simp
qed

lemma split_child_ok:
  assumes sp: "splits_at h n tk rest i child k"
  shows "child_ok (h \<and> \<not> path_key (tvalue tk)) (cut_child k child)"
proof -
  note d = splits_atD [OF sp]
  have "wf_node child"
    using sp unfolding splits_at_def using tree_ok_static(2) tree_ok_wf by blast
  then have "static_ok (cut_child k child)" using static_ok_cut_child d(2) by blast
  moreover have "static_host (cut_child k child)" if "h \<and> \<not> path_key (tvalue tk)"
    using split_host_child [OF sp that] d(2)
    by (simp add: static_host_def cut_child_def) (metis in_set_dropD)
  ultimately show ?thesis by (simp add: child_ok_def)
qed

lemma split_node_ok:
  assumes sp: "splits_at h n tk rest i child k"
    and nd: "tree_ok (h \<and> \<not> path_key (tvalue tk)) nd" "nkey nd = take k (tvalue tk)" "nlabel nd = tvalue tk ! 0"
      "nhost nd = thsplit tk"
  shows "child_ok h nd"
proof -
  note a = sp [unfolded splits_at_def] and d = splits_atD [OF sp]
  have "static_ok nd"
    using tree_ok_wf [OF nd(1)] nd d(1,5) a by (simp add: static_ok_def hd_conv_nth0)
  moreover have "static_host nd" if h
  proof (cases "path_key (tvalue tk)")
    case True
    then show ?thesis using nd(2) d(7) by (simp add: static_host_def)
  next
    case False
    then have "slashDelim \<notin> set (tvalue tk)" "thsplit tk"
      using a that toks_ok_static(2) by blast+
    then have "slashDelim \<notin> set (nkey nd)" using nd(2) by (auto dest: in_set_takeD)
    then show ?thesis using False that nd \<open>thsplit tk\<close> by (simp add: static_host_def tree_ok_def)
  qed
  ultimately show ?thesis by (simp add: child_ok_def)
qed

lemma split_base:
  assumes sp: "splits_at h n tk rest i child k"
    and sp0: "sp0 = addStaticEdge (new_static (take k (tvalue tk)) (thsplit tk)) (cut_child k child)"
  shows "tree_ok (h \<and> \<not> path_key (tvalue tk)) sp0" "routes_at sp0 = under (statics_of (drop k (nkey child))) (routes_at child)"
    and "\<And>c. getStaticEdge sp0 c = None \<longleftrightarrow> c \<noteq> nkey child ! k"
    and "nkey sp0 = take k (tvalue tk)" "nlabel sp0 = tvalue tk ! 0" "nhost sp0 = thsplit tk"
proof -
  note d = splits_atD [OF sp]
  have "wf_node child"
    using sp unfolding splits_at_def using tree_ok_static(2) tree_ok_wf by blast
  note cut = cut_node_spec [OF this d(1,2) sp0]
  show "tree_ok (h \<and> \<not> path_key (tvalue tk)) sp0"
    unfolding sp0 by (rule tree_ok_addStatic [OF _ split_child_ok [OF sp]]) (simp_all add: tree_ok_leaf)
  show "routes_at sp0 = under (statics_of (drop k (nkey child))) (routes_at child)"
    and "getStaticEdge sp0 c = None \<longleftrightarrow> c \<noteq> nkey child ! k" for c
    using cut by blast+
  show "nkey sp0 = take k (tvalue tk)" "nlabel sp0 = tvalue tk ! 0" "nhost sp0 = thsplit tk"
    using d(5) by (simp_all add: sp0)
qed

lemma split_remaining_step:
  assumes sp: "splits_at h n tk rest i child k" and full: "k = length (tvalue tk)"
    and out: "outcome (h \<and> \<not> path_key (tvalue tk)) mode names (Some n)
        (new_static (take k (tvalue tk)) (thsplit tk)) rest route r"
    and res: "res = (case r of (names', Inl e) \<Rightarrow> (names', Inl e)
        | (names', Inr newSplitNode) \<Rightarrow>
            (case replaceStaticEdge n (addStaticEdge newSplitNode (cut_child k child)) of
               None \<Rightarrow> (names', Inl panic) | Some nc \<Rightarrow> (names', Inr nc)))"
  shows "outcome h mode names p n (tk # rest) route res"
proof (rule outcome_descend [OF out])
  note a = sp [unfolded splits_at_def] and d = splits_atD [OF sp]
  have syms: "tok_syms tk = statics_of (tvalue tk)" using a tok_syms_static by blast
  let ?nd0 = "new_static (take k (tvalue tk)) (thsplit tk)"
  show "leaf_at p n (tk # rest) p0 n0" if "leaf_at (Some n) ?nd0 rest p0 n0" for p0 n0
  proof (rule leaf_at_descend [OF that, where l = "statics_of (tvalue tk)"])
    show "routes_at n (statics_of (tvalue tk) @ s) = routes_at ?nd0 s"
      if "s \<noteq> [] \<Longrightarrow> canon rest \<noteq> [] \<and> hd s = hd (canon rest) \<or> (\<exists>k. hd s = SW k)" for s
      using split_miss [OF sp that] by simp
    assume "ttyp (last (tk # rest)) = nodeWildcard"
    then show "(rest = [] \<longrightarrow> (\<exists>q. Some n = Some q \<and> nroutes q = routes_at n (canon (butlast (tk # rest)))))
        \<and> (rest \<noteq> [] \<longrightarrow> ttyp (last rest) = nodeWildcard
          \<and> canon (butlast (tk # rest)) = statics_of (tvalue tk) @ canon (butlast rest))"
      by - (rule last_token [OF _ syms], use a in simp, assumption)
  qed (simp_all add: syms)
  fix ns c' v
  assume r: "r = (ns, Inr c')" and kp: "keeps (h \<and> \<not> path_key (tvalue tk)) ?nd0 (canon rest) v c'"
  note k = keepsD [OF kp]
  let ?nd = "addStaticEdge c' (cut_child k child)"
  have inf: "nkey c' = take k (tvalue tk)" "nlabel c' = tvalue tk ! 0" "nhost c' = thsplit tk"
    using infoD [OF k(2)] d(5) by simp_all
  have diff: "canon rest = [] \<or> hd (canon rest) \<noteq> SC (nkey child ! k)"
    using split_next_differs [OF sp] by blast
  then have none: "getStaticEdge c' (nkey child ! k) = None"
    using k(4) [of "SC (nkey child ! k)"] by (auto simp: getStaticEdge_kids)
  have "routes_at ?nd = (under (statics_of (drop k (nkey child))) (routes_at child))(canon rest := v)"
    by (rule view_add_cut [OF tree_ok_wf [OF k(1)] d(2) none _ diff]) (simp add: k(3))
  then have view: "routes_at ?nd = (under (statics_of (drop k (nkey child))) (routes_at child))
      (statics_of (drop k (tvalue tk)) @ canon rest := v)"
    by (simp add: full)
  have "tree_ok (h \<and> \<not> path_key (tvalue tk)) ?nd"
    by (rule tree_ok_addStatic [OF k(1) split_child_ok [OF sp]]) (simp add: cut_child_def none)
  then have "child_ok h ?nd"
    by (rule split_node_ok [OF sp]) (simp_all add: inf)
  from split_link [OF sp this _ _ view] inf obtain nc where
    "replaceStaticEdge n ?nd = Some nc" "keeps h n (canon (tk # rest)) v nc" by auto
  then show "\<exists>n'. res = (ns, Inr n') \<and> keeps h n (canon (tk # rest)) v n'"
    by (simp add: res r)
qed (use res in simp)

lemma split_fresh_step:
  assumes sp: "splits_at h n tk rest i child k" and part: "k < length (tvalue tk)"
    and out: "outcome (h \<and> \<not> path_key (tvalue tk)) mode names (Some n)
        (new_static (drop k (tvalue tk)) (thsplit tk)) rest route r"
    and res: "res = (case r of (names', Inl e) \<Rightarrow> (names', Inl e)
        | (names', Inr newChild) \<Rightarrow>
            (case replaceStaticEdge n (addStaticEdge (addStaticEdge (new_static (take k (tvalue tk)) (thsplit tk))
                (cut_child k child)) newChild) of
               None \<Rightarrow> (names', Inl panic) | Some nc \<Rightarrow> (names', Inr nc)))"
  shows "outcome h mode names p n (tk # rest) route res"
proof (rule outcome_descend [OF out])
  note a = sp [unfolded splits_at_def] and d = splits_atD [OF sp]
  have syms: "tok_syms tk = statics_of (tvalue tk)" using a tok_syms_static by blast
  define nd0 where "nd0 = addStaticEdge (new_static (take k (tvalue tk)) (thsplit tk)) (cut_child k child)"
  note base = split_base [OF sp nd0_def]
  let ?c0 = "new_static (drop k (tvalue tk)) (thsplit tk)" and ?h = "h \<and> \<not> path_key (tvalue tk)"
  show "leaf_at p n (tk # rest) p0 n0" if "leaf_at (Some n) ?c0 rest p0 n0" for p0 n0
  proof (rule leaf_at_descend [OF that, where l = "statics_of (tvalue tk)"])
    show "routes_at n (statics_of (tvalue tk) @ s) = routes_at ?c0 s"
      if "s \<noteq> [] \<Longrightarrow> canon rest \<noteq> [] \<and> hd s = hd (canon rest) \<or> (\<exists>k. hd s = SW k)" for s
      using split_miss [OF sp that] by simp
    assume "ttyp (last (tk # rest)) = nodeWildcard"
    then show "(rest = [] \<longrightarrow> (\<exists>q. Some n = Some q \<and> nroutes q = routes_at n (canon (butlast (tk # rest)))))
        \<and> (rest \<noteq> [] \<longrightarrow> ttyp (last rest) = nodeWildcard
          \<and> canon (butlast (tk # rest)) = statics_of (tvalue tk) @ canon (butlast rest))"
      by - (rule last_token [OF _ syms], use a in simp, assumption)
  qed (simp_all add: syms)
  fix ns c' v
  assume r: "r = (ns, Inr c')" and kp: "keeps ?h ?c0 (canon rest) v c'"
  let ?nd = "addStaticEdge nd0 c'"
  have hst: "slashDelim \<notin> set (drop k (tvalue tk)) \<and> thsplit tk" if ?h
    using that a toks_ok_static(2) [of h tk rest] by (auto dest: in_set_dropD)
  have "?h \<and> \<not> path_key (drop k (tvalue tk)) \<longleftrightarrow> ?h"
    using hst by (cases "drop k (tvalue tk)") auto
  then have kp': "keeps (?h \<and> \<not> path_key (drop k (tvalue tk))) ?c0 (canon rest) v c'"
    using kp by simp
  have none: "getStaticEdge nd0 (drop k (tvalue tk) ! 0) = None"
    using base(3) d(8) [OF part] part by simp
  have kd: "keeps ?h nd0 (statics_of (drop k (tvalue tk)) @ canon rest) v ?nd"
    by (rule keeps_add_static [OF base(1) none _ kp']) (use part hst in auto)
  then have view: "routes_at ?nd = (under (statics_of (drop k (nkey child))) (routes_at child))
      (statics_of (drop k (tvalue tk)) @ canon rest := v)"
    using keepsD(3) [OF kd] base(2) by simp
  have "child_ok h ?nd"
    by (rule split_node_ok [OF sp keepsD(1) [OF kd]]) (simp_all add: base)
  from split_link [OF sp this _ _ view] base obtain nc where
    "replaceStaticEdge n ?nd = Some nc" "keeps h n (canon (tk # rest)) v nc" by auto
  then show "\<exists>n'. res = (ns, Inr n') \<and> keeps h n (canon (tk # rest)) v n'"
    by (simp add: res r nd0_def)
qed (use res in simp)

lemma addRoute_Nil [simp]: "addRoute [] route = [route]"
  by (simp add: addRoute_def insert_at_def)

lemma split_end_step:
  assumes sp: "splits_at h n tk [] i child k" and full: "k = length (tvalue tk)"
    and res: "res = (case (if rname route \<noteq> '''' then insertName modeInsert names route else (names, None)) of
        (names', Some e) \<Rightarrow> (names', Inl e)
      | (names', None) \<Rightarrow>
          (case replaceStaticEdge n (set_nroutes [route] (addStaticEdge (new_static (take k (tvalue tk)) (thsplit tk))
              (cut_child k child))) of
             None \<Rightarrow> (names', Inl panic) | Some nc \<Rightarrow> (names', Inr nc)))"
  shows "outcome h modeInsert names p n [tk] route res"
proof -
  note a = sp [unfolded splits_at_def] and d = splits_atD [OF sp]
  have syms: "tok_syms tk = statics_of (tvalue tk)" using a tok_syms_static by blast
  define nd0 where "nd0 = addStaticEdge (new_static (take k (tvalue tk)) (thsplit tk)) (cut_child k child)"
  note base = split_base [OF sp nd0_def]
  let ?n0 = "new_static [] False :: ('a, 'b) route node" and ?nd = "set_nroutes [route] nd0"
  have miss: "routes_at n (statics_of (tvalue tk) @ s) = []" if "s \<noteq> [] \<Longrightarrow> \<exists>k. hd s = SW k" for s
    using split_miss [OF sp, of s] that by blast
  have "routes_at n (statics_of (tvalue tk)) = []" "routes_at n (statics_of (tvalue tk) @ [SW key]) = []" for key
    using miss [of "[]"] miss [of "[SW key]"] by simp_all
  then have leaf: "leaf_at p n [tk] None ?n0"
    using a by (simp add: leaf_at_def wild_routes_def syms)
  have view: "routes_at ?nd = (under (statics_of (drop k (nkey child))) (routes_at child))
      (statics_of (drop k (tvalue tk)) @ canon [] := [route])"
    by (simp add: full routes_at_set_nroutes base(2))
  have "child_ok h ?nd"
    by (rule split_node_ok [OF sp]) (simp_all add: base)
  from split_link [OF sp this _ _ view] base obtain nc where
    nc: "replaceStaticEdge n ?nd = Some nc" "keeps h n (canon [tk]) [route] nc" by auto
  have ins: "insertLeaf modeInsert names None ?n0 route =
      (case (if rname route \<noteq> '''' then insertName modeInsert names route else (names, None)) of
         (names', Some e) \<Rightarrow> (names', Inl e)
       | (names', None) \<Rightarrow> (names', Inr (set_nroutes [route] ?n0)))"
    by (simp add: insertLeaf_def leafInsert_def Let_def)
  obtain ns oe where nm: "(if rname route \<noteq> '''' then insertName modeInsert names route else (names, None)) = (ns, oe)"
    by fastforce
  show ?thesis
    unfolding outcome_def
  proof (intro exI conjI)
    show "leaf_at p n [tk] None ?n0" by (rule leaf)
    show "case insertLeaf modeInsert names None ?n0 route of
           (ns, Inl e) \<Rightarrow> res = (ns, Inl e)
         | (ns, Inr n1) \<Rightarrow> \<exists>n'. res = (ns, Inr n') \<and> keeps h n (canon [tk]) (nroutes n1) n'"
      unfolding ins nm res
      using nc by (cases oe) (simp_all add: nd0_def)
  qed
qed

subsection \<open>Parameter and wildcard tokens\<close>

lemma view_new_param [simp]: "routes_at (new_param tk) = empty_view" "routes_at (new_wildcard tk) = empty_view"
  by (rule view_empty_node; simp add: new_param_def new_wildcard_def)+

lemma tree_ok_new_param [simp]: "tree_ok h (new_param tk)" "tree_ok h (new_wildcard tk)"
  by (rule tree_ok_leaf; simp add: new_param_def new_wildcard_def)+

lemma key_new_param [simp]:
  "nkey (new_param tk) = canonicalKey tk" "nkey (new_wildcard tk) = canonicalKey tk"
  "nlabel (new_param tk) = CHR 0x00" "nlabel (new_wildcard tk) = CHR 0x00"
  by (simp_all add: new_param_def new_wildcard_def)

lemma toks_ok_dynamic: "ttyp tk \<noteq> nodeStatic \<Longrightarrow> toks_ok h (tk # rest) \<Longrightarrow> toks_ok h rest"
  by simp

lemma param_step:
  assumes ok: "tree_ok h n" and tk: "ttyp tk = nodeParam"
    and view: "\<And>s. routes_at n (SP (canonicalKey tk) # s) = routes_at child s"
    and out: "outcome h mode names (Some n) child rest route r"
    and kp: "\<And>t v c'. keeps h child t v c' \<Longrightarrow> keeps h n (SP (canonicalKey tk) # t) v (link c')"
    and res: "res = (case r of (names', Inl e) \<Rightarrow> (names', Inl e) | (names', Inr c') \<Rightarrow> (names', Inr (link c')))"
  shows "outcome h mode names p n (tk # rest) route res"
proof (rule outcome_descend [OF out])
  have syms: "tok_syms tk = [SP (canonicalKey tk)]" using tk by (simp add: tok_syms_def)
  show "leaf_at p n (tk # rest) p0 n0" if "leaf_at (Some n) child rest p0 n0" for p0 n0
  proof (rule leaf_at_descend [OF that, where l = "[SP (canonicalKey tk)]"])
    show "routes_at n ([SP (canonicalKey tk)] @ s) = routes_at child s" for s
      using view by simp
    assume "ttyp (last (tk # rest)) = nodeWildcard"
    then show "(rest = [] \<longrightarrow> (\<exists>q. Some n = Some q \<and> nroutes q = routes_at n (canon (butlast (tk # rest)))))
        \<and> (rest \<noteq> [] \<longrightarrow> ttyp (last rest) = nodeWildcard
          \<and> canon (butlast (tk # rest)) = [SP (canonicalKey tk)] @ canon (butlast rest))"
      by - (rule last_token [OF _ syms], simp add: tk, assumption)
  qed (simp_all add: syms)
  show "\<exists>n'. res = (ns, Inr n') \<and> keeps h n (canon (tk # rest)) v n'"
    if "r = (ns, Inr c')" "keeps h child (canon rest) v c'" for ns c' v
    using that kp res syms by auto
qed (use res in simp)

lemma wildcard_step:
  assumes ok: "tree_ok h n" and tk: "ttyp tk = nodeWildcard"
    and view: "\<And>s. routes_at n (SW (canonicalKey tk) # s) = routes_at child s"
    and out: "outcome h mode names (Some n) child rest route r"
    and kp: "\<And>t v c'. keeps h child t v c' \<Longrightarrow> keeps h n (SW (canonicalKey tk) # t) v (link c')"
    and res: "res = (case r of (names', Inl e) \<Rightarrow> (names', Inl e) | (names', Inr c') \<Rightarrow> (names', Inr (link c')))"
  shows "outcome h mode names p n (tk # rest) route res"
proof (rule outcome_descend [OF out])
  have syms: "tok_syms tk = [SW (canonicalKey tk)]" using tk by (simp add: tok_syms_def)
  show "leaf_at p n (tk # rest) p0 n0" if "leaf_at (Some n) child rest p0 n0" for p0 n0
  proof (rule leaf_at_descend [OF that, where l = "[SW (canonicalKey tk)]"])
    show "routes_at n ([SW (canonicalKey tk)] @ s) = routes_at child s" for s
      using view by simp
    show "(rest = [] \<longrightarrow> (\<exists>q. Some n = Some q \<and> nroutes q = routes_at n (canon (butlast (tk # rest)))))
        \<and> (rest \<noteq> [] \<longrightarrow> ttyp (last rest) = nodeWildcard
          \<and> canon (butlast (tk # rest)) = [SW (canonicalKey tk)] @ canon (butlast rest))"
      if "ttyp (last (tk # rest)) = nodeWildcard"
      using that syms by (cases rest) auto
  qed (simp_all add: syms)
  show "\<exists>n'. res = (ns, Inr n') \<and> keeps h n (canon (tk # rest)) v n'"
    if "r = (ns, Inr c')" "keeps h child (canon rest) v c'" for ns c' v
    using that kp res syms by auto
qed (use res in simp)

lemma routes_at_param:
  "getParamEdge n k = None \<Longrightarrow> routes_at n (SP k # s) = []"
  "getParamEdge n k = Some (i, child) \<Longrightarrow> routes_at n (SP k # s) = routes_at child s"
  by (simp_all add: routes_at_branch branch_def kids_None kids_Some under_def)

lemma routes_at_wildcard:
  "getWildcardEdge n k = None \<Longrightarrow> routes_at n (SW k # s) = []"
  "getWildcardEdge n k = Some (i, child) \<Longrightarrow> routes_at n (SW k # s) = routes_at child s"
  by (simp_all add: routes_at_branch branch_def kids_None kids_Some under_def)

subsection \<open>The induction\<close>

lemma outcome_leaf:
  assumes "tree_ok h n" "\<And>ns n1. insertLeaf mode names p n route = (ns, Inr n1) \<Longrightarrow> \<exists>rs. n1 = set_nroutes rs n"
  shows "outcome h mode names p n [] route (insertLeaf mode names p n route)"
proof -
  obtain ns r where r: "insertLeaf mode names p n route = (ns, r)" by fastforce
  have "leaf_at p n [] p n" using leaf_at_here [OF tree_ok_wf [OF assms(1)]] .
  moreover have "case r of Inl e \<Rightarrow> True | Inr n1 \<Rightarrow> keeps h n (canon []) (nroutes n1) n1"
    using assms(2) [of ns] keeps_leaf [OF assms(1)] r by (auto split: sum.splits)
  ultimately show ?thesis
    unfolding outcome_def by (intro exI [of _ p] exI [of _ n]) (cases r; simp add: r)
qed

lemma insertLeaf_set:
  "insertLeaf mode names p n route = (ns, Inr n1) \<Longrightarrow> \<exists>rs. n1 = set_nroutes rs n"
  unfolding insertLeaf_def leafInsert_def leafUpdate_def Let_def
  by (cases mode) (auto split: if_splits option.splits prod.splits)

lemma insert_outcome:
  "tree_ok h n \<Longrightarrow> toks_ok h tokens \<Longrightarrow>
     outcome h mode names p n tokens route (insertTokens mode names p n tokens route)"
  "tree_ok h n \<Longrightarrow> ttyp tk = nodeStatic \<Longrightarrow> toks_ok h (tk # remaining) \<Longrightarrow>
     outcome h mode names p n (tk # remaining) route (insertStatic mode names p n tk remaining route)"
  "tree_ok h n \<Longrightarrow> ttyp tk = nodeParam \<Longrightarrow> toks_ok h (tk # remaining) \<Longrightarrow>
     outcome h mode names p n (tk # remaining) route (insertParam mode names n tk remaining route)"
  "tree_ok h n \<Longrightarrow> ttyp tk = nodeWildcard \<Longrightarrow> toks_ok h (tk # remaining) \<Longrightarrow>
     outcome h mode names p n (tk # remaining) route (insertWildcard mode names n tk remaining route)"
proof (induction mode names p n tokens route and mode names p n tk remaining route
    and mode names n tk remaining route and mode names n tk remaining route
    arbitrary: h and h and h p and h p
    rule: insertTokens_insertStatic_insertParam_insertWildcard.induct)
  case (1 mode names p n tokens route)
  show ?case
  proof (cases tokens)
    case Nil
    have "outcome h mode names p n [] route (insertLeaf mode names p n route)"
      using "1.prems"(1) insertLeaf_set by (rule outcome_leaf)
    with Nil show ?thesis
      by (simp add: insertTokens.simps [of mode names p n "[]" route])
  next
    case (Cons tk remaining)
    with "1.IH" [OF Cons] "1.prems" show ?thesis
      by (cases "ttyp tk") (simp_all add: insertTokens.simps [of mode names p n "tk # remaining" route] del: toks_ok.simps)
  qed
next
  case (3 mode names n tk remaining route)
  note ok = "3.prems"(1) and tk = "3.prems"(2)
  have rest: "toks_ok h remaining" using toks_ok_dynamic [OF _ "3.prems"(3)] tk by simp
  show ?case
  proof (cases "getParamEdge n (canonicalKey tk)")
    case None
    show ?thesis
    proof (cases "mode = modeUpdate")
      case True
      have "outcome h mode names p n (tk # remaining) route (names, Inl (RouteNotFoundError route))"
        by (rule outcome_missing [OF True refl, where l = "[SP (canonicalKey tk)]" and toks' = remaining])
          (use tk routes_at_param(1) [OF None] in \<open>simp_all add: tok_syms_def\<close>)
      with None True show ?thesis by (subst insertParam.simps) simp
    next
      case False
      note IH = "3.IH"(1) [OF refl None False tree_ok_new_param(1) rest]
      show ?thesis
        by (rule param_step [OF ok tk _ IH keeps_add_param [OF ok None]])
          (use None False routes_at_param(1) [OF None] in
            \<open>simp_all add: insertParam.simps [of mode names n tk remaining route]\<close>)
    qed
  next
    case (Some q)
    then obtain i child where get: "getParamEdge n (canonicalKey tk) = Some (i, child)" by (cases q) auto
    note IH = "3.IH"(2) [OF refl get refl tree_ok_param [OF ok get] rest]
    show ?thesis
      by (rule param_step [OF ok tk _ IH keeps_upd_param [OF ok get]])
        (use get routes_at_param(2) [OF get] in \<open>simp_all add: insertParam.simps [of mode names n tk remaining route]\<close>)
  qed
next
  case (4 mode names n tk remaining route)
  note ok = "4.prems"(1) and tk = "4.prems"(2)
  have rest: "toks_ok h remaining" using toks_ok_dynamic [OF _ "4.prems"(3)] tk by simp
  show ?case
  proof (cases "getWildcardEdge n (canonicalKey tk)")
    case None
    show ?thesis
    proof (cases "mode = modeUpdate")
      case True
      have "outcome h mode names p n (tk # remaining) route (names, Inl (RouteNotFoundError route))"
        by (rule outcome_missing [OF True refl, where l = "[SW (canonicalKey tk)]" and toks' = remaining])
          (use tk routes_at_wildcard(1) [OF None] in \<open>simp_all add: tok_syms_def\<close>)
      with None True show ?thesis by (subst insertWildcard.simps) simp
    next
      case False
      note IH = "4.IH"(1) [OF refl None False tree_ok_new_param(2) rest]
      show ?thesis
        by (rule wildcard_step [OF ok tk _ IH keeps_add_wildcard [OF ok None]])
          (use None False routes_at_wildcard(1) [OF None] in
            \<open>simp_all add: insertWildcard.simps [of mode names n tk remaining route]\<close>)
    qed
  next
    case (Some q)
    then obtain i child where get: "getWildcardEdge n (canonicalKey tk) = Some (i, child)" by (cases q) auto
    note IH = "4.IH"(2) [OF refl get refl tree_ok_wildcard [OF ok get] rest]
    show ?thesis
      by (rule wildcard_step [OF ok tk _ IH keeps_upd_wildcard [OF ok get]])
        (use get routes_at_wildcard(2) [OF get] in \<open>simp_all add: insertWildcard.simps [of mode names n tk remaining route]\<close>)
  qed
next
  case (2 mode names p n tk remaining route)
  note ok = "2.prems"(1) and tk = "2.prems"(2) and toks = "2.prems"(3)
  have rest: "toks_ok (h \<and> \<not> path_key (tvalue tk)) remaining" using toks_ok_static(1) [OF toks tk] .
  show ?case
  proof (cases "tvalue tk = []")
    case True
    have eq: "insertStatic mode names p n tk remaining route = insertTokens mode names p n remaining route"
      using True by (subst insertStatic.simps) simp
    have "length (tvalue tk) = 0" "toks_ok h remaining" using True rest by simp_all
    note IH = "2.IH"(1) [OF refl this(1) ok this(2)]
    show ?thesis unfolding eq by (rule static_empty_step [OF ok tk True IH])
  next
    case ne: False
    then have len: "length (tvalue tk) \<noteq> 0" by simp
    show ?thesis
    proof (cases "getStaticEdge n (tvalue tk ! 0)")
      case None
      show ?thesis
      proof (cases "mode = modeUpdate")
        case True
        have "outcome h mode names p n (tk # remaining) route (names, Inl (RouteNotFoundError route))"
          by (rule outcome_missing [OF True refl, where l = "statics_of (tvalue tk)" and toks' = remaining])
            (use tk routes_at_no_static [OF None ne] in \<open>simp_all add: tok_syms_static\<close>)
        with None True ne show ?thesis by (subst insertStatic.simps) simp
      next
        case False
        note IH = "2.IH"(2) [OF refl len None False tree_ok_leaf rest]
        show ?thesis
          by (rule static_new_step [OF ok tk toks ne None IH])
            (use None False ne in \<open>simp_all add: insertStatic.simps [of mode names p n tk remaining route]\<close>)
      qed
    next
      case (Some q)
      then obtain i child where get: "getStaticEdge n (tvalue tk ! 0) = Some (i, child)" by (cases q) auto
      define k where "k = longestPrefix (tvalue tk) (nkey child)"
      show ?thesis
      proof (cases "k = length (nkey child)")
        case True
        then have pre: "has_prefix (tvalue tk) (nkey child)" by (simp add: k_def longestPrefix_full)
        let ?tk = "\<lparr>tregexp = None, tvalue = drop k (tvalue tk), ttyp = nodeStatic, tnested = False, thsplit = thsplit tk\<rparr>"
        have toks': "toks_ok (h \<and> \<not> path_key (nkey child)) (?tk # remaining)"
          by (rule toks_ok_suffix [OF ok tk toks get pre]) (simp_all add: True)
        note IH = "2.IH"(3) [OF refl len get refl k_def True tree_ok_static(2) [OF ok get] toks']
        show ?thesis
          by (rule static_match_step [OF ok tk toks ne get pre _ _ IH])
            (use get True ne in \<open>simp_all add: insertStatic.simps [of mode names p n tk remaining route] k_def [symmetric] Let_def\<close>)
      next
        case False
        have sp: "splits_at h n tk remaining i child k"
          using ok tk toks ne get False by (simp add: splits_at_def k_def del: toks_ok.simps)
        note d = splits_atD [OF sp]
        show ?thesis
        proof (cases "mode = modeUpdate")
          case True
          have "outcome h mode names p n (tk # remaining) route (names, Inl (RouteNotFoundError route))"
          proof (rule outcome_missing [OF True refl, where l = "statics_of (tvalue tk)" and toks' = remaining])
            show "routes_at n (statics_of (tvalue tk) @ s) = []"
              if "s \<noteq> [] \<Longrightarrow> canon remaining \<noteq> [] \<and> hd s = hd (canon remaining) \<or> (\<exists>k. hd s = SW k)" for s
              using split_miss [OF sp that] .
          qed (use tk in \<open>simp_all add: tok_syms_static\<close>)
          with get True False ne show ?thesis
            by (subst insertStatic.simps) (simp add: k_def [symmetric] Let_def)
        next
          case ins: False
          show ?thesis
          proof (cases "k < length (tvalue tk)")
            case True
            then have dr: "length (drop k (tvalue tk)) \<noteq> 0" by simp
            note IH = "2.IH"(5) [OF refl len get refl k_def False ins refl refl refl refl dr tree_ok_leaf rest]
            show ?thesis
              by (rule split_fresh_step [OF sp True IH, where panic = "Panic ''internal error: replacing missing edge''"])
                (use get False ins ne True in \<open>simp_all add: insertStatic.simps [of mode names p n tk remaining route]
                  k_def [symmetric] Let_def split: sum.splits prod.splits\<close>)
          next
            case part: False
            then have full: "k = length (tvalue tk)" and dr: "length (drop k (tvalue tk)) = 0" using d(3) by simp_all
            show ?thesis
            proof (cases "remaining = []")
              case True
              have sp': "splits_at h n tk [] i child k" using sp True by simp
              from ins have mode: "mode = modeInsert" by (cases mode) simp_all
              show ?thesis
                unfolding True mode
                by (rule split_end_step [OF sp' full, where panic = "Panic ''internal error: replacing missing edge''"])
                  (use get False ne dr in \<open>simp add: insertStatic.simps [of modeInsert names p n tk "[]" route]
                    k_def [symmetric] Let_def del: addStaticEdge_simps(7) drop_eq_Nil take_all\<close>)
            next
              case rem: False
              then have "0 < length remaining" by simp
              note IH = "2.IH"(4) [OF refl len get refl k_def False ins refl refl refl refl dr this tree_ok_leaf rest]
              show ?thesis
                by (rule split_remaining_step [OF sp full IH, where panic = "Panic ''internal error: replacing missing edge''"])
                  (use get False ins ne dr rem in \<open>simp_all add: insertStatic.simps [of mode names p n tk remaining route]
                    k_def [symmetric] Let_def del: drop_eq_Nil split: sum.splits prod.splits\<close>)
            qed
          qed
        qed
      qed
    qed
  qed
qed

section \<open>What an insertion promises\<close>

subsection \<open>The names after a leaf operation\<close>

lemma insertName_names:
  assumes "names_ok names"
  shows "case insertName mode names route of
      (ns, Some e) \<Rightarrow> ns = names \<and> mode \<noteq> modeUpdate
        \<and> (\<exists>r. name_map names (rname route) = Some r \<and> e = RouteNameConflictError route r)
    | (ns, None) \<Rightarrow> (mode = modeUpdate \<or> name_map names (rname route) = None) \<and> names_ok ns
        \<and> name_map ns = (name_map names)(rname route \<mapsto> route)"
  using insertNameIn_names [OF assms, of mode route]
  by (cases "insertNameIn mode names (rname route) route") (simp_all add: insertName_def)

lemma deleteName_names:
  assumes "names_ok names"
  shows "names_ok (fst (deleteName names route))"
    "name_map (fst (deleteName names route)) = (name_map names)(rname route := None)"
proof -
  note D = deleteNameIn_names [OF assms, of "rname route"]
  have "names_ok (fst (deleteName names route)) \<and>
      name_map (fst (deleteName names route)) = (name_map names)(rname route := None)"
  proof (cases "deleteNameIn True names (rname route)")
    case None
    with D have "name_map names (rname route) = None" by simp
    then have "(name_map names)(rname route := None) = name_map names" by (rule fun_upd_idem)
    with None assms show ?thesis by (simp add: deleteName_def)
  next
    case (Some n')
    with D show ?thesis by (simp add: deleteName_def)
  qed
  then show "names_ok (fst (deleteName names route))"
    "name_map (fst (deleteName names route)) = (name_map names)(rname route := None)" by simp_all
qed

definition conflicts_at :: "('c, 'h) route view \<Rightarrow> token list \<Rightarrow> ('c, 'h) route \<Rightarrow> ('c, 'h) route set" where
  "conflicts_at V toks route = {r \<in> set (V (canon toks)). conflicting route r}"

definition shadowed_at :: "('c, 'h) route view \<Rightarrow> token list \<Rightarrow> ('c, 'h) route \<Rightarrow> ('c, 'h) route set" where
  "shadowed_at V toks route =
     {r \<in> set (V (canon (butlast toks))). optionalCatchAll (rpattern route) \<and> shadowed_by route r}"

definition shadows_at :: "('c, 'h) route view \<Rightarrow> token list \<Rightarrow> ('c, 'h) route \<Rightarrow> ('c, 'h) route set" where
  "shadows_at V toks route = {r \<in> wild_routes V (canon toks). shadows route r}"

text \<open>The parser sets \<open>optionalCatchAll\<close> only when the last token is a wildcard.\<close>

definition catch_all_ok :: "token list \<Rightarrow> ('c, 'h) route \<Rightarrow> bool" where
  "catch_all_ok toks route \<longleftrightarrow>
     (optionalCatchAll (rpattern route) \<longrightarrow> toks \<noteq> [] \<and> ttyp (last toks) = nodeWildcard)"

definition with_name :: "(string \<rightharpoonup> ('c, 'h) route) \<Rightarrow> ('c, 'h) route \<Rightarrow> string \<rightharpoonup> ('c, 'h) route" where
  "with_name N route = (if rname route = '''' then N else N(rname route \<mapsto> route))"

definition without_name :: "(string \<rightharpoonup> ('c, 'h) route) \<Rightarrow> ('c, 'h) route \<Rightarrow> string \<rightharpoonup> ('c, 'h) route" where
  "without_name N route = (if rname route = '''' then N else N(rname route := None))"

text \<open>The two specifications: what the result may be, over the abstract views of the two trees.\<close>

definition insert_spec ::
  "('c, 'h) route view \<Rightarrow> (string \<rightharpoonup> ('c, 'h) route) \<Rightarrow> token list \<Rightarrow> ('c, 'h) route
   \<Rightarrow> ('c, 'h) error + ('c, 'h) route list \<times> (string \<rightharpoonup> ('c, 'h) route) \<Rightarrow> bool" where
  "insert_spec V N toks route res \<longleftrightarrow>
     (if conflicts_at V toks route \<noteq> {} then
        \<exists>cs. res = Inl (RouteConflictError route cs False) \<and> set cs = conflicts_at V toks route
      else if shadowed_at V toks route \<noteq> {} then
        \<exists>cs. res = Inl (RouteConflictError route cs True) \<and> set cs = shadowed_at V toks route
      else if shadows_at V toks route \<noteq> {} then
        \<exists>cs. res = Inl (RouteConflictError route cs True) \<and> set cs = shadows_at V toks route
      else
        (case (if rname route = '''' then None else N (rname route)) of
           Some r \<Rightarrow> res = Inl (RouteNameConflictError route r)
         | None \<Rightarrow> res = Inr (addRoute (V (canon toks)) route, with_name N route)))"

definition update_spec ::
  "('c, 'h) route view \<Rightarrow> (string \<rightharpoonup> ('c, 'h) route) \<Rightarrow> token list \<Rightarrow> ('c, 'h) route
   \<Rightarrow> ('c, 'h) error + ('c, 'h) route list \<times> (string \<rightharpoonup> ('c, 'h) route) \<Rightarrow> bool" where
  "update_spec V N toks route res \<longleftrightarrow>
     (case index_func (same_route route) (V (canon toks)) of
        None \<Rightarrow> res = Inl (RouteNotFoundError route)
      | Some idx \<Rightarrow>
          let old = V (canon toks) ! idx in
          (case (if rname route = '''' \<or> rname route = rname old then None else N (rname route)) of
             Some r \<Rightarrow> res = Inl (RouteNameConflictError route r)
           | None \<Rightarrow> res = Inr (replaceRoute (V (canon toks)) idx route, with_name (without_name N old) route)))"

definition op_spec ::
  "insertMode \<Rightarrow> ('c, 'h) route view \<Rightarrow> (string \<rightharpoonup> ('c, 'h) route) \<Rightarrow> token list \<Rightarrow> ('c, 'h) route
   \<Rightarrow> ('c, 'h) error + ('c, 'h) route list \<times> (string \<rightharpoonup> ('c, 'h) route) \<Rightarrow> bool" where
  "op_spec mode = (case mode of modeInsert \<Rightarrow> insert_spec | modeUpdate \<Rightarrow> update_spec)"

lemma leaf_sets:
  assumes leaf: "leaf_at p n toks p0 n0" and "catch_all_ok toks route"
  shows "set (if isLeaf n0 then filter (conflicting route) (nroutes n0) else []) = conflicts_at (routes_at n) toks route"
    and "set (case p0 of Some parent \<Rightarrow>
            if optionalCatchAll (rpattern route) then filter (shadowed_by route) (nroutes parent) else []
          | None \<Rightarrow> []) = shadowed_at (routes_at n) toks route"
    and "set (concat (map (\<lambda>w. filter (shadows route) (nroutes w)) (nwildcards n0))) = shadows_at (routes_at n) toks route"
proof -
  show "set (if isLeaf n0 then filter (conflicting route) (nroutes n0) else []) = conflicts_at (routes_at n) toks route"
    using leaf by (auto simp: leaf_at_def conflicts_at_def)
  show "set (case p0 of Some parent \<Rightarrow>
            if optionalCatchAll (rpattern route) then filter (shadowed_by route) (nroutes parent) else []
          | None \<Rightarrow> []) = shadowed_at (routes_at n) toks route"
  proof (cases "optionalCatchAll (rpattern route)")
    case True
    with assms obtain q where "p0 = Some q" "nroutes q = routes_at n (canon (butlast toks))"
      by (auto simp: leaf_at_def catch_all_ok_def)
    with True show ?thesis by (auto simp: shadowed_at_def)
  next
    case False
    then show ?thesis by (cases p0) (simp_all add: shadowed_at_def)
  qed
  have "(\<Union>w \<in> set (nwildcards n0). set (nroutes w)) = wild_routes (routes_at n) (canon toks)"
    using leaf by (simp add: leaf_at_def)
  then show "set (concat (map (\<lambda>w. filter (shadows route) (nroutes w)) (nwildcards n0))) = shadows_at (routes_at n) toks route"
    unfolding shadows_at_def by (auto simp flip: \<open>_ = wild_routes _ _\<close>)
qed

text \<open>What the leaf operation does to the names, and that a failure leaves them alone.\<close>

lemma leafInsert_spec:
  assumes leaf: "leaf_at p n toks p0 n0" and ca: "catch_all_ok toks route" and nm: "names_ok names"
  shows "case leafInsert names p0 n0 route of
      (ns, Inl e) \<Rightarrow> ns = names \<and> insert_spec (routes_at n) (name_map names) toks route (Inl e)
    | (ns, Inr n1) \<Rightarrow> names_ok ns \<and>
        insert_spec (routes_at n) (name_map names) toks route (Inr (nroutes n1, name_map ns))"
proof -
  define cs1 where "cs1 = (if isLeaf n0 then filter (conflicting route) (nroutes n0) else [])"
  define cs2 where "cs2 = (case p0 of Some parent \<Rightarrow>
      if optionalCatchAll (rpattern route) then filter (shadowed_by route) (nroutes parent) else [] | None \<Rightarrow> [])"
  define cs3 where "cs3 = concat (map (\<lambda>w. filter (shadows route) (nroutes w)) (nwildcards n0))"
  note sets = leaf_sets [OF leaf ca, folded cs1_def cs2_def cs3_def]
  have here: "nroutes n0 = routes_at n (canon toks)" using leaf by (simp add: leaf_at_def)
  have eq: "leafInsert names p0 n0 route =
      (if cs1 \<noteq> [] then (names, Inl (RouteConflictError route cs1 False))
       else if cs2 \<noteq> [] then (names, Inl (RouteConflictError route cs2 True))
       else if cs3 \<noteq> [] then (names, Inl (RouteConflictError route cs3 True))
       else case (if rname route \<noteq> '''' then insertName modeInsert names route else (names, None)) of
         (names', Some e) \<Rightarrow> (names', Inl e)
       | (names', None) \<Rightarrow> (names', Inr (set_nroutes (addRoute (nroutes n0) route) n0)))"
    unfolding leafInsert_def Let_def cs1_def cs2_def cs3_def ..
  have ne: "cs = [] \<longleftrightarrow> set cs = {}" for cs :: "('a, 'b) route list" by simp
  show ?thesis
  proof (cases "cs1 = [] \<and> cs2 = [] \<and> cs3 = []")
    case False
    then show ?thesis
      unfolding eq insert_spec_def sets(1) [symmetric] sets(2) [symmetric] sets(3) [symmetric]
      by (cases "cs1 = []"; cases "cs2 = []") auto
  next
    case True
    then have empty: "conflicts_at (routes_at n) toks route = {}" "shadowed_at (routes_at n) toks route = {}"
        "shadows_at (routes_at n) toks route = {}"
      using sets by simp_all
    show ?thesis
    proof (cases "rname route = ''''")
      case True
      with \<open>cs1 = [] \<and> cs2 = [] \<and> cs3 = []\<close> empty nm here show ?thesis
        by (simp add: eq insert_spec_def with_name_def)
    next
      case False
      obtain ns oe where ins: "insertName modeInsert names route = (ns, oe)" by fastforce
      show ?thesis
        using \<open>cs1 = [] \<and> cs2 = [] \<and> cs3 = []\<close> empty False here insertName_names [OF nm, of modeInsert route]
        by (cases oe) (auto simp: eq insert_spec_def with_name_def ins)
    qed
  qed
qed

lemma leafUpdate_spec:
  assumes leaf: "leaf_at p n toks p0 n0" and nm: "names_ok names"
  shows "case leafUpdate names n0 route of
      (ns, Inl e) \<Rightarrow> ns = names \<and> update_spec (routes_at n) (name_map names) toks route (Inl e)
    | (ns, Inr n1) \<Rightarrow> names_ok ns \<and>
        update_spec (routes_at n) (name_map names) toks route (Inr (nroutes n1, name_map ns))"
proof -
  have here: "nroutes n0 = routes_at n (canon toks)" using leaf by (simp add: leaf_at_def)
  show ?thesis
  proof (cases "index_func (same_route route) (routes_at n (canon toks))")
    case None
    then show ?thesis by (simp add: leafUpdate_def here update_spec_def)
  next
    case (Some idx)
    define old where "old = routes_at n (canon toks) ! idx"
    define nc where "nc = set_nroutes (replaceRoute (routes_at n (canon toks)) idx route) n0"
    have eq: "leafUpdate names n0 route =
      (if rname old \<noteq> '''' then
         if rname route = '''' then (fst (deleteName names old), Inr nc)
         else if rname old = rname route then
           (case insertName modeUpdate names route of
              (names', Some e) \<Rightarrow> (names', Inl (Panic ''internal error: update name''))
            | (names', None) \<Rightarrow> (names', Inr nc))
         else
           (case insertName modeInsert names route of
              (names', Some e) \<Rightarrow> (names', Inl e)
            | (names', None) \<Rightarrow> (fst (deleteName names' old), Inr nc))
       else if rname route \<noteq> '''' then
         (case insertName modeInsert names route of
            (names', Some e) \<Rightarrow> (names', Inl e)
          | (names', None) \<Rightarrow> (names', Inr nc))
       else (names, Inr nc))"
      unfolding leafUpdate_def here Some option.case Let_def old_def nc_def ..
    have spec: "update_spec (routes_at n) (name_map names) toks route res \<longleftrightarrow>
        (case (if rname route = '''' \<or> rname route = rname old then None else name_map names (rname route)) of
           Some r \<Rightarrow> res = Inl (RouteNameConflictError route r)
         | None \<Rightarrow> res = Inr (nroutes nc, with_name (without_name (name_map names) old) route))" for res
    proof -
      have nc: "nroutes nc = replaceRoute (routes_at n (canon toks)) idx route" by (simp add: nc_def)
      show ?thesis unfolding update_spec_def Some option.case Let_def old_def [symmetric] nc ..
    qed
    obtain ns oe where ins: "insertName modeInsert names route = (ns, oe)" by fastforce
    obtain ns' oe' where upd: "insertName modeUpdate names route = (ns', oe')" by fastforce
    note I = insertName_names [OF nm, of modeInsert route, unfolded ins]
    note U = insertName_names [OF nm, of modeUpdate route, unfolded upd]
    note D = deleteName_names [OF nm, of old]
    show ?thesis
    proof (cases "rname route = ''''")
      case True
      then show ?thesis
        using D nm unfolding eq spec by (simp add: with_name_def without_name_def)
    next
      case ne: False
      show ?thesis
      proof (cases "rname old = rname route")
        case True
        with ne U show ?thesis
          unfolding eq spec upd by (cases oe') (simp_all add: with_name_def without_name_def)
      next
        case diff: False
        show ?thesis
        proof (cases oe)
          case (Some e)
          with I ne diff show ?thesis unfolding eq spec ins by auto
        next
          case None
          with I have ns: "names_ok ns" "name_map ns = (name_map names)(rname route \<mapsto> route)"
              "name_map names (rname route) = None" by simp_all
          note D' = deleteName_names [OF ns(1), of old]
          have "name_map (fst (deleteName ns old)) = with_name ((name_map names)(rname old := None)) route"
            using D'(2) ns(2) ne diff by (simp add: with_name_def fun_upd_twist)
          then show ?thesis
            using ns D'(1) ne diff None unfolding eq spec ins
            by (simp add: with_name_def without_name_def)
        qed
      qed
    qed
  qed
qed

lemma insertTokens_spec:
  assumes "tree_ok True n" "toks_ok True toks" "names_ok names" "catch_all_ok toks route"
  shows "case insertTokens mode names p n toks route of
      (ns, Inl e) \<Rightarrow> ns = names \<and> op_spec mode (routes_at n) (name_map names) toks route (Inl e)
    | (ns, Inr n') \<Rightarrow> tree_ok True n' \<and> info n' = info n \<and> names_ok ns \<and>
        (\<exists>rs. op_spec mode (routes_at n) (name_map names) toks route (Inr (rs, name_map ns))
          \<and> routes_at n' = (routes_at n)(canon toks := rs))"
proof -
  from insert_outcome(1) [OF assms(1,2), of mode names p route]
  obtain p0 n0 where leaf: "leaf_at p n toks p0 n0" and
    res: "case insertLeaf mode names p0 n0 route of
           (ns, Inl e) \<Rightarrow> insertTokens mode names p n toks route = (ns, Inl e)
         | (ns, Inr n1) \<Rightarrow> \<exists>n'. insertTokens mode names p n toks route = (ns, Inr n')
             \<and> keeps True n (canon toks) (nroutes n1) n'"
    unfolding outcome_def by (elim exE conjE) (rule that)
  have spec: "case insertLeaf mode names p0 n0 route of
      (ns, Inl e) \<Rightarrow> ns = names \<and> op_spec mode (routes_at n) (name_map names) toks route (Inl e)
    | (ns, Inr n1) \<Rightarrow> names_ok ns \<and> op_spec mode (routes_at n) (name_map names) toks route (Inr (nroutes n1, name_map ns))"
  proof (cases mode)
    case modeInsert
    show ?thesis
      using leafInsert_spec [OF leaf assms(4,3)]
      unfolding modeInsert insertLeaf_def op_spec_def insertMode.case .
  next
    case modeUpdate
    show ?thesis
      using leafUpdate_spec [OF leaf assms(3), of route]
      unfolding modeUpdate insertLeaf_def op_spec_def insertMode.case .
  qed
  obtain ns r where ins: "insertLeaf mode names p0 n0 route = (ns, r)" by fastforce
  show ?thesis
  proof (cases r)
    case (Inl e)
    with res spec ins show ?thesis by simp
  next
    case (Inr n1)
    with res ins obtain n' where "insertTokens mode names p n toks route = (ns, Inr n')"
      "keeps True n (canon toks) (nroutes n1) n'" by auto
    with spec ins Inr keepsD [of True n "canon toks" "nroutes n1" n'] show ?thesis by auto
  qed
qed

end
