(* ===== verification/Tree_Delete.thy ===== *)
theory Tree_Delete
  imports Tree_Insert
begin

text \<open>
  Deletion of a route from the pattern tree (\<open>deleteTokens\<close>, \<open>deleteStatic\<close>, \<open>deleteParam\<close>,
  \<open>deleteWildcard\<close> of \<open>tree.go\<close>). A node left without routes and children is removed, and a static
  node left with a single static child is merged with it. The last section proves that the abstract
  view loses exactly the deleted route.
\<close>

subsection \<open>The descent\<close>

definition is_empty :: "'r node \<Rightarrow> bool" where
  "is_empty n \<longleftrightarrow> \<not> isLeaf n \<and> length (nstatics n) = 0 \<and> length (nparams n) = 0 \<and> length (nwildcards n) = 0"

definition single_static :: "'r node \<Rightarrow> bool" where
  "single_static n \<longleftrightarrow> \<not> isLeaf n \<and> length (nstatics n) = 1 \<and> length (nparams n) = 0 \<and> length (nwildcards n) = 0"

text \<open>The merge that ends each modification: \<open>is_root\<close> is the pointer comparison \<open>n == root\<close>.\<close>

definition collapse :: "bool \<Rightarrow> 'r node \<Rightarrow> 'r node" where
  "collapse is_root nc = (if \<not> is_root \<and> single_static nc then mergeChild nc else nc)"

definition deleteLeaf ::
  "bool \<Rightarrow> ('c, 'h) route node \<Rightarrow> ('c, 'h) route node \<Rightarrow> ('c, 'h) route
   \<Rightarrow> ('c, 'h) route node \<times> (('c, 'h) route node \<times> ('c, 'h) route) option" where
  "deleteLeaf is_root names n route =
     (if \<not> isLeaf n then (names, None)
      else
        (case index_func (same_route route) (nroutes n) of
           None \<Rightarrow> (names, None)
         | Some idx \<Rightarrow>
             let oldRoute = nroutes n ! idx;
                 nc = set_nroutes (delRoute (nroutes n) idx) n;
                 names' = (if rname oldRoute \<noteq> '''' then fst (deleteName names oldRoute) else names)
             in (names', Some (collapse is_root nc, oldRoute))))"

function deleteTokens ::
    "bool \<Rightarrow> ('c, 'h) route node \<Rightarrow> ('c, 'h) route node \<Rightarrow> token list \<Rightarrow> ('c, 'h) route
     \<Rightarrow> ('c, 'h) route node \<times> (('c, 'h) route node \<times> ('c, 'h) route) option"
  and deleteStatic ::
    "bool \<Rightarrow> ('c, 'h) route node \<Rightarrow> ('c, 'h) route node \<Rightarrow> string \<Rightarrow> token list \<Rightarrow> ('c, 'h) route
     \<Rightarrow> ('c, 'h) route node \<times> (('c, 'h) route node \<times> ('c, 'h) route) option"
  and deleteParam ::
    "bool \<Rightarrow> ('c, 'h) route node \<Rightarrow> ('c, 'h) route node \<Rightarrow> string \<Rightarrow> token list \<Rightarrow> ('c, 'h) route
     \<Rightarrow> ('c, 'h) route node \<times> (('c, 'h) route node \<times> ('c, 'h) route) option"
  and deleteWildcard ::
    "bool \<Rightarrow> ('c, 'h) route node \<Rightarrow> ('c, 'h) route node \<Rightarrow> string \<Rightarrow> token list \<Rightarrow> ('c, 'h) route
     \<Rightarrow> ('c, 'h) route node \<times> (('c, 'h) route node \<times> ('c, 'h) route) option"
where
  "deleteTokens is_root names n tokens route =
     (case tokens of
        [] \<Rightarrow> deleteLeaf is_root names n route
      | tk # remaining \<Rightarrow>
          (case ttyp tk of
             nodeStatic \<Rightarrow> deleteStatic is_root names n (tvalue tk) remaining route
           | nodeParam \<Rightarrow> deleteParam is_root names n (canonicalKey tk) remaining route
           | nodeWildcard \<Rightarrow> deleteWildcard is_root names n (canonicalKey tk) remaining route))"
| "deleteStatic is_root names n search remaining route =
     (if length search = 0 then deleteTokens is_root names n remaining route
      else
        (case getStaticEdge n (search ! 0) of
           None \<Rightarrow> (names, None)
         | Some (idx, child) \<Rightarrow>
             if \<not> has_prefix search (nkey child) then (names, None)
             else
               let search' = drop (length (nkey child)) search;
                   remaining' = (if 0 < length search'
                     then \<lparr>tregexp = None, tvalue = search', ttyp = nodeStatic, tnested = False, thsplit = False\<rparr> # remaining
                     else remaining)
               in (case deleteTokens False names child remaining' route of
                     (names', None) \<Rightarrow> (names', None)
                   | (names', Some (newChild, deletedRoute)) \<Rightarrow>
                       (names', Some
                          (if is_empty newChild then collapse is_root (delStaticEdge n (search ! 0))
                           else set_nstatics ((nstatics n)[idx := newChild]) n,
                           deletedRoute)))))"
| "deleteParam is_root names n key remaining route =
     (case getParamEdge n key of
        None \<Rightarrow> (names, None)
      | Some (idx, child) \<Rightarrow>
          (case deleteTokens False names child remaining route of
             (names', None) \<Rightarrow> (names', None)
           | (names', Some (newChild, deletedRoute)) \<Rightarrow>
               (names', Some
                  (if is_empty newChild then collapse is_root (delParamEdge n key)
                   else set_nparams ((nparams n)[idx := newChild]) n,
                   deletedRoute))))"
| "deleteWildcard is_root names n key remaining route =
     (case getWildcardEdge n key of
        None \<Rightarrow> (names, None)
      | Some (idx, child) \<Rightarrow>
          (case deleteTokens False names child remaining route of
             (names', None) \<Rightarrow> (names', None)
           | (names', Some (newChild, deletedRoute)) \<Rightarrow>
               (names', Some
                  (if is_empty newChild then collapse is_root (delWildcardEdge n key)
                   else set_nwildcards ((nwildcards n)[idx := newChild]) n,
                   deletedRoute))))"
  by pat_completeness auto
termination
  by (relation "measures
      [\<lambda>x. case x of Inl (Inl (_, _, _, tks, _)) \<Rightarrow> weight tks
                   | Inl (Inr (_, _, _, s, tks, _)) \<Rightarrow> Suc (length s) + weight tks
                   | Inr (Inl (_, _, _, _, tks, _)) \<Rightarrow> Suc (weight tks)
                   | Inr (Inr (_, _, _, _, tks, _)) \<Rightarrow> Suc (weight tks),
       \<lambda>x. case x of Inl (Inl (_, _, n, _, _)) \<Rightarrow> size n
                   | Inl (Inr (_, _, n, _, _, _)) \<Rightarrow> size n
                   | Inr (Inl (_, _, n, _, _, _)) \<Rightarrow> size n
                   | Inr (Inr (_, _, n, _, _, _)) \<Rightarrow> size n,
       \<lambda>x. case x of Inl (Inl _) \<Rightarrow> Suc 0 | _ \<Rightarrow> 0]")
    (auto simp: weight_def dest: static_childD param_childD wildcard_childD intro: child_size)

declare deleteTokens.simps [simp del] deleteStatic.simps [simp del] deleteParam.simps [simp del]
  deleteWildcard.simps [simp del]

subsection \<open>What a step of the descent keeps\<close>

text \<open>
  In the hostname region a node that may be merged is a host node without a slash in its key.
\<close>

definition host_side :: "bool \<Rightarrow> bool \<Rightarrow> 'r node \<Rightarrow> bool" where
  "host_side is_root h n \<longleftrightarrow>
     (h \<longrightarrow> is_root \<or> nlabel n = CHR 0x00 \<or> nhost n \<and> slashDelim \<notin> set (nkey n))"

definition removes :: "bool \<Rightarrow> bool \<Rightarrow> 'r node \<Rightarrow> sym list \<Rightarrow> 'r list \<Rightarrow> 'r node \<Rightarrow> bool" where
  "removes is_root h n s v n' \<longleftrightarrow>
     deleted is_root n s v n' \<and> (h \<longrightarrow> host_ok n' \<and> host_side is_root True n')"

lemma removes_keep:
  assumes "tree_ok h n'" "info n' = info n" "routes_at n' = (routes_at n)(s := v)" "host_side is_root h n"
  shows "removes is_root h n s v n'"
proof -
  have "deleted is_root n s v n'"
    using assms by (intro deleted_keep) (simp_all add: tree_ok_def)
  moreover have "h \<longrightarrow> host_ok n' \<and> host_side is_root True n'"
    using assms infoD [OF assms(2)] by (auto simp: tree_ok_def host_side_def)
  ultimately show ?thesis by (simp add: removes_def)
qed

lemma host_ok_merge:
  assumes n: "host_kids n" "nstatics n = [c]" "nparams n = []" "nwildcards n = []" and hs: "host_side False True n"
  shows "host_ok (mergeChild n) \<and> host_side False True (mergeChild n)"
proof (cases "nlabel n = CHR 0x00 \<or> has_prefix (nkey c) ''/''")
  case True
  with n(2) hs have "mergeChild n = n" by (auto simp: mergeChild_def Let_def host_side_def)
  moreover have "host_ok n" using n(1) host_okI [of n] unfolding host_kids_def by blast
  ultimately show ?thesis using hs by simp
next
  case False
  with hs have host: "nhost n" "slashDelim \<notin> set (nkey n)" by (auto simp: host_side_def)
  have "static_host c" using n by (simp add: host_kids_def)
  with False have c: "slashDelim \<notin> set (nkey c)" "host_ok c" by (auto simp: static_host_def)
  have parts: "nstatics (mergeChild n) = nstatics c" "nparams (mergeChild n) = nparams c"
      "nwildcards (mergeChild n) = nwildcards c" "nkey (mergeChild n) = nkey n @ nkey c" "nhost (mergeChild n) = nhost n"
    using False n by (auto simp: mergeChild_def Let_def)
  have "host_ok (mergeChild n)"
    by (rule host_okI) (use parts host_okD [OF c(2)] in simp_all)
  then show ?thesis using parts host c by (simp add: host_side_def)
qed

lemma removes_collapse:
  assumes rm: "removes is_root h n s v nc" and ok: "h \<Longrightarrow> host_kids nc"
  shows "removes is_root h n s v (collapse is_root nc)"
proof (cases "\<not> is_root \<and> single_static nc")
  case False
  show ?thesis unfolding collapse_def if_not_P [OF False] by (rule rm)
next
  case True
  then obtain c where c: "nstatics nc = [c]" "nparams nc = []" "nwildcards nc = []" "nroutes nc = []"
    by (auto simp: single_static_def length_1_iff)
  have "deleted False n s v (mergeChild nc)"
    using deleted_merge [of n s v nc c] rm True c by (simp add: removes_def)
  moreover have "host_ok (mergeChild nc) \<and> host_side False True (mergeChild nc)" if h
    using host_ok_merge [OF ok [OF that] c(1-3)] rm True that by (simp add: removes_def)
  ultimately show ?thesis using True by (simp add: collapse_def removes_def)
qed

lemma removes_tree_ok:
  assumes "removes is_root h n s v n'"
  shows "tree_ok h n'"
  using assms by (simp add: removes_def deleted_def tree_ok_def)

lemma host_kids_subset:
  assumes "host_kids n" "set (nstatics n') \<subseteq> set (nstatics n)" "set (nparams n') \<subseteq> set (nparams n)"
    "set (nwildcards n') \<subseteq> set (nwildcards n)"
  shows "host_kids n'"
  using assms by (auto simp: host_kids_def)

lemma is_emptyD:
  "is_empty n \<Longrightarrow> nroutes n = []" "is_empty n \<Longrightarrow> nstatics n = []"
  "is_empty n \<Longrightarrow> nparams n = []" "is_empty n \<Longrightarrow> nwildcards n = []"
  by (simp_all add: is_empty_def)

lemma delEdge_simps [simp]:
  "nroutes (delParamEdge n k) = nroutes n" "nstatics (delParamEdge n k) = nstatics n"
  "nwildcards (delParamEdge n k) = nwildcards n"
  "nroutes (delWildcardEdge n k) = nroutes n" "nstatics (delWildcardEdge n k) = nstatics n"
  "nparams (delWildcardEdge n k) = nparams n"
  by (simp_all add: delParamEdge_def delWildcardEdge_def)

text \<open>The four steps: removing the routes of a leaf, and passing a child's change to its parent.\<close>

lemma removes_leaf:
  assumes ok: "tree_ok h n" and hs: "host_side is_root h n"
  shows "removes is_root h n [] rs (collapse is_root (set_nroutes rs n))"
proof (rule removes_collapse)
  show "removes is_root h n [] rs (set_nroutes rs n)"
    by (rule removes_keep) (use ok hs in \<open>simp_all add: routes_at_set_nroutes\<close>)
  show "host_kids (set_nroutes rs n)" if h
    using tree_ok_kids [OF ok that] by (rule host_kids_subset) simp_all
qed

lemma static_child_side:
  assumes "tree_ok h n" "getStaticEdge n c = Some (i, child)"
  shows "host_side False (h \<and> \<not> path_key (nkey child)) child"
  using tree_ok_static(1) [OF assms] by (auto simp: host_side_def child_ok_def static_host_def)

lemma removes_static:
  assumes ok: "tree_ok h n" and hs: "host_side is_root h n" and get: "getStaticEdge n c = Some (i, child)"
    and rm: "removes False (h \<and> \<not> path_key (nkey child)) child s v new"
    and dead: "is_empty new \<Longrightarrow> v = []"
  shows "removes is_root h n (statics_of (nkey child) @ s) v
    (if is_empty new then collapse is_root (delStaticEdge n c) else set_nstatics ((nstatics n)[i := new]) n)"
proof -
  have wf: "wf_node n" using tree_ok_wf [OF ok] .
  have del: "deleted False child s v new" using rm by (simp add: removes_def)
  show ?thesis
  proof (cases "is_empty new")
    case True
    have sub: "set (nstatics (delStaticEdge n c)) \<subseteq> set (nstatics n)"
      using st.set_del [OF wf_nodeD(1) [OF wf]] by (auto simp: delStaticEdge_def)
    have kids: "host_kids (delStaticEdge n c)" if h
      using tree_ok_kids [OF ok that] sub by (rule host_kids_subset) simp_all
    have "tree_ok h (delStaticEdge n c)"
      using wf_delStaticEdge [OF wf] kids by (simp add: tree_ok_iff)
    moreover have "routes_at (delStaticEdge n c) = (routes_at n)(statics_of (nkey child) @ s := v)"
      using view_removed_static [OF wf get] del is_emptyD [OF True] dead [OF True] by blast
    ultimately have "removes is_root h n (statics_of (nkey child) @ s) v (delStaticEdge n c)"
      using hs by (intro removes_keep) simp_all
    with True removes_collapse [OF _ kids] show ?thesis by simp
  next
    case False
    note view = view_deleted_child [OF wf get del]
    obtain k where k: "nkey child = c # k" using static_keyD [OF wf_edges [OF wf] get] by blast
    obtain k' where k': "nkey new = nkey child @ k'" using del by (auto simp: deleted_def)
    have lab: "nlabel new = c" using del static_childD(4) [OF get] by (simp add: deleted_def)
    have "static_host new" if h
    proof (cases "path_key (nkey child)")
      case True
      then show ?thesis using k k' by (simp add: static_host_def)
    next
      case False
      then have hn: "host_ok new" "nlabel new = CHR 0x00 \<or> nhost new \<and> slashDelim \<notin> set (nkey new)"
        using rm that by (auto simp: removes_def host_side_def)
      show ?thesis
      proof (cases "nlabel new = CHR 0x00")
        case True
        then have "nkey new = nkey child" "nhost new = nhost child"
          using del lab static_childD(4) [OF get] by (auto simp: deleted_def)
        then show ?thesis
          using tree_ok_static(1) [OF ok get] that hn(1) by (auto simp: child_ok_def static_host_def)
      qed (use hn in \<open>auto simp: static_host_def\<close>)
    qed
    then have "child_ok h new"
      using removes_tree_ok [OF rm] k k' lab by (simp add: child_ok_def static_ok_def tree_ok_def)
    then have "tree_ok h (set_nstatics ((nstatics n)[i := new]) n)"
      by (rule tree_ok_updStatic [OF ok _ get lab])
    then show ?thesis
      using False hs view(1) by (simp add: removes_keep)
  qed
qed

lemma removes_param:
  assumes ok: "tree_ok h n" and hs: "host_side is_root h n" and get: "getParamEdge n key = Some (i, child)"
    and rm: "removes False h child s v new" and dead: "is_empty new \<Longrightarrow> v = []"
  shows "removes is_root h n (SP key # s) v
    (if is_empty new then collapse is_root (delParamEdge n key) else set_nparams ((nparams n)[i := new]) n)"
proof -
  have wf: "wf_node n" using tree_ok_wf [OF ok] .
  have lab: "nlabel child = CHR 0x00" using param_label [OF wf get] .
  have del: "deleted False child s v new" using rm by (simp add: removes_def)
  have key: "nkey new = key" and view: "routes_at new = (routes_at child)(s := v)" and lab': "nlabel new = CHR 0x00"
    using deleted_plain_view [OF del] del lab param_childD(4) [OF get] by (simp_all add: deleted_def)
  show ?thesis
  proof (cases "is_empty new")
    case True
    have sub: "set (nparams (delParamEdge n key)) \<subseteq> set (nparams n)"
      using ke.set_del [OF wf_nodeD(2) [OF wf]] by (auto simp: delParamEdge_def)
    have kids: "host_kids (delParamEdge n key)" if h
      using tree_ok_kids [OF ok that] _ sub by (rule host_kids_subset) simp_all
    have "tree_ok h (delParamEdge n key)"
      using wf_delParamEdge [OF wf] kids by (simp add: tree_ok_iff)
    moreover have "(routes_at child)(s := []) = empty_view"
      using view view_empty_node [OF is_emptyD [OF True]] dead [OF True] by simp
    then have "routes_at (delParamEdge n key) = (routes_at n)(SP key # [] @ s := [])"
      by (intro view_removed_child [of _ _ "SP key" "[]"])
        (simp_all add: kids_delParamEdge [OF wf_edges [OF wf]] kids_Some(2) [OF get])
    ultimately have "removes is_root h n (SP key # s) v (delParamEdge n key)"
      using hs dead [OF True] by (intro removes_keep) simp_all
    with True removes_collapse [OF _ kids] show ?thesis by simp
  next
    case False
    have "routes_at (set_nparams ((nparams n)[i := new]) n) = (routes_at n)(SP key # [] @ s := v)"
      by (rule view_changed_child [OF _ _ _ view])
        (simp_all add: kids_updParam [OF wf_edges [OF wf] get key] kids_Some(2) [OF get])
    with False hs show ?thesis
      using tree_ok_updParam [OF ok removes_tree_ok [OF rm] get key lab'] by (simp add: removes_keep)
  qed
qed

lemma removes_wildcard:
  assumes ok: "tree_ok h n" and hs: "host_side is_root h n" and get: "getWildcardEdge n key = Some (i, child)"
    and rm: "removes False h child s v new" and dead: "is_empty new \<Longrightarrow> v = []"
  shows "removes is_root h n (SW key # s) v
    (if is_empty new then collapse is_root (delWildcardEdge n key) else set_nwildcards ((nwildcards n)[i := new]) n)"
proof -
  have wf: "wf_node n" using tree_ok_wf [OF ok] .
  have lab: "nlabel child = CHR 0x00" using wildcard_label [OF wf get] .
  have del: "deleted False child s v new" using rm by (simp add: removes_def)
  have key: "nkey new = key" and view: "routes_at new = (routes_at child)(s := v)" and lab': "nlabel new = CHR 0x00"
    using deleted_plain_view [OF del] del lab wildcard_childD(4) [OF get] by (simp_all add: deleted_def)
  show ?thesis
  proof (cases "is_empty new")
    case True
    have sub: "set (nwildcards (delWildcardEdge n key)) \<subseteq> set (nwildcards n)"
      using ke.set_del [OF wf_nodeD(3) [OF wf]] by (auto simp: delWildcardEdge_def)
    have kids: "host_kids (delWildcardEdge n key)" if h
      using tree_ok_kids [OF ok that] _ _ sub by (rule host_kids_subset) simp_all
    have "tree_ok h (delWildcardEdge n key)"
      using wf_delWildcardEdge [OF wf] kids by (simp add: tree_ok_iff)
    moreover have "(routes_at child)(s := []) = empty_view"
      using view view_empty_node [OF is_emptyD [OF True]] dead [OF True] by simp
    then have "routes_at (delWildcardEdge n key) = (routes_at n)(SW key # [] @ s := [])"
      by (intro view_removed_child [of _ _ "SW key" "[]"])
        (simp_all add: kids_delWildcardEdge [OF wf_edges [OF wf]] kids_Some(3) [OF get])
    ultimately have "removes is_root h n (SW key # s) v (delWildcardEdge n key)"
      using hs dead [OF True] by (intro removes_keep) simp_all
    with True removes_collapse [OF _ kids] show ?thesis by simp
  next
    case False
    have "routes_at (set_nwildcards ((nwildcards n)[i := new]) n) = (routes_at n)(SW key # [] @ s := v)"
      by (rule view_changed_child [OF _ _ _ view])
        (simp_all add: kids_updWildcard [OF wf_edges [OF wf] get key] kids_Some(3) [OF get])
    with False hs show ?thesis
      using tree_ok_updWildcard [OF ok removes_tree_ok [OF rm] get key lab'] by (simp add: removes_keep)
  qed
qed

lemma removes_empty:
  assumes "removes r h n s v new" "is_empty new"
  shows "v = []"
proof -
  have "full_view new = (full_view n)(statics_of (nkey n) @ s := v)"
    using assms(1) by (simp add: removes_def deleted_def)
  moreover have "full_view new = empty_view"
    using view_empty_node [OF is_emptyD [OF assms(2)]] by simp
  ultimately show ?thesis by (metis fun_upd_same)
qed

subsection \<open>The induction\<close>

text \<open>What the deletion returns, over the view of the tree and the tree of names.\<close>

definition delete_result ::
  "bool \<Rightarrow> bool \<Rightarrow> ('c, 'h) route node \<Rightarrow> ('c, 'h) route node \<Rightarrow> sym list \<Rightarrow> ('c, 'h) route
   \<Rightarrow> ('c, 'h) route node \<times> (('c, 'h) route node \<times> ('c, 'h) route) option \<Rightarrow> bool" where
  "delete_result is_root h names n s route res \<longleftrightarrow>
     (let rs = routes_at n s in
      case index_func (same_route route) rs of
        None \<Rightarrow> res = (names, None)
      | Some idx \<Rightarrow> \<exists>n'. res = (if rname (rs ! idx) \<noteq> '''' then fst (deleteName names (rs ! idx)) else names, Some (n', rs ! idx))
          \<and> removes is_root h n s (delRoute rs idx) n')"

lemma delete_result_none:
  "routes_at n s = [] \<Longrightarrow> delete_result is_root h names n s route (names, None)"
  by (simp add: delete_result_def)

lemma delete_result_step:
  assumes sub: "delete_result False h' names child s route sub"
    and view: "routes_at n s' = routes_at child s"
    and link: "\<And>v new. removes False h' child s v new \<Longrightarrow> removes is_root h n s' v (link new)"
    and res: "res = (case sub of (names', None) \<Rightarrow> (names', None)
        | (names', Some (new, old)) \<Rightarrow> (names', Some (link new, old)))"
  shows "delete_result is_root h names n s' route res"
proof (cases "index_func (same_route route) (routes_at child s)")
  case None
  with sub view res show ?thesis by (simp add: delete_result_def)
next
  case (Some idx)
  with sub obtain new where "sub = (if rname (routes_at child s ! idx) \<noteq> '''' then
      fst (deleteName names (routes_at child s ! idx)) else names, Some (new, routes_at child s ! idx))"
      "removes False h' child s (delRoute (routes_at child s) idx) new"
    by (auto simp: delete_result_def Let_def)
  with Some view res link show ?thesis by (auto simp: delete_result_def Let_def)
qed

lemma delete_result_leaf:
  assumes "tree_ok h n" "host_side is_root h n"
  shows "delete_result is_root h names n [] route (deleteLeaf is_root names n route)"
  using removes_leaf [OF assms]
  by (cases "index_func (same_route route) (nroutes n)") (auto simp: delete_result_def deleteLeaf_def Let_def)

text \<open>
  \<open>deleteStatic\<close> rebuilds the token of a partly consumed key without its \<open>hsplit\<close> flag, which deletion
  does not read: the condition on the tokens is stated with the flag set.
\<close>

definition marked :: "token list \<Rightarrow> token list" where
  "marked tks = map (\<lambda>tk. tk\<lparr>thsplit := True\<rparr>) tks"

abbreviation static_token :: "string \<Rightarrow> token" where
  "static_token s \<equiv> \<lparr>tregexp = None, tvalue = s, ttyp = nodeStatic, tnested = False, thsplit = False\<rparr>"

lemma marked_simps [simp]: "marked [] = []" "marked (tk # tks) = tk\<lparr>thsplit := True\<rparr> # marked tks"
  by (simp_all add: marked_def)

lemma canon_marked [simp]: "canon (marked tks) = canon tks"
proof (induction tks)
  case (Cons tk tks)
  have "tok_syms (tk\<lparr>thsplit := True\<rparr>) = tok_syms tk"
    by (cases "ttyp tk") (cases "tregexp tk"; simp add: tok_syms_def canonicalKey_def)+
  with Cons show ?case by simp
qed simp

lemma toks_ok_marked: "toks_ok h tks \<Longrightarrow> toks_ok h (marked tks)"
proof (induction h tks rule: toks_ok.induct)
  case (2 h tk tks)
  have nxt: "(case marked tks of [] \<Rightarrow> False | t # _ \<Rightarrow> ttyp t = nodeStatic) = (case tks of [] \<Rightarrow> False | t # _ \<Rightarrow> ttyp t = nodeStatic)"
    "tks \<noteq> [] \<Longrightarrow> tvalue (hd (marked tks)) = tvalue (hd tks)"
    by (cases tks; simp)+
  show ?case
    using 2 nxt by (cases tks) (auto simp: Let_def split: if_splits)
qed simp

lemma delete_miss:
  assumes ok: "tree_ok h n" and toks: "toks_ok h (marked (static_token search # remaining))" and ne: "search \<noteq> []"
    and get: "getStaticEdge n (search ! 0) = Some (i, child)" and no: "\<not> has_prefix search (nkey child)"
  shows "routes_at n (statics_of search @ canon remaining) = []"
proof -
  let ?tk = "(static_token search)\<lparr>thsplit := True\<rparr>"
  have "splits_at h n ?tk (marked remaining) i child (longestPrefix search (nkey child))"
    unfolding splits_at_def using ok toks ne get no by (simp add: longestPrefix_full del: toks_ok.simps)
  from split_miss [OF this, of "canon remaining"] show ?thesis by simp
qed

lemma delete_refines:
  "tree_ok h n \<Longrightarrow> host_side is_root h n \<Longrightarrow> toks_ok h (marked tokens) \<Longrightarrow>
     delete_result is_root h names n (canon tokens) route (deleteTokens is_root names n tokens route)"
  "tree_ok h n \<Longrightarrow> host_side is_root h n \<Longrightarrow> toks_ok h (marked (static_token search # remaining)) \<Longrightarrow>
     delete_result is_root h names n (statics_of search @ canon remaining) route
       (deleteStatic is_root names n search remaining route)"
  "tree_ok h n \<Longrightarrow> host_side is_root h n \<Longrightarrow> toks_ok h (marked remaining) \<Longrightarrow>
     delete_result is_root h names n (SP key # canon remaining) route (deleteParam is_root names n key remaining route)"
  "tree_ok h n \<Longrightarrow> host_side is_root h n \<Longrightarrow> toks_ok h (marked remaining) \<Longrightarrow>
     delete_result is_root h names n (SW key # canon remaining) route (deleteWildcard is_root names n key remaining route)"
proof (induction is_root names n tokens route and is_root names n search remaining route
    and is_root names n key remaining route and is_root names n key remaining route
    arbitrary: h and h and h and h
    rule: deleteTokens_deleteStatic_deleteParam_deleteWildcard.induct)
  case (1 is_root names n tokens route)
  note ok = "1.prems"(1,2) and toks = "1.prems"(3)
  show ?case
  proof (cases tokens)
    case Nil
    with delete_result_leaf [OF ok] show ?thesis
      by (simp add: deleteTokens.simps [of is_root names n "[]" route])
  next
    case (Cons tk remaining)
    note eq = deleteTokens.simps [of is_root names n "tk # remaining" route, unfolded list.case]
    show ?thesis
    proof (cases "ttyp tk")
      case nodeStatic
      with toks Cons have "toks_ok h (marked (static_token (tvalue tk) # remaining))" by (auto simp: Let_def)
      from "1.IH"(1) [OF Cons nodeStatic ok this] show ?thesis
        unfolding Cons eq by (simp add: nodeStatic tok_syms_def)
    next
      case nodeParam
      with toks Cons have "toks_ok h (marked remaining)" by simp
      from "1.IH"(2) [OF Cons nodeParam ok this] show ?thesis
        unfolding Cons eq by (simp add: nodeParam tok_syms_def)
    next
      case nodeWildcard
      with toks Cons have "toks_ok h (marked remaining)" by simp
      from "1.IH"(3) [OF Cons nodeWildcard ok this] show ?thesis
        unfolding Cons eq by (simp add: nodeWildcard tok_syms_def)
    qed
  qed
next
  case (2 is_root names n search remaining route)
  note ok = "2.prems"(1) and hs = "2.prems"(2) and toks = "2.prems"(3)
  have toks': "toks_ok h ((static_token search)\<lparr>thsplit := True\<rparr> # marked remaining)" using toks by simp
  show ?case
  proof (cases "search = []")
    case True
    then have "toks_ok h (marked remaining)" using toks_ok_static(1) [OF toks'] by simp
    from "2.IH"(1) [OF _ ok hs this] True show ?thesis by (subst deleteStatic.simps) simp
  next
    case ne: False
    then have len: "length search \<noteq> 0" by simp
    show ?thesis
    proof (cases "getStaticEdge n (search ! 0)")
      case None
      with ne show ?thesis
        using delete_result_none [OF routes_at_no_static [OF None ne]] by (subst deleteStatic.simps) simp
    next
      case (Some q)
      then obtain i child where get: "getStaticEdge n (search ! 0) = Some (i, child)" by (cases q) auto
      show ?thesis
      proof (cases "has_prefix search (nkey child)")
        case False
        with ne get delete_result_none [OF delete_miss [OF ok toks ne get False]] show ?thesis
          by (subst deleteStatic.simps) simp
      next
        case pre: True
        then have npre: "\<not> \<not> has_prefix search (nkey child)" by simp
        define search' where "search' = drop (length (nkey child)) search"
        define remaining' where "remaining' = (if 0 < length search' then static_token search' # remaining else remaining)"
        have split: "search = nkey child @ search'" using has_prefix_drop [OF pre] by (simp add: search'_def)
        then have path: "statics_of search = statics_of (nkey child) @ statics_of search'" by (metis map_append)
        have canon': "canon remaining' = statics_of search' @ canon remaining"
          by (simp add: remaining'_def tok_syms_def)
        have toks'': "toks_ok (h \<and> \<not> path_key (nkey child)) (marked remaining')"
        proof (cases "search' = []")
          case True
          with split toks_ok_static(1) [OF toks'] show ?thesis by (simp add: remaining'_def)
        next
          case False
          have "toks_ok (h \<and> \<not> path_key (nkey child)) ((static_token search')\<lparr>thsplit := True\<rparr> # marked remaining)"
            by (rule toks_ok_suffix [OF ok _ toks', of i child]) (use get pre in \<open>simp_all add: search'_def\<close>)
          with False show ?thesis by (simp add: remaining'_def del: toks_ok.simps)
        qed
        note IH = "2.IH"(2) [OF len get refl npre search'_def remaining'_def tree_ok_static(2) [OF ok get]
            static_child_side [OF ok get] toks'']
        obtain kk where kk: "nkey child = search ! 0 # kk"
          using static_keyD [OF wf_edges [OF tree_ok_wf [OF ok]] get] by blast
        show ?thesis
        proof (rule delete_result_step [OF IH])
          show "routes_at n (statics_of search @ canon remaining) = routes_at child (canon remaining')"
            using routes_at_below [of n "SC (search ! 0)" "statics_of kk" child "canon remaining'"]
              kids_Some(1) [OF get] kk canon' by (simp add: path)
          show "removes is_root h n (statics_of search @ canon remaining) v
              (if is_empty new then collapse is_root (delStaticEdge n (search ! 0))
               else set_nstatics ((nstatics n)[i := new]) n)"
            if "removes False (h \<and> \<not> path_key (nkey child)) child (canon remaining') v new" for v new
            using removes_static [OF ok hs get that removes_empty [OF that]] canon' by (simp add: path)
        qed (use ne get pre in \<open>simp add: deleteStatic.simps [of is_root names n search remaining route]
            search'_def [symmetric] remaining'_def [symmetric] Let_def del: length_greater_0_conv\<close>)
      qed
    qed
  qed
next
  case (3 is_root names n key remaining route)
  note ok = "3.prems"(1) and hs = "3.prems"(2) and toks = "3.prems"(3)
  show ?case
  proof (cases "getParamEdge n key")
    case None
    with delete_result_none [OF routes_at_param(1) [OF None]] show ?thesis by (subst deleteParam.simps) simp
  next
    case (Some q)
    then obtain i child where get: "getParamEdge n key = Some (i, child)" by (cases q) auto
    have "host_side False h child"
      using param_label [OF tree_ok_wf [OF ok] get] by (simp add: host_side_def)
    note IH = "3.IH" [OF get refl tree_ok_param [OF ok get] this toks]
    show ?thesis
    proof (rule delete_result_step [OF IH])
      show "routes_at n (SP key # canon remaining) = routes_at child (canon remaining)"
        by (rule routes_at_param(2) [OF get])
      show "removes is_root h n (SP key # canon remaining) v
          (if is_empty new then collapse is_root (delParamEdge n key) else set_nparams ((nparams n)[i := new]) n)"
        if "removes False h child (canon remaining) v new" for v new
        using removes_param [OF ok hs get that removes_empty [OF that]] .
    qed (use get in \<open>simp add: deleteParam.simps [of is_root names n key remaining route]\<close>)
  qed
next
  case (4 is_root names n key remaining route)
  note ok = "4.prems"(1) and hs = "4.prems"(2) and toks = "4.prems"(3)
  show ?case
  proof (cases "getWildcardEdge n key")
    case None
    with delete_result_none [OF routes_at_wildcard(1) [OF None]] show ?thesis by (subst deleteWildcard.simps) simp
  next
    case (Some q)
    then obtain i child where get: "getWildcardEdge n key = Some (i, child)" by (cases q) auto
    have "host_side False h child"
      using wildcard_label [OF tree_ok_wf [OF ok] get] by (simp add: host_side_def)
    note IH = "4.IH" [OF get refl tree_ok_wildcard [OF ok get] this toks]
    show ?thesis
    proof (rule delete_result_step [OF IH])
      show "routes_at n (SW key # canon remaining) = routes_at child (canon remaining)"
        by (rule routes_at_wildcard(2) [OF get])
      show "removes is_root h n (SW key # canon remaining) v
          (if is_empty new then collapse is_root (delWildcardEdge n key) else set_nwildcards ((nwildcards n)[i := new]) n)"
        if "removes False h child (canon remaining) v new" for v new
        using removes_wildcard [OF ok hs get that removes_empty [OF that]] .
    qed (use get in \<open>simp add: deleteWildcard.simps [of is_root names n key remaining route]\<close>)
  qed
qed

end
