(* ===== verification/Registry.thy ===== *)
theory Registry
  imports Tree_Delete
begin

text \<open>
  The abstract registry of routes: what the two trees and the counters of a transaction stand for.
  A registry is the set of the registered routes; \<open>registry_ok\<close> relates it to the leaves of the pattern
  tree, the map of names, the number of routes and the number of routes per method. The lemmas say what
  adding, replacing and removing one route does to each of them.
\<close>

subsection \<open>Routes, places and clashes\<close>

definition routes_of :: "'r view \<Rightarrow> 'r set" where
  "routes_of V = (\<Union>k. set (V k))"

text \<open>The leaf of a route, and what the constructor of routes establishes (\<open>pat\<close> parses patterns).\<close>

definition place :: "('c, 'h) route \<Rightarrow> sym list" where
  "place r = canon (ptokens (rpattern r))"

definition route_ok :: "(string \<Rightarrow> pattern) \<Rightarrow> ('c, 'h) route \<Rightarrow> bool" where
  "route_ok pat r \<longleftrightarrow>
     rpattern r = pat (pstr (rpattern r)) \<and> sorted (rmethods r) \<and> distinct (rmethods r) \<and> fast_ok r
     \<and> toks_ok True (ptokens (rpattern r)) \<and> catch_all_ok (ptokens (rpattern r)) r"

definition identical :: "('c, 'h) route \<Rightarrow> ('c, 'h) route \<Rightarrow> bool" where
  "identical r r' \<longleftrightarrow>
     pstr (rpattern r) = pstr (rpattern r') \<and> rmethods r = rmethods r' \<and> mset (rmatchers r) = mset (rmatchers r')"

definition share_method :: "('c, 'h) route \<Rightarrow> ('c, 'h) route \<Rightarrow> bool" where
  "share_method r r' \<longleftrightarrow>
     (rmethods r = [] \<and> rmethods r' = []) \<or> set (rmethods r) \<inter> set (rmethods r') \<noteq> {}"

text \<open>
  \<open>w\<close> ends with an optional catch-all that also accepts the path on which \<open>r\<close> ends, for requests that
  \<open>r\<close> accepts too.
\<close>

definition hides :: "('c, 'h) route \<Rightarrow> ('c, 'h) route \<Rightarrow> bool" where
  "hides w r \<longleftrightarrow>
     optionalCatchAll (rpattern w) \<and> (\<exists>x. place w = place r @ [SW x])
     \<and> set (rmatchers r) \<subseteq> set (rmatchers w) \<and> (rmethods r = [] \<or> share_method r w)"

definition same_leaf_conflict :: "('c, 'h) route \<Rightarrow> ('c, 'h) route \<Rightarrow> bool" where
  "same_leaf_conflict r r' \<longleftrightarrow>
     place r = place r' \<and> mset (rmatchers r) = mset (rmatchers r') \<and> share_method r r'"

definition route_clash :: "('c, 'h) route \<Rightarrow> ('c, 'h) route \<Rightarrow> bool" where
  "route_clash r r' \<longleftrightarrow> same_leaf_conflict r r' \<or> hides r r' \<or> hides r' r"

definition name_clash :: "('c, 'h) route \<Rightarrow> ('c, 'h) route \<Rightarrow> bool" where
  "name_clash r r' \<longleftrightarrow> rname r \<noteq> '''' \<and> rname r = rname r'"

lemma route_clash_self: "route_clash r r"
  by (cases "rmethods r") (auto simp: route_clash_def same_leaf_conflict_def share_method_def)

lemma route_clash_sym: "route_clash r r' \<longleftrightarrow> route_clash r' r"
  by (auto simp: route_clash_def same_leaf_conflict_def share_method_def)

lemma route_clash_identical:
  assumes "identical r r'" "route_ok pat r" "route_ok pat r'"
  shows "route_clash r x \<longleftrightarrow> route_clash r' x"
proof -
  from assms have "rpattern r = rpattern r'" by (simp add: identical_def route_ok_def)
  moreover from assms have "set (rmatchers r) = set (rmatchers r')"
    by (metis identical_def mset_eq_setD)
  ultimately show ?thesis
    using assms(1) unfolding route_clash_def same_leaf_conflict_def hides_def share_method_def place_def identical_def
    by simp
qed

lemma same_route_identical: "same_route route r \<longleftrightarrow> identical route r"
  by (auto simp: same_route_def identical_def matchersEqual_mset)

subsection \<open>The invariant\<close>

definition leaves_ok :: "(string \<Rightarrow> pattern) \<Rightarrow> ('c, 'h) route view \<Rightarrow> bool" where
  "leaves_ok pat V \<longleftrightarrow>
     finite {k. V k \<noteq> []}
     \<and> (\<forall>k. \<forall>r \<in> set (V k). place r = k \<and> route_ok pat r)
     \<and> (\<forall>k. distinct (V k) \<and> leaf_sorted (V k))"

definition clash_free :: "('c, 'h) route set \<Rightarrow> bool" where
  "clash_free R \<longleftrightarrow> (\<forall>r \<in> R. \<forall>r' \<in> R. r \<noteq> r' \<longrightarrow> \<not> route_clash r r' \<and> \<not> name_clash r r')"

definition names_of :: "('c, 'h) route set \<Rightarrow> string \<Rightarrow> ('c, 'h) route option \<Rightarrow> bool" where
  "names_of R s res \<longleftrightarrow>
     (case res of Some r \<Rightarrow> s \<noteq> '''' \<and> r \<in> R \<and> rname r = s | None \<Rightarrow> \<forall>r \<in> R. rname r \<noteq> '''' \<longrightarrow> rname r \<noteq> s)"

definition method_count :: "('c, 'h) route set \<Rightarrow> string \<Rightarrow> nat" where
  "method_count R m = card {r \<in> R. m \<in> set (rmethods r)}"

text \<open>A counter map has no entry for a count of zero.\<close>

definition counter :: "(string \<Rightarrow> nat) \<Rightarrow> string \<rightharpoonup> nat" where
  "counter f m = (if f m = 0 then None else Some (f m))"

definition registry_ok ::
  "(string \<Rightarrow> pattern) \<Rightarrow> ('c, 'h) route view \<Rightarrow> (string \<rightharpoonup> ('c, 'h) route) \<Rightarrow> int \<Rightarrow> (string \<rightharpoonup> nat) \<Rightarrow> bool" where
  "registry_ok pat V N sz ms \<longleftrightarrow>
     leaves_ok pat V \<and> clash_free (routes_of V) \<and> (\<forall>s. names_of (routes_of V) s (N s))
     \<and> sz = int (card (routes_of V)) \<and> ms = counter (method_count (routes_of V))"

lemma leaves_okD:
  assumes "leaves_ok pat V"
  shows "finite (routes_of V)" "r \<in> routes_of V \<longleftrightarrow> r \<in> set (V (place r))"
    "r \<in> set (V k) \<Longrightarrow> place r = k" "r \<in> routes_of V \<Longrightarrow> route_ok pat r" "distinct (V k)" "leaf_sorted (V k)"
proof -
  have "routes_of V = (\<Union>k \<in> {k. V k \<noteq> []}. set (V k))" by (force simp: routes_of_def)
  with assms show "finite (routes_of V)" by (simp add: leaves_ok_def)
qed (use assms in \<open>auto simp: leaves_ok_def routes_of_def\<close>)

lemma routes_of_update:
  assumes "leaves_ok pat V"
  shows "routes_of (V(k := rs)) = (routes_of V - set (V k)) \<union> set rs"
proof -
  have other: "k' = k" if "r \<in> set (V k')" "r \<in> set (V k)" for r k'
    using leaves_okD(3) [OF assms that(1)] leaves_okD(3) [OF assms that(2)] by simp
  show ?thesis
  proof (intro set_eqI iffI)
    fix r assume "r \<in> routes_of (V(k := rs))"
    then obtain k' where "r \<in> set ((V(k := rs)) k')" by (auto simp: routes_of_def)
    then show "r \<in> (routes_of V - set (V k)) \<union> set rs"
      using other by (cases "k' = k") (auto simp: routes_of_def)
  next
    fix r assume "r \<in> (routes_of V - set (V k)) \<union> set rs"
    then consider "r \<in> set rs" | k' where "r \<in> set (V k')" "k' \<noteq> k" by (auto simp: routes_of_def)
    then show "r \<in> routes_of (V(k := rs))"
    proof cases
      case 1
      then have "r \<in> set ((V(k := rs)) k)" by simp
      then show ?thesis unfolding routes_of_def by blast
    next
      case 2
      then have "r \<in> set ((V(k := rs)) k')" by simp
      then show ?thesis unfolding routes_of_def by blast
    qed
  qed
qed

lemma leaves_ok_update:
  assumes "leaves_ok pat V" "\<forall>r \<in> set rs. place r = k \<and> route_ok pat r" "distinct rs" "leaf_sorted rs"
  shows "leaves_ok pat (V(k := rs))"
proof -
  have "{k'. (V(k := rs)) k' \<noteq> []} \<subseteq> insert k {k. V k \<noteq> []}" by auto
  moreover have "finite (insert k {k. V k \<noteq> []})"
    using assms(1) by (simp add: leaves_ok_def)
  ultimately have "finite {k'. (V(k := rs)) k' \<noteq> []}" by (rule finite_subset)
  then show ?thesis
    using assms by (simp add: leaves_ok_def)
qed

subsection \<open>Names and method counters\<close>

lemma names_of_insert:
  assumes "\<forall>s. names_of R s (N s)" "\<forall>r \<in> R. \<not> name_clash route r"
  shows "names_of (insert route R) s (with_name N route s)"
  using assms(1) [rule_format, of s] assms(2)
  by (auto simp: names_of_def with_name_def name_clash_def split: option.splits)

lemma names_of_remove:
  assumes "\<forall>s. names_of R s (N s)" "clash_free R" "old \<in> R"
  shows "names_of (R - {old}) s (without_name N old s)"
  using assms(1) [rule_format, of s] assms(2,3)
  by (auto simp: names_of_def without_name_def name_clash_def clash_free_def split: option.splits)

lemma names_of_lookup:
  assumes "\<forall>s. names_of R s (N s)" "clash_free R" "s \<noteq> ''''"
  shows "N s = Some r \<longleftrightarrow> r \<in> R \<and> rname r = s"
proof -
  have "r = r'" if "r \<in> R" "r' \<in> R" "rname r = s" "rname r' = s" for r r'
    using assms(2,3) that unfolding clash_free_def name_clash_def by metis
  then show ?thesis
    using assms(1) [rule_format, of s] assms(3)
    by (cases "N s") (auto simp: names_of_def)
qed

lemma names_of_holder:
  assumes "\<forall>s. names_of R s (N s)"
  shows "case N (rname route) of Some r \<Rightarrow> r \<in> R \<and> name_clash route r | None \<Rightarrow> \<forall>r \<in> R. \<not> name_clash route r"
  using assms [rule_format, of "rname route"]
  by (cases "N (rname route)") (auto simp: names_of_def name_clash_def)

lemma method_count_insert:
  assumes "finite R" "route \<notin> R"
  shows "method_count (insert route R) m = method_count R m + (if m \<in> set (rmethods route) then 1 else 0)"
proof -
  have "{r \<in> insert route R. m \<in> set (rmethods r)} =
      (if m \<in> set (rmethods route) then insert route {r \<in> R. m \<in> set (rmethods r)} else {r \<in> R. m \<in> set (rmethods r)})"
    by auto
  with assms show ?thesis by (simp add: method_count_def)
qed

lemma method_count_remove:
  assumes "finite R" "old \<in> R"
  shows "method_count R m = method_count (R - {old}) m + (if m \<in> set (rmethods old) then 1 else 0)"
proof -
  from assms have "insert old (R - {old}) = R" by blast
  with method_count_insert [of "R - {old}" old m] assms(1) show ?thesis by simp
qed

text \<open>\<open>t.methods[method]++\<close>; and the decrement, which wraps on a missing or zero \<open>uint\<close> entry.\<close>

definition inc_method :: "(string \<rightharpoonup> nat) \<Rightarrow> string \<Rightarrow> string \<rightharpoonup> nat" where
  "inc_method ms m = ms(m \<mapsto> (case ms m of None \<Rightarrow> 1 | Some k \<Rightarrow> k + 1))"

definition dec_method :: "(string \<rightharpoonup> nat) \<Rightarrow> string \<Rightarrow> string \<rightharpoonup> nat" where
  "dec_method ms m =
     (let k = (case ms m of None \<Rightarrow> 0 | Some k \<Rightarrow> k);
          k' = (if k = 0 then 2 ^ 64 - 1 else k - 1)
      in if k' = 0 then ms(m := None) else ms(m \<mapsto> k'))"

lemma inc_method_counter: "inc_method (counter f) m = counter (f(m := f m + 1))"
  by (auto simp: inc_method_def counter_def fun_eq_iff)

lemma dec_method_counter: "f m \<noteq> 0 \<Longrightarrow> dec_method (counter f) m = counter (f(m := f m - 1))"
  by (auto simp: dec_method_def counter_def fun_eq_iff Let_def)

lemma inc_methods_counter:
  "distinct mts \<Longrightarrow> foldl inc_method (counter f) mts = counter (\<lambda>m. f m + (if m \<in> set mts then 1 else 0))"
proof (induction mts arbitrary: f)
  case (Cons m mts)
  then have "foldl inc_method (counter f) (m # mts) =
      counter (\<lambda>m'. (f(m := f m + 1)) m' + (if m' \<in> set mts then 1 else 0))"
    by (simp add: inc_method_counter)
  also have "(\<lambda>m'. (f(m := f m + 1)) m' + (if m' \<in> set mts then 1 else 0)) = (\<lambda>m'. f m' + (if m' \<in> set (m # mts) then 1 else 0))"
    using Cons.prems by (auto simp: fun_eq_iff)
  finally show ?case .
qed (simp add: counter_def fun_eq_iff)

lemma dec_methods_counter:
  "distinct mts \<Longrightarrow> foldl dec_method (counter (\<lambda>m. f m + (if m \<in> set mts then 1 else 0))) mts = counter f"
proof (induction mts)
  case (Cons m mts)
  have "dec_method (counter (\<lambda>m'. f m' + (if m' \<in> set (m # mts) then 1 else 0))) m
      = counter ((\<lambda>m'. f m' + (if m' \<in> set (m # mts) then 1 else 0))(m := f m))"
    by (subst dec_method_counter) simp_all
  also have "((\<lambda>m'. f m' + (if m' \<in> set (m # mts) then 1 else 0))(m := f m)) = (\<lambda>m'. f m' + (if m' \<in> set mts then 1 else 0))"
    using Cons.prems by (auto simp: fun_eq_iff)
  finally show ?case using Cons by simp
qed simp

lemma method_counters:
  assumes "finite R" "distinct (rmethods r)"
  shows "r \<notin> R \<Longrightarrow> foldl inc_method (counter (method_count R)) (rmethods r) = counter (method_count (insert r R))"
    and "r \<in> R \<Longrightarrow> foldl dec_method (counter (method_count R)) (rmethods r) = counter (method_count (R - {r}))"
proof -
  show "r \<notin> R \<Longrightarrow> foldl inc_method (counter (method_count R)) (rmethods r) = counter (method_count (insert r R))"
    using inc_methods_counter [OF assms(2), of "method_count R"] assms(1)
    by (simp add: method_count_insert fun_eq_iff counter_def)
  assume "r \<in> R"
  then have "method_count R = (\<lambda>m. method_count (R - {r}) m + (if m \<in> set (rmethods r) then 1 else 0))"
    using method_count_remove [OF assms(1)] by (simp add: fun_eq_iff)
  then show "foldl dec_method (counter (method_count R)) (rmethods r) = counter (method_count (R - {r}))"
    using dec_methods_counter [OF assms(2), of "method_count (R - {r})"] by simp
qed

subsection \<open>The checks of the leaf operations are the clashes of the registry\<close>

lemma route_okD:
  assumes "route_ok pat r"
  shows "sorted (rmethods r)" "distinct (rmethods r)" "fast_ok r" "toks_ok True (ptokens (rpattern r))"
    "catch_all_ok (ptokens (rpattern r)) r" "rpattern r = pat (pstr (rpattern r))"
  using assms by (simp_all add: route_ok_def)

lemma Overlap_share: "route_ok pat r \<Longrightarrow> route_ok pat r' \<Longrightarrow> Overlap (rmethods r) (rmethods r') \<longleftrightarrow> share_method r r'"
  by (simp add: Overlap_spec route_okD share_method_def)

lemma conflicting_iff:
  assumes "route_ok pat route" "route_ok pat r" "place r = place route"
  shows "conflicting route r \<longleftrightarrow> same_leaf_conflict route r"
  using assms by (auto simp: conflicting_def same_leaf_conflict_def matchersEqual_mset Overlap_share
      share_method_def)

lemma place_catch_all:
  assumes "route_ok pat w" "optionalCatchAll (rpattern w)"
  shows "\<exists>x. place w = canon (butlast (ptokens (rpattern w))) @ [SW x]"
proof -
  let ?toks = "ptokens (rpattern w)"
  have "?toks \<noteq> []" "ttyp (last ?toks) = nodeWildcard"
    using route_okD(5) [OF assms(1)] assms(2) by (simp_all add: catch_all_ok_def)
  then have "place w = canon (butlast ?toks @ [last ?toks])" by (simp add: place_def)
  with \<open>ttyp (last ?toks) = nodeWildcard\<close> show ?thesis by (simp add: tok_syms_def)
qed

lemma shadows_iff:
  assumes "route_ok pat w" "route_ok pat r" "\<exists>x. place w = place r @ [SW x]"
  shows "shadows r w \<longleftrightarrow> hides w r" and "shadowed_by w r \<and> optionalCatchAll (rpattern w) \<longleftrightarrow> hides w r"
  using assms by (auto simp: shadows_def shadowed_by_def hides_def matchersWithin_iff Overlap_share)

lemma conflicts_at_clash:
  assumes leaves: "leaves_ok pat V" and rok: "route_ok pat route"
  shows "conflicts_at V (ptokens (rpattern route)) route = {r \<in> routes_of V. same_leaf_conflict route r}"
proof -
  have "r \<in> set (V (place route)) \<and> conflicting route r \<longleftrightarrow> r \<in> routes_of V \<and> same_leaf_conflict route r" for r
    using leaves_okD(2-4) [OF leaves] conflicting_iff [OF rok] by (metis same_leaf_conflict_def)
  then show ?thesis by (auto simp: conflicts_at_def place_def)
qed

lemma shadowed_at_clash:
  assumes leaves: "leaves_ok pat V" and rok: "route_ok pat route"
  shows "shadowed_at V (ptokens (rpattern route)) route = {r \<in> routes_of V. hides route r}"
proof (cases "optionalCatchAll (rpattern route)")
  case True
  define k where "k = canon (butlast (ptokens (rpattern route)))"
  obtain x where x: "place route = k @ [SW x]" using place_catch_all [OF rok True] by (auto simp: k_def)
  have "r \<in> set (V k) \<and> shadowed_by route r \<longleftrightarrow> r \<in> routes_of V \<and> hides route r" for r
  proof
    assume *: "r \<in> set (V k) \<and> shadowed_by route r"
    then have "r \<in> routes_of V" "place r = k" using leaves_okD(3) [OF leaves] by (auto simp: routes_of_def)
    with * True x shadows_iff(2) [OF rok] leaves_okD(4) [OF leaves] show "r \<in> routes_of V \<and> hides route r" by metis
  next
    assume *: "r \<in> routes_of V \<and> hides route r"
    then have "place r = k" using x by (auto simp: hides_def)
    with * True x shadows_iff(2) [OF rok] leaves_okD(2,4) [OF leaves] show "r \<in> set (V k) \<and> shadowed_by route r" by metis
  qed
  with True show ?thesis by (auto simp: shadowed_at_def k_def)
next
  case False
  then show ?thesis by (simp add: shadowed_at_def hides_def)
qed

lemma shadows_at_clash:
  assumes leaves: "leaves_ok pat V" and rok: "route_ok pat route"
  shows "shadows_at V (ptokens (rpattern route)) route = {r \<in> routes_of V. hides r route}"
proof -
  have "r \<in> wild_routes V (place route) \<and> shadows route r \<longleftrightarrow> r \<in> routes_of V \<and> hides r route" for r
  proof
    assume *: "r \<in> wild_routes V (place route) \<and> shadows route r"
    then obtain x where "r \<in> routes_of V" "place r = place route @ [SW x]"
      using leaves_okD(3) [OF leaves] by (auto simp: wild_routes_def routes_of_def)
    with * shadows_iff(1) [OF _ rok] leaves_okD(4) [OF leaves] show "r \<in> routes_of V \<and> hides r route" by metis
  next
    assume *: "r \<in> routes_of V \<and> hides r route"
    then obtain x where x: "place r = place route @ [SW x]" by (auto simp: hides_def)
    with * have "r \<in> wild_routes V (place route)"
      using leaves_okD(2) [OF leaves] by (auto simp: wild_routes_def)
    with * x shadows_iff(1) [OF _ rok] leaves_okD(4) [OF leaves]
    show "r \<in> wild_routes V (place route) \<and> shadows route r" by metis
  qed
  then show ?thesis by (auto simp: shadows_at_def place_def)
qed

lemma route_clash_checks:
  assumes leaves: "leaves_ok pat V" and rok: "route_ok pat route"
  shows "(\<exists>r \<in> routes_of V. route_clash route r) \<longleftrightarrow>
     conflicts_at V (ptokens (rpattern route)) route \<noteq> {} \<or> shadowed_at V (ptokens (rpattern route)) route \<noteq> {}
     \<or> shadows_at V (ptokens (rpattern route)) route \<noteq> {}"
  unfolding conflicts_at_clash [OF assms] shadowed_at_clash [OF assms] shadows_at_clash [OF assms] by (auto simp: route_clash_def)

subsection \<open>Adding, removing and replacing a route\<close>

lemma registry_okD:
  assumes "registry_ok pat V N sz ms"
  shows "leaves_ok pat V" "clash_free (routes_of V)" "\<forall>s. names_of (routes_of V) s (N s)"
    "sz = int (card (routes_of V))" "ms = counter (method_count (routes_of V))"
  using assms by (simp_all add: registry_ok_def)

lemma clash_free_insert:
  assumes "clash_free R" "\<forall>r \<in> R. \<not> route_clash route r \<and> \<not> name_clash route r"
  shows "clash_free (insert route R)"
proof -
  have "\<not> route_clash r route \<and> \<not> name_clash r route" if "r \<in> R" for r
    using assms(2) [rule_format, OF that] unfolding name_clash_def by (metis route_clash_sym)
  with assms show ?thesis by (auto simp: clash_free_def)
qed

lemma clash_free_subset: "clash_free R \<Longrightarrow> S \<subseteq> R \<Longrightarrow> clash_free S"
  unfolding clash_free_def by blast

lemma registry_add:
  assumes reg: "registry_ok pat V N sz ms" and rok: "route_ok pat route"
    and free: "\<forall>r \<in> routes_of V. \<not> route_clash route r \<and> \<not> name_clash route r" and k: "k = place route"
  shows "routes_of (V(k := addRoute (V k) route)) = insert route (routes_of V)" (is "?R = _")
    and "registry_ok pat (V(k := addRoute (V k) route)) (with_name N route) (sz + 1) (foldl inc_method ms (rmethods route))"
proof -
  note R = registry_okD [OF reg] and L = leaves_okD [OF registry_okD(1) [OF reg]]
  have new: "route \<notin> routes_of V" using free route_clash_self by blast
  then have "route \<notin> set (V k)" by (auto simp: routes_of_def)
  show eq: "?R = insert route (routes_of V)"
    using routes_of_update [OF R(1), of k "addRoute (V k) route"] by (auto simp: routes_of_def)
  have "distinct (addRoute (V k) route)"
    using mset_eq_imp_distinct_iff [of "addRoute (V k) route" "route # V k"] L(5) [of k] \<open>route \<notin> set (V k)\<close> by simp
  then have "leaves_ok pat (V(k := addRoute (V k) route))"
    using L(2-6) rok k
    by (intro leaves_ok_update [OF R(1)]) (auto simp: addRoute_sorted routes_of_def)
  moreover have "clash_free (insert route (routes_of V))"
    by (rule clash_free_insert [OF R(2) free])
  moreover have "names_of (insert route (routes_of V)) s (with_name N route s)" for s
    using free by (intro names_of_insert [OF R(3)]) blast
  moreover have "foldl inc_method ms (rmethods route) = counter (method_count (insert route (routes_of V)))"
    unfolding R(5) by (rule method_counters(1) [OF L(1) route_okD(2) [OF rok] new])
  ultimately show "registry_ok pat (V(k := addRoute (V k) route)) (with_name N route) (sz + 1)
      (foldl inc_method ms (rmethods route))"
    unfolding registry_ok_def eq using R(4) L(1) new by simp
qed

lemma registry_remove:
  assumes reg: "registry_ok pat V N sz ms" and idx: "idx < length (V k)" and old: "old = V k ! idx"
  shows "routes_of (V(k := delRoute (V k) idx)) = routes_of V - {old}" (is "?R = _")
    and "registry_ok pat (V(k := delRoute (V k) idx)) (without_name N old) (sz - 1) (foldl dec_method ms (rmethods old))"
proof -
  note R = registry_okD [OF reg] and L = leaves_okD [OF registry_okD(1) [OF reg]]
  have mem: "old \<in> set (V k)" using idx old by simp
  then have inR: "old \<in> routes_of V" by (auto simp: routes_of_def)
  have m: "mset (V k) = mset (old # delRoute (V k) idx)"
    using mset_delete_at [OF idx] mem by (simp add: delRoute_def old)
  from mset_eq_imp_distinct_iff [OF m] L(5) [of k]
  have dist: "distinct (delRoute (V k) idx)" and "old \<notin> set (delRoute (V k) idx)" by simp_all
  with mset_eq_setD [OF m] have set: "set (delRoute (V k) idx) = set (V k) - {old}" by auto
  show eq: "?R = routes_of V - {old}"
    unfolding routes_of_update [OF R(1)] set using mem inR by (auto simp: routes_of_def)
  have "leaves_ok pat (V(k := delRoute (V k) idx))"
    using L(3-6) dist by (intro leaves_ok_update [OF R(1)]) (auto simp: set delRoute_sorted routes_of_def)
  moreover have "clash_free (routes_of V - {old})"
    by (rule clash_free_subset [OF R(2)]) blast
  moreover have "names_of (routes_of V - {old}) s (without_name N old s)" for s
    by (rule names_of_remove [OF R(3,2) inR])
  moreover have "foldl dec_method ms (rmethods old) = counter (method_count (routes_of V - {old}))"
    unfolding R(5) by (rule method_counters(2) [OF L(1) route_okD(2) [OF L(4) [OF inR]] inR])
  ultimately show "registry_ok pat (V(k := delRoute (V k) idx)) (without_name N old) (sz - 1) (foldl dec_method ms (rmethods old))"
    unfolding registry_ok_def eq using R(4) L(1) inR card_gt_0_iff [of "routes_of V"]
    by (auto simp: of_nat_diff card_Diff_singleton)
qed

lemma identical_clash:
  assumes "identical route old" "route_ok pat route" "route_ok pat old"
  shows "route_clash route old" "route_clash old route"
  using route_clash_identical [OF assms, of old] route_clash_self [of old] route_clash_sym [of route old] by simp_all

lemma identical_unique:
  assumes "clash_free R" "\<forall>r \<in> R. route_ok pat r" "r \<in> R" "r' \<in> R" "identical route r" "identical route r'"
  shows "r = r'"
proof (rule ccontr)
  assume "r \<noteq> r'"
  with assms have "\<not> route_clash r r'" by (simp add: clash_free_def)
  moreover from assms have "identical r r'" by (simp add: identical_def)
  ultimately show False using identical_clash [of r r' pat] assms by simp
qed

lemma registry_replace:
  assumes reg: "registry_ok pat V N sz ms" and rok: "route_ok pat route"
    and idx: "idx < length (V k)" and old: "old = V k ! idx" and same: "identical route old"
    and free: "\<forall>r \<in> routes_of V. r \<noteq> old \<longrightarrow> \<not> name_clash route r"
  shows "routes_of (V(k := replaceRoute (V k) idx route)) = insert route (routes_of V - {old})" (is "?R = _")
    and "registry_ok pat (V(k := replaceRoute (V k) idx route)) (with_name (without_name N old) route) sz ms"
proof -
  note R = registry_okD [OF reg] and L = leaves_okD [OF registry_okD(1) [OF reg]]
  have mem: "old \<in> set (V k)" using idx old by simp
  then have inR: "old \<in> routes_of V" by (auto simp: routes_of_def)
  have new: "route \<notin> routes_of V - {old}"
    using R(2) inR identical_clash(1) [OF same rok L(4) [OF inR]] by (auto simp: clash_free_def)
  have m: "mset (V k) = add_mset old (mset (V k) - {#old#})" using mem by simp
  have set1: "set_mset (mset (V k) - {#old#}) = set (V k) - {old}"
    using L(5) [of k] mem by (auto simp: in_diff_count distinct_count_atmost_1 count_eq_zero_iff dest: split: if_splits)
  have m': "mset (replaceRoute (V k) idx route) = add_mset route (mset (V k) - {#old#})"
    using mset_replaceRoute [OF idx] old by simp
  then have set': "set (replaceRoute (V k) idx route) = insert route (set (V k) - {old})"
    by (metis set1 set_mset_add_mset_insert set_mset_mset)
  have notin: "route \<notin> set (V k) - {old}" using new by (auto simp: routes_of_def)
  have "length (replaceRoute (V k) idx route) = card (set (replaceRoute (V k) idx route))"
    using length_replaceRoute [OF idx] distinct_card [OF L(5), of k] mem notin
    unfolding set' by (cases "V k") (auto simp: card_insert_if)
  then have dist: "distinct (replaceRoute (V k) idx route)" by (simp add: card_distinct)
  show eq: "?R = insert route (routes_of V - {old})"
    unfolding routes_of_update [OF R(1)] set' using mem by (auto simp: routes_of_def)
  have sorted: "leaf_sorted (replaceRoute (V k) idx route)"
    using replaceRoute_sorted [OF L(6) idx] same old by (simp add: same_route_identical)
  have place: "place route = k"
    using same route_okD(6) [OF rok] route_okD(6) [OF L(4) [OF inR]] L(3) [OF mem]
    by (simp add: identical_def place_def)
  have mem_ok: "\<forall>r \<in> set (V k). place r = k \<and> route_ok pat r"
    using L(3,4) by (auto simp: routes_of_def)
  have "leaves_ok pat (V(k := replaceRoute (V k) idx route))"
    using rok place mem_ok dist sorted by (intro leaves_ok_update [OF R(1)]) (auto simp: set')
  moreover have "clash_free (insert route (routes_of V - {old}))"
  proof (rule clash_free_insert)
    show "clash_free (routes_of V - {old})" by (rule clash_free_subset [OF R(2)]) blast
    show "\<forall>r \<in> routes_of V - {old}. \<not> route_clash route r \<and> \<not> name_clash route r"
      using R(2) inR free route_clash_identical [OF same rok L(4) [OF inR]] by (auto simp: clash_free_def)
  qed
  moreover have "names_of (insert route (routes_of V - {old})) s (with_name (without_name N old) route s)" for s
  proof (rule names_of_insert)
    show "\<forall>s. names_of (routes_of V - {old}) s (without_name N old s)"
      using names_of_remove [OF R(3,2) inR] by blast
    show "\<forall>r \<in> routes_of V - {old}. \<not> name_clash route r" using free by blast
  qed
  moreover have "method_count (insert route (routes_of V - {old})) = method_count (routes_of V)"
    using method_count_insert [OF _ new] method_count_remove [OF L(1) inR] L(1) same
    by (simp add: fun_eq_iff identical_def)
  moreover have "card (insert route (routes_of V - {old})) = card (routes_of V)"
    by (rule trans [OF card_insert_disjoint [OF finite_Diff [OF L(1)] new] card_Suc_Diff1 [OF L(1) inR]])
  ultimately show "registry_ok pat (V(k := replaceRoute (V k) idx route)) (with_name (without_name N old) route) sz ms"
    unfolding registry_ok_def eq using R(4,5) by simp
qed

lemma registry_empty: "registry_ok pat empty_view Map.empty 0 Map.empty" "routes_of empty_view = {}"
  by (simp_all add: registry_ok_def leaves_ok_def routes_of_def clash_free_def names_of_def counter_def
      method_count_def fun_eq_iff)

end
