(* ===== verification/Txn.thy ===== *)
theory Txn
  imports Registry
begin

text \<open>
  The routing tree and its transactions (\<open>iTree\<close> and \<open>tXn\<close> of \<open>tree.go\<close>): insertion, deletion and
  truncation with their counters, commit, clone and snapshot. The invariant \<open>tree_inv\<close> ties the two
  trees, the number of routes and the number of routes per method together; every operation keeps it.
\<close>

subsection \<open>State\<close>

record ('c, 'h) iTree =
  it_patterns :: "('c, 'h) route node"
  it_names :: "('c, 'h) route node"
  it_methods :: "string \<rightharpoonup> nat"
  it_size :: int
  it_maxParams :: nat
  it_maxDepth :: nat

record ('c, 'h) tXn =
  tx_patterns :: "('c, 'h) route node"
  tx_names :: "('c, 'h) route node"
  tx_methods :: "string \<rightharpoonup> nat"
  tx_size :: int
  tx_maxParams :: nat
  tx_maxDepth :: nat
  tx_forked :: bool
  tx_mode :: insertMode

definition newTree :: "('c, 'h) iTree" where
  "newTree = \<lparr>it_patterns = new_node, it_names = new_node, it_methods = Map.empty, it_size = 0,
     it_maxParams = 0, it_maxDepth = 0\<rparr>"

definition txn :: "('c, 'h) iTree \<Rightarrow> ('c, 'h) tXn" where
  "txn t = \<lparr>tx_patterns = it_patterns t, tx_names = it_names t, tx_methods = it_methods t,
     tx_size = it_size t, tx_maxParams = it_maxParams t, tx_maxDepth = it_maxDepth t,
     tx_forked = False, tx_mode = modeInsert\<rparr>"

text \<open>\<open>commit\<close> returns the new tree and the transaction whose copy-on-write state is reset.\<close>

definition commit :: "('c, 'h) tXn \<Rightarrow> ('c, 'h) iTree \<times> ('c, 'h) tXn" where
  "commit t =
     (\<lparr>it_patterns = tx_patterns t, it_names = tx_names t, it_methods = tx_methods t,
       it_size = tx_size t, it_maxParams = tx_maxParams t, it_maxDepth = tx_maxDepth t\<rparr>,
      t\<lparr>tx_forked := False\<rparr>)"

definition clone :: "('c, 'h) tXn \<Rightarrow> ('c, 'h) tXn \<times> ('c, 'h) tXn" where
  "clone t =
     (\<lparr>tx_patterns = tx_patterns t, tx_names = tx_names t, tx_methods = tx_methods t,
       tx_size = tx_size t, tx_maxParams = tx_maxParams t, tx_maxDepth = tx_maxDepth t,
       tx_forked = False, tx_mode = modeInsert\<rparr>,
      t\<lparr>tx_forked := False\<rparr>)"

definition snapshot ::
  "('c, 'h) tXn \<Rightarrow> (('c, 'h) route node \<times> ('c, 'h) route node \<times> (string \<rightharpoonup> nat)) \<times> ('c, 'h) tXn" where
  "snapshot t = ((tx_patterns t, tx_names t, tx_methods t), t\<lparr>tx_forked := False\<rparr>)"

definition truncate :: "('c, 'h) tXn \<Rightarrow> ('c, 'h) tXn" where
  "truncate t = t\<lparr>tx_patterns := new_node, tx_names := new_node, tx_methods := Map.empty,
     tx_maxDepth := 0, tx_maxParams := 0, tx_size := 0, tx_forked := True\<rparr>"

subsection \<open>Depth of a path\<close>

definition has_dynamic :: "'r node \<Rightarrow> bool" where
  "has_dynamic n \<longleftrightarrow> 0 < length (nparams n) \<or> 0 < length (nwildcards n)"

function walk_static :: "'r node \<Rightarrow> string \<Rightarrow> nat \<Rightarrow> 'r node option \<times> nat" where
  "walk_static current search depth =
     (if \<not> 0 < length search then (Some current, depth)
      else
        (case getStaticEdge current (search ! 0) of
           None \<Rightarrow> (None, depth)
         | Some (_, child) \<Rightarrow>
             if \<not> has_prefix search (nkey child) then (None, depth)
             else walk_static child (drop (length (nkey child)) search)
                    (if has_dynamic child then depth + 1 else depth)))"
  by pat_completeness auto
termination
  by (relation "measure (\<lambda>(n, _, _). size n)") (auto dest: static_childD intro: child_size)

declare walk_static.simps [simp del]

fun depth_loop :: "'r node \<Rightarrow> token list \<Rightarrow> nat \<Rightarrow> nat" where
  "depth_loop current [] depth = depth"
| "depth_loop current (tk # tks) depth =
     (let (next, depth) =
        (case ttyp tk of
           nodeStatic \<Rightarrow> walk_static current (tvalue tk) depth
         | nodeParam \<Rightarrow> (map_option snd (getParamEdge current (canonicalKey tk)), depth)
         | nodeWildcard \<Rightarrow> (map_option snd (getWildcardEdge current (canonicalKey tk)), depth))
      in (case next of None \<Rightarrow> depth | Some current \<Rightarrow> depth_loop current tks depth))"

definition computePathDepth :: "'r node \<Rightarrow> token list \<Rightarrow> nat" where
  "computePathDepth root tokens = depth_loop root tokens (if has_dynamic root then 1 else 0)"

subsection \<open>Insertion and deletion\<close>

definition insert_route ::
  "('c, 'h) tXn \<Rightarrow> ('c, 'h) route \<Rightarrow> insertMode \<Rightarrow> ('c, 'h) tXn \<times> ('c, 'h) error option" where
  "insert_route t route mode =
     (let t = t\<lparr>tx_mode := mode\<rparr>;
          toks = ptokens (rpattern route)
      in case insertTokens mode (tx_names t) None (tx_patterns t) toks route of
           (names, Inl e) \<Rightarrow> (t\<lparr>tx_names := names\<rparr>, Some e)
         | (names, Inr newRoot) \<Rightarrow>
             let t = t\<lparr>tx_names := names, tx_patterns := newRoot,
                        tx_maxDepth := max (tx_maxDepth t) (computePathDepth newRoot toks),
                        tx_maxParams := max (tx_maxParams t) (length (rparams route))\<rparr>
             in if mode = modeInsert then
                  let t = t\<lparr>tx_size := tx_size t + 1\<rparr>
                  in if 0 < length (rmethods route) then
                       (t\<lparr>tx_forked := True, tx_methods := foldl inc_method (tx_methods t) (rmethods route)\<rparr>, None)
                     else (t, None)
                else (t, None))"

definition delete_route ::
  "('c, 'h) tXn \<Rightarrow> ('c, 'h) route \<Rightarrow> ('c, 'h) tXn \<times> ('c, 'h) route option" where
  "delete_route t route =
     (case deleteTokens True (tx_names t) (tx_patterns t) (ptokens (rpattern route)) route of
        (names, None) \<Rightarrow> (t\<lparr>tx_names := names\<rparr>, None)
      | (names, Some (newRoot, oldRoute)) \<Rightarrow>
          let t = t\<lparr>tx_names := names, tx_patterns := newRoot,
                     tx_forked := tx_forked t \<or> 0 < length (rmethods route)\<rparr>
          in (t\<lparr>tx_size := tx_size t - 1, tx_methods := foldl dec_method (tx_methods t) (rmethods route)\<rparr>,
              Some oldRoute))"

section \<open>The invariant of a transaction\<close>

definition registered :: "('c, 'h) tXn \<Rightarrow> ('c, 'h) route set" where
  "registered t = routes_of (routes_at (tx_patterns t))"

definition state_ok ::
  "(string \<Rightarrow> pattern) \<Rightarrow> ('c, 'h) route node \<Rightarrow> ('c, 'h) route node \<Rightarrow> int \<Rightarrow> (string \<rightharpoonup> nat) \<Rightarrow> nat \<Rightarrow> bool" where
  "state_ok pat patterns names sz ms maxps \<longleftrightarrow>
     tree_ok True patterns \<and> names_ok names
     \<and> registry_ok pat (routes_at patterns) (name_map names) sz ms
     \<and> (\<forall>r \<in> routes_of (routes_at patterns). length (rparams r) \<le> maxps)"

definition txn_inv :: "(string \<Rightarrow> pattern) \<Rightarrow> ('c, 'h) tXn \<Rightarrow> bool" where
  "txn_inv pat t \<longleftrightarrow> state_ok pat (tx_patterns t) (tx_names t) (tx_size t) (tx_methods t) (tx_maxParams t)"

definition tree_inv :: "(string \<Rightarrow> pattern) \<Rightarrow> ('c, 'h) iTree \<Rightarrow> bool" where
  "tree_inv pat t \<longleftrightarrow> state_ok pat (it_patterns t) (it_names t) (it_size t) (it_methods t) (it_maxParams t)"

text \<open>The error of a rejected insertion names the registered routes that clash with the new one.\<close>

definition insert_error :: "('c, 'h) route set \<Rightarrow> ('c, 'h) route \<Rightarrow> ('c, 'h) error \<Rightarrow> bool" where
  "insert_error R route e \<longleftrightarrow>
     (case e of
        RouteConflictError r cs shadowing \<Rightarrow> r = route \<and> cs \<noteq> [] \<and> (\<forall>c \<in> set cs. c \<in> R \<and> route_clash route c)
          \<and> (shadowing \<longleftrightarrow> (\<forall>c \<in> R. \<not> same_leaf_conflict route c))
      | RouteNameConflictError r r' \<Rightarrow> r = route \<and> r' \<in> R \<and> name_clash route r' \<and> (\<forall>c \<in> R. \<not> route_clash route c)
      | _ \<Rightarrow> False)"

lemma insert_spec_registry:
  assumes reg: "registry_ok pat V N sz ms" and rok: "route_ok pat route"
    and spec: "insert_spec V N (ptokens (rpattern route)) route res"
  shows "case res of
      Inl e \<Rightarrow> insert_error (routes_of V) route e
    | Inr (rs, N') \<Rightarrow> (\<forall>r \<in> routes_of V. \<not> route_clash route r \<and> \<not> name_clash route r)
        \<and> rs = addRoute (V (place route)) route \<and> N' = with_name N route"
proof -
  note R = registry_okD [OF reg]
  note checks = conflicts_at_clash [OF R(1) rok] shadowed_at_clash [OF R(1) rok] shadows_at_clash [OF R(1) rok]
  note holder = names_of_holder [OF R(3), of route]
  show ?thesis
  proof (cases "\<exists>r \<in> routes_of V. route_clash route r")
    case True
    with spec show ?thesis
      unfolding insert_spec_def checks insert_error_def
      by (auto simp: route_clash_def split: if_splits)
  next
    case False
    define holder where "holder = (if rname route = '''' then None else N (rname route))"
    from False have "res = (case holder of
        Some r \<Rightarrow> Inl (RouteNameConflictError route r)
      | None \<Rightarrow> Inr (addRoute (V (place route)) route, with_name N route))"
      using spec unfolding insert_spec_def checks holder_def [symmetric]
      by (auto simp: route_clash_def place_def split: option.splits)
    moreover have "case holder of Some r \<Rightarrow> r \<in> routes_of V \<and> name_clash route r
        | None \<Rightarrow> \<forall>r \<in> routes_of V. \<not> name_clash route r"
    proof (cases "rname route = ''''")
      case False
      then have eq: "holder = N (rname route)" by (simp add: holder_def)
      show ?thesis
        using holder unfolding eq .
    qed (simp add: holder_def name_clash_def)
    ultimately show ?thesis
      using False by (cases holder) (auto simp: insert_error_def)
  qed
qed

lemma find_identical:
  assumes reg: "registry_ok pat V N sz ms" and rok: "route_ok pat route"
  shows "case index_func (same_route route) (V (place route)) of
      None \<Rightarrow> \<forall>r \<in> routes_of V. \<not> identical route r
    | Some idx \<Rightarrow> idx < length (V (place route)) \<and> V (place route) ! idx \<in> routes_of V
        \<and> identical route (V (place route) ! idx)"
proof -
  note L = leaves_okD [OF registry_okD(1) [OF reg]]
  have here: "r \<in> set (V (place route))" if "r \<in> routes_of V" "identical route r" for r
  proof -
    have "rpattern r = rpattern route"
      using that(2) route_okD(6) [OF rok] route_okD(6) [OF L(4) [OF that(1)]] by (simp add: identical_def)
    with that(1) L(2) [of r] show ?thesis by (simp add: place_def)
  qed
  show ?thesis
  proof (cases "index_func (same_route route) (V (place route))")
    case None
    then have "\<forall>r \<in> set (V (place route)). \<not> identical route r"
      by (simp add: index_func_None same_route_identical)
    with here None show ?thesis by auto
  next
    case (Some idx)
    then have "idx < length (V (place route))" "identical route (V (place route) ! idx)"
      by (simp_all add: index_func_Some same_route_identical)
    with Some show ?thesis by (auto simp: routes_of_def intro: exI [of _ "place route"])
  qed
qed

definition update_error :: "('c, 'h) route set \<Rightarrow> ('c, 'h) route \<Rightarrow> ('c, 'h) error \<Rightarrow> bool" where
  "update_error R route e \<longleftrightarrow>
     (case e of
        RouteNotFoundError r \<Rightarrow> r = route \<and> (\<forall>r \<in> R. \<not> identical route r)
      | RouteNameConflictError r r' \<Rightarrow> r = route \<and> r' \<in> R \<and> name_clash route r' \<and> \<not> identical route r'
          \<and> (\<exists>old \<in> R. identical route old)
      | _ \<Rightarrow> False)"

lemma update_spec_registry:
  assumes reg: "registry_ok pat V N sz ms" and rok: "route_ok pat route"
    and spec: "update_spec V N (ptokens (rpattern route)) route res"
  shows "case res of
      Inl e \<Rightarrow> update_error (routes_of V) route e
    | Inr (rs, N') \<Rightarrow> \<exists>idx old. idx < length (V (place route)) \<and> old = V (place route) ! idx
        \<and> old \<in> routes_of V \<and> identical route old
        \<and> (\<forall>r \<in> routes_of V. r \<noteq> old \<longrightarrow> \<not> name_clash route r)
        \<and> rs = replaceRoute (V (place route)) idx route \<and> N' = with_name (without_name N old) route"
proof -
  note R = registry_okD [OF reg]
  note holder = names_of_holder [OF R(3), of route]
  note spec' = spec [unfolded update_spec_def, folded place_def]
  note found = find_identical [OF reg rok]
  show ?thesis
  proof (cases "index_func (same_route route) (V (place route))")
    case None
    with spec' found show ?thesis by (simp add: update_error_def)
  next
    case (Some idx)
    define old where "old = V (place route) ! idx"
    from found Some have F: "idx < length (V (place route))" "old \<in> routes_of V" "identical route old"
      by (simp_all add: old_def)
    define holder where
      "holder = (if rname route = '''' \<or> rname route = rname old then None else N (rname route))"
    have res: "res = (case holder of
        Some r \<Rightarrow> Inl (RouteNameConflictError route r)
      | None \<Rightarrow> Inr (replaceRoute (V (place route)) idx route, with_name (without_name N old) route))"
      using spec' unfolding Some option.case Let_def old_def [symmetric] holder_def [symmetric]
      by (auto split: option.splits)
    have free: "case holder of Some r \<Rightarrow> r \<in> routes_of V \<and> name_clash route r \<and> r \<noteq> old
        | None \<Rightarrow> \<forall>r \<in> routes_of V. r \<noteq> old \<longrightarrow> \<not> name_clash route r"
    proof (cases "rname route = '''' \<or> rname route = rname old")
      case True
      moreover have "\<not> name_clash route r" if "r \<in> routes_of V" "r \<noteq> old" for r
        using R(2) F(2) True that unfolding name_clash_def clash_free_def by metis
      ultimately show ?thesis by (auto simp: holder_def)
    next
      case False
      then have named: "rname route \<noteq> ''''" and eq: "holder = N (rname route)" and ne: "rname route \<noteq> rname old"
        by (simp_all add: holder_def)
      show ?thesis
        using holder ne unfolding eq by (cases "N (rname route)") (auto simp: name_clash_def)
    qed
    have "\<not> identical route r" if "r \<in> routes_of V" "r \<noteq> old" for r
      using identical_unique [OF R(2) _ that(1) F(2) _ F(3)] leaves_okD(4) [OF R(1)] that(2) by blast
    with res free F show ?thesis
      by (cases holder) (auto simp: update_error_def old_def)
  qed
qed

section \<open>The operations keep the invariant\<close>

lemma state_okD:
  assumes "state_ok pat p n sz ms mp"
  shows "tree_ok True p" "names_ok n" "registry_ok pat (routes_at p) (name_map n) sz ms"
    "\<forall>r \<in> routes_of (routes_at p). length (rparams r) \<le> mp"
  using assms by (simp_all add: state_ok_def)

lemma insert_route_modeInsert:
  assumes inv: "txn_inv pat t" and rok: "route_ok pat route"
  shows "case insert_route t route modeInsert of
      (t', Some e) \<Rightarrow> t' = t\<lparr>tx_mode := modeInsert\<rparr> \<and> insert_error (registered t) route e
    | (t', None) \<Rightarrow> (\<forall>r \<in> registered t. \<not> route_clash route r \<and> \<not> name_clash route r)
        \<and> registered t' = insert route (registered t) \<and> txn_inv pat t'"
proof -
  define V where "V = routes_at (tx_patterns t)"
  define N where "N = name_map (tx_names t)"
  note S = state_okD [OF inv [unfolded txn_inv_def]]
  note reg = S(3) [folded V_def N_def]
  obtain ns res where ins:
    "insertTokens modeInsert (tx_names t) None (tx_patterns t) (ptokens (rpattern route)) route = (ns, res)"
    by fastforce
  note spec = insertTokens_spec [OF S(1) route_okD(4) [OF rok] S(2) route_okD(5) [OF rok],
      of modeInsert None, unfolded ins prod.case op_spec_def insertMode.case, folded V_def N_def]
  show ?thesis
  proof (cases res)
    case (Inl e)
    with spec have "ns = tx_names t" "insert_spec V N (ptokens (rpattern route)) route (Inl e)" by simp_all
    with insert_spec_registry [OF reg rok this(2)] Inl show ?thesis
      by (simp add: insert_route_def Let_def ins registered_def V_def)
  next
    case (Inr n')
    with spec obtain rs where new: "tree_ok True n'" "names_ok ns"
        "insert_spec V N (ptokens (rpattern route)) route (Inr (rs, name_map ns))"
        "routes_at n' = V(place route := rs)"
      by (auto simp: place_def)
    from insert_spec_registry [OF reg rok new(3)]
    have free: "\<forall>r \<in> routes_of V. \<not> route_clash route r \<and> \<not> name_clash route r"
      and rs: "rs = addRoute (V (place route)) route" and N': "name_map ns = with_name N route" by simp_all
    note add = registry_add [OF reg rok free refl, folded rs new(4) N']
    have bound: "\<forall>r \<in> insert route (routes_of V). length (rparams r) \<le> max (tx_maxParams t) (length (rparams route))"
      using S(4) by (auto simp: V_def)
    show ?thesis
      using Inr add new(1,2) free bound
      by (auto simp: insert_route_def Let_def ins txn_inv_def state_ok_def registered_def V_def)
  qed
qed

lemma insert_route_modeUpdate:
  assumes inv: "txn_inv pat t" and rok: "route_ok pat route"
  shows "case insert_route t route modeUpdate of
      (t', Some e) \<Rightarrow> t' = t\<lparr>tx_mode := modeUpdate\<rparr> \<and> update_error (registered t) route e
    | (t', None) \<Rightarrow> \<exists>old \<in> registered t. identical route old
        \<and> (\<forall>r \<in> registered t. r \<noteq> old \<longrightarrow> \<not> name_clash route r)
        \<and> registered t' = insert route (registered t - {old}) \<and> txn_inv pat t'"
proof -
  define V where "V = routes_at (tx_patterns t)"
  define N where "N = name_map (tx_names t)"
  note S = state_okD [OF inv [unfolded txn_inv_def]]
  note reg = S(3) [folded V_def N_def]
  obtain ns res where ins:
    "insertTokens modeUpdate (tx_names t) None (tx_patterns t) (ptokens (rpattern route)) route = (ns, res)"
    by fastforce
  note spec = insertTokens_spec [OF S(1) route_okD(4) [OF rok] S(2) route_okD(5) [OF rok],
      of modeUpdate None, unfolded ins prod.case op_spec_def insertMode.case, folded V_def N_def]
  show ?thesis
  proof (cases res)
    case (Inl e)
    with spec have "ns = tx_names t" "update_spec V N (ptokens (rpattern route)) route (Inl e)" by simp_all
    with update_spec_registry [OF reg rok this(2)] Inl show ?thesis
      by (simp add: insert_route_def Let_def ins registered_def V_def)
  next
    case (Inr n')
    with spec obtain rs where new: "tree_ok True n'" "names_ok ns"
        "update_spec V N (ptokens (rpattern route)) route (Inr (rs, name_map ns))"
        "routes_at n' = V(place route := rs)"
      by (auto simp: place_def)
    from update_spec_registry [OF reg rok new(3)] obtain idx old where
      idx: "idx < length (V (place route))" and old: "old = V (place route) ! idx"
      and inR: "old \<in> routes_of V" and same: "identical route old"
      and free: "\<forall>r \<in> routes_of V. r \<noteq> old \<longrightarrow> \<not> name_clash route r"
      and rs: "rs = replaceRoute (V (place route)) idx route"
      and N': "name_map ns = with_name (without_name N old) route" by auto
    note upd = registry_replace [OF reg rok idx old same free, folded rs new(4) N']
    have bound: "\<forall>r \<in> insert route (routes_of V - {old}). length (rparams r) \<le> max (tx_maxParams t) (length (rparams route))"
      using S(4) by (auto simp: V_def)
    have "txn_inv pat (fst (insert_route t route modeUpdate))"
      using Inr upd new(1,2) bound
      by (simp add: insert_route_def Let_def ins txn_inv_def state_ok_def)
    then show ?thesis
      using Inr upd(1) inR same free
      by (auto simp: insert_route_def Let_def ins registered_def V_def intro!: bexI [of _ old])
  qed
qed

lemma delete_route_spec:
  assumes inv: "txn_inv pat t" and rok: "route_ok pat route"
  shows "case delete_route t route of
      (t', None) \<Rightarrow> t' = t \<and> (\<forall>r \<in> registered t. \<not> identical route r)
    | (t', Some old) \<Rightarrow> old \<in> registered t \<and> identical route old
        \<and> registered t' = registered t - {old} \<and> txn_inv pat t'"
proof -
  define V where "V = routes_at (tx_patterns t)"
  define N where "N = name_map (tx_names t)"
  note S = state_okD [OF inv [unfolded txn_inv_def]]
  note reg = S(3) [folded V_def N_def]
  note found = find_identical [OF reg rok]
  have spec: "delete_result True True (tx_names t) (tx_patterns t) (place route) route
      (deleteTokens True (tx_names t) (tx_patterns t) (ptokens (rpattern route)) route)"
    unfolding place_def
    by (rule delete_refines(1) [OF S(1) _ toks_ok_marked [OF route_okD(4) [OF rok]]])
      (simp add: host_side_def)
  show ?thesis
  proof (cases "index_func (same_route route) (V (place route))")
    case None
    with spec have "deleteTokens True (tx_names t) (tx_patterns t) (ptokens (rpattern route)) route = (tx_names t, None)"
      by (simp add: delete_result_def V_def)
    with None found show ?thesis by (simp add: delete_route_def registered_def V_def)
  next
    case (Some idx)
    define old where "old = V (place route) ! idx"
    define ns where "ns = (if rname old \<noteq> '''' then fst (deleteName (tx_names t) old) else tx_names t)"
    from found Some have idx: "idx < length (V (place route))" and inR: "old \<in> routes_of V"
      and same: "identical route old" by (simp_all add: old_def)
    from spec Some obtain n' where
      del: "deleteTokens True (tx_names t) (tx_patterns t) (ptokens (rpattern route)) route = (ns, Some (n', old))"
      and rem: "removes True True (tx_patterns t) (place route) (delRoute (V (place route)) idx) n'"
      by (auto simp: delete_result_def V_def old_def ns_def Let_def)
    from rem have gone: "deleted True (tx_patterns t) (place route) (delRoute (V (place route)) idx) n'"
      and host: "host_ok n'" by (simp_all add: removes_def)
    from gone have "wf_node n'" unfolding deleted_def by blast
    with host have tree: "tree_ok True n'" by (simp add: tree_ok_def)
    have view: "routes_at n' = V(place route := delRoute (V (place route)) idx)"
      unfolding V_def by (rule deleted_plain_view(2) [OF gone [unfolded V_def]]) simp
    have ns: "names_ok ns" "name_map ns = without_name N old"
      using deleteName_names [OF S(2), of old] S(2) by (simp_all add: ns_def N_def without_name_def)
    note remove = registry_remove [OF reg idx old_def, folded view ns(2)]
    have methods: "rmethods route = rmethods old" using same by (simp add: identical_def)
    have bound: "\<forall>r \<in> routes_of V - {old}. length (rparams r) \<le> tx_maxParams t"
      using S(4) by (simp add: V_def)
    obtain t' where res: "delete_route t route = (t', Some old)"
      and t': "tx_patterns t' = n'" "tx_names t' = ns" "tx_size t' = tx_size t - 1"
        "tx_methods t' = foldl dec_method (tx_methods t) (rmethods old)" "tx_maxParams t' = tx_maxParams t"
      by (simp add: delete_route_def del Let_def methods)
    have "txn_inv pat t'"
      unfolding txn_inv_def state_ok_def t' remove(1) using tree ns(1) remove(2) bound by simp
    moreover have "registered t' = registered t - {old}"
      unfolding registered_def t' remove(1) by (simp add: V_def)
    ultimately show ?thesis
      using inR same unfolding res registered_def V_def by simp
  qed
qed

lemma tree_ok_new_node: "tree_ok True (new_node :: 'r node)"
  unfolding tree_ok_def by simp (rule host_okI; simp)

lemma state_ok_empty: "state_ok pat new_node new_node 0 Map.empty 0"
  by (simp add: state_ok_def tree_ok_new_node names_ok_new_node view_new_node registry_empty)

lemma truncate_spec: "txn_inv pat (truncate t)" "registered (truncate t) = {}"
  by (simp_all add: txn_inv_def truncate_def registered_def view_new_node state_ok_empty registry_empty)

lemma newTree_inv: "tree_inv pat newTree"
  using state_ok_empty by (simp add: tree_inv_def newTree_def)

lemma handles_inv:
  "txn_inv pat (txn tr) \<longleftrightarrow> tree_inv pat tr"
  "tree_inv pat (fst (commit t)) \<longleftrightarrow> txn_inv pat t" "txn_inv pat (snd (commit t)) \<longleftrightarrow> txn_inv pat t"
  "txn_inv pat (fst (clone t)) \<longleftrightarrow> txn_inv pat t" "txn_inv pat (snd (clone t)) \<longleftrightarrow> txn_inv pat t"
  "txn_inv pat (snd (snapshot t)) \<longleftrightarrow> txn_inv pat t"
  by (simp_all add: txn_inv_def tree_inv_def txn_def commit_def clone_def snapshot_def)

lemma handles_registered:
  "registered (txn tr) = routes_of (routes_at (it_patterns tr))"
  "routes_of (routes_at (it_patterns (fst (commit t)))) = registered t"
  "registered (fst (clone t)) = registered t" "registered (snd (clone t)) = registered t"
  "registered (snd (snapshot t)) = registered t"
  by (simp_all add: registered_def txn_def commit_def clone_def snapshot_def)

lemma txn_identical_unique:
  assumes "txn_inv pat t" "r \<in> registered t" "r' \<in> registered t" "identical route r" "identical route r'"
  shows "r = r'"
proof -
  note reg = state_okD(3) [OF assms(1) [unfolded txn_inv_def], folded registered_def]
  show ?thesis
    using registry_okD(2) [OF reg] leaves_okD(4) [OF registry_okD(1) [OF reg]] assms(2-5)
      identical_unique [of "registered t" pat r r' route] by (simp add: registered_def)
qed

section \<open>Properties of the transaction operations\<close>

lemma insert_refines_facts:
  assumes "txn_inv pat t" and "route_ok pat route"
  defines "res \<equiv> insert_route t route modeInsert"
  shows "snd res = None \<longleftrightarrow> (\<forall>r \<in> registered t. \<not> route_clash route r \<and> \<not> name_clash route r)"
    and "txn_inv pat (fst res)"
    and "snd res = None \<Longrightarrow> registered (fst res) = insert route (registered t) \<and> route \<notin> registered t"
    and "snd res = Some e \<Longrightarrow> fst res = t\<lparr>tx_mode := modeInsert\<rparr> \<and> insert_error (registered t) route e"
proof -
  obtain t' o' where res: "res = (t', o')" by fastforce
  note spec = insert_route_modeInsert [OF assms(1,2), folded res_def, unfolded res]
  have err: "\<exists>r \<in> registered t. route_clash route r \<or> name_clash route r" if "insert_error (registered t) route e" for e
    using that by (cases e) (fastforce simp: insert_error_def neq_Nil_conv)+
  show "snd res = None \<longleftrightarrow> (\<forall>r \<in> registered t. \<not> route_clash route r \<and> \<not> name_clash route r)"
    using spec err by (cases o') (auto simp: res)
  show "txn_inv pat (fst res)"
    using spec assms(1) by (cases o') (auto simp: res txn_inv_def)
  show "snd res = None \<Longrightarrow> registered (fst res) = insert route (registered t) \<and> route \<notin> registered t"
    using spec route_clash_self [of route] by (auto simp: res)
  show "snd res = Some e \<Longrightarrow> fst res = t\<lparr>tx_mode := modeInsert\<rparr> \<and> insert_error (registered t) route e"
    using spec by (simp add: res)
qed

text \<open>
  C3. Inserting a route refines adding it to the set of registered routes: it succeeds exactly when no
  registered route clashes with it (same leaf, overlapping methods and equal matchers; an optional
  catch-all shadowing or shadowed; the name taken), a failure leaves the transaction unchanged and names
  the clashing routes, and both keep the invariant (tree shape, names, number of routes, method counters).
\<close>

theorem insert_refines:
  assumes "txn_inv pat t" and "route_ok pat route"
  defines "res \<equiv> insert_route t route modeInsert"
  shows "txn_inv pat (fst res)
    \<and> (snd res = None \<longleftrightarrow> (\<forall>r \<in> registered t. \<not> route_clash route r \<and> \<not> name_clash route r))
    \<and> (snd res = None \<longrightarrow> registered (fst res) = insert route (registered t) \<and> route \<notin> registered t)
    \<and> (\<forall>e. snd res = Some e \<longrightarrow> fst res = t\<lparr>tx_mode := modeInsert\<rparr> \<and> insert_error (registered t) route e)"
  using insert_refines_facts [OF assms(1,2)] unfolding res_def by blast

lemma update_refines_facts:
  assumes "txn_inv pat t" and "route_ok pat route"
  defines "res \<equiv> insert_route t route modeUpdate"
  shows "snd res = None \<longleftrightarrow> (\<exists>old \<in> registered t. identical route old
           \<and> (\<forall>r \<in> registered t. r \<noteq> old \<longrightarrow> \<not> name_clash route r))"
    and "txn_inv pat (fst res)"
    and "snd res = None \<Longrightarrow> old \<in> registered t \<Longrightarrow> identical route old \<Longrightarrow>
           registered (fst res) = insert route (registered t - {old})"
    and "snd res = Some e \<Longrightarrow> fst res = t\<lparr>tx_mode := modeUpdate\<rparr> \<and> update_error (registered t) route e"
proof -
  obtain t' o' where res: "res = (t', o')" by fastforce
  note spec = insert_route_modeUpdate [OF assms(1,2), folded res_def, unfolded res]
  note uniq = txn_identical_unique [OF assms(1)]
  have err: "\<not> (\<exists>old \<in> registered t. identical route old \<and> (\<forall>r \<in> registered t. r \<noteq> old \<longrightarrow> \<not> name_clash route r))"
    if "update_error (registered t) route e" for e
    using that by (cases e) (fastforce simp: update_error_def)+
  show "snd res = None \<longleftrightarrow> (\<exists>old \<in> registered t. identical route old
           \<and> (\<forall>r \<in> registered t. r \<noteq> old \<longrightarrow> \<not> name_clash route r))"
  proof (cases o')
    case None
    with spec show ?thesis by (auto simp: res)
  next
    case (Some e)
    with spec err [of e] show ?thesis by (simp add: res)
  qed
  show "txn_inv pat (fst res)"
    using spec assms(1) by (cases o') (auto simp: res txn_inv_def)
  show "registered (fst res) = insert route (registered t - {old})"
    if "snd res = None" "old \<in> registered t" "identical route old"
    using spec uniq [OF _ that(2) _ that(3)] that(1) by (auto simp: res)
  show "snd res = Some e \<Longrightarrow> fst res = t\<lparr>tx_mode := modeUpdate\<rparr> \<and> update_error (registered t) route e"
    using spec by (simp add: res)
qed

text \<open>
  C4. Updating a route refines replacing it: it succeeds exactly when a route with the same pattern,
  methods and matchers is registered and the name of the new one is not held by another route; then that
  route is replaced, and a failure leaves the transaction unchanged.
\<close>

theorem update_refines:
  assumes "txn_inv pat t" and "route_ok pat route"
  defines "res \<equiv> insert_route t route modeUpdate"
  shows "txn_inv pat (fst res)
    \<and> (snd res = None \<longleftrightarrow> (\<exists>old \<in> registered t. identical route old
           \<and> (\<forall>r \<in> registered t. r \<noteq> old \<longrightarrow> \<not> name_clash route r)))
    \<and> (snd res = None \<longrightarrow> registered (fst res) = insert route {r \<in> registered t. \<not> identical route r})
    \<and> (\<forall>e. snd res = Some e \<longrightarrow> fst res = t\<lparr>tx_mode := modeUpdate\<rparr> \<and> update_error (registered t) route e)"
proof -
  note facts = update_refines_facts [OF assms(1,2), folded res_def]
  have "registered (fst res) = insert route {r \<in> registered t. \<not> identical route r}" if "snd res = None"
  proof -
    from facts(1) that obtain old where old: "old \<in> registered t" "identical route old" by auto
    have "{r \<in> registered t. \<not> identical route r} = registered t - {old}"
      using txn_identical_unique [OF assms(1)] old by blast
    with facts(3) [OF that old] show ?thesis by simp
  qed
  with facts show ?thesis by blast
qed

lemma delete_refines_removal_facts:
  assumes "txn_inv pat t" and "route_ok pat route"
  defines "res \<equiv> delete_route t route"
  shows "snd res = Some old \<longleftrightarrow> old \<in> registered t \<and> identical route old"
    and "txn_inv pat (fst res)"
    and "registered (fst res) = registered t - {r. identical route r}"
    and "snd res = None \<Longrightarrow> fst res = t"
proof -
  obtain t' o' where res: "res = (t', o')" by fastforce
  note spec = delete_route_spec [OF assms(1,2), folded res_def, unfolded res]
  note uniq = txn_identical_unique [OF assms(1)]
  show "snd res = Some old \<longleftrightarrow> old \<in> registered t \<and> identical route old"
    using spec uniq by (cases o') (auto simp: res)
  show "txn_inv pat (fst res)"
    using spec assms(1) by (cases o') (auto simp: res)
  show "registered (fst res) = registered t - {r. identical route r}"
    using spec uniq by (cases o') (auto simp: res)
  show "snd res = None \<Longrightarrow> fst res = t"
    using spec by (auto simp: res)
qed

text \<open>
  C5. Deleting a route removes the one registered route with the same pattern, methods and matchers and
  returns it; when there is none, nothing changes. The invariant is kept.
\<close>

theorem delete_refines_removal:
  assumes "txn_inv pat t" and "route_ok pat route"
  defines "res \<equiv> delete_route t route"
  shows "txn_inv pat (fst res)
    \<and> (\<forall>old. snd res = Some old \<longleftrightarrow> old \<in> registered t \<and> identical route old)
    \<and> registered (fst res) = {r \<in> registered t. \<not> identical route r}
    \<and> (snd res = None \<longrightarrow> fst res = t)"
  using delete_refines_removal_facts [OF assms(1,2)] unfolding res_def by blast

lemma counters_agree_facts:
  assumes "txn_inv pat t"
  shows "finite (registered t)"
    and "tx_size t = int (card (registered t))"
    and "tx_methods t m = (let k = card {r \<in> registered t. m \<in> set (rmethods r)} in if k = 0 then None else Some k)"
    and "r \<in> registered t \<Longrightarrow> length (rparams r) \<le> tx_maxParams t"
    and "s \<noteq> '''' \<Longrightarrow> Name (tx_names t) s = Some r \<longleftrightarrow> r \<in> registered t \<and> rname r = s"
proof -
  note S = state_okD [OF assms [unfolded txn_inv_def]]
  note R = registry_okD [OF S(3), folded registered_def]
  show "finite (registered t)" using leaves_okD(1) [OF R(1)] by (simp add: registered_def)
  show "tx_size t = int (card (registered t))" by (rule R(4))
  show "tx_methods t m = (let k = card {r \<in> registered t. m \<in> set (rmethods r)} in if k = 0 then None else Some k)"
    by (simp add: R(5) counter_def method_count_def Let_def)
  show "r \<in> registered t \<Longrightarrow> length (rparams r) \<le> tx_maxParams t" using S(4) by (simp add: registered_def)
  show "s \<noteq> '''' \<Longrightarrow> Name (tx_names t) s = Some r \<longleftrightarrow> r \<in> registered t \<and> rname r = s"
    unfolding Name_map [OF S(2)] by (rule names_of_lookup [OF R(3,2)])
qed


text \<open>A concrete registry, for the witnesses.\<close>

definition demo_pat :: "string \<Rightarrow> pattern" where
  "demo_pat s = rpattern (demo_route [] [] 0 :: (unit, unit) route)"

lemma demo_route_ok: "route_ok demo_pat (demo_route [''GET''] [] 0 :: (unit, unit) route)"
  by (simp add: route_ok_def demo_pat_def demo_route_def fast_ok_def catch_all_ok_def)

lemma empty_txn: "txn_inv pat (txn newTree)" "registered (txn newTree) = {}"
  by (simp_all add: handles_inv newTree_inv handles_registered) (simp add: newTree_def view_new_node registry_empty)

theorem insert_refines_witness:
  "let route = demo_route [''GET''] [] 0 :: (unit, unit) route; res = insert_route (txn newTree) route modeInsert
   in snd res = None \<and> txn_inv demo_pat (fst res) \<and> registered (fst res) = {route}
      \<and> snd (insert_route (fst res) route modeInsert) \<noteq> None"
proof -
  let ?r = "demo_route [''GET''] [] 0 :: (unit, unit) route" and ?t = "txn newTree :: (unit, unit) tXn"
  note first = insert_refines [OF empty_txn(1) demo_route_ok]
  have inv: "txn_inv demo_pat (fst (insert_route ?t ?r modeInsert))" using first by blast
  have ok: "snd (insert_route ?t ?r modeInsert) = None" using first by (simp add: empty_txn)
  then have reg: "registered (fst (insert_route ?t ?r modeInsert)) = {?r}" using first by (simp add: empty_txn)
  have "snd (insert_route (fst (insert_route ?t ?r modeInsert)) ?r modeInsert) \<noteq> None"
    using insert_refines [OF inv demo_route_ok] route_clash_self [of ?r] by (simp add: reg)
  with ok reg inv show ?thesis by (simp add: Let_def)
qed

text \<open>A transaction that holds the one route of the example.\<close>

definition demo_txn :: "(unit, unit) tXn" where
  "demo_txn = fst (insert_route (txn newTree) (demo_route [''GET''] [] 0) modeInsert)"

lemma demo_txn_inv: "txn_inv demo_pat demo_txn" "registered demo_txn = {demo_route [''GET''] [] 0}"
  using insert_route_modeInsert [OF empty_txn(1) demo_route_ok] empty_txn
  by (auto simp: demo_txn_def insert_error_def neq_Nil_conv txn_inv_def split: prod.splits option.splits error.splits)

theorem update_refines_witness:
  "snd (insert_route demo_txn (demo_route [''GET''] [] 0) modeUpdate) = None
   \<and> snd (insert_route (txn newTree) (demo_route [''GET''] [] 0 :: (unit, unit) route) modeUpdate) \<noteq> None"
proof
  show "snd (insert_route demo_txn (demo_route [''GET''] [] 0) modeUpdate) = None"
    using update_refines [OF demo_txn_inv(1) demo_route_ok] by (simp add: demo_txn_inv identical_def)
  show "snd (insert_route (txn newTree) (demo_route [''GET''] [] 0 :: (unit, unit) route) modeUpdate) \<noteq> None"
    using update_refines [OF empty_txn(1) demo_route_ok] by (simp add: empty_txn)
qed

theorem delete_refines_removal_witness:
  "snd (delete_route demo_txn (demo_route [''GET''] [] 0)) = Some (demo_route [''GET''] [] 0)
   \<and> registered (fst (delete_route demo_txn (demo_route [''GET''] [] 0))) = {}"
  using delete_refines_removal [OF demo_txn_inv(1) demo_route_ok]
  by (simp add: demo_txn_inv identical_def)


end
