(* ===== verification/Router_Txn.thy ===== *)
theory Router_Txn
  imports Txn
begin

text \<open>
  The transactions a client holds (\<open>Txn\<close> of \<open>txn.go\<close>) and the router that serializes them (\<open>Txn\<close>,
  \<open>getTree\<close>, \<open>newTree\<close> and the one-route operations of \<open>fox.go\<close>): the read-only and settled checks, the
  writer lock, publication by \<open>Commit\<close>, and a step relation for any number of interleaved transactions.
\<close>

subsection \<open>A transaction handle\<close>

record ('c, 'h) handle =
  rootTxn :: "('c, 'h) tXn option"
  xwrite :: bool

datatype ('c, 'h) api_error =
    ErrReadOnlyTxn
  | ErrInvalidRoute string
  | ErrTree "('c, 'h) error"

text \<open>A call on a settled transaction panics: the result \<open>None\<close>. A nil route is the argument \<open>None\<close>.\<close>

definition on_write ::
  "('c, 'h) handle \<Rightarrow> (('c, 'h) tXn \<Rightarrow> ('c, 'h) handle \<times> (('c, 'h) api_error + 'a))
   \<Rightarrow> (('c, 'h) handle \<times> (('c, 'h) api_error + 'a)) option" where
  "on_write x body =
     (case rootTxn x of
        None \<Rightarrow> None
      | Some t \<Rightarrow> Some (if \<not> xwrite x then (x, Inl ErrReadOnlyTxn) else body t))"

definition of_error :: "('c, 'h) error option \<Rightarrow> ('c, 'h) api_error + unit" where
  "of_error e = (case e of None \<Rightarrow> Inr () | Some e \<Rightarrow> Inl (ErrTree e))"

definition AddRoute ::
  "('c, 'h) handle \<Rightarrow> ('c, 'h) route option \<Rightarrow> (('c, 'h) handle \<times> (('c, 'h) api_error + unit)) option" where
  "AddRoute x route = on_write x (\<lambda>t.
     case route of
       None \<Rightarrow> (x, Inl (ErrInvalidRoute ''missing route''))
     | Some route \<Rightarrow>
         let (t', e) = insert_route t route modeInsert in (x\<lparr>rootTxn := Some t'\<rparr>, of_error e))"

definition UpdateRoute ::
  "('c, 'h) handle \<Rightarrow> ('c, 'h) route option \<Rightarrow> (('c, 'h) handle \<times> (('c, 'h) api_error + unit)) option" where
  "UpdateRoute x route = on_write x (\<lambda>t.
     case route of
       None \<Rightarrow> (x, Inl (ErrInvalidRoute ''missing route''))
     | Some route \<Rightarrow>
         let (t', e) = insert_route t route modeUpdate in (x\<lparr>rootTxn := Some t'\<rparr>, of_error e))"

definition DeleteRoute ::
  "('c, 'h) handle \<Rightarrow> ('c, 'h) route option
   \<Rightarrow> (('c, 'h) handle \<times> (('c, 'h) api_error + ('c, 'h) route)) option" where
  "DeleteRoute x route = on_write x (\<lambda>t.
     case route of
       None \<Rightarrow> (x, Inl (ErrInvalidRoute ''missing route''))
     | Some route \<Rightarrow>
         (case delete_route t route of
            (t', None) \<Rightarrow> (x\<lparr>rootTxn := Some t'\<rparr>, Inl (ErrTree (RouteNotFoundError route)))
          | (t', Some rte) \<Rightarrow> (x\<lparr>rootTxn := Some t'\<rparr>, Inr rte)))"

definition Truncate :: "('c, 'h) handle \<Rightarrow> (('c, 'h) handle \<times> (('c, 'h) api_error + unit)) option" where
  "Truncate x = on_write x (\<lambda>t. (x\<lparr>rootTxn := Some (Txn.truncate t)\<rparr>, Inr ()))"

definition Txn_Name :: "('c, 'h) handle \<Rightarrow> string \<Rightarrow> ('c, 'h) route option option" where
  "Txn_Name x name = map_option (\<lambda>t. Name (tx_names t) name) (rootTxn x)"

definition Txn_Len :: "('c, 'h) handle \<Rightarrow> int option" where
  "Txn_Len x = map_option tx_size (rootTxn x)"

text \<open>A snapshot is a read-only transaction; the original loses its copy-on-write marks.\<close>

definition Snapshot :: "('c, 'h) handle \<Rightarrow> ('c, 'h) handle option \<times> ('c, 'h) handle" where
  "Snapshot x =
     (case rootTxn x of
        None \<Rightarrow> (None, x)
      | Some t \<Rightarrow> let (t', old) = clone t in (Some \<lparr>rootTxn = Some t', xwrite = False\<rparr>, x\<lparr>rootTxn := Some old\<rparr>))"

subsection \<open>The router\<close>

text \<open>\<open>mu\<close> is the state of the mutex: \<open>Lock\<close> blocks (\<open>None\<close>) while it is held.\<close>

record ('c, 'h) router =
  tree :: "('c, 'h) iTree"
  mu :: bool

definition new_router :: "('c, 'h) router" where
  "new_router = \<lparr>tree = newTree, mu = False\<rparr>"

definition Router_Txn :: "('c, 'h) router \<Rightarrow> bool \<Rightarrow> (('c, 'h) router \<times> ('c, 'h) handle) option" where
  "Router_Txn fox write =
     (if write \<and> mu fox then None
      else Some (fox\<lparr>mu := mu fox \<or> write\<rparr>, \<lparr>rootTxn = Some (txn (tree fox)), xwrite = write\<rparr>))"

definition Commit :: "('c, 'h) router \<Rightarrow> ('c, 'h) handle \<Rightarrow> ('c, 'h) router \<times> ('c, 'h) handle" where
  "Commit fox x =
     (if \<not> xwrite x then (fox, x)
      else (case rootTxn x of
              None \<Rightarrow> (fox, x)
            | Some t \<Rightarrow>
                let (newRoot, _) = commit t
                in (fox\<lparr>tree := newRoot, mu := False\<rparr>, x\<lparr>rootTxn := None\<rparr>)))"

definition Abort :: "('c, 'h) router \<Rightarrow> ('c, 'h) handle \<Rightarrow> ('c, 'h) router \<times> ('c, 'h) handle" where
  "Abort fox x =
     (if \<not> xwrite x then (fox, x)
      else (case rootTxn x of
              None \<Rightarrow> (fox, x)
            | Some t \<Rightarrow> (fox\<lparr>mu := False\<rparr>, x\<lparr>rootTxn := None\<rparr>)))"

text \<open>
  \<open>Updates fn\<close>: the managed write transaction, with the deferred \<open>Abort\<close>. \<open>fn\<close> returns the transaction it
  leaves and its error, or panics (\<open>None\<close>; the state it leaves is dropped by \<open>Abort\<close>). The result is the
  router and whether it panicked (\<open>None\<close>) or the error.
\<close>

definition Updates ::
  "('c, 'h) router \<Rightarrow> (('c, 'h) handle \<Rightarrow> ('c, 'h) handle \<times> 'e option option)
   \<Rightarrow> (('c, 'h) router \<times> 'e option option) option" where
  "Updates fox fn =
     map_option (\<lambda>(fox, x).
       (case fn x of
          (x', None) \<Rightarrow> (fst (Abort fox x'), None)
        | (x', Some (Some err)) \<Rightarrow> (fst (Abort fox x'), Some (Some err))
        | (x', Some None) \<Rightarrow>
            let (fox', x'') = Commit fox x' in (fst (Abort fox' x''), Some None)))
       (Router_Txn fox True)"

text \<open>\<open>Router.AddRoute\<close>, \<open>UpdateRoute\<close> and \<open>DeleteRoute\<close>: one operation in a transaction of its own.\<close>

definition managed ::
  "('c, 'h) router \<Rightarrow> (('c, 'h) handle \<Rightarrow> (('c, 'h) handle \<times> ('e + 'a)) option)
   \<Rightarrow> (('c, 'h) router \<times> ('e + 'a)) option" where
  "managed fox operation =
     (case Router_Txn fox True of
        None \<Rightarrow> None
      | Some (fox, x) \<Rightarrow>
          (case operation x of
             None \<Rightarrow> None
           | Some (x', Inl err) \<Rightarrow> Some (fst (Abort fox x'), Inl err)
           | Some (x', Inr v) \<Rightarrow>
               let (fox', x'') = Commit fox x' in Some (fst (Abort fox' x''), Inr v)))"

definition Router_AddRoute ::
  "('c, 'h) router \<Rightarrow> ('c, 'h) route option \<Rightarrow> (('c, 'h) router \<times> (('c, 'h) api_error + unit)) option" where
  "Router_AddRoute fox route = managed fox (\<lambda>x. AddRoute x route)"

definition Router_UpdateRoute ::
  "('c, 'h) router \<Rightarrow> ('c, 'h) route option \<Rightarrow> (('c, 'h) router \<times> (('c, 'h) api_error + unit)) option" where
  "Router_UpdateRoute fox route = managed fox (\<lambda>x. UpdateRoute x route)"

definition Router_DeleteRoute ::
  "('c, 'h) router \<Rightarrow> ('c, 'h) route option
   \<Rightarrow> (('c, 'h) router \<times> (('c, 'h) api_error + ('c, 'h) route)) option" where
  "Router_DeleteRoute fox route = managed fox (\<lambda>x. DeleteRoute x route)"

section \<open>One transaction at a time\<close>

definition published :: "('c, 'h) router \<Rightarrow> ('c, 'h) route set" where
  "published fox = routes_of (routes_at (it_patterns (tree fox)))"

definition handle_inv :: "(string \<Rightarrow> pattern) \<Rightarrow> ('c, 'h) handle \<Rightarrow> bool" where
  "handle_inv pat x \<longleftrightarrow> (case rootTxn x of None \<Rightarrow> True | Some t \<Rightarrow> txn_inv pat t)"

text \<open>The effect of each operation on the set of registered routes.\<close>

definition abs_add :: "('c, 'h) route \<Rightarrow> ('c, 'h) route set \<Rightarrow> ('c, 'h) route set" where
  "abs_add route R = (if \<forall>r \<in> R. \<not> route_clash route r \<and> \<not> name_clash route r then insert route R else R)"

definition abs_update :: "('c, 'h) route \<Rightarrow> ('c, 'h) route set \<Rightarrow> ('c, 'h) route set" where
  "abs_update route R =
     (if \<exists>old \<in> R. identical route old \<and> (\<forall>r \<in> R. r \<noteq> old \<longrightarrow> \<not> name_clash route r)
      then insert route {r \<in> R. \<not> identical route r} else R)"

definition abs_delete :: "('c, 'h) route \<Rightarrow> ('c, 'h) route set \<Rightarrow> ('c, 'h) route set" where
  "abs_delete route R = {r \<in> R. \<not> identical route r}"

definition view :: "('c, 'h) handle \<Rightarrow> ('c, 'h) route set option" where
  "view x = map_option registered (rootTxn x)"

lemma registered_mode [simp]: "registered (t\<lparr>tx_mode := m\<rparr>) = registered t"
  by (simp add: registered_def)

lemma insert_route_registered:
  assumes "txn_inv pat t" "route_ok pat route"
  shows "registered (fst (insert_route t route modeInsert)) = abs_add route (registered t)"
    and "registered (fst (insert_route t route modeUpdate)) = abs_update route (registered t)"
proof -
  note I = insert_refines_facts [OF assms] and U = update_refines_facts [OF assms]
  show "registered (fst (insert_route t route modeInsert)) = abs_add route (registered t)"
    using I by (cases "snd (insert_route t route modeInsert)") (auto simp: abs_add_def)
  show "registered (fst (insert_route t route modeUpdate)) = abs_update route (registered t)"
  proof (cases "snd (insert_route t route modeUpdate)")
    case None
    with U(1) obtain old where old: "old \<in> registered t" "identical route old" by auto
    have "{r \<in> registered t. \<not> identical route r} = registered t - {old}"
      using txn_identical_unique [OF assms(1)] old by blast
    with U(3) [OF None old] U(1) None show ?thesis by (simp add: abs_update_def)
  next
    case (Some e)
    with U(1) have "\<not> (\<exists>old \<in> registered t. identical route old \<and> (\<forall>r \<in> registered t. r \<noteq> old \<longrightarrow> \<not> name_clash route r))"
      by simp
    then have "abs_update route (registered t) = registered t" unfolding abs_update_def by (rule if_not_P)
    with U(4) [OF Some] show ?thesis by simp
  qed
qed

lemma delete_route_registered:
  assumes "txn_inv pat t" "route_ok pat route"
  shows "registered (fst (delete_route t route)) = abs_delete route (registered t)"
  using delete_refines_removal_facts(3) [OF assms] by (auto simp: abs_delete_def)

text \<open>What a call on a handle gives: never a panic before settling, no effect on a read-only handle.\<close>

lemma handle_operation:
  assumes inv: "handle_inv pat x" and rok: "route_ok pat route"
  shows "(AddRoute x (Some route) = None \<longleftrightarrow> rootTxn x = None)
      \<and> (\<forall>x' res. AddRoute x (Some route) = Some (x', res) \<longrightarrow> handle_inv pat x' \<and> xwrite x' = xwrite x
           \<and> view x' = map_option (if xwrite x then abs_add route else id) (view x))" (is ?add)
    and "(UpdateRoute x (Some route) = None \<longleftrightarrow> rootTxn x = None)
      \<and> (\<forall>x' res. UpdateRoute x (Some route) = Some (x', res) \<longrightarrow> handle_inv pat x' \<and> xwrite x' = xwrite x
           \<and> view x' = map_option (if xwrite x then abs_update route else id) (view x))" (is ?update)
    and "(DeleteRoute x (Some route) = None \<longleftrightarrow> rootTxn x = None)
      \<and> (\<forall>x' res. DeleteRoute x (Some route) = Some (x', res) \<longrightarrow> handle_inv pat x' \<and> xwrite x' = xwrite x
           \<and> view x' = map_option (if xwrite x then abs_delete route else id) (view x))" (is ?delete)
proof -
  have "?add \<and> ?update \<and> ?delete"
  proof (cases "rootTxn x")
    case None
    then show ?thesis by (simp add: AddRoute_def UpdateRoute_def DeleteRoute_def on_write_def)
  next
    case (Some t)
    with inv have t: "txn_inv pat t" by (simp add: handle_inv_def)
    note R = insert_route_registered [OF t rok] delete_route_registered [OF t rok]
      insert_refines_facts(2) [OF t rok] update_refines_facts(2) [OF t rok] delete_refines_removal_facts(2) [OF t rok]
    obtain ti ei where i: "insert_route t route modeInsert = (ti, ei)" by fastforce
    obtain tu eu where u: "insert_route t route modeUpdate = (tu, eu)" by fastforce
    obtain td ed where d: "delete_route t route = (td, ed)" by fastforce
    show ?thesis
      using Some t R unfolding i u d fst_conv
      by (auto simp: AddRoute_def UpdateRoute_def DeleteRoute_def on_write_def i u d view_def handle_inv_def
          split: option.splits)
  qed
  then show ?add ?update ?delete by blast+
qed

lemma handle_truncate:
  "(Truncate x = None \<longleftrightarrow> rootTxn x = None)
   \<and> (\<forall>x' res. Truncate x = Some (x', res) \<longrightarrow> (handle_inv pat x \<longrightarrow> handle_inv pat x') \<and> xwrite x' = xwrite x
        \<and> view x' = map_option (if xwrite x then \<lambda>_. {} else id) (view x))"
  by (cases "rootTxn x")
    (auto simp: Truncate_def on_write_def view_def handle_inv_def truncate_spec split: if_splits)

section \<open>Interleaved transactions\<close>

text \<open>
  Any number of handles, numbered, on one router. Each event is one call; the mutex makes \<open>Begin i True\<close>
  enabled only while no write transaction is open.
\<close>

record ('c, 'h) system =
  fox :: "('c, 'h) router"
  handles :: "nat \<rightharpoonup> ('c, 'h) handle"

datatype ('c, 'h) event =
    Begin nat bool
  | Add nat "('c, 'h) route"
  | Update nat "('c, 'h) route"
  | Delete nat "('c, 'h) route"
  | Clear nat
  | Finish nat
  | Cancel nat
  | Fork nat nat

definition initial :: "('c, 'h) system" where
  "initial = \<lparr>fox = new_router, handles = Map.empty\<rparr>"

inductive step :: "(string \<Rightarrow> pattern) \<Rightarrow> ('c, 'h) system \<Rightarrow> ('c, 'h) event \<Rightarrow> ('c, 'h) system \<Rightarrow> bool"
  for pat where
  begin_txn: "handles s i = None \<Longrightarrow> Router_Txn (fox s) w = Some (f, x) \<Longrightarrow>
     step pat s (Begin i w) (s\<lparr>fox := f, handles := (handles s)(i \<mapsto> x)\<rparr>)"
| add: "handles s i = Some x \<Longrightarrow> route_ok pat r \<Longrightarrow> AddRoute x (Some r) = Some (x', res) \<Longrightarrow>
     step pat s (Add i r) (s\<lparr>handles := (handles s)(i \<mapsto> x')\<rparr>)"
| update: "handles s i = Some x \<Longrightarrow> route_ok pat r \<Longrightarrow> UpdateRoute x (Some r) = Some (x', res) \<Longrightarrow>
     step pat s (Update i r) (s\<lparr>handles := (handles s)(i \<mapsto> x')\<rparr>)"
| delete: "handles s i = Some x \<Longrightarrow> route_ok pat r \<Longrightarrow> DeleteRoute x (Some r) = Some (x', res') \<Longrightarrow>
     step pat s (Delete i r) (s\<lparr>handles := (handles s)(i \<mapsto> x')\<rparr>)"
| clear: "handles s i = Some x \<Longrightarrow> Truncate x = Some (x', res) \<Longrightarrow>
     step pat s (Clear i) (s\<lparr>handles := (handles s)(i \<mapsto> x')\<rparr>)"
| finish: "handles s i = Some x \<Longrightarrow> Commit (fox s) x = (f, x') \<Longrightarrow>
     step pat s (Finish i) (s\<lparr>fox := f, handles := (handles s)(i \<mapsto> x')\<rparr>)"
| cancel: "handles s i = Some x \<Longrightarrow> Abort (fox s) x = (f, x') \<Longrightarrow>
     step pat s (Cancel i) (s\<lparr>fox := f, handles := (handles s)(i \<mapsto> x')\<rparr>)"
| fork: "handles s i = Some x \<Longrightarrow> handles s j = None \<Longrightarrow> Snapshot x = (Some y, x') \<Longrightarrow>
     step pat s (Fork i j) (s\<lparr>handles := (handles s)(i \<mapsto> x', j \<mapsto> y)\<rparr>)"

inductive_cases stepE: "step pat s e s'"

inductive run :: "(string \<Rightarrow> pattern) \<Rightarrow> ('c, 'h) event list \<Rightarrow> ('c, 'h) system \<Rightarrow> bool" for pat where
  start: "run pat [] initial"
| more: "run pat es s \<Longrightarrow> step pat s e s' \<Longrightarrow> run pat (es @ [e]) s'"

text \<open>The invariant of the system: every tree is well formed, and the mutex is held by the one open writer.\<close>

definition open_writer :: "('c, 'h) system \<Rightarrow> nat \<Rightarrow> bool" where
  "open_writer s i \<longleftrightarrow> (\<exists>x. handles s i = Some x \<and> xwrite x \<and> rootTxn x \<noteq> None)"

definition sys_inv :: "(string \<Rightarrow> pattern) \<Rightarrow> ('c, 'h) system \<Rightarrow> bool" where
  "sys_inv pat s \<longleftrightarrow>
     tree_inv pat (tree (fox s)) \<and> (\<forall>i x. handles s i = Some x \<longrightarrow> handle_inv pat x)
     \<and> (\<forall>i j. open_writer s i \<longrightarrow> open_writer s j \<longrightarrow> i = j)
     \<and> (mu (fox s) \<longleftrightarrow> (\<exists>i. open_writer s i))"

lemma sys_inv_handles:
  assumes "sys_inv pat s" "handles s i = Some x" "handle_inv pat x'" "xwrite x' = xwrite x"
    and "rootTxn x' = None \<longleftrightarrow> rootTxn x = None"
  shows "sys_inv pat (s\<lparr>handles := (handles s)(i \<mapsto> x')\<rparr>)"
proof -
  have "open_writer (s\<lparr>handles := (handles s)(i \<mapsto> x')\<rparr>) = open_writer s"
    using assms(2,4,5) by (auto simp: open_writer_def fun_eq_iff)
  with assms(1,3) show ?thesis by (simp add: sys_inv_def)
qed

lemma view_None: "view x = None \<longleftrightarrow> rootTxn x = None"
  by (simp add: view_def)

lemma sys_inv_settle:
  assumes inv: "sys_inv pat s" and "handles s i = Some x" "xwrite x" "rootTxn x = Some t"
    and "tree_inv pat tr"
  shows "sys_inv pat (s\<lparr>fox := \<lparr>tree = tr, mu = False\<rparr>, handles := (handles s)(i \<mapsto> x\<lparr>rootTxn := None\<rparr>)\<rparr>)"
proof -
  have "open_writer s i" using assms(2-4) by (simp add: open_writer_def)
  with inv have only: "open_writer s j \<Longrightarrow> j = i" for j by (simp add: sys_inv_def)
  have "\<not> open_writer (s\<lparr>fox := \<lparr>tree = tr, mu = False\<rparr>, handles := (handles s)(i \<mapsto> x\<lparr>rootTxn := None\<rparr>)\<rparr>) j" for j
  proof (cases "j = i")
    case False
    then have "open_writer (s\<lparr>fox := \<lparr>tree = tr, mu = False\<rparr>, handles := (handles s)(i \<mapsto> x\<lparr>rootTxn := None\<rparr>)\<rparr>) j
        = open_writer s j" by (simp add: open_writer_def)
    with only [of j] False show ?thesis by blast
  qed (simp add: open_writer_def)
  with assms show ?thesis by (auto simp: sys_inv_def handle_inv_def)
qed

lemma router_eta: "f\<lparr>tree := a, mu := b\<rparr> = \<lparr>tree = a, mu = b\<rparr>" "f\<lparr>mu := b\<rparr> = \<lparr>tree = tree f, mu = b\<rparr>"
  for f :: "('c, 'h) router"
  by simp_all

lemma step_sys_inv:
  assumes inv: "sys_inv pat s" and "step pat s e s'"
  shows "sys_inv pat s'"
  using assms(2)
proof (cases rule: step.cases)
  case (begin_txn i w f x)
  have x: "xwrite x = w" "rootTxn x = Some (txn (tree (fox s)))" "tree f = tree (fox s)"
    "mu f = (mu (fox s) \<or> w)" "w \<Longrightarrow> \<not> mu (fox s)"
    using begin_txn(4) by (auto simp: Router_Txn_def split: if_splits)
  have tree: "tree_inv pat (tree (fox s'))" using inv x(3) begin_txn(2) by (simp add: sys_inv_def)
  have "handle_inv pat x" using inv x(2) by (simp add: handle_inv_def handles_inv sys_inv_def)
  then have handles: "\<forall>j y. handles s' j = Some y \<longrightarrow> handle_inv pat y"
    using inv begin_txn(2) by (simp add: sys_inv_def)
  have ow: "open_writer s' j \<longleftrightarrow> (if j = i then w else open_writer s j)" for j
    using begin_txn(2) x(1,2) by (simp add: open_writer_def)
  have fresh: "\<not> open_writer s i" using begin_txn(3) by (simp add: open_writer_def)
  have old: "mu (fox s) = (\<exists>j. open_writer s j)" "\<And>j k. open_writer s j \<Longrightarrow> open_writer s k \<Longrightarrow> j = k"
    using inv by (auto simp: sys_inv_def)
  have mu: "mu (fox s') = (mu (fox s) \<or> w)" using begin_txn(2) x(4) by simp
  show ?thesis
  proof (cases w)
    case True
    then have "\<not> open_writer s j" for j using x(5) old(1) by simp
    with True ow mu have "open_writer s' j \<longleftrightarrow> j = i" "mu (fox s')" for j by auto
    with tree handles show ?thesis by (simp add: sys_inv_def)
  next
    case False
    with ow fresh have "open_writer s' = open_writer s" by (auto simp: fun_eq_iff)
    with False tree handles mu old show ?thesis unfolding sys_inv_def by simp
  qed
next
  case (add i x r x' res)
  then have "handle_inv pat x" using inv by (auto simp: sys_inv_def)
  from handle_operation(1) [OF this add(4)] add show ?thesis
    using sys_inv_handles [OF inv, of i x x'] view_None [of x] view_None [of x'] by auto
next
  case (update i x r x' res)
  then have "handle_inv pat x" using inv by (auto simp: sys_inv_def)
  from handle_operation(2) [OF this update(4)] update show ?thesis
    using sys_inv_handles [OF inv, of i x x'] view_None [of x] view_None [of x'] by auto
next
  case (delete i x r x' res')
  then have "handle_inv pat x" using inv by (auto simp: sys_inv_def)
  from handle_operation(3) [OF this delete(4)] delete show ?thesis
    using sys_inv_handles [OF inv, of i x x'] view_None [of x] view_None [of x'] by auto
next
  case (clear i x x' res)
  then have "handle_inv pat x" using inv by (auto simp: sys_inv_def)
  with handle_truncate [of x pat] clear show ?thesis
    using sys_inv_handles [OF inv, of i x x'] view_None [of x] view_None [of x'] by auto
next
  case (finish i x f x')
  show ?thesis
  proof (cases "xwrite x \<and> rootTxn x \<noteq> None")
    case True
    then obtain t where t: "xwrite x" "rootTxn x = Some t" by auto
    then have "f = \<lparr>tree = fst (commit t), mu = False\<rparr>" "x' = x\<lparr>rootTxn := None\<rparr>"
      using finish(4) by (auto simp: Commit_def commit_def)
    moreover have "tree_inv pat (fst (commit t))"
    proof -
      have "handle_inv pat x" using inv finish(3) unfolding sys_inv_def by blast
      with t(2) show ?thesis by (simp add: handles_inv handle_inv_def)
    qed
    ultimately show ?thesis using sys_inv_settle [OF inv finish(3) t] finish(2) by simp
  next
    case False
    then have "f = fox s" "x' = x" using finish(4) by (auto simp: Commit_def split: option.splits)
    with finish(2,3) have "s' = s" by (simp add: map_upd_triv)
    with inv show ?thesis by simp
  qed
next
  case (cancel i x f x')
  show ?thesis
  proof (cases "xwrite x \<and> rootTxn x \<noteq> None")
    case True
    then obtain t where t: "xwrite x" "rootTxn x = Some t" by auto
    then have "f = \<lparr>tree = tree (fox s), mu = False\<rparr>" "x' = x\<lparr>rootTxn := None\<rparr>"
      using cancel(4) by (auto simp: Abort_def)
    moreover have "tree_inv pat (tree (fox s))" using inv by (simp add: sys_inv_def)
    ultimately show ?thesis using sys_inv_settle [OF inv cancel(3) t] cancel(2) by simp
  next
    case False
    then have "f = fox s" "x' = x" using cancel(4) by (auto simp: Abort_def split: option.splits)
    with cancel(2,3) have "s' = s" by (simp add: map_upd_triv)
    with inv show ?thesis by simp
  qed
next
  case (fork i x j y x')
  then obtain t where t: "rootTxn x = Some t" by (cases "rootTxn x") (auto simp: Snapshot_def)
  then have y: "y = \<lparr>rootTxn = Some (fst (clone t)), xwrite = False\<rparr>" "x' = x\<lparr>rootTxn := Some (snd (clone t))\<rparr>"
    using fork(5) by (auto simp: Snapshot_def split: prod.splits)
  have xi: "handle_inv pat x" using inv fork(3) by (auto simp: sys_inv_def)
  then have "handle_inv pat y" "handle_inv pat x'" using t y by (simp_all add: handle_inv_def handles_inv)
  moreover have "open_writer s' = open_writer s"
    using fork(2-4) t y by (auto simp: open_writer_def fun_eq_iff)
  ultimately show ?thesis
    using inv fork(2) by (auto simp: sys_inv_def)
qed

lemma initial_sys_inv: "sys_inv pat initial"
  by (simp add: sys_inv_def initial_def new_router_def newTree_inv open_writer_def)

lemma run_sys_inv: "run pat es s \<Longrightarrow> sys_inv pat s"
  by (induction rule: run.induct) (auto intro: initial_sys_inv step_sys_inv)

subsection \<open>Serial execution\<close>

text \<open>
  The specification: one published set and at most one write transaction in progress, which works on a
  copy of it and replaces it when it commits.
\<close>

type_synonym ('c, 'h) serial = "('c, 'h) route set \<times> (nat \<times> ('c, 'h) route set) option"

definition on_current ::
  "nat \<Rightarrow> (('c, 'h) route set \<Rightarrow> ('c, 'h) route set) \<Rightarrow> ('c, 'h) serial \<Rightarrow> ('c, 'h) serial" where
  "on_current i f sys =
     (case sys of
        (R, Some (j, S)) \<Rightarrow> (R, Some (j, if i = j then f S else S))
      | (R, None) \<Rightarrow> (R, None))"

fun serial_step :: "('c, 'h) serial \<Rightarrow> ('c, 'h) event \<Rightarrow> ('c, 'h) serial" where
  "serial_step (R, c) (Begin i w) = (if w then (R, Some (i, R)) else (R, c))"
| "serial_step sys (Add i r) = on_current i (abs_add r) sys"
| "serial_step sys (Update i r) = on_current i (abs_update r) sys"
| "serial_step sys (Delete i r) = on_current i (abs_delete r) sys"
| "serial_step sys (Clear i) = on_current i (\<lambda>_. {}) sys"
| "serial_step (R, c) (Finish i) =
     (case c of Some (j, S) \<Rightarrow> if i = j then (S, None) else (R, c) | None \<Rightarrow> (R, None))"
| "serial_step (R, c) (Cancel i) =
     (case c of Some (j, S) \<Rightarrow> if i = j then (R, None) else (R, c) | None \<Rightarrow> (R, None))"
| "serial_step sys (Fork i j) = sys"

definition serial_view :: "('c, 'h) system \<Rightarrow> ('c, 'h) serial \<Rightarrow> bool" where
  "serial_view s sys \<longleftrightarrow>
     fst sys = published (fox s)
     \<and> (\<forall>i. open_writer s i \<longleftrightarrow> (\<exists>S. snd sys = Some (i, S)))
     \<and> (\<forall>i S. snd sys = Some (i, S) \<longrightarrow> (\<exists>x. handles s i = Some x \<and> view x = Some S))"

text \<open>Replacing one handle by one that is as open as before.\<close>

lemma serial_view_handles:
  assumes rel: "serial_view s sys" and x: "handles s i = Some x" "xwrite x' = xwrite x"
    and view: "view x' = map_option (if xwrite x then f else id) (view x)"
  shows "serial_view (s\<lparr>handles := (handles s)(i \<mapsto> x')\<rparr>) (on_current i f sys)"
proof -
  let ?s' = "s\<lparr>handles := (handles s)(i \<mapsto> x')\<rparr>"
  have "rootTxn x' = None \<longleftrightarrow> rootTxn x = None"
    using view view_None [of x] view_None [of x'] by simp
  then have ow: "open_writer ?s' = open_writer s" using x by (auto simp: open_writer_def fun_eq_iff)
  obtain R c where sys: "sys = (R, c)" by fastforce
  show ?thesis
  proof (cases c)
    case None
    with rel sys ow show ?thesis by (simp add: serial_view_def on_current_def)
  next
    case (Some js)
    then obtain j S where c: "c = Some (j, S)" by (cases js) simp
    with rel sys have j: "open_writer s j" "\<And>k. open_writer s k \<longleftrightarrow> k = j"
      and "\<exists>y. handles s j = Some y \<and> view y = Some S" by (auto simp: serial_view_def)
    then obtain y where y: "handles s j = Some y" "view y = Some S" by blast
    have "xwrite y" using j(1) y(1) by (simp add: open_writer_def)
    have "\<exists>z. handles ?s' j = Some z \<and> view z = Some (if i = j then f S else S)"
      using x y view \<open>xwrite y\<close> by auto
    then show ?thesis
      using rel sys c ow j(2) by (auto simp: serial_view_def on_current_def)
  qed
qed

lemma on_current_id: "on_current i id sys = sys"
  by (auto simp: on_current_def split: prod.splits option.splits)

lemma serial_view_settle:
  assumes rel: "serial_view s (R, c)" and inv: "sys_inv pat s"
    and x: "handles s i = Some x" "xwrite x" "rootTxn x = Some t"
  shows "c = Some (i, registered t)"
    and "serial_view (s\<lparr>fox := f, handles := (handles s)(i \<mapsto> x\<lparr>rootTxn := None\<rparr>)\<rparr>) (published f, None)"
proof -
  have ow: "open_writer s i" using x by (simp add: open_writer_def)
  with rel obtain S where c: "c = Some (i, S)" by (auto simp: serial_view_def)
  with rel x have "S = registered t" by (auto simp: serial_view_def view_def)
  with c show "c = Some (i, registered t)" by simp
  have only: "open_writer s j \<longleftrightarrow> j = i" for j using rel c by (auto simp: serial_view_def)
  have "\<not> open_writer (s\<lparr>fox := f, handles := (handles s)(i \<mapsto> x\<lparr>rootTxn := None\<rparr>)\<rparr>) j" for j
  proof (cases "j = i")
    case False
    then have "open_writer (s\<lparr>fox := f, handles := (handles s)(i \<mapsto> x\<lparr>rootTxn := None\<rparr>)\<rparr>) j = open_writer s j"
      by (simp add: open_writer_def)
    with only [of j] False show ?thesis by blast
  qed (simp add: open_writer_def)
  then show "serial_view (s\<lparr>fox := f, handles := (handles s)(i \<mapsto> x\<lparr>rootTxn := None\<rparr>)\<rparr>) (published f, None)"
    by (simp add: serial_view_def)
qed

lemma serial_view_closed:
  assumes "serial_view s (R, c)" "handles s i = Some x" "\<not> (xwrite x \<and> rootTxn x \<noteq> None)"
  shows "serial_step (R, c) (Finish i) = (R, c)" "serial_step (R, c) (Cancel i) = (R, c)"
proof -
  have "\<not> open_writer s i" using assms(2,3) by (simp add: open_writer_def)
  with assms(1) have "c \<noteq> Some (i, S)" for S by (auto simp: serial_view_def)
  then show "serial_step (R, c) (Finish i) = (R, c)" "serial_step (R, c) (Cancel i) = (R, c)"
    by (auto split: option.splits)
qed

lemma published_eq: "tree f = tree f' \<Longrightarrow> published f = published f'"
  by (simp add: published_def)

lemma serial_step_refines:
  assumes inv: "sys_inv pat s" and rel: "serial_view s sys" and "step pat s e s'"
  shows "serial_view s' (serial_step sys e)"
proof -
  obtain R c where sys: "sys = (R, c)" by fastforce
  have hinv: "handle_inv pat x" if "handles s i = Some x" for i x
    using inv that unfolding sys_inv_def by blast
  show ?thesis
    using assms(3)
  proof (cases rule: step.cases)
    case (begin_txn i w f x)
    have x: "xwrite x = w" "rootTxn x = Some (txn (tree (fox s)))" "tree f = tree (fox s)"
      "w \<Longrightarrow> \<not> mu (fox s)"
      using begin_txn(4) by (auto simp: Router_Txn_def split: if_splits)
    have view: "view x = Some (published (fox s))"
      using x(2) by (simp add: view_def published_def handles_registered)
    have pub: "published (fox s') = published (fox s)" using begin_txn(2) x(3) by (simp add: published_def)
    have ow: "open_writer s' j \<longleftrightarrow> (if j = i then w else open_writer s j)" for j
      using begin_txn(2) x(1,2) by (simp add: open_writer_def)
    have fresh: "\<not> open_writer s i" using begin_txn(3) by (simp add: open_writer_def)
    show ?thesis
    proof (cases w)
      case True
      with x(4) inv have none: "\<not> open_writer s j" for j by (simp add: sys_inv_def)
      have R: "R = published (fox s)" using rel sys by (simp add: serial_view_def)
      have new: "serial_step sys e = (R, Some (i, R))" using True sys begin_txn(1) by simp
      have "open_writer s' j \<longleftrightarrow> i = j" for j using ow [of j] none [of j] True by auto
      with new R view pub begin_txn(2) show ?thesis by (simp add: serial_view_def)
    next
      case False
      then have new: "serial_step sys e = sys" using sys begin_txn(1) by simp
      have "open_writer s' = open_writer s" using ow fresh False by (auto simp: fun_eq_iff)
      moreover have "handles s' j = handles s j" if "open_writer s j" for j
        using that fresh begin_txn(2) by auto
      ultimately show ?thesis
        using rel pub unfolding new serial_view_def by (metis (no_types, lifting))
    qed
  next
    case (add i x r x' res)
    with handle_operation(1) [OF hinv [OF add(3)] add(4)] serial_view_handles [OF rel add(3), of x' "abs_add r"]
    show ?thesis by (simp add: sys)
  next
    case (update i x r x' res)
    with handle_operation(2) [OF hinv [OF update(3)] update(4)] serial_view_handles [OF rel update(3), of x' "abs_update r"]
    show ?thesis by (simp add: sys)
  next
    case (delete i x r x' res')
    with handle_operation(3) [OF hinv [OF delete(3)] delete(4)] serial_view_handles [OF rel delete(3), of x' "abs_delete r"]
    show ?thesis by (simp add: sys)
  next
    case (clear i x x' res)
    with handle_truncate [of x pat] serial_view_handles [OF rel clear(3), of x' "\<lambda>_. {}"]
    show ?thesis by (simp add: sys)
  next
    case (finish i x f x')
    show ?thesis
    proof (cases "xwrite x \<and> rootTxn x \<noteq> None")
      case True
      then obtain t where t: "xwrite x" "rootTxn x = Some t" by auto
      then have f: "f = \<lparr>tree = fst (commit t), mu = False\<rparr>" "x' = x\<lparr>rootTxn := None\<rparr>"
        using finish(4) by (auto simp: Commit_def commit_def)
      then have "published f = registered t" by (simp add: published_def handles_registered)
      with serial_view_settle(1) [OF rel [unfolded sys] inv finish(3) t] serial_view_settle(2) [OF rel [unfolded sys] inv finish(3) t, of f] f(2) finish(1,2) sys
      show ?thesis by simp
    next
      case False
      then have "f = fox s" "x' = x" using finish(4) by (auto simp: Commit_def split: option.splits)
      then have "s' = s" using finish(2,3) by (simp add: map_upd_triv)
      with rel serial_view_closed(1) [OF rel [unfolded sys] finish(3) False] sys finish(1) show ?thesis by simp
    qed
  next
    case (cancel i x f x')
    show ?thesis
    proof (cases "xwrite x \<and> rootTxn x \<noteq> None")
      case True
      then obtain t where t: "xwrite x" "rootTxn x = Some t" by auto
      then have f: "tree f = tree (fox s)" "x' = x\<lparr>rootTxn := None\<rparr>"
        using cancel(4) by (auto simp: Abort_def)
      then have "published f = R" using rel sys by (simp add: serial_view_def published_def)
      with serial_view_settle(1) [OF rel [unfolded sys] inv cancel(3) t] serial_view_settle(2) [OF rel [unfolded sys] inv cancel(3) t, of f] f(2) cancel(1,2) sys
      show ?thesis by simp
    next
      case False
      then have "f = fox s" "x' = x" using cancel(4) by (auto simp: Abort_def split: option.splits)
      then have "s' = s" using cancel(2,3) by (simp add: map_upd_triv)
      with rel serial_view_closed(2) [OF rel [unfolded sys] cancel(3) False] sys cancel(1) show ?thesis by simp
    qed
  next
    case (fork i x j y x')
    then obtain t where t: "rootTxn x = Some t" by (cases "rootTxn x") (auto simp: Snapshot_def)
    then have y: "xwrite y = False" "x' = x\<lparr>rootTxn := Some (snd (clone t))\<rparr>"
      using fork(5) by (auto simp: Snapshot_def split: prod.splits)
    let ?m = "s\<lparr>handles := (handles s)(i \<mapsto> x')\<rparr>"
    have "serial_view ?m (on_current i id sys)"
      using serial_view_handles [OF rel fork(3), of x' id] y(2) t by (simp add: view_def handles_registered)
    then have m: "serial_view ?m sys" by (simp add: on_current_id)
    have "i \<noteq> j" using fork(3,4) by auto
    then have fresh: "\<not> open_writer ?m j" using fork(4) by (simp add: open_writer_def)
    then have "open_writer s' = open_writer ?m"
      using fork(2) y(1) by (auto simp: open_writer_def fun_eq_iff)
    moreover have "handles s' k = handles ?m k" if "open_writer ?m k" for k
      using that fresh fork(2) by auto
    moreover have "fox s' = fox ?m" using fork(2) by simp
    ultimately show ?thesis
      using m fork(1) sys unfolding serial_view_def by (simp only: serial_step.simps) metis
  qed
qed

lemma initial_serial: "serial_view initial ({}, None)"
  by (simp add: serial_view_def initial_def new_router_def published_def newTree_def view_new_node
      registry_empty open_writer_def)

lemma run_serial: "run pat es s \<Longrightarrow> serial_view s (foldl serial_step ({}, None) es)"
  by (induction rule: run.induct) (auto intro: initial_serial serial_step_refines dest: run_sys_inv)

section \<open>Properties of transactions\<close>

text \<open>
  C18. In every reachable state of any number of interleaved transactions, at most one write transaction
  is open, the mutex is held exactly while one is, and the published tree and the tree of every
  open transaction satisfy the tree invariant.
\<close>

theorem writers_exclusive:
  assumes "run pat es s"
  shows "(\<forall>i j. open_writer s i \<and> open_writer s j \<longrightarrow> i = j)
    \<and> (mu (fox s) \<longleftrightarrow> (\<exists>i. open_writer s i))
    \<and> tree_inv pat (tree (fox s))
    \<and> (\<forall>i x t. handles s i = Some x \<and> rootTxn x = Some t \<longrightarrow> txn_inv pat t)"
proof -
  note inv = run_sys_inv [OF assms]
  have "txn_inv pat t" if "handles s i = Some x" "rootTxn x = Some t" for i x t
  proof -
    have "handle_inv pat x" using inv that(1) unfolding sys_inv_def by blast
    with that(2) show ?thesis by (simp add: handle_inv_def)
  qed
  with inv show ?thesis unfolding sys_inv_def by blast
qed

text \<open>
  C17. The transactions are serializable: after any interleaving, the published routes are those of the
  serial machine that runs one write transaction at a time on its own copy and publishes it at \<open>Commit\<close>;
  aborted transactions, read-only handles and snapshots contribute nothing.
\<close>

theorem transactions_serialize:
  assumes "run pat es s"
  shows "published (fox s) = fst (foldl serial_step ({}, None) es)
    \<and> (\<forall>i. open_writer s i \<longleftrightarrow> (\<exists>S. snd (foldl serial_step ({}, None) es) = Some (i, S)))
    \<and> (\<forall>i S. snd (foldl serial_step ({}, None) es) = Some (i, S) \<longrightarrow>
         (\<exists>x. handles s i = Some x \<and> view x = Some S))"
  using run_serial [OF assms] unfolding serial_view_def by blast

lemma readonly_view:
  assumes "\<not> xwrite x" "handle_inv pat x" "route_ok pat r"
  shows "AddRoute x (Some r) = Some (x', res) \<Longrightarrow> \<not> xwrite x' \<and> view x' = view x"
    "UpdateRoute x (Some r) = Some (x', res) \<Longrightarrow> \<not> xwrite x' \<and> view x' = view x"
    "DeleteRoute x (Some r) = Some (x', res') \<Longrightarrow> \<not> xwrite x' \<and> view x' = view x"
  using handle_operation [OF assms(2,3)] assms(1) by (simp_all add: option.map_id)


text \<open>
  C20. No write transaction is stuck: in every reachable state the open writer can commit or abort, which
  frees the mutex, so that the next write transaction can begin; a handle never blocks a reader.
\<close>

theorem writers_progress:
  assumes "run pat es s" and "handles s j = None"
  shows "(\<exists>s'. step pat s (Begin j False) s')
    \<and> (\<not> mu (fox s) \<longrightarrow> (\<exists>s'. step pat s (Begin j True) s'))
    \<and> (\<forall>i. open_writer s i \<longrightarrow>
         (\<exists>s'. step pat s (Finish i) s' \<and> \<not> mu (fox s') \<and> handles s' j = None)
       \<and> (\<exists>s'. step pat s (Cancel i) s' \<and> \<not> mu (fox s') \<and> published (fox s') = published (fox s)))"
proof (intro conjI allI impI)
  show "\<exists>s'. step pat s (Begin j False) s'"
    using step.begin_txn [OF assms(2), of False] by (auto simp: Router_Txn_def)
  show "\<exists>s'. step pat s (Begin j True) s'" if "\<not> mu (fox s)"
    using step.begin_txn [OF assms(2), of True] that by (auto simp: Router_Txn_def)
next
  fix i assume "open_writer s i"
  then obtain x t where x: "handles s i = Some x" "xwrite x" "rootTxn x = Some t"
    by (auto simp: open_writer_def)
  then have ij: "i \<noteq> j" using assms(2) by auto
  obtain f x' where c: "Commit (fox s) x = (f, x')" by fastforce
  with x have "\<not> mu f" by (auto simp: Commit_def commit_def)
  with step.finish [OF x(1) c] ij assms(2)
  show "\<exists>s'. step pat s (Finish i) s' \<and> \<not> mu (fox s') \<and> handles s' j = None" by fastforce
  obtain g y where a: "Abort (fox s) x = (g, y)" by fastforce
  with x have "\<not> mu g" "published g = published (fox s)" by (auto simp: Abort_def published_def)
  with step.cancel [OF x(1) a]
  show "\<exists>s'. step pat s (Cancel i) s' \<and> \<not> mu (fox s') \<and> published (fox s') = published (fox s)" by fastforce
qed

lemma managed_cases:
  assumes "\<not> mu f" and op: "operation \<lparr>rootTxn = Some (txn (tree f)), xwrite = True\<rparr> = Some (x', res)"
    and x': "rootTxn x' = Some t" "xwrite x'"
  shows "managed f operation = Some (case res of Inl e \<Rightarrow> (f, Inl e) | Inr v \<Rightarrow> (\<lparr>tree = fst (commit t), mu = False\<rparr>, Inr v))"
proof -
  have opened: "Router_Txn f True = Some (f\<lparr>mu := True\<rparr>, \<lparr>rootTxn = Some (txn (tree f)), xwrite = True\<rparr>)"
    using assms(1) by (simp add: Router_Txn_def)
  have "fst (Abort (f\<lparr>mu := True\<rparr>) x') = f"
    using assms(1) x' by (simp add: Abort_def)
  moreover have "Commit (f\<lparr>mu := True\<rparr>) x' = (\<lparr>tree = fst (commit t), mu = False\<rparr>, x'\<lparr>rootTxn := None\<rparr>)"
    using x' by (simp add: Commit_def commit_def)
  moreover have "fst (Abort g (x'\<lparr>rootTxn := None\<rparr>)) = g" for g
    by (simp add: Abort_def)
  ultimately show ?thesis
    unfolding managed_def opened by (cases res) (simp_all add: op)
qed


text \<open>
  C22. A managed transaction commits exactly when its function returns no error: an error or a panic
  leaves the published tree as it was, success publishes what the function left, and the mutex is free
  again in every case.
\<close>

theorem updates_all_or_nothing:
  assumes "\<not> mu f" and "fn \<lparr>rootTxn = Some (txn (tree f)), xwrite = True\<rparr> = (x', result)"
    and "rootTxn x' = Some t" and "xwrite x'"
  shows "\<exists>f'. Updates f fn = Some (f', result) \<and> \<not> mu f'
    \<and> tree f' = (if result = Some None then fst (commit t) else tree f)"
  using assms
  by (cases result; cases "the result")
    (auto simp: Updates_def Router_Txn_def Commit_def Abort_def commit_def)

subsection \<open>A concrete run\<close>

lemma begin_possible:
  assumes "run pat es s" "handles s i = None" "w \<longrightarrow> \<not> mu (fox s)"
  shows "\<exists>s' x. run pat (es @ [Begin i w]) s' \<and> handles s' = (handles s)(i \<mapsto> x) \<and> xwrite x = w \<and> rootTxn x \<noteq> None"
proof -
  obtain f x where b: "Router_Txn (fox s) w = Some (f, x)" "xwrite x = w" "rootTxn x \<noteq> None"
    using assms(3) by (auto simp: Router_Txn_def)
  show ?thesis
    using run.more [OF assms(1) step.begin_txn [OF assms(2) b(1)]] b(2,3) by fastforce
qed

lemma add_possible:
  assumes "run pat es s" "handles s i = Some x" "rootTxn x \<noteq> None" "route_ok pat r"
  shows "\<exists>s' x'. run pat (es @ [Add i r]) s' \<and> handles s' = (handles s)(i \<mapsto> x') \<and> xwrite x' = xwrite x \<and> rootTxn x' \<noteq> None"
proof -
  have "handle_inv pat x" using run_sys_inv [OF assms(1)] assms(2) unfolding sys_inv_def by blast
  note ops = handle_operation(1) [OF this assms(4)]
  obtain x' res where a: "AddRoute x (Some r) = Some (x', res)" using ops assms(3) by fastforce
  with ops have "xwrite x' = xwrite x" "view x' = None \<longleftrightarrow> view x = None" by auto
  then show ?thesis
    using run.more [OF assms(1) step.add [OF assms(2,4) a]] assms(3) view_None [of x] view_None [of x'] by fastforce
qed

abbreviation demo_r :: "(unit, unit) route" where "demo_r \<equiv> demo_route [''GET''] [] 0"

lemma demo_run_open:
  "\<exists>s x. run demo_pat [Begin 1 False, Begin 0 True, Add 0 demo_r] s \<and> handles s 0 = Some x \<and> xwrite x \<and> rootTxn x \<noteq> None
     \<and> (\<exists>y. handles s 1 = Some y \<and> \<not> xwrite y) \<and> handles s 2 = None"
proof -
  have start: "run demo_pat [] (initial :: (unit, unit) system)" by (rule run.start)
  obtain s1 y where s1: "run demo_pat [Begin 1 False] (s1 :: (unit, unit) system)" "handles s1 = [1 \<mapsto> y]" "\<not> xwrite y"
    using begin_possible [OF start, of 1 False] by (auto simp: initial_def)
  have "\<not> open_writer s1 i" for i using s1(2,3) by (simp add: open_writer_def)
  then have "\<not> mu (fox s1)" using run_sys_inv [OF s1(1)] unfolding sys_inv_def by blast
  then obtain s2 x where s2: "run demo_pat [Begin 1 False, Begin 0 True] s2" "handles s2 = [1 \<mapsto> y, 0 \<mapsto> x]"
      "xwrite x" "rootTxn x \<noteq> None"
    using begin_possible [OF s1(1), of 0 True] s1(2) by auto
  obtain s3 x' where "run demo_pat [Begin 1 False, Begin 0 True, Add 0 demo_r] s3" "handles s3 = [1 \<mapsto> y, 0 \<mapsto> x']"
      "xwrite x'" "rootTxn x' \<noteq> None"
    using add_possible [OF s2(1) _ s2(4) demo_route_ok, of 0] s2(2,3) by (auto simp: fun_upd_twist)
  with s1(3) show ?thesis by auto
qed

lemma demo_run_committed: "\<exists>s. run demo_pat [Begin 1 False, Begin 0 True, Add 0 demo_r, Finish 0] s"
proof -
  obtain s x where "run demo_pat [Begin 1 False, Begin 0 True, Add 0 demo_r] s" "handles s 0 = Some x"
    using demo_run_open by blast
  from run.more [OF this(1) step.finish [OF this(2) surjective_pairing]] show ?thesis by auto
qed

theorem writers_exclusive_witness:
  "\<exists>s. run demo_pat [Begin 1 False, Begin 0 True, Add 0 demo_r] s \<and> mu (fox s) \<and> open_writer s 0 \<and> \<not> open_writer s 1"
proof -
  obtain s x where s: "run demo_pat [Begin 1 False, Begin 0 True, Add 0 demo_r] s" "handles s 0 = Some x" "xwrite x"
      "rootTxn x \<noteq> None" using demo_run_open by blast
  then have "open_writer s 0" by (simp add: open_writer_def)
  with s(1) writers_exclusive [OF s(1)] show ?thesis by (metis zero_neq_one)
qed

theorem transactions_serialize_witness:
  "\<exists>s. run demo_pat [Begin 1 False, Begin 0 True, Add 0 demo_r, Finish 0] s \<and> published (fox s) = {demo_r}"
proof -
  obtain s where s: "run demo_pat [Begin 1 False, Begin 0 True, Add 0 demo_r, Finish 0] s"
    using demo_run_committed by blast
  with transactions_serialize [OF s] show ?thesis by (auto simp: on_current_def abs_add_def)
qed


theorem writers_progress_witness:
  "\<exists>s s'. run demo_pat [Begin 1 False, Begin 0 True, Add 0 demo_r] s \<and> step demo_pat s (Cancel 0) s' \<and> \<not> mu (fox s')"
proof -
  obtain s x where s: "run demo_pat [Begin 1 False, Begin 0 True, Add 0 demo_r] s" "handles s 0 = Some x" "xwrite x"
      "rootTxn x \<noteq> None" "handles s 2 = None" using demo_run_open by blast
  then have "open_writer s 0" by (simp add: open_writer_def)
  with writers_progress [OF s(1,5)] s(1) show ?thesis by blast
qed


theorem updates_all_or_nothing_witness:
  "\<exists>f'. Updates (new_router :: (unit, unit) router) (\<lambda>x. (x, Some (Some ()))) = Some (f', Some (Some ())) \<and> tree f' = newTree"
  using updates_all_or_nothing [of new_router "\<lambda>x. (x, Some (Some ()))", OF _ refl]
  by (auto simp: new_router_def)

end
