(* ===== verification/Pattern_Parser.thy ===== *)
theory Pattern_Parser
  imports Tree_Insert Strings_Util
begin

text \<open>
  The parser of route patterns (\<open>parser.go\<close>, with \<open>PatternError\<close> of \<open>error.go\<close>): \<open>parsePattern\<close>,
  \<open>parseHostname\<close>, \<open>parsePath\<close>, \<open>parseBrace\<close>, \<open>compileParamRegexp\<close>, \<open>minRegexpSize\<close>, \<open>braceIndex\<close>.
  Each loop is a step on the index and the local variables, iterated. The last sections prove that the
  tokens of an accepted pattern print back to it, that they are what the routing tree needs, and that
  the span of every error lies in the pattern.
\<close>

subsection \<open>Errors and configuration\<close>

record PatternError =
  pe_Pattern :: string
  pe_Type :: string
  pe_Reason :: string
  pe_Hint :: string
  pe_Start :: nat
  pe_End :: nat

definition newPatternError :: "string \<Rightarrow> nat \<Rightarrow> nat \<Rightarrow> string \<Rightarrow> PatternError" where
  "newPatternError reason start end msg =
     \<lparr>pe_Pattern = '''', pe_Type = '''', pe_Reason = reason, pe_Hint = msg, pe_Start = start, pe_End = end\<rparr>"

definition quoted :: "string \<Rightarrow> char \<Rightarrow> string" where
  "quoted msg c = msg @ [CHR 0x27, c, CHR 0x27]"

datatype NormalizeOption = ExactPath | NormalizePath | RedirectPath

text \<open>
  The regular expression library: the syntax tree of an expression (\<open>regexp/syntax\<close>, with the operators
  \<open>minRegexpSize\<close> tells apart), its parser, the number of instructions of the simplified and compiled
  tree, the compiler of the anchored source, and the number of capture groups. Errors are messages.
\<close>

datatype syntax_re =
    OpNoMatch
  | OpLiteral nat
  | OpRepeat int int syntax_re
  | OpOther "syntax_re list"

record regexp_lib =
  syntax_Parse :: "string \<Rightarrow> string + syntax_re"
  syntax_Compile :: "syntax_re \<Rightarrow> string + nat"
  regexp_Compile :: "string \<Rightarrow> string + regexp"
  NumSubexp :: "regexp \<Rightarrow> nat"

record parse_config =
  pc_maxParams :: nat
  pc_maxParamKeyBytes :: nat
  pc_maxRegexpSize :: nat
  pc_allowRegexp :: bool
  pc_mergeSlash :: NormalizeOption
  pc_regexp :: regexp_lib

subsection \<open>Bytes and braces\<close>

definition isASCIIControl :: "char \<Rightarrow> bool" where
  "isASCIIControl c \<longleftrightarrow> c < CHR 0x20 \<or> c = CHR 0x7F"

fun braceIndex :: "string \<Rightarrow> int \<Rightarrow> nat option" where
  "braceIndex [] level = None"
| "braceIndex (c # s) level =
     (if c = CHR ''{'' then map_option Suc (braceIndex s (level + 1))
      else if c = CHR ''}'' then
        (if level - 1 = 0 then Some 0 else map_option Suc (braceIndex s (level - 1)))
      else map_option Suc (braceIndex s level))"

text \<open>The width of \<open>utf8.DecodeRuneInString\<close>: 1 on an invalid encoding, 0 on the empty string.\<close>

definition continuation :: "nat \<Rightarrow> nat \<Rightarrow> string \<Rightarrow> nat \<Rightarrow> bool" where
  "continuation lo hi s i \<longleftrightarrow> i < length s \<and> lo \<le> val (s ! i) \<and> val (s ! i) \<le> hi"

definition rune_size :: "string \<Rightarrow> nat" where
  "rune_size s =
     (if s = [] then 0
      else
        let p0 = val (s ! 0);
            lo = (if p0 = 0xE0 then 0xA0 else if p0 = 0xF0 then 0x90 else 0x80);
            hi = (if p0 = 0xED then 0x9F else if p0 = 0xF4 then 0x8F else 0xBF)
        in if 0xC2 \<le> p0 \<and> p0 \<le> 0xDF \<and> continuation 0x80 0xBF s 1 then 2
           else if 0xE0 \<le> p0 \<and> p0 \<le> 0xEF \<and> continuation lo hi s 1 \<and> continuation 0x80 0xBF s 2 then 3
           else if 0xF0 \<le> p0 \<and> p0 \<le> 0xF4 \<and> continuation lo hi s 1 \<and> continuation 0x80 0xBF s 2
                   \<and> continuation 0x80 0xBF s 3 then 4
           else 1)"

subsection \<open>Regular expressions of parameters\<close>

fun minRegexpSize :: "syntax_re \<Rightarrow> int \<Rightarrow> int"
  and minRegexpSizes :: "syntax_re list \<Rightarrow> int \<Rightarrow> int \<Rightarrow> int" where
  "minRegexpSize OpNoMatch limit = 0"
| "minRegexpSize (OpLiteral runes) limit = min (max (int runes) 1) (limit + 1)"
| "minRegexpSize (OpRepeat rmin rmax sub) limit =
     (let copies = (if rmax < 0 then rmin else rmax)
      in if copies = 0 then 1 else min (copies * minRegexpSize sub limit) (limit + 1))"
| "minRegexpSize (OpOther subs) limit = (if length subs = 0 then 1 else minRegexpSizes subs limit 0)"
| "minRegexpSizes [] limit n = n"
| "minRegexpSizes (sub # subs) limit n =
     (let n = n + minRegexpSize sub limit
      in if n > limit then limit + 1 else minRegexpSizes subs limit n)"

definition checkRegexpSize :: "regexp_lib \<Rightarrow> syntax_re \<Rightarrow> nat \<Rightarrow> bool" where
  "checkRegexpSize lib re limit =
     (if minRegexpSize re (int limit) > int limit then False
      else (case syntax_Compile lib re of Inl _ \<Rightarrow> False | Inr insts \<Rightarrow> \<not> insts > limit))"

definition compileParamRegexp :: "parse_config \<Rightarrow> string \<Rightarrow> bool \<Rightarrow> PatternError + regexp" where
  "compileParamRegexp cfg rawRegex ignoreCase =
     (let lib = pc_regexp cfg in
      if \<not> pc_allowRegexp cfg then Inl (newPatternError ''regexp'' 0 (length rawRegex) ''feature not enabled'')
      else if rawRegex = '''' then Inl (newPatternError ''regexp'' 0 0 ''missing expression'')
      else
        (case syntax_Parse lib rawRegex of
           Inl err \<Rightarrow> Inl (newPatternError ''regexp'' 0 (length rawRegex) err)
         | Inr parsed \<Rightarrow>
             if \<not> checkRegexpSize lib parsed (pc_maxRegexpSize cfg)
             then Inl (newPatternError ''regexp'' 0 (length rawRegex) ''expression too large'')
             else
               let expr = anchored rawRegex;
                   expr = (if ignoreCase then ''(?i)'' @ expr else expr)
               in (case regexp_Compile lib expr of
                     Inl err \<Rightarrow> Inl (newPatternError ''regexp'' 0 (length rawRegex) err)
                   | Inr re \<Rightarrow>
                       if NumSubexp lib re > 0
                       then Inl (newPatternError ''regexp'' 0 (length rawRegex) ''capture group, use (?:...) instead'')
                       else Inr re)))"

subsection \<open>The content of a brace\<close>

definition shift_error :: "nat \<Rightarrow> PatternError \<Rightarrow> PatternError" where
  "shift_error k pe = pe\<lparr>pe_Start := pe_Start pe + k, pe_End := pe_End pe + k\<rparr>"

fun check_name :: "char \<Rightarrow> string \<Rightarrow> nat \<Rightarrow> PatternError option" where
  "check_name delim [] j = None"
| "check_name delim (c # name) j =
     (if isASCIIControl c then Some (newPatternError ''parameter'' (1 + j) (1 + j + 1) ''illegal control character in name'')
      else if c = delim \<or> c \<in> set ''/*+{''
      then Some (newPatternError ''parameter'' (1 + j) (1 + j + 1) ''illegal character in name'')
      else check_name delim name (j + 1))"

fun check_regex :: "nat \<Rightarrow> string \<Rightarrow> nat \<Rightarrow> PatternError option" where
  "check_regex off [] j = None"
| "check_regex off (c # rawRegex) j =
     (if isASCIIControl c then Some (newPatternError ''regexp'' (off + j) (off + j + 1) ''illegal control character'')
      else check_regex off rawRegex (j + 1))"

definition parse_content ::
  "parse_config \<Rightarrow> string \<Rightarrow> nat \<Rightarrow> char \<Rightarrow> bool \<Rightarrow> PatternError + string \<times> regexp option \<times> nat" where
  "parse_content cfg content consumed delim isOptional =
     (let colon = index_byte content (CHR '':'');
          name = (case colon of None \<Rightarrow> content | Some ci \<Rightarrow> take ci content)
      in if length name > pc_maxParamKeyBytes cfg
         then Inl (newPatternError ''constraint'' 1 (1 + length name) ''key too large'')
         else if length name = 0 then Inl (newPatternError ''parameter'' 0 consumed ''missing name'')
         else
           (case check_name delim name 0 of
              Some pe \<Rightarrow> Inl pe
            | None \<Rightarrow>
                (case colon of
                   None \<Rightarrow> Inr (name, None, consumed)
                 | Some ci \<Rightarrow>
                     let rawRegex = drop (ci + 1) content in
                     if isOptional then Inl (newPatternError ''regexp'' 0 consumed ''not allowed in optional wildcard'')
                     else
                       (case check_regex (1 + ci + 1) rawRegex 0 of
                          Some pe \<Rightarrow> Inl pe
                        | None \<Rightarrow>
                            (case compileParamRegexp cfg rawRegex (delim = dotDelim) of
                               Inl pe \<Rightarrow> Inl (shift_error (1 + ci + 1) pe)
                             | Inr re \<Rightarrow> Inr (name, Some re, consumed))))))"

definition parseBrace ::
  "parse_config \<Rightarrow> string \<Rightarrow> char \<Rightarrow> bool \<Rightarrow> PatternError + string \<times> regexp option \<times> nat" where
  "parseBrace cfg s delim isOptional =
     (case braceIndex (drop 1 s) 1 of
        None \<Rightarrow> Inl (newPatternError ''syntax'' 0 (length s) ''unbalanced braces'')
      | Some idx \<Rightarrow> parse_content cfg (slice s 1 (1 + idx)) (1 + idx + 1) delim isOptional)"

subsection \<open>Host names\<close>

text \<open>The local variables of \<open>parseHostname\<close>; \<open>last\<close> is the last static byte, 0 after a parameter.\<close>

record host_state =
  hs_sb :: string
  hs_tokens :: "token list"
  hs_paramCount :: nat
  hs_prevWild :: bool
  hs_sawWild :: bool
  hs_staticSinceWild :: nat
  hs_partLen :: nat
  hs_totalLen :: nat
  hs_labelStart :: nat
  hs_last :: char
  hs_nonNumeric :: bool

definition static_tk :: "bool \<Rightarrow> string \<Rightarrow> token" where
  "static_tk hsplit v = \<lparr>tregexp = None, tvalue = v, ttyp = nodeStatic, tnested = False, thsplit = hsplit\<rparr>"

definition dynamic_tk :: "bool \<Rightarrow> string \<Rightarrow> regexp option \<Rightarrow> bool \<Rightarrow> token" where
  "dynamic_tk isWild name re nested =
     \<lparr>tregexp = re, tvalue = name, ttyp = (if isWild then nodeWildcard else nodeParam), tnested = nested, thsplit = False\<rparr>"

text \<open>\<open>if sb.Len() > 0 { tokens = append(tokens, ...); sb.Reset() }\<close>.\<close>

definition flush :: "bool \<Rightarrow> string \<Rightarrow> token list \<Rightarrow> token list" where
  "flush hsplit sb tokens = (if length sb > 0 then tokens @ [static_tk hsplit sb] else tokens)"

text \<open>The end of the parameter that follows position \<open>i\<close>, for the error span.\<close>

definition param_end :: "string \<Rightarrow> nat \<Rightarrow> nat" where
  "param_end s i = (case braceIndex (drop (i + 1) s) 1 of None \<Rightarrow> length s | Some idx \<Rightarrow> i + 1 + idx + 1)"

definition host_param ::
  "parse_config \<Rightarrow> string \<Rightarrow> nat \<Rightarrow> host_state \<Rightarrow> PatternError + nat \<times> host_state" where
  "host_param cfg hostname i st =
     (let st = st\<lparr>hs_tokens := flush True (hs_sb st) (hs_tokens st), hs_sb := ''''\<rparr>;
          isWild = (hostname ! i = CHR ''+'');
          paramStart = i;
          i = (if isWild then i + 1 else i)
      in if isWild \<and> (i \<ge> length hostname \<or> hostname ! i \<noteq> CHR ''{'')
         then Inl (newPatternError ''syntax'' (i - 1) i ''missing parameter after delimiter'')
         else if isWild \<and> hs_prevWild st \<and> hs_staticSinceWild st \<le> 1
         then Inl (newPatternError ''syntax'' (i - 1) (param_end hostname i) ''consecutive wildcard'')
         else
           (case parseBrace cfg (drop i hostname) dotDelim False of
              Inl pe \<Rightarrow> Inl (shift_error i pe)
            | Inr (name, re, n) \<Rightarrow>
                let count = hs_paramCount st + 1 in
                if count > pc_maxParams cfg
                then Inl (newPatternError ''constraint'' paramStart (i + n) ''too many parameters'')
                else
                  let st = st\<lparr>hs_paramCount := count,
                       hs_prevWild := isWild,
                       hs_staticSinceWild := (if isWild then 0 else hs_staticSinceWild st),
                       hs_tokens := hs_tokens st @ [dynamic_tk isWild name re (isWild \<and> hs_sawWild st)],
                       hs_sawWild := hs_sawWild st \<or> isWild, hs_last := CHR 0x00, hs_nonNumeric := True\<rparr>;
                      i = i + n
                  in if i < length hostname \<and> hostname ! i \<noteq> CHR ''.''
                     then Inl (newPatternError ''syntax'' i (i + 1) ''illegal character after parameter'')
                     else Inr (i, st)))"

definition host_byte :: "nat \<Rightarrow> char \<Rightarrow> host_state \<Rightarrow> PatternError + host_state" where
  "host_byte i c st =
     (if CHR ''a'' \<le> c \<and> c \<le> CHR ''z'' \<or> c = CHR ''_'' then
        Inr (st\<lparr>hs_nonNumeric := True, hs_partLen := hs_partLen st + 1\<rparr>)
      else if CHR ''0'' \<le> c \<and> c \<le> CHR ''9'' then Inr (st\<lparr>hs_partLen := hs_partLen st + 1\<rparr>)
      else if c = CHR ''-'' then
        (if hs_last st = CHR ''.'' then
           (if i = 0 then Inl (newPatternError ''syntax'' i (i + 1) (quoted ''label starts with '' (CHR ''-'')))
            else Inl (newPatternError ''syntax'' i (i + 1) (quoted ''illegal character after '' (CHR ''.''))))
         else Inr (st\<lparr>hs_partLen := hs_partLen st + 1, hs_nonNumeric := True\<rparr>))
      else if c = CHR ''.'' then
        (if hs_last st = CHR ''.'' then
           (if i = 0 then Inl (newPatternError ''syntax'' i (i + 1) (quoted ''label starts with '' (CHR ''.'')))
            else Inl (newPatternError ''syntax'' (i - 1) (i + 1) (quoted ''illegal consecutive '' (CHR ''.''))))
         else if hs_last st = CHR ''-'' then Inl (newPatternError ''syntax'' (i - 1) i (quoted ''label ends with '' (CHR ''-'')))
         else if hs_partLen st > 63
         then Inl (newPatternError ''constraint'' (hs_labelStart st) i ''label exceeds 63 characters'')
         else Inr (st\<lparr>hs_totalLen := hs_totalLen st + hs_partLen st + 1, hs_partLen := 0, hs_labelStart := i + 1\<rparr>))
      else if CHR ''A'' \<le> c \<and> c \<le> CHR ''Z''
      then Inl (newPatternError ''syntax'' i (i + 1) ''uppercase character in label'')
      else Inl (newPatternError ''syntax'' i (i + 1) ''illegal character in label''))"

definition host_step ::
  "parse_config \<Rightarrow> string \<Rightarrow> nat \<Rightarrow> host_state \<Rightarrow> PatternError + nat \<times> host_state" where
  "host_step cfg hostname i st =
     (let c = hostname ! i in
      if c = CHR ''{'' \<or> c = CHR ''+'' then host_param cfg hostname i st
      else if c = CHR ''*'' then
        (if i + 1 < length hostname \<and> hostname ! (i + 1) = CHR ''{''
         then Inl (newPatternError ''syntax'' i (param_end hostname (i + 1)) ''optional wildcard allowed only as suffix'')
         else Inl (newPatternError ''syntax'' i (i + 1) ''illegal character in label''))
      else
        (case host_byte i c st of
           Inl pe \<Rightarrow> Inl pe
         | Inr st \<Rightarrow> Inr (i + 1, st\<lparr>hs_last := c, hs_sb := hs_sb st @ [c], hs_staticSinceWild := hs_staticSinceWild st + 1\<rparr>)))"

lemma parseBrace_progress: "parseBrace cfg s delim opt = Inr (name, re, n) \<Longrightarrow> 2 \<le> n"
  by (auto simp: parseBrace_def parse_content_def Let_def split: option.splits if_splits sum.splits)

lemma host_step_progress:
  assumes "host_step cfg hostname i st = Inr (i', st')"
  shows "i < i'"
proof (cases "hostname ! i = CHR ''{'' \<or> hostname ! i = CHR ''+''")
  case True
  with assms show ?thesis
    by (auto simp: host_step_def host_param_def Let_def dest!: parseBrace_progress
        split: if_splits sum.splits prod.splits)
next
  case False
  with assms show ?thesis by (auto simp: host_step_def Let_def split: if_splits sum.splits)
qed

function host_loop ::
  "parse_config \<Rightarrow> string \<Rightarrow> nat \<Rightarrow> host_state \<Rightarrow> PatternError + host_state" where
  "host_loop cfg hostname i st =
     (if i < length hostname then
        (case host_step cfg hostname i st of
           Inl pe \<Rightarrow> Inl pe
         | Inr (i', st') \<Rightarrow> host_loop cfg hostname i' st')
      else Inr st)"
  by auto
termination
  by (relation "measure (\<lambda>(_, hostname, i, _). length hostname - i)") (auto dest: host_step_progress)

declare host_loop.simps [simp del]

definition host_initial :: host_state where
  "host_initial = \<lparr>hs_sb = '''', hs_tokens = [], hs_paramCount = 0, hs_prevWild = False, hs_sawWild = False,
     hs_staticSinceWild = 0, hs_partLen = 0, hs_totalLen = 0, hs_labelStart = 0, hs_last = dotDelim,
     hs_nonNumeric = False\<rparr>"

definition parseHostname :: "parse_config \<Rightarrow> string \<Rightarrow> PatternError + token list \<times> nat" where
  "parseHostname cfg hostname =
     (case host_loop cfg hostname 0 host_initial of
        Inl pe \<Rightarrow> Inl pe
      | Inr st \<Rightarrow>
          let totalLen = hs_totalLen st + hs_partLen st; n = length hostname in
          if hs_last st = CHR ''-'' then Inl (newPatternError ''syntax'' (n - 1) n (quoted ''illegal trailing '' (CHR ''-'')))
          else if hs_last st = CHR ''.'' then Inl (newPatternError ''syntax'' (n - 1) n (quoted ''illegal trailing '' (CHR ''.'')))
          else if \<not> hs_nonNumeric st then Inl (newPatternError ''syntax'' 0 n ''all numeric'')
          else if hs_partLen st > 63
          then Inl (newPatternError ''constraint'' (hs_labelStart st) n ''label exceeds 63 characters'')
          else if totalLen > 253 then Inl (newPatternError ''constraint'' 0 n ''exceeds 253 characters'')
          else Inr (flush True (hs_sb st) (hs_tokens st), hs_paramCount st))"

subsection \<open>Paths\<close>

record path_state =
  ps_sb :: string
  ps_tokens :: "token list"
  ps_paramCount :: nat
  ps_prevWild :: bool
  ps_sawWild :: bool
  ps_staticSinceWild :: nat
  ps_optCatchAll :: bool

text \<open>\<open>sb.WriteString(v); staticSinceWild += len(v); i += len(v)\<close>.\<close>

definition path_write :: "string \<Rightarrow> nat \<Rightarrow> path_state \<Rightarrow> PatternError + nat \<times> path_state" where
  "path_write v i st =
     Inr (i + length v, st\<lparr>ps_sb := ps_sb st @ v, ps_staticSinceWild := ps_staticSinceWild st + length v\<rparr>)"

definition path_param ::
  "parse_config \<Rightarrow> string \<Rightarrow> nat \<Rightarrow> path_state \<Rightarrow> PatternError + nat \<times> path_state" where
  "path_param cfg path i st =
     (let c = path ! i;
          isOpt = (c = CHR ''*'');
          isWild = (c = CHR ''+'' \<or> isOpt)
      in if isWild \<and> (i + 1 \<ge> length path \<or> path ! (i + 1) \<noteq> CHR ''{'') then path_write [c] i st
         else
           let st = st\<lparr>ps_tokens := flush False (ps_sb st) (ps_tokens st), ps_sb := ''''\<rparr>;
               paramStart = i;
               i = (if isWild then i + 1 else i)
           in if isWild \<and> ps_prevWild st \<and> ps_staticSinceWild st \<le> 1
              then Inl (newPatternError ''syntax'' (i - 1) (param_end path i) ''consecutive wildcard'')
              else
                (case parseBrace cfg (drop i path) slashDelim isOpt of
                   Inl pe \<Rightarrow>
                     let pe = shift_error i pe
                     in Inl (if isOpt \<and> pe_Reason pe = ''regexp'' then pe\<lparr>pe_Start := paramStart\<rparr> else pe)
                 | Inr (name, re, n) \<Rightarrow>
                     let count = ps_paramCount st + 1 in
                     if count > pc_maxParams cfg
                     then Inl (newPatternError ''constraint'' paramStart (i + n) ''too many parameters'')
                     else
                       let st = st\<lparr>ps_paramCount := count,
                            ps_prevWild := isWild,
                            ps_staticSinceWild := (if isWild then 0 else ps_staticSinceWild st),
                            ps_tokens := ps_tokens st @ [dynamic_tk isWild name re (isWild \<and> ps_sawWild st)],
                            ps_sawWild := ps_sawWild st \<or> isWild\<rparr>;
                           i = i + n
                       in if isOpt \<and> i < length path
                          then Inl (newPatternError ''syntax'' paramStart i ''optional wildcard allowed only as suffix'')
                          else if i < length path \<and> path ! i \<noteq> CHR ''/''
                          then Inl (newPatternError ''syntax'' i (i + 1) ''illegal character after parameter'')
                          else Inr (i, st\<lparr>ps_optCatchAll := ps_optCatchAll st \<or> isOpt\<rparr>)))"

definition path_escape :: "string \<Rightarrow> nat \<Rightarrow> path_state \<Rightarrow> PatternError + nat \<times> path_state" where
  "path_escape path i st =
     (if i + 2 \<ge> length path then Inl (newPatternError ''syntax'' i (length path) ''invalid percent-encoding'')
      else
        (case DecodeHexPair (path ! (i + 1)) (path ! (i + 2)) of
           None \<Rightarrow> Inl (newPatternError ''syntax'' i (i + 3) ''invalid percent-encoding'')
         | Some b \<Rightarrow>
             if IsUnreserved b
             then Inl (newPatternError ''syntax'' i (i + 3) ''non-canonical percent-encoding, encodes an unreserved character'')
             else if path ! (i + 1) \<noteq> UpperHex (path ! (i + 1)) \<or> path ! (i + 2) \<noteq> UpperHex (path ! (i + 2))
             then Inl (newPatternError ''syntax'' i (i + 3) ''non-canonical percent-encoding, hex must be uppercase'')
             else path_write (slice path i (i + 3)) i st))"

text \<open>The end of a dot segment whose first dot is at \<open>i\<close>, if there is one.\<close>

definition dot_segment_end :: "string \<Rightarrow> nat \<Rightarrow> nat option" where
  "dot_segment_end path i =
     (let next' = i + 1 in
      if next' \<ge> length path \<or> path ! next' = CHR ''/''
      then Some (if next' < length path then next' + 1 else next')
      else if path ! next' = CHR ''.'' then
        let afterDots = next' + 1 in
        if afterDots \<ge> length path \<or> path ! afterDots = CHR ''/''
        then Some (if afterDots < length path then afterDots + 1 else afterDots)
        else None
      else None)"

definition path_byte ::
  "parse_config \<Rightarrow> string \<Rightarrow> nat \<Rightarrow> path_state \<Rightarrow> PatternError + nat \<times> path_state" where
  "path_byte cfg path i st =
     (let c = path ! i; after_slash = (i > 0 \<and> path ! (i - 1) = CHR ''/'') in
      if isASCIIControl c then Inl (newPatternError ''syntax'' i (i + 1) ''illegal control character'')
      else if \<not> IsRoutableRaw c then
        (if c = CHR ''}'' then Inl (newPatternError ''syntax'' i (i + 1) ''unbalanced braces'')
         else if c = CHR ''?'' then Inl (newPatternError ''syntax'' i (i + 1) ''illegal query delimiter in patterns'')
         else if c = CHR ''#'' then Inl (newPatternError ''syntax'' i (i + 1) ''illegal fragment delimiter in patterns'')
         else Inl (newPatternError ''syntax'' i (i + rune_size (drop i path)) ''character requires percent-encoding''))
      else if c = CHR ''/'' \<and> after_slash \<and> pc_mergeSlash cfg \<noteq> ExactPath
      then Inl (newPatternError ''syntax'' (i - 1) (i + 1)
                  (''consecutive '' @ [CHR 0x27, CHR ''/'', CHR 0x27] @ '' unreachable, slashes are merged before matching''))
      else
        (case (if c = CHR ''.'' \<and> after_slash then dot_segment_end path i else None) of
           Some end \<Rightarrow> Inl (newPatternError ''syntax'' (i - 1) end ''unsafe dot segment'')
         | None \<Rightarrow> path_write [c] i st))"

definition path_step ::
  "parse_config \<Rightarrow> string \<Rightarrow> nat \<Rightarrow> path_state \<Rightarrow> PatternError + nat \<times> path_state" where
  "path_step cfg path i st =
     (if path ! i \<in> {CHR ''{'', CHR ''+'', CHR ''*''} then path_param cfg path i st
      else if path ! i = CHR ''%'' then path_escape path i st
      else path_byte cfg path i st)"

lemma path_write_Inr [simp]:
  "path_write v i st = Inr (i', st') \<longleftrightarrow>
     i' = i + length v \<and> st' = st\<lparr>ps_sb := ps_sb st @ v, ps_staticSinceWild := ps_staticSinceWild st + length v\<rparr>"
  "path_write v i st \<noteq> Inl pe"
  by (auto simp: path_write_def)

lemma path_param_progress: "path_param cfg path i st = Inr (i', st') \<Longrightarrow> i < i'"
  by (auto simp: path_param_def Let_def dest!: parseBrace_progress split: if_splits sum.splits prod.splits)

lemma path_step_progress:
  assumes "path_step cfg path i st = Inr (i', st')"
  shows "i < i'"
proof (cases "path ! i \<in> {CHR ''{'', CHR ''+'', CHR ''*''}")
  case True
  with assms show ?thesis by (auto simp: path_step_def dest: path_param_progress)
next
  case False
  then have "i < i'" if "path ! i = CHR ''%''"
    using assms that by (auto simp: path_step_def path_escape_def Let_def split: if_splits option.splits)
  moreover have "i < i'" if "path ! i \<noteq> CHR ''%''"
    using assms that False by (auto simp: path_step_def path_byte_def Let_def split: if_splits option.splits)
  ultimately show ?thesis by blast
qed

function path_loop ::
  "parse_config \<Rightarrow> string \<Rightarrow> nat \<Rightarrow> path_state \<Rightarrow> PatternError + path_state" where
  "path_loop cfg path i st =
     (if i < length path then
        (case path_step cfg path i st of
           Inl pe \<Rightarrow> Inl pe
         | Inr (i', st') \<Rightarrow> path_loop cfg path i' st')
      else Inr st)"
  by auto
termination
  by (relation "measure (\<lambda>(_, path, i, _). length path - i)") (auto dest: path_step_progress)

declare path_loop.simps [simp del]

definition path_initial :: "nat \<Rightarrow> path_state" where
  "path_initial paramCount = \<lparr>ps_sb = '''', ps_tokens = [], ps_paramCount = paramCount, ps_prevWild = False,
     ps_sawWild = False, ps_staticSinceWild = 0, ps_optCatchAll = False\<rparr>"

definition parsePath :: "parse_config \<Rightarrow> string \<Rightarrow> nat \<Rightarrow> PatternError + token list \<times> bool \<times> nat" where
  "parsePath cfg path paramCount =
     (case path_loop cfg path 0 (path_initial paramCount) of
        Inl pe \<Rightarrow> Inl pe
      | Inr st \<Rightarrow> Inr (flush False (ps_sb st) (ps_tokens st), ps_optCatchAll st, ps_paramCount st))"

subsection \<open>Patterns\<close>

datatype parse_error = EmptyPattern | Syntax PatternError

definition parsePattern :: "parse_config \<Rightarrow> string \<Rightarrow> parse_error + pattern \<times> nat" where
  "parsePattern cfg raw =
     (case index_byte raw (CHR ''/'') of
        None \<Rightarrow>
          if length raw = 0 then Inl EmptyPattern
          else Inl (Syntax \<lparr>pe_Pattern = raw, pe_Type = ''hostname'', pe_Reason = ''syntax'',
                 pe_Hint = ''missing trailing '' @ [CHR 0x27, CHR ''/'', CHR 0x27] @ '' after hostname'',
                 pe_Start = length raw, pe_End = length raw\<rparr>)
      | Some end \<Rightarrow>
          let path = drop end raw in
          (case (if end > 0 then parseHostname cfg (take end raw) else Inr ([], 0)) of
             Inl pe \<Rightarrow> Inl (Syntax (pe\<lparr>pe_Pattern := raw, pe_Type := ''hostname''\<rparr>))
           | Inr (hostTokens, hostCount) \<Rightarrow>
               (case parsePath cfg path hostCount of
                  Inl pe \<Rightarrow> Inl (Syntax (shift_error end (pe\<lparr>pe_Pattern := raw, pe_Type := ''path''\<rparr>)))
                | Inr (pathTokens, optCatchAll, paramCount) \<Rightarrow>
                    Inr (\<lparr>pstr = raw, ptokens = hostTokens @ pathTokens, optionalCatchAll = optCatchAll,
                          catchAll = (ttyp (pathTokens ! (length pathTokens - 1)) = nodeWildcard),
                          endHost = end, hostParams = hostCount\<rparr>, paramCount))))"

section \<open>Tokens print back to the pattern\<close>

definition brace :: "string \<Rightarrow> regexp option \<Rightarrow> string" where
  "brace name re = CHR ''{'' # name @ (case re of None \<Rightarrow> [] | Some re \<Rightarrow> CHR '':'' # rawExpr re) @ ''}''"

definition print_token :: "bool \<Rightarrow> token \<Rightarrow> string" where
  "print_token opt tk =
     (case ttyp tk of
        nodeStatic \<Rightarrow> tvalue tk
      | nodeParam \<Rightarrow> brace (tvalue tk) (tregexp tk)
      | nodeWildcard \<Rightarrow> (if opt then CHR ''*'' else CHR ''+'') # brace (tvalue tk) (tregexp tk))"

text \<open>The last wildcard of a pattern with an optional catch-all is written with a star.\<close>

fun print_tokens :: "bool \<Rightarrow> token list \<Rightarrow> string" where
  "print_tokens opt [] = []"
| "print_tokens opt (tk # tks) = print_token (opt \<and> tks = []) tk @ print_tokens opt tks"

lemma print_append: "b \<noteq> [] \<Longrightarrow> print_tokens opt (a @ b) = print_tokens False a @ print_tokens opt b"
  by (induction a) simp_all

lemma print_append_False: "print_tokens False (a @ b) = print_tokens False a @ print_tokens False b"
  by (induction a) simp_all

text \<open>The documented behaviour of \<open>regexp.Compile\<close>: \<open>String\<close> returns the source text.\<close>

definition keeps_source :: "regexp_lib \<Rightarrow> bool" where
  "keeps_source lib \<longleftrightarrow> (\<forall>expr re. regexp_Compile lib expr = Inr re \<longrightarrow> re_string re = expr)"

lemma compileParamRegexp_source:
  assumes "keeps_source (pc_regexp cfg)" "compileParamRegexp cfg raw ic = Inr re"
  shows "rawExpr re = raw"
proof -
  from assms(2) have "regexp_Compile (pc_regexp cfg) (if ic then ''(?i)'' @ anchored raw else anchored raw) = Inr re"
    by (auto simp: compileParamRegexp_def Let_def split: if_splits sum.splits)
  with assms(1) have "re_string re = (if ic then ''(?i)'' @ anchored raw else anchored raw)"
    unfolding keeps_source_def by blast
  then have "re = Regexp (if ic then ''(?i)'' @ anchored raw else anchored raw)" by (cases re) simp
  then show ?thesis using rawExpr_anchored [of raw] rawExpr_ignore_case [of raw] by (cases ic) simp_all
qed

lemma braceIndex_SomeD: "braceIndex s level = Some i \<Longrightarrow> i < length s \<and> s ! i = CHR ''}''"
  by (induction s level arbitrary: i rule: braceIndex.induct) (auto split: if_splits)

definition name_ok :: "char \<Rightarrow> string \<Rightarrow> bool" where
  "name_ok delim name \<longleftrightarrow> name \<noteq> [] \<and> (\<forall>c \<in> set name. \<not> isASCIIControl c \<and> c \<noteq> delim \<and> c \<notin> set ''/*+{:'')"

lemma check_name_None:
  "check_name delim name j = None \<longleftrightarrow> (\<forall>c \<in> set name. \<not> isASCIIControl c \<and> c \<noteq> delim \<and> c \<notin> set ''/*+{'')"
  by (induction delim name j rule: check_name.induct) auto

lemma parseBrace_Inr:
  assumes src: "keeps_source (pc_regexp cfg)" and s: "s \<noteq> []" "s ! 0 = CHR ''{''"
    and res: "parseBrace cfg s delim opt = Inr (name, re, n)"
  shows "2 \<le> n \<and> n \<le> length s \<and> take n s = brace name re \<and> name_ok delim name
    \<and> length name \<le> pc_maxParamKeyBytes cfg \<and> (opt \<longrightarrow> re = None)"
proof -
  from s obtain t where t: "s = CHR ''{'' # t" by (cases s) auto
  from res obtain idx where idx: "braceIndex t 1 = Some idx"
    by (auto simp: parseBrace_def t split: option.splits)
  define content where "content = take idx t"
  from braceIndex_SomeD [OF idx] have "idx < length t" "t ! idx = CHR ''}''" by simp_all
  then have take: "take (idx + 2) s = CHR ''{'' # content @ ''}''"
    by (simp add: t content_def take_Suc_conv_app_nth)
  have slice: "slice s 1 (1 + idx) = content" by (simp add: slice_def t content_def)
  have res': "parse_content cfg content (idx + 2) delim opt = Inr (name, re, n)"
    using res slice by (simp add: parseBrace_def t idx)
  show ?thesis
  proof (cases "index_byte content (CHR '':'')")
    case None
    with res' have "name = content" "re = None" "n = idx + 2" "name_ok delim name" "length name \<le> pc_maxParamKeyBytes cfg"
      by (auto simp: parse_content_def Let_def name_ok_def check_name_None index_byte_None split: if_splits option.splits)
    with take \<open>idx < length t\<close> show ?thesis by (simp add: brace_def t)
  next
    case (Some ci)
    from index_byte_SomeD [OF Some] have c: "ci < length content" "content ! ci = CHR '':''"
      "CHR '':'' \<notin> set (take ci content)" by simp_all
    note eq = res' [unfolded parse_content_def Let_def Some option.case]
    have nbig: "\<not> length (take ci content) > pc_maxParamKeyBytes cfg" using eq by (metis Inl_Inr_False)
    then have ok: "length (take ci content) \<le> pc_maxParamKeyBytes cfg" by (rule leI)
    have ok': "take ci content \<noteq> []" "check_name delim (take ci content) 0 = None" "\<not> opt"
      "check_regex (1 + ci + 1) (drop (ci + 1) content) 0 = None"
      using eq by (simp_all split: if_splits option.splits)
    have ne: "length (take ci content) \<noteq> 0" using ok'(1) by (simp only: length_0_conv not_False_eq_True)
    note eq2 = eq [unfolded if_not_P [OF nbig] if_not_P [OF ne] ok'(2,4) if_not_P [OF ok'(3)] option.case]
    obtain re' where *: "name = take ci content" "re = Some re'" "n = idx + 2"
        "compileParamRegexp cfg (drop (ci + 1) content) (delim = dotDelim) = Inr re'"
      using eq2 by (cases "compileParamRegexp cfg (drop (ci + 1) content) (delim = dotDelim)") auto
    have name: "name_ok delim name"
      unfolding name_ok_def *(1) using ok'(1,2) c(3) by (auto simp: check_name_None)
    from compileParamRegexp_source [OF src *(4)] have raw: "rawExpr re' = drop (ci + 1) content" .
    have "content = name @ CHR '':'' # rawExpr re'"
      using id_take_nth_drop [OF c(1)] c(2) raw *(1) by simp
    with take *(2,3) have "take n s = brace name re" by (simp add: brace_def)
    with * ok ok'(3) name \<open>idx < length t\<close> show ?thesis by (simp add: t)
  qed
qed

subsection \<open>The tokens of one part\<close>

text \<open>
  The tokens of the host name or of the path: no two adjacent static tokens, no empty one, each with the
  \<open>hsplit\<close> flag of its part, names that are legal there, and \<open>nested\<close> exactly on the wildcards that
  another wildcard of the part precedes.
\<close>

definition both_static :: "token \<Rightarrow> token \<Rightarrow> bool" where
  "both_static a b \<longleftrightarrow> ttyp a = nodeStatic \<and> ttyp b = nodeStatic"

definition token_ok :: "parse_config \<Rightarrow> char \<Rightarrow> bool \<Rightarrow> token \<Rightarrow> bool" where
  "token_ok cfg delim hsplit tk \<longleftrightarrow>
     (if ttyp tk = nodeStatic then tvalue tk \<noteq> [] \<and> thsplit tk = hsplit
      else name_ok delim (tvalue tk) \<and> length (tvalue tk) \<le> pc_maxParamKeyBytes cfg)"

fun nested_ok :: "bool \<Rightarrow> token list \<Rightarrow> bool" where
  "nested_ok saw [] = True"
| "nested_ok saw (tk # tks) =
     (let wild = (ttyp tk = nodeWildcard) in tnested tk = (wild \<and> saw) \<and> nested_ok (saw \<or> wild) tks)"

definition part_ok :: "parse_config \<Rightarrow> char \<Rightarrow> bool \<Rightarrow> token list \<Rightarrow> bool" where
  "part_ok cfg delim hsplit toks \<longleftrightarrow>
     (\<forall>tk \<in> set toks. token_ok cfg delim hsplit tk)
     \<and> successively (\<lambda>a b. \<not> both_static a b) toks \<and> nested_ok False toks"

definition wild_in :: "token list \<Rightarrow> bool" where
  "wild_in toks \<longleftrightarrow> (\<exists>tk \<in> set toks. ttyp tk = nodeWildcard)"

definition open_end :: "token list \<Rightarrow> bool" where
  "open_end toks \<longleftrightarrow> toks = [] \<or> ttyp (last toks) \<noteq> nodeStatic"

definition params_in :: "token list \<Rightarrow> nat" where
  "params_in toks = length (filter (\<lambda>tk. ttyp tk \<noteq> nodeStatic) toks)"

lemma static_tk_simps [simp]:
  "ttyp (static_tk h v) = nodeStatic" "tvalue (static_tk h v) = v" "thsplit (static_tk h v) = h"
  "tnested (static_tk h v) = False"
  by (simp_all add: static_tk_def)

lemma dynamic_tk_simps [simp]:
  "ttyp (dynamic_tk w name re ne) = (if w then nodeWildcard else nodeParam)"
  "tvalue (dynamic_tk w name re ne) = name" "tregexp (dynamic_tk w name re ne) = re"
  "tnested (dynamic_tk w name re ne) = ne"
  by (simp_all add: dynamic_tk_def)

lemma nested_append: "nested_ok saw (a @ b) \<longleftrightarrow> nested_ok saw a \<and> nested_ok (saw \<or> wild_in a) b"
  by (induction a arbitrary: saw) (auto simp: wild_in_def Let_def)

lemma params_in_append [simp]: "params_in (a @ b) = params_in a + params_in b" "params_in [] = 0"
  by (simp_all add: params_in_def)

lemma flush_simps [simp]:
  "print_tokens False (flush h sb toks) = print_tokens False toks @ sb"
  "params_in (flush h sb toks) = params_in toks" "wild_in (flush h sb toks) = wild_in toks"
  by (simp_all add: flush_def print_append_False print_token_def params_in_def wild_in_def)

lemma flush_part_ok:
  assumes "part_ok cfg delim h toks" "open_end toks"
  shows "part_ok cfg delim h (flush h sb toks)"
  using assms
  by (auto simp: part_ok_def flush_def open_end_def token_ok_def successively_append_iff both_static_def nested_append)

lemma flush_not_Nil: "sb \<noteq> [] \<Longrightarrow> flush h sb toks \<noteq> []"
  by (simp add: flush_def)

lemma add_dynamic:
  assumes "part_ok cfg delim h toks" "open_end toks" "name_ok delim name" "length name \<le> pc_maxParamKeyBytes cfg"
    and toks'_def: "toks' = flush h sb toks @ [dynamic_tk w name re (w \<and> wild_in toks)]"
  shows "part_ok cfg delim h toks'" "open_end toks'" "params_in toks' = params_in toks + 1"
    "wild_in toks' \<longleftrightarrow> wild_in toks \<or> w"
proof -
  have "part_ok cfg delim h (flush h sb toks)" by (rule flush_part_ok [OF assms(1,2)])
  then show "part_ok cfg delim h toks'"
    using assms(3,4)
    by (auto simp: part_ok_def toks'_def token_ok_def successively_append_iff both_static_def nested_append)
  show "open_end toks'" by (simp add: open_end_def toks'_def)
  show "params_in toks' = params_in toks + 1" by (simp add: toks'_def params_in_def [of "[_]"])
  show "wild_in toks' \<longleftrightarrow> wild_in toks \<or> w"
    unfolding toks'_def by (auto simp: wild_in_def flush_def)
qed

lemma print_dynamic:
  assumes print: "print_tokens False toks @ sb = take i s" and i: "i < length s"
    and j: "j = (if w then i + 1 else i)" and w: "w \<Longrightarrow> s ! i = (if opt then CHR ''*'' else CHR ''+'')"
    and brace: "take n (drop j s) = brace name re"
  shows "print_tokens opt (flush h sb toks @ [dynamic_tk w name re ne]) = take (j + n) s"
proof -
  have "take (j + n) s = take j s @ take n (drop j s)" by (rule take_add)
  moreover have "take j s = take i s @ (if w then [s ! i] else [])"
    using i j by (simp add: take_Suc_conv_app_nth)
  ultimately show ?thesis
    using print brace w by (auto simp: print_append print_token_def)
qed

subsection \<open>The loops\<close>

definition path_inv :: "parse_config \<Rightarrow> string \<Rightarrow> nat \<Rightarrow> nat \<Rightarrow> path_state \<Rightarrow> bool" where
  "path_inv cfg path base i st \<longleftrightarrow>
     i \<le> length path \<and> print_tokens (ps_optCatchAll st) (ps_tokens st) @ ps_sb st = take i path
     \<and> part_ok cfg slashDelim False (ps_tokens st) \<and> open_end (ps_tokens st)
     \<and> ps_paramCount st = base + params_in (ps_tokens st) \<and> ps_sawWild st = wild_in (ps_tokens st)
     \<and> (ps_optCatchAll st \<longrightarrow> i = length path \<and> ps_sb st = [] \<and> ps_tokens st \<noteq> [] \<and> ttyp (last (ps_tokens st)) = nodeWildcard)
     \<and> (ps_paramCount st > base \<longrightarrow> ps_paramCount st \<le> pc_maxParams cfg)"

definition host_inv :: "parse_config \<Rightarrow> string \<Rightarrow> nat \<Rightarrow> host_state \<Rightarrow> bool" where
  "host_inv cfg hostname i st \<longleftrightarrow>
     i \<le> length hostname \<and> print_tokens False (hs_tokens st) @ hs_sb st = take i hostname
     \<and> part_ok cfg dotDelim True (hs_tokens st) \<and> open_end (hs_tokens st)
     \<and> hs_paramCount st = params_in (hs_tokens st) \<and> hs_sawWild st = wild_in (hs_tokens st)
     \<and> (hs_paramCount st > 0 \<longrightarrow> hs_paramCount st \<le> pc_maxParams cfg)"

lemma path_write_inv:
  assumes "path_inv cfg path base i st" "\<not> ps_optCatchAll st" "i + length v \<le> length path"
    "take (length v) (drop i path) = v" "path_write v i st = Inr (i', st')"
  shows "path_inv cfg path base i' st'"
  using assms by (auto simp: path_inv_def take_add simp flip: append_assoc)

lemma path_param_inv:
  assumes src: "keeps_source (pc_regexp cfg)" and inv: "path_inv cfg path base i st" and i: "i < length path"
    and c: "path ! i \<in> {CHR ''{'', CHR ''+'', CHR ''*''}" and step: "path_param cfg path i st = Inr (i', st')"
  shows "path_inv cfg path base i' st'"
proof -
  define opt where "opt \<longleftrightarrow> path ! i = CHR ''*''"
  define w where "w \<longleftrightarrow> path ! i = CHR ''+'' \<or> opt"
  define j where "j = (if w then i + 1 else i)"
  have no_opt: "\<not> ps_optCatchAll st" using inv i by (auto simp: path_inv_def)
  show ?thesis
  proof (cases "w \<and> (i + 1 \<ge> length path \<or> path ! (i + 1) \<noteq> CHR ''{'')")
    case True
    with step have "path_write [path ! i] i st = Inr (i', st')"
      by (simp add: path_param_def w_def opt_def Let_def)
    with path_write_inv [OF inv no_opt, of "[path ! i]"] i show ?thesis
      by (simp add: take_Suc_conv_app_nth hd_drop_conv_nth take_Suc)
  next
    case False
    then have brace: "drop j path \<noteq> []" "drop j path ! 0 = CHR ''{''"
      using i c by (auto simp: j_def w_def opt_def)
    note eq = step [unfolded path_param_def Let_def, folded opt_def, folded w_def, unfolded if_not_P [OF False], folded j_def, simplified]
    obtain name re n where pb: "parseBrace cfg (drop j path) slashDelim opt = Inr (name, re, n)"
      using eq by (auto split: if_splits sum.splits)
    note res = eq [unfolded pb sum.case prod.case]
    from parseBrace_Inr [OF src brace pb] have n: "n \<le> length path - j" "take n (drop j path) = brace name re"
      "name_ok slashDelim name" "length name \<le> pc_maxParamKeyBytes cfg" by simp_all
    define toks where "toks = flush False (ps_sb st) (ps_tokens st) @ [dynamic_tk w name re (w \<and> ps_sawWild st)]"
    have st': "i' = j + n" "ps_tokens st' = toks" "ps_sb st' = []" "ps_paramCount st' = ps_paramCount st + 1"
        "ps_sawWild st' = (ps_sawWild st \<or> w)" "ps_optCatchAll st' = opt" "ps_paramCount st + 1 \<le> pc_maxParams cfg"
        "opt \<longrightarrow> \<not> j + n < length path"
      using res no_opt by (auto simp: toks_def split: if_splits)
    have saw: "ps_sawWild st = wild_in (ps_tokens st)" and print: "print_tokens False (ps_tokens st) @ ps_sb st = take i path"
      using inv no_opt by (simp_all add: path_inv_def)
    have pre: "part_ok cfg slashDelim False (ps_tokens st)" "open_end (ps_tokens st)"
      using inv by (simp_all add: path_inv_def)
    note ok = add_dynamic [OF pre n(3,4) toks_def [unfolded saw]]
    have jn: "j + n \<le> length path" using n(1) brace(1) by simp
    have "print_tokens opt toks = take (j + n) path"
      unfolding toks_def
      by (rule print_dynamic [OF print i j_def _ n(2)]) (use c in \<open>auto simp: w_def opt_def\<close>)
    moreover have "opt \<Longrightarrow> ttyp (last toks) = nodeWildcard" by (simp add: toks_def w_def)
    moreover have "toks \<noteq> []" by (simp add: toks_def)
    ultimately show ?thesis
      using ok st' jn inv by (auto simp: path_inv_def)
  qed
qed

lemma path_step_inv:
  assumes src: "keeps_source (pc_regexp cfg)" and inv: "path_inv cfg path base i st" and i: "i < length path"
    and step: "path_step cfg path i st = Inr (i', st')"
  shows "path_inv cfg path base i' st'"
proof -
  have no_opt: "\<not> ps_optCatchAll st" using inv i by (auto simp: path_inv_def)
  note written = path_write_inv [OF inv no_opt]
  consider "path ! i \<in> {CHR ''{'', CHR ''+'', CHR ''*''}" | "path ! i = CHR ''%''"
    | "path ! i \<notin> {CHR ''{'', CHR ''+'', CHR ''*'', CHR ''%''}" by auto
  then show ?thesis
  proof cases
    case 1
    with step path_param_inv [OF src inv i 1] show ?thesis by (simp add: path_step_def)
  next
    case 2
    with step have "path_write (slice path i (i + 3)) i st = Inr (i', st')" "i + 2 < length path"
      by (auto simp: path_step_def path_escape_def split: if_splits option.splits)
    with written [of "slice path i (i + 3)"] show ?thesis by (simp add: slice_def)
  next
    case 3
    with step have "path_write [path ! i] i st = Inr (i', st')"
      by (auto simp: path_step_def path_byte_def Let_def split: if_splits option.splits)
    with written [of "[path ! i]"] i show ?thesis by (simp add: hd_drop_conv_nth take_Suc)
  qed
qed

lemma path_loop_inv:
  "keeps_source (pc_regexp cfg) \<Longrightarrow> path_inv cfg path base i st \<Longrightarrow> path_loop cfg path i st = Inr st' \<Longrightarrow>
     path_inv cfg path base (length path) st'"
proof (induction cfg path i st rule: path_loop.induct)
  case (1 cfg path i st)
  show ?case
  proof (cases "i < length path")
    case True
    then obtain i1 st1 where step: "path_step cfg path i st = Inr (i1, st1)" "path_loop cfg path i1 st1 = Inr st'"
      using "1.prems"(3) by (auto simp: path_loop.simps [of cfg path i st] split: sum.splits)
    from "1.IH" [OF True step(1) refl "1.prems"(1) path_step_inv [OF "1.prems"(1,2) True step(1)] step(2)]
    show ?thesis .
  next
    case False
    then have "st' = st" using "1.prems"(3) by (simp add: path_loop.simps [of cfg path i st])
    moreover have "i = length path" using False "1.prems"(2) by (simp add: path_inv_def)
    ultimately show ?thesis using "1.prems"(2) by simp
  qed
qed

lemma path_initial_inv: "path_inv cfg path base 0 (path_initial base)"
  by (simp add: path_inv_def path_initial_def part_ok_def open_end_def wild_in_def)

lemma parsePath_Inr:
  assumes src: "keeps_source (pc_regexp cfg)" and res: "parsePath cfg path base = Inr (toks, opt, n)"
  shows "print_tokens opt toks = path" "part_ok cfg slashDelim False toks" "n = base + params_in toks"
    "opt \<longrightarrow> toks \<noteq> [] \<and> ttyp (last toks) = nodeWildcard" "base \<le> pc_maxParams cfg \<longrightarrow> n \<le> pc_maxParams cfg"
proof -
  from res obtain st where loop: "path_loop cfg path 0 (path_initial base) = Inr st"
    and eq: "toks = flush False (ps_sb st) (ps_tokens st)" "opt = ps_optCatchAll st" "n = ps_paramCount st"
    by (auto simp: parsePath_def split: sum.splits)
  note inv = path_loop_inv [OF src path_initial_inv loop]
  have fl: "opt \<longrightarrow> toks = ps_tokens st" using inv eq by (auto simp: path_inv_def flush_def)
  show "part_ok cfg slashDelim False toks" using inv eq by (simp add: path_inv_def flush_part_ok)
  show "n = base + params_in toks" using inv eq by (simp add: path_inv_def)
  show "opt \<longrightarrow> toks \<noteq> [] \<and> ttyp (last toks) = nodeWildcard" using inv eq fl by (auto simp: path_inv_def)
  show "base \<le> pc_maxParams cfg \<longrightarrow> n \<le> pc_maxParams cfg" using inv eq by (auto simp: path_inv_def)
  show "print_tokens opt toks = path"
  proof (cases opt)
    case True
    with inv eq fl show ?thesis by (auto simp: path_inv_def)
  next
    case False
    with inv eq show ?thesis by (auto simp: path_inv_def)
  qed
qed

subsection \<open>The host loop\<close>

lemma host_param_inv:
  assumes src: "keeps_source (pc_regexp cfg)" and inv: "host_inv cfg s i st" and i: "i < length s"
    and c: "s ! i \<in> {CHR ''{'', CHR ''+''}" and step: "host_param cfg s i st = Inr (i', st')"
  shows "host_inv cfg s i' st'"
proof -
  define w where "w \<longleftrightarrow> s ! i = CHR ''+''"
  define j where "j = (if w then i + 1 else i)"
  note eq = step [unfolded host_param_def Let_def, folded w_def, folded j_def, simplified]
  have brace: "drop j s \<noteq> []" "drop j s ! 0 = CHR ''{''"
    using i c eq by (auto simp: j_def w_def split: if_splits)
  obtain name re n where pb: "parseBrace cfg (drop j s) dotDelim False = Inr (name, re, n)"
    using eq by (auto split: if_splits sum.splits)
  note res = eq [unfolded pb sum.case prod.case]
  from parseBrace_Inr [OF src brace pb] have n: "n \<le> length s - j" "take n (drop j s) = brace name re"
    "name_ok dotDelim name" "length name \<le> pc_maxParamKeyBytes cfg" by simp_all
  define toks where "toks = flush True (hs_sb st) (hs_tokens st) @ [dynamic_tk w name re (w \<and> hs_sawWild st)]"
  have st': "i' = j + n" "hs_tokens st' = toks" "hs_sb st' = []" "hs_paramCount st' = hs_paramCount st + 1"
      "hs_sawWild st' = (hs_sawWild st \<or> w)" "hs_paramCount st + 1 \<le> pc_maxParams cfg"
    using res by (auto simp: toks_def split: if_splits)
  have saw: "hs_sawWild st = wild_in (hs_tokens st)" and print: "print_tokens False (hs_tokens st) @ hs_sb st = take i s"
    and pre: "part_ok cfg dotDelim True (hs_tokens st)" "open_end (hs_tokens st)"
    using inv by (simp_all add: host_inv_def)
  note ok = add_dynamic [OF pre n(3,4) toks_def [unfolded saw]]
  have jn: "j + n \<le> length s" using n(1) brace(1) by simp
  have "print_tokens False toks = take (j + n) s"
    unfolding toks_def by (rule print_dynamic [OF print i j_def _ n(2)]) (simp add: w_def)
  then show ?thesis using ok st' jn inv by (auto simp: host_inv_def)
qed

lemma host_step_inv:
  assumes src: "keeps_source (pc_regexp cfg)" and inv: "host_inv cfg s i st" and i: "i < length s"
    and step: "host_step cfg s i st = Inr (i', st')"
  shows "host_inv cfg s i' st'"
proof (cases "s ! i \<in> {CHR ''{'', CHR ''+''}")
  case True
  with step host_param_inv [OF src inv i True] show ?thesis by (simp add: host_step_def Let_def)
next
  case False
  with step obtain st1 where b: "host_byte i (s ! i) st = Inr st1" and "i' = i + 1"
    and st': "st' = st1\<lparr>hs_last := s ! i, hs_sb := hs_sb st1 @ [s ! i], hs_staticSinceWild := hs_staticSinceWild st1 + 1\<rparr>"
    by (auto simp: host_step_def Let_def split: if_splits sum.splits)
  have "hs_sb st1 = hs_sb st \<and> hs_tokens st1 = hs_tokens st \<and> hs_paramCount st1 = hs_paramCount st
      \<and> hs_sawWild st1 = hs_sawWild st"
    using b by (auto simp: host_byte_def split: if_splits)
  with inv i st' \<open>i' = i + 1\<close> show ?thesis
    by (auto simp: host_inv_def take_Suc_conv_app_nth simp flip: append_assoc)
qed

lemma host_loop_inv:
  "keeps_source (pc_regexp cfg) \<Longrightarrow> host_inv cfg s i st \<Longrightarrow> host_loop cfg s i st = Inr st' \<Longrightarrow>
     host_inv cfg s (length s) st'"
proof (induction cfg s i st rule: host_loop.induct)
  case (1 cfg s i st)
  show ?case
  proof (cases "i < length s")
    case True
    then obtain i1 st1 where step: "host_step cfg s i st = Inr (i1, st1)" "host_loop cfg s i1 st1 = Inr st'"
      using "1.prems"(3) by (auto simp: host_loop.simps [of cfg s i st] split: sum.splits)
    from "1.IH" [OF True step(1) refl "1.prems"(1) host_step_inv [OF "1.prems"(1,2) True step(1)] step(2)]
    show ?thesis .
  next
    case False
    then have "st' = st" using "1.prems"(3) by (simp add: host_loop.simps [of cfg s i st])
    moreover have "i = length s" using False "1.prems"(2) by (simp add: host_inv_def)
    ultimately show ?thesis using "1.prems"(2) by simp
  qed
qed

lemma host_initial_inv: "host_inv cfg s 0 host_initial"
  by (simp add: host_inv_def host_initial_def part_ok_def open_end_def wild_in_def)

lemma parseHostname_Inr:
  assumes src: "keeps_source (pc_regexp cfg)" and res: "parseHostname cfg s = Inr (toks, n)"
  shows "print_tokens False toks = s" "part_ok cfg dotDelim True toks" "n = params_in toks" "n \<le> pc_maxParams cfg"
proof -
  from res obtain st where loop: "host_loop cfg s 0 host_initial = Inr st"
    and eq: "toks = flush True (hs_sb st) (hs_tokens st)" "n = hs_paramCount st"
    by (auto simp: parseHostname_def Let_def split: sum.splits if_splits)
  note inv = host_loop_inv [OF src host_initial_inv loop]
  show "print_tokens False toks = s" using inv eq by (auto simp: host_inv_def)
  show "part_ok cfg dotDelim True toks" using inv eq by (simp add: host_inv_def flush_part_ok)
  show "n = params_in toks" using inv eq by (simp add: host_inv_def)
  show "n \<le> pc_maxParams cfg" using inv eq by (auto simp: host_inv_def)
qed

subsection \<open>The pattern as a whole\<close>

lemma toks_ok_path: "part_ok cfg d hs toks \<Longrightarrow> toks_ok False toks"
proof -
  have "successively (\<lambda>a b. \<not> both_static a b) toks \<Longrightarrow> toks_ok False toks"
  proof (induction toks)
    case (Cons tk toks)
    then show ?case by (cases toks) (auto simp: both_static_def Let_def)
  qed simp
  then show "part_ok cfg d hs toks \<Longrightarrow> toks_ok False toks" by (simp add: part_ok_def)
qed

definition path_start :: "token list \<Rightarrow> bool" where
  "path_start toks \<longleftrightarrow> toks \<noteq> [] \<and> ttyp (hd toks) = nodeStatic \<and> path_key (tvalue (hd toks))"

lemma print_path_start:
  assumes "print_tokens opt toks = CHR ''/'' # s" "part_ok cfg d hs toks"
  shows "path_start toks"
proof (cases toks)
  case (Cons tk tks)
  with assms have "print_token (opt \<and> tks = []) tk @ print_tokens opt tks = CHR ''/'' # s" "token_ok cfg d hs tk"
    by (simp_all add: part_ok_def)
  then show ?thesis
    unfolding path_start_def Cons
    by (cases "ttyp tk"; cases "tvalue tk") (auto simp: print_token_def brace_def token_ok_def split: if_splits)
qed (use assms in simp)

lemma toks_ok_start: "path_start toks \<Longrightarrow> part_ok cfg d hs toks \<Longrightarrow> toks_ok True toks"
  using toks_ok_path [of cfg d hs toks] by (cases toks) (simp_all add: path_start_def Let_def)

lemma toks_ok_host:
  assumes "path_start pt" "part_ok cfg d False pt"
  shows "\<forall>tk \<in> set ht. ttyp tk = nodeStatic \<longrightarrow> thsplit tk \<and> slashDelim \<notin> set (tvalue tk) \<Longrightarrow>
     successively (\<lambda>a b. \<not> both_static a b) ht \<Longrightarrow> toks_ok True (ht @ pt)"
proof (induction ht)
  case Nil
  then show ?case using toks_ok_start [OF assms] by simp
next
  case (Cons tk ht)
  then have IH: "toks_ok True (ht @ pt)" by (cases ht) auto
  have "path_key v \<Longrightarrow> slashDelim \<in> set v" for v by (cases v) auto
  with Cons.prems IH assms(1) show ?case
    by (cases ht; cases pt) (auto simp: Let_def both_static_def path_start_def)
qed

lemma print_token_static: "tk \<in> set toks \<Longrightarrow> ttyp tk = nodeStatic \<Longrightarrow> set (tvalue tk) \<subseteq> set (print_tokens opt toks)"
  by (induction toks) (auto simp: print_token_def)

lemma print_host_path: "path_start pt \<Longrightarrow> print_tokens False ht @ print_tokens opt pt = print_tokens opt (ht @ pt)"
  by (simp add: print_append path_start_def)

lemma params_in_count: "params_in toks = length (filter (\<lambda>tk. ttyp tk \<noteq> nodeStatic) toks)"
  by (simp add: params_in_def)

lemma parsePattern_Inr:
  assumes src: "keeps_source (pc_regexp cfg)" and res: "parsePattern cfg raw = Inr (p, n)"
  obtains ht pt where "ptokens p = ht @ pt" "pstr p = raw" "endHost p < length raw" "raw ! endHost p = CHR ''/''"
    "CHR ''/'' \<notin> set (take (endHost p) raw)"
    "print_tokens False ht = take (endHost p) raw" "print_tokens (optionalCatchAll p) pt = drop (endHost p) raw"
    "part_ok cfg dotDelim True ht" "part_ok cfg slashDelim False pt" "path_start pt"
    "hostParams p = params_in ht" "n = params_in (ptokens p)" "n \<le> pc_maxParams cfg"
    "optionalCatchAll p \<longrightarrow> ttyp (last pt) = nodeWildcard" "catchAll p = (ttyp (last pt) = nodeWildcard)"
proof -
  from res obtain e where e: "index_byte raw (CHR ''/'') = Some e"
    by (auto simp: parsePattern_def split: option.splits if_splits)
  define host where "host = (if e > 0 then parseHostname cfg (take e raw) else Inr ([], 0))"
  note eq = res [unfolded parsePattern_def Let_def e option.case, folded host_def]
  obtain ht hn where host: "host = Inr (ht, hn)" using eq by (auto split: sum.splits)
  obtain pt opt m where path: "parsePath cfg (drop e raw) hn = Inr (pt, opt, m)"
    using eq by (auto simp: host split: sum.splits)
  note eq2 = eq [unfolded host path sum.case prod.case]
  from index_byte_SomeD [OF e] have slash: "e < length raw" "raw ! e = CHR ''/''" "CHR ''/'' \<notin> set (take e raw)"
    by simp_all
  have H: "print_tokens False ht = take e raw \<and> part_ok cfg dotDelim True ht \<and> hn = params_in ht \<and> hn \<le> pc_maxParams cfg"
  proof (cases "e > 0")
    case True
    with host have "parseHostname cfg (take e raw) = Inr (ht, hn)" by (simp add: host_def)
    from parseHostname_Inr [OF src this] show ?thesis by blast
  next
    case False
    with host show ?thesis by (simp add: host_def part_ok_def)
  qed
  note P = parsePath_Inr [OF src path]
  have "drop e raw = CHR ''/'' # drop (Suc e) raw" using slash(1,2) by (metis Cons_nth_drop_Suc)
  then have start: "path_start pt" using print_path_start [OF _ P(2)] P(1) by simp
  have p: "ptokens p = ht @ pt" "pstr p = raw" "endHost p = e" "optionalCatchAll p = opt" "hostParams p = hn"
    "catchAll p = (ttyp (pt ! (length pt - 1)) = nodeWildcard)" "n = m"
    using eq2 by auto
  show thesis
    by (rule that [of ht pt])
      (use p slash H P start in \<open>auto simp: last_conv_nth path_start_def\<close>)
qed

section \<open>Error spans\<close>

definition span_ok :: "nat \<Rightarrow> PatternError \<Rightarrow> bool" where
  "span_ok n pe \<longleftrightarrow> pe_Start pe \<le> pe_End pe \<and> pe_End pe \<le> n"

lemma span_new [simp]: "span_ok n (newPatternError reason a b msg) \<longleftrightarrow> a \<le> b \<and> b \<le> n"
  by (simp add: span_ok_def newPatternError_def)

lemma span_shift: "span_ok n pe \<Longrightarrow> n + k \<le> m \<Longrightarrow> span_ok m (shift_error k pe)"
  by (simp add: span_ok_def shift_error_def)

lemma compileParamRegexp_span: "compileParamRegexp cfg raw ic = Inl pe \<Longrightarrow> span_ok (length raw) pe"
  by (auto simp: compileParamRegexp_def Let_def split: if_splits sum.splits)

lemma check_name_span: "check_name d name j = Some pe \<Longrightarrow> span_ok (1 + j + length name) pe"
  by (induction d name j rule: check_name.induct) (auto split: if_splits)

lemma check_regex_span: "check_regex off raw j = Some pe \<Longrightarrow> span_ok (off + j + length raw) pe"
  by (induction off raw j rule: check_regex.induct) (auto split: if_splits)

lemma span_mono: "span_ok n pe \<Longrightarrow> n \<le> m \<Longrightarrow> span_ok m pe"
  by (simp add: span_ok_def)

lemma parse_content_span:
  assumes "parse_content cfg content consumed d opt = Inl pe" "length content + 2 \<le> consumed"
  shows "span_ok consumed pe"
proof (cases "index_byte content (CHR '':'')")
  case None
  with assms show ?thesis
    by (auto simp: parse_content_def Let_def dest!: check_name_span elim: span_mono split: if_splits option.splits)
next
  case (Some ci)
  then have ci: "ci < length content" using index_byte_SomeD by fast
  then have len: "length (take ci content) = ci" "1 + ci + 1 + length (drop (ci + 1) content) < consumed"
    using assms(2) by simp_all
  show ?thesis
  proof (cases "compileParamRegexp cfg (drop (ci + 1) content) (d = dotDelim)")
    case (Inl e)
    have "span_ok consumed (shift_error (1 + ci + 1) e)"
      by (rule span_shift [OF compileParamRegexp_span [OF Inl]]) (use len in simp)
    with assms(1) Inl len show ?thesis
      unfolding parse_content_def Let_def Some option.case
      by (auto dest!: check_name_span check_regex_span elim!: span_mono split: if_splits option.splits)
  next
    case (Inr re)
    with assms(1) len show ?thesis
      unfolding parse_content_def Let_def Some option.case
      by (auto dest!: check_name_span check_regex_span elim!: span_mono split: if_splits option.splits)
  qed
qed

lemma parseBrace_span:
  assumes "parseBrace cfg s d opt = Inl pe" "s \<noteq> []"
  shows "span_ok (length s) pe"
proof (cases "braceIndex (drop 1 s) 1")
  case (Some idx)
  have "idx < length s - 1" using braceIndex_SomeD [OF Some] by simp
  then have "idx + 2 \<le> length s" by linarith
  moreover have "span_ok (1 + idx + 1) pe"
    by (rule parse_content_span) (use assms(1) Some \<open>idx + 2 \<le> length s\<close> in \<open>auto simp: parseBrace_def slice_def\<close>)
  ultimately show ?thesis by (auto elim: span_mono)
qed (use assms in \<open>auto simp: parseBrace_def\<close>)

lemma param_end_le: "i < length s \<Longrightarrow> i < param_end s i \<and> param_end s i \<le> length s"
  using braceIndex_SomeD [of "drop (i + 1) s" 1] by (auto simp: param_end_def split: option.splits)

lemma parseBrace_length: "parseBrace cfg s d opt = Inr (name, re, n) \<Longrightarrow> n \<le> length s"
  using braceIndex_SomeD [of "drop 1 s" 1]
  by (fastforce simp: parseBrace_def parse_content_def Let_def split: option.splits if_splits sum.splits)

lemma path_param_span:
  assumes "path_param cfg path i st = Inl pe" "i < length path"
  shows "span_ok (length path) pe"
proof -
  define opt where "opt \<longleftrightarrow> path ! i = CHR ''*''"
  define w where "w \<longleftrightarrow> path ! i = CHR ''+'' \<or> opt"
  define j where "j = (if w then i + 1 else i)"
  have nw: "\<not> (w \<and> (i + 1 \<ge> length path \<or> path ! (i + 1) \<noteq> CHR ''{''))"
  proof
    assume "w \<and> (i + 1 \<ge> length path \<or> path ! (i + 1) \<noteq> CHR ''{'')"
    with assms(1) have "path_write [path ! i] i st = Inl pe" by (simp add: path_param_def w_def opt_def Let_def)
    then show False by simp
  qed
  note eq = assms(1) [unfolded path_param_def Let_def, folded opt_def, folded w_def, unfolded if_not_P [OF nw], folded j_def, simplified]
  have j: "j < length path" "i \<le> j" using nw assms(2) by (auto simp: j_def)
  show ?thesis
  proof (cases "parseBrace cfg (drop j path) slashDelim opt")
    case (Inl e)
    have sp: "span_ok (length path) (shift_error j e)"
      by (rule span_shift [OF parseBrace_span [OF Inl]]) (use j in auto)
    then have sp': "span_ok (length path) ((shift_error j e)\<lparr>pe_Start := i\<rparr>)"
      using j(2) by (auto simp: span_ok_def shift_error_def)
    show ?thesis
      using eq sp sp' param_end_le [OF j(1)] unfolding Inl sum.case by (auto split: if_splits)
  next
    case (Inr r)
    then obtain name re n where pb: "parseBrace cfg (drop j path) slashDelim opt = Inr (name, re, n)" by (cases r) auto
    have "j + n \<le> length path" using parseBrace_length [OF pb] j by simp
    then show ?thesis
      using eq param_end_le [OF j(1)] j(2) unfolding pb sum.case prod.case by (auto split: if_splits)
  qed
qed

lemma continuation_less: "continuation lo hi s k \<Longrightarrow> k < length s"
  by (simp add: continuation_def)

lemma rune_size_le: "rune_size s \<le> length s"
proof (cases "s = []")
  case False
  have pick: "(if a \<and> a' \<and> c1 then 2 else if b \<and> b' \<and> c2 \<and> c3 then 3
      else if c \<and> c' \<and> c4 \<and> c5 \<and> c6 then 4 else 1) \<le> n"
    if "c1 \<Longrightarrow> 1 < n" "c3 \<Longrightarrow> 2 < n" "c6 \<Longrightarrow> 3 < n" "0 < n" for a a' b b' c c' c1 c2 c3 c4 c5 c6 and n :: nat
    using that by auto
  from False show ?thesis
    unfolding rune_size_def Let_def if_not_P [OF False] by (intro pick) (simp_all add: continuation_less)
qed (simp add: rune_size_def)

lemma dot_segment_end_le: "dot_segment_end path i = Some e \<Longrightarrow> i < length path \<Longrightarrow> i < e \<and> e \<le> length path"
  by (auto simp: dot_segment_end_def Let_def split: if_splits)

lemma path_byte_span:
  assumes "path_byte cfg path i st = Inl pe" "i < length path"
  shows "span_ok (length path) pe"
proof -
  have "i + rune_size (drop i path) \<le> length path" using rune_size_le [of "drop i path"] assms(2) by simp
  then show ?thesis
    using assms by (auto simp: path_byte_def Let_def dest!: dot_segment_end_le split: if_splits option.splits)
qed

lemma path_step_span: "path_step cfg path i st = Inl pe \<Longrightarrow> i < length path \<Longrightarrow> span_ok (length path) pe"
  by (auto simp: path_step_def path_escape_def dest: path_param_span path_byte_span split: if_splits option.splits)

lemma path_loop_span: "path_loop cfg path i st = Inl pe \<Longrightarrow> span_ok (length path) pe"
proof (induction cfg path i st rule: path_loop.induct)
  case (1 cfg path i st)
  then show ?case
    by (auto simp: path_loop.simps [of cfg path i st] dest: path_step_span split: sum.splits if_splits)
qed

text \<open>The host loop also keeps the start of the current label behind the index.\<close>

lemma host_param_span:
  assumes "host_param cfg s i st = Inl pe" "i < length s"
  shows "span_ok (length s) pe"
proof -
  define w where "w \<longleftrightarrow> s ! i = CHR ''+''"
  define j where "j = (if w then i + 1 else i)"
  note eq = assms(1) [unfolded host_param_def Let_def, folded w_def, folded j_def, simplified]
  have j: "i \<le> j" "j \<le> i + 1" by (simp_all add: j_def)
  show ?thesis
  proof (cases "w \<and> (length s \<le> j \<or> s ! j \<noteq> CHR ''{'')")
    case True
    with eq have "pe = newPatternError ''syntax'' (j - Suc 0) j ''missing parameter after delimiter''" by simp
    with j assms(2) show ?thesis by simp
  next
    case False
    then have jl: "j < length s" using assms(2) by (auto simp: j_def)
    note eq2 = eq [unfolded if_not_P [OF False]]
    show ?thesis
    proof (cases "parseBrace cfg (drop j s) dotDelim False")
      case (Inl e)
      have "span_ok (length s) (shift_error j e)"
        by (rule span_shift [OF parseBrace_span [OF Inl]]) (use jl in auto)
      with eq2 param_end_le [OF jl] show ?thesis unfolding Inl sum.case by (auto split: if_splits)
    next
      case (Inr r)
      then obtain name re n where pb: "parseBrace cfg (drop j s) dotDelim False = Inr (name, re, n)" by (cases r) auto
      have "j + n \<le> length s" using parseBrace_length [OF pb] jl by simp
      then show ?thesis
        using eq2 param_end_le [OF jl] j unfolding pb sum.case prod.case by (auto split: if_splits)
    qed
  qed
qed

lemma host_byte_span: "host_byte i c st = Inl pe \<Longrightarrow> i < n \<Longrightarrow> hs_labelStart st \<le> i \<Longrightarrow> span_ok n pe"
  by (auto simp: host_byte_def split: if_splits)

lemma host_step_span:
  assumes "host_step cfg s i st = Inl pe" "i < length s" "hs_labelStart st \<le> i"
  shows "span_ok (length s) pe"
proof -
  have "i + 1 < length s \<Longrightarrow> i \<le> param_end s (i + 1) \<and> param_end s (i + 1) \<le> length s"
    using param_end_le [of "i + 1" s] by linarith
  then show ?thesis
    using assms by (auto simp: host_step_def Let_def dest: host_param_span host_byte_span split: if_splits sum.splits)
qed

lemma host_step_label:
  assumes "host_step cfg s i st = Inr (i', st')" "hs_labelStart st \<le> i"
  shows "hs_labelStart st' \<le> i'"
proof (cases "s ! i \<in> {CHR ''{'', CHR ''+''}")
  case True
  with assms show ?thesis
    by (auto simp: host_step_def host_param_def Let_def split: if_splits sum.splits prod.splits)
next
  case False
  with assms show ?thesis by (auto simp: host_step_def host_byte_def Let_def split: if_splits)
qed

lemma host_loop_span:
  "hs_labelStart st \<le> i \<Longrightarrow> i \<le> length s \<Longrightarrow>
     case host_loop cfg s i st of Inl pe \<Rightarrow> span_ok (length s) pe | Inr st' \<Rightarrow> hs_labelStart st' \<le> length s"
proof (induction cfg s i st rule: host_loop.induct)
  case (1 cfg s i st)
  show ?case
  proof (cases "i < length s")
    case True
    show ?thesis
    proof (cases "host_step cfg s i st")
      case (Inl pe)
      with True host_step_span [OF Inl True "1.prems"(1)] show ?thesis
        by (simp add: host_loop.simps [of cfg s i st])
    next
      case (Inr r)
      then obtain i1 st1 where step: "host_step cfg s i st = Inr (i1, st1)" by (cases r) simp
      show ?thesis
      proof (cases "i1 \<le> length s")
        case bound: True
        from "1.IH" [OF True step refl host_step_label [OF step "1.prems"(1)] bound] step True
        show ?thesis by (simp add: host_loop.simps [of cfg s i st])
      next
        case False
        have "i1 \<le> length s"
        proof (cases "s ! i \<in> {CHR ''{'', CHR ''+''}")
          case br: True
          define j where "j = (if s ! i = CHR ''+'' then i + 1 else i)"
          from step br have "host_param cfg s i st = Inr (i1, st1)" by (simp add: host_step_def Let_def)
          note eq = this [unfolded host_param_def Let_def, folded j_def, simplified]
          have "j < length s" using eq True br by (auto simp: j_def split: if_splits)
          obtain name re n where pb: "parseBrace cfg (drop j s) dotDelim False = Inr (name, re, n)"
            using eq by (auto split: if_splits sum.splits)
          with eq have "i1 = j + n" unfolding pb sum.case prod.case by (auto split: if_splits)
          with parseBrace_length [OF pb] \<open>j < length s\<close> show ?thesis by simp
        next
          case nb: False
          with step True show ?thesis by (auto simp: host_step_def Let_def split: if_splits sum.splits)
        qed
        with False show ?thesis by simp
      qed
    qed
  next
    case False
    then have "host_loop cfg s i st = Inr st" by (simp add: host_loop.simps [of cfg s i st])
    with "1.prems" show ?thesis by simp
  qed
qed

lemma parseHostname_span:
  assumes "parseHostname cfg s = Inl pe"
  shows "span_ok (length s) pe"
proof (cases "host_loop cfg s 0 host_initial")
  case (Inl e)
  with assms host_loop_span [of host_initial 0 s cfg] show ?thesis
    by (simp add: parseHostname_def host_initial_def)
next
  case (Inr st)
  with host_loop_span [of host_initial 0 s cfg] have "hs_labelStart st \<le> length s"
    by (simp add: host_initial_def)
  with assms Inr show ?thesis
    by (auto simp: parseHostname_def Let_def split: if_splits)
qed

lemma parsePath_span: "parsePath cfg s n = Inl pe \<Longrightarrow> span_ok (length s) pe"
  by (auto simp: parsePath_def dest: path_loop_span split: sum.splits)

section \<open>Properties of the parser\<close>

text \<open>
  C35. The tokens of an accepted pattern print back to the pattern, so nothing of it is lost or read
  twice; the parameter count is the number of its dynamic tokens and within the limit; the host part ends
  at the first slash.
\<close>

theorem parsePattern_roundtrip:
  assumes "keeps_source (pc_regexp cfg)" and "parsePattern cfg raw = Inr (p, n)"
  shows "print_tokens (optionalCatchAll p) (ptokens p) = raw \<and> pstr p = raw
    \<and> n = params_in (ptokens p) \<and> n \<le> pc_maxParams cfg
    \<and> index_byte raw slashDelim = Some (endHost p)
    \<and> catchAll p = (ttyp (last (ptokens p)) = nodeWildcard)"
proof -
  obtain ht pt where P: "ptokens p = ht @ pt" "pstr p = raw" "endHost p < length raw" "raw ! endHost p = CHR ''/''"
    "CHR ''/'' \<notin> set (take (endHost p) raw)"
    "print_tokens False ht = take (endHost p) raw" "print_tokens (optionalCatchAll p) pt = drop (endHost p) raw"
    "path_start pt" "n = params_in (ptokens p)" "n \<le> pc_maxParams cfg"
    "catchAll p = (ttyp (last pt) = nodeWildcard)"
    by (rule parsePattern_Inr [OF assms]) blast
  have "print_tokens (optionalCatchAll p) (ptokens p) = raw"
    unfolding P(1) print_host_path [OF P(8), symmetric] P(6,7) by simp
  moreover have "index_byte raw slashDelim = Some (endHost p)"
  proof -
    obtain e where e: "index_byte raw slashDelim = Some e"
      using assms(2) by (auto simp: parsePattern_def split: option.splits if_splits)
    with assms(2) have "endHost p = e" by (auto simp: parsePattern_def split: sum.splits)
    with e show ?thesis by simp
  qed
  moreover have "last (ptokens p) = last pt" using P(1,8) by (simp add: path_start_def)
  ultimately show ?thesis using P(2,9-11) by simp
qed

lemma parsePattern_toks_ok:
  assumes "keeps_source (pc_regexp cfg)" and "parsePattern cfg raw = Inr (p, n)"
  shows "toks_ok True (ptokens p)"
    and "optionalCatchAll p \<Longrightarrow> ptokens p \<noteq> [] \<and> ttyp (last (ptokens p)) = nodeWildcard"
    and "pstr p = raw" and "n = params_in (ptokens p)" and "n \<le> pc_maxParams cfg"
proof -
  obtain ht pt where P: "ptokens p = ht @ pt" "CHR ''/'' \<notin> set (take (endHost p) raw)"
    "print_tokens False ht = take (endHost p) raw"
    "part_ok cfg dotDelim True ht" "part_ok cfg slashDelim False pt" "path_start pt"
    "optionalCatchAll p \<longrightarrow> ttyp (last pt) = nodeWildcard"
    "pstr p = raw" "n = params_in (ptokens p)" "n \<le> pc_maxParams cfg"
    by (rule parsePattern_Inr [OF assms]) blast
  have "thsplit tk \<and> slashDelim \<notin> set (tvalue tk)" if "tk \<in> set ht" "ttyp tk = nodeStatic" for tk
    using print_token_static [OF that, of False] P(2-4) that by (auto simp: part_ok_def token_ok_def)
  with P(4) have "toks_ok True (ht @ pt)"
    by (intro toks_ok_host [OF P(6,5)]) (auto simp: part_ok_def)
  with P show "toks_ok True (ptokens p)" and "pstr p = raw" and "n = params_in (ptokens p)" and "n \<le> pc_maxParams cfg"
    and "optionalCatchAll p \<Longrightarrow> ptokens p \<noteq> [] \<and> ttyp (last (ptokens p)) = nodeWildcard"
    by (auto simp: path_start_def)
qed

text \<open>
  C36. The tokens of an accepted pattern are what the routing tree relies on: the host part has no slash
  and its static tokens carry the \<open>hsplit\<close> flag, static tokens are never adjacent inside a part, the path
  starts with a slash, and an optional catch-all is the last token. Names are legal in their part, and a
  wildcard is nested exactly when another one precedes it in its part.
\<close>

theorem parsePattern_tokens:
  assumes "keeps_source (pc_regexp cfg)" and "parsePattern cfg raw = Inr (p, n)"
  shows "toks_ok True (ptokens p)
    \<and> (optionalCatchAll p \<longrightarrow> ptokens p \<noteq> [] \<and> ttyp (last (ptokens p)) = nodeWildcard)
    \<and> (\<exists>ht pt. ptokens p = ht @ pt \<and> part_ok cfg dotDelim True ht \<and> part_ok cfg slashDelim False pt
         \<and> path_start pt \<and> hostParams p = params_in ht)"
proof -
  obtain ht pt where "ptokens p = ht @ pt" "part_ok cfg dotDelim True ht" "part_ok cfg slashDelim False pt"
    "path_start pt" "hostParams p = params_in ht"
    by (rule parsePattern_Inr [OF assms]) blast
  with parsePattern_toks_ok(1,2) [OF assms] show ?thesis by blast
qed

text \<open>
  C37. A rejected pattern gets an error whose pattern is the input and whose span lies inside it; only the
  empty pattern is rejected without one.
\<close>

theorem parsePattern_error_span:
  assumes "parsePattern cfg raw = Inl e"
  shows "(e = EmptyPattern \<longleftrightarrow> raw = [])
    \<and> (\<forall>pe. e = Syntax pe \<longrightarrow> pe_Pattern pe = raw \<and> pe_Start pe \<le> pe_End pe \<and> pe_End pe \<le> length raw)"
proof (cases "index_byte raw (CHR ''/'')")
  case None
  with assms show ?thesis by (auto simp: parsePattern_def split: if_splits)
next
  case (Some i)
  then have i: "i < length raw" using index_byte_SomeD by fast
  define host where "host = (if i > 0 then parseHostname cfg (take i raw) else Inr ([], 0))"
  note eq = assms [unfolded parsePattern_def Let_def Some option.case, folded host_def]
  show ?thesis
  proof (cases host)
    case (Inl pe)
    then have "parseHostname cfg (take i raw) = Inl pe" by (auto simp: host_def split: if_splits)
    from parseHostname_span [OF this] i have "span_ok (length raw) pe" by (auto elim: span_mono)
    with eq i Inl show ?thesis by (auto simp: span_ok_def)
  next
    case (Inr h)
    then obtain ht hn where h: "host = Inr (ht, hn)" by (cases h) simp
    then obtain pe where pe: "parsePath cfg (drop i raw) hn = Inl pe"
      using eq by (auto simp: h split: sum.splits)
    from parsePath_span [OF pe] i have "span_ok (length raw) (shift_error i pe)"
      by (auto elim: span_shift)
    with eq i h pe show ?thesis by (auto simp: span_ok_def shift_error_def)
  qed
qed

definition demo_lib :: regexp_lib where
  "demo_lib = \<lparr>syntax_Parse = \<lambda>_. Inr (OpOther []), syntax_Compile = \<lambda>_. Inr 1,
     regexp_Compile = \<lambda>e. Inr (Regexp e), NumSubexp = \<lambda>_. 0\<rparr>"

definition demo_cfg :: parse_config where
  "demo_cfg = \<lparr>pc_maxParams = 255, pc_maxParamKeyBytes = 255, pc_maxRegexpSize = 1000, pc_allowRegexp = True,
     pc_mergeSlash = ExactPath, pc_regexp = demo_lib\<rparr>"

lemma demo_keeps_source: "keeps_source (pc_regexp demo_cfg)"
  by (simp add: keeps_source_def demo_cfg_def demo_lib_def)

definition demo_pattern :: string where "demo_pattern = ''a.{b}/x/{c:q}/*{d}''"

lemma demo_parse: "\<exists>p. parsePattern demo_cfg demo_pattern = Inr (p, 3)"
  by (rule exI) code_simp

theorem parsePattern_roundtrip_witness:
  "\<exists>p. parsePattern demo_cfg demo_pattern = Inr (p, 3) \<and> print_tokens (optionalCatchAll p) (ptokens p) = demo_pattern
     \<and> params_in (ptokens p) = 3"
proof -
  obtain p where p: "parsePattern demo_cfg demo_pattern = Inr (p, 3)" using demo_parse by blast
  from parsePattern_roundtrip [OF demo_keeps_source p] p show ?thesis by auto
qed

theorem parsePattern_tokens_witness:
  "\<exists>p. parsePattern demo_cfg demo_pattern = Inr (p, 3) \<and> toks_ok True (ptokens p)"
proof -
  obtain p where p: "parsePattern demo_cfg demo_pattern = Inr (p, 3)" using demo_parse by blast
  from parsePattern_tokens [OF demo_keeps_source p] p show ?thesis by blast
qed

theorem parsePattern_error_span_witness:
  "\<exists>pe. parsePattern demo_cfg ''/a//+{b}+{c}'' = Inl (Syntax pe) \<and> pe_End pe \<le> 12"
proof -
  have "\<exists>pe. parsePattern demo_cfg ''/a//+{b}+{c}'' = Inl (Syntax pe)" by (rule exI) code_simp
  then obtain pe where pe: "parsePattern demo_cfg ''/a//+{b}+{c}'' = Inl (Syntax pe)" by blast
  from parsePattern_error_span [OF pe] pe show ?thesis by auto
qed

end
