(* ===== verification/Config.thy ===== *)
theory Config
  imports Router_Txn Pattern_Parser
begin

text \<open>
  Configuration of the router and of a route: the state of \<open>Router\<close>, the options of \<open>options.go\<close>,
  \<open>NewRouter\<close>, \<open>NewRoute\<close> and \<open>applyMiddleware\<close> of \<open>fox.go\<close>, and \<open>Add\<close>, \<open>Update\<close> and \<open>Delete\<close> of \<open>txn.go\<close>,
  which build a route and hand it to the tree. A handler is a value of any type \<open>'hf\<close>, a middleware a
  function on handlers; \<open>None\<close> is nil.
\<close>

unbundle bit_operations_syntax

subsection \<open>Scopes and middleware\<close>

type_synonym scope = "8 word"

definition RouteHandler :: scope where "RouteHandler = push_bit 7 1"
definition NoRouteHandler :: scope where "NoRouteHandler = push_bit 6 1"
definition NoMethodHandler :: scope where "NoMethodHandler = push_bit 5 1"
definition RedirectSlashHandler :: scope where "RedirectSlashHandler = push_bit 4 1"
definition RedirectPathHandler :: scope where "RedirectPathHandler = push_bit 3 1"
definition OptionsHandler :: scope where "OptionsHandler = push_bit 2 1"
definition RejectPathHandler :: scope where "RejectPathHandler = push_bit 1 1"

definition AllHandlers :: scope where
  "AllHandlers = RouteHandler OR NoRouteHandler OR NoMethodHandler OR RedirectSlashHandler
     OR RedirectPathHandler OR OptionsHandler OR RejectPathHandler"

lemmas scope_defs = RouteHandler_def NoRouteHandler_def NoMethodHandler_def RedirectSlashHandler_def
  RedirectPathHandler_def OptionsHandler_def RejectPathHandler_def

type_synonym 'hf middleware = "('hf \<Rightarrow> 'hf) \<times> scope"

text \<open>The loop runs from the last middleware (index \<open>i - 1\<close> of the first \<open>i\<close>) to the first.\<close>

primrec apply_from :: "nat \<Rightarrow> scope \<Rightarrow> 'hf middleware list \<Rightarrow> 'hf \<Rightarrow> 'hf" where
  "apply_from 0 sc mws m = m"
| "apply_from (Suc i) sc mws m =
     apply_from i sc mws (if snd (mws ! i) AND sc \<noteq> 0 then fst (mws ! i) m else m)"

definition applyMiddleware :: "scope \<Rightarrow> 'hf middleware list \<Rightarrow> 'hf \<Rightarrow> 'hf" where
  "applyMiddleware sc mws h = apply_from (length mws) sc mws h"

lemma apply_from_append: "i \<le> length mws \<Longrightarrow> apply_from i sc (mws @ ys) m = apply_from i sc mws m"
  by (induction i arbitrary: m) (simp_all add: nth_append)

lemma applyMiddleware_snoc:
  "applyMiddleware sc (mws @ [mw]) h =
     applyMiddleware sc mws (if snd mw AND sc \<noteq> 0 then fst mw h else h)"
  by (simp add: applyMiddleware_def apply_from_append)

lemma applyMiddleware_foldr:
  "applyMiddleware sc mws h = foldr (\<lambda>mw. fst mw) (filter (\<lambda>mw. snd mw AND sc \<noteq> 0) mws) h"
  by (induction mws arbitrary: h rule: rev_induct)
    (simp_all add: applyMiddleware_snoc, simp add: applyMiddleware_def)

subsection \<open>The configuration of a router\<close>

datatype 'ip resolver = noClientIPResolver | Resolver 'ip

record ('hf, 'ip) config =
  cf_clientip :: "'ip resolver"
  cf_noRoute :: 'hf
  cf_noMethod :: 'hf
  cf_tsrRedirect :: 'hf
  cf_pathRedirect :: 'hf
  cf_pathReject :: 'hf
  cf_autoOPTIONS :: 'hf
  cf_mws :: "'hf middleware list"
  cf_maxParams :: nat
  cf_maxParamKeyBytes :: nat
  cf_maxMatchers :: nat
  cf_maxRegexpSize :: nat
  cf_handleSlash :: TrailingSlashOption
  cf_mergeSlash :: NormalizeOption
  cf_collapseDots :: NormalizeOption
  cf_hasNormalize :: bool
  cf_hasRedirectPath :: bool
  cf_handleMethodNotAllowed :: bool
  cf_handleOPTIONS :: bool
  cf_systemWideOPTIONS :: bool
  cf_allowRegexp :: bool

text \<open>The handlers the package provides, as arguments.\<close>

record 'hf defaults =
  DefaultNoRouteHandler :: 'hf
  DefaultNoMethodHandler :: 'hf
  DefaultOptionsHandler :: 'hf
  internalTrailingSlashHandler :: 'hf
  internalPathRedirectHandler :: 'hf
  DefaultRejectPathHandler :: 'hf

definition maxRegexpSize :: nat where "maxRegexpSize = 1000"

definition initRouter :: "'hf defaults \<Rightarrow> ('hf, 'ip) config" where
  "initRouter d =
     \<lparr>cf_clientip = noClientIPResolver, cf_noRoute = DefaultNoRouteHandler d,
      cf_noMethod = DefaultNoMethodHandler d, cf_tsrRedirect = internalTrailingSlashHandler d,
      cf_pathRedirect = internalPathRedirectHandler d, cf_pathReject = DefaultRejectPathHandler d,
      cf_autoOPTIONS = DefaultOptionsHandler d, cf_mws = [], cf_maxParams = 255, cf_maxParamKeyBytes = 255,
      cf_maxMatchers = 255, cf_maxRegexpSize = maxRegexpSize, cf_handleSlash = ExactSlash,
      cf_mergeSlash = ExactPath, cf_collapseDots = ExactPath, cf_hasNormalize = False,
      cf_hasRedirectPath = False, cf_handleMethodNotAllowed = False, cf_handleOPTIONS = False,
      cf_systemWideOPTIONS = True, cf_allowRegexp = False\<rparr>"

subsection \<open>A route under construction\<close>

text \<open>What the routing tree carries along unread: the field \<open>rhandlers\<close> of a route.\<close>

record ('hf, 'ip, 'k, 'v) payload =
  hbase :: "'hf option"
  hself :: "'hf option"
  hall :: "'hf option"
  rt_mws :: "'hf middleware list"
  rt_clientip :: "'ip resolver"
  annots :: "'k \<rightharpoonup> 'v"

type_synonym ('c, 'hf, 'ip, 'k, 'v) full_route = "('c, ('hf, 'ip, 'k, 'v) payload) route"

datatype config_error =
    ErrInvalidConfig string
  | ErrInvalidMatcher
  | ErrInvalidRouteOption string
  | ErrTooManyMatchers
  | ErrPattern parse_error
  | NilPointer

text \<open>\<open>sealedOption\<close>: exactly one of its two pointers is set.\<close>

datatype ('c, 'hf, 'ip, 'k, 'v) sealedOption =
    OnRouter "('hf, 'ip) config"
  | OnRoute "('c, 'hf, 'ip, 'k, 'v) full_route"

type_synonym ('c, 'hf, 'ip, 'k, 'v) option_func =
  "('c, 'hf, 'ip, 'k, 'v) sealedOption \<Rightarrow> config_error + ('c, 'hf, 'ip, 'k, 'v) sealedOption"

primrec set_router ::
  "(('hf, 'ip) config \<Rightarrow> config_error + ('hf, 'ip) config) \<Rightarrow> ('c, 'hf, 'ip, 'k, 'v) option_func" where
  "set_router f (OnRouter cf) = map_sum id OnRouter (f cf)"
| "set_router f (OnRoute rte) = Inl NilPointer"

primrec set_route ::
  "(('c, 'hf, 'ip, 'k, 'v) full_route \<Rightarrow> config_error + ('c, 'hf, 'ip, 'k, 'v) full_route)
   \<Rightarrow> ('c, 'hf, 'ip, 'k, 'v) option_func" where
  "set_route f (OnRouter cf) = Inl NilPointer"
| "set_route f (OnRoute rte) = map_sum id OnRoute (f rte)"
subsection \<open>Options of the router\<close>

definition WithNoRouteHandler :: "'hf option \<Rightarrow> ('c, 'hf, 'ip, 'k, 'v) option_func" where
  "WithNoRouteHandler handler = set_router (\<lambda>cf.
     case handler of None \<Rightarrow> Inl (ErrInvalidConfig ''no route handler cannot be nil'')
     | Some h \<Rightarrow> Inr (cf\<lparr>cf_noRoute := h\<rparr>))"

definition WithNoMethodHandler :: "'hf option \<Rightarrow> ('c, 'hf, 'ip, 'k, 'v) option_func" where
  "WithNoMethodHandler handler = set_router (\<lambda>cf.
     case handler of None \<Rightarrow> Inl (ErrInvalidConfig ''no method handler cannot be nil'')
     | Some h \<Rightarrow> Inr (cf\<lparr>cf_noMethod := h, cf_handleMethodNotAllowed := True\<rparr>))"

definition WithOptionsHandler :: "'hf option \<Rightarrow> ('c, 'hf, 'ip, 'k, 'v) option_func" where
  "WithOptionsHandler handler = set_router (\<lambda>cf.
     case handler of None \<Rightarrow> Inl (ErrInvalidConfig ''options handler cannot be nil'')
     | Some h \<Rightarrow> Inr (cf\<lparr>cf_autoOPTIONS := h, cf_handleOPTIONS := True\<rparr>))"

definition WithRejectPathHandler :: "'hf option \<Rightarrow> ('c, 'hf, 'ip, 'k, 'v) option_func" where
  "WithRejectPathHandler handler = set_router (\<lambda>cf.
     case handler of None \<Rightarrow> Inl (ErrInvalidConfig ''reject path handler cannot be nil'')
     | Some h \<Rightarrow> Inr (cf\<lparr>cf_pathReject := h\<rparr>))"

text \<open>The option values are the \<open>iota\<close> constants of an 8-bit type, which also has values past the last one.\<close>

definition slash_option :: "8 word \<Rightarrow> TrailingSlashOption option" where
  "slash_option opt =
     (if opt = 0 then Some ExactSlash else if opt = 1 then Some RelaxedSlash
      else if opt = 2 then Some RedirectSlash else None)"

definition normalize_option :: "8 word \<Rightarrow> NormalizeOption option" where
  "normalize_option opt =
     (if opt = 0 then Some ExactPath else if opt = 1 then Some NormalizePath
      else if opt = 2 then Some RedirectPath else None)"

definition WithTrailingSlash :: "8 word \<Rightarrow> ('c, 'hf, 'ip, 'k, 'v) option_func" where
  "WithTrailingSlash opt s =
     (case slash_option opt of
        None \<Rightarrow> Inl (ErrInvalidConfig ''invalid trailing slash option'')
      | Some v \<Rightarrow>
          (case s of
             OnRouter cf \<Rightarrow> Inr (OnRouter (cf\<lparr>cf_handleSlash := v\<rparr>))
           | OnRoute rte \<Rightarrow> Inr (OnRoute (rte\<lparr>rhandleSlash := v\<rparr>))))"

definition WithMergeSlashes :: "8 word \<Rightarrow> ('c, 'hf, 'ip, 'k, 'v) option_func" where
  "WithMergeSlashes opt = set_router (\<lambda>cf.
     case normalize_option opt of
       None \<Rightarrow> Inl (ErrInvalidConfig ''invalid merge slashes option'')
     | Some v \<Rightarrow> Inr (cf\<lparr>cf_mergeSlash := v\<rparr>))"

definition WithCollapseDotSegments :: "8 word \<Rightarrow> ('c, 'hf, 'ip, 'k, 'v) option_func" where
  "WithCollapseDotSegments opt = set_router (\<lambda>cf.
     case normalize_option opt of
       None \<Rightarrow> Inl (ErrInvalidConfig ''invalid collapse dot segments option'')
     | Some v \<Rightarrow> Inr (cf\<lparr>cf_collapseDots := v\<rparr>))"

definition WithMaxRouteParams :: "16 word \<Rightarrow> ('c, 'hf, 'ip, 'k, 'v) option_func" where
  "WithMaxRouteParams n = set_router (\<lambda>cf. Inr (cf\<lparr>cf_maxParams := unat n\<rparr>))"

definition WithMaxRouteParamKeyBytes :: "16 word \<Rightarrow> ('c, 'hf, 'ip, 'k, 'v) option_func" where
  "WithMaxRouteParamKeyBytes n = set_router (\<lambda>cf. Inr (cf\<lparr>cf_maxParamKeyBytes := unat n\<rparr>))"

definition WithMaxRouteMatchers :: "16 word \<Rightarrow> ('c, 'hf, 'ip, 'k, 'v) option_func" where
  "WithMaxRouteMatchers n = set_router (\<lambda>cf. Inr (cf\<lparr>cf_maxMatchers := unat n\<rparr>))"

definition WithMaxRegexpSize :: "16 word \<Rightarrow> ('c, 'hf, 'ip, 'k, 'v) option_func" where
  "WithMaxRegexpSize n = set_router (\<lambda>cf. Inr (cf\<lparr>cf_maxRegexpSize := unat n\<rparr>))"

definition WithAllowRegexpParam :: "bool \<Rightarrow> ('c, 'hf, 'ip, 'k, 'v) option_func" where
  "WithAllowRegexpParam enable = set_router (\<lambda>cf. Inr (cf\<lparr>cf_allowRegexp := enable\<rparr>))"

definition WithNoMethod :: "bool \<Rightarrow> ('c, 'hf, 'ip, 'k, 'v) option_func" where
  "WithNoMethod enable = set_router (\<lambda>cf. Inr (cf\<lparr>cf_handleMethodNotAllowed := enable\<rparr>))"

definition WithAutoOptions :: "bool \<Rightarrow> ('c, 'hf, 'ip, 'k, 'v) option_func" where
  "WithAutoOptions enable = set_router (\<lambda>cf. Inr (cf\<lparr>cf_handleOPTIONS := enable\<rparr>))"

definition WithSystemWideOptions :: "bool \<Rightarrow> ('c, 'hf, 'ip, 'k, 'v) option_func" where
  "WithSystemWideOptions enable = set_router (\<lambda>cf. Inr (cf\<lparr>cf_systemWideOPTIONS := enable\<rparr>))"

subsection \<open>Middleware and client IP\<close>

fun append_mws ::
  "scope \<Rightarrow> ('hf \<Rightarrow> 'hf) option list \<Rightarrow> 'hf middleware list \<Rightarrow> config_error + 'hf middleware list" where
  "append_mws sc [] mws = Inr mws"
| "append_mws sc (None # ms) mws = Inl (ErrInvalidConfig ''middleware cannot be nil'')"
| "append_mws sc (Some m # ms) mws = append_mws sc ms (mws @ [(m, sc)])"

definition WithMiddleware :: "('hf \<Rightarrow> 'hf) option list \<Rightarrow> ('c, 'hf, 'ip, 'k, 'v) option_func" where
  "WithMiddleware ms s =
     (case s of
        OnRouter cf \<Rightarrow> map_sum id (\<lambda>l. OnRouter (cf\<lparr>cf_mws := l\<rparr>)) (append_mws AllHandlers ms (cf_mws cf))
      | OnRoute rte \<Rightarrow>
          map_sum id (\<lambda>l. OnRoute (rte\<lparr>rhandlers := (rhandlers rte)\<lparr>rt_mws := l\<rparr>\<rparr>))
            (append_mws RouteHandler ms (rt_mws (rhandlers rte))))"

definition WithMiddlewareFor :: "scope \<Rightarrow> ('hf \<Rightarrow> 'hf) option list \<Rightarrow> ('c, 'hf, 'ip, 'k, 'v) option_func" where
  "WithMiddlewareFor sc ms = set_router (\<lambda>cf.
     if sc = 0 \<or> sc AND NOT AllHandlers \<noteq> 0 then Inl (ErrInvalidConfig ''invalid handler scope'')
     else map_sum id (\<lambda>l. cf\<lparr>cf_mws := l\<rparr>) (append_mws sc ms (cf_mws cf)))"

text \<open>\<open>Recovery\<close> and \<open>Logger\<close> over the pretty log handler are the arguments.\<close>

definition WithPrettyLogs :: "('hf \<Rightarrow> 'hf) \<Rightarrow> ('hf \<Rightarrow> 'hf) \<Rightarrow> ('c, 'hf, 'ip, 'k, 'v) option_func" where
  "WithPrettyLogs Recovery Logger = set_router (\<lambda>cf.
     Inr (cf\<lparr>cf_mws := [(Recovery, RouteHandler), (Logger, AllHandlers)] @ cf_mws cf\<rparr>))"

definition WithClientIPResolver :: "'ip option \<Rightarrow> ('c, 'hf, 'ip, 'k, 'v) option_func" where
  "WithClientIPResolver res s =
     (case s of
        OnRouter cf \<Rightarrow>
          (case res of
             None \<Rightarrow> Inl (ErrInvalidConfig ''client ip resolver cannot be nil'')
           | Some x \<Rightarrow> Inr (OnRouter (cf\<lparr>cf_clientip := Resolver x\<rparr>)))
      | OnRoute rte \<Rightarrow>
          Inr (OnRoute (rte\<lparr>rhandlers := (rhandlers rte)\<lparr>rt_clientip :=
            (case res of None \<Rightarrow> noClientIPResolver | Some x \<Rightarrow> Resolver x)\<rparr>\<rparr>)))"

subsection \<open>Options of a route\<close>

text \<open>Whether a key is \<open>Comparable\<close> (package \<open>reflect\<close>) is an argument.\<close>

definition WithAnnotation :: "('k \<Rightarrow> bool) \<Rightarrow> 'k option \<Rightarrow> 'v \<Rightarrow> ('c, 'hf, 'ip, 'k, 'v) option_func" where
  "WithAnnotation comparable key v = set_route (\<lambda>rte.
     case key of
       None \<Rightarrow> Inl (ErrInvalidConfig ''annotation key is nil'')
     | Some k \<Rightarrow>
         if \<not> comparable k then Inl (ErrInvalidConfig ''annotation key is not comparable'')
         else Inr (rte\<lparr>rhandlers := (rhandlers rte)\<lparr>annots := (annots (rhandlers rte))(k \<mapsto> v)\<rparr>\<rparr>))"

definition WithName :: "string \<Rightarrow> ('c, 'hf, 'ip, 'k, 'v) option_func" where
  "WithName name = set_route (\<lambda>rte.
     if name = '''' then Inl (ErrInvalidConfig ''empty route name'') else Inr (rte\<lparr>rname := name\<rparr>))"

definition WithMatchersPriority :: "64 word \<Rightarrow> ('c, 'hf, 'ip, 'k, 'v) option_func" where
  "WithMatchersPriority priority = set_route (\<lambda>rte. Inr (rte\<lparr>rpriority := unat priority\<rparr>))"

text \<open>The eight matcher options append the matcher that a constructor of \<open>matcher.go\<close> built, if it did.\<close>

definition append_matcher :: "'c matcher option \<Rightarrow> ('c, 'hf, 'ip, 'k, 'v) option_func" where
  "append_matcher built = set_route (\<lambda>rte.
     case built of None \<Rightarrow> Inl ErrInvalidMatcher | Some m \<Rightarrow> Inr (rte\<lparr>rmatchers := rmatchers rte @ [m]\<rparr>))"

definition WithQueryMatcher :: "string \<Rightarrow> string \<Rightarrow> ('c, 'hf, 'ip, 'k, 'v) option_func" where
  "WithQueryMatcher key v = append_matcher (MatchQuery key v)"

definition WithQueryRegexpMatcher ::
  "(string \<Rightarrow> bool) \<Rightarrow> (string \<Rightarrow> bool) \<Rightarrow> string \<Rightarrow> string \<Rightarrow> ('c, 'hf, 'ip, 'k, 'v) option_func" where
  "WithQueryRegexpMatcher parses too_large key expr = append_matcher (MatchQueryRegexp parses too_large key expr)"

definition WithHeaderMatcher ::
  "(string \<Rightarrow> bool) \<Rightarrow> (string \<Rightarrow> string) \<Rightarrow> string \<Rightarrow> string \<Rightarrow> ('c, 'hf, 'ip, 'k, 'v) option_func" where
  "WithHeaderMatcher valid canonicalHeaderKey key v = append_matcher (MatchHeader valid canonicalHeaderKey key v)"

definition WithHeaderRegexpMatcher ::
  "(string \<Rightarrow> bool) \<Rightarrow> (string \<Rightarrow> string) \<Rightarrow> (string \<Rightarrow> bool) \<Rightarrow> (string \<Rightarrow> bool) \<Rightarrow> string \<Rightarrow> string
   \<Rightarrow> ('c, 'hf, 'ip, 'k, 'v) option_func" where
  "WithHeaderRegexpMatcher valid canonicalHeaderKey parses too_large key expr =
     append_matcher (MatchHeaderRegexp valid canonicalHeaderKey parses too_large key expr)"

definition WithClientIPMatcher ::
  "(string \<Rightarrow> prefix option) \<Rightarrow> (string \<Rightarrow> addr option) \<Rightarrow> string \<Rightarrow> ('c, 'hf, 'ip, 'k, 'v) option_func" where
  "WithClientIPMatcher netip_ParsePrefix netip_ParseAddr ip =
     append_matcher (MatchClientIP netip_ParsePrefix netip_ParseAddr ip)"

definition WithSchemeMatcher :: "string \<Rightarrow> ('c, 'hf, 'ip, 'k, 'v) option_func" where
  "WithSchemeMatcher scheme = append_matcher (MatchScheme scheme)"

fun append_matchers ::
  "'c matcher option list \<Rightarrow> ('c, 'hf, 'ip, 'k, 'v) full_route
   \<Rightarrow> config_error + ('c, 'hf, 'ip, 'k, 'v) full_route" where
  "append_matchers [] rte = Inr rte"
| "append_matchers (None # ms) rte = Inl (ErrInvalidConfig ''matcher cannot be nil'')"
| "append_matchers (Some m # ms) rte = append_matchers ms (rte\<lparr>rmatchers := rmatchers rte @ [m]\<rparr>)"

definition WithMatcher :: "'c matcher option list \<Rightarrow> ('c, 'hf, 'ip, 'k, 'v) option_func" where
  "WithMatcher ms = set_route (append_matchers ms)"
subsection \<open>Building a router and a route\<close>

primrec apply_options ::
  "('c, 'hf, 'ip, 'k, 'v) option_func list \<Rightarrow> ('c, 'hf, 'ip, 'k, 'v) option_func" where
  "apply_options [] s = Inr s"
| "apply_options (opt # opts) s =
     (case opt s of Inl err \<Rightarrow> Inl err | Inr s \<Rightarrow> apply_options opts s)"

text \<open>The tree of a new router is \<open>newTree\<close>; its mutex is free.\<close>

definition NewRouter ::
  "'hf defaults \<Rightarrow> ('c, 'hf, 'ip, 'k, 'v) option_func list
   \<Rightarrow> config_error + ('hf, 'ip) config \<times> ('c, ('hf, 'ip, 'k, 'v) payload) router" where
  "NewRouter d opts =
     (case apply_options opts (OnRouter (initRouter d)) of
        Inl err \<Rightarrow> Inl err
      | Inr (OnRoute _) \<Rightarrow> Inl NilPointer
      | Inr (OnRouter cf) \<Rightarrow>
          let cf = cf\<lparr>cf_hasNormalize := cf_mergeSlash cf \<noteq> ExactPath \<or> cf_collapseDots cf \<noteq> ExactPath\<rparr>;
              cf = cf\<lparr>cf_hasRedirectPath := cf_mergeSlash cf = RedirectPath \<or> cf_collapseDots cf = RedirectPath\<rparr>;
              cf = cf\<lparr>cf_noRoute := applyMiddleware NoRouteHandler (cf_mws cf) (cf_noRoute cf)\<rparr>;
              cf = cf\<lparr>cf_noMethod := applyMiddleware NoMethodHandler (cf_mws cf) (cf_noMethod cf)\<rparr>;
              cf = cf\<lparr>cf_tsrRedirect := applyMiddleware RedirectSlashHandler (cf_mws cf) (cf_tsrRedirect cf)\<rparr>;
              cf = cf\<lparr>cf_pathRedirect := applyMiddleware RedirectPathHandler (cf_mws cf) (cf_pathRedirect cf)\<rparr>;
              cf = cf\<lparr>cf_pathReject := applyMiddleware RejectPathHandler (cf_mws cf) (cf_pathReject cf)\<rparr>;
              cf = cf\<lparr>cf_autoOPTIONS := applyMiddleware OptionsHandler (cf_mws cf) (cf_autoOPTIONS cf)\<rparr>
          in Inr (cf, new_router))"

text \<open>
  \<open>validMethod\<close> ranges over the runes of its argument; \<open>IsTokenRune\<close> of \<open>httpguts\<close> is an argument. An
  invalid encoding is the rune \<open>0xFFFD\<close> of width 1.
\<close>

definition rune_value :: "string \<Rightarrow> nat" where
  "rune_value s =
     (let p = (\<lambda>i. val (s ! i)); n = rune_size s in
      if n = 2 then (p 0 - 0xC0) * 64 + (p 1 - 0x80)
      else if n = 3 then ((p 0 - 0xE0) * 64 + (p 1 - 0x80)) * 64 + (p 2 - 0x80)
      else if n = 4 then (((p 0 - 0xF0) * 64 + (p 1 - 0x80)) * 64 + (p 2 - 0x80)) * 64 + (p 3 - 0x80)
      else if p 0 < 0x80 then p 0 else 0xFFFD)"

lemma rune_size_pos: "s \<noteq> [] \<Longrightarrow> 0 < rune_size s"
  by (simp add: rune_size_def Let_def)

function all_runes :: "(nat \<Rightarrow> bool) \<Rightarrow> string \<Rightarrow> bool" where
  "all_runes P s =
     (if s = [] then True
      else if \<not> P (rune_value s) then False
      else all_runes P (drop (rune_size s) s))"
  by auto
termination by (relation "measure (\<lambda>(_, s). length s)") (simp_all add: rune_size_pos)

declare all_runes.simps [simp del]

definition validMethod :: "(nat \<Rightarrow> bool) \<Rightarrow> string \<Rightarrow> bool" where
  "validMethod IsTokenRune method \<longleftrightarrow> 0 < length method \<and> all_runes IsTokenRune method"

fun first_invalid :: "(nat \<Rightarrow> bool) \<Rightarrow> string list \<Rightarrow> config_error option" where
  "first_invalid tok [] = None"
| "first_invalid tok (method # methods) =
     (if \<not> validMethod tok method
      then Some (ErrInvalidRouteOption (''invalid method '' @ CHR 0x27 # method @ [CHR 0x27]))
      else first_invalid tok methods)"

text \<open>The packages a route is built with: regular expressions and the token runes.\<close>

record libs =
  lib_regexp :: regexp_lib
  lib_IsTokenRune :: "nat \<Rightarrow> bool"

definition parser_of :: "libs \<Rightarrow> ('hf, 'ip) config \<Rightarrow> parse_config" where
  "parser_of lib cf =
     \<lparr>pc_maxParams = cf_maxParams cf, pc_maxParamKeyBytes = cf_maxParamKeyBytes cf,
      pc_maxRegexpSize = cf_maxRegexpSize cf, pc_allowRegexp = cf_allowRegexp cf,
      pc_mergeSlash = cf_mergeSlash cf, pc_regexp = lib_regexp lib\<rparr>"

primrec collect_tokens ::
  "token list \<Rightarrow> ('c, 'hf, 'ip, 'k, 'v) full_route \<Rightarrow> ('c, 'hf, 'ip, 'k, 'v) full_route" where
  "collect_tokens [] rte = rte"
| "collect_tokens (tk # tks) rte =
     (let rte = (if ttyp tk \<noteq> nodeStatic then rte\<lparr>rparams := rparams rte @ [tvalue tk]\<rparr> else rte)
      in collect_tokens tks (rte\<lparr>rnested := rnested rte \<or> tnested tk\<rparr>))"

text \<open>\<open>slices.Sort\<close> and \<open>slices.Compact\<close>.\<close>

definition own_methods :: "string list \<Rightarrow> string list" where
  "own_methods methods = (if length methods > 0 then remdups_adj (sort methods) else [])"

definition blank_route ::
  "pattern \<Rightarrow> TrailingSlashOption \<Rightarrow> 'hf option \<Rightarrow> 'ip resolver \<Rightarrow> ('c, 'hf, 'ip, 'k, 'v) full_route" where
  "blank_route pat slash handler clientip =
     \<lparr>rname = '''', rmethods = [], rparams = [], rmatchers = [], rmethodFast = '''', rpattern = pat,
      rpriority = 0, rhandleSlash = slash, rnested = False,
      rhandlers = \<lparr>hbase = handler, hself = None, hall = None, rt_mws = [], rt_clientip = clientip,
        annots = Map.empty\<rparr>\<rparr>"

definition finish_route ::
  "('hf, 'ip) config \<Rightarrow> string list \<Rightarrow> 'hf \<Rightarrow> ('c, 'hf, 'ip, 'k, 'v) full_route
   \<Rightarrow> config_error + ('c, 'hf, 'ip, 'k, 'v) full_route" where
  "finish_route cf methods handler rte =
     (if length (rmatchers rte) > cf_maxMatchers cf then Inl ErrTooManyMatchers
      else if hasDuplicateMatcher (rmatchers rte) then Inl (ErrInvalidRouteOption ''duplicate matcher'')
      else if length (rmatchers rte) = 0 \<and> rpriority rte > 0
      then Inl (ErrInvalidRouteOption ''priority requires matchers'')
      else if rhandleSlash rte = RedirectSlash \<and> has_prefix (Path rte) ''//''
      then Inl (ErrInvalidRouteOption (''unsafe trailing slash redirect on path starting with '' @
             [CHR 0x27] @ ''//'' @ [CHR 0x27]))
      else
        let rte = rte\<lparr>rpriority := (if rpriority rte \<noteq> 0 then rpriority rte else length (rmatchers rte))\<rparr>;
            self = applyMiddleware RouteHandler (rt_mws (rhandlers rte)) handler;
            all = applyMiddleware RouteHandler (cf_mws cf) self;
            rte = rte\<lparr>rhandlers := (rhandlers rte)\<lparr>hself := Some self, hall := Some all\<rparr>\<rparr>;
            rte = rte\<lparr>rmethods := own_methods methods\<rparr>;
            rte = (if length (rmethods rte) = 1 \<and> length (rmatchers rte) = 0
                   then rte\<lparr>rmethodFast := rmethods rte ! 0\<rparr> else rte)
        in Inr rte)"

definition NewRoute ::
  "libs \<Rightarrow> ('hf, 'ip) config \<Rightarrow> string list \<Rightarrow> string \<Rightarrow> 'hf option \<Rightarrow> ('c, 'hf, 'ip, 'k, 'v) option_func list
   \<Rightarrow> config_error + ('c, 'hf, 'ip, 'k, 'v) full_route" where
  "NewRoute lib cf methods pattern handler opts =
     (case handler of
        None \<Rightarrow> Inl (ErrInvalidRouteOption ''nil handler'')
      | Some h \<Rightarrow>
          (case first_invalid (lib_IsTokenRune lib) methods of
             Some err \<Rightarrow> Inl err
           | None \<Rightarrow>
               (case parsePattern (parser_of lib cf) pattern of
                  Inl err \<Rightarrow> Inl (ErrPattern err)
                | Inr (pat, paramsCnt) \<Rightarrow>
                    let rte = collect_tokens (ptokens pat) (blank_route pat (cf_handleSlash cf) handler (cf_clientip cf))
                    in (case apply_options opts (OnRoute rte) of
                          Inl err \<Rightarrow> Inl err
                        | Inr (OnRouter _) \<Rightarrow> Inl NilPointer
                        | Inr (OnRoute rte) \<Rightarrow> finish_route cf methods h rte))))"

text \<open>The route \<open>Delete\<close> searches for: pattern, matchers and methods only.\<close>

definition delete_key ::
  "libs \<Rightarrow> ('hf, 'ip) config \<Rightarrow> string list \<Rightarrow> string \<Rightarrow> ('c, 'hf, 'ip, 'k, 'v) option_func list
   \<Rightarrow> config_error + ('c, 'hf, 'ip, 'k, 'v) full_route" where
  "delete_key lib cf methods pattern opts =
     (case first_invalid (lib_IsTokenRune lib) methods of
        Some err \<Rightarrow> Inl err
      | None \<Rightarrow>
          (case parsePattern (parser_of lib cf) pattern of
             Inl err \<Rightarrow> Inl (ErrPattern err)
           | Inr (pat, _) \<Rightarrow>
               (case apply_options opts (OnRoute (blank_route pat ExactSlash None noClientIPResolver)) of
                  Inl err \<Rightarrow> Inl err
                | Inr (OnRouter _) \<Rightarrow> Inl NilPointer
                | Inr (OnRoute rte) \<Rightarrow>
                    if length (rmatchers rte) > cf_maxMatchers cf then Inl ErrTooManyMatchers
                    else if hasDuplicateMatcher (rmatchers rte) then Inl (ErrInvalidRouteOption ''duplicate matcher'')
                    else Inr (rte\<lparr>rmethods := own_methods methods\<rparr>))))"

subsection \<open>Add, Update and Delete\<close>

datatype ('c, 'h) call_error = ErrConfig config_error | ErrApi "('c, 'h) api_error"

type_synonym ('c, 'h, 'a) call = "('c, 'h) handle \<Rightarrow> (('c, 'h) handle \<times> (('c, 'h) call_error + 'a)) option"

definition on_built ::
  "(config_error + ('c, 'h) route) \<Rightarrow> (('c, 'h) tXn \<Rightarrow> ('c, 'h) route \<Rightarrow> ('c, 'h) tXn \<times> (('c, 'h) error + 'a))
   \<Rightarrow> ('c, 'h, 'a) call" where
  "on_built built apply_to x =
     (case rootTxn x of
        None \<Rightarrow> None
      | Some t \<Rightarrow> Some
          (if \<not> xwrite x then (x, Inl (ErrApi ErrReadOnlyTxn))
           else (case built of
                   Inl err \<Rightarrow> (x, Inl (ErrConfig err))
                 | Inr rte \<Rightarrow>
                     (case apply_to t rte of
                        (t', Inl err) \<Rightarrow> (x\<lparr>rootTxn := Some t'\<rparr>, Inl (ErrApi (ErrTree err)))
                      | (t', Inr v) \<Rightarrow> (x\<lparr>rootTxn := Some t'\<rparr>, Inr v)))))"

definition insert_built ::
  "insertMode \<Rightarrow> ('c, 'h) tXn \<Rightarrow> ('c, 'h) route \<Rightarrow> ('c, 'h) tXn \<times> (('c, 'h) error + ('c, 'h) route)" where
  "insert_built mode t rte =
     (case insert_route t rte mode of (t', Some err) \<Rightarrow> (t', Inl err) | (t', None) \<Rightarrow> (t', Inr rte))"

definition delete_built ::
  "('c, 'h) tXn \<Rightarrow> ('c, 'h) route \<Rightarrow> ('c, 'h) tXn \<times> (('c, 'h) error + ('c, 'h) route)" where
  "delete_built t rte =
     (case delete_route t rte of
        (t', None) \<Rightarrow> (t', Inl (RouteNotFoundError rte)) | (t', Some old) \<Rightarrow> (t', Inr old))"

definition Txn_Add where
  "Txn_Add lib cf x methods pattern handler opts =
     on_built (NewRoute lib cf methods pattern handler opts) (insert_built modeInsert) x"

definition Txn_Update where
  "Txn_Update lib cf x methods pattern handler opts =
     on_built (NewRoute lib cf methods pattern handler opts) (insert_built modeUpdate) x"

definition Txn_Delete where
  "Txn_Delete lib cf x methods pattern opts =
     on_built (delete_key lib cf methods pattern opts) delete_built x"

definition Router_Add where
  "Router_Add lib cf f methods pattern handler opts =
     managed f (\<lambda>x. Txn_Add lib cf x methods pattern handler opts)"

definition Router_Update where
  "Router_Update lib cf f methods pattern handler opts =
     managed f (\<lambda>x. Txn_Update lib cf x methods pattern handler opts)"

definition Router_Delete where
  "Router_Delete lib cf f methods pattern opts =
     managed f (\<lambda>x. Txn_Delete lib cf x methods pattern opts)"
section \<open>What the options keep\<close>

text \<open>
  \<open>RouteOption\<close> and \<open>MatcherOption\<close> are sealed: only the package builds them. They never change what the
  parser and \<open>NewRoute\<close> decide of a route, and on a route they never return a router.
\<close>

inductive route_option :: "('c, 'hf, 'ip, 'k, 'v) option_func \<Rightarrow> bool" where
  "route_option (WithTrailingSlash opt)"
| "route_option (WithMiddleware ms)"
| "route_option (WithClientIPResolver res)"
| "route_option (WithAnnotation comparable key v)"
| "route_option (WithName name)"
| "route_option (WithMatchersPriority priority)"
| "route_option (WithQueryMatcher key v)"
| "route_option (WithQueryRegexpMatcher parses too_large key expr)"
| "route_option (WithHeaderMatcher valid ck key v)"
| "route_option (WithHeaderRegexpMatcher valid ck parses too_large key expr)"
| "route_option (WithClientIPMatcher parse_prefix parse_addr ip)"
| "route_option (WithSchemeMatcher scheme)"
| "route_option (WithMatcher matchers)"

inductive matcher_option :: "('c, 'hf, 'ip, 'k, 'v) option_func \<Rightarrow> bool" where
  "matcher_option (WithQueryMatcher key v)"
| "matcher_option (WithQueryRegexpMatcher parses too_large key expr)"
| "matcher_option (WithHeaderMatcher valid ck key v)"
| "matcher_option (WithHeaderRegexpMatcher valid ck parses too_large key expr)"
| "matcher_option (WithClientIPMatcher parse_prefix parse_addr ip)"
| "matcher_option (WithSchemeMatcher scheme)"
| "matcher_option (WithMatcher matchers)"

definition same_core :: "('c, 'hf, 'ip, 'k, 'v) full_route \<Rightarrow> ('c, 'hf, 'ip, 'k, 'v) full_route \<Rightarrow> bool" where
  "same_core rte rte' \<longleftrightarrow>
     rpattern rte' = rpattern rte \<and> rmethods rte' = rmethods rte \<and> rparams rte' = rparams rte
     \<and> rmethodFast rte' = rmethodFast rte \<and> rnested rte' = rnested rte
     \<and> hbase (rhandlers rte') = hbase (rhandlers rte)"

definition keeps_core :: "('c, 'hf, 'ip, 'k, 'v) option_func \<Rightarrow> bool" where
  "keeps_core opt \<longleftrightarrow> (\<forall>rte s. opt (OnRoute rte) = Inr s \<longrightarrow> (\<exists>rte'. s = OnRoute rte' \<and> same_core rte rte'))"

definition only_matchers :: "('c, 'hf, 'ip, 'k, 'v) option_func \<Rightarrow> bool" where
  "only_matchers opt \<longleftrightarrow>
     (\<forall>rte s. opt (OnRoute rte) = Inr s \<longrightarrow> (\<exists>ms. s = OnRoute (rte\<lparr>rmatchers := ms\<rparr>)))"

lemma append_matchers_only: "append_matchers ms rte = Inr rte' \<Longrightarrow> \<exists>l. rte' = rte\<lparr>rmatchers := l\<rparr>"
proof (induction ms rte rule: append_matchers.induct)
  case (1 rte)
  then show ?case by (metis append_matchers.simps(1) route.surjective route.update_convs(4) sum.inject(2))
next
  case (3 m ms rte)
  then show ?case by fastforce
qed simp

lemma append_matcher_only: "append_matcher built (OnRoute rte) = Inr s \<Longrightarrow> \<exists>l. s = OnRoute (rte\<lparr>rmatchers := l\<rparr>)"
  by (auto simp: append_matcher_def split: option.splits)

lemmas matcher_option_defs = WithQueryMatcher_def WithQueryRegexpMatcher_def WithHeaderMatcher_def
  WithHeaderRegexpMatcher_def WithClientIPMatcher_def WithSchemeMatcher_def

lemma WithMatcher_only: "only_matchers (WithMatcher ms :: ('c, 'hf, 'ip, 'k, 'v) option_func)"
  unfolding only_matchers_def
proof (intro allI impI)
  fix rte :: "('c, 'hf, 'ip, 'k, 'v) full_route" and s
  assume "WithMatcher ms (OnRoute rte) = Inr s"
  then show "\<exists>l. s = OnRoute (rte\<lparr>rmatchers := l\<rparr>)"
    using append_matchers_only [of ms rte] by (cases "append_matchers ms rte") (auto simp: WithMatcher_def)
qed

lemma matcher_option_only: "matcher_option opt \<Longrightarrow> only_matchers opt"
  by (induction rule: matcher_option.induct)
    (simp_all add: WithMatcher_only, simp_all add: only_matchers_def matcher_option_defs append_matcher_only)

lemma only_matchers_keeps: "only_matchers opt \<Longrightarrow> keeps_core opt"
  unfolding only_matchers_def keeps_core_def by (fastforce simp: same_core_def)

lemma matcher_option_keeps: "matcher_option opt \<Longrightarrow> keeps_core opt"
  by (rule only_matchers_keeps [OF matcher_option_only])

lemma WithMiddleware_keeps: "keeps_core (WithMiddleware ms :: ('c, 'hf, 'ip, 'k, 'v) option_func)"
  unfolding keeps_core_def
proof (intro allI impI)
  fix rte :: "('c, 'hf, 'ip, 'k, 'v) full_route" and s
  assume "WithMiddleware ms (OnRoute rte) = Inr s"
  then show "\<exists>rte'. s = OnRoute rte' \<and> same_core rte rte'"
    by (cases "append_mws RouteHandler ms (rt_mws (rhandlers rte))") (auto simp: WithMiddleware_def same_core_def)
qed

lemma route_option_keeps: "route_option opt \<Longrightarrow> keeps_core opt"
proof (induction rule: route_option.induct)
  case (1 opt)
  show ?case by (auto simp: keeps_core_def WithTrailingSlash_def same_core_def split: option.splits)
next
  case (2 ms)
  show ?case by (rule WithMiddleware_keeps)
next
  case (3 res)
  show ?case by (auto simp: keeps_core_def WithClientIPResolver_def same_core_def)
next
  case (4 comparable key v)
  show ?case by (auto simp: keeps_core_def WithAnnotation_def same_core_def split: option.splits if_splits)
next
  case (5 name)
  show ?case by (auto simp: keeps_core_def WithName_def same_core_def)
next
  case (6 priority)
  show ?case by (auto simp: keeps_core_def WithMatchersPriority_def same_core_def)
qed (intro matcher_option_keeps matcher_option.intros)+

lemma same_core_trans: "same_core a b \<Longrightarrow> same_core b c \<Longrightarrow> same_core a c"
  by (simp add: same_core_def)

lemma apply_options_keeps:
  assumes "\<And>opt. opt \<in> set opts \<Longrightarrow> keeps_core opt" and "apply_options opts (OnRoute rte) = Inr s"
  shows "\<exists>rte'. s = OnRoute rte' \<and> same_core rte rte'"
  using assms
proof (induction opts arbitrary: rte)
  case Nil
  then show ?case by (auto simp: same_core_def)
next
  case (Cons opt opts)
  then obtain s1 where s1: "opt (OnRoute rte) = Inr s1" "apply_options opts s1 = Inr s"
    by (auto split: sum.splits)
  with Cons.prems(1) obtain r1 where r1: "s1 = OnRoute r1" "same_core rte r1"
    unfolding keeps_core_def by (metis list.set_intros(1))
  with Cons.IH [of r1] Cons.prems(1) s1 show ?case by (metis list.set_intros(2) same_core_trans)
qed
section \<open>What NewRoute builds\<close>

lemma collect_tokens_eq:
  "collect_tokens tks rte =
     rte\<lparr>rparams := rparams rte @ map tvalue (filter (\<lambda>tk. ttyp tk \<noteq> nodeStatic) tks),
         rnested := rnested rte \<or> (\<exists>tk \<in> set tks. tnested tk)\<rparr>"
  by (induction tks arbitrary: rte) (simp_all add: Let_def)

lemma remdups_adj_sorted: "sorted (xs :: 'a :: linorder list) \<Longrightarrow> sorted (remdups_adj xs) \<and> distinct (remdups_adj xs)"
  by (induction xs rule: remdups_adj.induct) (auto simp: order.order_iff_strict)

lemma own_methods_props:
  "sorted (own_methods ms)" "distinct (own_methods ms)" "set (own_methods ms) = set ms"
  using remdups_adj_sorted [of "sort ms"] by (auto simp: own_methods_def)

text \<open>The pattern the router's parser gives for a string: what ties the registered routes to their patterns.\<close>

definition pattern_of :: "libs \<Rightarrow> ('hf, 'ip) config \<Rightarrow> string \<Rightarrow> pattern" where
  "pattern_of lib cf s =
     (case parsePattern (parser_of lib cf) s of
        Inr (p, _) \<Rightarrow> p
      | Inl _ \<Rightarrow> \<lparr>pstr = s, ptokens = [], optionalCatchAll = False, catchAll = False, endHost = 0, hostParams = 0\<rparr>)"

lemma NewRoute_InrE:
  assumes "NewRoute lib cf methods pattern handler opts = Inr rte"
    and "\<And>opt. opt \<in> set opts \<Longrightarrow> keeps_core opt"
  obtains h pat n rte0 where "handler = Some h" "first_invalid (lib_IsTokenRune lib) methods = None"
    "parsePattern (parser_of lib cf) pattern = Inr (pat, n)"
    "same_core (collect_tokens (ptokens pat) (blank_route pat (cf_handleSlash cf) handler (cf_clientip cf))) rte0"
    "finish_route cf methods h rte0 = Inr rte"
proof -
  obtain h where h: "handler = Some h" using assms(1) by (cases handler) (simp_all add: NewRoute_def)
  have fi: "first_invalid (lib_IsTokenRune lib) methods = None"
    using assms(1) h by (cases "first_invalid (lib_IsTokenRune lib) methods") (simp_all add: NewRoute_def)
  obtain pat n where p: "parsePattern (parser_of lib cf) pattern = Inr (pat, n)"
    using assms(1) h fi by (cases "parsePattern (parser_of lib cf) pattern") (auto simp: NewRoute_def)
  let ?r = "collect_tokens (ptokens pat) (blank_route pat (cf_handleSlash cf) handler (cf_clientip cf))"
  obtain s where s: "apply_options opts (OnRoute ?r) = Inr s"
    using assms(1) h fi p by (cases "apply_options opts (OnRoute ?r)") (simp_all add: NewRoute_def Let_def)
  then obtain r0 where r0: "s = OnRoute r0" "same_core ?r r0"
    using apply_options_keeps [OF assms(2)] by blast
  with assms(1) h fi p s have "finish_route cf methods h r0 = Inr rte" by (simp add: NewRoute_def Let_def)
  with that h fi p r0 show thesis by blast
qed

lemma finish_route_Inr:
  assumes "finish_route cf methods h r0 = Inr rte"
  shows "rpattern rte = rpattern r0" "rmatchers rte = rmatchers r0" "rparams rte = rparams r0" "rnested rte = rnested r0"
    and "rname rte = rname r0" "rhandleSlash rte = rhandleSlash r0"
    and "rmethods rte = own_methods methods" "distinct (rmatchers rte)" "length (rmatchers rte) \<le> cf_maxMatchers cf"
    and "rpriority rte = 0 \<longleftrightarrow> rmatchers rte = []"
    and "\<not> (rhandleSlash rte = RedirectSlash \<and> has_prefix (Path rte) ''//'')"
    and "hbase (rhandlers rte) = hbase (rhandlers r0)" "rt_mws (rhandlers rte) = rt_mws (rhandlers r0)"
    and "hself (rhandlers rte) = Some (applyMiddleware RouteHandler (rt_mws (rhandlers r0)) h)"
    and "hall (rhandlers rte) = map_option (applyMiddleware RouteHandler (cf_mws cf)) (hself (rhandlers rte))"
    and "rmethodFast rte = (if length (own_methods methods) = 1 \<and> rmatchers rte = [] then own_methods methods ! 0 else rmethodFast r0)"
  using assms by (auto simp: finish_route_def Let_def hasDuplicateMatcher_iff Path_def split: if_splits)

lemma NewRoute_facts:
  assumes lib: "keeps_source (lib_regexp lib)"
    and new: "NewRoute lib cf methods pattern handler opts = Inr rte"
    and opts: "\<And>opt. opt \<in> set opts \<Longrightarrow> keeps_core opt"
  shows "route_ok (pattern_of lib cf) rte" "rpattern rte = pattern_of lib cf pattern" "pstr (rpattern rte) = pattern"
    and "set (rmethods rte) = set methods" "distinct (rmatchers rte)" "length (rmatchers rte) \<le> cf_maxMatchers cf"
    and "rparams rte = map tvalue (filter (\<lambda>tk. ttyp tk \<noteq> nodeStatic) (ptokens (rpattern rte)))"
    and "length (rparams rte) \<le> cf_maxParams cf"
    and "rnested rte \<longleftrightarrow> (\<exists>tk \<in> set (ptokens (rpattern rte)). tnested tk)"
    and "rpriority rte = 0 \<longleftrightarrow> rmatchers rte = []"
    and "\<not> (rhandleSlash rte = RedirectSlash \<and> has_prefix (Path rte) ''//'')"
    and "hbase (rhandlers rte) = handler"
    and "hself (rhandlers rte) = map_option (applyMiddleware RouteHandler (rt_mws (rhandlers rte))) handler"
    and "hall (rhandlers rte) = map_option (applyMiddleware RouteHandler (cf_mws cf)) (hself (rhandlers rte))"
    and "handler \<noteq> None" "\<exists>n. parsePattern (parser_of lib cf) pattern = Inr (rpattern rte, n)"
    and "rmethods rte = own_methods methods"
proof -
  obtain h pat n r0 where N: "handler = Some h" "parsePattern (parser_of lib cf) pattern = Inr (pat, n)"
    "same_core (collect_tokens (ptokens pat) (blank_route pat (cf_handleSlash cf) handler (cf_clientip cf))) r0"
    "finish_route cf methods h r0 = Inr rte"
    by (rule NewRoute_InrE [OF new opts])
  have src: "keeps_source (pc_regexp (parser_of lib cf))" using lib by (simp add: parser_of_def)
  note P = parsePattern_toks_ok [OF src N(2)]
  note F = finish_route_Inr [OF N(4)]
  have core: "rpattern r0 = pat" "rparams r0 = map tvalue (filter (\<lambda>tk. ttyp tk \<noteq> nodeStatic) (ptokens pat))"
    "rnested r0 \<longleftrightarrow> (\<exists>tk \<in> set (ptokens pat). tnested tk)" "rmethodFast r0 = ''''" "hbase (rhandlers r0) = handler"
    using N(3) by (auto simp: same_core_def collect_tokens_eq blank_route_def)
  have "pattern_of lib cf pattern = pat" using N(2) by (simp add: pattern_of_def)
  then show pat: "rpattern rte = pattern_of lib cf pattern" and "pstr (rpattern rte) = pattern"
    using F(1) core(1) P(3) by simp_all
  with F core P show "route_ok (pattern_of lib cf) rte"
    by (auto simp: route_ok_def own_methods_props catch_all_ok_def fast_ok_def length_1_conv)
  show "length (rparams rte) \<le> cf_maxParams cf"
    using F(3) core(2) P(4,5) by (simp add: params_in_def parser_of_def)
  show "set (rmethods rte) = set methods" using F(7) by (simp add: own_methods_props)
  show "hself (rhandlers rte) = map_option (applyMiddleware RouteHandler (rt_mws (rhandlers rte))) handler"
    using F N(1) by simp
  show "\<exists>n. parsePattern (parser_of lib cf) pattern = Inr (rpattern rte, n)"
    using N(2) F(1) core(1) by simp
  show "hall (rhandlers rte) = map_option (applyMiddleware RouteHandler (cf_mws cf)) (hself (rhandlers rte))"
    by (rule F)
  show "distinct (rmatchers rte)" "length (rmatchers rte) \<le> cf_maxMatchers cf" "rpriority rte = 0 \<longleftrightarrow> rmatchers rte = []"
    "\<not> (rhandleSlash rte = RedirectSlash \<and> has_prefix (Path rte) ''//'')" "rmethods rte = own_methods methods"
    by (rule F)+
  show "rparams rte = map tvalue (filter (\<lambda>tk. ttyp tk \<noteq> nodeStatic) (ptokens (rpattern rte)))"
    "rnested rte \<longleftrightarrow> (\<exists>tk \<in> set (ptokens (rpattern rte)). tnested tk)" "hbase (rhandlers rte) = handler" "handler \<noteq> None"
    using F core N(1) by simp_all
qed
section \<open>The calls of the router\<close>

lemma managed_on_built:
  assumes "\<not> mu f"
  shows "managed f (on_built built apply_to) =
     Some (case built of
       Inl e \<Rightarrow> (f, Inl (ErrConfig e))
     | Inr rte \<Rightarrow>
         (case apply_to (txn (tree f)) rte of
            (t', Inl e) \<Rightarrow> (f, Inl (ErrApi (ErrTree e)))
          | (t', Inr v) \<Rightarrow> (\<lparr>tree = fst (commit t'), mu = False\<rparr>, Inr v)))"
proof (cases built)
  case (Inl e)
  have "managed f (on_built built apply_to) = Some (f, Inl (ErrConfig e))"
    by (subst managed_cases [OF assms, where t = "txn (tree f)" and res = "Inl (ErrConfig e)"
          and x' = "\<lparr>rootTxn = Some (txn (tree f)), xwrite = True\<rparr>"])
      (simp_all add: on_built_def Inl)
  with Inl show ?thesis by simp
next
  case (Inr rte)
  obtain t' r where r: "apply_to (txn (tree f)) rte = (t', r)" by fastforce
  let ?res = "case r of Inl e \<Rightarrow> Inl (ErrApi (ErrTree e)) | Inr v \<Rightarrow> Inr v"
  have "managed f (on_built built apply_to) =
     Some (case ?res of Inl e \<Rightarrow> (f, Inl e) | Inr v \<Rightarrow> (\<lparr>tree = fst (commit t'), mu = False\<rparr>, Inr v))"
    by (rule managed_cases [OF assms]) (auto simp: on_built_def Inr r split: sum.splits)
  then show ?thesis by (simp add: Inr r split: sum.splits)
qed

lemma published_commit: "published \<lparr>tree = fst (commit t), mu = m\<rparr> = registered t"
  by (simp add: published_def handles_registered)

lemma Router_Add_facts:
  assumes lib: "keeps_source (lib_regexp lib)" and opts: "\<And>opt. opt \<in> set opts \<Longrightarrow> route_option opt"
    and f: "tree_inv (pattern_of lib cf) (tree f)" "\<not> mu f"
    and new: "NewRoute lib cf methods pattern handler opts = Inr rte"
  shows "\<exists>f' res. Router_Add lib cf f methods pattern handler opts = Some (f', res)
    \<and> tree_inv (pattern_of lib cf) (tree f')
    \<and> \<not> mu f'
    \<and> published f' = abs_add rte (published f)
    \<and> (res = Inr rte \<longleftrightarrow> (\<forall>r \<in> published f. \<not> route_clash rte r \<and> \<not> name_clash rte r))
    \<and> (\<forall>e. res = Inl e \<longrightarrow> f' = f \<and> (\<exists>err. e = ErrApi (ErrTree err) \<and> insert_error (published f) rte err))
    \<and> (\<forall>r. res = Inr r \<longrightarrow> r = rte)"
proof -
  have rok: "route_ok (pattern_of lib cf) rte" by (rule NewRoute_facts(1) [OF lib new route_option_keeps [OF opts]])
  let ?t = "txn (tree f)"
  have t: "txn_inv (pattern_of lib cf) ?t" and pub: "registered ?t = published f"
    using f(1) by (simp_all add: handles_inv published_def handles_registered)
  obtain t' err where r: "insert_route ?t rte modeInsert = (t', err)" by fastforce
  note I = insert_refines_facts [OF t rok, unfolded r pub fst_conv snd_conv]
    and A = insert_route_registered(1) [OF t rok, unfolded r pub fst_conv]
  show ?thesis
  proof (cases err)
    case None
    have "Router_Add lib cf f methods pattern handler opts = Some (\<lparr>tree = fst (commit t'), mu = False\<rparr>, Inr rte)"
      by (simp add: Router_Add_def Txn_Add_def managed_on_built [OF f(2)] new insert_built_def r None)
    then show ?thesis
      using I A None by (simp add: handles_inv published_commit)
  next
    case (Some e)
    have "Router_Add lib cf f methods pattern handler opts = Some (f, Inl (ErrApi (ErrTree e)))"
      by (simp add: Router_Add_def Txn_Add_def managed_on_built [OF f(2)] new insert_built_def r Some)
    moreover have "published f = abs_add rte (published f)"
      using A I(4) [OF Some] pub registered_mode [of _ ?t] by simp
    ultimately show ?thesis
      using I(1) I(4) [OF Some] Some f by auto
  qed
qed

lemma Router_Update_facts:
  assumes lib: "keeps_source (lib_regexp lib)" and opts: "\<And>opt. opt \<in> set opts \<Longrightarrow> route_option opt"
    and f: "tree_inv (pattern_of lib cf) (tree f)" "\<not> mu f"
    and new: "NewRoute lib cf methods pattern handler opts = Inr rte"
  shows "\<exists>f' res. Router_Update lib cf f methods pattern handler opts = Some (f', res)
    \<and> tree_inv (pattern_of lib cf) (tree f')
    \<and> \<not> mu f'
    \<and> published f' = abs_update rte (published f)
    \<and> (res = Inr rte \<longleftrightarrow> (\<exists>old \<in> published f. identical rte old
       \<and> (\<forall>r \<in> published f. r \<noteq> old \<longrightarrow> \<not> name_clash rte r)))
    \<and> (\<forall>e. res = Inl e \<longrightarrow> f' = f \<and> (\<exists>err. e = ErrApi (ErrTree err) \<and> update_error (published f) rte err))
    \<and> (\<forall>r. res = Inr r \<longrightarrow> r = rte)"
proof -
  have rok: "route_ok (pattern_of lib cf) rte" by (rule NewRoute_facts(1) [OF lib new route_option_keeps [OF opts]])
  let ?t = "txn (tree f)"
  have t: "txn_inv (pattern_of lib cf) ?t" and pub: "registered ?t = published f"
    using f(1) by (simp_all add: handles_inv published_def handles_registered)
  obtain t' err where r: "insert_route ?t rte modeUpdate = (t', err)" by fastforce
  note I = update_refines_facts [OF t rok, unfolded r pub fst_conv snd_conv]
    and A = insert_route_registered(2) [OF t rok, unfolded r pub fst_conv]
  show ?thesis
  proof (cases err)
    case None
    have "Router_Update lib cf f methods pattern handler opts = Some (\<lparr>tree = fst (commit t'), mu = False\<rparr>, Inr rte)"
      by (simp add: Router_Update_def Txn_Update_def managed_on_built [OF f(2)] new insert_built_def r None)
    then show ?thesis
      using I A None by (simp add: handles_inv published_commit)
  next
    case (Some e)
    have "Router_Update lib cf f methods pattern handler opts = Some (f, Inl (ErrApi (ErrTree e)))"
      by (simp add: Router_Update_def Txn_Update_def managed_on_built [OF f(2)] new insert_built_def r Some)
    moreover have "published f = abs_update rte (published f)"
      using A I(4) [OF Some] pub registered_mode [of _ ?t] by simp
    ultimately show ?thesis
      using I(1) I(4) [OF Some] Some f by auto
  qed
qed

lemma delete_key_facts:
  assumes lib: "keeps_source (lib_regexp lib)" and opts: "\<And>opt. opt \<in> set opts \<Longrightarrow> keeps_core opt"
    and key: "delete_key lib cf methods pattern opts = Inr rte"
  shows "route_ok (pattern_of lib cf) rte" "pstr (rpattern rte) = pattern" "rmethods rte = own_methods methods"
proof -
  obtain pat n where p: "parsePattern (parser_of lib cf) pattern = Inr (pat, n)"
    using key by (cases "parsePattern (parser_of lib cf) pattern") (auto simp: delete_key_def split: option.splits)
  let ?r = "blank_route pat ExactSlash None noClientIPResolver"
  obtain s where s: "apply_options opts (OnRoute ?r) = Inr s"
    using key p by (cases "apply_options opts (OnRoute ?r)") (auto simp: delete_key_def split: option.splits)
  obtain r0 where r0: "s = OnRoute r0" "same_core ?r r0"
    using apply_options_keeps [OF opts s] by blast
  have src: "keeps_source (pc_regexp (parser_of lib cf))" using lib by (simp add: parser_of_def)
  note P = parsePattern_toks_ok [OF src p]
  have eq: "rte = r0\<lparr>rmethods := own_methods methods\<rparr>"
    using key p s r0(1) by (auto simp: delete_key_def split: option.splits if_splits)
  have core: "rpattern r0 = pat" "rmethodFast r0 = ''''" using r0(2) by (simp_all add: same_core_def blank_route_def)
  show "pstr (rpattern rte) = pattern" "rmethods rte = own_methods methods" using core P eq by simp_all
  have "pattern_of lib cf pattern = pat" using p by (simp add: pattern_of_def)
  with core P eq show "route_ok (pattern_of lib cf) rte"
    by (auto simp: route_ok_def own_methods_props catch_all_ok_def fast_ok_def)
qed

lemma Router_Delete_facts:
  assumes lib: "keeps_source (lib_regexp lib)" and opts: "\<And>opt. opt \<in> set opts \<Longrightarrow> matcher_option opt"
    and f: "tree_inv (pattern_of lib cf) (tree f)" "\<not> mu f"
    and key: "delete_key lib cf methods pattern opts = Inr rte"
  shows "\<exists>f' res. Router_Delete lib cf f methods pattern opts = Some (f', res)
    \<and> tree_inv (pattern_of lib cf) (tree f')
    \<and> \<not> mu f'
    \<and> published f' = abs_delete rte (published f)
    \<and> (\<forall>old. res = Inr old \<longleftrightarrow> old \<in> published f \<and> identical rte old)
    \<and> (\<forall>e. res = Inl e \<longrightarrow> f' = f \<and> e = ErrApi (ErrTree (RouteNotFoundError rte)))"
proof -
  have rok: "route_ok (pattern_of lib cf) rte" by (rule delete_key_facts(1) [OF lib matcher_option_keeps [OF opts] key])
  let ?t = "txn (tree f)"
  have t: "txn_inv (pattern_of lib cf) ?t" and pub: "registered ?t = published f"
    using f(1) by (simp_all add: handles_inv published_def handles_registered)
  obtain t' old where r: "delete_route ?t rte = (t', old)" by fastforce
  note D = delete_refines_removal_facts [OF t rok, unfolded r pub fst_conv snd_conv]
    and A = delete_route_registered [OF t rok, unfolded r pub fst_conv]
  show ?thesis
  proof (cases old)
    case (Some o')
    have "Router_Delete lib cf f methods pattern opts = Some (\<lparr>tree = fst (commit t'), mu = False\<rparr>, Inr o')"
      by (simp add: Router_Delete_def Txn_Delete_def managed_on_built [OF f(2)] key delete_built_def r Some)
    then show ?thesis
      using D A Some by (simp add: handles_inv published_commit)
  next
    case None
    have "Router_Delete lib cf f methods pattern opts = Some (f, Inl (ErrApi (ErrTree (RouteNotFoundError rte))))"
      by (simp add: Router_Delete_def Txn_Delete_def managed_on_built [OF f(2)] key delete_built_def r None)
    moreover have "published f = abs_delete rte (published f)"
      using A D(4) [OF None] pub by simp
    ultimately show ?thesis
      using D(1) None f by auto
  qed
qed
section \<open>Properties of the configuration and of the calls\<close>

text \<open>
  C38. A route that \<open>NewRoute\<close> returns is what the routing tree relies on: it carries the parsed pattern,
  its methods are the given ones, sorted and without duplicates, its matchers are distinct and within the
  limit, its parameters are the names of the pattern in order, \<open>nested\<close> and the default priority are set as
  documented, a trailing slash redirect on a path with a leading double slash is refused, and its handler
  chain is the given handler inside the route's middleware inside the router's.
\<close>

theorem NewRoute_correct:
  assumes "keeps_source (lib_regexp lib)" and "\<forall>opt \<in> set opts. route_option opt"
    and "NewRoute lib cf methods pattern handler opts = Inr rte"
  shows "route_ok (pattern_of lib cf) rte
    \<and> (\<exists>n. parsePattern (parser_of lib cf) pattern = Inr (rpattern rte, n)) \<and> pstr (rpattern rte) = pattern
    \<and> set (rmethods rte) = set methods \<and> sorted (rmethods rte) \<and> distinct (rmethods rte)
    \<and> distinct (rmatchers rte) \<and> length (rmatchers rte) \<le> cf_maxMatchers cf
    \<and> rparams rte = map tvalue (filter (\<lambda>tk. ttyp tk \<noteq> nodeStatic) (ptokens (rpattern rte)))
    \<and> length (rparams rte) \<le> cf_maxParams cf
    \<and> (rnested rte \<longleftrightarrow> (\<exists>tk \<in> set (ptokens (rpattern rte)). tnested tk))
    \<and> (rpriority rte = 0 \<longleftrightarrow> rmatchers rte = [])
    \<and> \<not> (rhandleSlash rte = RedirectSlash \<and> has_prefix (Path rte) ''//'')
    \<and> (\<exists>h. handler = Some h \<and> hbase (rhandlers rte) = Some h
         \<and> hall (rhandlers rte) = Some (foldr fst (filter (\<lambda>mw. snd mw AND RouteHandler \<noteq> 0) (cf_mws cf))
             (foldr fst (filter (\<lambda>mw. snd mw AND RouteHandler \<noteq> 0) (rt_mws (rhandlers rte))) h)))"
proof -
  note F = NewRoute_facts [OF assms(1,3) route_option_keeps [OF bspec [OF assms(2)]]]
  obtain h where h: "handler = Some h" using F(15) by blast
  have "\<exists>h. handler = Some h \<and> hbase (rhandlers rte) = Some h
      \<and> hall (rhandlers rte) = Some (foldr fst (filter (\<lambda>mw. snd mw AND RouteHandler \<noteq> 0) (cf_mws cf))
          (foldr fst (filter (\<lambda>mw. snd mw AND RouteHandler \<noteq> 0) (rt_mws (rhandlers rte))) h))"
    using F(12-14) h by (intro exI [of _ h]) (simp add: applyMiddleware_foldr)
  with F(1-11,16,17) show ?thesis by (simp add: own_methods_props)
qed

text \<open>
  C16. \<open>Add\<close>, \<open>Update\<close> and \<open>Delete\<close> of the router, from the arguments of the call to the published routes:
  a route that cannot be built leaves the router as it was; otherwise the call has exactly the effect of the
  abstract operation, succeeds exactly when that operation is defined, and on failure changes nothing.
\<close>

theorem router_calls_refine:
  assumes "keeps_source (lib_regexp lib)" and "tree_inv (pattern_of lib cf) (tree f)" and "\<not> mu f"
    and "\<forall>opt \<in> set opts. route_option opt" and "\<forall>opt \<in> set mopts. matcher_option opt"
  shows "(case NewRoute lib cf methods pattern handler opts of
        Inl e \<Rightarrow> Router_Add lib cf f methods pattern handler opts = Some (f, Inl (ErrConfig e))
          \<and> Router_Update lib cf f methods pattern handler opts = Some (f, Inl (ErrConfig e))
      | Inr rte \<Rightarrow>
          (\<exists>f' res. Router_Add lib cf f methods pattern handler opts = Some (f', res)
             \<and> tree_inv (pattern_of lib cf) (tree f') \<and> \<not> mu f' \<and> published f' = abs_add rte (published f)
             \<and> (res = Inr rte \<longleftrightarrow> (\<forall>r \<in> published f. \<not> route_clash rte r \<and> \<not> name_clash rte r))
             \<and> (\<forall>e. res = Inl e \<longrightarrow> f' = f \<and> (\<exists>err. e = ErrApi (ErrTree err) \<and> insert_error (published f) rte err))
             \<and> (\<forall>r. res = Inr r \<longrightarrow> r = rte))
          \<and> (\<exists>f' res. Router_Update lib cf f methods pattern handler opts = Some (f', res)
             \<and> tree_inv (pattern_of lib cf) (tree f') \<and> \<not> mu f' \<and> published f' = abs_update rte (published f)
             \<and> (res = Inr rte \<longleftrightarrow> (\<exists>old \<in> published f. identical rte old
                  \<and> (\<forall>r \<in> published f. r \<noteq> old \<longrightarrow> \<not> name_clash rte r)))
             \<and> (\<forall>e. res = Inl e \<longrightarrow> f' = f \<and> (\<exists>err. e = ErrApi (ErrTree err) \<and> update_error (published f) rte err))
             \<and> (\<forall>r. res = Inr r \<longrightarrow> r = rte)))
    \<and> (case delete_key lib cf methods pattern mopts of
         Inl e \<Rightarrow> Router_Delete lib cf f methods pattern mopts = Some (f, Inl (ErrConfig e))
       | Inr key \<Rightarrow>
          (\<exists>f' res. Router_Delete lib cf f methods pattern mopts = Some (f', res)
             \<and> tree_inv (pattern_of lib cf) (tree f') \<and> \<not> mu f' \<and> published f' = abs_delete key (published f)
             \<and> (\<forall>old. res = Inr old \<longleftrightarrow> old \<in> published f \<and> identical key old)
             \<and> (\<forall>e. res = Inl e \<longrightarrow> f' = f)))" (is "?mutations \<and> ?delete")
proof
  show ?mutations
  proof (cases "NewRoute lib cf methods pattern handler opts")
    case (Inl e)
    then show ?thesis
      by (simp add: Router_Add_def Txn_Add_def Router_Update_def Txn_Update_def managed_on_built [OF assms(3)])
  next
    case (Inr rte)
    note A = Router_Add_facts [OF assms(1) bspec [OF assms(4)] assms(2,3) Inr]
      and U = Router_Update_facts [OF assms(1) bspec [OF assms(4)] assms(2,3) Inr]
    show ?thesis unfolding Inr sum.case by (rule conjI [OF A U])
  qed
  show ?delete
  proof (cases "delete_key lib cf methods pattern mopts")
    case (Inl e)
    then show ?thesis by (simp add: Router_Delete_def Txn_Delete_def managed_on_built [OF assms(3)])
  next
    case (Inr key)
    show ?thesis unfolding Inr sum.case
      using Router_Delete_facts [OF assms(1) bspec [OF assms(5)] assms(2,3) Inr] by blast
  qed
qed
lemma identical_refl: "identical r r"
  by (simp add: identical_def)

lemma published_state:
  assumes "tree_inv pat (tree f)" "r \<in> published f"
  shows "route_ok pat r" "r' \<in> published f \<Longrightarrow> identical route r \<Longrightarrow> identical route r' \<Longrightarrow> r = r'"
proof -
  have t: "txn_inv pat (txn (tree f))" and pub: "registered (txn (tree f)) = published f"
    using assms(1) by (simp_all add: handles_inv published_def handles_registered)
  show "r' \<in> published f \<Longrightarrow> identical route r \<Longrightarrow> identical route r' \<Longrightarrow> r = r'"
    using txn_identical_unique [OF t] assms(2) pub by blast
  show "route_ok pat r"
    using leaves_okD(4) [of pat "routes_at (it_patterns (tree f))" r] assms
    by (simp add: tree_inv_def state_ok_def registry_ok_def published_def)
qed

text \<open>The key built from the same methods, in any order and with repetitions, and the same matchers.\<close>

lemma own_methods_cong: "set ms = set ms' \<Longrightarrow> own_methods ms = own_methods ms'"
  using own_methods_props [of ms] own_methods_props [of ms'] by (metis sorted_distinct_set_unique)

lemma append_matchers_Some: "append_matchers (map Some ms) rte = Inr (rte\<lparr>rmatchers := rmatchers rte @ ms\<rparr>)"
  by (induction ms arbitrary: rte) simp_all

lemma first_invalid_cong: "first_invalid tok methods = None \<longleftrightarrow> (\<forall>m \<in> set methods. validMethod tok m)"
  by (induction methods) auto

text \<open>
  C39. What \<open>Add\<close> registered, \<open>Delete\<close> finds again: after a successful \<open>Add\<close>, \<open>Delete\<close> with the same
  pattern, the same methods in any order and the same matchers in any order succeeds, returns that very
  route and restores the published routes.
\<close>

theorem add_delete_roundtrip:
  fixes f :: "('c, ('hf, 'ip, 'k, 'v) payload) router" and cf :: "('hf, 'ip) config"
  assumes "keeps_source (lib_regexp lib)" and "tree_inv (pattern_of lib cf) (tree f)" and "\<not> mu f"
    and "\<forall>opt \<in> set opts. route_option opt"
    and "Router_Add lib cf f methods pattern handler opts = Some (f', Inr rte)"
    and "set methods' = set methods" and "mset ms = mset (rmatchers rte)"
  shows "\<exists>f''. Router_Delete lib cf f' methods' pattern [WithMatcher (map Some ms)] = Some (f'', Inr rte)
    \<and> tree_inv (pattern_of lib cf) (tree f'') \<and> published f'' = published f \<and> rte \<in> published f'"
proof -
  obtain rte0 where new: "NewRoute lib cf methods pattern handler opts = Inr rte0"
    using assms(5) by (cases "NewRoute lib cf methods pattern handler opts")
      (auto simp: Router_Add_def Txn_Add_def managed_on_built [OF assms(3)])
  from Router_Add_facts [OF assms(1) bspec [OF assms(4)] assms(2,3) new] assms(5)
  have add: "tree_inv (pattern_of lib cf) (tree f')" "\<not> mu f'" "published f' = abs_add rte0 (published f)"
      "\<forall>r \<in> published f. \<not> route_clash rte0 r \<and> \<not> name_clash rte0 r" and eq: "rte0 = rte" by auto
  note N = NewRoute_facts [OF assms(1) new [unfolded eq] route_option_keeps [OF bspec [OF assms(4)]]]
  have pub: "published f' = insert rte (published f)" using add(3,4) eq by (simp add: abs_add_def)
  have fresh: "rte \<notin> published f" using add(4) eq route_clash_self by blast
  have sizes: "length ms = length (rmatchers rte)" "distinct ms"
    using assms(7) N(5) by (metis size_mset, metis mset_eq_imp_distinct_iff)
  obtain n where p: "parsePattern (parser_of lib cf) pattern = Inr (rpattern rte, n)" using N(16) by blast
  have valid: "first_invalid (lib_IsTokenRune lib) methods' = None"
  proof -
    obtain h pat n r0 where "first_invalid (lib_IsTokenRune lib) methods = None"
      by (rule NewRoute_InrE [OF new route_option_keeps [OF bspec [OF assms(4)]]])
    with assms(6) show ?thesis by (simp add: first_invalid_cong)
  qed
  define key :: "('c, 'hf, 'ip, 'k, 'v) full_route" where "key = (blank_route (rpattern rte) ExactSlash None noClientIPResolver)
      \<lparr>rmatchers := ms, rmethods := own_methods methods'\<rparr>"
  have "delete_key lib cf methods' pattern [WithMatcher (map Some ms)] = Inr key"
    using sizes N(6) by (simp add: delete_key_def valid p WithMatcher_def append_matchers_Some
        hasDuplicateMatcher_iff blank_route_def key_def)
  moreover have "matcher_option opt" if "opt \<in> set [WithMatcher (map Some ms)]" for opt :: "('c, 'hf, 'ip, 'k, 'v) option_func"
    using that by (auto intro: matcher_option.intros)
  ultimately obtain f'' res where del: "Router_Delete lib cf f' methods' pattern [WithMatcher (map Some ms)] = Some (f'', res)"
      "tree_inv (pattern_of lib cf) (tree f'')" "published f'' = abs_delete key (published f')"
      "\<forall>old. res = Inr old \<longleftrightarrow> old \<in> published f' \<and> identical key old"
    using Router_Delete_facts [OF assms(1) _ add(1,2), of "[WithMatcher (map Some ms)]" methods' pattern key] by blast
  have id: "identical key rte"
    using assms(7) own_methods_cong [OF assms(6)] N(17) by (simp add: identical_def key_def blank_route_def)
  have "\<not> identical key r" if "r \<in> published f" for r
    using published_state(2) [OF add(1), of r rte key] that pub fresh id by blast
  then have "published f'' = published f" using del(3) pub id by (auto simp: abs_delete_def)
  with del id pub show ?thesis by auto
qed
subsection \<open>An example\<close>

definition demo_libs :: libs where
  "demo_libs = \<lparr>lib_regexp = demo_lib, lib_IsTokenRune = (\<lambda>r. 32 < r \<and> r < 127)\<rparr>"

definition demo_config :: "(nat list, unit) config" where
  "demo_config = (initRouter \<lparr>DefaultNoRouteHandler = [], DefaultNoMethodHandler = [], DefaultOptionsHandler = [],
     internalTrailingSlashHandler = [], internalPathRedirectHandler = [], DefaultRejectPathHandler = []\<rparr>)
     \<lparr>cf_mws := [(Cons 1, AllHandlers), (Cons 2, RouteHandler)]\<rparr>"

definition demo_options :: "(unit, nat list, unit, unit, unit) option_func list" where
  "demo_options = [WithSchemeMatcher ''https'', WithMiddleware [Some (Cons 3)]]"

lemma demo_NewRoute:
  "\<exists>rte. NewRoute demo_libs demo_config [''PUT'', ''GET'', ''PUT''] ''/a/{b}'' (Some [4]) demo_options = Inr rte
     \<and> rmatchers rte = [SchemeMatcher ''https'']"
proof -
  have "\<exists>p. parsePattern (parser_of demo_libs demo_config) ''/a/{b}'' = Inr (p, 1)"
    by (rule exI) code_simp
  then obtain p where "parsePattern (parser_of demo_libs demo_config) ''/a/{b}'' = Inr (p, 1)" by blast
  moreover have "first_invalid (lib_IsTokenRune demo_libs) [''PUT'', ''GET'', ''PUT''] = None" by code_simp
  moreover have "MatchScheme ''https'' = Some (SchemeMatcher ''https'' :: unit matcher)" by code_simp
  ultimately show ?thesis
    by (simp add: NewRoute_def Let_def demo_options_def WithSchemeMatcher_def append_matcher_def WithMiddleware_def
        finish_route_def collect_tokens_eq blank_route_def demo_config_def initRouter_def hasDuplicateMatcher_iff)
qed

lemma demo_libs_ok: "keeps_source (lib_regexp demo_libs)"
  using demo_keeps_source by (simp add: demo_libs_def demo_cfg_def)

lemma demo_options_ok: "\<forall>opt \<in> set demo_options. route_option opt"
  by (auto simp: demo_options_def intro: route_option.intros)

lemma demo_start:
  "tree_inv pat (tree new_router)" "\<not> mu new_router" "published new_router = {}"
  by (simp_all add: new_router_def newTree_inv published_def view_new_node registry_empty)
    (simp add: newTree_def view_new_node registry_empty)

theorem NewRoute_correct_witness:
  "\<exists>rte. NewRoute demo_libs demo_config [''PUT'', ''GET'', ''PUT''] ''/a/{b}'' (Some [4]) demo_options = Inr rte
     \<and> set (rmethods rte) = {''GET'', ''PUT''} \<and> distinct (rmethods rte)"
proof -
  obtain rte where r: "NewRoute demo_libs demo_config [''PUT'', ''GET'', ''PUT''] ''/a/{b}'' (Some [4]) demo_options = Inr rte"
    using demo_NewRoute by blast
  from NewRoute_correct [OF demo_libs_ok demo_options_ok r] r show ?thesis by auto
qed

theorem router_calls_refine_witness:
  "\<exists>f' rte. Router_Add demo_libs demo_config new_router [''PUT'', ''GET'', ''PUT''] ''/a/{b}'' (Some [4]) demo_options
       = Some (f', Inr rte) \<and> published f' = {rte}"
proof -
  obtain rte where r: "NewRoute demo_libs demo_config [''PUT'', ''GET'', ''PUT''] ''/a/{b}'' (Some [4]) demo_options = Inr rte"
    using demo_NewRoute by blast
  have none: "\<forall>opt \<in> set []. matcher_option (opt :: (unit, nat list, unit, unit, unit) option_func)" by simp
  note calls = router_calls_refine [OF demo_libs_ok demo_start(1,2) demo_options_ok none, of demo_config
      "[''PUT'', ''GET'', ''PUT'']" "''/a/{b}''" "Some [4]", unfolded r sum.case demo_start(3)]
  from conjunct1 [OF conjunct1 [OF calls]] show ?thesis by (auto simp: abs_add_def)
qed

theorem add_delete_roundtrip_witness:
  "\<exists>f' rte f''. Router_Add demo_libs demo_config new_router [''PUT'', ''GET'', ''PUT''] ''/a/{b}'' (Some [4]) demo_options
       = Some (f', Inr rte)
     \<and> Router_Delete demo_libs demo_config f' [''GET'', ''PUT''] ''/a/{b}'' [WithMatcher [Some (SchemeMatcher ''https'')]]
       = Some (f'', Inr rte) \<and> published f'' = {}"
proof -
  obtain rte where r: "NewRoute demo_libs demo_config [''PUT'', ''GET'', ''PUT''] ''/a/{b}'' (Some [4]) demo_options = Inr rte"
      "rmatchers rte = [SchemeMatcher ''https'']"
    using demo_NewRoute by blast
  obtain f' where f': "Router_Add demo_libs demo_config new_router [''PUT'', ''GET'', ''PUT''] ''/a/{b}'' (Some [4]) demo_options
      = Some (f', Inr rte)"
    using Router_Add_facts [OF demo_libs_ok bspec [OF demo_options_ok] demo_start(1,2) r(1)] by (auto simp: demo_start(3))
  have "set [''GET'', ''PUT''] = set [''PUT'', ''GET'', ''PUT'']" "mset [SchemeMatcher ''https''] = mset (rmatchers rte)"
    using r(2) by auto
  from add_delete_roundtrip [OF demo_libs_ok demo_start(1,2) demo_options_ok f' this] f'
  show ?thesis by (auto simp: demo_start(3))
qed

end
