(* ===== verification/Lookup_Path.thy ===== *)
theory Lookup_Path
  imports Registry
begin

text \<open>
  The lookup of a path (\<open>lookupByPath\<close>, \<open>matchTrailingSlash\<close> of \<open>node.go\<close>) with the state a lookup keeps
  (\<open>lookupstate.go\<close>): a walk down the pattern tree with an explicit stack of alternatives, modelled one
  jump of the Go function at a time. The labels \<open>LWalk\<close>, \<open>LBack\<close> and \<open>LVM\<close> are the labels of the source;
  \<open>LInfix\<close>, \<open>LScan\<close> and \<open>LSuffix\<close> are the heads of its loops, \<open>LPop\<close> the part of \<open>Backtrack\<close> that pops.
\<close>

subsection \<open>The state of a lookup\<close>

record ('r, 'e) regexpWildcard =
  rw_node :: "'r node"
  rw_ends :: 'e
  rw_scanned :: bool
  rw_suffixed :: bool
  rw_listed :: bool

record ('r, 'e) lookupState =
  failedMatchers :: "'r set"
  failedPaths :: "'r node list"
  exhausted :: "('r node \<times> nat) list"
  regexps :: "('r, 'e) regexpWildcard list"

record 'r skipNode =
  sk_node :: "'r node"
  sk_parent :: "'r node option"
  sk_charsMatched :: nat
  sk_paramCnt :: nat
  sk_childParamIdx :: nat
  sk_childWildcardIdx :: nat
  sk_wildcardOffset :: nat

text \<open>
  The request and what a lookup calls: the evaluation of a matcher, \<open>MatchString\<close>, the simulated regular
  expressions of \<open>regprog\<close> with a listing of capture ends in a state of type \<open>'e\<close>, and the Pike VMs of the
  path and the host.
\<close>

record ('c, 'h, 'e) lookup_env =
  lk_eval :: "('c, 'h) route \<Rightarrow> 'c matcher \<Rightarrow> bool"
  lk_method :: string
  lk_lazy :: bool
  lk_MatchString :: "regexp \<Rightarrow> string \<Rightarrow> bool"
  lk_Consumes :: "regexp \<Rightarrow> char \<Rightarrow> bool"
  lk_ends_zero :: 'e
  lk_ends_Start :: "regexp \<Rightarrow> string \<Rightarrow> nat \<Rightarrow> char \<Rightarrow> 'e \<Rightarrow> 'e"
  lk_ends_Next :: "nat \<Rightarrow> 'e \<Rightarrow> nat option \<times> 'e"
  lk_ends_Reach :: "'e \<Rightarrow> nat"
  lk_pikeVM :: "('c, 'h) route skipNode \<Rightarrow> (('c, 'h) route, 'e) lookupState
     \<Rightarrow> (nat \<times> ('c, 'h) route node \<times> bool \<times> string list) option \<times> (('c, 'h) route, 'e) lookupState"
  lk_hostVM :: "('c, 'h) route skipNode \<Rightarrow> (('c, 'h) route, 'e) lookupState
     \<Rightarrow> (nat \<times> ('c, 'h) route node \<times> bool \<times> string list) option \<times> (('c, 'h) route, 'e) lookupState"

type_synonym ('c, 'h, 'e) lstate = "(('c, 'h) route, 'e) lookupState"

definition empty_lookup :: "('r, 'e) lookupState" where
  "empty_lookup = \<lparr>failedMatchers = {}, failedPaths = [], exhausted = [], regexps = []\<rparr>"

definition reset :: "('r, 'e) lookupState \<Rightarrow> ('r, 'e) lookupState" where
  "reset s = s\<lparr>failedMatchers := {}, failedPaths := [], exhausted := [], regexps := []\<rparr>"

fun scanEnd_in :: "('r node \<times> nat) list \<Rightarrow> 'r node \<Rightarrow> nat \<Rightarrow> nat \<Rightarrow> nat" where
  "scanEnd_in [] n start end = end"
| "scanEnd_in ((m, s) # rest) n start end =
     (if m = n then max start (min end (s + 1)) else scanEnd_in rest n start end)"

definition scanEnd :: "('r, 'e) lookupState \<Rightarrow> 'r node \<Rightarrow> nat \<Rightarrow> nat \<Rightarrow> nat" where
  "scanEnd s n start end = scanEnd_in (exhausted s) n start end"

fun markExhausted_in :: "('r node \<times> nat) list \<Rightarrow> 'r node \<Rightarrow> nat \<Rightarrow> ('r node \<times> nat) list" where
  "markExhausted_in [] n start = [(n, start)]"
| "markExhausted_in ((m, s) # rest) n start =
     (if m = n then (m, min s start) # rest else (m, s) # markExhausted_in rest n start)"

definition markExhausted :: "'r node \<Rightarrow> nat \<Rightarrow> ('r, 'e) lookupState \<Rightarrow> ('r, 'e) lookupState" where
  "markExhausted n start s = s\<lparr>exhausted := markExhausted_in (exhausted s) n start\<rparr>"

definition pathFailed :: "('r, 'e) lookupState \<Rightarrow> 'r node \<Rightarrow> bool" where
  "pathFailed s n \<longleftrightarrow> 0 < length (failedPaths s) \<and> n \<in> set (failedPaths s)"

definition setPathFailed :: "'r node \<Rightarrow> ('r, 'e) lookupState \<Rightarrow> ('r, 'e) lookupState" where
  "setPathFailed n s = s\<lparr>failedPaths := failedPaths s @ [n]\<rparr>"

text \<open>\<open>matchRegexp\<close> on a node without regexp is not called.\<close>

definition matchRegexp :: "('c, 'h, 'e) lookup_env \<Rightarrow> 'r node \<Rightarrow> string \<Rightarrow> bool" where
  "matchRegexp E n s = (case nregexp n of None \<Rightarrow> True | Some re \<Rightarrow> lk_MatchString E re s)"

text \<open>The entry of a node in \<open>regexps\<close>, added on first use.\<close>

definition regexp_entry ::
  "('c, 'h, 'e) lookup_env \<Rightarrow> 'r node \<Rightarrow> ('r, 'e) lookupState \<Rightarrow> nat \<times> ('r, 'e) lookupState" where
  "regexp_entry E n s =
     (case index_func (\<lambda>w. rw_node w = n) (regexps s) of
        Some i \<Rightarrow> (i, s)
      | None \<Rightarrow> (length (regexps s),
          s\<lparr>regexps := regexps s @ [\<lparr>rw_node = n, rw_ends = lk_ends_zero E, rw_scanned = False,
             rw_suffixed = False, rw_listed = False\<rparr>]\<rparr>))"

definition retryScan ::
  "('c, 'h, 'e) lookup_env \<Rightarrow> 'r node \<Rightarrow> nat \<Rightarrow> ('r, 'e) lookupState \<Rightarrow> bool \<times> ('r, 'e) lookupState" where
  "retryScan E n start s =
     (let (i, s) = regexp_entry E n s; w = regexps s ! i
      in (rw_scanned w \<and> (\<not> rw_listed w \<or> start \<le> lk_ends_Reach E (rw_ends w)),
          s\<lparr>regexps := (regexps s)[i := w\<lparr>rw_scanned := True, rw_listed := False\<rparr>]\<rparr>))"

definition retrySuffix ::
  "('c, 'h, 'e) lookup_env \<Rightarrow> 'r node \<Rightarrow> ('r, 'e) lookupState \<Rightarrow> bool \<times> ('r, 'e) lookupState" where
  "retrySuffix E n s =
     (let (i, s) = regexp_entry E n s; w = regexps s ! i
      in (rw_suffixed w, s\<lparr>regexps := (regexps s)[i := w\<lparr>rw_suffixed := True\<rparr>]\<rparr>))"

definition ends_of ::
  "('c, 'h, 'e) lookup_env \<Rightarrow> 'r node \<Rightarrow> string \<Rightarrow> nat \<Rightarrow> char \<Rightarrow> ('r, 'e) lookupState \<Rightarrow> ('r, 'e) lookupState" where
  "ends_of E n s start delim ls =
     (case nregexp n of
        None \<Rightarrow> ls
      | Some re \<Rightarrow>
          let (i, ls) = regexp_entry E n ls; w = regexps ls ! i
          in ls\<lparr>regexps := (regexps ls)[i := w\<lparr>rw_listed := True, rw_ends := lk_ends_Start E re s start delim (rw_ends w)\<rparr>]\<rparr>)"

text \<open>\<open>Next\<close> on the listing that \<open>ends\<close> returned for \<open>n\<close>, which lives in its entry.\<close>

definition ends_next ::
  "('c, 'h, 'e) lookup_env \<Rightarrow> 'r node \<Rightarrow> nat \<Rightarrow> ('r, 'e) lookupState \<Rightarrow> nat option \<times> ('r, 'e) lookupState" where
  "ends_next E n start ls =
     (let (i, ls) = regexp_entry E n ls; w = regexps ls ! i; (r, e) = lk_ends_Next E start (rw_ends w)
      in (r, ls\<lparr>regexps := (regexps ls)[i := w\<lparr>rw_ends := e\<rparr>]\<rparr>))"

definition matchTail ::
  "('c, 'h, 'e) lookup_env \<Rightarrow> 'r node \<Rightarrow> string \<Rightarrow> ('r, 'e) lookupState \<Rightarrow> bool \<times> ('r, 'e) lookupState" where
  "matchTail E n s ls =
     (matchRegexp E n s,
      if nnested n then
        let (i, ls) = regexp_entry E n ls in ls\<lparr>regexps := (regexps ls)[i := (regexps ls ! i)\<lparr>rw_listed := False\<rparr>]\<rparr>
      else ls)"

subsection \<open>The routes of a leaf\<close>

text \<open>The loops \<open>for i, route := range routes { if cond \<and> route.match(method, c) { return i } }\<close>.\<close>

fun match_routes ::
  "('c, 'h, 'e) lookup_env \<Rightarrow> (('c, 'h) route \<Rightarrow> bool) \<Rightarrow> ('c, 'h) route list \<Rightarrow> ('c, 'h, 'e) lstate
   \<Rightarrow> nat option \<times> ('c, 'h, 'e) lstate" where
  "match_routes E cond [] ls = (None, ls)"
| "match_routes E cond (r # rs) ls =
     (let (ok, ls) =
        (if cond r then
           let (ok, failed) = match (lk_eval E) (lk_method E) (failedMatchers ls) r
           in (ok, ls\<lparr>failedMatchers := failed\<rparr>)
         else (False, ls))
      in if ok then (Some 0, ls)
         else let (i, ls) = match_routes E cond rs ls in (map_option Suc i, ls))"

text \<open>The loops over the wildcards of a node around such a loop.\<close>

fun match_wildcards ::
  "('c, 'h, 'e) lookup_env \<Rightarrow> (('c, 'h) route \<Rightarrow> bool) \<Rightarrow> ('c, 'h) route node list \<Rightarrow> ('c, 'h, 'e) lstate
   \<Rightarrow> (nat \<times> ('c, 'h) route node) option \<times> ('c, 'h, 'e) lstate" where
  "match_wildcards E cond [] ls = (None, ls)"
| "match_wildcards E cond (w # ws) ls =
     (case match_routes E cond (nroutes w) ls of
        (Some i, ls) \<Rightarrow> (Some (i, w), ls)
      | (None, ls) \<Rightarrow> match_wildcards E cond ws ls)"

definition not_exact :: "('c, 'h) route \<Rightarrow> bool" where
  "not_exact r \<longleftrightarrow> rhandleSlash r \<noteq> ExactSlash"

definition matchTrailingSlash ::
  "('c, 'h, 'e) lookup_env \<Rightarrow> ('c, 'h) route node \<Rightarrow> ('c, 'h, 'e) lstate \<Rightarrow> string list
   \<Rightarrow> (nat \<times> ('c, 'h) route node) option \<times> ('c, 'h, 'e) lstate \<times> string list" where
  "matchTrailingSlash E child ls params =
     (case (if isLeaf child then match_routes E not_exact (nroutes child) ls else (None, ls)) of
        (Some i, ls) \<Rightarrow> (Some (i, child), ls, params)
      | (None, ls) \<Rightarrow>
          (case match_wildcards E (\<lambda>r. not_exact r \<and> optionalCatchAll (rpattern r)) (nwildcards child) ls of
             (Some (i, w), ls) \<Rightarrow> (Some (i, w), ls, if lk_lazy E then params else params @ [''''])
           | (None, ls) \<Rightarrow> (None, ls, params)))"
subsection \<open>The walk\<close>

datatype 'r label =
    LWalk
  | LInfix nat
  | LScan nat nat nat bool bool
  | LSuffix "(nat \<times> 'r node) option"
  | LBack
  | LPop
  | LVM
  | LDone "(nat \<times> 'r node \<times> bool) option"
  | LPanic string

record ('r, 'e) walk =
  wk_label :: "'r label"
  wk_matched :: "'r node"
  wk_parent :: "'r node option"
  wk_search :: string
  wk_chars :: nat
  wk_skipStatic :: bool
  wk_paramIdx :: nat
  wk_wildIdx :: nat
  wk_wildOff :: nat
  wk_params :: "string list"
  wk_stack :: "'r skipNode list"
  wk_ls :: "('r, 'e) lookupState"

type_synonym ('c, 'h, 'e) wstate = "(('c, 'h) route, 'e) walk"

text \<open>The arguments of \<open>lookupByPath\<close> that stay fixed: its root, the path and the offset of its part of the stack.\<close>

record 'r path_args =
  pa_root :: "'r node"
  pa_path :: string
  pa_stackOffset :: nat

definition jump :: "'r label \<Rightarrow> ('r, 'e) walk \<Rightarrow> ('r, 'e) walk" where
  "jump l s = s\<lparr>wk_label := l\<rparr>"

text \<open>\<open>append(*c.skipStack, skipNode{...})\<close>; the head of the list is the top of the stack.\<close>

definition push :: "nat \<Rightarrow> nat \<Rightarrow> nat \<Rightarrow> ('r, 'e) walk \<Rightarrow> ('r, 'e) walk" where
  "push paramIdx wildIdx wildOff s =
     s\<lparr>wk_stack := \<lparr>sk_node = wk_matched s, sk_parent = wk_parent s, sk_charsMatched = wk_chars s,
         sk_paramCnt = length (wk_params s), sk_childParamIdx = paramIdx, sk_childWildcardIdx = wildIdx,
         sk_wildcardOffset = wildOff\<rparr> # wk_stack s\<rparr>"

definition record_param :: "('c, 'h, 'e) lookup_env \<Rightarrow> string \<Rightarrow> ('r, 'e) walk \<Rightarrow> ('r, 'e) walk" where
  "record_param E v s = (if lk_lazy E then s else s\<lparr>wk_params := wk_params s @ [v]\<rparr>)"

definition found :: "nat \<Rightarrow> 'r node \<Rightarrow> bool \<Rightarrow> ('r, 'e) walk \<Rightarrow> ('r, 'e) walk" where
  "found i n tsr s = jump (LDone (Some (i, n, tsr))) s"

text \<open>A static child; \<open>Inr\<close> falls through to the parameters.\<close>

definition walk_statics ::
  "('c, 'h, 'e) lookup_env \<Rightarrow> ('c, 'h) route path_args \<Rightarrow> ('c, 'h, 'e) wstate
   \<Rightarrow> ('c, 'h, 'e) wstate + ('c, 'h, 'e) wstate" where
  "walk_statics E A s =
     (let search = wk_search s; matched = wk_matched s in
      if wk_skipStatic s then Inr s
      else
        (case getStaticEdge matched (search ! 0) of
           None \<Rightarrow> Inr s
         | Some (_, child) \<Rightarrow>
             let key = nkey child; keyLen = length key in
             if keyLen = 1 \<or> (keyLen \<le> length search \<and> take keyLen search = key) then
               let s = (if (0 < length (nparams matched) \<or> 0 < length (nwildcards matched)) \<and> matched \<noteq> pa_root A
                        then push 0 0 0 s else s)
               in Inl (jump LWalk (s\<lparr>wk_parent := Some matched, wk_matched := child, wk_search := drop keyLen search,
                    wk_chars := wk_chars s + keyLen\<rparr>))
             else if keyLen = length search + 1 \<and> key ! (keyLen - 1) = slashDelim \<and> key ! (keyLen - 2) \<noteq> slashDelim
                     \<and> has_prefix key search
             then
               (case matchTrailingSlash E child (wk_ls s) (wk_params s) of
                  (Some (i, n), ls, params) \<Rightarrow> Inl (found i n True (s\<lparr>wk_ls := ls, wk_params := params\<rparr>))
                | (None, ls, params) \<Rightarrow> Inr (s\<lparr>wk_ls := ls, wk_params := params\<rparr>))
             else Inr s))"

text \<open>The parameters of \<open>matched\<close> from the position \<open>j\<close> on, as absolute positions.\<close>

fun try_params ::
  "('c, 'h, 'e) lookup_env \<Rightarrow> string \<Rightarrow> nat \<Rightarrow> nat \<Rightarrow> ('c, 'h) route node list \<Rightarrow> ('c, 'h, 'e) wstate
   \<Rightarrow> ('c, 'h, 'e) wstate option" where
  "try_params E segment end j [] s = None"
| "try_params E segment end j (paramNode # params) s =
     (if \<not> matchRegexp E paramNode segment then try_params E segment end (j + 1) params s
      else
        let s = (if params \<noteq> [] \<or> 0 < length (nwildcards (wk_matched s)) then push (j + 1) 0 0 s else s);
            s = record_param E segment s
        in Some (jump LWalk (s\<lparr>wk_parent := Some (wk_matched s), wk_matched := paramNode,
             wk_search := drop end (wk_search s), wk_chars := wk_chars s + end, wk_paramIdx := 0\<rparr>)))"

definition walk_params ::
  "('c, 'h, 'e) lookup_env \<Rightarrow> ('c, 'h) route path_args \<Rightarrow> ('c, 'h, 'e) wstate
   \<Rightarrow> ('c, 'h, 'e) wstate + ('c, 'h, 'e) wstate" where
  "walk_params E A s =
     (let matched = wk_matched s; search = wk_search s; params = drop (wk_paramIdx s) (nparams matched) in
      if 0 < length params \<and> matched \<noteq> pa_root A then
        let end = (case index_byte search slashDelim of None \<Rightarrow> length search | Some e \<Rightarrow> e) in
        if end = 0 then
          let s = (if 0 < length (nwildcards matched) then push (length (nparams matched)) 0 0 s else s)
          in Inl (jump LBack s)
        else (case try_params E (take end search) end (wk_paramIdx s) params s of
                Some s \<Rightarrow> Inl s | None \<Rightarrow> Inr s)
      else Inr s)"

definition walk_wildcards :: "('c, 'h) route path_args \<Rightarrow> ('c, 'h, 'e) wstate \<Rightarrow> ('c, 'h, 'e) wstate" where
  "walk_wildcards A s =
     (if wk_wildIdx s < length (nwildcards (wk_matched s)) \<and> wk_matched s \<noteq> pa_root A
      then jump (LInfix (wk_wildIdx s)) s else jump LBack s)"

text \<open>The routes that take a trailing slash off the path.\<close>

definition slash_off :: "('c, 'h) route \<Rightarrow> bool" where
  "slash_off r \<longleftrightarrow> rhandleSlash r \<noteq> ExactSlash \<and> \<not> catchAll (rpattern r)"

text \<open>The end of the path.\<close>

definition walk_end ::
  "('c, 'h, 'e) lookup_env \<Rightarrow> ('c, 'h) route path_args \<Rightarrow> ('c, 'h, 'e) wstate \<Rightarrow> ('c, 'h, 'e) wstate" where
  "walk_end E A s =
     (let matched = wk_matched s; path = pa_path A in
      case (if isLeaf matched then match_routes E (\<lambda>_. True) (nroutes matched) (wk_ls s) else (None, wk_ls s)) of
        (Some i, ls) \<Rightarrow> found i matched False (s\<lparr>wk_ls := ls\<rparr>)
      | (None, ls) \<Rightarrow>
          (case match_wildcards E (\<lambda>r. optionalCatchAll (rpattern r)) (nwildcards matched) ls of
             (Some (i, w), ls) \<Rightarrow> found i w False (record_param E '''' (s\<lparr>wk_ls := ls\<rparr>))
           | (None, ls) \<Rightarrow>
               let add = (case getStaticEdge matched slashDelim of
                     None \<Rightarrow> None
                   | Some (_, child) \<Rightarrow> if nkey child = ''/'' \<and> \<not> has_suffix path ''/'' then Some child else None)
               in (case add of
                     Some child \<Rightarrow>
                       (case matchTrailingSlash E child ls (wk_params s) of
                          (Some (i, n), ls, params) \<Rightarrow> found i n True (s\<lparr>wk_ls := ls, wk_params := params\<rparr>)
                        | (None, ls, params) \<Rightarrow> jump LBack (s\<lparr>wk_ls := ls, wk_params := params\<rparr>))
                   | None \<Rightarrow>
                       (case wk_parent s of
                          None \<Rightarrow> jump LBack (s\<lparr>wk_ls := ls\<rparr>)
                        | Some parent \<Rightarrow>
                            if nkey matched = ''/'' \<and> isLeaf parent \<and> \<not> has_suffix path ''//'' then
                              (case match_routes E slash_off (nroutes parent) ls of
                                 (Some i, ls) \<Rightarrow> found i parent True (s\<lparr>wk_ls := ls\<rparr>)
                               | (None, ls) \<Rightarrow> jump LBack (s\<lparr>wk_ls := ls\<rparr>))
                            else jump LBack (s\<lparr>wk_ls := ls\<rparr>)))))"

definition step_walk ::
  "('c, 'h, 'e) lookup_env \<Rightarrow> ('c, 'h) route path_args \<Rightarrow> ('c, 'h, 'e) wstate \<Rightarrow> ('c, 'h, 'e) wstate" where
  "step_walk E A s =
     (if 0 < length (wk_search s) then
        (case walk_statics E A s of
           Inl s \<Rightarrow> s
         | Inr s \<Rightarrow>
             let s = s\<lparr>wk_skipStatic := False\<rparr> in
             (case walk_params E A s of Inl s \<Rightarrow> s | Inr s \<Rightarrow> walk_wildcards A s))
      else walk_end E A s)"
text \<open>The head of the loop over the wildcards, at the absolute index \<open>i\<close>.\<close>

definition step_infix ::
  "('c, 'h, 'e) lookup_env \<Rightarrow> ('c, 'h) route path_args \<Rightarrow> nat \<Rightarrow> ('c, 'h, 'e) wstate \<Rightarrow> ('c, 'h, 'e) wstate" where
  "step_infix E A i s =
     (let wildcards = nwildcards (wk_matched s); path = pa_path A in
      if \<not> i < length wildcards then jump (LSuffix None) s
      else
        let wildcardNode = wildcards ! i in
        if length (nstatics wildcardNode) = 0 then jump (LInfix (i + 1)) s
        else
          let searchStart = wk_chars s + wk_wildOff s; end = length path; evaluated = 0 < wk_wildOff s in
          if nregexp wildcardNode = None
          then jump (LScan i searchStart (scanEnd (wk_ls s) wildcardNode searchStart end) evaluated False) s
          else if evaluated
          then jump (LScan i searchStart end True True)
                 (s\<lparr>wk_ls := ends_of E wildcardNode path (wk_chars s) slashDelim (wk_ls s)\<rparr>)
          else if nnested wildcardNode then
            let (retry, ls) = retryScan E wildcardNode (wk_chars s) (wk_ls s)
            in jump (if retry then LVM else LScan i searchStart end False False) (s\<lparr>wk_ls := ls\<rparr>)
          else jump (LScan i searchStart end False False) s)"

text \<open>No capture end is left: the trailing slash candidate, then the next wildcard.\<close>

definition infix_tsr ::
  "('c, 'h, 'e) lookup_env \<Rightarrow> string \<Rightarrow> nat \<Rightarrow> nat \<Rightarrow> ('c, 'h) route node \<Rightarrow> ('c, 'h, 'e) lstate
   \<Rightarrow> (nat \<times> ('c, 'h) route node) option \<times> ('c, 'h, 'e) lstate" where
  "infix_tsr E path offset end wildcardNode ls =
     (if end = length path \<and> path ! (length path - 1) \<noteq> slashDelim then
        (case getStaticEdge wildcardNode slashDelim of
           None \<Rightarrow> (None, ls)
         | Some (_, child) \<Rightarrow>
             if isLeaf child \<and> nkey child = ''/'' then
               let (tail, ls) = (if nregexp wildcardNode \<noteq> None then matchTail E wildcardNode (drop offset path) ls
                                 else (True, ls))
               in if \<not> tail then (None, ls)
                  else (case match_routes E not_exact (nroutes child) ls of
                          (Some j, ls) \<Rightarrow> (Some (j, child), ls) | (None, ls) \<Rightarrow> (None, ls))
             else (None, ls))
      else (None, ls))"

definition next_infix :: "nat \<Rightarrow> ('c, 'h, 'e) wstate \<Rightarrow> ('c, 'h, 'e) wstate" where
  "next_infix i s =
     (let matched = wk_matched s; wildcardNode = nwildcards matched ! i;
          s = (if nregexp wildcardNode = None
               then s\<lparr>wk_ls := markExhausted wildcardNode (wk_chars s) (wk_ls s)\<rparr> else s)
      in if i + 1 < length (nwildcards matched)
         then jump LBack (push (length (nparams matched)) (i + 1) 0 s)
         else jump (LInfix (i + 1)) s)"

definition scan_exhausted ::
  "('c, 'h, 'e) lookup_env \<Rightarrow> ('c, 'h) route path_args \<Rightarrow> nat \<Rightarrow> nat \<Rightarrow> ('c, 'h, 'e) wstate \<Rightarrow> ('c, 'h, 'e) wstate" where
  "scan_exhausted E A i end s =
     (case infix_tsr E (pa_path A) (wk_chars s) end (nwildcards (wk_matched s) ! i) (wk_ls s) of
        (Some cand, ls) \<Rightarrow> jump (LSuffix (Some cand)) (s\<lparr>wk_ls := ls\<rparr>)
      | (None, ls) \<Rightarrow> next_infix i (s\<lparr>wk_ls := ls\<rparr>))"

text \<open>Descend below a capture, leaving the state of the scan on the stack.\<close>

definition take_capture ::
  "('c, 'h, 'e) lookup_env \<Rightarrow> string \<Rightarrow> nat \<Rightarrow> nat \<Rightarrow> ('c, 'h, 'e) wstate \<Rightarrow> ('c, 'h, 'e) wstate" where
  "take_capture E path i captureEnd s =
     (let matched = wk_matched s;
          s = push (length (nparams matched)) i (captureEnd - wk_chars s + 1) s;
          s = record_param E (slice path (wk_chars s) captureEnd) s
      in jump LWalk (s\<lparr>wk_parent := Some matched, wk_matched := nwildcards matched ! i, wk_search := drop captureEnd path,
           wk_chars := captureEnd, wk_paramIdx := 0, wk_wildIdx := 0, wk_wildOff := 0\<rparr>))"

text \<open>One iteration of the loop over the capture ends.\<close>

definition step_scan ::
  "('c, 'h, 'e) lookup_env \<Rightarrow> ('c, 'h) route path_args \<Rightarrow> nat \<Rightarrow> nat \<Rightarrow> nat \<Rightarrow> bool \<Rightarrow> bool \<Rightarrow> ('c, 'h, 'e) wstate
   \<Rightarrow> ('c, 'h, 'e) wstate" where
  "step_scan E A i searchStart end evaluated ends s =
     (let path = pa_path A; wildcardNode = nwildcards (wk_matched s) ! i; key = nkey (nstatics wildcardNode ! 0);
          single = (case nregexp wildcardNode of None \<Rightarrow> False
                    | Some re \<Rightarrow> \<not> nnested wildcardNode \<and> \<not> lk_Consumes E re slashDelim);
          (captureEnd, end, ls) =
            (if ends then
               let (r, ls) = ends_next E wildcardNode searchStart (wk_ls s) in (r, end, ls)
             else (case index_byte (slice path searchStart end) slashDelim of
                     None \<Rightarrow> (None, end, wk_ls s)
                   | Some idx \<Rightarrow> (Some (searchStart + idx), if single then searchStart + idx + 1 else end, wk_ls s)));
          s = s\<lparr>wk_ls := ls\<rparr>
      in case captureEnd of
           None \<Rightarrow> scan_exhausted E A i end s
         | Some captureEnd \<Rightarrow>
             let capturedValue = slice path (wk_chars s) captureEnd; rest = drop captureEnd path in
             if capturedValue = '''' then jump (LScan i (searchStart + 1) end evaluated ends) s
             else if \<not> has_prefix rest key \<and> \<not> has_prefix key rest
             then jump (LScan i (captureEnd + 1) end evaluated ends) s
             else if nregexp wildcardNode \<noteq> None \<and> \<not> ends then
               (if evaluated then
                  jump (LScan i captureEnd end True True)
                    (s\<lparr>wk_ls := ends_of E wildcardNode path (wk_chars s) slashDelim (wk_ls s)\<rparr>)
                else if \<not> matchRegexp E wildcardNode capturedValue
                then jump (LScan i (captureEnd + 1) end True ends) s
                else take_capture E path i captureEnd s)
             else take_capture E path i captureEnd s)"

text \<open>The suffix catch-alls; \<open>Inr\<close> ends the loop, and the candidate with a trailing slash is used then.\<close>

fun try_suffixes ::
  "('c, 'h, 'e) lookup_env \<Rightarrow> ('c, 'h) route node list \<Rightarrow> ('c, 'h, 'e) wstate
   \<Rightarrow> ('c, 'h, 'e) wstate + ('c, 'h, 'e) wstate" where
  "try_suffixes E [] s = Inr s"
| "try_suffixes E (w # ws) s =
     (if \<not> isLeaf w then try_suffixes E ws s
      else
        let (retry, ls) = (if nregexp w \<noteq> None \<and> nnested w then retrySuffix E w (wk_ls s) else (False, wk_ls s));
            s = s\<lparr>wk_ls := ls\<rparr>
        in if retry then Inl (jump LVM s)
           else if \<not> matchRegexp E w (wk_search s) then try_suffixes E ws s
           else (case match_routes E (\<lambda>_. True) (nroutes w) (wk_ls s) of
                   (Some i, ls) \<Rightarrow> Inl (found i w False (record_param E (wk_search s) (s\<lparr>wk_ls := ls\<rparr>)))
                 | (None, ls) \<Rightarrow> try_suffixes E ws (s\<lparr>wk_ls := ls\<rparr>)))"

definition step_suffix ::
  "('c, 'h, 'e) lookup_env \<Rightarrow> ('c, 'h) route path_args \<Rightarrow> (nat \<times> ('c, 'h) route node) option
   \<Rightarrow> ('c, 'h, 'e) wstate \<Rightarrow> ('c, 'h, 'e) wstate" where
  "step_suffix E A cand s =
     (case try_suffixes E (nwildcards (wk_matched s)) s of
        Inl s \<Rightarrow> s
      | Inr s \<Rightarrow>
          (case cand of
             Some (j, child) \<Rightarrow> found j child True (record_param E (drop (wk_chars s) (pa_path A)) s)
           | None \<Rightarrow> jump LBack s))"

definition step_back ::
  "('c, 'h, 'e) lookup_env \<Rightarrow> ('c, 'h) route path_args \<Rightarrow> ('c, 'h, 'e) wstate \<Rightarrow> ('c, 'h, 'e) wstate" where
  "step_back E A s =
     (if wk_search s = ''/'' \<and> isLeaf (wk_matched s) \<and> \<not> has_suffix (pa_path A) ''//'' then
        (case match_routes E slash_off (nroutes (wk_matched s)) (wk_ls s) of
           (Some i, ls) \<Rightarrow> found i (wk_matched s) True (s\<lparr>wk_ls := ls\<rparr>)
         | (None, ls) \<Rightarrow> jump LPop (s\<lparr>wk_ls := ls\<rparr>))
      else jump LPop s)"

definition resume :: "('c, 'h) route path_args \<Rightarrow> ('c, 'h) route skipNode \<Rightarrow> ('c, 'h, 'e) wstate \<Rightarrow> ('c, 'h, 'e) wstate" where
  "resume A sk s =
     s\<lparr>wk_label := LWalk, wk_matched := sk_node sk, wk_parent := sk_parent sk,
       wk_params := take (sk_paramCnt sk) (wk_params s), wk_search := drop (sk_charsMatched sk) (pa_path A),
       wk_chars := sk_charsMatched sk, wk_paramIdx := sk_childParamIdx sk, wk_wildIdx := sk_childWildcardIdx sk,
       wk_wildOff := sk_wildcardOffset sk, wk_skipStatic := True\<rparr>"

definition step_pop :: "('c, 'h) route path_args \<Rightarrow> ('c, 'h, 'e) wstate \<Rightarrow> ('c, 'h, 'e) wstate" where
  "step_pop A s =
     (if length (wk_stack s) = pa_stackOffset A then jump (LDone None) s
      else (case wk_stack s of
              [] \<Rightarrow> jump (LPanic ''index out of range'') s
            | sk # stack \<Rightarrow> resume A sk (s\<lparr>wk_stack := stack\<rparr>)))"

text \<open>
  \<open>outermostInfix\<close>: the bottom-most entry of this lookup's part of the stack that an infix capture left.
\<close>

definition outermostInfix ::
  "nat \<Rightarrow> ('c, 'h, 'e) wstate \<Rightarrow> (('c, 'h) route skipNode \<times> ('c, 'h, 'e) wstate) option" where
  "outermostInfix stackOffset s =
     (let stack = rev (wk_stack s); part = drop stackOffset stack in
      case index_func (\<lambda>f. 0 < sk_wildcardOffset f) part of
        None \<Rightarrow> None
      | Some i \<Rightarrow> Some (part ! i, s\<lparr>wk_stack := rev (take (stackOffset + i) stack),
                      wk_params := take (sk_paramCnt (part ! i)) (wk_params s)\<rparr>))"

definition step_vm ::
  "('c, 'h, 'e) lookup_env \<Rightarrow> ('c, 'h) route path_args \<Rightarrow> ('c, 'h, 'e) wstate \<Rightarrow> ('c, 'h, 'e) wstate" where
  "step_vm E A s =
     (case outermostInfix (pa_stackOffset A) s of
        None \<Rightarrow> jump (LPanic ''internal error: nested wildcard outside of an infix capture'') s
      | Some (f, s) \<Rightarrow>
          (case lk_pikeVM E f (wk_ls s) of
             (Some (i, n, tsr, params), ls) \<Rightarrow>
               found i n tsr (s\<lparr>wk_ls := ls, wk_params := wk_params s @ (if lk_lazy E then [] else params)\<rparr>)
           | (None, ls) \<Rightarrow>
               jump LBack (s\<lparr>wk_ls := ls, wk_matched := sk_node f, wk_chars := sk_charsMatched f,
                 wk_search := drop (sk_charsMatched f) (pa_path A)\<rparr>)))"

definition step_path ::
  "('c, 'h, 'e) lookup_env \<Rightarrow> ('c, 'h) route path_args \<Rightarrow> ('c, 'h, 'e) wstate \<Rightarrow> ('c, 'h, 'e) wstate" where
  "step_path E A s =
     (case wk_label s of
        LWalk \<Rightarrow> step_walk E A s
      | LInfix i \<Rightarrow> step_infix E A i s
      | LScan i searchStart end evaluated ends \<Rightarrow> step_scan E A i searchStart end evaluated ends s
      | LSuffix cand \<Rightarrow> step_suffix E A cand s
      | LBack \<Rightarrow> step_back E A s
      | LPop \<Rightarrow> step_pop A s
      | LVM \<Rightarrow> step_vm E A s
      | LDone _ \<Rightarrow> s
      | LPanic _ \<Rightarrow> s)"

definition halted :: "('r, 'e) walk \<Rightarrow> bool" where
  "halted s \<longleftrightarrow> (case wk_label s of LDone _ \<Rightarrow> True | LPanic _ \<Rightarrow> True | _ \<Rightarrow> False)"

partial_function (option) run_path ::
  "('c, 'h, 'e) lookup_env \<Rightarrow> ('c, 'h) route path_args \<Rightarrow> ('c, 'h, 'e) wstate \<Rightarrow> ('c, 'h, 'e) wstate option" where
  "run_path E A s = (if halted s then Some s else run_path E A (step_path E A s))"

definition start_path ::
  "('c, 'h) route path_args \<Rightarrow> string list \<Rightarrow> ('c, 'h) route skipNode list \<Rightarrow> ('c, 'h, 'e) lstate \<Rightarrow> ('c, 'h, 'e) wstate" where
  "start_path A params stack ls =
     \<lparr>wk_label = LWalk, wk_matched = pa_root A, wk_parent = None, wk_search = pa_path A, wk_chars = 0,
      wk_skipStatic = False, wk_paramIdx = 0, wk_wildIdx = 0, wk_wildOff = 0, wk_params = params,
      wk_stack = stack, wk_ls = ls\<rparr>"

definition lookupByPath ::
  "('c, 'h, 'e) lookup_env \<Rightarrow> ('c, 'h) route path_args \<Rightarrow> string list \<Rightarrow> ('c, 'h) route skipNode list
   \<Rightarrow> ('c, 'h, 'e) lstate \<Rightarrow> ('c, 'h, 'e) wstate option" where
  "lookupByPath E A params stack ls = run_path E A (start_path A params stack ls)"

end
