(* ===== verification/Lookup_Host.thy ===== *)
theory Lookup_Host
  imports Lookup_Path Strings_Util Net_Util
begin

text \<open>
  The lookup of a host and a path (\<open>lookup\<close> and \<open>lookupByHostname\<close> of \<open>node.go\<close>): the walk down the host
  part of the tree, with the same state and stack as \<open>lookupByPath\<close>, which it calls on the nodes where a host
  may end. The labels are those of the path walk; \<open>LBack\<close> and \<open>LPop\<close> are the same here. The skip nodes of
  the host walk have no parent.
\<close>

subsection \<open>The static child, the parameters and the wildcards\<close>

definition hwalk_statics :: "('c, 'h, 'e) wstate \<Rightarrow> ('c, 'h, 'e) wstate option" where
  "hwalk_statics s =
     (let search = wk_search s; matched = wk_matched s in
      if wk_skipStatic s then None
      else
        (case getStaticEdge matched (ToLowerASCII (search ! 0)) of
           None \<Rightarrow> None
         | Some (_, child) \<Rightarrow>
             let keyLen = length (nkey child) in
             if keyLen = 1 \<or> (keyLen \<le> length search \<and> EqualStringsASCIIIgnoreCase (take keyLen search) (nkey child)) then
               let s = (if 0 < length (nparams matched) \<or> 0 < length (nwildcards matched) then push 0 0 0 s else s)
               in Some (jump LWalk (s\<lparr>wk_matched := child, wk_search := drop keyLen search, wk_chars := wk_chars s + keyLen\<rparr>))
             else None))"

fun htry_params ::
  "('c, 'h, 'e) lookup_env \<Rightarrow> string \<Rightarrow> nat \<Rightarrow> nat \<Rightarrow> ('c, 'h) route node list \<Rightarrow> ('c, 'h, 'e) wstate
   \<Rightarrow> ('c, 'h, 'e) wstate option" where
  "htry_params E segment end j [] s = None"
| "htry_params E segment end j (paramNode # params) s =
     (if \<not> matchRegexp E paramNode segment then htry_params E segment end (j + 1) params s
      else
        let s = (if params \<noteq> [] \<or> 0 < length (nwildcards (wk_matched s)) then push (j + 1) 0 0 s else s);
            s = record_param E segment s
        in Some (jump LWalk (s\<lparr>wk_matched := paramNode, wk_search := drop end (wk_search s),
             wk_chars := wk_chars s + end, wk_paramIdx := 0\<rparr>)))"

definition hwalk_params :: "('c, 'h, 'e) lookup_env \<Rightarrow> ('c, 'h, 'e) wstate \<Rightarrow> ('c, 'h, 'e) wstate option" where
  "hwalk_params E s =
     (let matched = wk_matched s; search = wk_search s; params = drop (wk_paramIdx s) (nparams matched) in
      if 0 < length params then
        let end = (case index_byte search dotDelim of None \<Rightarrow> length search | Some e \<Rightarrow> e) in
        if end = 0 then
          let s = (if 0 < length (nwildcards matched) then push (length (nparams matched)) 0 0 s else s)
          in Some (jump LBack s)
        else htry_params E (take end search) end (wk_paramIdx s) params s
      else None)"

definition hwalk_wildcards :: "('c, 'h, 'e) wstate \<Rightarrow> ('c, 'h, 'e) wstate" where
  "hwalk_wildcards s =
     (if wk_wildIdx s < length (nwildcards (wk_matched s)) then jump (LInfix (wk_wildIdx s)) s else jump LBack s)"

text \<open>A lookup of the path below a node where the host may end; \<open>Inr\<close> goes on after a lookup without match.\<close>

definition path_below ::
  "('c, 'h, 'e) lookup_env \<Rightarrow> string \<Rightarrow> ('c, 'h) route node \<Rightarrow> ('c, 'h, 'e) wstate
   \<Rightarrow> (('c, 'h, 'e) wstate + ('c, 'h, 'e) wstate) option" where
  "path_below E path n s =
     (let stackOffset = length (wk_stack s) in
      case lookupByPath E \<lparr>pa_root = n, pa_path = path, pa_stackOffset = stackOffset\<rparr> (wk_params s) (wk_stack s) (wk_ls s) of
        None \<Rightarrow> None
      | Some r \<Rightarrow>
          let s' = s\<lparr>wk_params := wk_params r, wk_stack := wk_stack r, wk_ls := wk_ls r\<rparr> in
          (case wk_label r of
             LDone (Some hit) \<Rightarrow> Some (Inl (jump (LDone (Some hit)) s'))
           | LDone None \<Rightarrow>
               Some (Inr (s'\<lparr>wk_ls := (if 0 < stackOffset then setPathFailed n (wk_ls r) else wk_ls r),
                  wk_stack := drop (length (wk_stack r) - stackOffset) (wk_stack r)\<rparr>))
           | l \<Rightarrow> Some (Inl (jump l s'))))"

text \<open>The end of the host.\<close>

definition hwalk_end :: "('c, 'h, 'e) lookup_env \<Rightarrow> string \<Rightarrow> ('c, 'h, 'e) wstate \<Rightarrow> ('c, 'h, 'e) wstate option" where
  "hwalk_end E path s =
     (let matched = wk_matched s in
      if getStaticEdge matched slashDelim \<noteq> None \<and> \<not> pathFailed (wk_ls s) matched then
        (case path_below E path matched s of
           None \<Rightarrow> None
         | Some (Inl s) \<Rightarrow> Some s
         | Some (Inr s) \<Rightarrow> Some (jump LBack s))
      else Some (jump LBack s))"

definition hstep_walk :: "('c, 'h, 'e) lookup_env \<Rightarrow> string \<Rightarrow> ('c, 'h, 'e) wstate \<Rightarrow> ('c, 'h, 'e) wstate option" where
  "hstep_walk E path s =
     (if 0 < length (wk_search s) then
        (case hwalk_statics s of
           Some s \<Rightarrow> Some s
         | None \<Rightarrow>
             let s = s\<lparr>wk_skipStatic := False\<rparr> in
             (case hwalk_params E s of Some s \<Rightarrow> Some s | None \<Rightarrow> Some (hwalk_wildcards s)))
      else hwalk_end E path s)"

subsection \<open>The infix wildcards\<close>

definition lone_static :: "'r node \<Rightarrow> char \<Rightarrow> bool" where
  "lone_static n delim \<longleftrightarrow> length (nstatics n) = 1 \<and> nlabel (nstatics n ! 0) = delim"

definition hstep_infix ::
  "('c, 'h, 'e) lookup_env \<Rightarrow> string \<Rightarrow> nat \<Rightarrow> ('c, 'h, 'e) wstate \<Rightarrow> ('c, 'h, 'e) wstate" where
  "hstep_infix E host i s =
     (let wildcards = nwildcards (wk_matched s) in
      if \<not> i < length wildcards then jump (LSuffix None) s
      else
        let wildcardNode = wildcards ! i in
        if lone_static wildcardNode slashDelim then jump (LInfix (i + 1)) s
        else
          let searchStart = wk_chars s + wk_wildOff s; end = length host; evaluated = 0 < wk_wildOff s in
          if nregexp wildcardNode = None
          then jump (LScan i searchStart (scanEnd (wk_ls s) wildcardNode searchStart end) evaluated False) s
          else if evaluated
          then jump (LScan i searchStart end True True)
                 (s\<lparr>wk_ls := ends_of E wildcardNode host (wk_chars s) dotDelim (wk_ls s)\<rparr>)
          else if nnested wildcardNode then
            let (retry, ls) = retryScan E wildcardNode (wk_chars s) (wk_ls s)
            in jump (if retry then LVM else LScan i searchStart end False False) (s\<lparr>wk_ls := ls\<rparr>)
          else jump (LScan i searchStart end False False) s)"

definition htake_capture ::
  "('c, 'h, 'e) lookup_env \<Rightarrow> string \<Rightarrow> nat \<Rightarrow> nat \<Rightarrow> ('c, 'h, 'e) wstate \<Rightarrow> ('c, 'h, 'e) wstate" where
  "htake_capture E host i captureEnd s =
     (let matched = wk_matched s;
          s = push (length (nparams matched)) i (captureEnd - wk_chars s + 1) s;
          s = record_param E (slice host (wk_chars s) captureEnd) s
      in jump LWalk (s\<lparr>wk_matched := nwildcards matched ! i, wk_search := drop captureEnd host,
           wk_chars := captureEnd, wk_paramIdx := 0, wk_wildIdx := 0, wk_wildOff := 0\<rparr>))"

text \<open>After the captures of a wildcard, \<open>next_infix\<close> of the path walk marks its scan and goes on.\<close>

definition hstep_scan ::
  "('c, 'h, 'e) lookup_env \<Rightarrow> string \<Rightarrow> nat \<Rightarrow> nat \<Rightarrow> nat \<Rightarrow> bool \<Rightarrow> bool \<Rightarrow> ('c, 'h, 'e) wstate \<Rightarrow> ('c, 'h, 'e) wstate" where
  "hstep_scan E host i searchStart end evaluated ends s =
     (let wildcardNode = nwildcards (wk_matched s) ! i;
          (captureEnd, ls) =
            (if ends then ends_next E wildcardNode searchStart (wk_ls s)
             else (map_option (\<lambda>idx. searchStart + idx) (index_byte (slice host searchStart end) dotDelim), wk_ls s));
          s = s\<lparr>wk_ls := ls\<rparr>
      in case captureEnd of
           None \<Rightarrow> next_infix i s
         | Some captureEnd \<Rightarrow>
             let capturedValue = slice host (wk_chars s) captureEnd in
             if capturedValue = '''' then jump (LScan i (searchStart + 1) end evaluated ends) s
             else if nregexp wildcardNode \<noteq> None \<and> \<not> ends then
               (if evaluated then
                  jump (LScan i captureEnd end True True)
                    (s\<lparr>wk_ls := ends_of E wildcardNode host (wk_chars s) dotDelim (wk_ls s)\<rparr>)
                else if \<not> matchRegexp E wildcardNode capturedValue
                then jump (LScan i (captureEnd + 1) end True ends) s
                else htake_capture E host i captureEnd s)
             else htake_capture E host i captureEnd s)"

subsection \<open>The suffix catch-alls\<close>

text \<open>\<open>Inl\<close> leaves the loop, with a match or to the Pike VM.\<close>

fun htry_suffixes ::
  "('c, 'h, 'e) lookup_env \<Rightarrow> string \<Rightarrow> ('c, 'h) route node list \<Rightarrow> ('c, 'h, 'e) wstate
   \<Rightarrow> (('c, 'h, 'e) wstate + ('c, 'h, 'e) wstate) option" where
  "htry_suffixes E path [] s = Some (Inr s)"
| "htry_suffixes E path (w # ws) s =
     (if lone_static w dotDelim then htry_suffixes E path ws s
      else if pathFailed (wk_ls s) w then htry_suffixes E path ws s
      else
        let (retry, ls) = (if nregexp w \<noteq> None \<and> nnested w then retrySuffix E w (wk_ls s) else (False, wk_ls s));
            s = s\<lparr>wk_ls := ls\<rparr>
        in if retry then Some (Inl (jump LVM s))
           else if \<not> matchRegexp E w (wk_search s) then htry_suffixes E path ws s
           else
             (case path_below E path w (record_param E (wk_search s) s) of
                None \<Rightarrow> None
              | Some (Inl s') \<Rightarrow> Some (Inl s')
              | Some (Inr s') \<Rightarrow> htry_suffixes E path ws (s'\<lparr>wk_params := take (length (wk_params s)) (wk_params s')\<rparr>)))"

definition hstep_suffix :: "('c, 'h, 'e) lookup_env \<Rightarrow> string \<Rightarrow> ('c, 'h, 'e) wstate \<Rightarrow> ('c, 'h, 'e) wstate option" where
  "hstep_suffix E path s =
     (case htry_suffixes E path (nwildcards (wk_matched s)) s of
        None \<Rightarrow> None
      | Some (Inl s) \<Rightarrow> Some s
      | Some (Inr s) \<Rightarrow> Some (jump LBack s))"

subsection \<open>Backtracking and the whole walk\<close>

definition hstep_vm :: "('c, 'h, 'e) lookup_env \<Rightarrow> ('c, 'h, 'e) wstate \<Rightarrow> ('c, 'h, 'e) wstate" where
  "hstep_vm E s =
     (case outermostInfix 0 s of
        None \<Rightarrow> jump (LPanic ''internal error: nested wildcard outside of an infix capture'') s
      | Some (f, s) \<Rightarrow>
          (case lk_hostVM E f (wk_ls s) of
             (Some (i, n, tsr, params), ls) \<Rightarrow>
               found i n tsr (s\<lparr>wk_ls := ls, wk_params := wk_params s @ (if lk_lazy E then [] else params)\<rparr>)
           | (None, ls) \<Rightarrow> jump LBack (s\<lparr>wk_ls := ls\<rparr>)))"

text \<open>The host takes the place of the path in the arguments of the walk.\<close>

definition step_host ::
  "('c, 'h, 'e) lookup_env \<Rightarrow> ('c, 'h) route path_args \<Rightarrow> string \<Rightarrow> ('c, 'h, 'e) wstate \<Rightarrow> ('c, 'h, 'e) wstate option" where
  "step_host E A path s =
     (case wk_label s of
        LWalk \<Rightarrow> hstep_walk E path s
      | LInfix i \<Rightarrow> Some (hstep_infix E (pa_path A) i s)
      | LScan i searchStart end evaluated ends \<Rightarrow> Some (hstep_scan E (pa_path A) i searchStart end evaluated ends s)
      | LSuffix _ \<Rightarrow> hstep_suffix E path s
      | LBack \<Rightarrow> Some (step_pop A s)
      | LPop \<Rightarrow> Some (step_pop A s)
      | LVM \<Rightarrow> Some (hstep_vm E s)
      | LDone _ \<Rightarrow> Some s
      | LPanic _ \<Rightarrow> Some s)"

partial_function (option) run_host ::
  "('c, 'h, 'e) lookup_env \<Rightarrow> ('c, 'h) route path_args \<Rightarrow> string \<Rightarrow> ('c, 'h, 'e) wstate \<Rightarrow> ('c, 'h, 'e) wstate option" where
  "run_host E A path s =
     (if halted s then Some s
      else (case step_host E A path s of None \<Rightarrow> None | Some s' \<Rightarrow> run_host E A path s'))"

definition lookupByHostname ::
  "('c, 'h, 'e) lookup_env \<Rightarrow> ('c, 'h) route node \<Rightarrow> string \<Rightarrow> string \<Rightarrow> string list \<Rightarrow> ('c, 'h) route skipNode list
   \<Rightarrow> ('c, 'h, 'e) lstate \<Rightarrow> ('c, 'h, 'e) wstate option" where
  "lookupByHostname E root host path params stack ls =
     (let A = \<lparr>pa_root = root, pa_path = host, pa_stackOffset = 0\<rparr>
      in run_host E A path (start_path A params stack ls))"

text \<open>
  \<open>lookup\<close>: the state of the last lookup is dropped and the stack is emptied. \<open>reset\<close> is called when the state
  is dirty, and is the identity on the parts modelled here when it is not.
\<close>

definition lookup ::
  "('c, 'h, 'e) lookup_env \<Rightarrow> ('c, 'h) route node \<Rightarrow> string \<Rightarrow> string \<Rightarrow> string list \<Rightarrow> ('c, 'h, 'e) lstate
   \<Rightarrow> ('c, 'h, 'e) wstate option" where
  "lookup E n hostPort path params ls =
     (let ls = reset ls; A = \<lparr>pa_root = n, pa_path = path, pa_stackOffset = 0\<rparr>; host = StripHostPort hostPort in
      if length (nparams n) = 0 \<and> length (nwildcards n) = 0 \<and> length (nstatics n) = 1 \<and> nlabel (nstatics n ! 0) = slashDelim
      then lookupByPath E A params [] ls
      else if host = '''' \<or> slashDelim \<in> set host then lookupByPath E A params [] ls
      else
        (case lookupByHostname E n host path params [] ls of
           None \<Rightarrow> None
         | Some s \<Rightarrow>
             if wk_label s = LDone None then lookupByPath E A [] [] (wk_ls s) else Some s))"

end
