(* ===== verification/Lookup_Reference.thy ===== *)
theory Lookup_Reference
  imports Lookup_Path
begin

text \<open>
  The path lookup as a plain recursion over the pattern tree: no stack, no memo of failed scans, no listing
  of capture ends. \<open>ref\<close> gives the first match in the order of priority of the walk, with the index of its
  route, its leaf, whether the trailing slash was corrected, and the captures below the node.
\<close>

primrec first_some :: "('a \<Rightarrow> 'b option) \<Rightarrow> 'a list \<Rightarrow> 'b option" where
  "first_some f [] = None"
| "first_some f (x # xs) = (case f x of Some y \<Rightarrow> Some y | None \<Rightarrow> first_some f xs)"

lemma first_some_cong [fundef_cong]:
  "xs = ys \<Longrightarrow> (\<And>x. x \<in> set ys \<Longrightarrow> f x = g x) \<Longrightarrow> first_some f xs = first_some g ys"
  by (induction xs arbitrary: ys) (auto split: option.splits)

lemma first_some_None: "first_some f xs = None \<longleftrightarrow> (\<forall>x \<in> set xs. f x = None)"
  by (induction xs) (auto split: option.splits)

lemma first_some_Some: "first_some f xs = Some y \<Longrightarrow> \<exists>x \<in> set xs. f x = Some y"
  by (induction xs) (auto split: option.splits)

definition orelse :: "'a option \<Rightarrow> 'a option \<Rightarrow> 'a option" where
  "orelse a b = (case a of Some x \<Rightarrow> Some x | None \<Rightarrow> b)"

lemma orelse_simps [simp]: "orelse (Some x) b = Some x" "orelse None b = b" "orelse a None = a"
  by (auto simp: orelse_def split: option.splits)

text \<open>What the recursion needs to know of the request.\<close>

record ('c, 'h) ref_env =
  rf_accepts :: "('c, 'h) route \<Rightarrow> bool"
  rf_MatchString :: "regexp \<Rightarrow> string \<Rightarrow> bool"
  rf_path :: string
  rf_root :: "('c, 'h) route node"

type_synonym ('c, 'h) hit = "nat \<times> ('c, 'h) route node \<times> bool \<times> string list"

definition node_matches :: "('c, 'h) ref_env \<Rightarrow> ('c, 'h) route node \<Rightarrow> string \<Rightarrow> bool" where
  "node_matches R n s = (case nregexp n of None \<Rightarrow> True | Some re \<Rightarrow> rf_MatchString R re s)"

definition pick :: "('c, 'h) ref_env \<Rightarrow> (('c, 'h) route \<Rightarrow> bool) \<Rightarrow> ('c, 'h) route node \<Rightarrow> nat option" where
  "pick R P n = index_func (\<lambda>r. P r \<and> rf_accepts R r) (nroutes n)"

definition pick_wild ::
  "('c, 'h) ref_env \<Rightarrow> (('c, 'h) route \<Rightarrow> bool) \<Rightarrow> ('c, 'h) route node \<Rightarrow> (nat \<times> ('c, 'h) route node) option" where
  "pick_wild R P n = first_some (\<lambda>w. map_option (\<lambda>i. (i, w)) (pick R P w)) (nwildcards n)"

text \<open>A trailing slash added: the routes of \<open>child\<close>, or the empty match of one of its optional catch-alls.\<close>

definition ref_add_slash :: "('c, 'h) ref_env \<Rightarrow> ('c, 'h) route node \<Rightarrow> ('c, 'h) hit option" where
  "ref_add_slash R child =
     orelse (map_option (\<lambda>i. (i, child, True, [])) (pick R not_exact child))
       (map_option (\<lambda>(i, w). (i, w, True, [''''])) (pick_wild R (\<lambda>r. not_exact r \<and> optionalCatchAll (rpattern r)) child))"

text \<open>A trailing slash taken off: the rest of the path is the slash.\<close>

definition ref_back :: "('c, 'h) ref_env \<Rightarrow> ('c, 'h) route node \<Rightarrow> nat \<Rightarrow> ('c, 'h) hit option" where
  "ref_back R n pos =
     (if drop pos (rf_path R) = ''/'' \<and> \<not> has_suffix (rf_path R) ''//''
      then map_option (\<lambda>i. (i, n, True, [])) (pick R slash_off n) else None)"

definition slash_child :: "('c, 'h) route node \<Rightarrow> ('c, 'h) route node option" where
  "slash_child n =
     (case getStaticEdge n slashDelim of
        None \<Rightarrow> None | Some (_, child) \<Rightarrow> if nkey child = ''/'' then Some child else None)"

definition ref_end ::
  "('c, 'h) ref_env \<Rightarrow> ('c, 'h) route node option \<Rightarrow> ('c, 'h) route node \<Rightarrow> ('c, 'h) hit option" where
  "ref_end R parent n =
     orelse (map_option (\<lambda>i. (i, n, False, [])) (pick R (\<lambda>_. True) n))
       (orelse (map_option (\<lambda>(i, w). (i, w, False, [''''])) (pick_wild R (\<lambda>r. optionalCatchAll (rpattern r)) n))
          (case (if has_suffix (rf_path R) ''/'' then None else slash_child n) of
             Some child \<Rightarrow> ref_add_slash R child
           | None \<Rightarrow>
               (case parent of
                  None \<Rightarrow> None
                | Some p \<Rightarrow>
                    if nkey n = ''/'' \<and> \<not> has_suffix (rf_path R) ''//''
                    then map_option (\<lambda>i. (i, p, True, [])) (pick R slash_off p) else None)))"

text \<open>The ends of the captures of the infix wildcard \<open>w\<close> from \<open>pos\<close>, in increasing order.\<close>

definition capture_end :: "('c, 'h) ref_env \<Rightarrow> ('c, 'h) route node \<Rightarrow> nat \<Rightarrow> nat \<Rightarrow> bool" where
  "capture_end R w pos e \<longleftrightarrow>
     pos < e \<and> rf_path R ! e = slashDelim
     \<and> (let rest = drop e (rf_path R); key = nkey (nstatics w ! 0) in has_prefix rest key \<or> has_prefix key rest)
     \<and> node_matches R w (slice (rf_path R) pos e)"

definition captures :: "('c, 'h) ref_env \<Rightarrow> ('c, 'h) route node \<Rightarrow> nat \<Rightarrow> nat list" where
  "captures R w pos = filter (capture_end R w pos) [pos..<length (rf_path R)]"

text \<open>The infix wildcard captures the rest of the path and takes the slash of its child.\<close>

definition ref_infix_slash ::
  "('c, 'h) ref_env \<Rightarrow> nat \<Rightarrow> ('c, 'h) route node \<Rightarrow> (nat \<times> ('c, 'h) route node) option" where
  "ref_infix_slash R pos w =
     (if last (rf_path R) = slashDelim then None
      else (case slash_child w of
              None \<Rightarrow> None
            | Some child \<Rightarrow>
                if node_matches R w (drop pos (rf_path R))
                then map_option (\<lambda>j. (j, child)) (pick R not_exact child) else None))"

text \<open>
  The infix wildcards in order, with their matches \<open>sc\<close> and slash candidates \<open>ts\<close>: a match (\<open>Inl\<close>), or the
  candidate that is left for after the suffix catch-alls.
\<close>

fun infixes ::
  "('n \<Rightarrow> 'b option) \<Rightarrow> ('n \<Rightarrow> 'd option) \<Rightarrow> ('n \<Rightarrow> bool) \<Rightarrow> 'b option \<Rightarrow> 'n list \<Rightarrow> 'b + 'd option" where
  "infixes sc ts leafless bk [] = Inr None"
| "infixes sc ts leafless bk (w # ws) =
     (if leafless w then infixes sc ts leafless bk ws
      else (case sc w of
              Some h \<Rightarrow> Inl h
            | None \<Rightarrow>
                (case ts w of
                   Some c \<Rightarrow> Inr (Some c)
                 | None \<Rightarrow>
                     if ws = [] then Inr None
                     else (case bk of Some h \<Rightarrow> Inl h | None \<Rightarrow> infixes sc ts leafless bk ws))))"

lemma infixes_cong [fundef_cong]:
  "ws = ws' \<Longrightarrow> (\<And>w. w \<in> set ws' \<Longrightarrow> sc w = sc' w) \<Longrightarrow> ts = ts' \<Longrightarrow> lf = lf' \<Longrightarrow> bk = bk' \<Longrightarrow>
     infixes sc ts lf bk ws = infixes sc' ts' lf' bk' ws'"
  by (induction ws arbitrary: ws') (auto split: option.splits)

definition ref_suffix :: "('c, 'h) ref_env \<Rightarrow> ('c, 'h) route node \<Rightarrow> nat \<Rightarrow> ('c, 'h) hit option" where
  "ref_suffix R n pos =
     first_some (\<lambda>w. if node_matches R w (drop pos (rf_path R))
                   then map_option (\<lambda>i. (i, w, False, [drop pos (rf_path R)])) (pick R (\<lambda>_. True) w) else None)
       (nwildcards n)"

definition add_capture :: "string \<Rightarrow> ('c, 'h) hit \<Rightarrow> ('c, 'h) hit" where
  "add_capture v = (\<lambda>(i, n, tsr, vs). (i, n, tsr, v # vs))"

definition segment_end :: "string \<Rightarrow> nat" where
  "segment_end s = (case index_byte s slashDelim of None \<Rightarrow> length s | Some e \<Rightarrow> e)"

text \<open>After the infix wildcards: the suffix catch-alls, then the candidate, then the slash taken off.\<close>

definition ref_after ::
  "('c, 'h) ref_env \<Rightarrow> ('c, 'h) route node \<Rightarrow> nat \<Rightarrow> ('c, 'h) hit + (nat \<times> ('c, 'h) route node) option
   \<Rightarrow> ('c, 'h) hit option" where
  "ref_after R n pos res =
     (case res of
        Inl h \<Rightarrow> Some h
      | Inr cand \<Rightarrow>
          orelse (ref_suffix R n pos)
            (case cand of
               Some (j, child) \<Rightarrow> Some (j, child, True, [drop pos (rf_path R)])
             | None \<Rightarrow> ref_back R n pos))"

function ref ::
  "('c, 'h) ref_env \<Rightarrow> ('c, 'h) route node option \<Rightarrow> ('c, 'h) route node \<Rightarrow> nat \<Rightarrow> ('c, 'h) hit option" where
  "ref R parent n pos =
     (if length (rf_path R) \<le> pos then ref_end R parent n
      else
        let path = rf_path R; search = drop pos path;
            inner = n \<noteq> rf_root R;
            wild =
              ref_after R n pos
                (infixes (\<lambda>w. first_some (\<lambda>e. map_option (add_capture (slice path pos e)) (ref R (Some n) w e)) (captures R w pos))
                   (ref_infix_slash R pos) (\<lambda>w. nstatics w = []) (ref_back R n pos) (nwildcards n));
            end = segment_end search;
            dynamic =
              (if inner \<and> nparams n \<noteq> [] then
                 orelse
                   (if end = 0 then ref_back R n pos
                    else first_some (\<lambda>c. if node_matches R c (take end search)
                                      then map_option (add_capture (take end search)) (ref R (Some n) c (pos + end))
                                      else None) (nparams n))
                   (if nwildcards n \<noteq> [] then wild else None)
               else if inner \<and> nwildcards n \<noteq> [] then wild
               else ref_back R n pos)
        in (case getStaticEdge n (path ! pos) of
              None \<Rightarrow> dynamic
            | Some (_, child) \<Rightarrow>
                if has_prefix search (nkey child) then
                  orelse (ref R (Some n) child (pos + length (nkey child)))
                    (if inner \<and> (nparams n \<noteq> [] \<or> nwildcards n \<noteq> []) then dynamic else None)
                else if nkey child = search @ ''/'' \<and> \<not> has_suffix search ''/''
                then orelse (ref_add_slash R child) dynamic
                else dynamic))"
  by pat_completeness auto
termination
  by (relation "measure (\<lambda>(_, _, n, _). size n)") (auto dest: static_childD intro: child_size)

declare ref.simps [simp del]

end
