(* ===== verification/Lookup_Correct.thy ===== *)
theory Lookup_Correct
  imports Lookup_Reference
begin

text \<open>
  The walk of \<open>lookupByPath\<close> computes the reference recursion: from every request, tree and state of the
  memos that earlier lookups of the same request may leave, it returns, with the same match and the same
  captures. The Pike VM is never entered, as long as no wildcard with a regular expression is nested.
\<close>

subsection \<open>What the walk relies on\<close>

text \<open>
  The listing of capture ends, \<open>regprog.Ends\<close>: once started on an input, with a delimiter that is
  ASCII, \<open>Next\<close> gives the first end at or after its argument. \<open>serves e re s start delim\<close> says that \<open>e\<close> is such a listing.
\<close>

definition first_end :: "(string \<Rightarrow> bool) \<Rightarrow> string \<Rightarrow> nat \<Rightarrow> char \<Rightarrow> nat \<Rightarrow> nat option" where
  "first_end matches s start delim from =
     find (\<lambda>e. start < e \<and> s ! e = delim \<and> matches (slice s start e)) [from..<length s]"

definition listing_fine ::
  "('c, 'h, 'e) lookup_env \<Rightarrow> ('e \<Rightarrow> regexp \<Rightarrow> string \<Rightarrow> nat \<Rightarrow> char \<Rightarrow> bool) \<Rightarrow> 'e \<Rightarrow> bool" where
  "listing_fine E serves e \<longleftrightarrow> e = lk_ends_zero E \<or> (\<exists>re s start delim. serves e re s start delim)"

definition listing_ok ::
  "('c, 'h, 'e) lookup_env \<Rightarrow> ('e \<Rightarrow> regexp \<Rightarrow> string \<Rightarrow> nat \<Rightarrow> char \<Rightarrow> bool) \<Rightarrow> bool" where
  "listing_ok E serves \<longleftrightarrow>
     (\<forall>e re s start delim. listing_fine E serves e \<longrightarrow> serves (lk_ends_Start E re s start delim e) re s start delim)
     \<and> (\<forall>e re s start delim from. val delim < 0x80 \<longrightarrow> serves e re s start delim \<longrightarrow>
          fst (lk_ends_Next E from e) = first_end (lk_MatchString E re) s start delim from
          \<and> serves (snd (lk_ends_Next E from e)) re s start delim)
     \<and> (\<forall>re c s. val c < 0x80 \<longrightarrow> \<not> lk_Consumes E re c \<longrightarrow> lk_MatchString E re s \<longrightarrow> c \<notin> set s)"

function sub :: "'r node \<Rightarrow> 'r node set" where
  "sub n = insert n ((\<Union>c \<in> set (nstatics n). sub c) \<union> (\<Union>c \<in> set (nparams n). sub c) \<union> (\<Union>c \<in> set (nwildcards n). sub c))"
  by auto
termination
  by (relation "measure size") (auto intro: child_size)

declare sub.simps [simp del]

lemma sub_refl: "n \<in> sub n"
  using sub.simps [of n] by blast

lemma sub_child: "c \<in> children n \<Longrightarrow> sub c \<subseteq> sub n"
  using sub.simps [of n] by (auto simp: children_def)

lemma child_smaller: "c \<in> children n \<Longrightarrow> size c < size n"
  by (auto simp: children_def intro: child_size)

text \<open>Every route of the tree comes from \<open>NewRoute\<close>, and no wildcard with a regular expression is nested.\<close>

definition walk_ok :: "('c, 'h) route node \<Rightarrow> bool" where
  "walk_ok n \<longleftrightarrow> wf_node n \<and> (\<forall>m \<in> sub n. (\<forall>r \<in> set (nroutes m). fast_ok r)
     \<and> (\<forall>w \<in> set (nwildcards m). nregexp w \<noteq> None \<longrightarrow> \<not> nnested w))"

lemma walk_ok_child: "walk_ok n \<Longrightarrow> c \<in> children n \<Longrightarrow> walk_ok c"
  using sub_child [of c n] wf_child [of n c] by (auto simp: walk_ok_def)

lemma walk_okD:
  assumes "walk_ok n"
  shows "wf_node n" "r \<in> set (nroutes n) \<Longrightarrow> fast_ok r"
    "w \<in> set (nwildcards n) \<Longrightarrow> nregexp w \<noteq> None \<Longrightarrow> \<not> nnested w"
  using assms sub_refl [of n] by (auto simp: walk_ok_def)

definition lookup_ok ::
  "('c, 'h, 'e) lookup_env \<Rightarrow> ('e \<Rightarrow> regexp \<Rightarrow> string \<Rightarrow> nat \<Rightarrow> char \<Rightarrow> bool) \<Rightarrow> bool" where
  "lookup_ok E serves \<longleftrightarrow> lk_method E \<noteq> '''' \<and> listing_ok E serves"

definition ref_of :: "('c, 'h, 'e) lookup_env \<Rightarrow> ('c, 'h) route path_args \<Rightarrow> ('c, 'h) ref_env" where
  "ref_of E A = \<lparr>rf_accepts = accepts (lk_eval E) (lk_method E), rf_MatchString = lk_MatchString E,
     rf_path = pa_path A, rf_root = pa_root A\<rparr>"

lemma ref_of_simps [simp]:
  "rf_accepts (ref_of E A) = accepts (lk_eval E) (lk_method E)" "rf_MatchString (ref_of E A) = lk_MatchString E"
  "rf_path (ref_of E A) = pa_path A" "rf_root (ref_of E A) = pa_root A"
  by (simp_all add: ref_of_def)

lemma matchRegexp_eq: "matchRegexp E n s = node_matches (ref_of E A) n s"
  by (simp add: matchRegexp_def node_matches_def split: option.splits)

subsection \<open>The memos\<close>

text \<open>A scan of \<open>w\<close> from \<open>start\<close> failed: no capture that ends later leads to a match, nor does the slash.\<close>

definition scan_failed :: "('c, 'h) ref_env \<Rightarrow> ('c, 'h) route node \<Rightarrow> nat \<Rightarrow> bool" where
  "scan_failed R w start \<longleftrightarrow> nregexp w = None
     \<and> (\<forall>e p. start < e \<and> e < length (rf_path R) \<and> capture_end R w start e \<longrightarrow> ref R p w e = None)
     \<and> ref_infix_slash R start w = None"

definition ls_fine ::
  "('c, 'h, 'e) lookup_env \<Rightarrow> ('c, 'h) route path_args \<Rightarrow> ('e \<Rightarrow> regexp \<Rightarrow> string \<Rightarrow> nat \<Rightarrow> char \<Rightarrow> bool)
   \<Rightarrow> ('c, 'h, 'e) lstate \<Rightarrow> bool" where
  "ls_fine E A serves ls \<longleftrightarrow> failed_ok (lk_eval E) (failedMatchers ls)
     \<and> (\<forall>(w, start) \<in> set (exhausted ls). scan_failed (ref_of E A) w start)
     \<and> (\<forall>x \<in> set (regexps ls). listing_fine E serves (rw_ends x))"

lemma match_routes_fine:
  assumes "lk_method E \<noteq> ''''" "ls_fine E A serves ls" "\<And>r. r \<in> set rs \<Longrightarrow> fast_ok r"
  shows "fst (match_routes E P rs ls) = index_func (\<lambda>r. P r \<and> accepts (lk_eval E) (lk_method E) r) rs
    \<and> ls_fine E A serves (snd (match_routes E P rs ls))"
  using assms(2,3)
proof (induction rs arbitrary: ls)
  case (Cons r rs)
  show ?case
  proof (cases "P r")
    case False
    with Cons.IH [OF Cons.prems(1)] Cons.prems(2) show ?thesis by (simp add: split_beta Let_def)
  next
    case True
    obtain ok f where m: "match (lk_eval E) (lk_method E) (failedMatchers ls) r = (ok, f)" by fastforce
    have fo: "failed_ok (lk_eval E) (failedMatchers ls)" using Cons.prems(1) by (simp add: ls_fine_def)
    have "ok = accepts (lk_eval E) (lk_method E) r" "failed_ok (lk_eval E) f"
      using match_accepts [OF _ assms(1) fo, of r] Cons.prems(2) [of r] m by auto
    moreover from this have "ls_fine E A serves (ls\<lparr>failedMatchers := f\<rparr>)"
      using Cons.prems(1) by (simp add: ls_fine_def)
    ultimately show ?thesis
      using Cons.IH [of "ls\<lparr>failedMatchers := f\<rparr>"] Cons.prems(2) True m by (simp add: split_beta Let_def)
  qed
qed simp

text \<open>The same in the form the steps use: a result and a state that is still fine.\<close>

lemma match_routes_cases:
  assumes "lk_method E \<noteq> ''''" "ls_fine E A serves ls" "\<And>r. r \<in> set (nroutes n) \<Longrightarrow> fast_ok r"
  obtains ls' where "match_routes E P (nroutes n) ls = (pick (ref_of E A) P n, ls')" "ls_fine E A serves ls'"
  using match_routes_fine [OF assms] that [of "snd (match_routes E P (nroutes n) ls)"]
  by (simp add: pick_def prod_eq_iff)

lemma match_wildcards_fine:
  assumes "lk_method E \<noteq> ''''" "ls_fine E A serves ls" "\<And>w r. w \<in> set ws \<Longrightarrow> r \<in> set (nroutes w) \<Longrightarrow> fast_ok r"
  shows "\<exists>ls'. match_wildcards E P ws ls
      = (first_some (\<lambda>w. map_option (\<lambda>i. (i, w)) (pick (ref_of E A) P w)) ws, ls') \<and> ls_fine E A serves ls'"
  using assms(2,3)
proof (induction ws arbitrary: ls)
  case (Cons w ws)
  obtain ls' where m: "match_routes E P (nroutes w) ls = (pick (ref_of E A) P w, ls')" "ls_fine E A serves ls'"
    using match_routes_cases [OF assms(1) Cons.prems(1)] Cons.prems(2) by (metis list.set_intros(1))
  with Cons.IH [OF m(2)] Cons.prems(2) show ?case by (cases "pick (ref_of E A) P w") auto
qed simp

lemma match_wildcards_cases:
  assumes "lk_method E \<noteq> ''''" "ls_fine E A serves ls" "walk_ok n"
  obtains ls' where "match_wildcards E P (nwildcards n) ls = (pick_wild (ref_of E A) P n, ls')" "ls_fine E A serves ls'"
proof -
  have "fast_ok r" if "w \<in> set (nwildcards n)" "r \<in> set (nroutes w)" for w r
    using walk_okD(2) [OF walk_ok_child [OF assms(3)]] that by (auto simp: children_def)
  with match_wildcards_fine [OF assms(1,2), of "nwildcards n" P]
  obtain ls' where "match_wildcards E P (nwildcards n) ls
      = (first_some (\<lambda>w. map_option (\<lambda>i. (i, w)) (pick (ref_of E A) P w)) (nwildcards n), ls')" "ls_fine E A serves ls'"
    by blast
  then show thesis by (rule that [unfolded pick_wild_def])
qed

lemma matchTrailingSlash_cases:
  assumes "lk_method E \<noteq> ''''" "ls_fine E A serves ls" "walk_ok child"
  obtains ls' where "ls_fine E A serves ls'" "matchTrailingSlash E child ls ps =
     (case ref_add_slash (ref_of E A) child of
        None \<Rightarrow> (None, ls', ps)
      | Some (i, n, tsr, vs) \<Rightarrow> (Some (i, n), ls', if lk_lazy E then ps else ps @ vs))"
    "\<And>i n tsr vs. ref_add_slash (ref_of E A) child = Some (i, n, tsr, vs) \<Longrightarrow> tsr"
proof -
  obtain ls1 where 1: "match_routes E not_exact (nroutes child) ls = (pick (ref_of E A) not_exact child, ls1)"
      "ls_fine E A serves ls1"
    using match_routes_cases [OF assms(1,2)] walk_okD(2) [OF assms(3)] by metis
  have leafless: "pick (ref_of E A) not_exact child = None" if "nroutes child = []"
    using that by (simp add: pick_def)
  show thesis
  proof (cases "pick (ref_of E A) not_exact child")
    case None
    let ?P = "\<lambda>r. not_exact r \<and> optionalCatchAll (rpattern r)"
    have fine: "ls_fine E A serves (if nroutes child = [] then ls else ls1)" using 1(2) assms(2) by simp
    obtain ls' where m: "match_wildcards E ?P (nwildcards child) (if nroutes child = [] then ls else ls1)
        = (pick_wild (ref_of E A) ?P child, ls')" "ls_fine E A serves ls'"
      by (rule match_wildcards_cases [OF assms(1) fine assms(3)])
    have "matchTrailingSlash E child ls ps =
        (case pick_wild (ref_of E A) ?P child of
           None \<Rightarrow> (None, ls', ps) | Some (i, w) \<Rightarrow> (Some (i, w), ls', if lk_lazy E then ps else ps @ ['''']))"
      using 1(1) m(1) None
      by (cases "nroutes child = []"; cases "pick_wild (ref_of E A) ?P child") (auto simp: matchTrailingSlash_def)
    moreover have "ref_add_slash (ref_of E A) child = map_option (\<lambda>(i, w). (i, w, True, [''''])) (pick_wild (ref_of E A) ?P child)"
      using None by (simp add: ref_add_slash_def)
    ultimately show thesis
      by (intro that [OF m(2)]) (auto split: option.splits)
  next
    case (Some i)
    with leafless have "nroutes child \<noteq> []" by auto
    with 1 Some show thesis
      by (intro that [of ls1]) (auto simp: matchTrailingSlash_def ref_add_slash_def)
  qed
qed
subsection \<open>Runs of the walk\<close>

definition reaches ::
  "('c, 'h, 'e) lookup_env \<Rightarrow> ('c, 'h) route path_args \<Rightarrow> ('c, 'h, 'e) wstate \<Rightarrow> ('c, 'h, 'e) wstate \<Rightarrow> bool" where
  "reaches E A s s' \<longleftrightarrow> (\<exists>k. (step_path E A ^^ k) s = s')"

lemma reaches_refl: "reaches E A s s"
  unfolding reaches_def by (rule exI [of _ 0]) simp

lemma reaches_trans: "reaches E A s s' \<Longrightarrow> reaches E A s' s'' \<Longrightarrow> reaches E A s s''"
proof -
  assume "reaches E A s s'" "reaches E A s' s''"
  then obtain j k where "(step_path E A ^^ j) s = s'" "(step_path E A ^^ k) s' = s''" by (auto simp: reaches_def)
  then have "(step_path E A ^^ (k + j)) s = s''" by (simp add: funpow_add)
  then show "reaches E A s s''" unfolding reaches_def by blast
qed

lemma reaches_step: "reaches E A s (step_path E A s)"
  unfolding reaches_def by (rule exI [of _ 1]) simp

lemma run_path_reaches: "reaches E A s s' \<Longrightarrow> halted s' \<Longrightarrow> run_path E A s = Some s'"
proof -
  have "(step_path E A ^^ k) s = s' \<Longrightarrow> halted s' \<Longrightarrow> run_path E A s = Some s'" for k
  proof (induction k arbitrary: s)
    case 0
    then show ?case by (subst run_path.simps) simp
  next
    case (Suc k)
    show ?case
    proof (cases "halted s")
      case True
      then have "step_path E A s = s" by (auto simp: halted_def step_path_def split: label.splits)
      then have "(step_path E A ^^ j) s = s" for j by (induction j) simp_all
      with Suc.prems have "s' = s" by metis
      with True show ?thesis by (subst run_path.simps) simp
    next
      case False
      from Suc.prems have "(step_path E A ^^ k) (step_path E A s) = s'" by (simp add: funpow_swap1)
      with Suc.IH Suc.prems(2) False show ?thesis by (subst run_path.simps) simp
    qed
  qed
  then show "reaches E A s s' \<Longrightarrow> halted s' \<Longrightarrow> run_path E A s = Some s'" by (auto simp: reaches_def)
qed

text \<open>
  What a run from a state leads to: the match \<open>res\<close>, with its captures appended to \<open>ps\<close>, or, without one,
  the point where the entry below \<open>K\<close> of the stack is resumed.
\<close>

definition ends_with ::
  "('c, 'h, 'e) lookup_env \<Rightarrow> ('c, 'h) route path_args \<Rightarrow> ('e \<Rightarrow> regexp \<Rightarrow> string \<Rightarrow> nat \<Rightarrow> char \<Rightarrow> bool)
   \<Rightarrow> string list \<Rightarrow> ('c, 'h) route skipNode list \<Rightarrow> ('c, 'h) hit option \<Rightarrow> ('c, 'h, 'e) wstate \<Rightarrow> bool" where
  "ends_with E A serves ps K res s \<longleftrightarrow>
     (\<exists>s'. reaches E A s s' \<and> ls_fine E A serves (wk_ls s')
        \<and> (case res of
             Some (i, n, tsr, vs) \<Rightarrow>
               wk_label s' = LDone (Some (i, n, tsr)) \<and> wk_params s' = ps @ (if lk_lazy E then [] else vs)
           | None \<Rightarrow> wk_label s' = LPop \<and> wk_stack s' = K \<and> (\<exists>xs. wk_params s' = ps @ xs)))"

lemma ends_step: "ends_with E A serves ps K res (step_path E A s) \<Longrightarrow> ends_with E A serves ps K res s"
  unfolding ends_with_def using reaches_trans [OF reaches_step] by blast

lemma ends_here:
  assumes "ls_fine E A serves (wk_ls s)"
  shows "wk_label s = LDone (Some (i, n, tsr)) \<Longrightarrow> wk_params s = ps @ (if lk_lazy E then [] else vs) \<Longrightarrow>
      ends_with E A serves ps K (Some (i, n, tsr, vs)) s"
    and "wk_label s = LPop \<Longrightarrow> wk_stack s = K \<Longrightarrow> wk_params s = ps \<Longrightarrow> ends_with E A serves ps K None s"
  using assms reaches_refl [of E A s] unfolding ends_with_def by (fastforce)+

lemma ends_reaches: "reaches E A s s' \<Longrightarrow> ends_with E A serves ps K res s' \<Longrightarrow> ends_with E A serves ps K res s"
  unfolding ends_with_def using reaches_trans by blast

text \<open>After a failure below an entry pushed on \<open>K\<close>, the walk resumes at that entry.\<close>

definition wst ::
  "('c, 'h) route path_args \<Rightarrow> ('c, 'h) route label \<Rightarrow> ('c, 'h) route node \<Rightarrow> ('c, 'h) route node option \<Rightarrow> nat \<Rightarrow> bool
   \<Rightarrow> nat \<Rightarrow> nat \<Rightarrow> nat \<Rightarrow> string list \<Rightarrow> ('c, 'h) route skipNode list \<Rightarrow> ('c, 'h, 'e) lstate \<Rightarrow> ('c, 'h, 'e) wstate" where
  "wst A l n p pos sk pi wi wo ps K ls =
     \<lparr>wk_label = l, wk_matched = n, wk_parent = p, wk_search = drop pos (pa_path A), wk_chars = pos,
      wk_skipStatic = sk, wk_paramIdx = pi, wk_wildIdx = wi, wk_wildOff = wo, wk_params = ps, wk_stack = K, wk_ls = ls\<rparr>"

lemma wst_simps [simp]:
  "wk_label (wst A l n p pos sk pi wi wo ps K ls) = l" "wk_matched (wst A l n p pos sk pi wi wo ps K ls) = n"
  "wk_parent (wst A l n p pos sk pi wi wo ps K ls) = p" "wk_search (wst A l n p pos sk pi wi wo ps K ls) = drop pos (pa_path A)"
  "wk_chars (wst A l n p pos sk pi wi wo ps K ls) = pos" "wk_skipStatic (wst A l n p pos sk pi wi wo ps K ls) = sk"
  "wk_paramIdx (wst A l n p pos sk pi wi wo ps K ls) = pi" "wk_wildIdx (wst A l n p pos sk pi wi wo ps K ls) = wi"
  "wk_wildOff (wst A l n p pos sk pi wi wo ps K ls) = wo" "wk_params (wst A l n p pos sk pi wi wo ps K ls) = ps"
  "wk_stack (wst A l n p pos sk pi wi wo ps K ls) = K" "wk_ls (wst A l n p pos sk pi wi wo ps K ls) = ls"
  by (simp_all add: wst_def)

lemma wst_updates [simp]:
  "jump l' (wst A l n p pos sk pi wi wo ps K ls) = wst A l' n p pos sk pi wi wo ps K ls"
  "wst A l n p pos sk pi wi wo ps K ls\<lparr>wk_ls := ls'\<rparr> = wst A l n p pos sk pi wi wo ps K ls'"
  "wst A l n p pos sk pi wi wo ps K ls\<lparr>wk_params := ps'\<rparr> = wst A l n p pos sk pi wi wo ps' K ls"
  "wst A l n p pos sk pi wi wo ps K ls\<lparr>wk_skipStatic := sk'\<rparr> = wst A l n p pos sk' pi wi wo ps K ls"
  "push a b c (wst A l n p pos sk pi wi wo ps K ls) = wst A l n p pos sk pi wi wo ps
     (\<lparr>sk_node = n, sk_parent = p, sk_charsMatched = pos, sk_paramCnt = length ps, sk_childParamIdx = a,
       sk_childWildcardIdx = b, sk_wildcardOffset = c\<rparr> # K) ls"
  "record_param E v (wst A l n p pos sk pi wi wo ps K ls) =
     wst A l n p pos sk pi wi wo (ps @ (if lk_lazy E then [] else [v])) K ls"
  by (simp_all add: wst_def jump_def push_def record_param_def)
subsection \<open>The steps without a descent\<close>

lemma ends_done:
  assumes "ls_fine E A serves ls" "ps' = ps @ (if lk_lazy E then [] else vs)"
  shows "ends_with E A serves ps K (Some (i, m, tsr, vs)) (found i m tsr (wst A l n p pos sk pi wi wo ps' K' ls))"
  using assms by (intro ends_here) (simp_all add: found_def)

lemma ends_back:
  assumes "lk_method E \<noteq> ''''" "ls_fine E A serves ls" "walk_ok n"
  shows "ends_with E A serves ps K (ref_back (ref_of E A) n pos) (wst A LBack n p pos sk pi wi wo ps K ls)"
proof -
  obtain ls' where m: "match_routes E slash_off (nroutes n) ls = (pick (ref_of E A) slash_off n, ls')"
      "ls_fine E A serves ls'"
    using match_routes_cases [OF assms(1,2)] walk_okD(2) [OF assms(3)] by metis
  have leaf: "pick (ref_of E A) slash_off n = None" if "nroutes n = []"
    using that by (simp add: pick_def)
  let ?s = "wst A LBack n p pos sk pi wi wo ps K ls"
  have "ends_with E A serves ps K (ref_back (ref_of E A) n pos) (step_path E A ?s)"
  proof (cases "drop pos (pa_path A) = ''/'' \<and> nroutes n \<noteq> [] \<and> \<not> has_suffix (pa_path A) ''//''")
    case False
    then have "step_path E A ?s = wst A LPop n p pos sk pi wi wo ps K ls" "ref_back (ref_of E A) n pos = None"
      using leaf by (auto simp: step_path_def step_back_def ref_back_def)
    then show ?thesis using ends_here(2) [of E A serves "wst A LPop n p pos sk pi wi wo ps K ls"] assms(2) by simp
  next
    case True
    show ?thesis
    proof (cases "pick (ref_of E A) slash_off n")
      case None
      then have "step_path E A ?s = wst A LPop n p pos sk pi wi wo ps K ls'" "ref_back (ref_of E A) n pos = None"
        using True m by (simp_all add: step_path_def step_back_def ref_back_def)
      then show ?thesis using ends_here(2) [of E A serves "wst A LPop n p pos sk pi wi wo ps K ls'"] m(2) by simp
    next
      case (Some i)
      then have "step_path E A ?s = found i n True (wst A LBack n p pos sk pi wi wo ps K ls')"
          "ref_back (ref_of E A) n pos = Some (i, n, True, [])"
        using True m by (simp_all add: step_path_def step_back_def ref_back_def)
      then show ?thesis using ends_done [OF m(2), of ps ps "[]"] by simp
    qed
  qed
  then show ?thesis by (rule ends_step)
qed

lemma slash_child_eq:
  "(case getStaticEdge n slashDelim of
      None \<Rightarrow> None
    | Some (_, child) \<Rightarrow> if nkey child = ''/'' \<and> \<not> has_suffix path ''/'' then Some child else None)
   = (if has_suffix path ''/'' then None else slash_child n)"
  by (simp add: slash_child_def split: option.splits)

lemma slash_child_children: "slash_child n = Some c \<Longrightarrow> c \<in> children n"
  by (auto simp: slash_child_def split: option.splits if_splits dest: static_childD)

lemma ends_end:
  assumes meth: "lk_method E \<noteq> ''''" and fine: "ls_fine E A serves ls" and n: "walk_ok n"
    and parent: "\<And>m. p = Some m \<Longrightarrow> \<forall>r \<in> set (nroutes m). fast_ok r" and pos: "length (pa_path A) \<le> pos"
  shows "ends_with E A serves ps K (ref_end (ref_of E A) p n) (wst A LWalk n p pos sk pi wi wo ps K ls)"
proof -
  let ?R = "ref_of E A"
  let ?s = "\<lambda>l ls. wst A l n p pos sk pi wi wo ps K ls"
  let ?opt = "\<lambda>r :: ('a, 'b) route. optionalCatchAll (rpattern r)"
  have bk: "ends_with E A serves ps K None (?s LBack ls)" if "ls_fine E A serves ls" for ls
    using ends_back [OF meth that n, of ps K pos p sk pi wi wo] pos by (simp add: ref_back_def)
  have step: "step_path E A (?s LWalk ls) = walk_end E A (?s LWalk ls)"
    using pos by (simp add: step_path_def step_walk_def)
  obtain ls1 where m1: "match_routes E (\<lambda>_. True) (nroutes n) ls = (pick ?R (\<lambda>_. True) n, ls1)" "ls_fine E A serves ls1"
    using match_routes_cases [OF meth fine] walk_okD(2) [OF n] by metis
  have leaf: "pick ?R (\<lambda>_. True) n = None" if "nroutes n = []" using that by (simp add: pick_def)
  have "ends_with E A serves ps K (ref_end ?R p n) (walk_end E A (?s LWalk ls))"
  proof (cases "pick ?R (\<lambda>_. True) n")
    case (Some i)
    with leaf m1 have "walk_end E A (?s LWalk ls) = found i n False (?s LWalk ls1)" by (auto simp: walk_end_def Let_def)
    moreover have "ref_end ?R p n = Some (i, n, False, [])" using Some by (simp add: ref_end_def)
    ultimately show ?thesis using ends_done [OF m1(2), of ps ps "[]"] by simp
  next
    case none1: None
    define lsA where "lsA = (if nroutes n = [] then ls else ls1)"
    have lsA: "(if isLeaf n then match_routes E (\<lambda>_. True) (nroutes n) ls else (None, ls)) = (None, lsA)"
        "ls_fine E A serves lsA"
      using none1 m1 fine by (simp_all add: lsA_def)
    obtain lsB where m2: "match_wildcards E ?opt (nwildcards n) lsA = (pick_wild ?R ?opt n, lsB)" "ls_fine E A serves lsB"
      by (rule match_wildcards_cases [OF meth lsA(2) n])
    show ?thesis
    proof (cases "pick_wild ?R ?opt n")
      case (Some iw)
      obtain i w where iw: "iw = (i, w)" by fastforce
      have "walk_end E A (?s LWalk ls) = found i w False (record_param E '''' (?s LWalk lsB))"
        unfolding walk_end_def Let_def wst_simps lsA(1) by (simp add: m2(1) Some iw)
      moreover have "ref_end ?R p n = Some (i, w, False, [''''])"
        using none1 Some iw by (simp add: ref_end_def)
      ultimately show ?thesis
        using ends_done [OF m2(2), of "ps @ (if lk_lazy E then [] else [''''])" ps "['''']"] by simp
    next
      case none2: None
      let ?add = "if has_suffix (pa_path A) ''/'' then None else slash_child n"
      have walk: "walk_end E A (?s LWalk ls) =
          (case ?add of
             Some child \<Rightarrow>
               (case matchTrailingSlash E child lsB ps of
                  (Some (i, m), ls, params) \<Rightarrow> found i m True ((?s LWalk ls)\<lparr>wk_params := params\<rparr>)
                | (None, ls, params) \<Rightarrow> (?s LBack ls)\<lparr>wk_params := params\<rparr>)
           | None \<Rightarrow>
               (case p of
                  None \<Rightarrow> ?s LBack lsB
                | Some m \<Rightarrow>
                    if nkey n = ''/'' \<and> isLeaf m \<and> \<not> has_suffix (pa_path A) ''//'' then
                      (case match_routes E slash_off (nroutes m) lsB of
                         (Some i, ls) \<Rightarrow> found i m True (?s LWalk ls)
                       | (None, ls) \<Rightarrow> ?s LBack ls)
                    else ?s LBack lsB))"
        unfolding walk_end_def Let_def wst_simps lsA(1)
        by (simp add: m2(1) none2 slash_child_eq) (auto split: option.splits prod.splits)
      have end_eq: "ref_end ?R p n =
          (case ?add of
             Some child \<Rightarrow> ref_add_slash ?R child
           | None \<Rightarrow> (case p of None \<Rightarrow> None
               | Some m \<Rightarrow> if nkey n = ''/'' \<and> \<not> has_suffix (pa_path A) ''//''
                           then map_option (\<lambda>i. (i, m, True, [])) (pick ?R slash_off m) else None))"
        unfolding ref_end_def ref_of_simps none1 none2 by simp
      show ?thesis
      proof (cases ?add)
        case (Some child)
        then have child: "walk_ok child"
          using walk_ok_child [OF n slash_child_children] by (simp split: if_splits)
        obtain ls' where ts: "ls_fine E A serves ls'" "matchTrailingSlash E child lsB ps =
            (case ref_add_slash ?R child of None \<Rightarrow> (None, ls', ps)
             | Some (i, n, tsr, vs) \<Rightarrow> (Some (i, n), ls', if lk_lazy E then ps else ps @ vs))"
            "\<And>i n tsr vs. ref_add_slash ?R child = Some (i, n, tsr, vs) \<Longrightarrow> tsr"
          by (rule matchTrailingSlash_cases [OF meth m2(2) child]) blast
        show ?thesis
        proof (cases "ref_add_slash ?R child")
          case None
          then show ?thesis using bk [OF ts(1)] Some by (simp add: walk end_eq ts(2))
        next
          case (Some hit)
          obtain i m t vs where hit: "hit = (i, m, t, vs)" by (cases hit)
          with ts(3) Some have "t" by blast
          have "ends_with E A serves ps K (Some (i, m, True, vs))
              (found i m True (wst A LWalk n p pos sk pi wi wo (if lk_lazy E then ps else ps @ vs) K ls'))"
            by (rule ends_done [OF ts(1)]) simp
          with Some hit \<open>t\<close> \<open>?add = Some child\<close> show ?thesis by (simp add: walk end_eq ts(2))
        qed
      next
        case None
        show ?thesis
        proof (cases p)
          case None
          with \<open>?add = None\<close> show ?thesis unfolding walk end_eq using bk [OF m2(2)] by simp
        next
          case (Some m)
          obtain ls' where m3: "match_routes E slash_off (nroutes m) lsB = (pick ?R slash_off m, ls')" "ls_fine E A serves ls'"
            using match_routes_cases [OF meth m2(2)] parent [OF Some] by metis
          have leaf: "pick ?R slash_off m = None" if "nroutes m = []" using that by (simp add: pick_def)
          show ?thesis
          proof (cases "nkey n = ''/'' \<and> nroutes m \<noteq> [] \<and> \<not> has_suffix (pa_path A) ''//''")
            case False
            with \<open>?add = None\<close> Some leaf show ?thesis unfolding walk end_eq using bk [OF m2(2)] by auto
          next
            case True
            then show ?thesis unfolding walk end_eq
              using \<open>?add = None\<close> Some m3 bk [OF m3(2)] ends_done [OF m3(2), of ps ps "[]"]
              by (cases "pick ?R slash_off m") simp_all
          qed
        qed
      qed
    qed
  qed
  with step show ?thesis by (metis ends_step)
qed
subsection \<open>Suffix catch-alls\<close>

lemma try_suffixes_spec:
  assumes "lk_method E \<noteq> ''''" "ls_fine E A serves ls" "walk_ok n" "set ws \<subseteq> set (nwildcards n)"
  shows "\<exists>ls'. ls_fine E A serves ls' \<and> try_suffixes E ws (wst A l n p pos sk pi wi wo ps K ls) =
     (case first_some (\<lambda>w. if node_matches (ref_of E A) w (drop pos (pa_path A))
                    then map_option (\<lambda>i. (i, w, False, [drop pos (pa_path A)])) (pick (ref_of E A) (\<lambda>_. True) w) else None) ws of
        Some (i, w, tsr, vs) \<Rightarrow> Inl (found i w False (wst A l n p pos sk pi wi wo (ps @ (if lk_lazy E then [] else vs)) K ls'))
      | None \<Rightarrow> Inr (wst A l n p pos sk pi wi wo ps K ls'))"
  using assms(2,4)
proof (induction ws arbitrary: ls)
  case Nil
  then show ?case by auto
next
  case (Cons w ws)
  from Cons.prems(2) have w: "w \<in> set (nwildcards n)" and ws: "set ws \<subseteq> set (nwildcards n)" by auto
  have ok: "walk_ok w" using walk_ok_child [OF assms(3)] w by (simp add: children_def)
  have nest: "\<not> (nregexp w \<noteq> None \<and> nnested w)" using walk_okD(3) [OF assms(3) w] by blast
  obtain ls1 where m: "match_routes E (\<lambda>_. True) (nroutes w) ls = (pick (ref_of E A) (\<lambda>_. True) w, ls1)" "ls_fine E A serves ls1"
    using match_routes_cases [OF assms(1) Cons.prems(1)] walk_okD(2) [OF ok] by metis
  note IH = Cons.IH [OF Cons.prems(1) ws] and IH1 = Cons.IH [OF m(2) ws]
  show ?case
  proof (cases "nroutes w = [] \<or> \<not> node_matches (ref_of E A) w (drop pos (pa_path A))")
    case True
    then have "try_suffixes E (w # ws) (wst A l n p pos sk pi wi wo ps K ls)
        = try_suffixes E ws (wst A l n p pos sk pi wi wo ps K ls)"
      using nest matchRegexp_eq [of E w "drop pos (pa_path A)" A] by auto
    moreover have "pick (ref_of E A) (\<lambda>_. True) w = None" if "nroutes w = []" using that by (simp add: pick_def)
    ultimately show ?thesis using IH True by auto
  next
    case False
    then show ?thesis
      using nest matchRegexp_eq [of E w "drop pos (pa_path A)" A] m IH1
      by (cases "pick (ref_of E A) (\<lambda>_. True) w") (auto simp: Let_def)
  qed
qed

lemma ends_suffix:
  assumes "lk_method E \<noteq> ''''" "ls_fine E A serves ls" "walk_ok n"
  shows "ends_with E A serves ps K (ref_after (ref_of E A) n pos (Inr cand)) (wst A (LSuffix cand) n p pos sk pi wi wo ps K ls)"
proof -
  let ?s = "\<lambda>l ls. wst A l n p pos sk pi wi wo ps K ls"
  obtain ls' where t: "ls_fine E A serves ls'" "try_suffixes E (nwildcards n) (?s (LSuffix cand) ls) =
      (case ref_suffix (ref_of E A) n pos of
         Some (i, w, tsr, vs) \<Rightarrow> Inl (found i w False (wst A (LSuffix cand) n p pos sk pi wi wo (ps @ (if lk_lazy E then [] else vs)) K ls'))
       | None \<Rightarrow> Inr (?s (LSuffix cand) ls'))"
    using try_suffixes_spec [OF assms subset_refl, of "LSuffix cand" p pos sk pi wi wo ps K] unfolding ref_suffix_def ref_of_simps by blast
  have direct: "tsr = False" if "ref_suffix (ref_of E A) n pos = Some (i, w, tsr, vs)" for i w tsr vs
    using that by (auto simp: ref_suffix_def dest!: first_some_Some split: if_splits)
  have step: "step_path E A (?s (LSuffix cand) ls) = step_suffix E A cand (?s (LSuffix cand) ls)"
    by (simp add: step_path_def)
  have "ends_with E A serves ps K (ref_after (ref_of E A) n pos (Inr cand)) (step_suffix E A cand (?s (LSuffix cand) ls))"
  proof (cases "ref_suffix (ref_of E A) n pos")
    case (Some h)
    obtain i w tsr vs where h: "h = (i, w, tsr, vs)" by (cases h)
    with Some direct have "tsr = False" by blast
    with Some h show ?thesis
      using ends_done [OF t(1), of "ps @ (if lk_lazy E then [] else vs)" ps vs]
      by (simp add: step_suffix_def t(2) ref_after_def)
  next
    case None
    show ?thesis
    proof (cases cand)
      case None
      with \<open>ref_suffix (ref_of E A) n pos = None\<close> show ?thesis
        unfolding step_suffix_def wst_simps t(2) ref_after_def
        using ends_back [OF assms(1) t(1) assms(3)] by simp
    next
      case (Some c)
      then obtain j child where "cand = Some (j, child)" by (cases c) simp
      with None show ?thesis
        unfolding step_suffix_def wst_simps t(2) ref_after_def
        using ends_done [OF t(1), of "ps @ (if lk_lazy E then [] else [drop pos (pa_path A)])" ps "[drop pos (pa_path A)]"]
        by simp
    qed
  qed
  then show ?thesis unfolding step [symmetric] by (rule ends_step)
qed
subsection \<open>Failure below a pushed entry\<close>

definition add_captures :: "string list \<Rightarrow> ('c, 'h) hit \<Rightarrow> ('c, 'h) hit" where
  "add_captures pre = (\<lambda>(i, n, tsr, vs). (i, n, tsr, pre @ vs))"

lemma add_captures_simps: "add_captures [] = id" "add_captures [v] = add_capture v"
  by (auto simp: add_captures_def add_capture_def fun_eq_iff)

lemma ends_captured:
  assumes "ends_with E A serves (ps @ (if lk_lazy E then [] else pre)) K r s"
  shows "ends_with E A serves ps K (map_option (add_captures pre) r) s"
  using assms by (cases r) (auto simp: ends_with_def add_captures_def split: if_splits)

lemma ends_pushed:
  assumes child: "ends_with E A serves (ps @ (if lk_lazy E then [] else pre)) (sk # K) r s"
    and sk: "sk_paramCnt sk = length ps" and K: "pa_stackOffset A \<le> length K"
    and resumed: "\<And>ls'. r = None \<Longrightarrow> ls_fine E A serves ls' \<Longrightarrow>
      ends_with E A serves ps K r2 (wst A LWalk (sk_node sk) (sk_parent sk) (sk_charsMatched sk) True (sk_childParamIdx sk)
        (sk_childWildcardIdx sk) (sk_wildcardOffset sk) ps K ls')"
  shows "ends_with E A serves ps K (orelse (map_option (add_captures pre) r) r2) s"
proof (cases r)
  case (Some h)
  obtain i m t vs where "h = (i, m, t, vs)" by (cases h)
  with Some child show ?thesis by (auto simp: ends_with_def add_captures_def)
next
  case None
  with child obtain s' xs where s': "reaches E A s s'" "ls_fine E A serves (wk_ls s')" "wk_label s' = LPop"
      "wk_stack s' = sk # K" "wk_params s' = (ps @ (if lk_lazy E then [] else pre)) @ xs"
    by (auto simp: ends_with_def)
  have "step_path E A s' = wst A LWalk (sk_node sk) (sk_parent sk) (sk_charsMatched sk) True (sk_childParamIdx sk)
        (sk_childWildcardIdx sk) (sk_wildcardOffset sk) ps K (wk_ls s')"
    using s'(3-5) K sk by (simp add: step_path_def step_pop_def resume_def wst_def)
  with resumed [OF None s'(2)] have "ends_with E A serves ps K r2 (step_path E A s')" by simp
  then show ?thesis using None ends_reaches [OF s'(1) ends_step] by simp
qed

subsection \<open>The listing of capture ends\<close>

definition listed ::
  "('c, 'h) route path_args \<Rightarrow> ('e \<Rightarrow> regexp \<Rightarrow> string \<Rightarrow> nat \<Rightarrow> char \<Rightarrow> bool) \<Rightarrow> ('c, 'h) route node \<Rightarrow> regexp
   \<Rightarrow> nat \<Rightarrow> ('c, 'h, 'e) lstate \<Rightarrow> bool" where
  "listed A serves w re pos ls \<longleftrightarrow>
     (\<exists>i. index_func (\<lambda>x. rw_node x = w) (regexps ls) = Some i
        \<and> serves (rw_ends (regexps ls ! i)) re (pa_path A) pos slashDelim)"

lemma index_func_cong: "length xs = length ys \<Longrightarrow> (\<And>i. i < length xs \<Longrightarrow> P (xs ! i) = Q (ys ! i)) \<Longrightarrow> index_func P xs = index_func Q ys"
  by (induction xs ys rule: list_induct2) (fastforce+)

lemma index_func_entry:
  assumes "index_func (\<lambda>x. rw_node x = w) xs = Some i" "rw_node y = w"
  shows "index_func (\<lambda>x. rw_node x = w) (xs[i := y]) = Some i"
proof -
  have "index_func (\<lambda>x. rw_node x = w) (xs[i := y]) = index_func (\<lambda>x. rw_node x = w) xs"
    by (rule index_func_cong) (use assms in \<open>auto simp: nth_list_update index_func_Some\<close>)
  with assms(1) show ?thesis by simp
qed

lemma index_func_snoc: "index_func P xs = None \<Longrightarrow> P x \<Longrightarrow> index_func P (xs @ [x]) = Some (length xs)"
  by (induction xs) (auto split: if_splits)

lemma regexp_entry_cases:
  assumes "ls_fine E A serves ls"
  obtains i ls' where "regexp_entry E w ls = (i, ls')" "ls_fine E A serves ls'"
    "index_func (\<lambda>x. rw_node x = w) (regexps ls') = Some i" "i < length (regexps ls')"
    "failedMatchers ls' = failedMatchers ls" "exhausted ls' = exhausted ls"
proof (cases "index_func (\<lambda>x. rw_node x = w) (regexps ls)")
  case None
  let ?ls = "ls\<lparr>regexps := regexps ls @ [\<lparr>rw_node = w, rw_ends = lk_ends_zero E, rw_scanned = False,
      rw_suffixed = False, rw_listed = False\<rparr>]\<rparr>"
  show thesis
    by (rule that [of "length (regexps ls)" ?ls])
      (use assms None in \<open>auto simp: regexp_entry_def ls_fine_def listing_fine_def index_func_snoc\<close>)
next
  case (Some i)
  show thesis
    by (rule that [of i ls]) (use assms Some in \<open>auto simp: regexp_entry_def index_func_less\<close>)
qed

lemma ls_fine_update:
  assumes "ls_fine E A serves ls" "listing_fine E serves (rw_ends y)"
  shows "ls_fine E A serves (ls\<lparr>regexps := (regexps ls)[i := y]\<rparr>)"
  using assms by (auto simp: ls_fine_def dest!: subsetD [OF set_update_subset_insert])

lemma ends_of_listed:
  assumes "listing_ok E serves" "ls_fine E A serves ls" "nregexp w = Some re"
  shows "listed A serves w re pos (ends_of E w (pa_path A) pos slashDelim ls)"
    and "ls_fine E A serves (ends_of E w (pa_path A) pos slashDelim ls)"
proof -
  obtain i ls' where e: "regexp_entry E w ls = (i, ls')" "ls_fine E A serves ls'"
      "index_func (\<lambda>x. rw_node x = w) (regexps ls') = Some i" "i < length (regexps ls')"
    by (rule regexp_entry_cases [OF assms(2), of w])
  let ?x = "regexps ls' ! i"
  let ?y = "?x\<lparr>rw_listed := True, rw_ends := lk_ends_Start E re (pa_path A) pos slashDelim (rw_ends ?x)\<rparr>"
  have x: "rw_node ?x = w" "listing_fine E serves (rw_ends ?x)"
    using e(2-4) by (auto simp: index_func_Some ls_fine_def)
  then have y: "serves (rw_ends ?y) re (pa_path A) pos slashDelim"
    using assms(1) by (simp add: listing_ok_def)
  have eq: "ends_of E w (pa_path A) pos slashDelim ls = ls'\<lparr>regexps := (regexps ls')[i := ?y]\<rparr>"
    using e(1) assms(3) by (simp add: ends_of_def Let_def)
  show "listed A serves w re pos (ends_of E w (pa_path A) pos slashDelim ls)"
    unfolding listed_def eq using index_func_entry [OF e(3), of ?y] x(1) y e(4)
    by (intro exI [of _ i]) simp
  have "listing_fine E serves (rw_ends ?y)" using y unfolding listing_fine_def by blast
  then show "ls_fine E A serves (ends_of E w (pa_path A) pos slashDelim ls)"
    unfolding eq by (rule ls_fine_update [OF e(2)])
qed

lemma ends_next_listed:
  assumes "listing_ok E serves" "ls_fine E A serves ls" "listed A serves w re pos ls"
  obtains ls' where "ends_next E w from ls = (first_end (lk_MatchString E re) (pa_path A) pos slashDelim from, ls')"
    "ls_fine E A serves ls'" "listed A serves w re pos ls'"
proof -
  obtain i where i: "index_func (\<lambda>x. rw_node x = w) (regexps ls) = Some i"
      "serves (rw_ends (regexps ls ! i)) re (pa_path A) pos slashDelim"
    using assms(3) by (auto simp: listed_def)
  let ?x = "regexps ls ! i"
  let ?y = "?x\<lparr>rw_ends := snd (lk_ends_Next E from (rw_ends ?x))\<rparr>"
  have "fst (lk_ends_Next E from (rw_ends ?x)) = first_end (lk_MatchString E re) (pa_path A) pos slashDelim from"
    and y: "serves (rw_ends ?y) re (pa_path A) pos slashDelim"
    using assms(1) i(2) by (simp_all add: listing_ok_def)
  then have "ends_next E w from ls = (first_end (lk_MatchString E re) (pa_path A) pos slashDelim from,
      ls\<lparr>regexps := (regexps ls)[i := ?y]\<rparr>)"
    using i(1) by (simp add: ends_next_def regexp_entry_def split_beta Let_def)
  moreover have "ls_fine E A serves (ls\<lparr>regexps := (regexps ls)[i := ?y]\<rparr>)"
    by (rule ls_fine_update [OF assms(2)]) (use y in \<open>auto simp: listing_fine_def\<close>)
  moreover have "listed A serves w re pos (ls\<lparr>regexps := (regexps ls)[i := ?y]\<rparr>)"
    unfolding listed_def using index_func_entry [OF i(1), of ?y] i y index_func_less [OF i(1)]
    by (intro exI [of _ i]) (simp add: index_func_Some)
  ultimately show thesis by (rule that)
qed

end
