(* ===== verification/Lookup_Scan.thy ===== *)
theory Lookup_Scan
  imports Lookup_Correct
begin

text \<open>
  The scan of an infix wildcard: the loop over its capture ends visits the ends of the reference recursion,
  in order, whether it looks for them with \<open>IndexByte\<close> or takes them from the listing, and the ends it leaves
  out because of an earlier scan have no match.
\<close>

subsection \<open>The capture ends from a position on\<close>

definition captures_from :: "('c, 'h) ref_env \<Rightarrow> ('c, 'h) route node \<Rightarrow> nat \<Rightarrow> nat \<Rightarrow> nat list" where
  "captures_from R w pos from = filter (capture_end R w pos) [from..<length (rf_path R)]"

lemma captures_captures_from: "captures R w pos = captures_from R w pos pos"
  by (simp add: captures_def captures_from_def)

lemma captures_from_cons:
  "e < length (rf_path R) \<Longrightarrow> capture_end R w pos e \<Longrightarrow> captures_from R w pos e = e # captures_from R w pos (Suc e)"
  by (simp add: captures_from_def upt_conv_Cons)

lemma captures_from_skip:
  assumes "from \<le> e" "\<And>k. from \<le> k \<Longrightarrow> k < e \<Longrightarrow> k < length (rf_path R) \<Longrightarrow> \<not> capture_end R w pos k"
  shows "captures_from R w pos from = captures_from R w pos e"
proof (cases "e \<le> length (rf_path R)")
  case True
  then have "[from..<length (rf_path R)] = [from..<e] @ [e..<length (rf_path R)]"
    using assms(1) by (metis le_Suc_ex upt_add_eq_append)
  moreover have "filter (capture_end R w pos) [from..<e] = []"
    using assms(2) True by (auto simp: filter_empty_conv)
  ultimately show ?thesis by (simp add: captures_from_def)
next
  case False
  then show ?thesis using assms(2) by (auto simp: captures_from_def filter_empty_conv)
qed

lemma ref_parent: "pos < length (rf_path R) \<Longrightarrow> ref R p n pos = ref R p' n pos"
  by (subst (1 2) ref.simps) simp

lemma capture_end_plain: "nregexp w = None \<Longrightarrow> capture_end R w pos e \<Longrightarrow> start < e \<Longrightarrow> capture_end R w start e"
  by (simp add: capture_end_def node_matches_def)

lemma ref_infix_slash_plain: "nregexp w = None \<Longrightarrow> ref_infix_slash R pos w = ref_infix_slash R start w"
  by (simp add: ref_infix_slash_def node_matches_def split: option.splits)

lemma scan_failedI:
  assumes "nregexp w = None" "\<And>e. e < length (rf_path R) \<Longrightarrow> capture_end R w start e \<Longrightarrow> ref R p w e = None"
    "ref_infix_slash R start w = None"
  shows "scan_failed R w start"
proof -
  have "ref R p' w e = None" if "e < length (rf_path R)" "capture_end R w start e" for e p'
    using assms(2) [OF that] ref_parent [OF that(1), of p' w p] by simp
  with assms(1,3) show ?thesis by (simp add: scan_failed_def)
qed

subsection \<open>The memo of failed scans\<close>

lemma markExhausted_in_set:
  "x \<in> set (markExhausted_in xs n start) \<Longrightarrow> x \<in> set xs \<or> (\<exists>s \<in> insert start (snd ` set xs). x = (n, s) \<and> (s = start \<or> (n, s) \<in> set xs))"
  by (induction xs n start rule: markExhausted_in.induct) (auto simp: min_def split: if_splits)

lemma ls_fine_markExhausted:
  assumes "ls_fine E A serves ls" "scan_failed (ref_of E A) w start"
  shows "ls_fine E A serves (markExhausted w start ls)"
  using assms markExhausted_in_set [of _ "exhausted ls" w start]
  by (fastforce simp: ls_fine_def markExhausted_def)

lemma scanEnd_cases:
  assumes "start \<le> end"
  shows "scanEnd ls n start end = end \<or>
    (\<exists>s. (n, s) \<in> set (exhausted ls) \<and> s < scanEnd ls n start end \<and> start \<le> scanEnd ls n start end \<and> scanEnd ls n start end \<le> end)"
proof -
  have "scanEnd_in xs n start end = end \<or>
      (\<exists>s. (n, s) \<in> set xs \<and> s < scanEnd_in xs n start end \<and> start \<le> scanEnd_in xs n start end \<and> scanEnd_in xs n start end \<le> end)" for xs
    using assms by (induction xs n start "end" rule: scanEnd_in.induct) (auto simp: max_def min_def)
  then show ?thesis by (simp add: scanEnd_def)
qed

subsection \<open>The trailing slash of an infix wildcard\<close>

lemma infix_tsr_cases:
  assumes meth: "lk_method E \<noteq> ''''" and fine: "ls_fine E A serves ls" and w: "walk_ok w"
    and plain: "nregexp w \<noteq> None \<Longrightarrow> \<not> nnested w" and path: "pa_path A \<noteq> []"
    and bound: "end = length (pa_path A) \<or> ref_infix_slash (ref_of E A) pos w = None"
  obtains ls' where "infix_tsr E (pa_path A) pos end w ls = (ref_infix_slash (ref_of E A) pos w, ls')" "ls_fine E A serves ls'"
proof (cases "end = length (pa_path A) \<and> last (pa_path A) \<noteq> slashDelim")
  case False
  then have "infix_tsr E (pa_path A) pos end w ls = (ref_infix_slash (ref_of E A) pos w, ls)"
    using bound path by (auto simp: infix_tsr_def ref_infix_slash_def last_conv_nth)
  then show thesis using fine that by blast
next
  case True
  show thesis
  proof (cases "slash_child w")
    case None
    with True have "infix_tsr E (pa_path A) pos end w ls = (ref_infix_slash (ref_of E A) pos w, ls)"
      using path by (auto simp: infix_tsr_def ref_infix_slash_def slash_child_def last_conv_nth split: option.splits if_splits)
    then show thesis using fine that by blast
  next
    case (Some child)
    then have child: "walk_ok child" "getStaticEdge w slashDelim = Some (j, child) \<Longrightarrow> nkey child = ''/''" for j
      using walk_ok_child [OF w slash_child_children [OF Some]]
      by (auto simp: slash_child_def split: option.splits if_splits)
    obtain j where edge: "getStaticEdge w slashDelim = Some (j, child)"
      using Some by (auto simp: slash_child_def split: option.splits if_splits)
    obtain ls' where m: "match_routes E not_exact (nroutes child) ls = (pick (ref_of E A) not_exact child, ls')" "ls_fine E A serves ls'"
      using match_routes_cases [OF meth fine] walk_okD(2) [OF child(1)] by metis
    have leaf: "pick (ref_of E A) not_exact child = None" if "nroutes child = []" using that by (simp add: pick_def)
    have tail: "(if nregexp w \<noteq> None then matchTail E w (drop pos (pa_path A)) ls else (True, ls))
        = (node_matches (ref_of E A) w (drop pos (pa_path A)), ls)"
      using plain matchRegexp_eq [of E w "drop pos (pa_path A)" A] by (auto simp: matchTail_def node_matches_def)
    show thesis
    proof (cases "nroutes child = [] \<or> \<not> node_matches (ref_of E A) w (drop pos (pa_path A))")
      case True': True
      have "infix_tsr E (pa_path A) pos end w ls = (ref_infix_slash (ref_of E A) pos w, ls)"
        unfolding infix_tsr_def edge tail using True True' path Some leaf child(2) [OF edge]
        by (auto simp: ref_infix_slash_def last_conv_nth)
      then show thesis using fine that by blast
    next
      case False
      have "infix_tsr E (pa_path A) pos end w ls = (ref_infix_slash (ref_of E A) pos w, ls')"
        unfolding infix_tsr_def edge tail using True False path Some child(2) [OF edge] m(1)
        by (auto simp: ref_infix_slash_def last_conv_nth split: option.splits)
      then show thesis using m(2) that by blast
    qed
  qed
qed

subsection \<open>The loop over the capture ends\<close>

definition scan_inv ::
  "('c, 'h, 'e) lookup_env \<Rightarrow> ('c, 'h) route path_args \<Rightarrow> ('e \<Rightarrow> regexp \<Rightarrow> string \<Rightarrow> nat \<Rightarrow> char \<Rightarrow> bool)
   \<Rightarrow> ('c, 'h) route node \<Rightarrow> nat \<Rightarrow> ('c, 'h) route node \<Rightarrow> nat \<Rightarrow> nat \<Rightarrow> bool \<Rightarrow> ('c, 'h, 'e) lstate \<Rightarrow> bool" where
  "scan_inv E A serves n pos w from end ends ls \<longleftrightarrow>
     pos \<le> from \<and> (\<not> ends \<longrightarrow> from \<le> end) \<and> from \<le> length (pa_path A) \<and> end \<le> length (pa_path A) \<and> ls_fine E A serves ls
     \<and> (\<forall>e < from. capture_end (ref_of E A) w pos e \<longrightarrow> ref (ref_of E A) (Some n) w e = None)
     \<and> (end = length (pa_path A) \<or>
          (\<forall>e < length (pa_path A). end \<le> e \<longrightarrow> capture_end (ref_of E A) w pos e \<longrightarrow> ref (ref_of E A) (Some n) w e = None)
          \<and> ref_infix_slash (ref_of E A) pos w = None)
     \<and> (case nregexp w of None \<Rightarrow> \<not> ends | Some re \<Rightarrow> ends \<longrightarrow> listed A serves w re pos ls)"

lemma slice_mem: "i \<le> k \<Longrightarrow> k < j \<Longrightarrow> j \<le> length s \<Longrightarrow> s ! k \<in> set (slice s i j)"
  by (force simp: slice_def in_set_conv_nth intro: exI [of _ "k - i"])

text \<open>
  Where a scan takes place: the wildcard \<open>w\<close> at the index \<open>i\<close> of \<open>n\<close>, with what is known of the walk below a
  capture, and of the step that follows a scan without match, which ends with \<open>rnext\<close>.
\<close>

definition scan_here ::
  "('c, 'h, 'e) lookup_env \<Rightarrow> ('c, 'h) route path_args \<Rightarrow> ('e \<Rightarrow> regexp \<Rightarrow> string \<Rightarrow> nat \<Rightarrow> char \<Rightarrow> bool)
   \<Rightarrow> ('c, 'h) route node \<Rightarrow> ('c, 'h) route node option \<Rightarrow> nat \<Rightarrow> nat \<Rightarrow> ('c, 'h) route node \<Rightarrow> string list
   \<Rightarrow> ('c, 'h) route skipNode list \<Rightarrow> ('c, 'h) hit option \<Rightarrow> bool" where
  "scan_here E A serves n p pos i w ps K rnext \<longleftrightarrow>
     lookup_ok E serves \<and> walk_ok n \<and> n \<noteq> pa_root A \<and> i < length (nwildcards n) \<and> nwildcards n ! i = w
     \<and> nstatics w \<noteq> [] \<and> pos < length (pa_path A) \<and> pa_stackOffset A \<le> length K
     \<and> (\<forall>e ps K ls. pos < e \<longrightarrow> e < length (pa_path A) \<longrightarrow> pa_stackOffset A \<le> length K \<longrightarrow> ls_fine E A serves ls \<longrightarrow>
          ends_with E A serves ps K (ref (ref_of E A) (Some n) w e) (wst A LWalk w (Some n) e False 0 0 0 ps K ls))
     \<and> (\<forall>l sk pi wi wo ls. ls_fine E A serves ls \<longrightarrow> (nregexp w = None \<longrightarrow> scan_failed (ref_of E A) w pos) \<longrightarrow>
          ends_with E A serves ps K rnext (next_infix i (wst A l n p pos sk pi wi wo ps K ls)))"

definition scan_rest ::
  "('c, 'h) ref_env \<Rightarrow> ('c, 'h) route node \<Rightarrow> nat \<Rightarrow> ('c, 'h) route node \<Rightarrow> ('c, 'h) hit option \<Rightarrow> ('c, 'h) hit option" where
  "scan_rest R n pos w rnext =
     (case ref_infix_slash R pos w of Some c \<Rightarrow> ref_after R n pos (Inr (Some c)) | None \<Rightarrow> rnext)"

definition capture_result ::
  "('c, 'h) ref_env \<Rightarrow> ('c, 'h) route node \<Rightarrow> nat \<Rightarrow> ('c, 'h) route node \<Rightarrow> nat \<Rightarrow> ('c, 'h) hit option" where
  "capture_result R n pos w e = map_option (add_capture (slice (rf_path R) pos e)) (ref R (Some n) w e)"

lemma scan_hereD:
  assumes "scan_here E A serves n p pos i w ps K rnext"
  shows "lk_method E \<noteq> ''''" "listing_ok E serves" "walk_ok n" "walk_ok w" "nregexp w \<noteq> None \<Longrightarrow> \<not> nnested w"
    "i < length (nwildcards n)" "nwildcards n ! i = w" "pos < length (pa_path A)" "n \<noteq> pa_root A" "nstatics w \<noteq> []"
    "pa_stackOffset A \<le> length K"
proof -
  have w: "w \<in> set (nwildcards n)" using assms by (auto simp: scan_here_def)
  show "walk_ok w" "nregexp w \<noteq> None \<Longrightarrow> \<not> nnested w"
    using assms w walk_ok_child [of n w] walk_okD(3) [of n w] by (auto simp: scan_here_def children_def)
qed (use assms in \<open>simp_all add: scan_here_def lookup_ok_def\<close>)

lemma scan_here_child:
  assumes "scan_here E A serves n p pos i w ps K rnext" "pos < e" "e < length (pa_path A)"
    "pa_stackOffset A \<le> length K'" "ls_fine E A serves ls"
  shows "ends_with E A serves ps' K' (ref (ref_of E A) (Some n) w e) (wst A LWalk w (Some n) e False 0 0 0 ps' K' ls)"
  using assms unfolding scan_here_def by blast

lemma scan_here_next:
  assumes "scan_here E A serves n p pos i w ps K rnext" "ls_fine E A serves ls"
    "nregexp w = None \<Longrightarrow> scan_failed (ref_of E A) w pos"
  shows "ends_with E A serves ps K rnext (next_infix i (wst A l n p pos sk pi wi wo ps K ls))"
proof -
  from assms(3) have "nregexp w = None \<longrightarrow> scan_failed (ref_of E A) w pos" by blast
  moreover from assms(1) have "\<forall>l sk pi wi wo ls. ls_fine E A serves ls \<longrightarrow> (nregexp w = None \<longrightarrow> scan_failed (ref_of E A) w pos) \<longrightarrow>
          ends_with E A serves ps K rnext (next_infix i (wst A l n p pos sk pi wi wo ps K ls))"
    unfolding scan_here_def by (elim conjE)
  ultimately show ?thesis using assms(2) by simp
qed

lemma ends_scan_exhausted:
  assumes here: "scan_here E A serves n p pos i w ps K rnext" and fine: "ls_fine E A serves ls"
    and all: "\<And>e. e < length (pa_path A) \<Longrightarrow> capture_end (ref_of E A) w pos e \<Longrightarrow> ref (ref_of E A) (Some n) w e = None"
    and bound: "end = length (pa_path A) \<or> ref_infix_slash (ref_of E A) pos w = None"
  shows "ends_with E A serves ps K (scan_rest (ref_of E A) n pos w rnext)
    (scan_exhausted E A i end (wst A l n p pos sk pi wi wo ps K ls))"
proof -
  note h = scan_hereD [OF here]
  have path: "pa_path A \<noteq> []" using h(8) by auto
  obtain ls' where t: "infix_tsr E (pa_path A) pos end w ls = (ref_infix_slash (ref_of E A) pos w, ls')" "ls_fine E A serves ls'"
    using infix_tsr_cases [OF h(1) fine h(4) _ path bound] h(5) by metis
  show ?thesis
  proof (cases "ref_infix_slash (ref_of E A) pos w")
    case (Some c)
    with t h(7) have "scan_exhausted E A i end (wst A l n p pos sk pi wi wo ps K ls)
        = wst A (LSuffix (Some c)) n p pos sk pi wi wo ps K ls'"
      by (simp add: scan_exhausted_def)
    then show ?thesis using ends_suffix [OF h(1) t(2) h(3)] Some by (simp add: scan_rest_def)
  next
    case None
    with t h(7) have eq: "scan_exhausted E A i end (wst A l n p pos sk pi wi wo ps K ls)
        = next_infix i (wst A l n p pos sk pi wi wo ps K ls')"
      by (simp add: scan_exhausted_def)
    have "nregexp w = None \<Longrightarrow> scan_failed (ref_of E A) w pos"
      using scan_failedI [of w "ref_of E A" pos "Some n"] all None by simp
    from scan_here_next [OF here t(2) this] None show ?thesis unfolding eq by (simp add: scan_rest_def)
  qed
qed

lemma ends_take_capture:
  assumes here: "scan_here E A serves n p pos i w ps K rnext" and fine: "ls_fine E A serves ls"
    and e: "pos < e" "e < length (pa_path A)"
    and resumed: "\<And>ls'. ref (ref_of E A) (Some n) w e = None \<Longrightarrow> ls_fine E A serves ls' \<Longrightarrow>
      ends_with E A serves ps K r (wst A LWalk n p pos True (length (nparams n)) i (e - pos + 1) ps K ls')"
  shows "ends_with E A serves ps K (orelse (capture_result (ref_of E A) n pos w e) r)
    (take_capture E (pa_path A) i e (wst A l n p pos False pi wi wo ps K ls))"
proof -
  note h = scan_hereD [OF here]
  let ?sk = "\<lparr>sk_node = n, sk_parent = p, sk_charsMatched = pos, sk_paramCnt = length ps,
      sk_childParamIdx = length (nparams n), sk_childWildcardIdx = i, sk_wildcardOffset = e - pos + 1\<rparr>"
  let ?v = "slice (pa_path A) pos e"
  have eq: "take_capture E (pa_path A) i e (wst A l n p pos False pi wi wo ps K ls)
      = wst A LWalk w (Some n) e False 0 0 0 (ps @ (if lk_lazy E then [] else [?v])) (?sk # K) ls"
    using h(7) by (simp add: take_capture_def wst_def push_def record_param_def jump_def)
  have "ends_with E A serves (ps @ (if lk_lazy E then [] else [?v])) (?sk # K) (ref (ref_of E A) (Some n) w e)
      (wst A LWalk w (Some n) e False 0 0 0 (ps @ (if lk_lazy E then [] else [?v])) (?sk # K) ls)"
    using h(11) by (intro scan_here_child [OF here e _ fine]) simp
  from ends_pushed [OF this _ h(11), of r] resumed show ?thesis
    unfolding eq by (simp add: capture_result_def add_captures_simps)
qed

text \<open>The range a scan starts with.\<close>

lemma exhausted_fails:
  assumes "ls_fine E A serves ls" "(w, s) \<in> set (exhausted ls)"
  shows "nregexp w = None" "ref_infix_slash (ref_of E A) pos w = None"
    "s < e \<Longrightarrow> e < length (pa_path A) \<Longrightarrow> capture_end (ref_of E A) w pos e \<Longrightarrow> ref (ref_of E A) p w e = None"
proof -
  from assms have f: "scan_failed (ref_of E A) w s" by (auto simp: ls_fine_def)
  then show plain: "nregexp w = None" by (simp add: scan_failed_def)
  from f show "ref_infix_slash (ref_of E A) pos w = None"
    using ref_infix_slash_plain [OF plain, of "ref_of E A" pos s] by (simp add: scan_failed_def)
  assume "s < e" "e < length (pa_path A)" "capture_end (ref_of E A) w pos e"
  then show "ref (ref_of E A) p w e = None"
    using f capture_end_plain [OF plain, of "ref_of E A" pos e s] by (simp add: scan_failed_def)
qed

lemma scan_inv_plain:
  assumes "nregexp w = None" "ls_fine E A serves ls" "pos \<le> from" "from \<le> length (pa_path A)"
    "\<And>e. e < from \<Longrightarrow> capture_end (ref_of E A) w pos e \<Longrightarrow> ref (ref_of E A) (Some n) w e = None"
  shows "scan_inv E A serves n pos w from (scanEnd ls w from (length (pa_path A))) False ls"
proof -
  let ?stop = "scanEnd ls w from (length (pa_path A))"
  consider "?stop = length (pa_path A)"
    | s where "(w, s) \<in> set (exhausted ls)" "s < ?stop" "from \<le> ?stop" "?stop \<le> length (pa_path A)"
    using scanEnd_cases [OF assms(4)] by blast
  then show ?thesis
  proof cases
    case 1
    then show ?thesis using assms by (simp add: scan_inv_def)
  next
    case 2
    then show ?thesis
      using assms exhausted_fails(2,3) [OF assms(2) 2(1)] by (auto simp: scan_inv_def)
  qed
qed

lemma scan_inv_regexp:
  assumes "listing_ok E serves" "nregexp w = Some re" "ls_fine E A serves ls" "pos \<le> from" "from \<le> length (pa_path A)"
    "\<And>e. e < from \<Longrightarrow> capture_end (ref_of E A) w pos e \<Longrightarrow> ref (ref_of E A) (Some n) w e = None"
  shows "scan_inv E A serves n pos w from (length (pa_path A)) False ls"
    and "scan_inv E A serves n pos w from (length (pa_path A)) True (ends_of E w (pa_path A) pos slashDelim ls)"
  using assms ends_of_listed [OF assms(1,3,2)] by (auto simp: scan_inv_def)

text \<open>After a failure below a capture, the scan goes on behind it.\<close>

lemma resume_infix:
  assumes "i < length (nwildcards n)" "n \<noteq> pa_root A" "pos < length (pa_path A)"
  shows "step_path E A (wst A LWalk n p pos True (length (nparams n)) i wo ps K ls)
    = wst A (LInfix i) n p pos False (length (nparams n)) i wo ps K ls"
  using assms by (simp add: step_path_def step_walk_def walk_statics_def walk_params_def walk_wildcards_def)

lemma ends_resume_scan:
  assumes here: "scan_here E A serves n p pos i w ps K rnext" and fine: "ls_fine E A serves ls"
    and e: "pos < e" "e < length (pa_path A)"
    and before: "\<And>k. k < e + 1 \<Longrightarrow> capture_end (ref_of E A) w pos k \<Longrightarrow> ref (ref_of E A) (Some n) w k = None"
    and scan: "\<And>end ends ls' pi. scan_inv E A serves n pos w (e + 1) end ends ls' \<Longrightarrow> (nregexp w \<noteq> None \<longrightarrow> ends) \<Longrightarrow>
      ends_with E A serves ps K r (wst A (LScan i (e + 1) end True ends) n p pos False pi i (e - pos + 1) ps K ls')"
  shows "ends_with E A serves ps K r (wst A LWalk n p pos True (length (nparams n)) i (e - pos + 1) ps K ls)"
proof -
  note h = scan_hereD [OF here]
  let ?s = "\<lambda>l sk ls. wst A l n p pos sk (length (nparams n)) i (e - pos + 1) ps K ls"
  have walk: "step_path E A (?s LWalk True ls) = ?s (LInfix i) False ls"
    by (rule resume_infix [OF h(6,9,8)])
  have start: "pos + (e - pos + 1) = e + 1" and bounds: "pos \<le> e + 1" "e + 1 \<le> length (pa_path A)" using e by simp_all
  have "ends_with E A serves ps K r (step_path E A (?s (LInfix i) False ls))"
  proof (cases "nregexp w")
    case None
    let ?stop = "scanEnd ls w (e + 1) (length (pa_path A))"
    have eq: "step_path E A (?s (LInfix i) False ls) = ?s (LScan i (e + 1) ?stop True False) False ls"
      using h(6,7,10) None start by (simp add: step_path_def step_infix_def Let_def)
    show ?thesis unfolding eq using None
      by (intro scan scan_inv_plain [OF None fine bounds] before) simp_all
  next
    case (Some re)
    have eq: "step_path E A (?s (LInfix i) False ls) = ?s (LScan i (e + 1) (length (pa_path A)) True True) False
        (ends_of E w (pa_path A) pos slashDelim ls)"
      using h(6,7,10) Some start by (simp add: step_path_def step_infix_def Let_def)
    show ?thesis unfolding eq
      by (intro scan scan_inv_regexp(2) [OF h(2) Some fine bounds] before) simp_all
  qed
  then show ?thesis using ends_step walk by metis
qed

subsection \<open>The scan computes the captures of the reference\<close>

definition scan_result ::
  "('c, 'h) ref_env \<Rightarrow> ('c, 'h) route node \<Rightarrow> nat \<Rightarrow> ('c, 'h) route node \<Rightarrow> nat \<Rightarrow> ('c, 'h) hit option \<Rightarrow> ('c, 'h) hit option" where
  "scan_result R n pos w from rnext =
     orelse (first_some (capture_result R n pos w) (captures_from R w pos from)) (scan_rest R n pos w rnext)"

lemma scan_result_skip:
  assumes "from \<le> e" "\<And>k. from \<le> k \<Longrightarrow> k < e \<Longrightarrow> k < length (rf_path R) \<Longrightarrow> \<not> capture_end R w pos k"
  shows "scan_result R n pos w from rnext = scan_result R n pos w e rnext"
  using captures_from_skip [OF assms] by (simp add: scan_result_def)

lemma scan_result_capture:
  assumes "e < length (rf_path R)" "capture_end R w pos e"
  shows "scan_result R n pos w e rnext = orelse (capture_result R n pos w e) (scan_result R n pos w (e + 1) rnext)"
  using captures_from_cons [OF assms] by (simp add: scan_result_def orelse_def split: option.splits)

lemma scan_result_none:
  assumes "\<And>e. from \<le> e \<Longrightarrow> e < length (rf_path R) \<Longrightarrow> capture_end R w pos e \<Longrightarrow> ref R (Some n) w e = None"
  shows "scan_result R n pos w from rnext = scan_rest R n pos w rnext"
proof -
  have "first_some (capture_result R n pos w) (captures_from R w pos from) = None"
    unfolding first_some_None using assms by (auto simp: captures_from_def capture_result_def)
  then show ?thesis by (simp add: scan_result_def)
qed

lemma scan_inv_skip:
  assumes "scan_inv E A serves n pos w from end ends ls" "from \<le> e" "e \<le> length (pa_path A)" "\<not> ends \<longrightarrow> e \<le> end"
    "\<And>k. from \<le> k \<Longrightarrow> k < e \<Longrightarrow> \<not> capture_end (ref_of E A) w pos k"
  shows "scan_inv E A serves n pos w e end ends ls"
proof -
  have "ref (ref_of E A) (Some n) w k = None" if "k < e" "capture_end (ref_of E A) w pos k" for k
    using assms(1) assms(5) [of k] that by (cases "k < from") (auto simp: scan_inv_def)
  then show ?thesis using assms(1-4) by (simp add: scan_inv_def)
qed

lemma scan_invD:
  assumes "scan_inv E A serves n pos w from end ends ls"
  shows "pos \<le> from" "from \<le> length (pa_path A)" "end \<le> length (pa_path A)" "ls_fine E A serves ls"
    "k < from \<Longrightarrow> capture_end (ref_of E A) w pos k \<Longrightarrow> ref (ref_of E A) (Some n) w k = None"
    "nregexp w = None \<Longrightarrow> \<not> ends" "nregexp w = Some re \<Longrightarrow> ends \<Longrightarrow> listed A serves w re pos ls"
    "end = length (pa_path A) \<or> ref_infix_slash (ref_of E A) pos w = None"
    "end \<le> k \<Longrightarrow> k < length (pa_path A) \<Longrightarrow> capture_end (ref_of E A) w pos k \<Longrightarrow> ref (ref_of E A) (Some n) w k = None"
  using assms by (auto simp: scan_inv_def split: option.splits)

lemma ends_scan_take:
  assumes here: "scan_here E A serves n p pos i w ps K rnext" and fine: "ls_fine E A serves ls"
    and e: "pos < e" "e < length (pa_path A)" "capture_end (ref_of E A) w pos e"
    and before: "\<And>k. k < e \<Longrightarrow> capture_end (ref_of E A) w pos k \<Longrightarrow> ref (ref_of E A) (Some n) w k = None"
    and scan: "\<And>end ends ls' pi. scan_inv E A serves n pos w (e + 1) end ends ls' \<Longrightarrow>
      ends_with E A serves ps K (scan_result (ref_of E A) n pos w (e + 1) rnext)
        (wst A (LScan i (e + 1) end True ends) n p pos False pi i (e - pos + 1) ps K ls')"
  shows "ends_with E A serves ps K (scan_result (ref_of E A) n pos w e rnext)
    (take_capture E (pa_path A) i e (wst A l n p pos False pi wi wo ps K ls))"
proof -
  have "ends_with E A serves ps K (scan_result (ref_of E A) n pos w (e + 1) rnext)
      (wst A LWalk n p pos True (length (nparams n)) i (e - pos + 1) ps K ls')"
    if none: "ref (ref_of E A) (Some n) w e = None" and fine': "ls_fine E A serves ls'" for ls'
  proof (rule ends_resume_scan [OF here fine' e(1,2) _ scan])
    fix k assume "k < e + 1" "capture_end (ref_of E A) w pos k"
    then show "ref (ref_of E A) (Some n) w k = None" using before none by (cases "k = e") auto
  qed
  from ends_take_capture [OF here fine e(1,2) this] show ?thesis
    using scan_result_capture [of e "ref_of E A" w pos n rnext] e by simp
qed

text \<open>What the loop does with the next end it found.\<close>

definition visit ::
  "('c, 'h, 'e) lookup_env \<Rightarrow> ('c, 'h) route path_args \<Rightarrow> nat \<Rightarrow> nat \<Rightarrow> nat \<Rightarrow> nat \<Rightarrow> bool \<Rightarrow> bool
   \<Rightarrow> ('c, 'h, 'e) wstate \<Rightarrow> ('c, 'h, 'e) wstate" where
  "visit E A i searchStart captureEnd end evaluated ends s =
     (let path = pa_path A; wildcardNode = nwildcards (wk_matched s) ! i; key = nkey (nstatics wildcardNode ! 0);
          capturedValue = slice path (wk_chars s) captureEnd; rest = drop captureEnd path in
      if capturedValue = '''' then jump (LScan i (searchStart + 1) end evaluated ends) s
      else if \<not> has_prefix rest key \<and> \<not> has_prefix key rest
      then jump (LScan i (captureEnd + 1) end evaluated ends) s
      else if nregexp wildcardNode \<noteq> None \<and> \<not> ends then
        (if evaluated then
           jump (LScan i captureEnd end True True)
             (s\<lparr>wk_ls := ends_of E wildcardNode path (wk_chars s) slashDelim (wk_ls s)\<rparr>)
         else if \<not> matchRegexp E wildcardNode capturedValue
         then jump (LScan i (captureEnd + 1) end True ends) s
         else take_capture E path i captureEnd s)
      else take_capture E path i captureEnd s)"

lemma wk_matched_ls: "wk_matched (s\<lparr>wk_ls := ls\<rparr>) = wk_matched s"
  by simp

lemma step_scan_visit:
  "step_scan E A i searchStart end evaluated ends s =
     (let w = nwildcards (wk_matched s) ! i;
          (captureEnd, end, ls) =
            (if ends then let (r, ls) = ends_next E w searchStart (wk_ls s) in (r, end, ls)
             else (case index_byte (slice (pa_path A) searchStart end) slashDelim of
                     None \<Rightarrow> (None, end, wk_ls s)
                   | Some idx \<Rightarrow> (Some (searchStart + idx),
                       if (case nregexp w of None \<Rightarrow> False | Some re \<Rightarrow> \<not> nnested w \<and> \<not> lk_Consumes E re slashDelim)
                       then searchStart + idx + 1 else end, wk_ls s)))
      in case captureEnd of
           None \<Rightarrow> scan_exhausted E A i end (s\<lparr>wk_ls := ls\<rparr>)
         | Some e \<Rightarrow> visit E A i searchStart e end evaluated ends (s\<lparr>wk_ls := ls\<rparr>))"
  unfolding step_scan_def visit_def Let_def by (simp only: wk_matched_ls)

lemma ends_visit:
  assumes here: "scan_here E A serves n p pos i w ps K rnext" and inv: "scan_inv E A serves n pos w from end ends ls"
    and e: "from \<le> e" "e < length (pa_path A)" "pa_path A ! e = slashDelim" "\<not> ends \<longrightarrow> e < end" "e = pos \<longrightarrow> from = pos"
    and skip: "\<And>k. from \<le> k \<Longrightarrow> k < e \<Longrightarrow> \<not> capture_end (ref_of E A) w pos k"
    and ends: "ends \<Longrightarrow> pos < e \<and> node_matches (ref_of E A) w (slice (pa_path A) pos e)"
    and IH: "\<And>from' end' ev' ends' ls' pi wi wo. scan_inv E A serves n pos w from' end' ends' ls' \<Longrightarrow>
      from < from' \<or> from = from' \<and> \<not> ends \<and> ends' \<Longrightarrow> from' \<le> length (pa_path A) \<Longrightarrow>
      ends_with E A serves ps K (scan_result (ref_of E A) n pos w from' rnext)
        (wst A (LScan i from' end' ev' ends') n p pos False pi wi wo ps K ls')"
  shows "ends_with E A serves ps K (scan_result (ref_of E A) n pos w from rnext)
    (visit E A i from e end ev ends (wst A l n p pos False pi wi wo ps K ls))"
proof -
  note h = scan_hereD [OF here] and d = scan_invD [OF inv]
  let ?R = "ref_of E A"
  let ?s = "\<lambda>l ls. wst A l n p pos False pi wi wo ps K ls"
  let ?v = "slice (pa_path A) pos e" and ?rest = "drop e (pa_path A)" and ?key = "nkey (nstatics w ! 0)"
  have at_e: "scan_inv E A serves n pos w e end ends ls" "scan_result ?R n pos w from rnext = scan_result ?R n pos w e rnext"
    using scan_inv_skip [OF inv e(1) less_imp_le [OF e(2)] _ skip] scan_result_skip [OF e(1), of ?R w pos n rnext] e(4) skip
    by auto
  have later: "ends_with E A serves ps K (scan_result ?R n pos w from rnext) (?s (LScan i (e + 1) end ev' ends) ls)"
    if "\<not> capture_end ?R w pos e" for ev'
  proof -
    have "scan_inv E A serves n pos w (e + 1) end ends ls"
      by (rule scan_inv_skip [OF at_e(1)]) (use e that in \<open>auto simp: less_Suc_eq\<close>)
    moreover have "scan_result ?R n pos w from rnext = scan_result ?R n pos w (e + 1) rnext"
      unfolding at_e(2) by (rule scan_result_skip) (use that in \<open>auto simp: less_Suc_eq\<close>)
    ultimately show ?thesis using IH [of "e + 1" "end" ends ls] e by simp
  qed
  have v: "?v = '''' \<longleftrightarrow> e = pos" using d(1) e(1,2) length_slice [of pos e "pa_path A"] by fastforce
  show ?thesis
  proof (cases "e = pos")
    case True
    then have "visit E A i from e end ev ends (?s l ls) = ?s (LScan i (e + 1) end ev ends) ls"
      using e(5) v by (simp add: visit_def)
    then show ?thesis using later True by (simp add: capture_end_def)
  next
    case False
    with d(1) e(1) have pos: "pos < e" by simp
    show ?thesis
    proof (cases "has_prefix ?rest ?key \<or> has_prefix ?key ?rest")
      case no: False
      then have "visit E A i from e end ev ends (?s l ls) = ?s (LScan i (e + 1) end ev ends) ls"
        using v False h(7) by (simp add: visit_def Let_def)
      then show ?thesis using later no by (simp add: capture_end_def Let_def)
    next
      case prefix: True
      have cap: "capture_end ?R w pos e \<longleftrightarrow> node_matches ?R w ?v"
        using pos e(3) prefix by (simp add: capture_end_def Let_def)
      have take: "ends_with E A serves ps K (scan_result ?R n pos w from rnext) (take_capture E (pa_path A) i e (?s l ls))"
        if "node_matches ?R w ?v"
      proof -
        have "ref ?R (Some n) w k = None" if "k < e" "capture_end ?R w pos k" for k
          using scan_invD(5) [OF at_e(1)] that by blast
        with that show ?thesis unfolding at_e(2)
          by (intro ends_scan_take [OF here d(4) pos e(2)] IH) (use cap e(1,2) in auto)
      qed
      show ?thesis
      proof (cases "nregexp w \<noteq> None \<and> \<not> ends")
        case False': False
        then have "visit E A i from e end ev ends (?s l ls) = take_capture E (pa_path A) i e (?s l ls)"
          using v False prefix h(7) by (auto simp: visit_def Let_def)
        moreover have "node_matches ?R w ?v" using False' ends by (cases "nregexp w") (auto simp: node_matches_def)
        ultimately show ?thesis using take by simp
      next
        case re: True
        show ?thesis
        proof (cases ev)
          case True
          obtain re' where r: "nregexp w = Some re'" using re by blast
          have eq: "visit E A i from e end ev ends (?s l ls)
              = ?s (LScan i e end True True) (ends_of E w (pa_path A) pos slashDelim ls)"
            using True re v False prefix h(7) by (auto simp: visit_def Let_def)
          have "scan_inv E A serves n pos w e end True (ends_of E w (pa_path A) pos slashDelim ls)"
            using at_e(1) ends_of_listed [OF h(2) d(4) r, of pos] r by (simp add: scan_inv_def)
          then show ?thesis unfolding eq at_e(2) using e(1,2) re by (intro IH) auto
        next
          case False'': False
          then have "visit E A i from e end ev ends (?s l ls) =
              (if node_matches ?R w ?v then take_capture E (pa_path A) i e (?s l ls) else ?s (LScan i (e + 1) end True ends) ls)"
            using re v False prefix h(7) matchRegexp_eq [of E w ?v A] by (auto simp: visit_def Let_def)
          then show ?thesis using take later cap by simp
        qed
      qed
    qed
  qed
qed

text \<open>A regular expression that never consumes a slash matches no capture behind the first slash.\<close>

lemma single_end:
  assumes "listing_ok E serves" "nregexp w = Some re" "\<not> lk_Consumes E re slashDelim"
    "pos \<le> e" "e < length (pa_path A)" "pa_path A ! e = slashDelim"
  shows "e < k \<Longrightarrow> k < length (pa_path A) \<Longrightarrow> \<not> capture_end (ref_of E A) w pos k"
    and "ref_infix_slash (ref_of E A) pos w = None"
proof -
  have free: "slashDelim \<notin> set s" if "node_matches (ref_of E A) w s" for s
    using assms(1-3) that by (auto simp: listing_ok_def node_matches_def)
  show "\<not> capture_end (ref_of E A) w pos k" if "e < k" "k < length (pa_path A)"
    using free slice_mem [of pos e k "pa_path A"] assms(4,6) that by (auto simp: capture_end_def)
  have "slashDelim \<in> set (drop pos (pa_path A))"
    using slice_mem [OF assms(4,5), of "pa_path A"] assms(6) by simp
  then show "ref_infix_slash (ref_of E A) pos w = None"
    using free by (auto simp: ref_infix_slash_def split: option.splits)
qed

lemma first_end_cases:
  "(first_end P s start delim from = None \<and> (\<forall>k. from \<le> k \<longrightarrow> k < length s \<longrightarrow> \<not> (start < k \<and> s ! k = delim \<and> P (slice s start k))))
   \<or> (\<exists>e. first_end P s start delim from = Some e \<and> from \<le> e \<and> e < length s \<and> start < e \<and> s ! e = delim \<and> P (slice s start e)
       \<and> (\<forall>k. from \<le> k \<longrightarrow> k < e \<longrightarrow> \<not> (start < k \<and> s ! k = delim \<and> P (slice s start k))))"
proof (cases "first_end P s start delim from")
  case None
  then show ?thesis by (fastforce simp: first_end_def find_None_iff)
next
  case (Some e)
  then obtain j where j: "j < length [from..<length s]" "[from..<length s] ! j = e"
      "start < e \<and> s ! e = delim \<and> P (slice s start e)"
      "\<forall>k < j. \<not> (start < [from..<length s] ! k \<and> s ! ([from..<length s] ! k) = delim \<and> P (slice s start ([from..<length s] ! k)))"
    unfolding first_end_def find_Some_iff by blast
  have "\<not> (start < k \<and> s ! k = delim \<and> P (slice s start k))" if "from \<le> k" "k < e" for k
    using j(1,2) j(4) [rule_format, of "k - from"] that by simp
  with Some j show ?thesis by auto
qed

lemma ends_scan:
  assumes here: "scan_here E A serves n p pos i w ps K rnext" and inv: "scan_inv E A serves n pos w from end ends ls"
  shows "ends_with E A serves ps K (scan_result (ref_of E A) n pos w from rnext)
    (wst A (LScan i from end ev ends) n p pos False pi wi wo ps K ls)"
  using inv
proof (induction "2 * (length (pa_path A) - from) + (if ends then 0 else 1)"
    arbitrary: "from" "end" ev ends pi wi wo ls rule: less_induct)
  case less
  note h = scan_hereD [OF here] and d = scan_invD [OF less.prems]
  let ?R = "ref_of E A" and ?L = "length (pa_path A)"
  let ?s = "\<lambda>ls. wst A (LScan i from end ev ends) n p pos False pi wi wo ps K ls"
  have IH: "ends_with E A serves ps K (scan_result ?R n pos w from' rnext)
        (wst A (LScan i from' end' ev' ends') n p pos False pi' wi' wo' ps K ls')"
    if "scan_inv E A serves n pos w from' end' ends' ls'" "from < from' \<or> from = from' \<and> \<not> ends \<and> ends'" "from' \<le> ?L"
    for from' end' ev' ends' ls' pi' wi' wo'
    using that by (intro less.hyps) auto
  have step: "step_path E A (?s ls) = step_scan E A i from end ev ends (?s ls)" by (simp add: step_path_def)
  have over: "ends_with E A serves ps K (scan_result ?R n pos w from rnext) (scan_exhausted E A i end' (?s ls'))"
    if none: "\<And>k. from \<le> k \<Longrightarrow> k < ?L \<Longrightarrow> capture_end ?R w pos k \<Longrightarrow> ref ?R (Some n) w k = None" and "ls_fine E A serves ls'"
      and "end' = ?L \<or> ref_infix_slash ?R pos w = None" for ls' end'
  proof -
    have all: "ref ?R (Some n) w k = None" if "k < ?L" "capture_end ?R w pos k" for k
      using none d(5) that by (cases "k < from") auto
    have "scan_result ?R n pos w from rnext = scan_rest ?R n pos w rnext"
      by (rule scan_result_none) (use none in simp)
    with ends_scan_exhausted [OF here that(2) all that(3)] show ?thesis by simp
  qed
  have "ends_with E A serves ps K (scan_result ?R n pos w from rnext) (step_scan E A i from end ev ends (?s ls))"
  proof (cases ends)
    case True
    then obtain re where re: "nregexp w = Some re" using d(6) by (cases "nregexp w") auto
    then have "listed A serves w re pos ls" using d(7) True by blast
    then obtain ls' where nxt: "ends_next E w from ls = (first_end (lk_MatchString E re) (pa_path A) pos slashDelim from, ls')"
        "ls_fine E A serves ls'" "listed A serves w re pos ls'"
      by (rule ends_next_listed [OF h(2) d(4)])
    have no: "\<not> capture_end ?R w pos k"
      if "\<not> (pos < k \<and> pa_path A ! k = slashDelim \<and> lk_MatchString E re (slice (pa_path A) pos k))" for k
      using that re by (auto simp: capture_end_def node_matches_def)
    from first_end_cases [of "lk_MatchString E re" "pa_path A" pos slashDelim "from"] show ?thesis
    proof (elim disjE exE conjE)
      assume none: "first_end (lk_MatchString E re) (pa_path A) pos slashDelim from = None"
        and rest: "\<forall>k. from \<le> k \<longrightarrow> k < ?L \<longrightarrow> \<not> (pos < k \<and> pa_path A ! k = slashDelim \<and> lk_MatchString E re (slice (pa_path A) pos k))"
      have "step_scan E A i from end ev ends (?s ls) = scan_exhausted E A i end (?s ls')"
        using True h(7) nxt(1) none by (simp add: step_scan_visit Let_def)
      with over [OF _ nxt(2) d(8)] no rest show ?thesis by auto
    next
      fix e
      assume e: "first_end (lk_MatchString E re) (pa_path A) pos slashDelim from = Some e" "from \<le> e" "e < ?L" "pos < e"
          "pa_path A ! e = slashDelim" "lk_MatchString E re (slice (pa_path A) pos e)"
        and rest: "\<forall>k. from \<le> k \<longrightarrow> k < e \<longrightarrow> \<not> (pos < k \<and> pa_path A ! k = slashDelim \<and> lk_MatchString E re (slice (pa_path A) pos k))"
      have eq: "step_scan E A i from end ev ends (?s ls) = visit E A i from e end ev ends (?s ls')"
        using True h(7) nxt(1) e(1) by (simp add: step_scan_visit Let_def)
      have "scan_inv E A serves n pos w from end ends ls'"
        using less.prems nxt(2,3) re by (simp add: scan_inv_def)
      then show ?thesis unfolding eq
        using e no rest re True IH by (intro ends_visit [OF here]) (auto simp: node_matches_def)
    qed
  next
    case False
    show ?thesis
    proof (cases "index_byte (slice (pa_path A) from end) slashDelim")
      case None
      have "\<not> capture_end ?R w pos k" if "from \<le> k" "k < end" for k
        using None slice_mem [OF that, of "pa_path A"] d(3) by (auto simp: index_byte_None capture_end_def)
      then have "ref ?R (Some n) w k = None" if "from \<le> k" "k < ?L" "capture_end ?R w pos k" for k
        using d(9) [of k] that by (cases "k < end") auto
      moreover have "step_scan E A i from end ev ends (?s ls) = scan_exhausted E A i end (?s ls)"
        using False h(7) None by (simp add: step_scan_visit Let_def)
      ultimately show ?thesis using over [OF _ d(4,8)] by simp
    next
      case (Some idx)
      let ?e = "from + idx"
      let ?single = "case nregexp w of None \<Rightarrow> False | Some re \<Rightarrow> \<not> nnested w \<and> \<not> lk_Consumes E re slashDelim"
      let ?stop = "if ?single then ?e + 1 else end"
      from index_byte_SomeD [OF Some] have idx: "?e < end" "pa_path A ! ?e = slashDelim"
          "slashDelim \<notin> set (take idx (slice (pa_path A) from end))"
        using d(3) by (auto simp: slice_def)
      have skip: "\<not> capture_end ?R w pos k" if "from \<le> k" "k < ?e" for k
      proof -
        have "take idx (slice (pa_path A) from end) = slice (pa_path A) from ?e"
          using idx(1) by (simp add: slice_def)
        then show ?thesis using idx slice_mem [OF that, of "pa_path A"] d(3) by (auto simp: capture_end_def)
      qed
      have inv': "scan_inv E A serves n pos w from ?stop ends ls"
      proof (cases ?single)
        case True
        then obtain re where "nregexp w = Some re" "\<not> lk_Consumes E re slashDelim" by (auto split: option.splits)
        note single = single_end [OF h(2) this, of pos ?e A]
        show ?thesis using less.prems True single idx d(1,3) by (auto simp: scan_inv_def split: option.splits)
      qed (use less.prems in simp)
      have eq: "step_scan E A i from end ev ends (?s ls) = visit E A i from ?e ?stop ev ends (?s ls)"
        using False h(7) Some by (simp add: step_scan_visit Let_def)
      show ?thesis unfolding eq
        using idx skip d(1,3) False IH by (intro ends_visit [OF here inv']) auto
    qed
  qed
  then show ?case unfolding step [symmetric] by (rule ends_step)
qed

end
