(* ===== verification/Lookup_Walk.thy ===== *)
theory Lookup_Walk
  imports Lookup_Scan
begin

text \<open>
  The walk of \<open>lookupByPath\<close> computes the reference recursion: the infix wildcards of a node, its
  parameters, its static child, and the whole walk by induction on the size of the node.
\<close>

subsection \<open>The recursion by parts\<close>

lemma orelse_assoc: "orelse (orelse a b) c = orelse a (orelse b c)"
  by (simp add: orelse_def split: option.splits)

definition ref_wild :: "('c, 'h) ref_env \<Rightarrow> ('c, 'h) route node \<Rightarrow> nat \<Rightarrow> nat \<Rightarrow> ('c, 'h) hit option" where
  "ref_wild R n pos i =
     ref_after R n pos
       (infixes (\<lambda>w. first_some (capture_result R n pos w) (captures R w pos)) (ref_infix_slash R pos)
          (\<lambda>w. nstatics w = []) (ref_back R n pos) (drop i (nwildcards n)))"

definition ref_param :: "('c, 'h) ref_env \<Rightarrow> ('c, 'h) route node \<Rightarrow> nat \<Rightarrow> nat \<Rightarrow> ('c, 'h) route node \<Rightarrow> ('c, 'h) hit option" where
  "ref_param R n pos end c =
     (let segment = take end (drop pos (rf_path R)) in
      if node_matches R c segment then map_option (add_capture segment) (ref R (Some n) c (pos + end)) else None)"

definition ref_rest :: "('c, 'h) ref_env \<Rightarrow> ('c, 'h) route node \<Rightarrow> nat \<Rightarrow> ('c, 'h) hit option" where
  "ref_rest R n pos = (if nwildcards n \<noteq> [] then ref_wild R n pos 0 else None)"

definition ref_dynamic :: "('c, 'h) ref_env \<Rightarrow> ('c, 'h) route node \<Rightarrow> nat \<Rightarrow> ('c, 'h) hit option" where
  "ref_dynamic R n pos =
     (let end = segment_end (drop pos (rf_path R)) in
      if n \<noteq> rf_root R \<and> nparams n \<noteq> [] then
        orelse (if end = 0 then ref_back R n pos else first_some (ref_param R n pos end) (nparams n)) (ref_rest R n pos)
      else if n \<noteq> rf_root R \<and> nwildcards n \<noteq> [] then ref_wild R n pos 0
      else ref_back R n pos)"

lemma ref_parts:
  "ref R p n pos =
     (if length (rf_path R) \<le> pos then ref_end R p n
      else let search = drop pos (rf_path R) in
        (case getStaticEdge n (rf_path R ! pos) of
           None \<Rightarrow> ref_dynamic R n pos
         | Some (_, child) \<Rightarrow>
             if has_prefix search (nkey child) then
               orelse (ref R (Some n) child (pos + length (nkey child)))
                 (if n \<noteq> rf_root R \<and> (nparams n \<noteq> [] \<or> nwildcards n \<noteq> []) then ref_dynamic R n pos else None)
             else if nkey child = search @ ''/'' \<and> \<not> has_suffix search ''/''
             then orelse (ref_add_slash R child) (ref_dynamic R n pos)
             else ref_dynamic R n pos))"
proof -
  have cap: "(\<lambda>e. map_option (add_capture (slice (rf_path R) pos e)) (ref R (Some n) w e)) = capture_result R n pos w" for w
    by (simp add: capture_result_def fun_eq_iff)
  show ?thesis
    by (subst ref.simps)
      (simp only: ref_dynamic_def ref_rest_def ref_wild_def ref_param_def [abs_def] cap Let_def drop_0)
qed

text \<open>Backtracking from a node that has left an entry for itself on the stack.\<close>

lemma ends_back_resume:
  assumes "lk_method E \<noteq> ''''" "ls_fine E A serves ls" "walk_ok n" "pa_stackOffset A \<le> length K"
    and resumed: "\<And>ls'. ls_fine E A serves ls' \<Longrightarrow> ends_with E A serves ps K r (wst A LWalk n p pos True a b c ps K ls')"
  shows "ends_with E A serves ps K (orelse (ref_back (ref_of E A) n pos) r)
    (wst A LBack n p pos sk pi wi wo ps
      (\<lparr>sk_node = n, sk_parent = p, sk_charsMatched = pos, sk_paramCnt = length ps, sk_childParamIdx = a,
        sk_childWildcardIdx = b, sk_wildcardOffset = c\<rparr> # K) ls)"
    (is "ends_with E A serves ps K _ (wst A LBack n p pos sk pi wi wo ps (?sk # K) ls)")
proof -
  have "ends_with E A serves (ps @ (if lk_lazy E then [] else [])) (?sk # K) (ref_back (ref_of E A) n pos)
      (wst A LBack n p pos sk pi wi wo ps (?sk # K) ls)"
    using ends_back [OF assms(1-3)] by simp
  from ends_pushed [OF this _ assms(4), of r] resumed show ?thesis by (simp add: add_captures_simps option.map_id)
qed

subsection \<open>The infix wildcards\<close>

lemma ends_infix_done:
  assumes "lk_method E \<noteq> ''''" "ls_fine E A serves ls" "walk_ok n" "length (nwildcards n) \<le> i"
  shows "ends_with E A serves ps K (ref_wild (ref_of E A) n pos i) (wst A (LInfix i) n p pos sk pi wi wo ps K ls)"
proof (rule ends_step)
  have "step_path E A (wst A (LInfix i) n p pos sk pi wi wo ps K ls) = wst A (LSuffix None) n p pos sk pi wi wo ps K ls"
    using assms(4) by (simp add: step_path_def step_infix_def Let_def)
  with ends_suffix [OF assms(1-3)] assms(4)
  show "ends_with E A serves ps K (ref_wild (ref_of E A) n pos i) (step_path E A (wst A (LInfix i) n p pos sk pi wi wo ps K ls))"
    by (simp add: ref_wild_def)
qed

definition next_result :: "('c, 'h) ref_env \<Rightarrow> ('c, 'h) route node \<Rightarrow> nat \<Rightarrow> nat \<Rightarrow> ('c, 'h) hit option" where
  "next_result R n pos i =
     (if i + 1 < length (nwildcards n) then orelse (ref_back R n pos) (ref_wild R n pos (i + 1)) else ref_wild R n pos (i + 1))"

lemma ref_wild_step:
  assumes "i < length (nwildcards n)" "nwildcards n ! i = w"
  shows "ref_wild R n pos i =
    (if nstatics w = [] then ref_wild R n pos (i + 1) else scan_result R n pos w pos (next_result R n pos i))"
proof -
  have "drop i (nwildcards n) = w # drop (i + 1) (nwildcards n)"
    using assms Cons_nth_drop_Suc [of i "nwildcards n"] by simp
  moreover have "(drop (i + 1) (nwildcards n) = []) = (\<not> i + 1 < length (nwildcards n))" by auto
  ultimately show ?thesis
    by (cases "first_some (capture_result R n pos w) (captures R w pos)"; cases "ref_infix_slash R pos w"; cases "ref_back R n pos")
      (auto simp: ref_wild_def scan_result_def scan_rest_def next_result_def captures_captures_from ref_after_def orelse_def
        split: sum.splits option.splits)
qed

lemma ends_infix:
  assumes ok: "lookup_ok E serves" "walk_ok n" "n \<noteq> pa_root A" "pos < length (pa_path A)" "pa_stackOffset A \<le> length K"
    and child: "\<And>w e ps K ls. w \<in> set (nwildcards n) \<Longrightarrow> pos < e \<Longrightarrow> e < length (pa_path A) \<Longrightarrow> pa_stackOffset A \<le> length K \<Longrightarrow>
      ls_fine E A serves ls \<Longrightarrow>
      ends_with E A serves ps K (ref (ref_of E A) (Some n) w e) (wst A LWalk w (Some n) e False 0 0 0 ps K ls)"
    and fine: "ls_fine E A serves ls"
  shows "ends_with E A serves ps K (ref_wild (ref_of E A) n pos i) (wst A (LInfix i) n p pos False pi wi 0 ps K ls)"
  using fine
proof (induction "length (nwildcards n) - i" arbitrary: i pi wi ls rule: less_induct)
  case less
  let ?R = "ref_of E A"
  have meth: "lk_method E \<noteq> ''''" and listing: "listing_ok E serves" using ok(1) by (simp_all add: lookup_ok_def)
  show ?case
  proof (cases "i < length (nwildcards n)")
    case False
    then show ?thesis using ends_infix_done [OF meth less.prems ok(2)] by simp
  next
    case True
    define w where "w = nwildcards n ! i"
    have w: "w \<in> set (nwildcards n)" "nwildcards n ! i = w" using True by (simp_all add: w_def)
    note step = ref_wild_step [OF True w(2), of ?R pos]
    have "ends_with E A serves ps K (ref_wild ?R n pos i) (step_path E A (wst A (LInfix i) n p pos False pi wi 0 ps K ls))"
    proof (cases "nstatics w = []")
      case leafless: True
      then have "step_path E A (wst A (LInfix i) n p pos False pi wi 0 ps K ls) = wst A (LInfix (i + 1)) n p pos False pi wi 0 ps K ls"
        using True w(2) by (simp add: step_path_def step_infix_def Let_def)
      with less.hyps [of "i + 1" ls] less.prems True leafless step show ?thesis by simp
    next
      case inner: False
      have "ends_with E A serves ps K (next_result ?R n pos i) (next_infix i (wst A l n p pos sk pi wi wo ps K ls'))"
        if "ls_fine E A serves ls'" "nregexp w = None \<Longrightarrow> scan_failed ?R w pos" for l sk pi wi wo ls'
      proof -
        let ?ls = "if nregexp w = None then markExhausted w pos ls' else ls'"
        let ?sk = "\<lparr>sk_node = n, sk_parent = p, sk_charsMatched = pos, sk_paramCnt = length ps,
            sk_childParamIdx = length (nparams n), sk_childWildcardIdx = i + 1, sk_wildcardOffset = 0\<rparr>"
        have f: "ls_fine E A serves ?ls" using that ls_fine_markExhausted [OF that(1)] by simp
        show ?thesis
        proof (cases "i + 1 < length (nwildcards n)")
          case False
          then have "next_infix i (wst A l n p pos sk pi wi wo ps K ls') = wst A (LInfix (i + 1)) n p pos sk pi wi wo ps K ?ls"
            using w(2) by (simp add: next_infix_def Let_def)
          with ends_infix_done [OF meth f ok(2), of "i + 1"] False show ?thesis by (simp add: next_result_def)
        next
          case more: True
          then have eq: "next_infix i (wst A l n p pos sk pi wi wo ps K ls') = wst A LBack n p pos sk pi wi wo ps (?sk # K) ?ls"
            using w(2) by (simp add: next_infix_def Let_def)
          have "ends_with E A serves ps K (ref_wild ?R n pos (i + 1))
              (wst A LWalk n p pos True (length (nparams n)) (i + 1) 0 ps K ls'')" if "ls_fine E A serves ls''" for ls''
            by (rule ends_step) (use less.hyps [of "i + 1"] that True in \<open>simp add: resume_infix [OF more ok(3,4), simplified]\<close>)
          then have "ends_with E A serves ps K (orelse (ref_back ?R n pos) (ref_wild ?R n pos (i + 1)))
              (wst A LBack n p pos sk pi wi wo ps (?sk # K) ?ls)"
            by (rule ends_back_resume [OF meth f ok(2,5)])
          then show ?thesis unfolding eq using more by (simp add: next_result_def)
        qed
      qed
      with ok True w inner child have here: "scan_here E A serves n p pos i w ps K (next_result ?R n pos i)"
        by (simp add: scan_here_def)
      note h = scan_hereD [OF here]
      let ?stop = "if nregexp w = None then scanEnd ls w pos (length (pa_path A)) else length (pa_path A)"
      have eq: "step_path E A (wst A (LInfix i) n p pos False pi wi 0 ps K ls)
          = wst A (LScan i pos ?stop False False) n p pos False pi wi 0 ps K ls"
        using True w(2) inner h(5) by (auto simp: step_path_def step_infix_def Let_def)
      have "scan_inv E A serves n pos w pos ?stop False ls"
        using scan_inv_plain [OF _ less.prems order_refl] scan_inv_regexp(1) [OF listing _ less.prems order_refl] ok(4)
        by (cases "nregexp w") (auto simp: capture_end_def)
      from ends_scan [OF here this] show ?thesis unfolding eq step using inner by simp
    qed
    then show ?thesis by (rule ends_step)
  qed
qed

subsection \<open>The parameters\<close>

definition step_dynamic ::
  "('c, 'h, 'e) lookup_env \<Rightarrow> ('c, 'h) route path_args \<Rightarrow> ('c, 'h, 'e) wstate \<Rightarrow> ('c, 'h, 'e) wstate" where
  "step_dynamic E A s = (case walk_params E A s of Inl s \<Rightarrow> s | Inr s \<Rightarrow> walk_wildcards A s)"

lemma step_resumed:
  "pos < length (pa_path A) \<Longrightarrow> step_path E A (wst A LWalk n p pos True pi wi wo ps K ls)
     = step_dynamic E A (wst A LWalk n p pos False pi wi wo ps K ls)"
  by (simp add: step_path_def step_walk_def walk_statics_def step_dynamic_def)

text \<open>What the walk relies on at an inner node: the walks below it end with the reference.\<close>

definition walk_below ::
  "('c, 'h, 'e) lookup_env \<Rightarrow> ('c, 'h) route path_args \<Rightarrow> ('e \<Rightarrow> regexp \<Rightarrow> string \<Rightarrow> nat \<Rightarrow> char \<Rightarrow> bool)
   \<Rightarrow> ('c, 'h) route node \<Rightarrow> bool" where
  "walk_below E A serves n \<longleftrightarrow>
     (\<forall>c e ps K ls. c \<in> children n \<longrightarrow> pa_stackOffset A \<le> length K \<longrightarrow> ls_fine E A serves ls \<longrightarrow>
        ends_with E A serves ps K (ref (ref_of E A) (Some n) c e) (wst A LWalk c (Some n) e False 0 0 0 ps K ls))"

lemma walk_belowD:
  "walk_below E A serves n \<Longrightarrow> c \<in> children n \<Longrightarrow> pa_stackOffset A \<le> length K \<Longrightarrow> ls_fine E A serves ls \<Longrightarrow>
     ends_with E A serves ps K (ref (ref_of E A) (Some n) c e) (wst A LWalk c (Some n) e False 0 0 0 ps K ls)"
  by (simp add: walk_below_def)

lemma ends_wildcards:
  assumes ok: "lookup_ok E serves" "walk_ok n" "pos < length (pa_path A)" "pa_stackOffset A \<le> length K"
    and below: "walk_below E A serves n" and fine: "ls_fine E A serves ls"
  shows "ends_with E A serves ps K
    (if n \<noteq> pa_root A \<and> nwildcards n \<noteq> [] then ref_wild (ref_of E A) n pos 0 else ref_back (ref_of E A) n pos)
    (walk_wildcards A (wst A LWalk n p pos False pi 0 0 ps K ls))"
proof (cases "n \<noteq> pa_root A \<and> nwildcards n \<noteq> []")
  case True
  have "ends_with E A serves ps K (ref_wild (ref_of E A) n pos 0) (wst A (LInfix 0) n p pos False pi 0 0 ps K ls)"
    by (rule ends_infix [OF ok(1,2) _ ok(3,4) _ fine]) (use True walk_belowD [OF below] in \<open>auto simp: children_def\<close>)
  with True show ?thesis by (simp add: walk_wildcards_def)
next
  case False
  moreover have "lk_method E \<noteq> ''''" using ok(1) by (simp add: lookup_ok_def)
  ultimately show ?thesis using ends_back [OF _ fine ok(2)] by (auto simp: walk_wildcards_def)
qed

lemma ends_try_params:
  assumes ok: "lookup_ok E serves" "walk_ok n" "n \<noteq> pa_root A" "pos < length (pa_path A)" "pa_stackOffset A \<le> length K"
    and below: "walk_below E A serves n" and fine: "ls_fine E A serves ls"
    and seg: "segment_end (drop pos (pa_path A)) \<noteq> 0" "end = segment_end (drop pos (pa_path A))"
    and j: "j \<le> length (nparams n)"
  shows "ends_with E A serves ps K
    (orelse (first_some (ref_param (ref_of E A) n pos end) (drop j (nparams n))) (ref_rest (ref_of E A) n pos))
    (case try_params E (take end (drop pos (pa_path A))) end j (drop j (nparams n)) (wst A LWalk n p pos False pi 0 0 ps K ls) of
       Some s \<Rightarrow> s | None \<Rightarrow> walk_wildcards A (wst A LWalk n p pos False pi 0 0 ps K ls))"
  using fine j
proof (induction "length (nparams n) - j" arbitrary: j pi ls)
  case 0
  let ?R = "ref_of E A"
  have "drop pos (pa_path A) \<noteq> ''/''" using seg by (auto simp: segment_end_def)
  then have "ref_back ?R n pos = None" by (simp add: ref_back_def)
  with 0 ends_wildcards [OF ok(1,2,4,5) below 0(2), of ps p pi] ok(3) show ?case
    by (cases "nwildcards n = []") (simp_all add: ref_rest_def)
next
  case (Suc m)
  let ?R = "ref_of E A" and ?seg = "take end (drop pos (pa_path A))"
  let ?s = "wst A LWalk n p pos False pi 0 0 ps K ls"
  from Suc.hyps(2) have j: "j < length (nparams n)" by simp
  define c where "c = nparams n ! j"
  have c: "drop j (nparams n) = c # drop (j + 1) (nparams n)" "c \<in> children n"
    using j Cons_nth_drop_Suc [of j "nparams n"] by (simp_all add: c_def children_def)
  note IH = Suc.hyps(1) [of "j + 1"]
  show ?case
  proof (cases "node_matches ?R c ?seg")
    case False
    then show ?thesis
      using IH [OF _ Suc.prems(1), of pi] Suc.hyps(2) j c(1) matchRegexp_eq [of E c ?seg A]
      by (simp add: ref_param_def Let_def)
  next
    case True
    let ?sk = "\<lparr>sk_node = n, sk_parent = p, sk_charsMatched = pos, sk_paramCnt = length ps,
        sk_childParamIdx = j + 1, sk_childWildcardIdx = 0, sk_wildcardOffset = 0\<rparr>"
    let ?more = "drop (j + 1) (nparams n) \<noteq> [] \<or> nwildcards n \<noteq> []"
    let ?ps = "ps @ (if lk_lazy E then [] else [?seg])"
    have tried: "try_params E ?seg end j (drop j (nparams n)) ?s =
        Some (wst A LWalk c (Some n) (pos + end) False 0 0 0 ?ps (if ?more then ?sk # K else K) ls)"
      using True matchRegexp_eq [of E c ?seg A] unfolding c(1)
      by (simp add: Let_def wst_def push_def record_param_def jump_def add.commute)
    have head: "first_some (ref_param ?R n pos end) (drop j (nparams n)) =
        orelse (map_option (add_captures [?seg]) (ref ?R (Some n) c (pos + end)))
          (first_some (ref_param ?R n pos end) (drop (j + 1) (nparams n)))"
      using True unfolding c(1) by (simp add: ref_param_def Let_def orelse_def add_captures_simps)
    show ?thesis
    proof (cases ?more)
      case False
      have "ends_with E A serves ?ps K (ref ?R (Some n) c (pos + end)) (wst A LWalk c (Some n) (pos + end) False 0 0 0 ?ps K ls)"
        by (rule walk_belowD [OF below c(2) ok(5) Suc.prems(1)])
      from ends_captured [OF this] False show ?thesis unfolding tried head by (simp add: ref_rest_def)
    next
      case more: True
      let ?next = "orelse (first_some (ref_param ?R n pos end) (drop (j + 1) (nparams n))) (ref_rest ?R n pos)"
      have resumed: "ends_with E A serves ps K ?next (wst A LWalk n p pos True (j + 1) 0 0 ps K ls')" if f: "ls_fine E A serves ls'" for ls'
      proof (rule ends_step)
        have "step_path E A (wst A LWalk n p pos True (j + 1) 0 0 ps K ls') =
            (case try_params E ?seg end (j + 1) (drop (j + 1) (nparams n)) (wst A LWalk n p pos False (j + 1) 0 0 ps K ls') of
               Some s \<Rightarrow> s | None \<Rightarrow> walk_wildcards A (wst A LWalk n p pos False (j + 1) 0 0 ps K ls'))"
          unfolding step_resumed [OF ok(4)] step_dynamic_def walk_params_def
          using seg ok(3) by (auto simp: Let_def segment_end_def split: option.splits)
        with IH [OF _ f, of "j + 1"] Suc.hyps(2) j
        show "ends_with E A serves ps K ?next (step_path E A (wst A LWalk n p pos True (j + 1) 0 0 ps K ls'))" by simp
      qed
      have "ends_with E A serves ?ps (?sk # K) (ref ?R (Some n) c (pos + end))
          (wst A LWalk c (Some n) (pos + end) False 0 0 0 ?ps (?sk # K) ls)"
        by (rule walk_belowD [OF below c(2) _ Suc.prems(1)]) (use ok(5) in simp)
      from ends_pushed [OF this _ ok(5), of ?next] resumed more show ?thesis
        unfolding tried head orelse_assoc by simp
    qed
  qed
qed

subsection \<open>A node\<close>

lemma ends_dynamic:
  assumes ok: "lookup_ok E serves" "walk_ok n" "pos < length (pa_path A)" "pa_stackOffset A \<le> length K"
    and below: "walk_below E A serves n" and fine: "ls_fine E A serves ls"
  shows "ends_with E A serves ps K (ref_dynamic (ref_of E A) n pos) (step_dynamic E A (wst A LWalk n p pos False 0 0 0 ps K ls))"
proof -
  let ?R = "ref_of E A" and ?s = "wst A LWalk n p pos False 0 0 0 ps K ls"
  let ?stop = "segment_end (drop pos (pa_path A))"
  have meth: "lk_method E \<noteq> ''''" using ok(1) by (simp add: lookup_ok_def)
  show ?thesis
  proof (cases "n \<noteq> pa_root A \<and> nparams n \<noteq> []")
    case False
    then have "step_dynamic E A ?s = walk_wildcards A ?s"
      by (auto simp: step_dynamic_def walk_params_def)
    moreover have "ref_dynamic ?R n pos = (if n \<noteq> pa_root A \<and> nwildcards n \<noteq> [] then ref_wild ?R n pos 0 else ref_back ?R n pos)"
      using False by (auto simp: ref_dynamic_def Let_def)
    ultimately show ?thesis using ends_wildcards [OF ok below fine, of ps p 0] by simp
  next
    case True
    show ?thesis
    proof (cases "?stop = 0")
      case False
      then have "step_dynamic E A ?s = (case try_params E (take ?stop (drop pos (pa_path A))) ?stop 0 (drop 0 (nparams n)) ?s of
          Some s \<Rightarrow> s | None \<Rightarrow> walk_wildcards A ?s)"
        using True by (auto simp: step_dynamic_def walk_params_def segment_end_def Let_def split: option.splits)
      moreover have "ref_dynamic ?R n pos = orelse (first_some (ref_param ?R n pos ?stop) (drop 0 (nparams n))) (ref_rest ?R n pos)"
        using True False by (simp add: ref_dynamic_def Let_def)
      ultimately show ?thesis
        using ends_try_params [OF ok(1,2) _ ok(3,4) below fine False refl, of 0 ps p 0] True by simp
    next
      case slash: True
      have eq: "ref_dynamic ?R n pos = orelse (ref_back ?R n pos) (ref_rest ?R n pos)"
        using True slash by (simp add: ref_dynamic_def Let_def)
      have none: "index_byte (drop pos (pa_path A)) slashDelim = Some 0 \<or> drop pos (pa_path A) = []"
        using slash by (auto simp: segment_end_def split: option.splits)
      show ?thesis
      proof (cases "nwildcards n = []")
        case no: True
        have "step_dynamic E A ?s = wst A LBack n p pos False 0 0 0 ps K ls"
          using True none no by (auto simp: step_dynamic_def walk_params_def Let_def)
        with ends_back [OF meth fine ok(2)] show ?thesis unfolding eq by (simp add: no ref_rest_def)
      next
        case wild: False
        have step: "step_dynamic E A ?s = wst A LBack n p pos False 0 0 0 ps
            (\<lparr>sk_node = n, sk_parent = p, sk_charsMatched = pos, sk_paramCnt = length ps,
              sk_childParamIdx = length (nparams n), sk_childWildcardIdx = 0, sk_wildcardOffset = 0\<rparr> # K) ls"
          using True none wild by (auto simp: step_dynamic_def walk_params_def Let_def)
        have "ends_with E A serves ps K (ref_rest ?R n pos) (wst A LWalk n p pos True (length (nparams n)) 0 0 ps K ls')"
          if "ls_fine E A serves ls'" for ls'
        proof (rule ends_step)
          have "step_path E A (wst A LWalk n p pos True (length (nparams n)) 0 0 ps K ls')
              = wst A (LInfix 0) n p pos False (length (nparams n)) 0 0 ps K ls'"
            by (rule resume_infix) (use True wild ok(3) in auto)
          with ends_infix [OF ok(1,2) _ ok(3,4) _ that, of ps 0 p "length (nparams n)" 0] walk_belowD [OF below] True wild
          show "ends_with E A serves ps K (ref_rest ?R n pos)
              (step_path E A (wst A LWalk n p pos True (length (nparams n)) 0 0 ps K ls'))"
            by (simp add: ref_rest_def children_def)
        qed
        from ends_back_resume [OF meth fine ok(2,4) this] show ?thesis unfolding step eq .
      qed
    qed
  qed
qed

text \<open>A static child that is one slash longer than the rest of the path.\<close>

lemma slash_longer:
  assumes "search \<noteq> []"
  shows "(length key = length search + 1 \<and> key ! (length key - 1) = slashDelim \<and> key ! (length key - 2) \<noteq> slashDelim
     \<and> has_prefix key search) \<longleftrightarrow> key = search @ ''/'' \<and> \<not> has_suffix search ''/''"
proof -
  have last: "has_suffix search ''/'' \<longleftrightarrow> search ! (length search - 1) = slashDelim"
    using assms by (simp add: has_suffix_single last_conv_nth)
  show ?thesis
  proof
    assume l: "length key = length search + 1 \<and> key ! (length key - 1) = slashDelim \<and> key ! (length key - 2) \<noteq> slashDelim
       \<and> has_prefix key search"
    then obtain t where t: "key = search @ t" by (auto simp: has_prefix_iff)
    with l obtain c where "t = [c]" by (cases t) auto
    with l t have "key = search @ ''/''" by simp
    then show "key = search @ ''/'' \<and> \<not> has_suffix search ''/''"
      using l assms unfolding last by (simp add: nth_append)
  next
    assume "key = search @ ''/'' \<and> \<not> has_suffix search ''/''"
    then show "length key = length search + 1 \<and> key ! (length key - 1) = slashDelim \<and> key ! (length key - 2) \<noteq> slashDelim
       \<and> has_prefix key search"
      using assms unfolding last by (simp add: nth_append)
  qed
qed

lemma static_prefix:
  assumes "wf_node n" "getStaticEdge n (search ! 0) = Some (j, child)" "search \<noteq> []"
  shows "(length (nkey child) = 1 \<or> length (nkey child) \<le> length search \<and> take (length (nkey child)) search = nkey child)
    \<longleftrightarrow> has_prefix search (nkey child)"
proof -
  obtain k where "nkey child = (search ! 0) # k" using static_keyD [OF _ assms(2)] assms(1) wf_node_iff by blast
  with assms(3) show ?thesis using has_prefix_length [of search "nkey child"]
    by (cases search) (auto simp: has_prefix_def)
qed

lemma ends_walk:
  fixes E :: "('c, 'h, 'e) lookup_env" and n :: "('c, 'h) route node"
  assumes "lookup_ok E serves" "walk_ok n" "\<And>m. p = Some m \<Longrightarrow> \<forall>r \<in> set (nroutes m). fast_ok r"
    "pa_stackOffset A \<le> length K" "ls_fine E A serves ls"
  shows "ends_with E A serves ps K (ref (ref_of E A) p n pos) (wst A LWalk n p pos False 0 0 0 ps K ls)"
  using assms
proof (induction n arbitrary: p pos ps K ls rule: measure_induct_rule [of size])
  case (less n)
  let ?R = "ref_of E A" and ?s = "\<lambda>ls. wst A LWalk n p pos False 0 0 0 ps K ls"
  note ok = less.prems(1,2) and K = less.prems(4) and fine = less.prems(5)
  have meth: "lk_method E \<noteq> ''''" using ok(1) by (simp add: lookup_ok_def)
  have routes: "\<forall>r \<in> set (nroutes n). fast_ok r" using walk_okD(2) [OF ok(2)] by blast
  have below: "walk_below E A serves n"
    unfolding walk_below_def
  proof (intro allI impI)
    fix c e ps' and K' :: "('c, 'h) route skipNode list" and ls'
    assume "c \<in> children n" "pa_stackOffset A \<le> length K'" "ls_fine E A serves ls'"
    then show "ends_with E A serves ps' K' (ref ?R (Some n) c e) (wst A LWalk c (Some n) e False 0 0 0 ps' K' ls')"
      using routes by (intro less.IH child_smaller walk_ok_child [OF ok(2)] ok(1)) auto
  qed
  show ?case
  proof (cases "length (pa_path A) \<le> pos")
    case True
    then show ?thesis
      using ends_end [OF meth fine ok(2) less.prems(3) True] ref_parts [of ?R p n pos] by simp
  next
    case False
    then have pos: "pos < length (pa_path A)" by simp
    let ?search = "drop pos (pa_path A)"
    have search: "?search \<noteq> []" "?search ! 0 = pa_path A ! pos" using pos by simp_all
    have dynamic: "ends_with E A serves ps K (ref_dynamic ?R n pos) (step_dynamic E A (?s ls'))" if "ls_fine E A serves ls'" for ls'
      by (rule ends_dynamic [OF ok pos K below that])
    have step: "step_path E A (?s ls) = (case walk_statics E A (?s ls) of Inl s \<Rightarrow> s | Inr s \<Rightarrow> step_dynamic E A (s\<lparr>wk_skipStatic := False\<rparr>))"
      using pos by (cases "walk_statics E A (?s ls)") (simp_all add: step_path_def step_walk_def step_dynamic_def Let_def)
    have "ends_with E A serves ps K (ref ?R p n pos) (step_path E A (?s ls))"
    proof (cases "getStaticEdge n (pa_path A ! pos)")
      case None
      then have "walk_statics E A (?s ls) = Inr (?s ls)" using search by (simp add: walk_statics_def)
      then show ?thesis unfolding step using dynamic [OF fine] None pos by (simp add: ref_parts [of ?R p n pos])
    next
      case (Some jc)
      then obtain j child where edge: "getStaticEdge n (pa_path A ! pos) = Some (j, child)" by (cases jc) auto
      then have child: "child \<in> children n" by (rule static_childD(1))
      note prefix = static_prefix [OF walk_okD(1) [OF ok(2)], of ?search j child, unfolded search(2), OF edge search(1)]
      note longer = slash_longer [OF search(1), of "nkey child"]
      show ?thesis
      proof (cases "has_prefix ?search (nkey child)")
        case True
        let ?sk = "\<lparr>sk_node = n, sk_parent = p, sk_charsMatched = pos, sk_paramCnt = length ps,
            sk_childParamIdx = 0, sk_childWildcardIdx = 0, sk_wildcardOffset = 0\<rparr>"
        let ?more = "n \<noteq> pa_root A \<and> (nparams n \<noteq> [] \<or> nwildcards n \<noteq> [])"
        have "walk_statics E A (?s ls) = Inl (wst A LWalk child (Some n) (pos + length (nkey child)) False 0 0 0 ps
            (if ?more then ?sk # K else K) ls)"
          using edge search prefix True
          by (auto simp: walk_statics_def Let_def wst_def push_def jump_def add.commute)
        then have go: "step_path E A (?s ls) = wst A LWalk child (Some n) (pos + length (nkey child)) False 0 0 0 ps
            (if ?more then ?sk # K else K) ls"
          unfolding step by simp
        have eq: "ref ?R p n pos = orelse (ref ?R (Some n) child (pos + length (nkey child))) (if ?more then ref_dynamic ?R n pos else None)"
          using True edge pos by (simp add: ref_parts [of ?R p n pos])
        show ?thesis
        proof (cases ?more)
          case False
          then show ?thesis unfolding go eq using walk_belowD [OF below child K fine] by auto
        next
          case more: True
          have "ends_with E A serves (ps @ (if lk_lazy E then [] else [])) (?sk # K) (ref ?R (Some n) child (pos + length (nkey child)))
              (wst A LWalk child (Some n) (pos + length (nkey child)) False 0 0 0 ps (?sk # K) ls)"
            using walk_belowD [OF below child _ fine, of "?sk # K"] K by simp
          moreover have "ends_with E A serves ps K (ref_dynamic ?R n pos) (wst A LWalk n p pos True 0 0 0 ps K ls')"
            if "ls_fine E A serves ls'" for ls'
            using dynamic [OF that] step_resumed [OF pos] by (metis ends_step)
          ultimately show ?thesis unfolding go eq
            using ends_pushed [OF _ _ K, of E serves ps "[]" ?sk "ref ?R (Some n) child (pos + length (nkey child))" _ "ref_dynamic ?R n pos"] more
            by (simp add: add_captures_simps option.map_id)
        qed
      next
        case no: False
        show ?thesis
        proof (cases "nkey child = ?search @ ''/'' \<and> \<not> has_suffix ?search ''/''")
          case False
          then have "walk_statics E A (?s ls) = Inr (?s ls)"
            using edge search prefix no longer by (auto simp: walk_statics_def Let_def)
          then show ?thesis unfolding step
            using dynamic [OF fine] edge no False pos by (auto simp: ref_parts [of ?R p n pos] Let_def)
        next
          case True
          obtain ls' where t: "ls_fine E A serves ls'" "matchTrailingSlash E child ls ps =
              (case ref_add_slash ?R child of None \<Rightarrow> (None, ls', ps)
               | Some (i, m, tsr, vs) \<Rightarrow> (Some (i, m), ls', if lk_lazy E then ps else ps @ vs))"
              "\<And>i m tsr vs. ref_add_slash ?R child = Some (i, m, tsr, vs) \<Longrightarrow> tsr"
            by (rule matchTrailingSlash_cases [OF meth fine walk_ok_child [OF ok(2) child]]) blast
          have eq: "ref ?R p n pos = orelse (ref_add_slash ?R child) (ref_dynamic ?R n pos)"
            using True no edge pos by (simp add: ref_parts [of ?R p n pos])
          have walk: "walk_statics E A (?s ls) =
              (case matchTrailingSlash E child ls ps of
                 (Some (i, n), ls, params) \<Rightarrow> Inl (found i n True ((?s ls)\<lparr>wk_params := params\<rparr>))
               | (None, ls, params) \<Rightarrow> Inr ((?s ls)\<lparr>wk_params := params\<rparr>))"
          proof -
            have no1: "\<not> (length (nkey child) = 1 \<or> length (nkey child) \<le> length ?search \<and> take (length (nkey child)) ?search = nkey child)"
              using prefix no by blast
            have yes: "length (nkey child) = length ?search + 1 \<and> nkey child ! (length (nkey child) - 1) = slashDelim
                 \<and> nkey child ! (length (nkey child) - 2) \<noteq> slashDelim \<and> has_prefix (nkey child) ?search"
              using longer True by blast
            show ?thesis
              unfolding walk_statics_def Let_def wst_simps search(2) edge
              by (simp only: if_False option.case prod.case if_not_P [OF no1] if_P [OF yes] wst_updates)
          qed
          show ?thesis
          proof (cases "ref_add_slash ?R child")
            case None
            then show ?thesis unfolding step walk eq t(2) using dynamic [OF t(1)] by simp
          next
            case (Some h)
            obtain i m tsr vs where h: "h = (i, m, tsr, vs)" by (cases h)
            with Some t(3) have "tsr" by blast
            have "ends_with E A serves ps K (Some (i, m, True, vs))
                (found i m True (wst A LWalk n p pos False 0 0 0 (if lk_lazy E then ps else ps @ vs) K ls'))"
              by (rule ends_done [OF t(1)]) simp
            with Some h \<open>tsr\<close> show ?thesis unfolding step walk eq t(2) by simp
          qed
        qed
      qed
    qed
    then show ?thesis by (rule ends_step)
  qed
qed

subsection \<open>The lookup\<close>

lemma lookupByPath_facts:
  assumes "lookup_ok E serves" "walk_ok (pa_root A)" "pa_stackOffset A = length K" "ls_fine E A serves ls"
  shows "\<exists>s. lookupByPath E A ps K ls = Some s \<and> ls_fine E A serves (wk_ls s) \<and>
    (case ref (ref_of E A) None (pa_root A) 0 of
       None \<Rightarrow> wk_label s = LDone None
     | Some (i, n, tsr, vs) \<Rightarrow> wk_label s = LDone (Some (i, n, tsr)) \<and> wk_params s = ps @ (if lk_lazy E then [] else vs))"
proof -
  have start: "start_path A ps K ls = wst A LWalk (pa_root A) None 0 False 0 0 0 ps K ls"
    by (simp add: start_path_def wst_def)
  have "ends_with E A serves ps K (ref (ref_of E A) None (pa_root A) 0) (start_path A ps K ls)"
    unfolding start by (rule ends_walk [OF assms(1,2) _ _ assms(4)]) (use assms(3) in auto)
  then obtain s where s: "reaches E A (start_path A ps K ls) s" "ls_fine E A serves (wk_ls s)"
      "case ref (ref_of E A) None (pa_root A) 0 of
         Some (i, n, tsr, vs) \<Rightarrow> wk_label s = LDone (Some (i, n, tsr)) \<and> wk_params s = ps @ (if lk_lazy E then [] else vs)
       | None \<Rightarrow> wk_label s = LPop \<and> wk_stack s = K \<and> (\<exists>xs. wk_params s = ps @ xs)"
    unfolding ends_with_def by blast
  show ?thesis
  proof (cases "ref (ref_of E A) None (pa_root A) 0")
    case (Some h)
    then have "halted s" using s(3) by (cases h) (simp add: halted_def)
    then have "lookupByPath E A ps K ls = Some s" using run_path_reaches [OF s(1)] by (simp add: lookupByPath_def)
    with s(2,3) Some show ?thesis by auto
  next
    case None
    with s(3) have l: "wk_label s = LPop" "wk_stack s = K" by simp_all
    have "step_path E A s = jump (LDone None) s"
      using l assms(3) by (simp add: step_path_def step_pop_def)
    then have "reaches E A (start_path A ps K ls) (jump (LDone None) s)"
      using reaches_trans [OF s(1) reaches_step] by metis
    moreover have "halted (jump (LDone None) s)" by (simp add: halted_def jump_def)
    ultimately have "lookupByPath E A ps K ls = Some (jump (LDone None) s)"
      using run_path_reaches unfolding lookupByPath_def by blast
    with s(2) None show ?thesis by (auto simp: jump_def)
  qed
qed

text \<open>
  C6. \<open>lookupByPath\<close> returns, on every tree of routes whose wildcards with regular expressions are not
  nested, from any state of the memos that fits the request and with any outer part of the stack and the
  captures. It returns the match of the reference recursion, with its captures appended unless the lookup is
  lazy, and it never panics.
\<close>

theorem lookupByPath_correct:
  assumes "lookup_ok E serves" "walk_ok (pa_root A)" "pa_stackOffset A = length K" "ls_fine E A serves ls"
  shows "\<exists>s. lookupByPath E A ps K ls = Some s \<and> ls_fine E A serves (wk_ls s) \<and>
    (case ref (ref_of E A) None (pa_root A) 0 of
       None \<Rightarrow> wk_label s = LDone None
     | Some (i, n, tsr, vs) \<Rightarrow> wk_label s = LDone (Some (i, n, tsr)) \<and> wk_params s = ps @ (if lk_lazy E then [] else vs))"
  by (rule lookupByPath_facts [OF assms])

text \<open>An example: the routes \<open>/{x}\<close> and \<open>/+{y:ab}/y\<close>, and the path \<open>/ab/y\<close>.\<close>

definition demo_env :: "('c, 'h, (regexp \<times> string \<times> nat \<times> char) option) lookup_env" where
  "demo_env = \<lparr>lk_eval = (\<lambda>_ _. True), lk_method = ''GET'', lk_lazy = False, lk_MatchString = (\<lambda>re s. s = re_string re),
     lk_Consumes = (\<lambda>_ _. True), lk_ends_zero = None, lk_ends_Start = (\<lambda>re s start delim _. Some (re, s, start, delim)),
     lk_ends_Next = (\<lambda>from e. (case e of None \<Rightarrow> None
        | Some (re, s, start, delim) \<Rightarrow> first_end (\<lambda>x. x = re_string re) s start delim from, e)),
     lk_ends_Reach = (\<lambda>_. 0), lk_pikeVM = (\<lambda>_ ls. (None, ls)), lk_hostVM = (\<lambda>_ ls. (None, ls))\<rparr>"

lemma demo_env_lazy: "lk_lazy demo_env = False"
  by (simp add: demo_env_def)

definition demo_serves :: "(regexp \<times> string \<times> nat \<times> char) option \<Rightarrow> regexp \<Rightarrow> string \<Rightarrow> nat \<Rightarrow> char \<Rightarrow> bool" where
  "demo_serves e re s start delim \<longleftrightarrow> e = Some (re, s, start, delim)"

lemma demo_env_ok: "lookup_ok demo_env demo_serves"
  by (auto simp: lookup_ok_def listing_ok_def listing_fine_def demo_env_def demo_serves_def)

definition demo_node :: "string \<Rightarrow> regexp option \<Rightarrow> (unit, unit) route list \<Rightarrow> (unit, unit) route node list \<Rightarrow> (unit, unit) route node" where
  "demo_node key re rs ss = Node rs re key ss [] [] (case key of c # _ \<Rightarrow> if c = slashDelim then c else CHR 0x00 | [] \<Rightarrow> CHR 0x00) False False"

definition demo_below :: "(unit, unit) route node" where
  "demo_below = demo_node ''/y'' None [demo_route [''GET''] [] 0] []"

definition demo_tree :: "(unit, unit) route node" where
  "demo_tree = demo_node '''' None []
     [set_nwildcards [demo_node ''ab'' (Some (Regexp ''ab'')) [] [demo_below]]
       (set_nparams [demo_node ''?'' None [demo_route [''GET''] [] 0] []] (demo_node ''/'' None [] []))]"

definition demo_args :: "string \<Rightarrow> (unit, unit) route path_args" where
  "demo_args path = \<lparr>pa_root = demo_tree, pa_path = path, pa_stackOffset = 0\<rparr>"

lemma demo_tree_ok: "walk_ok demo_tree"
  by code_simp

lemma demo_ref: "ref (ref_of demo_env (demo_args ''/ab/y'')) None demo_tree 0 = Some (0, demo_below, False, [''ab''])"
  by code_simp

lemma empty_fine: "ls_fine E A serves empty_lookup"
  by (simp add: ls_fine_def empty_lookup_def failed_ok_def)

theorem lookupByPath_witness:
  "\<exists>s. lookupByPath demo_env (demo_args ''/ab/y'') [''v''] [] empty_lookup = Some s
     \<and> wk_label s = LDone (Some (0, demo_below, False)) \<and> wk_params s = [''v'', ''ab'']"
  using lookupByPath_correct [OF demo_env_ok _ _ empty_fine, of "demo_args ''/ab/y''" "[]" "[''v'']"] demo_tree_ok demo_ref
  by (auto simp: demo_args_def demo_env_def)

end
