(* ===== verification/Lookup_Match.thy ===== *)
theory Lookup_Match
  imports Lookup_Walk
begin

text \<open>
  What a path lookup means: \<open>serves_path\<close> says which routes below a node match a rest of the path directly,
  with which captures. A direct match of the lookup is one of them, and when one of them is accepted, the
  lookup has a match.
\<close>

subsection \<open>Direct matches\<close>

text \<open>
  The symbols are the place of the route in the tree. A parameter takes a segment that is not empty, an infix
  wildcard takes a non-empty part that ends before a slash, and a wildcard at the end takes the rest, which may
  be empty when the route has an optional catch-all. A part is left to the parameters and wildcards of a node
  only below the root of the lookup, which may hold those of the hosts.
\<close>

inductive serves_path ::
  "('c, 'h) ref_env \<Rightarrow> ('c, 'h) route node \<Rightarrow> sym list \<Rightarrow> string list \<Rightarrow> string \<Rightarrow> ('c, 'h) route \<Rightarrow> bool"
  for R :: "('c, 'h) ref_env" where
  leaf: "r \<in> set (nroutes n) \<Longrightarrow> serves_path R n [] [] [] r"
| static: "c \<in> set (nstatics n) \<Longrightarrow> serves_path R c ss vs s r \<Longrightarrow>
     serves_path R n (statics_of (nkey c) @ ss) vs (nkey c @ s) r"
| param: "c \<in> set (nparams n) \<Longrightarrow> n \<noteq> rf_root R \<Longrightarrow> v \<noteq> [] \<Longrightarrow> slashDelim \<notin> set v \<Longrightarrow> s = [] \<or> hd s = slashDelim \<Longrightarrow>
     node_matches R c v \<Longrightarrow> serves_path R c ss vs s r \<Longrightarrow> serves_path R n (SP (nkey c) # ss) (v # vs) (v @ s) r"
| inner: "w \<in> set (nwildcards n) \<Longrightarrow> n \<noteq> rf_root R \<Longrightarrow> nstatics w \<noteq> [] \<Longrightarrow> v \<noteq> [] \<Longrightarrow> s \<noteq> [] \<Longrightarrow> hd s = slashDelim \<Longrightarrow>
     node_matches R w v \<Longrightarrow> serves_path R w ss vs s r \<Longrightarrow> serves_path R n (SW (nkey w) # ss) (v # vs) (v @ s) r"
| suffix: "w \<in> set (nwildcards n) \<Longrightarrow> n \<noteq> rf_root R \<Longrightarrow> v \<noteq> [] \<Longrightarrow> node_matches R w v \<Longrightarrow> r \<in> set (nroutes w) \<Longrightarrow>
     serves_path R n [SW (nkey w)] [v] v r"
| empty: "w \<in> set (nwildcards n) \<Longrightarrow> r \<in> set (nroutes w) \<Longrightarrow> optionalCatchAll (rpattern r) \<Longrightarrow>
     serves_path R n [SW (nkey w)] [''''] [] r"

text \<open>
  The shape of the trees that patterns build: an infix wildcard has a single static child, whose key starts
  with a slash, and no other child; no parameter has the regular expression of a slash. The match below an
  infix wildcard that is nested in another and has a regular expression is left to the Pike VM.
\<close>

definition infix_shape :: "'r node \<Rightarrow> bool" where
  "infix_shape w \<longleftrightarrow>
     nstatics w = [] \<or> length (nstatics w) = 1 \<and> hd (nkey (nstatics w ! 0)) = slashDelim \<and> nparams w = [] \<and> nwildcards w = []"

definition plain_tree :: "'r node \<Rightarrow> bool" where
  "plain_tree n \<longleftrightarrow>
     (\<forall>m \<in> sub n. (\<forall>c \<in> set (nparams m). nkey c \<noteq> ''/'')
        \<and> (\<forall>w \<in> set (nwildcards m). infix_shape w \<and> (nregexp w \<noteq> None \<longrightarrow> \<not> nnested w)))"

lemma plain_tree_child: "plain_tree n \<Longrightarrow> c \<in> children n \<Longrightarrow> plain_tree c"
  using sub_child [of c n] by (auto simp: plain_tree_def)

lemma plain_treeD:
  assumes "plain_tree n"
  shows "c \<in> set (nparams n) \<Longrightarrow> nkey c \<noteq> ''/''" "w \<in> set (nwildcards n) \<Longrightarrow> infix_shape w"
  using assms sub_refl [of n] by (auto simp: plain_tree_def)

lemma infix_serves:
  assumes "infix_shape w" "nstatics w \<noteq> []" "serves_path R w ss vs s r"
  shows "s = [] \<and> r \<in> set (nroutes w) \<and> vs = [] \<or> has_prefix s (nkey (nstatics w ! 0))"
  using assms(3,1,2) by cases (auto simp: infix_shape_def length_Suc_conv)

subsection \<open>The route of a match\<close>

lemma index_func_hit: "index_func P xs = Some i \<Longrightarrow> i < length xs \<and> P (xs ! i)"
  using index_func_Some index_func_less by fast

lemma index_func_exists: "x \<in> set xs \<Longrightarrow> P x \<Longrightarrow> index_func P xs \<noteq> None"
  by (induction xs) (auto split: if_splits)

lemma pickD: "pick R P n = Some i \<Longrightarrow> i < length (nroutes n) \<and> P (nroutes n ! i) \<and> rf_accepts R (nroutes n ! i)"
  unfolding pick_def by (drule index_func_hit) simp

lemma pickI: "r \<in> set (nroutes n) \<Longrightarrow> P r \<Longrightarrow> rf_accepts R r \<Longrightarrow> pick R P n \<noteq> None"
  unfolding pick_def by (rule index_func_exists) simp_all

lemma pick_wildD:
  assumes "pick_wild R P n = Some (i, w)"
  shows "w \<in> set (nwildcards n) \<and> i < length (nroutes w) \<and> P (nroutes w ! i) \<and> rf_accepts R (nroutes w ! i)"
proof -
  obtain w' where "w' \<in> set (nwildcards n)" "map_option (\<lambda>i. (i, w')) (pick R P w') = Some (i, w)"
    using first_some_Some [OF assms [unfolded pick_wild_def]] by blast
  then show ?thesis using pickD [of R P w i] by auto
qed

lemma pick_wildI:
  "w \<in> set (nwildcards n) \<Longrightarrow> r \<in> set (nroutes w) \<Longrightarrow> P r \<Longrightarrow> rf_accepts R r \<Longrightarrow> pick_wild R P n \<noteq> None"
  unfolding pick_wild_def first_some_None using pickI [of r w P R] by auto

lemma first_someI: "x \<in> set xs \<Longrightarrow> f x \<noteq> None \<Longrightarrow> first_some f xs \<noteq> None"
  by (induction xs) (auto split: option.splits)

lemma orelseI: "a \<noteq> None \<or> b \<noteq> None \<Longrightarrow> orelse a b \<noteq> None"
  by (auto simp: orelse_def split: option.splits)

lemma orelseD: "orelse a b = Some x \<Longrightarrow> a = Some x \<or> a = None \<and> b = Some x"
  by (auto simp: orelse_def split: option.splits)

lemma infixes_None: "infixes sc ts lf bk ws = Inr None \<Longrightarrow> w \<in> set ws \<Longrightarrow> \<not> lf w \<Longrightarrow> sc w = None"
  by (induction ws) (auto split: if_splits option.splits)

lemma infixes_Inl: "infixes sc ts lf bk ws = Inl h \<Longrightarrow> (\<exists>w \<in> set ws. \<not> lf w \<and> sc w = Some h) \<or> bk = Some h"
  by (induction ws) (auto split: if_splits option.splits)

lemma infixes_Inr: "infixes sc ts lf bk ws = Inr (Some c) \<Longrightarrow> \<exists>w \<in> set ws. ts w = Some c"
  by (induction ws) (auto split: if_splits option.splits)

lemma segment_end_split:
  assumes "s \<noteq> []" "segment_end s \<noteq> 0"
  shows "take (segment_end s) s \<noteq> []" "slashDelim \<notin> set (take (segment_end s) s)"
    "drop (segment_end s) s = [] \<or> hd (drop (segment_end s) s) = slashDelim"
proof -
  show "take (segment_end s) s \<noteq> []" using assms by simp
  show "slashDelim \<notin> set (take (segment_end s) s)"
    using index_byte_SomeD [of s slashDelim] by (auto simp: segment_end_def index_byte_None split: option.splits)
  show "drop (segment_end s) s = [] \<or> hd (drop (segment_end s) s) = slashDelim"
    using index_byte_SomeD [of s slashDelim] by (auto simp: segment_end_def hd_drop_conv_nth split: option.splits)
qed

subsection \<open>Soundness\<close>

text \<open>The route serves the path with its trailing slash taken off or added; \<open>s\<close> is the rest of the path.\<close>

definition corrected ::
  "('c, 'h) ref_env \<Rightarrow> ('c, 'h) route node \<Rightarrow> sym list \<Rightarrow> string list \<Rightarrow> string \<Rightarrow> ('c, 'h) route \<Rightarrow> bool" where
  "corrected R n ss vs s r \<longleftrightarrow>
     rhandleSlash r \<noteq> ExactSlash \<and>
     (if has_suffix (rf_path R) ''/'' then \<exists>s0. s = s0 @ ''/'' \<and> serves_path R n ss vs s0 r
      else serves_path R n ss vs (s @ ''/'') r)"

text \<open>
  What a hit at a node with the rest \<open>s\<close> promises. The hit on the parent, with the slash that the node itself
  has taken, is a match from the parent on.
\<close>

definition hit_ok ::
  "('c, 'h) ref_env \<Rightarrow> ('c, 'h) route node option \<Rightarrow> ('c, 'h) route node \<Rightarrow> string \<Rightarrow> ('c, 'h) hit \<Rightarrow> bool" where
  "hit_ok R p n s h \<longleftrightarrow>
     (case h of (i, m, tsr, vs) \<Rightarrow>
        i < length (nroutes m) \<and> rf_accepts R (nroutes m ! i)
        \<and> (if tsr
           then (\<exists>ss. corrected R n ss vs s (nroutes m ! i))
             \<or> p = Some m \<and> nkey n = ''/'' \<and> s = [] \<and> vs = [] \<and> rhandleSlash (nroutes m ! i) \<noteq> ExactSlash
           else \<exists>ss. serves_path R n ss vs s (nroutes m ! i)))"

lemma hit_okI:
  assumes "i < length (nroutes m)" "rf_accepts R (nroutes m ! i)"
  shows "serves_path R n ss vs s (nroutes m ! i) \<Longrightarrow> hit_ok R p n s (i, m, False, vs)"
    and "corrected R n ss vs s (nroutes m ! i) \<Longrightarrow> hit_ok R p n s (i, m, True, vs)"
  using assms by (auto simp: hit_ok_def)

lemma leaf_serves: "i < length (nroutes n) \<Longrightarrow> serves_path R n [] [] [] (nroutes n ! i)"
  by (simp add: serves_path.leaf)

lemma ref_add_slash_ok:
  assumes "ref_add_slash R c = Some h" "c \<in> set (nstatics n)" "nkey c = s @ ''/''" "\<not> has_suffix (rf_path R) ''/''"
  shows "hit_ok R p n s h"
proof -
  consider i where "pick R not_exact c = Some i" "h = (i, c, True, [])"
    | i w where "pick_wild R (\<lambda>r. not_exact r \<and> optionalCatchAll (rpattern r)) c = Some (i, w)" "h = (i, w, True, [''''])"
    using assms(1) unfolding ref_add_slash_def by (auto dest!: orelseD)
  then show ?thesis
  proof cases
    case 1
    note d = pickD [OF 1(1)]
    show ?thesis unfolding 1(2)
      by (rule hit_okI(2)) (use d assms(3,4) serves_path.static [OF assms(2) leaf_serves] in \<open>auto simp: corrected_def not_exact_def\<close>)
  next
    case 2
    note d = pick_wildD [OF 2(1)]
    have "serves_path R c [SW (nkey w)] [''''] [] (nroutes w ! i)" by (rule serves_path.empty) (use d in simp_all)
    from serves_path.static [OF assms(2) this] show ?thesis unfolding 2(2)
      by (intro hit_okI(2)) (use d assms(3,4) in \<open>auto simp: corrected_def not_exact_def\<close>)
  qed
qed

lemma has_suffix_drop: "drop pos s = t @ ''/'' \<Longrightarrow> has_suffix s ''/''"
  by (metis append_assoc append_take_drop_id has_suffix_append)

lemma ref_back_ok: "ref_back R n pos = Some h \<Longrightarrow> hit_ok R p n (drop pos (rf_path R)) h"
  using has_suffix_drop [of pos "rf_path R" "[]"]
  by (auto simp: ref_back_def corrected_def slash_off_def intro!: hit_okI(2) leaf_serves dest!: pickD split: if_splits)

lemma slash_childD:
  assumes "slash_child n = Some c"
  shows "c \<in> set (nstatics n)" "nkey c = ''/''"
  using assms by (auto simp: slash_child_def dest: static_childD(2) split: option.splits if_splits)

lemma ref_end_ok:
  assumes "ref_end R p n = Some h"
  shows "hit_ok R p n [] h"
proof -
  consider i where "pick R (\<lambda>_. True) n = Some i" "h = (i, n, False, [])"
    | i w where "pick_wild R (\<lambda>r. optionalCatchAll (rpattern r)) n = Some (i, w)" "h = (i, w, False, [''''])"
    | c where "slash_child n = Some c" "\<not> has_suffix (rf_path R) ''/''" "ref_add_slash R c = Some h"
    | i m where "pick R slash_off m = Some i" "h = (i, m, True, [])" "p = Some m" "nkey n = ''/''"
    using assms unfolding ref_end_def by (auto dest!: orelseD split: option.splits if_splits)
  then show ?thesis
  proof cases
    case 1
    then show ?thesis using pickD [OF 1(1)] leaf_serves [of i n R] by (auto intro: hit_okI(1))
  next
    case 2
    then show ?thesis using pick_wildD [OF 2(1)] serves_path.empty [of w n "nroutes w ! i" R] by (auto intro: hit_okI(1))
  next
    case 3
    then show ?thesis using ref_add_slash_ok [OF 3(3) slash_childD(1) [OF 3(1)]] slash_childD(2) [OF 3(1)] by simp
  next
    case 4
    then show ?thesis using pickD [OF 4(1)] by (simp add: hit_ok_def slash_off_def)
  qed
qed

text \<open>The hit of a child, lifted to its parent.\<close>

lemma hit_ok_below:
  assumes h: "hit_ok R (Some n) c s h"
    and serves: "\<And>ss vs s1 r. serves_path R c ss vs s1 r \<Longrightarrow> s1 = s \<or> s1 = s @ ''/'' \<or> s = s1 @ ''/'' \<Longrightarrow>
      \<exists>ss'. serves_path R n ss' (pre @ vs) (v @ s1) r"
    and up: "nkey c = ''/'' \<Longrightarrow> s = [] \<Longrightarrow> pre = [] \<and> v = ''/'' \<and> has_suffix (rf_path R) ''/''"
  shows "hit_ok R p n (v @ s) (add_captures pre h)"
proof -
  obtain i m tsr vs where hit: "h = (i, m, tsr, vs)" by (cases h)
  with h have m: "i < length (nroutes m)" "rf_accepts R (nroutes m ! i)" by (simp_all add: hit_ok_def)
  have eq: "add_captures pre h = (i, m, tsr, pre @ vs)" by (simp add: hit add_captures_def)
  consider ss where "\<not> tsr" "serves_path R c ss vs s (nroutes m ! i)"
    | ss where "tsr" "corrected R c ss vs s (nroutes m ! i)"
    | "tsr" "m = n" "nkey c = ''/''" "s = []" "vs = []" "rhandleSlash (nroutes m ! i) \<noteq> ExactSlash"
    using h by (auto simp: hit_ok_def hit split: if_splits)
  then show ?thesis
  proof cases
    case 1
    with serves [OF 1(2)] show ?thesis unfolding eq by (auto intro: hit_okI(1) [OF m])
  next
    case 2
    have "\<exists>ss'. corrected R n ss' (pre @ vs) (v @ s) (nroutes m ! i)"
    proof (cases "has_suffix (rf_path R) ''/''")
      case True
      with 2(2) obtain s0 where "s = s0 @ ''/''" "serves_path R c ss vs s0 (nroutes m ! i)" by (auto simp: corrected_def)
      with serves [OF this(2)] 2(2) True show ?thesis by (fastforce simp: corrected_def)
    next
      case False
      with 2(2) have "serves_path R c ss vs (s @ ''/'') (nroutes m ! i)" by (simp add: corrected_def)
      with serves [OF this] 2(2) False show ?thesis by (auto simp: corrected_def)
    qed
    with 2(1) show ?thesis unfolding eq by (auto intro: hit_okI(2) [OF m])
  next
    case 3
    with up leaf_serves [of i n R] m have "corrected R n [] (pre @ vs) (v @ s) (nroutes m ! i)"
      by (auto simp: corrected_def)
    with 3(1) show ?thesis unfolding eq by (auto intro: hit_okI(2) [OF m])
  qed
qed

lemma ref_wild_ok:
  assumes n: "n \<noteq> rf_root R" "pos < length (rf_path R)" "plain_tree n"
    and wf: "wf_node n"
    and below: "\<And>c e h. c \<in> children n \<Longrightarrow> ref R (Some n) c e = Some h \<Longrightarrow> hit_ok R (Some n) c (drop e (rf_path R)) h"
    and hit: "ref_wild R n pos i = Some h"
  shows "hit_ok R p n (drop pos (rf_path R)) h"
proof -
  let ?sc = "\<lambda>w. first_some (capture_result R n pos w) (captures R w pos)" and ?rest = "drop pos (rf_path R)"
  let ?res = "infixes ?sc (ref_infix_slash R pos) (\<lambda>w. nstatics w = []) (ref_back R n pos) (drop i (nwildcards n))"
  consider "?res = Inl h" | "ref_suffix R n pos = Some h"
    | c where "?res = Inr (Some c)" "h = (fst c, snd c, True, [?rest])" | "ref_back R n pos = Some h"
    using hit unfolding ref_wild_def ref_after_def
    by (auto dest!: orelseD split: sum.splits option.splits prod.splits)
  then show ?thesis
  proof cases
    case 1
    then consider w where "w \<in> set (nwildcards n)" "nstatics w \<noteq> []" "?sc w = Some h" | "ref_back R n pos = Some h"
      using infixes_Inl [OF 1] in_set_dropD [of _ i "nwildcards n"] by blast
    then show ?thesis
    proof cases
      case 1
      then obtain e where e: "e \<in> set (captures R w pos)" "capture_result R n pos w e = Some h"
        using first_some_Some [OF 1(3)] by blast
      let ?v = "slice (rf_path R) pos e"
      from e(1) have cap: "pos < e" "e < length (rf_path R)" "rf_path R ! e = slashDelim" "node_matches R w ?v"
        by (auto simp: captures_def capture_end_def Let_def)
      from e(2) obtain h' where h': "ref R (Some n) w e = Some h'" "h = add_captures [?v] h'"
        by (auto simp: capture_result_def add_captures_simps)
      have split: "?rest = ?v @ drop e (rf_path R)"
        using cap(1,2) slice_append [of pos e "length (rf_path R)" "rf_path R"] by simp
      have v: "?v \<noteq> []" using cap(1,2) length_slice [of pos e "rf_path R"] by fastforce
      have tail: "drop e (rf_path R) \<noteq> []" "hd (drop e (rf_path R)) = slashDelim"
        using cap(2,3) by (simp_all add: hd_drop_conv_nth)
      have "hit_ok R (Some n) w (drop e (rf_path R)) h'" using below [OF _ h'(1)] 1(1) by (simp add: children_def)
      then show ?thesis unfolding h'(2) split
      proof (rule hit_ok_below)
        fix ss vs s1 r
        assume s: "serves_path R w ss vs s1 r"
          and s1: "s1 = drop e (rf_path R) \<or> s1 = drop e (rf_path R) @ ''/'' \<or> drop e (rf_path R) = s1 @ ''/''"
        show "\<exists>ss'. serves_path R n ss' ([?v] @ vs) (?v @ s1) r"
        proof (cases "s1 = []")
          case True
          then have "r \<in> set (nroutes w)" "vs = []"
            using infix_serves [OF plain_treeD(2) [OF n(3) 1(1)] 1(2) s] wf_nodeD(4) [OF wf_child [OF wf], of w "nstatics w ! 0"] 1(1,2)
            by (auto simp: children_def)
          with True serves_path.suffix [OF 1(1) n(1) v cap(4)] show ?thesis by auto
        next
          case False
          moreover from this have "hd s1 = slashDelim" using s1 tail by (auto simp: hd_append split: if_splits)
          ultimately show ?thesis using serves_path.inner [OF 1(1) n(1) 1(2) v _ _ cap(4) s] by auto
        qed
      qed (use tail(1) in simp)
    qed (rule ref_back_ok)
  next
    case 2
    then obtain w where w: "w \<in> set (nwildcards n)" "node_matches R w ?rest"
        "map_option (\<lambda>i. (i, w, False, [?rest])) (pick R (\<lambda>_. True) w) = Some h"
      unfolding ref_suffix_def by (auto dest!: first_some_Some split: if_splits)
    then obtain j where "pick R (\<lambda>_. True) w = Some j" "h = (j, w, False, [?rest])" by auto
    with pickD [OF this(1)] w(1,2) n show ?thesis
      by (auto intro!: hit_okI(1) serves_path.suffix)
  next
    case 3
    then obtain w where w: "w \<in> set (nwildcards n)" "ref_infix_slash R pos w = Some c"
      using infixes_Inr [OF 3(1)] in_set_dropD [of _ i "nwildcards n"] by blast
    then obtain child j where c: "slash_child w = Some child" "node_matches R w ?rest" "pick R not_exact child = Some j" "c = (j, child)"
      and last: "last (rf_path R) \<noteq> slashDelim"
      by (auto simp: ref_infix_slash_def split: if_splits option.splits)
    have "serves_path R w (statics_of (nkey child) @ []) [] (nkey child @ []) (nroutes child ! j)"
      using pickD [OF c(3)] by (intro serves_path.static [OF slash_childD(1) [OF c(1)]] leaf_serves) simp
    then have "serves_path R w (statics_of ''/'' @ []) [] ''/'' (nroutes child ! j)" by (simp add: slash_childD(2) [OF c(1)])
    from serves_path.inner [OF w(1) n(1) _ _ _ _ c(2) this] slash_childD(1) [OF c(1)] n(2)
    have "serves_path R n (SW (nkey w) # (statics_of ''/'' @ [])) [?rest] (?rest @ ''/'') (nroutes child ! j)" by fastforce
    moreover have "\<not> has_suffix (rf_path R) ''/''" using last by (simp add: has_suffix_single)
    ultimately show ?thesis unfolding 3(2) c(4)
      using pickD [OF c(3)] by (auto simp: corrected_def not_exact_def intro!: hit_okI(2))
  next
    case 4
    then show ?thesis by (rule ref_back_ok)
  qed
qed

lemma ref_dynamic_ok:
  assumes n: "pos < length (rf_path R)" "plain_tree n" "wf_node n"
    and below: "\<And>c e h. c \<in> children n \<Longrightarrow> ref R (Some n) c e = Some h \<Longrightarrow> hit_ok R (Some n) c (drop e (rf_path R)) h"
    and hit: "ref_dynamic R n pos = Some h"
  shows "hit_ok R p n (drop pos (rf_path R)) h"
proof -
  let ?rest = "drop pos (rf_path R)"
  let ?stop = "segment_end ?rest"
  consider "ref_back R n pos = Some h" | "n \<noteq> rf_root R" "ref_wild R n pos 0 = Some h"
    | "n \<noteq> rf_root R" "?stop \<noteq> 0" "first_some (ref_param R n pos ?stop) (nparams n) = Some h"
    using hit by (auto simp: ref_dynamic_def ref_rest_def Let_def dest!: orelseD split: if_splits)
  then show ?thesis
  proof cases
    case 1
    then show ?thesis by (rule ref_back_ok)
  next
    case 2
    then show ?thesis using ref_wild_ok [OF 2(1) n below] by blast
  next
    case 3
    then obtain c where c: "c \<in> set (nparams n)" "ref_param R n pos ?stop c = Some h" by (blast dest: first_some_Some)
    let ?v = "take ?stop ?rest"
    from c(2) obtain h' where h': "node_matches R c ?v" "ref R (Some n) c (pos + ?stop) = Some h'" "h = add_captures [?v] h'"
      by (auto simp: ref_param_def Let_def add_captures_simps split: if_splits)
    have seg: "?v \<noteq> []" "slashDelim \<notin> set ?v" "drop ?stop ?rest = [] \<or> hd (drop ?stop ?rest) = slashDelim"
      using segment_end_split [of ?rest] n(1) 3(2) by simp_all
    have "hit_ok R (Some n) c (drop ?stop ?rest) h'"
      using below [OF _ h'(2)] c(1) by (simp add: children_def add.commute)
    then have "hit_ok R p n (?v @ drop ?stop ?rest) (add_captures [?v] h')"
    proof (rule hit_ok_below)
      fix ss vs s1 r
      assume s: "serves_path R c ss vs s1 r" and s1: "s1 = drop ?stop ?rest \<or> s1 = drop ?stop ?rest @ ''/'' \<or> drop ?stop ?rest = s1 @ ''/''"
      from s1 seg(3) have "s1 = [] \<or> hd s1 = slashDelim" by (auto simp: hd_append split: if_splits)
      from serves_path.param [OF c(1) 3(1) seg(1,2) this h'(1) s]
      show "\<exists>ss'. serves_path R n ss' ([?v] @ vs) (?v @ s1) r" by auto
    qed (use plain_treeD(1) [OF n(2) c(1)] in simp)
    then show ?thesis unfolding h'(3) append_take_drop_id .
  qed
qed

lemma ref_ok: "wf_node n \<Longrightarrow> plain_tree n \<Longrightarrow> ref R p n pos = Some h \<Longrightarrow> hit_ok R p n (drop pos (rf_path R)) h"
proof (induction n arbitrary: p pos h rule: measure_induct_rule [of size])
  case (less n)
  have below: "hit_ok R (Some n) c (drop e (rf_path R)) h" if "c \<in> children n" "ref R (Some n) c e = Some h" for c e h
    using less.IH [OF child_smaller [OF that(1)] wf_child [OF less.prems(1) that(1)] plain_tree_child [OF less.prems(2) that(1)] that(2)] .
  show ?case
  proof (cases "length (rf_path R) \<le> pos")
    case True
    with less.prems(3) have "ref_end R p n = Some h" by (simp add: ref_parts [of R p n pos])
    then show ?thesis using ref_end_ok True by simp
  next
    case False
    then have pos: "pos < length (rf_path R)" by simp
    let ?rest = "drop pos (rf_path R)"
    consider "ref_dynamic R n pos = Some h"
      | j child where "getStaticEdge n (rf_path R ! pos) = Some (j, child)" "has_prefix ?rest (nkey child)"
          "ref R (Some n) child (pos + length (nkey child)) = Some h"
      | j child where "getStaticEdge n (rf_path R ! pos) = Some (j, child)" "nkey child = ?rest @ ''/''" "\<not> has_suffix ?rest ''/''"
          "ref_add_slash R child = Some h"
      using less.prems(3) False
      by (auto simp: ref_parts [of R p n pos] Let_def dest!: orelseD split: option.splits if_splits)
    then show ?thesis
    proof cases
      case 1
      then show ?thesis using ref_dynamic_ok [OF pos less.prems(2,1) below] by blast
    next
      case 2
      have child: "child \<in> children n" "child \<in> set (nstatics n)" using static_childD [OF 2(1)] by simp_all
      let ?s = "drop (pos + length (nkey child)) (rf_path R)"
      have split: "?rest = nkey child @ ?s" using has_prefix_drop [OF 2(2)] by (simp add: add.commute)
      have "hit_ok R p n (nkey child @ ?s) (add_captures [] h)"
      proof (rule hit_ok_below [OF below [OF child(1) 2(3)]])
        fix ss vs s1 r assume "serves_path R child ss vs s1 r"
        from serves_path.static [OF child(2) this]
        show "\<exists>ss'. serves_path R n ss' ([] @ vs) (nkey child @ s1) r" by auto
      next
        assume "nkey child = ''/''" "?s = []"
        with split show "[] = [] \<and> nkey child = ''/'' \<and> has_suffix (rf_path R) ''/''"
          using has_suffix_drop [of pos "rf_path R" "[]"] by simp
      qed
      then show ?thesis by (simp add: add_captures_simps split [symmetric])
    next
      case 3
      then have "\<not> has_suffix (rf_path R) ''/''"
        using pos by (auto simp: has_suffix_single)
      with 3 show ?thesis by (intro ref_add_slash_ok) (auto dest: static_childD(2))
    qed
  qed
qed

subsection \<open>Completeness\<close>

lemma ref_wildI:
  assumes "w \<in> set (nwildcards n)"
    and "(nstatics w \<noteq> [] \<and> first_some (capture_result R n pos w) (captures R w pos) \<noteq> None) \<or> ref_suffix R n pos \<noteq> None"
  shows "ref_wild R n pos 0 \<noteq> None"
proof (cases "infixes (\<lambda>w. first_some (capture_result R n pos w) (captures R w pos)) (ref_infix_slash R pos)
    (\<lambda>w. nstatics w = []) (ref_back R n pos) (nwildcards n)")
  case (Inl h)
  then show ?thesis by (simp add: ref_wild_def ref_after_def)
next
  case (Inr c)
  show ?thesis
  proof (cases c)
    case None
    with Inr infixes_None [of _ _ _ _ "nwildcards n" w] assms have "ref_suffix R n pos \<noteq> None" by fastforce
    with Inr show ?thesis by (cases "ref_suffix R n pos") (simp_all add: ref_wild_def ref_after_def)
  next
    case (Some jc)
    with Inr show ?thesis by (cases jc; cases "ref_suffix R n pos") (simp_all add: ref_wild_def ref_after_def)
  qed
qed

lemma ref_dynamicI:
  assumes "n \<noteq> rf_root R" "nwildcards n \<noteq> [] \<and> ref_wild R n pos 0 \<noteq> None
     \<or> segment_end (drop pos (rf_path R)) \<noteq> 0 \<and> nparams n \<noteq> [] \<and>
       first_some (ref_param R n pos (segment_end (drop pos (rf_path R)))) (nparams n) \<noteq> None"
  shows "ref_dynamic R n pos \<noteq> None"
  using assms by (auto simp: ref_dynamic_def ref_rest_def Let_def orelse_def split: option.splits)

text \<open>A match that the parameters and wildcards of a node give is found below any static child.\<close>

lemma ref_dynamic_found:
  assumes "pos < length (rf_path R)" "ref_dynamic R n pos \<noteq> None" "n \<noteq> rf_root R" "nparams n \<noteq> [] \<or> nwildcards n \<noteq> []"
  shows "ref R p n pos \<noteq> None"
  using assms by (auto simp: ref_parts [of R p n pos] Let_def orelse_def split: option.splits if_splits)

lemma static_lookup:
  assumes "wf_node n" "c \<in> set (nstatics n)"
  obtains j where "getStaticEdge n (hd (nkey c)) = Some (j, c)" "nkey c \<noteq> []"
proof -
  have e: "static_inv (nstatics n)" "nkey c \<noteq> []" "nlabel c = hd (nkey c)"
    using wf_nodeD(1,4) [OF assms(1)] assms(2) by auto
  from st.look_iff [OF e(1), of "hd (nkey c)" c] assms(2) e(3)
  have "st.look (nstatics n) (hd (nkey c)) = Some c" by simp
  then obtain j where "get_static (nstatics n) (hd (nkey c)) = Some (j, c)" by (auto simp: st.look_def)
  with e(2) that show thesis by (simp add: getStaticEdge_def)
qed

lemma segment_end_append:
  "slashDelim \<notin> set v \<Longrightarrow> s = [] \<or> hd s = slashDelim \<Longrightarrow> segment_end (v @ s) = length v"
  using index_byte_None [of v slashDelim] by (cases s) (auto simp: segment_end_def index_byte_append)

lemma ref_found:
  assumes "serves_path R n ss vs s r" "wf_node n" "plain_tree n" "drop pos (rf_path R) = s" "pos \<le> length (rf_path R)" "rf_accepts R r"
  shows "ref R p n pos \<noteq> None"
  using assms
proof (induction arbitrary: p pos rule: serves_path.induct)
  case (leaf r n)
  have "pick R (\<lambda>_. True) n \<noteq> None" by (rule pickI [OF leaf(1)]) (use leaf in simp_all)
  then show ?case using leaf by (auto simp: ref_parts [of R p n pos] ref_end_def)
next
  case (static c n ss vs s r)
  obtain j where edge: "getStaticEdge n (hd (nkey c)) = Some (j, c)" "nkey c \<noteq> []"
    by (rule static_lookup [OF static.prems(1) static.hyps(1)])
  have pos: "pos < length (rf_path R)" using static.prems(3) edge(2) by (cases "pos < length (rf_path R)") auto
  have "rf_path R ! pos = hd (nkey c)"
    using static.prems(3) edge(2) pos by (metis hd_append2 hd_drop_conv_nth)
  moreover have "ref R (Some n) c (pos + length (nkey c)) \<noteq> None"
  proof (rule static.IH)
    show "wf_node c" "plain_tree c"
      using wf_child [OF static.prems(1)] plain_tree_child [OF static.prems(2)] static.hyps(1) by (simp_all add: children_def)
    have "drop (length (nkey c)) (drop pos (rf_path R)) = s" using static.prems(3) by simp
    then show "drop (pos + length (nkey c)) (rf_path R) = s" by (simp add: add.commute)
    show "pos + length (nkey c) \<le> length (rf_path R)"
      using static.prems(3,4) by (metis le_add1 length_append length_drop le_diff_conv2 add.commute)
  qed (rule static.prems)
  ultimately show ?case
    using edge static.prems(3) pos by (auto simp: ref_parts [of R p n pos] Let_def orelse_def split: option.splits)
next
  case (param c n v s ss vs r)
  let ?stop = "segment_end (drop pos (rf_path R))"
  have seg: "?stop = length v" using segment_end_append [OF param.hyps(4,5)] param.prems(3) by simp
  have pos: "pos < length (rf_path R)" using param.prems(3) param.hyps(3) by (cases "pos < length (rf_path R)") auto
  have "ref R (Some n) c (pos + length v) \<noteq> None"
  proof (rule param.IH)
    show "wf_node c" "plain_tree c"
      using wf_child [OF param.prems(1)] plain_tree_child [OF param.prems(2)] param.hyps(1) by (simp_all add: children_def)
    have "drop (length v) (drop pos (rf_path R)) = s" using param.prems(3) by simp
    then show "drop (pos + length v) (rf_path R) = s" by (simp add: add.commute)
    show "pos + length v \<le> length (rf_path R)"
      using param.prems(3,4) by (metis le_add1 length_append length_drop le_diff_conv2 add.commute)
  qed (rule param.prems)
  then have "ref_param R n pos ?stop c \<noteq> None"
    using param.hyps(6) param.prems(3) seg by (simp add: ref_param_def Let_def)
  from first_someI [OF param.hyps(1), of "ref_param R n pos ?stop", OF this]
  have "ref_dynamic R n pos \<noteq> None"
    using param.hyps(1-3) seg by (intro ref_dynamicI) auto
  then show ?case using ref_dynamic_found [OF pos] param.hyps(1,2) by fastforce
next
  case (inner w n v s ss vs r)
  have pos: "pos < length (rf_path R)" using inner.prems(3) inner.hyps(4) by (cases "pos < length (rf_path R)") auto
  let ?e = "pos + length v"
  have rest: "drop ?e (rf_path R) = s"
  proof -
    have "drop (length v) (drop pos (rf_path R)) = s" using inner.prems(3) by simp
    then show ?thesis by (simp add: add.commute)
  qed
  then have e: "?e < length (rf_path R)" using inner.hyps(5) by (metis drop_all leI)
  have v: "slice (rf_path R) pos ?e = v" using inner.prems(3) by (simp add: slice_def)
  have "ref R (Some n) w ?e \<noteq> None"
    using inner.IH wf_child [OF inner.prems(1)] plain_tree_child [OF inner.prems(2)] inner.hyps(1) rest e inner.prems(5)
    by (simp add: children_def)
  then have "capture_result R n pos w ?e \<noteq> None" by (simp add: capture_result_def)
  moreover have "capture_end R w pos ?e"
    using inner.hyps(4,6,7) rest v e infix_serves [OF plain_treeD(2) [OF inner.prems(2) inner.hyps(1)] inner.hyps(3,8)] inner.hyps(5)
    by (auto simp: capture_end_def Let_def hd_drop_conv_nth)
  then have "?e \<in> set (captures R w pos)" using e by (simp add: captures_def)
  ultimately have "first_some (capture_result R n pos w) (captures R w pos) \<noteq> None"
    by (intro first_someI [of ?e])
  with inner.hyps(3) have "ref_wild R n pos 0 \<noteq> None" by (intro ref_wildI [OF inner.hyps(1)]) simp
  then have "ref_dynamic R n pos \<noteq> None" using inner.hyps(1,2) by (intro ref_dynamicI) auto
  then show ?case using ref_dynamic_found [OF pos] inner.hyps(1,2) by fastforce
next
  case (suffix w n v r)
  have pos: "pos < length (rf_path R)" using suffix.prems(3) suffix.hyps(3) by (cases "pos < length (rf_path R)") auto
  have "pick R (\<lambda>_. True) w \<noteq> None" by (rule pickI [OF suffix.hyps(5)]) (use suffix.prems in simp_all)
  then have "ref_suffix R n pos \<noteq> None"
    unfolding ref_suffix_def using suffix.hyps(1,4) suffix.prems(3) by (intro first_someI [of w]) simp_all
  then have "ref_wild R n pos 0 \<noteq> None" by (intro ref_wildI [OF suffix.hyps(1)]) simp
  then have "ref_dynamic R n pos \<noteq> None" using suffix.hyps(1,2) by (intro ref_dynamicI) auto
  then show ?case using ref_dynamic_found [OF pos] suffix.hyps(1,2) by fastforce
next
  case (empty w n r)
  have "pick_wild R (\<lambda>r. optionalCatchAll (rpattern r)) n \<noteq> None"
    by (rule pick_wildI [OF empty.hyps(1,2)]) (use empty.hyps empty.prems in simp_all)
  then show ?case using empty.prems
    by (auto simp: ref_parts [of R p n pos] ref_end_def orelse_def split: option.splits)
qed

text \<open>The symbols of a direct match are the place of its leaf.\<close>

lemma kids_member:
  assumes "wf_node n"
  shows "c \<in> set (nstatics n) \<Longrightarrow> kids n (SC (hd (nkey c))) = Some (statics_of (nkey c), c)"
    "c \<in> set (nparams n) \<Longrightarrow> kids n (SP (nkey c)) = Some ([SP (nkey c)], c)"
    "c \<in> set (nwildcards n) \<Longrightarrow> kids n (SW (nkey c)) = Some ([SW (nkey c)], c)"
proof -
  note inv = wf_nodeD(1-3) [OF assms]
  show "c \<in> set (nstatics n) \<Longrightarrow> kids n (SC (hd (nkey c))) = Some (statics_of (nkey c), c)"
    using st.look_iff [OF inv(1), of "hd (nkey c)" c] wf_nodeD(4) [OF assms, of c] by (simp add: kids_look)
  show "c \<in> set (nparams n) \<Longrightarrow> kids n (SP (nkey c)) = Some ([SP (nkey c)], c)"
    using ke.look_iff [OF inv(2), of "nkey c" c] by (simp add: kids_look)
  show "c \<in> set (nwildcards n) \<Longrightarrow> kids n (SW (nkey c)) = Some ([SW (nkey c)], c)"
    using ke.look_iff [OF inv(3), of "nkey c" c] by (simp add: kids_look)
qed

lemma routes_at_kid:
  assumes "kids n x = Some (x # l, c)"
  shows "routes_at n (x # l @ ss) = routes_at c ss"
  using assms by (simp add: routes_at_branch branch_def under_def)

lemma serves_routes_at: "serves_path R n ss vs s r \<Longrightarrow> wf_node n \<Longrightarrow> r \<in> set (routes_at n ss)"
proof (induction rule: serves_path.induct)
  case (static c n ss vs s r)
  from wf_nodeD(4) [OF static.prems] static.hyps(1) obtain x k where k: "nkey c = x # k" "wf_node c" by (cases "nkey c") auto
  with kids_member(1) [OF static.prems static.hyps(1)] have "kids n (SC x) = Some (SC x # statics_of k, c)" by simp
  from routes_at_kid [OF this, of ss] static.IH k show ?case by simp
next
  case (param c n v s ss vs r)
  then show ?case
    using routes_at_kid [OF kids_member(2) [OF param.prems param.hyps(1)]] wf_child [of n c] by (simp add: children_def)
next
  case (inner w n v s ss vs r)
  then show ?case
    using routes_at_kid [OF kids_member(3) [OF inner.prems inner.hyps(1)]] wf_child [of n w] by (simp add: children_def)
next
  case (suffix w n v r)
  then show ?case using routes_at_kid [OF kids_member(3) [OF suffix.prems suffix.hyps(1)], of "[]"] by simp
next
  case (empty w n r)
  then show ?case using routes_at_kid [OF kids_member(3) [OF empty.prems empty.hyps(1)], of "[]"] by simp
qed simp

end
