(* ===== verification/Lookup_Router.thy ===== *)
theory Lookup_Router
  imports Lookup_Match Txn
begin

text \<open>
  The path lookup on the tree of a router: on every tree that satisfies the invariant of the transactions,
  \<open>lookupByPath\<close> finds exactly the registered routes that match the path.
\<close>

lemma sub_routes:
  "wf_node n \<Longrightarrow> m \<in> sub n \<Longrightarrow> \<exists>k. routes_at n k = nroutes m"
proof (induction n rule: measure_induct_rule [of size])
  case (less n)
  show ?case
  proof (cases "m = n")
    case True
    then show ?thesis by (intro exI [of _ "[]"]) simp
  next
    case False
    with less.prems(2) obtain c where c: "c \<in> children n" "m \<in> sub c"
      using sub.simps [of n] by (auto simp: children_def)
    obtain k where k: "routes_at c k = nroutes m"
      using less.IH [OF child_smaller [OF c(1)] wf_child [OF less.prems(1) c(1)] c(2)] by blast
    from c(1) consider "c \<in> set (nstatics n)" | "c \<in> set (nparams n)" | "c \<in> set (nwildcards n)"
      by (auto simp: children_def)
    then show ?thesis
    proof cases
      case 1
      from wf_nodeD(4) [OF less.prems(1) 1] obtain x l where key: "nkey c = x # l" by (cases "nkey c") auto
      with kids_member(1) [OF less.prems(1) 1] have "kids n (SC x) = Some (SC x # statics_of l, c)" by simp
      from routes_at_kid [OF this, of k] k show ?thesis by metis
    next
      case 2
      from routes_at_kid [OF kids_member(2) [OF less.prems(1) 2], of k] k show ?thesis by auto
    next
      case 3
      from routes_at_kid [OF kids_member(3) [OF less.prems(1) 3], of k] k show ?thesis by auto
    qed
  qed
qed

lemma tree_walk_ok:
  assumes "tree_inv pat t" "plain_tree (it_patterns t)"
  shows "walk_ok (it_patterns t)"
proof -
  from assms(1) have wf: "wf_node (it_patterns t)" and leaves: "leaves_ok pat (routes_at (it_patterns t))"
    by (simp_all add: tree_inv_def state_ok_def tree_ok_def registry_ok_def)
  have "fast_ok r" if m: "m \<in> sub (it_patterns t)" and r: "r \<in> set (nroutes m)" for m r
  proof -
    obtain k where "routes_at (it_patterns t) k = nroutes m" using sub_routes [OF wf m] by blast
    with r have "r \<in> set (routes_at (it_patterns t) k)" by simp
    then have "r \<in> routes_of (routes_at (it_patterns t))" unfolding routes_of_def by blast
    then show ?thesis using route_okD(3) [OF leaves_okD(4) [OF leaves]] by blast
  qed
  with wf assms(2) show ?thesis by (auto simp: walk_ok_def plain_tree_def)
qed

lemma serves_registered:
  assumes "tree_inv pat t" "serves_path R (it_patterns t) ss vs s r"
  shows "r \<in> routes_of (routes_at (it_patterns t))" "ss = place r"
proof -
  from assms(1) have wf: "wf_node (it_patterns t)" and leaves: "leaves_ok pat (routes_at (it_patterns t))"
    by (simp_all add: tree_inv_def state_ok_def tree_ok_def registry_ok_def)
  have r: "r \<in> set (routes_at (it_patterns t) ss)" by (rule serves_routes_at [OF assms(2) wf])
  then show "r \<in> routes_of (routes_at (it_patterns t))" by (auto simp: routes_of_def)
  show "ss = place r" using leaves_okD(3) [OF leaves r] by simp
qed

text \<open>What a lookup of the path may return: the registered route, the captures and the need of a redirect.\<close>

definition lookup_result ::
  "('c, 'h) ref_env \<Rightarrow> ('c, 'h) iTree \<Rightarrow> (('c, 'h) route \<times> bool \<times> string list) option \<Rightarrow> bool" where
  "lookup_result R t res \<longleftrightarrow>
     (case res of
        Some (r, False, vs) \<Rightarrow>
          r \<in> routes_of (routes_at (it_patterns t)) \<and> rf_accepts R r
          \<and> serves_path R (it_patterns t) (place r) vs (rf_path R) r
      | Some (r, True, vs) \<Rightarrow>
          r \<in> routes_of (routes_at (it_patterns t)) \<and> rf_accepts R r
          \<and> corrected R (it_patterns t) (place r) vs (rf_path R) r
      | None \<Rightarrow> \<forall>r vs. rf_accepts R r \<longrightarrow> \<not> serves_path R (it_patterns t) (place r) vs (rf_path R) r)"

lemma ref_result:
  assumes "tree_inv pat t" "plain_tree (it_patterns t)" "rf_root R = it_patterns t"
  shows "lookup_result R t (map_option (\<lambda>(i, n, tsr, vs). (nroutes n ! i, tsr, vs)) (ref R None (it_patterns t) 0))"
proof -
  from assms(1) have wf: "wf_node (it_patterns t)" by (simp add: tree_inv_def state_ok_def tree_ok_def)
  show ?thesis
  proof (cases "ref R None (it_patterns t) 0")
    case None
    then show ?thesis
      using ref_found [OF _ wf assms(2), of R _ _ "rf_path R" _ 0 None] by (auto simp: lookup_result_def)
  next
    case (Some h)
    obtain i m tsr vs where h: "h = (i, m, tsr, vs)" by (cases h)
    from ref_ok [OF wf assms(2) Some]
    have ok: "rf_accepts R (nroutes m ! i)"
        "if tsr then \<exists>ss. corrected R (it_patterns t) ss vs (rf_path R) (nroutes m ! i)
         else \<exists>ss. serves_path R (it_patterns t) ss vs (rf_path R) (nroutes m ! i)"
      by (auto simp: hit_ok_def h split: if_splits)
    show ?thesis
    proof (cases tsr)
      case True
      with ok(2) obtain ss where c: "corrected R (it_patterns t) ss vs (rf_path R) (nroutes m ! i)" by auto
      then obtain s' where "serves_path R (it_patterns t) ss vs s' (nroutes m ! i)"
        by (auto simp: corrected_def split: if_splits)
      from serves_registered [OF assms(1) this] c ok(1) True Some h show ?thesis by (simp add: lookup_result_def)
    next
      case False
      with ok(2) obtain ss where "serves_path R (it_patterns t) ss vs (rf_path R) (nroutes m ! i)" by auto
      from serves_registered [OF assms(1) this] this ok(1) False Some h show ?thesis by (simp add: lookup_result_def)
    qed
  qed
qed

lemma lookup_registered_facts:
  assumes "lookup_ok E serves" "tree_inv pat t" "plain_tree (it_patterns t)" "pa_root A = it_patterns t"
    "pa_stackOffset A = length K" "ls_fine E A serves ls"
  shows "\<exists>s res. lookupByPath E A ps K ls = Some s \<and> lookup_result (ref_of E A) t res \<and>
    (case res of
       None \<Rightarrow> wk_label s = LDone None
     | Some (r, tsr, vs) \<Rightarrow> \<exists>i n. wk_label s = LDone (Some (i, n, tsr)) \<and> nroutes n ! i = r
         \<and> wk_params s = ps @ (if lk_lazy E then [] else vs))"
proof -
  let ?R = "ref_of E A"
  from lookupByPath_facts [OF assms(1) _ assms(5,6)] tree_walk_ok [OF assms(2,3)] assms(4)
  obtain s where s: "lookupByPath E A ps K ls = Some s"
      "case ref ?R None (it_patterns t) 0 of None \<Rightarrow> wk_label s = LDone None
       | Some (i, n, tsr, vs) \<Rightarrow> wk_label s = LDone (Some (i, n, tsr)) \<and> wk_params s = ps @ (if lk_lazy E then [] else vs)"
    by auto
  have "lookup_result ?R t (map_option (\<lambda>(i, n, tsr, vs). (nroutes n ! i, tsr, vs)) (ref ?R None (it_patterns t) 0))"
    by (rule ref_result [OF assms(2,3)]) (simp add: assms(4))
  with s show ?thesis
    by (intro exI [of _ s] exI [of _ "map_option (\<lambda>(i, n, tsr, vs). (nroutes n ! i, tsr, vs)) (ref ?R None (it_patterns t) 0)"])
      (auto split: option.splits)
qed


text \<open>An example: the routes \<open>/x/{a}\<close> and \<open>/x/*{b}/y\<close>.\<close>

definition demo_tok :: "nodeType \<Rightarrow> string \<Rightarrow> token" where
  "demo_tok typ v = \<lparr>tregexp = None, tvalue = v, ttyp = typ, tnested = False, thsplit = False\<rparr>"

definition demo_registered :: "string \<Rightarrow> token list \<Rightarrow> (unit, unit) route" where
  "demo_registered s toks = (demo_route [''GET''] [] 0)\<lparr>rhandleSlash := RedirectSlash, rpattern :=
     \<lparr>pstr = s, ptokens = toks, optionalCatchAll = False, catchAll = False, endHost = 0, hostParams = 0\<rparr>\<rparr>"

definition demo_param :: "(unit, unit) route" where
  "demo_param = demo_registered ''/x/{a}'' [demo_tok nodeStatic ''/x/'', demo_tok nodeParam ''a'']"

definition demo_wild :: "(unit, unit) route" where
  "demo_wild = demo_registered ''/x/*{b}/y'' [demo_tok nodeStatic ''/x/'', demo_tok nodeWildcard ''b'', demo_tok nodeStatic ''/y'']"

definition demo_patterns :: "string \<Rightarrow> pattern" where
  "demo_patterns s = rpattern (if s = pstr (rpattern demo_param) then demo_param else demo_wild)"

definition demo_router :: "(unit, unit) iTree" where
  "demo_router = fst (commit (fst (insert_route (fst (insert_route (txn newTree) demo_param modeInsert)) demo_wild modeInsert)))"

lemma demo_routes_ok: "route_ok demo_patterns demo_param" "route_ok demo_patterns demo_wild"
  by (simp_all add: route_ok_def demo_patterns_def demo_param_def demo_wild_def demo_registered_def demo_tok_def demo_route_def
      fast_ok_def catch_all_ok_def)

lemma insert_route_inv:
  assumes "txn_inv pat t" "route_ok pat r" "snd (insert_route t r modeInsert) = None"
  shows "txn_inv pat (fst (insert_route t r modeInsert))"
  using insert_route_modeInsert [OF assms(1,2)] assms(3) by (simp split: prod.splits)

lemma demo_router_inv: "tree_inv demo_patterns demo_router"
proof -
  let ?t = "fst (insert_route (txn newTree) demo_param modeInsert)"
  have "snd (insert_route (txn newTree) demo_param modeInsert) = None" "snd (insert_route ?t demo_wild modeInsert) = None"
    by code_simp+
  with insert_route_inv [OF empty_txn(1) demo_routes_ok(1)] insert_route_inv [OF _ demo_routes_ok(2), of ?t]
  show ?thesis by (simp add: demo_router_def handles_inv)
qed

lemma demo_router_plain: "plain_tree (it_patterns demo_router)"
  by code_simp

definition demo_router_args :: "string \<Rightarrow> (unit, unit) route path_args" where
  "demo_router_args path = \<lparr>pa_root = it_patterns demo_router, pa_path = path, pa_stackOffset = 0\<rparr>"

definition demo_outcome :: "(unit, unit, (regexp \<times> string \<times> nat \<times> char) option) wstate \<Rightarrow> (string \<times> bool \<times> string list) option" where
  "demo_outcome s = (case wk_label s of
     LDone (Some (i, n, tsr)) \<Rightarrow> Some (pstr (rpattern (nroutes n ! i)), tsr, wk_params s) | _ \<Rightarrow> None)"

lemma demo_router_ref:
  "map_option (\<lambda>(i, n, tsr, vs). (pstr (rpattern (nroutes n ! i)), tsr, vs))
     (ref (ref_of demo_env (demo_router_args ''/x/1/2/y/'')) None (it_patterns demo_router) 0)
   = Some (''/x/*{b}/y'', True, [''1/2''])"
  by code_simp

lemma demo_run:
  "map_option demo_outcome (lookupByPath demo_env (demo_router_args ''/x/1/2/y/'') [] [] empty_lookup)
   = Some (Some (''/x/*{b}/y'', True, [''1/2'']))"
proof -
  have root: "pa_root (demo_router_args path) = it_patterns demo_router" "pa_stackOffset (demo_router_args path) = length []" for path
    by (simp_all add: demo_router_args_def)
  from demo_router_ref obtain i n where r: "ref (ref_of demo_env (demo_router_args ''/x/1/2/y/'')) None (it_patterns demo_router) 0
      = Some (i, n, True, [''1/2''])" "pstr (rpattern (nroutes n ! i)) = ''/x/*{b}/y''"
    by auto
  have "walk_ok (pa_root (demo_router_args ''/x/1/2/y/''))"
    unfolding root by (rule tree_walk_ok [OF demo_router_inv demo_router_plain])
  from lookupByPath_facts [OF demo_env_ok this root(2) empty_fine, of "[]"] r
  show ?thesis unfolding root demo_env_lazy by (auto simp: demo_outcome_def)
qed


end
