(* ===== verification/Serve.thy ===== *)
theory Serve
  imports Config Path_Norm Lookup_Host Lookup_Router
begin

text \<open>
  Serving a request (\<open>ServeHTTP\<close>, \<open>Match\<close> and \<open>Lookup\<close> of \<open>fox.go\<close>): the routing path of the request, its
  normalization, the lookup, the trailing-slash actions, and the answers without a route. A handler is called
  at the end of \<open>ServeHTTP\<close> only, so a run ends with the handler that is called and the context it is given.
\<close>

subsection \<open>Requests\<close>

record url =
  u_Path :: string
  u_RawPath :: string
  u_RawQuery :: string
  u_Opaque :: string

record request =
  rq_Method :: string
  rq_Host :: string
  rq_URL :: url
  rq_Header :: "string \<rightharpoonup> string list"
  rq_Pattern :: string

definition routingPath :: "request \<Rightarrow> string \<times> bool" where
  "routingPath r =
     (let u = rq_URL r in
      if u_RawPath u = '''' then (EscapePath (u_Path u), False)
      else
        let (norm, wellFormed) = NormalizeRawPath (u_RawPath u) (u_Path u) in
        if norm = '''' then (EscapePath (u_Path u), True)
        else (norm, \<not> wellFormed))"

text \<open>
  The requests of a call: the caller's, and the copy that \<open>rewriteRequest\<close> makes once. The variable \<open>r\<close> of
  \<open>ServeHTTP\<close> is the copy as soon as there is one.
\<close>

record requests =
  sv_orig :: request
  sv_copy :: "request option"

definition cur :: "requests \<Rightarrow> request" where
  "cur q = (case sv_copy q of None \<Rightarrow> sv_orig q | Some r \<Rightarrow> r)"

definition set_cur :: "(request \<Rightarrow> request) \<Rightarrow> requests \<Rightarrow> requests" where
  "set_cur f q = (case sv_copy q of None \<Rightarrow> q\<lparr>sv_orig := f (sv_orig q)\<rparr> | Some r \<Rightarrow> q\<lparr>sv_copy := Some (f r)\<rparr>)"

definition rewriteRequest :: "string \<Rightarrow> bool \<Rightarrow> requests \<Rightarrow> requests" where
  "rewriteRequest escaped owned q =
     (case PathUnescape escaped of
        None \<Rightarrow> q
      | Some p \<Rightarrow>
          let q = (if owned then q else q\<lparr>sv_copy := Some (cur q)\<rparr>);
              q = set_cur (\<lambda>r. r\<lparr>rq_URL := (rq_URL r)\<lparr>u_Path := p, u_RawPath := ''''\<rparr>\<rparr>) q
          in if EscapePath p \<noteq> escaped
             then set_cur (\<lambda>r. r\<lparr>rq_URL := (rq_URL r)\<lparr>u_RawPath := escaped\<rparr>\<rparr>) q
             else q)"

text \<open>\<open>r.Pattern = s\<close> and \<open>orig.Pattern = s\<close>.\<close>

definition set_pattern :: "string \<Rightarrow> requests \<Rightarrow> requests" where
  "set_pattern s q = q\<lparr>sv_orig := (sv_orig q)\<lparr>rq_Pattern := s\<rparr>,
     sv_copy := map_option (\<lambda>r. r\<lparr>rq_Pattern := s\<rparr>) (sv_copy q)\<rparr>"

definition firstHeader :: "(string \<rightharpoonup> string list) \<Rightarrow> string \<Rightarrow> string \<times> bool" where
  "firstHeader headers k = (case headers k of None \<Rightarrow> ('''', False) | Some v \<Rightarrow> if length v = 0 then ('''', False) else (v ! 0, True))"

subsection \<open>Normalization of the routing path\<close>

definition normalizeRoutingPath :: "('hf, 'ip) config \<Rightarrow> string \<Rightarrow> string option" where
  "normalizeRoutingPath cf path =
     (let path = (if cf_mergeSlash cf \<noteq> ExactPath then MergeSlashes path else path) in
      if cf_collapseDots cf \<noteq> ExactPath then CollapseDotSegments path else Some path)"

definition redirectRoutingPath :: "('hf, 'ip) config \<Rightarrow> string \<Rightarrow> (string \<times> bool) option" where
  "redirectRoutingPath cf path =
     (let (path, redirect) =
        (if cf_mergeSlash cf \<noteq> ExactPath then
           (let merged = MergeSlashes path in
            (merged, length merged \<noteq> length path \<and> cf_mergeSlash cf = RedirectPath))
         else (path, False)) in
      if cf_collapseDots cf \<noteq> ExactPath then
        (case CollapseDotSegments path of
           None \<Rightarrow> None
         | Some collapsed \<Rightarrow>
             Some (collapsed, redirect \<or> (length collapsed \<noteq> length path \<and> cf_collapseDots cf = RedirectPath)))
      else Some (path, redirect))"

subsection \<open>The outcome of a request\<close>

text \<open>The context a handler is called with.\<close>

record ('c, 'h) Context =
  cx_req :: request
  cx_params :: "string list"
  cx_route :: "('c, 'h) route option"
  cx_scope :: scope

text \<open>\<open>Invoke\<close> is the call of a handler after the Allow header was set, \<open>Respond\<close> a reply of \<open>ServeHTTP\<close> itself.\<close>

datatype ('hf, 'c, 'h) reply =
    Invoke (rp_handler: 'hf) (rp_context: "('c, 'h) Context") (rp_allow: "string option")
  | Respond nat "string option"

text \<open>\<open>None\<close> does not return, \<open>Inl\<close> is a panic.\<close>

type_synonym 'a run = "(string + 'a) option"

definition on_run :: "'a run \<Rightarrow> ('a \<Rightarrow> 'b run) \<Rightarrow> 'b run" where
  "on_run m f = (case m of None \<Rightarrow> None | Some (Inl msg) \<Rightarrow> Some (Inl msg) | Some (Inr a) \<Rightarrow> f a)"

lemma on_run_simps [simp]:
  "on_run None f = None" "on_run (Some (Inl msg)) f = Some (Inl msg)" "on_run (Some (Inr a)) f = f a"
  by (simp_all add: on_run_def)

text \<open>
  What a lookup calls, for the request, the method, the path and the laziness it is called with. A lookup
  resets its state first, so each one starts from the empty state, and the parameters are empty at each call.
\<close>

type_synonym ('c, 'h, 'e) lookup_envs = "request \<Rightarrow> string \<Rightarrow> string \<Rightarrow> bool \<Rightarrow> ('c, 'h, 'e) lookup_env"

definition env_at :: "('c, 'h, 'e) lookup_envs \<Rightarrow> request \<Rightarrow> string \<Rightarrow> string \<Rightarrow> bool \<Rightarrow> ('c, 'h, 'e) lookup_env" where
  "env_at env r method path lazy = (env r method path lazy)\<lparr>lk_method := method, lk_lazy := lazy\<rparr>"

definition tree_lookup ::
  "('c, 'h, 'e) lookup_envs \<Rightarrow> ('c, 'h) iTree \<Rightarrow> request \<Rightarrow> string \<Rightarrow> string \<Rightarrow> bool
   \<Rightarrow> ((('c, 'h) route \<times> bool) option \<times> string list) run" where
  "tree_lookup env t r method path lazy =
     (case lookup (env_at env r method path lazy) (it_patterns t) (rq_Host r) path [] empty_lookup of
        None \<Rightarrow> None
      | Some s \<Rightarrow>
          (case wk_label s of
             LDone None \<Rightarrow> Some (Inr (None, wk_params s))
           | LDone (Some (idx, n, tsr)) \<Rightarrow> Some (Inr (Some (nroutes n ! idx, tsr), wk_params s))
           | LPanic msg \<Rightarrow> Some (Inl msg)
           | _ \<Rightarrow> None))"

subsection \<open>Match and Lookup\<close>

definition Router_Match ::
  "('c, 'h, 'e) lookup_envs \<Rightarrow> ('c, 'h) iTree \<Rightarrow> string \<Rightarrow> request \<Rightarrow> (('c, 'h) route \<times> bool) option run" where
  "Router_Match env t method r =
     (if method = '''' then Some (Inr None)
      else
        let path = fst (routingPath r) in
        on_run (tree_lookup env t r method path True) (\<lambda>(res, _).
          case res of
            Some (route, tsr) \<Rightarrow> if \<not> tsr \<or> u_Opaque (rq_URL r) = '''' then Some (Inr (Some (route, tsr))) else Some (Inr None)
          | None \<Rightarrow> Some (Inr None)))"

definition Router_Lookup ::
  "('c, 'h, 'e) lookup_envs \<Rightarrow> ('c, 'h) iTree \<Rightarrow> request \<Rightarrow> (('c, 'h) route \<times> ('c, 'h) Context \<times> bool) option run" where
  "Router_Lookup env t r =
     (if rq_Method r = '''' then Some (Inr None)
      else
        let path = fst (routingPath r) in
        on_run (tree_lookup env t r (rq_Method r) path False) (\<lambda>(res, params).
          case res of
            Some (route, tsr) \<Rightarrow>
              if \<not> tsr \<or> u_Opaque (rq_URL r) = ''''
              then Some (Inr (Some (route, \<lparr>cx_req = r, cx_params = params, cx_route = Some route, cx_scope = RouteHandler\<rparr>, tsr)))
              else Some (Inr None)
          | None \<Rightarrow> Some (Inr None)))"

subsection \<open>The Allow header\<close>

fun join_methods :: "string list \<Rightarrow> string" where
  "join_methods [] = ''''"
| "join_methods [m] = m"
| "join_methods (m # ms) = m @ '', '' @ join_methods ms"

text \<open>\<open>sb\<close> with one more method.\<close>

definition also_method :: "string \<Rightarrow> string \<Rightarrow> string" where
  "also_method sb m = (if 0 < length sb then sb @ '', '' else sb) @ m"

definition MethodOptions :: string where "MethodOptions = ''OPTIONS''"
definition MethodConnect :: string where "MethodConnect = ''CONNECT''"
definition MethodGet :: string where "MethodGet = ''GET''"
definition MethodHead :: string where "MethodHead = ''HEAD''"

text \<open>The set \<open>seen\<close> is the list of its members in the order they were added.\<close>

definition see_methods :: "string list \<Rightarrow> string list \<Rightarrow> string list" where
  "see_methods ms seen = fold (\<lambda>m seen. if m \<in> set seen then seen else seen @ [m]) ms seen"

text \<open>
  The loop over \<open>tree.methods\<close>, in the order Go's map iteration happens to choose: the remaining keys are the
  argument.
\<close>

fun seen_methods ::
  "('c, 'h, 'e) lookup_envs \<Rightarrow> ('c, 'h) iTree \<Rightarrow> request \<Rightarrow> string \<Rightarrow> string list \<Rightarrow> string list \<Rightarrow> string list run" where
  "seen_methods env t r path [] seen = Some (Inr seen)"
| "seen_methods env t r path (method # methods) seen =
     (if method \<in> set seen then seen_methods env t r path methods seen
      else
        on_run (tree_lookup env t r method path True) (\<lambda>(res, _).
          seen_methods env t r path methods
            (case res of
               Some (route, tsr) \<Rightarrow>
                 if \<not> tsr \<or> (method \<noteq> MethodConnect \<and> rhandleSlash route = RelaxedSlash)
                 then see_methods (rmethods route) seen else seen
             | None \<Rightarrow> seen)))"

subsection \<open>ServeHTTP\<close>

definition ctx :: "requests \<Rightarrow> scope \<Rightarrow> ('c, 'h) Context" where
  "ctx q sc = \<lparr>cx_req = cur q, cx_params = [], cx_route = None, cx_scope = sc\<rparr>"

text \<open>\<open>c.route.hall(c)\<close>, where \<open>None\<close> is the nil function.\<close>

definition call_route ::
  "('c, 'hf, 'ip, 'k, 'v) full_route \<Rightarrow> string list \<Rightarrow> request \<Rightarrow> requests
   \<Rightarrow> (('hf, 'c, ('hf, 'ip, 'k, 'v) payload) reply \<times> requests) run" where
  "call_route route params req q =
     (case hall (rhandlers route) of
        None \<Rightarrow> Some (Inl ''invalid memory address or nil pointer dereference'')
      | Some h \<Rightarrow> Some (Inr (Invoke h \<lparr>cx_req = req, cx_params = params, cx_route = Some route, cx_scope = RouteHandler\<rparr> None, q)))"

text \<open>The label \<open>NoMatch\<close>.\<close>

definition system_options :: "('hf, 'ip) config \<Rightarrow> ('c, 'h) iTree \<Rightarrow> string list \<Rightarrow> string" where
  "system_options cf t order =
     (let hasOPTIONS = it_methods t MethodOptions \<noteq> None;
          mayHandleOPTIONS = cf_handleOPTIONS cf \<and> 0 < length order;
          sb = join_methods (sort (filter (\<lambda>m. m \<noteq> MethodOptions) order))
      in if hasOPTIONS \<or> mayHandleOPTIONS then also_method sb MethodOptions else sb)"

definition serve_no_match ::
  "('c, ('hf, 'ip, 'k, 'v) payload, 'e) lookup_envs \<Rightarrow> ('hf, 'ip) config \<Rightarrow> string list \<Rightarrow> ('c, ('hf, 'ip, 'k, 'v) payload) iTree
   \<Rightarrow> string \<Rightarrow> bool \<Rightarrow> requests \<Rightarrow> (('hf, 'c, ('hf, 'ip, 'k, 'v) payload) reply \<times> requests) run" where
  "serve_no_match env cf order t path nonCanonical q =
     (let q = set_pattern '''' q; r = cur q;
          nonCanonical = (nonCanonical \<or> u_Opaque (rq_URL r) \<noteq> '''');
          isOPTIONS = (rq_Method r = MethodOptions);
          notFound = Some (Inr (Invoke (cf_noRoute cf) (ctx q NoRouteHandler) None, q))
      in if cf_systemWideOPTIONS cf \<and> isOPTIONS \<and> path = ''*'' then
           (let sb = system_options cf t order
            in Some (Inr (Respond 200 (if 0 < length sb then Some sb else None), q)))
         else if cf_handleOPTIONS cf \<and> isOPTIONS then
           (if snd (firstHeader (rq_Header r) ''Origin'') \<and> snd (firstHeader (rq_Header r) ''Access-Control-Request-Method'')
            then Some (Inr (Invoke (cf_autoOPTIONS cf) (ctx q OptionsHandler) None, q))
            else if \<not> nonCanonical then
              on_run (seen_methods env t r path order []) (\<lambda>seen.
                if 0 < length seen
                then Some (Inr (Invoke (cf_autoOPTIONS cf) (ctx q OptionsHandler)
                  (Some (join_methods (MethodOptions # sort seen))), q))
                else notFound)
            else notFound)
         else if cf_handleMethodNotAllowed cf \<and> \<not> nonCanonical then
           on_run (seen_methods env t r path order [rq_Method r]) (\<lambda>seen.
             if 1 < length seen then
               (let sb = join_methods (sort (filter (\<lambda>m. m \<noteq> rq_Method r) seen));
                    sb = (if MethodOptions \<notin> set seen \<and> cf_handleOPTIONS cf then also_method sb MethodOptions else sb)
                in Some (Inr (Invoke (cf_noMethod cf) (ctx q NoMethodHandler) (Some sb), q)))
             else notFound)
         else notFound)"

text \<open>The lookup of the routing path, with the trailing-slash actions.\<close>

definition serve_match ::
  "('c, ('hf, 'ip, 'k, 'v) payload, 'e) lookup_envs \<Rightarrow> ('hf, 'ip) config \<Rightarrow> string list \<Rightarrow> ('c, ('hf, 'ip, 'k, 'v) payload) iTree
   \<Rightarrow> string \<Rightarrow> bool \<Rightarrow> requests \<Rightarrow> (('hf, 'c, ('hf, 'ip, 'k, 'v) payload) reply \<times> requests) run" where
  "serve_match env cf order t path rewritten q =
     (let r = cur q in
      on_run (tree_lookup env t r (rq_Method r) path False) (\<lambda>(res, params).
        case res of
          None \<Rightarrow> serve_no_match env cf order t path False q
        | Some (route, tsr) \<Rightarrow>
            if \<not> tsr then
              (let q = set_pattern (pstr (rpattern route)) q in call_route route params (cur q) q)
            else if rq_Method r \<noteq> MethodConnect \<and> u_Path (rq_URL r) \<noteq> ''/'' \<and> u_Opaque (rq_URL r) = '''' then
              (if rhandleSlash route = RelaxedSlash then
                 (let q = rewriteRequest (fixTrailingSlash path) rewritten (set_pattern (pstr (rpattern route)) q)
                  in call_route route params (cur q) q)
               else if rhandleSlash route = RedirectSlash \<and> \<not> hasDotSegment path then
                 (let q = set_pattern '''' q
                  in Some (Inr (Invoke (cf_tsrRedirect cf) (ctx q RedirectSlashHandler) None, q)))
               else serve_no_match env cf order t path False q)
            else serve_no_match env cf order t path False q))"

text \<open>The normalization of the routing path, when the router has any.\<close>

definition serve_normalized ::
  "('c, ('hf, 'ip, 'k, 'v) payload, 'e) lookup_envs \<Rightarrow> ('hf, 'ip) config \<Rightarrow> string list \<Rightarrow> ('c, ('hf, 'ip, 'k, 'v) payload) iTree
   \<Rightarrow> string \<Rightarrow> bool \<Rightarrow> requests \<Rightarrow> (('hf, 'c, ('hf, 'ip, 'k, 'v) payload) reply \<times> requests) run" where
  "serve_normalized env cf order t path rewritten q =
     (let r = cur q in
      case (if cf_hasRedirectPath cf then redirectRoutingPath cf path
            else map_option (\<lambda>p. (p, False)) (normalizeRoutingPath cf path)) of
        None \<Rightarrow> Some (Inr (Invoke (cf_pathReject cf) (ctx q RejectPathHandler) None, q))
      | Some (normalized, True) \<Rightarrow>
          if cf_collapseDots cf \<noteq> ExactPath \<or> \<not> hasDotSegment normalized then
            on_run (tree_lookup env t r (rq_Method r) normalized True) (\<lambda>(res, _).
              case res of
                Some (route, tsr) \<Rightarrow>
                  if \<not> tsr \<or> rhandleSlash route \<noteq> ExactSlash
                  then (let q = set_pattern '''' q
                        in Some (Inr (Invoke (cf_pathRedirect cf) (ctx q RedirectPathHandler) None, q)))
                  else serve_no_match env cf order t path True q
              | None \<Rightarrow> serve_no_match env cf order t path True q)
          else serve_no_match env cf order t path True q
      | Some (normalized, False) \<Rightarrow>
          if length normalized \<noteq> length path
          then serve_match env cf order t normalized True (rewriteRequest normalized rewritten q)
          else serve_match env cf order t path rewritten q)"

definition ServeHTTP ::
  "('c, ('hf, 'ip, 'k, 'v) payload, 'e) lookup_envs \<Rightarrow> ('hf, 'ip) config \<Rightarrow> string list \<Rightarrow> ('c, ('hf, 'ip, 'k, 'v) payload) iTree
   \<Rightarrow> request \<Rightarrow> (('hf, 'c, ('hf, 'ip, 'k, 'v) payload) reply \<times> requests) run" where
  "ServeHTTP env cf order t orig =
     (let q = \<lparr>sv_orig = orig, sv_copy = None\<rparr> in
      if rq_Method orig = '''' then Some (Inr (Invoke (cf_noRoute cf) (ctx q NoRouteHandler) None, q))
      else
        let (path, rewrite) = routingPath orig;
            q = (if rewrite then rewriteRequest path False q else q)
        in if cf_hasNormalize cf \<and> rq_Method (cur q) \<noteq> MethodConnect
           then serve_normalized env cf order t path rewrite q
           else serve_match env cf order t path rewrite q)"

end
