(* ===== verification/Routing_Path.thy ===== *)
theory Routing_Path
  imports Serve
begin

text \<open>
  The routing path of a request: it is canonical and decodes to the path of the URL, the normalization passes
  keep it canonical, and a rewritten request has the routing path it was rewritten to.
\<close>

subsection \<open>Canonical paths\<close>

lemma canonical_append: "canonical a \<Longrightarrow> canonical (a @ b) = canonical b"
proof (induction a rule: canonical.induct)
  case (2 c cs)
  show ?case
  proof (cases "c = CHR ''%''")
    case True
    with 2(3) obtain h l rest where "cs = h # l # rest" "canonical (c # cs)" by (auto simp: canonical.simps(2) split: list.splits)
    with 2 True show ?thesis by auto
  next
    case False
    with 2 show ?thesis by simp
  qed
qed simp

lemma canonical_unescape: "canonical a \<Longrightarrow> \<exists>d. PathUnescape a = Some d"
proof (induction a rule: canonical.induct)
  case (2 c cs)
  show ?case
  proof (cases "c = CHR ''%''")
    case True
    with 2(3) obtain h l rest where "cs = h # l # rest" "canonical (c # cs)" by (auto simp: canonical.simps(2) split: list.splits)
    with 2 True show ?thesis by auto
  next
    case False
    with 2 show ?thesis by auto
  qed
qed simp

lemma slash_not_hex: "DecodeHexPair slashDelim l = None" "DecodeHexPair h slashDelim = None"
  by (auto simp: DecodeHexPair_def hexDigit_def is_digit_def split: option.splits)

lemma slash_routable [simp]: "IsRoutableRaw slashDelim" "slashDelim \<noteq> CHR ''%''"
  by (simp_all add: IsRoutableRaw_def pathNoEscape_def)

lemma canonical_before_slash: "canonical (a @ slashDelim # b) \<Longrightarrow> canonical a"
proof (induction a rule: canonical.induct)
  case (2 c cs)
  show ?case
  proof (cases "c = CHR ''%''")
    case True
    show ?thesis
    proof (cases cs)
      case Nil
      with 2(3) True show ?thesis by (cases b) (auto simp: canonical.simps(2) slash_not_hex split: option.splits)
    next
      case (Cons h cs')
      with 2 True show ?thesis by (cases cs') (auto simp: slash_not_hex)
    qed
  next
    case False
    with 2 show ?thesis by simp
  qed
qed simp

lemma canonical_slash: "canonical (a @ slashDelim # b) \<longleftrightarrow> canonical a \<and> canonical b"
  using canonical_before_slash [of a b] canonical_append [of a "slashDelim # b"] by auto

lemma canonical_join: "canonical (join_after slashDelim ss) \<longleftrightarrow> (\<forall>s \<in> set ss. canonical s)"
proof (induction ss rule: rev_induct)
  case (snoc s ss)
  then show ?case by (auto simp: canonical_slash)
qed simp

lemma canonical_squeeze_after: "canonical s \<Longrightarrow> canonical (squeeze_after p s)"
proof (induction s arbitrary: p rule: canonical.induct)
  case (2 c cs)
  show ?case
  proof (cases "c = CHR ''%''")
    case True
    with 2(3) obtain h l rest where "cs = h # l # rest" "canonical (c # cs)" by (auto simp: canonical.simps(2) split: list.splits)
    with 2 True show ?thesis by (auto simp: slash_not_hex)
  next
    case False
    with 2 show ?thesis by simp
  qed
qed simp

lemma canonical_MergeSlashes: "canonical s \<Longrightarrow> canonical (MergeSlashes s)"
proof (cases s)
  case (Cons c cs)
  assume "canonical s"
  then have "canonical (squeeze_after CHR ''a'' s)" by (rule canonical_squeeze_after)
  with Cons show ?thesis by (simp add: MergeSlashes_eq_squeeze squeeze_def)
qed (simp add: MergeSlashes_eq_squeeze squeeze_def)

lemma collapse_segs_set: "collapse_segs ss st = Some rs \<Longrightarrow> set rs \<subseteq> insert [] (set ss \<union> set st)"
proof (induction ss arbitrary: st)
  case (Cons s ss)
  from Cons.prems show ?case
  proof (cases rule: collapse_segs_step)
    case keep
    with Cons.IH [of "s # st"] show ?thesis by auto
  next
    case (stop st' t)
    then show ?thesis by auto
  next
    case (drop st' t)
    with Cons.IH [OF drop(3)] show ?thesis by auto
  qed
qed auto

lemma canonical_Collapse:
  assumes "canonical p" "has_prefix p [slashDelim]" "CollapseDotSegments p = Some q"
  shows "canonical q"
proof -
  let ?ss = "split_byte slashDelim (tl p)"
  from assms(2,3) have "map_option (join_after slashDelim) (collapse_segs ?ss []) = Some q"
    using Collapse_join [OF slash_free_split, of "tl p"] by (simp add: rooted_tl)
  then obtain rs where rs: "collapse_segs ?ss [] = Some rs" "q = join_after slashDelim rs" by auto
  have "\<forall>s \<in> set ?ss. canonical s"
    using assms(1) canonical_join [of ?ss] by (simp add: rooted_tl [OF assms(2)])
  with collapse_segs_set [OF rs(1)] rs(2) show ?thesis by (auto simp: canonical_join)
qed

lemma canonical_fixTrailingSlash: "canonical p \<Longrightarrow> canonical (fixTrailingSlash p)"
proof (cases "length p > 1 \<and> last p = slashDelim")
  case True
  assume "canonical p"
  moreover from True have "p = butlast p @ [slashDelim]" by (metis append_butlast_last_id list.size(3) not_one_less_zero)
  ultimately show ?thesis using True canonical_slash [of "butlast p" "[]"] by (simp add: fixTrailingSlash_cases)
next
  case False
  assume "canonical p"
  with False canonical_slash [of p "[]"] show ?thesis by (auto simp: fixTrailingSlash_cases)
qed

text \<open>The routing paths of HTTP requests: origin form, or the star of a server-wide OPTIONS request.\<close>

definition servable :: "string \<Rightarrow> bool" where
  "servable p \<longleftrightarrow> canonical p \<and> (has_prefix p [slashDelim] \<or> p = ''*'')"

lemma star_passes: "MergeSlashes ''*'' = ''*''" "CollapseDotSegments ''*'' = Some ''*''"
  by code_simp+

lemma servable_MergeSlashes: "servable p \<Longrightarrow> servable (MergeSlashes p)"
  by (cases p) (auto simp: servable_def canonical_squeeze_after MergeSlashes_eq_squeeze squeeze_def star_passes [unfolded MergeSlashes_eq_squeeze])

lemma servable_Collapse:
  assumes "servable p" "CollapseDotSegments p = Some q"
  shows "servable q"
proof (cases "p = ''*''")
  case False
  with assms have p: "canonical p" "has_prefix p [slashDelim]" by (auto simp: servable_def)
  let ?ss = "split_byte slashDelim (tl p)"
  from assms(2) have "map_option (join_after slashDelim) (collapse_segs ?ss []) = Some q"
    using Collapse_join [OF slash_free_split, of "tl p"] by (simp add: rooted_tl [OF p(2)])
  then obtain rs where rs: "collapse_segs ?ss [] = Some rs" "q = join_after slashDelim rs" by auto
  from collapse_segs_result_nonempty [OF rs(1)] have "rs \<noteq> []" by simp
  with rs(2) have "has_prefix q [slashDelim]" by (cases rs) auto
  with canonical_Collapse [OF p assms(2)] show ?thesis by (simp add: servable_def)
qed (use assms star_passes in auto)

lemma servable_normalized:
  assumes "servable p" "normalizeRoutingPath cf p = Some q"
  shows "servable q"
  using assms servable_MergeSlashes servable_Collapse
  by (auto simp: normalizeRoutingPath_def Let_def split: if_splits)

text \<open>The path \<open>redirectRoutingPath\<close> computes is the normalized one.\<close>

lemma redirectRoutingPath_path: "map_option fst (redirectRoutingPath cf p) = normalizeRoutingPath cf p"
  by (simp add: redirectRoutingPath_def normalizeRoutingPath_def Let_def split: option.split)

subsection \<open>The routing path of a request\<close>

lemma routingPath_facts: "canonical (fst (routingPath r)) \<and> PathUnescape (fst (routingPath r)) = Some (u_Path (rq_URL r))"
proof -
  have "canonical out \<and> PathUnescape out = Some (u_Path (rq_URL r))"
    if "NormalizeRawPath (u_RawPath (rq_URL r)) (u_Path (rq_URL r)) = (out, ok)" "out \<noteq> ''''" for out ok
    using that normalize_spec_sound [of "u_RawPath (rq_URL r)" "u_Path (rq_URL r)"]
    by (auto simp: NormalizeRawPath_spec norm_result_def split: option.splits)
  then show ?thesis
    using EscapePath_canonical [of "u_Path (rq_URL r)"] by (auto simp: routingPath_def Let_def split: prod.splits)
qed

definition same_message :: "request \<Rightarrow> request \<Rightarrow> bool" where
  "same_message r r' \<longleftrightarrow> rq_Method r' = rq_Method r \<and> rq_Host r' = rq_Host r \<and> rq_Header r' = rq_Header r
     \<and> u_RawQuery (rq_URL r') = u_RawQuery (rq_URL r) \<and> u_Opaque (rq_URL r') = u_Opaque (rq_URL r)"

lemma same_message_refl [simp]: "same_message r r"
  by (simp add: same_message_def)

lemma EscapePath_Nil: "EscapePath [] = []"
  by code_simp

lemma rewritten_url:
  assumes "canonical p" "PathUnescape p = Some d" "u_Path u = d" "u_RawPath u = (if EscapePath d \<noteq> p then p else '''')"
    "rq_URL r = u"
  shows "routingPath r = (p, False)"
  using assms normalize_spec_canonical [OF assms(1,2)]
  by (auto simp: routingPath_def NormalizeRawPath_spec norm_result_def Let_def EscapePath_Nil)

lemma rewriteRequest_facts:
  assumes "canonical p" "owned \<Longrightarrow> sv_copy q \<noteq> None"
  shows "routingPath (cur (rewriteRequest p owned q)) = (p, False)"
    and "sv_orig (rewriteRequest p owned q) = sv_orig q" "sv_copy (rewriteRequest p owned q) \<noteq> None"
    and "same_message (cur q) (cur (rewriteRequest p owned q))"
    and "rq_Pattern (cur (rewriteRequest p owned q)) = rq_Pattern (cur q)"
proof -
  obtain d where d: "PathUnescape p = Some d" using canonical_unescape [OF assms(1)] by blast
  define u where "u = (rq_URL (cur q))\<lparr>u_Path := d, u_RawPath := (if EscapePath d \<noteq> p then p else '''')\<rparr>"
  obtain r where r: "(if owned then q else q\<lparr>sv_copy := Some (cur q)\<rparr>) = q\<lparr>sv_copy := Some r\<rparr>" "cur q = r"
    using assms(2) by (cases owned) (auto simp: cur_def split: option.splits)
  have e: "rewriteRequest p owned q = q\<lparr>sv_copy := Some (r\<lparr>rq_URL := u\<rparr>)\<rparr>"
    using d r(2) by (simp add: rewriteRequest_def r(1) set_cur_def cur_def u_def Let_def)
  have c: "cur (rewriteRequest p owned q) = r\<lparr>rq_URL := u\<rparr>" by (simp add: e cur_def)
  show "routingPath (cur (rewriteRequest p owned q)) = (p, False)"
    by (rule rewritten_url [OF assms(1) d, of u]) (simp_all add: c u_def)
  show "sv_orig (rewriteRequest p owned q) = sv_orig q" "sv_copy (rewriteRequest p owned q) \<noteq> None"
    by (simp_all add: e)
  show "same_message (cur q) (cur (rewriteRequest p owned q))"
    "rq_Pattern (cur (rewriteRequest p owned q)) = rq_Pattern (cur q)"
    unfolding c by (simp_all add: r(2) same_message_def u_def)
qed

subsection \<open>The requests of a call\<close>

lemma on_run_Inr: "on_run m f = Some (Inr b) \<longleftrightarrow> (\<exists>a. m = Some (Inr a) \<and> f a = Some (Inr b))"
  by (auto simp: on_run_def split: option.splits sum.splits)

text \<open>
  \<open>req_ok\<close> holds during a call: the caller's request differs from the original in its pattern only, the current
  request is the same message, and it is a copy as soon as it was rewritten.
\<close>

definition req_ok :: "request \<Rightarrow> string \<Rightarrow> bool \<Rightarrow> requests \<Rightarrow> bool" where
  "req_ok orig path rewritten q \<longleftrightarrow> sv_orig q = orig\<lparr>rq_Pattern := rq_Pattern (sv_orig q)\<rparr> \<and> same_message orig (cur q)
     \<and> rq_Pattern (cur q) = rq_Pattern (sv_orig q)
     \<and> routingPath (cur q) = (path, False) \<and> (rewritten \<longleftrightarrow> sv_copy q \<noteq> None)"

lemma routingPath_pattern [simp]: "routingPath (r\<lparr>rq_Pattern := s\<rparr>) = routingPath r"
  by (simp add: routingPath_def)

lemma same_message_pattern [simp]: "same_message r (r'\<lparr>rq_Pattern := s\<rparr>) = same_message r r'"
  by (simp add: same_message_def)

lemma cur_pattern: "cur (set_pattern s q) = (cur q)\<lparr>rq_Pattern := s\<rparr>"
  by (simp add: cur_def set_pattern_def split: option.split)

lemma req_ok_pattern: "req_ok orig path rewritten q \<Longrightarrow> req_ok orig path rewritten (set_pattern s q)"
  by (cases "sv_orig q"; cases orig) (auto simp: req_ok_def cur_pattern, auto simp: set_pattern_def)

lemma same_message_trans: "same_message a b \<Longrightarrow> same_message b c \<Longrightarrow> same_message a c"
  by (simp add: same_message_def)

lemma req_ok_rewrite:
  "req_ok orig path rewritten q \<Longrightarrow> canonical p \<Longrightarrow> req_ok orig p True (rewriteRequest p rewritten q)"
  using rewriteRequest_facts [of p rewritten q] same_message_trans by (auto simp: req_ok_def)

text \<open>What a reply of \<open>ServeHTTP\<close> says of the requests.\<close>

definition reply_ok :: "request \<Rightarrow> ('hf, 'c, 'h) reply \<times> requests \<Rightarrow> bool" where
  "reply_ok orig out \<longleftrightarrow> (case out of (reply, q) \<Rightarrow> \<exists>path rewritten. req_ok orig path rewritten q \<and>
     (case reply of
        Invoke h c allow \<Rightarrow> cx_req c = cur q \<and>
          (case cx_route c of
             None \<Rightarrow> cx_params c = [] \<and> cx_scope c \<noteq> RouteHandler \<and> (cx_scope c \<noteq> RejectPathHandler \<longrightarrow> rq_Pattern (cur q) = '''')
           | Some r \<Rightarrow> cx_scope c = RouteHandler \<and> rq_Pattern (cur q) = pstr (rpattern r))
      | Respond code allow \<Rightarrow> rq_Pattern (cur q) = ''''))"

lemma scopes_distinct:
  "NoRouteHandler \<noteq> RouteHandler" "OptionsHandler \<noteq> RouteHandler" "NoMethodHandler \<noteq> RouteHandler"
  "RedirectSlashHandler \<noteq> RouteHandler" "RedirectPathHandler \<noteq> RouteHandler" "RejectPathHandler \<noteq> RouteHandler"
  by (simp_all add: scope_defs push_bit_eq_mult)

lemma reply_ctx:
  assumes "req_ok orig path rewritten q" "sc \<noteq> RouteHandler"
  shows "reply_ok orig (Invoke h (ctx (set_pattern '''' q) sc) allow, set_pattern '''' q)"
  unfolding reply_ok_def prod.case
  by (intro exI [of _ path] exI [of _ rewritten] conjI req_ok_pattern [OF assms(1)])
    (simp add: ctx_def assms(2), simp add: cur_pattern ctx_def)

lemma reply_respond: "req_ok orig path rewritten q \<Longrightarrow> reply_ok orig (Respond code allow, set_pattern '''' q)"
  unfolding reply_ok_def prod.case
  by (intro exI [of _ path] exI [of _ rewritten] conjI req_ok_pattern) (simp_all add: cur_pattern)

lemma call_route_reply:
  assumes "req_ok orig path rewritten q" "rq_Pattern (cur q) = pstr (rpattern route)"
    "call_route route params (cur q) q = Some (Inr out)"
  shows "reply_ok orig out"
  using assms by (auto simp: reply_ok_def call_route_def split: option.splits)

lemma serve_no_match_reply:
  "req_ok orig path rewritten q \<Longrightarrow> serve_no_match env cf order t p nonCanonical q = Some (Inr out) \<Longrightarrow> reply_ok orig out"
  by (auto simp: serve_no_match_def Let_def on_run_Inr reply_ctx reply_respond scopes_distinct split: if_splits)

lemma serve_match_reply:
  assumes "req_ok orig path rewritten q" "canonical p" "serve_match env cf order t p rewritten q = Some (Inr out)"
  shows "reply_ok orig out"
proof -
  note no_match = serve_no_match_reply [OF assms(1)]
  from assms(3) obtain res params where l: "tree_lookup env t (cur q) (rq_Method (cur q)) p False = Some (Inr (res, params))"
    and run: "(case res of None \<Rightarrow> serve_no_match env cf order t p False q
        | Some (route, tsr) \<Rightarrow>
            if \<not> tsr then
              (let q = set_pattern (pstr (rpattern route)) q in call_route route params (cur q) q)
            else if rq_Method (cur q) \<noteq> MethodConnect \<and> u_Path (rq_URL (cur q)) \<noteq> ''/'' \<and> u_Opaque (rq_URL (cur q)) = '''' then
              (if rhandleSlash route = RelaxedSlash then
                 (let q = rewriteRequest (fixTrailingSlash p) rewritten (set_pattern (pstr (rpattern route)) q)
                  in call_route route params (cur q) q)
               else if rhandleSlash route = RedirectSlash \<and> \<not> hasDotSegment p then
                 (let q = set_pattern '''' q
                  in Some (Inr (Invoke (cf_tsrRedirect cf) (ctx q RedirectSlashHandler) None, q)))
               else serve_no_match env cf order t p False q)
            else serve_no_match env cf order t p False q) = Some (Inr out)"
    by (auto simp: serve_match_def Let_def on_run_Inr split: prod.splits)
  show ?thesis
  proof (cases res)
    case None
    with run no_match show ?thesis by simp
  next
    case (Some hit)
    obtain route tsr where hit: "hit = (route, tsr)" by fastforce
    let ?q = "set_pattern (pstr (rpattern route)) q"
    let ?q' = "rewriteRequest (fixTrailingSlash p) rewritten ?q"
    have q: "req_ok orig path rewritten ?q" "rq_Pattern (cur ?q) = pstr (rpattern route)"
      using assms(1) by (simp_all add: req_ok_pattern cur_pattern)
    have q': "req_ok orig (fixTrailingSlash p) True ?q'"
      by (rule req_ok_rewrite [OF q(1) canonical_fixTrailingSlash [OF assms(2)]])
    have pat: "rq_Pattern (cur ?q') = pstr (rpattern route)"
      using rewriteRequest_facts(5) [OF canonical_fixTrailingSlash [OF assms(2)], of rewritten ?q] q
      by (auto simp: req_ok_def)
    with run Some hit show ?thesis
      by (auto simp: Let_def scopes_distinct split: if_splits
          intro: no_match call_route_reply [OF q] call_route_reply [OF q' pat] reply_ctx [OF assms(1), of RedirectSlashHandler])
  qed
qed

lemma serve_normalized_reply:
  assumes "req_ok orig p rewritten q" "servable p" "serve_normalized env cf order t p rewritten q = Some (Inr out)"
  shows "reply_ok orig out"
proof -
  note no_match = serve_no_match_reply [OF assms(1)]
  let ?norm = "if cf_hasRedirectPath cf then redirectRoutingPath cf p else map_option (\<lambda>p. (p, False)) (normalizeRoutingPath cf p)"
  have path: "map_option fst ?norm = normalizeRoutingPath cf p"
    by (simp add: redirectRoutingPath_path option.map_comp comp_def option.map_ident)
  have reject: "reply_ok orig (Invoke (cf_pathReject cf) (ctx q RejectPathHandler) None, q)"
    using assms(1) by (auto simp: reply_ok_def ctx_def scopes_distinct)
  show ?thesis
  proof (cases ?norm)
    case None
    with assms(3) reject show ?thesis by (auto simp: serve_normalized_def Let_def)
  next
    case (Some nr)
    obtain n redirect where nr: "nr = (n, redirect)" by fastforce
    from path Some nr have "normalizeRoutingPath cf p = Some n" by simp
    from servable_normalized [OF assms(2) this] have n: "canonical n" by (simp add: servable_def)
    have p: "canonical p" using assms(2) by (simp add: servable_def)
    show ?thesis
    proof (cases redirect)
      case True
      have noM: "reply_ok orig out" if "serve_no_match env cf order t p True q = Some (Inr out)"
        using that by (rule no_match)
      have red: "reply_ok orig (Invoke (cf_pathRedirect cf) (ctx (set_pattern '''' q) RedirectPathHandler) None, set_pattern '''' q)"
        by (rule reply_ctx [OF assms(1) scopes_distinct(5)])
      from True assms(3) Some nr noM red show ?thesis
        by (auto simp: serve_normalized_def Let_def on_run_Inr split: if_splits option.splits)
    next
      case False
      with assms(3) Some nr show ?thesis
        by (auto simp: serve_normalized_def Let_def split: if_splits
            intro: serve_match_reply [OF assms(1) p] serve_match_reply [OF req_ok_rewrite [OF assms(1) n] n])
    qed
  qed
qed

lemma routed_request:
  assumes "routingPath orig = (path, rewrite)"
  shows "req_ok orig path rewrite (if rewrite then rewriteRequest path False \<lparr>sv_orig = orig, sv_copy = None\<rparr> else \<lparr>sv_orig = orig, sv_copy = None\<rparr>)"
proof -
  let ?q = "\<lparr>sv_orig = orig, sv_copy = None\<rparr>"
  have c: "cur ?q = orig" by (simp add: cur_def)
  have "canonical path" using routingPath_facts [of orig] assms by simp
  from rewriteRequest_facts [OF this, of False ?q] c assms show ?thesis by (auto simp: req_ok_def)
qed

lemma ServeHTTP_reply:
  assumes "ServeHTTP env cf order t orig = Some (Inr out)" "rq_Method orig \<noteq> ''''"
    "cf_hasNormalize cf \<Longrightarrow> servable (fst (routingPath orig))"
  shows "reply_ok orig out"
proof -
  obtain path rewrite where p: "routingPath orig = (path, rewrite)" by fastforce
  have c: "canonical path" using routingPath_facts [of orig] p by simp
  define q where "q = (if rewrite then rewriteRequest path False \<lparr>sv_orig = orig, sv_copy = None\<rparr> else \<lparr>sv_orig = orig, sv_copy = None\<rparr>)"
  have q: "req_ok orig path rewrite q" unfolding q_def by (rule routed_request [OF p])
  have run: "(if cf_hasNormalize cf \<and> rq_Method (cur q) \<noteq> MethodConnect
      then serve_normalized env cf order t path rewrite q else serve_match env cf order t path rewrite q) = Some (Inr out)"
    using assms(1,2) p unfolding q_def by (simp add: ServeHTTP_def Let_def split del: if_split)
  show ?thesis
  proof (cases "cf_hasNormalize cf \<and> rq_Method (cur q) \<noteq> MethodConnect")
    case True
    with run assms(3) p show ?thesis by (intro serve_normalized_reply [OF q, of env cf order t out]) simp_all
  next
    case False
    with run show ?thesis by (intro serve_match_reply [OF q c, of env cf order t out]) (simp split: if_splits)
  qed
qed

subsection \<open>Redirects to the normalized path\<close>

lemma no_double_slash_join:
  assumes "slash_free ss"
  shows "no_double_slash (join_after slashDelim ss) \<longleftrightarrow> [] \<notin> set (butlast ss)"
  using assms
proof (induction ss)
  case (Cons s ss)
  have free: "no_double_slash (s @ u) \<longleftrightarrow> no_double_slash u" if "slashDelim \<notin> set s" for s u :: string
    using that
  proof (induction s)
    case (Cons a s)
    then show ?case by (cases "s @ u") auto
  qed simp
  have s: "slashDelim \<notin> set s" and IH: "no_double_slash (join_after slashDelim ss) \<longleftrightarrow> [] \<notin> set (butlast ss)"
    using Cons by (simp_all add: slash_free_def)
  show ?case
  proof (cases s)
    case Nil
    with IH show ?thesis by (cases ss) auto
  next
    case (Cons a l)
    with s free [OF s, of "join_after slashDelim ss"] IH show ?thesis by (cases ss) auto
  qed
qed simp

lemma collapse_segs_butlast:
  "collapse_segs ss st = Some rs \<Longrightarrow> [] \<notin> set (butlast (rev st @ ss)) \<Longrightarrow> ss \<noteq> [] \<Longrightarrow> [] \<notin> set (butlast rs)"
proof (induction ss arbitrary: st)
  case (Cons s ss)
  have st: "[] \<notin> set st" using Cons.prems(2) by (simp add: butlast_append)
  from Cons.prems(1) show ?case
  proof (cases rule: collapse_segs_step)
    case keep
    show ?thesis
    proof (cases "ss = []")
      case True
      with keep(2) have "rs = rev st @ [s]" by simp
      with st show ?thesis by simp
    next
      case False
      with Cons.IH [of "s # st"] keep Cons.prems(2) show ?thesis by simp
    qed
  next
    case (stop st' t)
    with st show ?thesis by auto
  next
    case (drop st' t)
    show ?thesis
    proof (cases "ss = []")
      case True
      with drop st show ?thesis by (auto dest: in_set_butlastD)
    next
      case False
      with Cons.IH [OF drop(3)] drop(2) Cons.prems(2) show ?thesis by (auto simp: butlast_append)
    qed
  qed
qed simp

lemma Collapse_no_double_slash:
  assumes "has_prefix p [slashDelim]" "no_double_slash p" "CollapseDotSegments p = Some q"
  shows "no_double_slash q"
proof -
  let ?ss = "split_byte slashDelim (tl p)"
  from assms(3) have "map_option (join_after slashDelim) (collapse_segs ?ss []) = Some q"
    using Collapse_join [OF slash_free_split, of "tl p"] by (simp add: rooted_tl [OF assms(1)])
  then obtain rs where rs: "collapse_segs ?ss [] = Some rs" "q = join_after slashDelim rs" by auto
  have free: "slash_free rs" using collapse_segs_slash_free [OF rs(1) slash_free_split] by (simp add: slash_free_def)
  have "[] \<notin> set (butlast ?ss)"
    using no_double_slash_join [OF slash_free_split, of "tl p"] assms(2) by (simp add: rooted_tl [OF assms(1)])
  with collapse_segs_butlast [OF rs(1)] no_double_slash_join [OF free] rs(2) show ?thesis by simp
qed

lemma MergeSlashes_rooted: "has_prefix p [slashDelim] \<Longrightarrow> has_prefix (MergeSlashes p) [slashDelim]"
  by (cases p) (auto simp: MergeSlashes_eq_squeeze squeeze_def)

lemma MergeSlashes_facts:
  "no_double_slash (MergeSlashes p)" "no_double_slash q \<Longrightarrow> MergeSlashes q = q" "length (MergeSlashes p) \<le> length p"
  by (simp_all add: MergeSlashes_eq_squeeze no_double_slash_squeeze squeeze_id length_squeeze)

text \<open>
  C15. When a pass in redirect mode changes the path, the location the redirect handler computes is a rooted,
  strictly shorter path that the same router neither changes nor redirects again.
\<close>

theorem redirect_settles:
  assumes "has_prefix p [slashDelim]" "redirectRoutingPath cf p = Some (n, True)"
  shows "normalizeRoutingPath cf p = Some n \<and> has_prefix n [slashDelim] \<and> length n < length p
    \<and> redirectRoutingPath cf n = Some (n, False) \<and> normalizeRoutingPath cf n = Some n"
proof -
  define m where "m = (if cf_mergeSlash cf \<noteq> ExactPath then MergeSlashes p else p)"
  have m: "has_prefix m [slashDelim]" "length m \<le> length p"
    using assms(1) MergeSlashes_facts(3) MergeSlashes_rooted by (simp_all add: m_def)
  have path: "normalizeRoutingPath cf p = Some n"
    using redirectRoutingPath_path [of cf p] assms(2) by simp
  then have step: "if cf_collapseDots cf \<noteq> ExactPath then CollapseDotSegments m = Some n else n = m"
    by (auto simp: normalizeRoutingPath_def m_def Let_def split: if_splits)
  have n: "has_prefix n [slashDelim]" "length n \<le> length m" "cf_collapseDots cf \<noteq> ExactPath \<Longrightarrow> CollapseDotSegments n = Some n"
    using step m(1) Collapse_facts [OF m(1), of n] by (auto split: if_splits)
  have merged: "MergeSlashes n = n" if "cf_mergeSlash cf \<noteq> ExactPath"
  proof -
    have "no_double_slash m" using that MergeSlashes_facts(1) by (simp add: m_def)
    with step have "no_double_slash n" using Collapse_no_double_slash [OF m(1)] by (auto split: if_splits)
    then show ?thesis by (rule MergeSlashes_facts(2))
  qed
  have "length n < length p"
    using assms(2) step n(2) m(2)
    by (auto simp: redirectRoutingPath_def m_def Let_def split: if_splits option.splits)
  with path n merged show ?thesis
    by (simp add: redirectRoutingPath_def normalizeRoutingPath_def Let_def)
qed

definition demo_redirects :: "(bool, unit) config" where
  "demo_redirects = (initRouter \<lparr>DefaultNoRouteHandler = False, DefaultNoMethodHandler = False, DefaultOptionsHandler = False,
     internalTrailingSlashHandler = False, internalPathRedirectHandler = False, DefaultRejectPathHandler = False\<rparr>)
     \<lparr>cf_mergeSlash := RedirectPath, cf_collapseDots := NormalizePath, cf_hasNormalize := True, cf_hasRedirectPath := True\<rparr>"

theorem redirect_settles_witness:
  "redirectRoutingPath demo_redirects ''/a//./b/../c'' = Some (''/a/c'', True)
   \<and> redirectRoutingPath demo_redirects ''/a/c'' = Some (''/a/c'', False)"
proof -
  have "redirectRoutingPath demo_redirects ''/a//./b/../c'' = Some (''/a/c'', True)" by code_simp
  with redirect_settles [OF _ this] show ?thesis by simp
qed

end
