(* ===== verification/Serve_Dispatch.thy ===== *)
theory Serve_Dispatch
  imports Routing_Path
begin

text \<open>
  What \<open>ServeHTTP\<close> answers, for a router whose lookups go by path: it returns, it calls the handler of a
  registered route exactly when the lookup of the normalized path finds one, and the Allow header lists methods
  that have a route.
\<close>

subsection \<open>Lookups by path\<close>

text \<open>A router without host routes, or a request without a host that can match one.\<close>

definition by_path :: "('c, 'h) iTree \<Rightarrow> string \<Rightarrow> bool" where
  "by_path t hostPort \<longleftrightarrow>
     (let n = it_patterns t; host = StripHostPort hostPort in
      (length (nparams n) = 0 \<and> length (nwildcards n) = 0 \<and> length (nstatics n) = 1 \<and> nlabel (nstatics n ! 0) = slashDelim)
      \<or> host = '''' \<or> slashDelim \<in> set host)"

text \<open>The contract of the listing of capture ends holds for every lookup the router makes.\<close>

definition envs_ok :: "('c, 'h, 'e) lookup_envs \<Rightarrow> ('e \<Rightarrow> regexp \<Rightarrow> string \<Rightarrow> nat \<Rightarrow> char \<Rightarrow> bool) \<Rightarrow> bool" where
  "envs_ok env serves \<longleftrightarrow> (\<forall>r method path lazy. listing_ok (env_at env r method path lazy) serves)"

definition tree_args :: "('c, 'h) iTree \<Rightarrow> string \<Rightarrow> ('c, 'h) route path_args" where
  "tree_args t path = \<lparr>pa_root = it_patterns t, pa_path = path, pa_stackOffset = 0\<rparr>"

text \<open>The request as a reference lookup sees it.\<close>

definition request_ref ::
  "('c, 'h, 'e) lookup_envs \<Rightarrow> ('c, 'h) iTree \<Rightarrow> request \<Rightarrow> string \<Rightarrow> string \<Rightarrow> bool \<Rightarrow> ('c, 'h) ref_env" where
  "request_ref env t r method path lazy = ref_of (env_at env r method path lazy) (tree_args t path)"

lemma reset_empty: "reset empty_lookup = empty_lookup"
  by (simp add: reset_def empty_lookup_def)

lemma lookup_by_path:
  assumes "by_path t hostPort"
  shows "lookup E (it_patterns t) hostPort path [] empty_lookup = lookupByPath E (tree_args t path) [] [] empty_lookup"
  using assms by (auto simp: lookup_def by_path_def Let_def tree_args_def reset_empty)

definition serving_ok ::
  "('c, 'h, 'e) lookup_envs \<Rightarrow> ('e \<Rightarrow> regexp \<Rightarrow> string \<Rightarrow> nat \<Rightarrow> char \<Rightarrow> bool) \<Rightarrow> (string \<Rightarrow> pattern) \<Rightarrow> ('c, 'h) iTree \<Rightarrow> string \<Rightarrow> bool" where
  "serving_ok env serves pat t host \<longleftrightarrow> envs_ok env serves \<and> tree_inv pat t \<and> plain_tree (it_patterns t) \<and> by_path t host"

lemma tree_lookup_facts:
  assumes "serving_ok env serves pat t (rq_Host r)" "method \<noteq> ''''"
  obtains res params where "tree_lookup env t r method path lazy = Some (Inr (map_option (\<lambda>(r, tsr, vs). (r, tsr)) res, params))"
    and "lookup_result (request_ref env t r method path lazy) t res"
    and "\<And>x tsr vs. res = Some (x, tsr, vs) \<Longrightarrow> params = (if lazy then [] else vs)"
proof -
  let ?E = "env_at env r method path lazy"
  have E: "lookup_ok ?E serves" "lk_lazy ?E = lazy"
    using assms by (simp_all add: lookup_ok_def serving_ok_def envs_ok_def env_at_def)
  have tree: "tree_inv pat t" "plain_tree (it_patterns t)" "by_path t (rq_Host r)" using assms(1) by (simp_all add: serving_ok_def)
  have args: "pa_root (tree_args t path) = it_patterns t" "pa_stackOffset (tree_args t path) = length ([] :: ('a, 'b) route skipNode list)"
    by (simp_all add: tree_args_def)
  from lookup_registered_facts [OF E(1) tree(1,2) args empty_fine, of "[]"]
  obtain s res where s: "lookupByPath ?E (tree_args t path) [] [] empty_lookup = Some s"
      "lookup_result (ref_of ?E (tree_args t path)) t res"
      "case res of None \<Rightarrow> wk_label s = LDone None
       | Some (r, tsr, vs) \<Rightarrow> \<exists>i n. wk_label s = LDone (Some (i, n, tsr)) \<and> nroutes n ! i = r
           \<and> wk_params s = [] @ (if lk_lazy ?E then [] else vs)"
    by blast
  have l: "lookup ?E (it_patterns t) (rq_Host r) path [] empty_lookup = Some s"
    using lookup_by_path [OF tree(3), of ?E path] s(1) by simp
  have "tree_lookup env t r method path lazy = Some (Inr (map_option (\<lambda>(r, tsr, vs). (r, tsr)) res, wk_params s))"
    using s(3) by (auto simp: tree_lookup_def l split: option.splits)
  moreover have "wk_params s = (if lazy then [] else vs)" if "res = Some (x, tsr, vs)" for x tsr vs
    using s(3) that E(2) by auto
  ultimately show ?thesis using s(2) that [of res "wk_params s"] by (simp add: request_ref_def)
qed

lemma tree_lookup_total:
  assumes "serving_ok env serves pat t (rq_Host r)" "method \<noteq> ''''"
  shows "\<exists>out. tree_lookup env t r method path lazy = Some (Inr out)"
  by (rule tree_lookup_facts [OF assms, of path lazy]) blast

subsection \<open>The answers without a route\<close>

definition unrouted :: "('hf, 'c, 'h) reply \<Rightarrow> bool" where
  "unrouted reply \<longleftrightarrow> (case reply of
     Invoke h c allow \<Rightarrow> cx_route c = None \<and> cx_scope c \<in> {NoRouteHandler, NoMethodHandler, OptionsHandler}
   | Respond code allow \<Rightarrow> code = 200)"

lemma seen_methods_total:
  assumes "serving_ok env serves pat t (rq_Host r)" "'''' \<notin> set order"
  shows "\<exists>seen'. seen_methods env t r path order seen = Some (Inr seen')"
  using assms(2)
proof (induction order arbitrary: seen)
  case (Cons m ms)
  from Cons.prems have "m \<noteq> ''''" by auto
  from tree_lookup_total [OF assms(1) this, of path True] obtain out where "tree_lookup env t r m path True = Some (Inr out)"
    by blast
  moreover from Cons.IH Cons.prems have "\<exists>seen'. seen_methods env t r path ms s = Some (Inr seen')" for s by simp
  then obtain f where "seen_methods env t r path ms s = Some (Inr (f s))" for s by metis
  ultimately show ?case by (cases out) simp
qed simp

lemma serve_no_match_total:
  assumes "serving_ok env serves pat t (rq_Host (cur q))" "'''' \<notin> set order"
  shows "\<exists>reply q'. serve_no_match env cf order t path nonCanonical q = Some (Inr (reply, q')) \<and> unrouted reply"
proof -
  let ?q = "set_pattern '''' q"
  have "serving_ok env serves pat t (rq_Host (cur ?q))" using assms(1) by (simp add: cur_pattern)
  from seen_methods_total [OF this assms(2)] obtain seen where
    seen: "seen_methods env t (cur ?q) path order s = Some (Inr (seen s))" for s by metis
  show ?thesis
    by (auto simp: serve_no_match_def Let_def seen unrouted_def ctx_def)
qed

subsection \<open>The answer to a request\<close>

text \<open>How a reply follows from the result \<open>res\<close> of the lookup of the path \<open>p\<close>.\<close>

definition answers ::
  "('hf, 'ip) config \<Rightarrow> string \<Rightarrow> (('c, 'hf, 'ip, 'k, 'v) full_route \<times> bool \<times> string list) option
   \<Rightarrow> ('hf, 'c, ('hf, 'ip, 'k, 'v) payload) reply \<Rightarrow> bool" where
  "answers cf p res reply \<longleftrightarrow>
     unrouted reply \<and> (res = None \<or> (\<exists>r vs. res = Some (r, True, vs)) \<or> hasDotSegment p)
     \<or> (\<exists>h c. reply = Invoke h c None \<and>
          (case cx_route c of
             Some r \<Rightarrow> cx_scope c = RouteHandler \<and> hall (rhandlers r) = Some h
               \<and> (res = Some (r, False, cx_params c) \<or> res = Some (r, True, cx_params c) \<and> rhandleSlash r = RelaxedSlash)
           | None \<Rightarrow> cx_scope c = RedirectSlashHandler \<and> h = cf_tsrRedirect cf
                 \<and> (\<exists>r vs. res = Some (r, True, vs) \<and> rhandleSlash r = RedirectSlash)
               \<or> cx_scope c = RedirectPathHandler \<and> h = cf_pathRedirect cf \<and> res \<noteq> None))"

definition handlers_set :: "('c, 'hf, 'ip, 'k, 'v) full_route set \<Rightarrow> bool" where
  "handlers_set rs \<longleftrightarrow> (\<forall>r \<in> rs. hall (rhandlers r) \<noteq> None)"

lemma result_registered:
  "lookup_result R t (Some (r, tsr, vs)) \<Longrightarrow> r \<in> routes_of (routes_at (it_patterns t))"
  by (cases tsr) (simp_all add: lookup_result_def)

lemma serve_match_answers:
  assumes "serving_ok env serves pat t (rq_Host (cur q))" "'''' \<notin> set order" "rq_Method (cur q) \<noteq> ''''"
    "handlers_set (routes_of (routes_at (it_patterns t)))"
  shows "\<exists>reply q' res. serve_match env cf order t p rewritten q = Some (Inr (reply, q'))
    \<and> lookup_result (request_ref env t (cur q) (rq_Method (cur q)) p False) t res \<and> answers cf p res reply"
proof -
  from tree_lookup_facts [OF assms(1,3), of p False] obtain res params where
    l: "tree_lookup env t (cur q) (rq_Method (cur q)) p False = Some (Inr (map_option (\<lambda>(r, tsr, vs). (r, tsr)) res, params))"
      "lookup_result (request_ref env t (cur q) (rq_Method (cur q)) p False) t res"
      "\<And>x tsr vs. res = Some (x, tsr, vs) \<Longrightarrow> params = (if False then [] else vs)" by metis
  from serve_no_match_total [OF assms(1,2)] obtain reply q' where
    no: "serve_no_match env cf order t p False q = Some (Inr (reply, q'))" "unrouted reply" by blast
  show ?thesis
  proof (cases res)
    case None
    with l no show ?thesis
      by (intro exI [of _ reply] exI [of _ q'] exI [of _ res]) (simp add: serve_match_def Let_def answers_def)
  next
    case (Some hit)
    obtain r tsr vs where hit: "hit = (r, tsr, vs)" by (cases hit)
    with l(2) Some have "r \<in> routes_of (routes_at (it_patterns t))" using result_registered by blast
    with assms(4) obtain h where h: "hall (rhandlers r) = Some h" by (auto simp: handlers_set_def)
    have params: "params = vs" using l(3) Some hit by simp
    let ?fix = "rq_Method (cur q) \<noteq> MethodConnect \<and> u_Path (rq_URL (cur q)) \<noteq> ''/'' \<and> u_Opaque (rq_URL (cur q)) = ''''"
    have falls: "serve_match env cf order t p rewritten q = serve_no_match env cf order t p False q"
      if "tsr" "\<not> (?fix \<and> (rhandleSlash r = RelaxedSlash \<or> rhandleSlash r = RedirectSlash \<and> \<not> hasDotSegment p))"
      using that l(1) Some hit by (auto simp: serve_match_def Let_def)
    consider (direct) "\<not> tsr"
      | (relaxed) "tsr" "?fix" "rhandleSlash r = RelaxedSlash"
      | (redirect) "tsr" "?fix" "rhandleSlash r = RedirectSlash" "\<not> hasDotSegment p"
      | (other) "tsr" "serve_match env cf order t p rewritten q = serve_no_match env cf order t p False q"
      using falls by blast
    then have "\<exists>reply q'. serve_match env cf order t p rewritten q = Some (Inr (reply, q')) \<and> answers cf p res reply"
    proof cases
      case direct
      then show ?thesis using l(1) Some hit h
        by (auto simp: serve_match_def Let_def call_route_def answers_def params)
    next
      case relaxed
      then show ?thesis using l(1) Some hit h
        by (auto simp: serve_match_def Let_def call_route_def answers_def params)
    next
      case redirect
      then show ?thesis using l(1) Some hit
        by (auto simp: serve_match_def Let_def answers_def ctx_def)
    next
      case other
      with Some hit no show ?thesis by (auto simp: answers_def)
    qed
    with l(2) show ?thesis by blast
  qed
qed

text \<open>The path the router looks up.\<close>

definition effective_path :: "('hf, 'ip) config \<Rightarrow> request \<Rightarrow> string option" where
  "effective_path cf orig =
     (let p = fst (routingPath orig) in
      if cf_hasNormalize cf \<and> rq_Method orig \<noteq> MethodConnect then normalizeRoutingPath cf p else Some p)"

lemma redirect_id:
  assumes "servable path" "normalizeRoutingPath cf path = Some p" "length p = length path"
  shows "p = path"
proof -
  have merge: "MergeSlashes x = x" if "length (MergeSlashes x) = length x" for x
    using that squeeze_eq_length by (simp add: MergeSlashes_eq_squeeze)
  define m where "m = (if cf_mergeSlash cf \<noteq> ExactPath then MergeSlashes path else path)"
  have m: "servable m" "length m \<le> length path"
    using assms(1) servable_MergeSlashes MergeSlashes_facts(3) by (simp_all add: m_def)
  have step: "if cf_collapseDots cf \<noteq> ExactPath then CollapseDotSegments m = Some p else p = m"
    using assms(2) by (auto simp: normalizeRoutingPath_def m_def Let_def split: if_splits)
  have "p = m \<or> length p < length m"
  proof (cases "m = ''*''")
    case True
    with step show ?thesis by (auto simp: star_passes split: if_splits)
  next
    case False
    with m(1) have "has_prefix m [slashDelim]" by (simp add: servable_def)
    with step Collapse_facts [of m p] show ?thesis by (auto split: if_splits)
  qed
  with assms(3) m(2) have "p = m" "length m = length path" by auto
  then show ?thesis using merge by (auto simp: m_def split: if_splits)
qed

lemma unrouted_answers: "unrouted reply \<Longrightarrow> res = None \<or> hasDotSegment p \<Longrightarrow> answers cf p res reply"
  by (auto simp: answers_def)

lemma serve_normalized_answers:
  assumes "serving_ok env serves pat t (rq_Host (cur q))" "'''' \<notin> set order" "rq_Method (cur q) \<noteq> ''''"
    "handlers_set (routes_of (routes_at (it_patterns t)))" "req_ok orig path rewritten q" "servable path"
    "normalizeRoutingPath cf path = Some p"
  shows "\<exists>reply q' rq lazy res. serve_normalized env cf order t path rewritten q = Some (Inr (reply, q')) \<and> same_message orig rq
    \<and> lookup_result (request_ref env t rq (rq_Method orig) p lazy) t res \<and> answers cf p res reply"
proof -
  let ?norm = "if cf_hasRedirectPath cf then redirectRoutingPath cf path else map_option (\<lambda>p. (p, False)) (normalizeRoutingPath cf path)"
  have "\<exists>redirect. ?norm = Some (p, redirect)"
    using redirectRoutingPath_path [of cf path] assms(7) by (cases "cf_hasRedirectPath cf") auto
  then obtain redirect where norm: "?norm = Some (p, redirect)" by blast
  have q: "same_message orig (cur q)" "rq_Method (cur q) = rq_Method orig" "rq_Host (cur q) = rq_Host orig"
    using assms(5) by (simp_all add: req_ok_def same_message_def)
  have p: "canonical p" using servable_normalized [OF assms(6,7)] by (simp add: servable_def)
  from serve_no_match_total [OF assms(1,2)] obtain reply q' where
    no: "serve_no_match env cf order t path True q = Some (Inr (reply, q'))" "unrouted reply" by blast
  show ?thesis
  proof (cases redirect)
    case False
    define q2 where "q2 = (if length p \<noteq> length path then rewriteRequest p rewritten q else q)"
    have q2: "same_message orig (cur q2)" "rq_Host (cur q2) = rq_Host (cur q)" "rq_Method (cur q2) = rq_Method (cur q)"
      using assms(5) req_ok_rewrite [OF assms(5) p] by (auto simp: q2_def req_ok_def same_message_def)
    have pp: "p = path" if "length p = length path"
      using that norm False assms(7) redirect_id [OF assms(6,7)] by simp
    have "serve_normalized env cf order t path rewritten q
        = serve_match env cf order t p (if length p \<noteq> length path then True else rewritten) q2"
      using norm False pp by (auto simp: serve_normalized_def Let_def q2_def)
    with serve_match_answers [of env serves pat t q2 order cf p "if length p \<noteq> length path then True else rewritten"]
      assms(1-4) q2 q show ?thesis by (metis (no_types, lifting))
  next
    case True
    show ?thesis
    proof (cases "cf_collapseDots cf \<noteq> ExactPath \<or> \<not> hasDotSegment p")
      case False
      then have "serve_normalized env cf order t path rewritten q = Some (Inr (reply, q'))"
        using norm True no by (auto simp: serve_normalized_def Let_def)
      moreover obtain res params where "lookup_result (request_ref env t (cur q) (rq_Method (cur q)) p True) t res"
        using tree_lookup_facts [OF assms(1,3), of p True] by metis
      ultimately show ?thesis using False no(2) q
        by (metis (no_types, lifting) unrouted_answers)
    next
      case dots: True
      from tree_lookup_facts [OF assms(1,3), of p True] obtain res params where
        l: "tree_lookup env t (cur q) (rq_Method (cur q)) p True = Some (Inr (map_option (\<lambda>(r, tsr, vs). (r, tsr)) res, params))"
          "lookup_result (request_ref env t (cur q) (rq_Method (cur q)) p True) t res" by metis
      have run: "\<exists>reply q'. serve_normalized env cf order t path rewritten q = Some (Inr (reply, q')) \<and> answers cf p res reply"
      proof (cases res)
        case None
        with l(1) norm True dots no show ?thesis by (auto simp: serve_normalized_def Let_def answers_def)
      next
        case (Some hit)
        obtain r tsr vs where hit: "hit = (r, tsr, vs)" by (cases hit)
        show ?thesis
        proof (cases "tsr \<and> rhandleSlash r = ExactSlash")
          case True
          with l(1) norm \<open>redirect\<close> dots no Some hit show ?thesis by (auto simp: serve_normalized_def Let_def answers_def)
        next
          case False
          with l(1) norm \<open>redirect\<close> dots Some hit show ?thesis
            by (auto simp: serve_normalized_def Let_def answers_def ctx_def)
        qed
      qed
      with l(2) q show ?thesis by metis
    qed
  qed
qed


text \<open>An example: the route \<open>/x/{a}\<close>, on a router that merges slashes.\<close>

definition demo_handled :: "(unit, (bool, unit, unit, unit) payload) route" where
  "demo_handled = \<lparr>rname = '''', rmethods = [''GET''], rparams = [''a''], rmatchers = [], rmethodFast = ''GET'',
     rpattern = \<lparr>pstr = ''/x/{a}'', ptokens = [demo_tok nodeStatic ''/x/'', demo_tok nodeParam ''a''],
       optionalCatchAll = False, catchAll = False, endHost = 0, hostParams = 0\<rparr>,
     rpriority = 0, rhandleSlash = RelaxedSlash, rnested = False,
     rhandlers = \<lparr>hbase = Some True, hself = Some True, hall = Some True, rt_mws = [], rt_clientip = noClientIPResolver,
       annots = Map.empty\<rparr>\<rparr>"

definition demo_site :: "(unit, (bool, unit, unit, unit) payload) iTree" where
  "demo_site = fst (commit (fst (insert_route (txn newTree) demo_handled modeInsert)))"

definition demo_merging :: "(bool, unit) config" where
  "demo_merging = demo_redirects\<lparr>cf_mergeSlash := NormalizePath, cf_collapseDots := ExactPath, cf_hasRedirectPath := False\<rparr>"

definition demo_request :: "string \<Rightarrow> request" where
  "demo_request path = \<lparr>rq_Method = ''GET'', rq_Host = ''example.com'',
     rq_URL = \<lparr>u_Path = path, u_RawPath = '''', u_RawQuery = ''q=1'', u_Opaque = ''''\<rparr>, rq_Header = Map.empty, rq_Pattern = ''''\<rparr>"

definition demo_envs :: "(unit, (bool, unit, unit, unit) payload, (regexp \<times> string \<times> nat \<times> char) option) lookup_envs" where
  "demo_envs = (\<lambda>r method path lazy. demo_env)"

lemma demo_handled_ok: "route_ok (\<lambda>_. rpattern demo_handled) demo_handled"
  by (simp add: route_ok_def demo_handled_def demo_tok_def fast_ok_def catch_all_ok_def)

lemma demo_site_ok: "serving_ok demo_envs demo_serves (\<lambda>_. rpattern demo_handled) demo_site ''example.com''"
proof -
  have "snd (insert_route (txn newTree) demo_handled modeInsert) = None"
    by (simp add: insert_refines_facts(1) [OF empty_txn(1) demo_handled_ok] empty_txn(2))
  from insert_route_inv [OF empty_txn(1) demo_handled_ok this]
  have inv: "tree_inv (\<lambda>_. rpattern demo_handled) demo_site" by (simp add: demo_site_def handles_inv)
  have "listing_ok (env_at demo_envs r mth path lazy) demo_serves" for r mth path lazy
    by (auto simp: listing_ok_def listing_fine_def demo_env_def demo_envs_def env_at_def demo_serves_def)
  then have "envs_ok demo_envs demo_serves" by (simp add: envs_ok_def)
  moreover have "plain_tree (it_patterns demo_site)" "by_path demo_site ''example.com''" by code_simp+
  ultimately show ?thesis using inv by (simp add: serving_ok_def)
qed

lemma demo_site_routes: "routes_of (routes_at (it_patterns demo_site)) = {demo_handled}"
proof -
  have "snd (insert_route (txn newTree) demo_handled modeInsert) = None"
    by (simp add: insert_refines_facts(1) [OF empty_txn(1) demo_handled_ok] empty_txn(2))
  from insert_refines_facts(3) [OF empty_txn(1) demo_handled_ok this]
  have "registered (fst (insert_route (txn newTree) demo_handled modeInsert)) = {demo_handled}"
    by (simp add: empty_txn(2))
  then show ?thesis by (simp add: demo_site_def commit_def registered_def Let_def)
qed

lemma demo_serving:
  "'''' \<notin> set [''GET'']" "rq_Method (demo_request p) \<noteq> ''''" "rq_Host (demo_request p) = ''example.com''"
  "handlers_set (routes_of (routes_at (it_patterns demo_site)))"
  by (simp_all add: demo_request_def handlers_set_def demo_site_routes demo_handled_def)


lemma demo_site_lookup:
  "tree_lookup demo_envs demo_site r ''GET'' ''/x/1'' lazy = Some (Inr (Some (demo_handled, False), if lazy then [] else [''1'']))"
  if "rq_Host r = ''example.com''"
proof -
  let ?E = "env_at demo_envs r ''GET'' ''/x/1'' lazy"
  have E: "lookup_ok ?E demo_serves" "lk_lazy ?E = lazy"
    using demo_site_ok by (auto simp: lookup_ok_def serving_ok_def envs_ok_def env_at_def)
  have tree: "tree_inv (\<lambda>_. rpattern demo_handled) demo_site" "plain_tree (it_patterns demo_site)" "by_path demo_site (rq_Host r)"
    using demo_site_ok that by (simp_all add: serving_ok_def)
  have args: "pa_root (tree_args demo_site ''/x/1'') = it_patterns demo_site"
      "pa_stackOffset (tree_args demo_site ''/x/1'')
        = length ([] :: (unit, (bool, unit, unit, unit) payload) route skipNode list)"
    by (simp_all add: tree_args_def)
  have ref: "ref_of ?E (tree_args demo_site ''/x/1'')
      = ref_of demo_env (tree_args demo_site ''/x/1'')"
    by (simp add: ref_of_def env_at_def demo_envs_def demo_env_def)
  have "map_option (\<lambda>(i, n, tsr, vs). (nroutes n ! i, tsr, vs))
      (ref (ref_of demo_env (tree_args demo_site ''/x/1'')) None (it_patterns demo_site) 0) = Some (demo_handled, False, [''1''])"
    by code_simp
  then obtain i n where hit: "ref (ref_of ?E (tree_args demo_site ''/x/1'')) None (it_patterns demo_site) 0 = Some (i, n, False, [''1''])"
      "nroutes n ! i = demo_handled"
    unfolding ref by auto
  have "walk_ok (pa_root (tree_args demo_site ''/x/1''))" unfolding args(1) by (rule tree_walk_ok [OF tree(1,2)])
  from lookupByPath_facts [OF E(1) this args(2) empty_fine, of "[]"]
  show ?thesis unfolding args(1) by (auto simp: tree_lookup_def lookup_by_path [OF tree(3)] hit E(2))
qed

text \<open>
  C9. A request that reaches \<open>ServeHTTP\<close> with a method ends in a handler that sees the message of the caller (its
  method, host, headers and query) with a URL whose routing path needs no rewriting, and whose pattern is the
  pattern of the matched route, or empty without a route. Of the caller's own request only the pattern changes,
  also when the path was rewritten twice.
\<close>

theorem ServeHTTP_request:
  assumes "ServeHTTP env cf order t orig = Some (Inr (Invoke h c allow, q))" "rq_Method orig \<noteq> ''''"
    "cf_hasNormalize cf \<Longrightarrow> servable (fst (routingPath orig))"
  shows "sv_orig q = orig\<lparr>rq_Pattern := rq_Pattern (cx_req c)\<rparr> \<and> same_message orig (cx_req c)
    \<and> \<not> snd (routingPath (cx_req c))
    \<and> (case cx_route c of
         None \<Rightarrow> cx_params c = [] \<and> cx_scope c \<noteq> RouteHandler \<and> (cx_scope c \<noteq> RejectPathHandler \<longrightarrow> rq_Pattern (cx_req c) = '''')
       | Some r \<Rightarrow> cx_scope c = RouteHandler \<and> rq_Pattern (cx_req c) = pstr (rpattern r))"
  using ServeHTTP_reply [OF assms] by (auto simp: reply_ok_def req_ok_def split: option.splits)

definition demo_run_context :: "(unit, (bool, unit, unit, unit) payload) Context" where
  "demo_run_context = \<lparr>cx_req = (demo_request ''/x/1'')\<lparr>rq_Pattern := ''/x/{a}''\<rparr>, cx_params = [''1''],
     cx_route = Some demo_handled, cx_scope = RouteHandler\<rparr>"

lemma demo_serve_run:
  "ServeHTTP demo_envs demo_merging [''GET''] demo_site (demo_request ''/x//1'')
   = Some (Inr (Invoke True demo_run_context None,
       \<lparr>sv_orig = (demo_request ''/x//1'')\<lparr>rq_Pattern := ''/x/{a}''\<rparr>, sv_copy = Some (cx_req demo_run_context)\<rparr>))"
proof -
  let ?q = "\<lparr>sv_orig = demo_request ''/x//1'', sv_copy = Some (demo_request ''/x/1'')\<rparr>"
  have path: "routingPath (demo_request ''/x//1'') = (''/x//1'', False)" by code_simp
  have norm: "cf_hasNormalize demo_merging" "\<not> cf_hasRedirectPath demo_merging" by code_simp+
  have norm2: "normalizeRoutingPath demo_merging ''/x//1'' = Some ''/x/1''" by code_simp
  have "PathUnescape ''/x/1'' = Some ''/x/1''" "EscapePath ''/x/1'' = ''/x/1''" by code_simp+
  then have rewrite: "rewriteRequest ''/x/1'' False \<lparr>sv_orig = demo_request ''/x//1'', sv_copy = None\<rparr> = ?q"
    by (simp add: rewriteRequest_def cur_def set_cur_def demo_request_def)
  have m: "rq_Method (demo_request p) = ''GET''" "rq_Host (demo_request p) = ''example.com''" for p by (simp_all add: demo_request_def)
  have cur: "cur ?q = demo_request ''/x/1''" "cur \<lparr>sv_orig = r, sv_copy = None\<rparr> = r" for r by (simp_all add: cur_def)
  have "serve_match demo_envs demo_merging [''GET''] demo_site ''/x/1'' True ?q
      = Some (Inr (Invoke True demo_run_context None,
       \<lparr>sv_orig = (demo_request ''/x//1'')\<lparr>rq_Pattern := ''/x/{a}''\<rparr>, sv_copy = Some (cx_req demo_run_context)\<rparr>))"
    using demo_site_lookup [of "demo_request ''/x/1''" False]
    by (simp add: serve_match_def Let_def cur m call_route_def cur_pattern)
      (simp add: demo_handled_def demo_run_context_def set_pattern_def cur_def)
  then show ?thesis
    by (simp add: ServeHTTP_def serve_normalized_def Let_def path norm norm2 rewrite m cur MethodConnect_def)
qed

theorem ServeHTTP_request_witness:
  "same_message (demo_request ''/x//1'') (cx_req demo_run_context) \<and> \<not> snd (routingPath (cx_req demo_run_context))
   \<and> u_Path (rq_URL (cx_req demo_run_context)) = ''/x/1''"
proof -
  have s: "servable (fst (routingPath (demo_request ''/x//1'')))" by code_simp
  have m: "rq_Method (demo_request ''/x//1'') \<noteq> ''''" by (simp add: demo_request_def)
  have "u_Path (rq_URL (cx_req demo_run_context)) = ''/x/1''" by (simp add: demo_run_context_def demo_request_def)
  with ServeHTTP_request [OF demo_serve_run m s] show ?thesis by simp
qed

subsection \<open>The Allow header\<close>

text \<open>The lookup of the method ends in a route the loop over the methods counts, and \<open>m\<close> is one of its methods.\<close>

definition usable :: "string \<Rightarrow> ('c, 'h) route \<Rightarrow> bool \<Rightarrow> bool" where
  "usable method route tsr \<longleftrightarrow> \<not> tsr \<or> method \<noteq> MethodConnect \<and> rhandleSlash route = RelaxedSlash"

definition allowed ::
  "('c, 'h, 'e) lookup_envs \<Rightarrow> ('c, 'h) iTree \<Rightarrow> request \<Rightarrow> string \<Rightarrow> string \<Rightarrow> string \<Rightarrow> bool" where
  "allowed env t r path method m \<longleftrightarrow>
     (\<exists>route tsr vs params. tree_lookup env t r method path True = Some (Inr (Some (route, tsr), params))
        \<and> lookup_result (request_ref env t r method path True) t (Some (route, tsr, vs))
        \<and> usable method route tsr \<and> m \<in> set (rmethods route))"

lemma see_methods_facts: "set (see_methods ms seen) = set seen \<union> set ms" "distinct seen \<Longrightarrow> distinct (see_methods ms seen)"
proof -
  have "set (see_methods ms seen) = set seen \<union> set ms \<and> (distinct seen \<longrightarrow> distinct (see_methods ms seen))"
    unfolding see_methods_def by (induction ms arbitrary: seen) auto
  then show "set (see_methods ms seen) = set seen \<union> set ms" "distinct seen \<Longrightarrow> distinct (see_methods ms seen)" by auto
qed

lemma seen_methods_facts:
  assumes "serving_ok env serves pat t (rq_Host r)" "'''' \<notin> set order" "seen_methods env t r path order seen0 = Some (Inr seen)"
  shows "set seen0 \<subseteq> set seen" "distinct seen0 \<Longrightarrow> distinct seen"
    and "m \<in> set seen \<Longrightarrow> m \<notin> set seen0 \<Longrightarrow> \<exists>method \<in> set order. allowed env t r path method m"
    and "method \<in> set order \<Longrightarrow> allowed env t r path method method \<Longrightarrow> method \<in> set seen"
proof -
  have "set seen0 \<subseteq> set seen \<and> (distinct seen0 \<longrightarrow> distinct seen)
    \<and> (\<forall>m \<in> set seen - set seen0. \<exists>method \<in> set order. allowed env t r path method m)
    \<and> (\<forall>method \<in> set order. allowed env t r path method method \<longrightarrow> method \<in> set seen)"
    using assms(2,3)
  proof (induction order arbitrary: seen0)
    case (Cons m ms)
    show ?case
    proof (cases "m \<in> set seen0")
      case True
      with Cons.prems have "set seen0 \<subseteq> set seen \<and> (distinct seen0 \<longrightarrow> distinct seen)
          \<and> (\<forall>m \<in> set seen - set seen0. \<exists>method \<in> set ms. allowed env t r path method m)
          \<and> (\<forall>method \<in> set ms. allowed env t r path method method \<longrightarrow> method \<in> set seen)"
        by (intro Cons.IH) simp_all
      with True show ?thesis by auto
    next
      case False
      have "m \<noteq> ''''" using Cons.prems(1) by auto
      from tree_lookup_facts [OF assms(1) this, of path True] obtain res params where
        l: "tree_lookup env t r m path True = Some (Inr (map_option (\<lambda>(r, tsr, vs). (r, tsr)) res, params))"
          "lookup_result (request_ref env t r m path True) t res"
        by metis
      define add where "add = (case res of Some (route, tsr, vs) \<Rightarrow> if usable m route tsr then rmethods route else [] | None \<Rightarrow> [])"
      have step: "seen_methods env t r path ms (see_methods add seen0) = Some (Inr seen)"
        using Cons.prems(2) False l(1)
        by (cases res) (auto simp: add_def see_methods_def usable_def split: if_splits)
      have new: "allowed env t r path m x \<longleftrightarrow> x \<in> set add" for x
        using l by (cases res) (auto simp: allowed_def add_def)
      from Cons.prems(1) have "'''' \<notin> set ms" by simp
      from Cons.IH [OF this step] new show ?thesis by (auto simp: see_methods_facts)
    qed
  qed simp
  then show "set seen0 \<subseteq> set seen" "distinct seen0 \<Longrightarrow> distinct seen"
    and "m \<in> set seen \<Longrightarrow> m \<notin> set seen0 \<Longrightarrow> \<exists>method \<in> set order. allowed env t r path method m"
    and "method \<in> set order \<Longrightarrow> allowed env t r path method method \<Longrightarrow> method \<in> set seen"
    by blast+
qed



end
