(* ===== verification/Response.thy ===== *)
theory Response
  imports Serve
begin

text \<open>
  The response: the recorder that \<open>ServeHTTP\<close> wraps around the response writer (\<open>response_writer.go\<close>), and the
  redirect handlers of \<open>fox.go\<close> that write through it. The wrapped writer is an argument: what it answers may
  depend on the calls it has seen, which the recorder of the model keeps in order.
\<close>

subsection \<open>The recorder\<close>

text \<open>The calls the wrapped writer completed; a write with the number of bytes it accepted.\<close>

datatype event = EvHeader nat | EvWrite string nat | EvFlush | EvHijack

text \<open>
  How the wrapped writer behaves: whether \<open>WriteHeader\<close> panics on a code, how many bytes \<open>Write\<close> accepts and its
  error, whether a hijack succeeds, and the chain of writers that \<open>Unwrap\<close> leads through: each one a flusher with
  its error, or a plain writer.
\<close>

record under =
  un_panics :: "event list \<Rightarrow> nat \<Rightarrow> bool"
  un_write :: "event list \<Rightarrow> string \<Rightarrow> nat \<times> string option"
  un_hijack :: "event list \<Rightarrow> string option"
  un_chain :: "(event list \<Rightarrow> string option) option list"

record recorder =
  rec_size :: int
  rec_status :: nat
  rec_hijacked :: bool
  rec_header :: "string \<rightharpoonup> string list"
  rec_log :: "event list"

datatype 'a ret = Ret 'a | Panic

definition notWritten :: int where "notWritten = - 1"

definition rec_reset :: "(string \<rightharpoonup> string list) \<Rightarrow> recorder" where
  "rec_reset h = \<lparr>rec_size = notWritten, rec_status = 200, rec_hijacked = False, rec_header = h, rec_log = []\<rparr>"

definition Status :: "recorder \<Rightarrow> nat" where "Status r = rec_status r"

definition Written :: "recorder \<Rightarrow> bool" where "Written r \<longleftrightarrow> rec_size r \<noteq> notWritten"

definition Size :: "recorder \<Rightarrow> int" where "Size r = (if rec_size r < 0 then 0 else rec_size r)"

definition informational :: "nat \<Rightarrow> bool" where
  "informational code \<longleftrightarrow> 100 \<le> code \<and> code \<le> 199 \<and> code \<noteq> 101"

definition WriteHeader :: "under \<Rightarrow> nat \<Rightarrow> recorder \<Rightarrow> recorder \<times> unit ret" where
  "WriteHeader U code r =
     (if rec_hijacked r then (r, Ret ())
      else if rec_size r \<noteq> notWritten then (r, Ret ())
      else if informational code then
        (if un_panics U (rec_log r) code then (r, Panic)
         else (r\<lparr>rec_log := rec_log r @ [EvHeader code]\<rparr>, Ret ()))
      else if un_panics U (rec_log r) code then (r, Panic)
      else (r\<lparr>rec_log := rec_log r @ [EvHeader code], rec_size := 0, rec_status := code\<rparr>, Ret ()))"

text \<open>\<open>Write\<close> and \<open>WriteString\<close>: the number of bytes written and the error.\<close>

definition ErrHijacked :: string where "ErrHijacked = ''http: connection has been hijacked''"

definition Write :: "under \<Rightarrow> string \<Rightarrow> recorder \<Rightarrow> recorder \<times> (nat \<times> string option) ret" where
  "Write U buf r =
     (if rec_hijacked r then (r, Ret (0, Some ErrHijacked))
      else
        let first = (rec_size r = notWritten);
            r = (if first then r\<lparr>rec_size := 0\<rparr> else r)
        in if first \<and> un_panics U (rec_log r) (rec_status r) then (r, Panic)
           else
             let r = (if first then r\<lparr>rec_log := rec_log r @ [EvHeader (rec_status r)]\<rparr> else r);
                 (n, err) = un_write U (rec_log r) buf
             in (r\<lparr>rec_log := rec_log r @ [EvWrite buf n], rec_size := rec_size r + int n\<rparr>, Ret (n, err)))"

definition WriteString :: "under \<Rightarrow> string \<Rightarrow> recorder \<Rightarrow> recorder \<times> (nat \<times> string option) ret" where
  "WriteString U s r = Write U s r"

text \<open>The walk to the first flusher; \<open>None\<close> of the result is nil.\<close>

definition ErrNotSupported :: string where "ErrNotSupported = ''feature not supported''"

fun flush_chain :: "under \<Rightarrow> (event list \<Rightarrow> string option) option list \<Rightarrow> recorder \<Rightarrow> recorder \<times> (string option) ret" where
  "flush_chain U [] r = (r, Ret (Some ErrNotSupported))"
| "flush_chain U (None # ws) r = flush_chain U ws r"
| "flush_chain U (Some fl # ws) r =
     (case (if rec_size r = notWritten then WriteHeader U (rec_status r) r else (r, Ret ())) of
        (r, Panic) \<Rightarrow> (r, Panic)
      | (r, Ret _) \<Rightarrow> (r\<lparr>rec_log := rec_log r @ [EvFlush]\<rparr>, Ret (fl (rec_log r))))"

definition FlushError :: "under \<Rightarrow> recorder \<Rightarrow> recorder \<times> (string option) ret" where
  "FlushError U r = flush_chain U (un_chain U) r"

definition Hijack :: "under \<Rightarrow> recorder \<Rightarrow> recorder \<times> (string option) ret" where
  "Hijack U r =
     (case un_hijack U (rec_log r) of
        None \<Rightarrow> (r\<lparr>rec_hijacked := True, rec_size := 0, rec_log := rec_log r @ [EvHijack]\<rparr>, Ret None)
      | Some err \<Rightarrow> (r, Ret (Some err)))"

text \<open>What a handler may do with the recorder.\<close>

inductive rec_step :: "under \<Rightarrow> recorder \<Rightarrow> recorder \<Rightarrow> bool" for U where
  step_header: "rec_step U r (fst (WriteHeader U code r))"
| step_write: "rec_step U r (fst (Write U buf r))"
| step_string: "rec_step U r (fst (WriteString U buf r))"
| step_flush: "rec_step U r (fst (FlushError U r))"
| step_hijack: "rec_step U r (fst (Hijack U r))"
| step_set: "rec_step U r (r\<lparr>rec_header := h\<rparr>)"

subsection \<open>Redirects\<close>

definition lowerhex :: string where "lowerhex = ''0123456789abcdef''"

text \<open>\<open>strconv.AppendInt\<close> in base 16, for a byte of at least \<open>0x80\<close>.\<close>

definition append_hex :: "char \<Rightarrow> string" where
  "append_hex c = [lowerhex ! (of_char c div 16), lowerhex ! (of_char c mod 16)]"

definition RuneSelf :: nat where "RuneSelf = 0x80"

text \<open>The copy of \<open>hexEscapeNonASCII\<close>, from \<open>i\<close> on, with the bytes from \<open>pos\<close> not copied yet.\<close>

function hexEscape_loop :: "string \<Rightarrow> nat \<Rightarrow> nat \<Rightarrow> string \<Rightarrow> string" where
  "hexEscape_loop s i pos b =
     (if i < length s then
        (if RuneSelf \<le> of_char (s ! i)
         then hexEscape_loop s (i + 1) (i + 1) ((if pos < i then b @ slice s pos i else b) @ ''%'' @ append_hex (s ! i))
         else hexEscape_loop s (i + 1) pos b)
      else if pos < length s then b @ drop pos s else b)"
  by pat_completeness auto
termination by (relation "measure (\<lambda>(s, i, pos, b). length s - i)") auto

declare hexEscape_loop.simps [simp del]

definition hexEscapeNonASCII :: "string \<Rightarrow> string" where
  "hexEscapeNonASCII s =
     (let newLen = sum_list (map (\<lambda>c. if RuneSelf \<le> of_char c then 3 else 1 :: nat) s)
      in if newLen = length s then s else hexEscape_loop s 0 0 [])"

text \<open>\<open>strings.NewReplacer\<close> on single bytes replaces byte by byte.\<close>

definition html_byte :: "char \<Rightarrow> string" where
  "html_byte c =
     (if c = CHR ''&'' then ''&amp;'' else if c = CHR ''<'' then ''&lt;'' else if c = CHR ''>'' then ''&gt;''
      else if c = CHR 0x22 then ''&#34;'' else if c = CHR 0x27 then ''&#39;'' else [c])"

definition htmlEscape :: "string \<Rightarrow> string" where
  "htmlEscape s = concat (map html_byte s)"

definition StatusText :: "nat \<Rightarrow> string" where
  "StatusText code = (if code = 301 then ''Moved Permanently'' else if code = 308 then ''Permanent Redirect'' else '''')"

text \<open>The headers of a redirect.\<close>

definition redirect_headers :: "request \<Rightarrow> string \<Rightarrow> recorder \<Rightarrow> recorder" where
  "redirect_headers req url w =
     (let hadCT = (rec_header w ''Content-Type'' \<noteq> None);
          w = w\<lparr>rec_header := (rec_header w)(''Location'' \<mapsto> [hexEscapeNonASCII url])\<rparr>
      in if \<not> hadCT \<and> (rq_Method req = MethodGet \<or> rq_Method req = MethodHead)
         then w\<lparr>rec_header := (rec_header w)(''Content-Type'' \<mapsto> [''text/html; charset=utf-8''])\<rparr> else w)"

definition redirect_body :: "string \<Rightarrow> nat \<Rightarrow> string" where
  "redirect_body url code =
     ''<a href='' @ [CHR 0x22] @ htmlEscape url @ [CHR 0x22] @ ''>'' @ StatusText code @ ''</a>.'' @ [CHR 0x0A]"

definition redirect :: "under \<Rightarrow> request \<Rightarrow> string \<Rightarrow> nat \<Rightarrow> recorder \<Rightarrow> recorder \<times> unit ret" where
  "redirect U req url code w =
     (let url = (if url = '''' then ''/'' else url);
          hadCT = (rec_header w ''Content-Type'' \<noteq> None)
      in case WriteHeader U code (redirect_headers req url w) of
           (w, Panic) \<Rightarrow> (w, Panic)
         | (w, Ret _) \<Rightarrow>
             if \<not> hadCT \<and> rq_Method req = MethodGet then
               (case Write U (redirect_body url code @ [CHR 0x0A]) w of
                  (w, Panic) \<Rightarrow> (w, Panic)
                | (w, Ret _) \<Rightarrow> (w, Ret ()))
             else (w, Ret ()))"

definition redirect_code :: "request \<Rightarrow> nat" where
  "redirect_code req = (if rq_Method req \<noteq> MethodGet then 308 else 301)"

definition with_query :: "request \<Rightarrow> string \<Rightarrow> string" where
  "with_query req path = (let q = u_RawQuery (rq_URL req) in if q \<noteq> '''' then path @ ''?'' @ q else path)"

text \<open>The handlers, on the request of the context.\<close>

definition trailing_slash_handler :: "under \<Rightarrow> request \<Rightarrow> recorder \<Rightarrow> recorder \<times> unit ret" where
  "trailing_slash_handler U req w =
     redirect U req (with_query req (escapeLeadingSlashes (fixTrailingSlash (fst (routingPath req))))) (redirect_code req) w"

definition path_redirect_handler :: "under \<Rightarrow> ('hf, 'ip) config \<Rightarrow> request \<Rightarrow> recorder \<Rightarrow> recorder \<times> unit ret" where
  "path_redirect_handler U cf req w =
     (let target = (case normalizeRoutingPath cf (fst (routingPath req)) of None \<Rightarrow> '''' | Some p \<Rightarrow> p)
      in redirect U req (with_query req (escapeLeadingSlashes target)) (redirect_code req) w)"

subsection \<open>The invariant of the recorder\<close>

text \<open>
  The log of an open response: the informational headers, then the header of the status, then writes and
  flushes, as long as the connection was not hijacked.
\<close>

fun is_info :: "event \<Rightarrow> bool" where
  "is_info (EvHeader code) \<longleftrightarrow> informational code"
| "is_info _ \<longleftrightarrow> False"

fun is_body :: "event \<Rightarrow> bool" where
  "is_body (EvHeader code) \<longleftrightarrow> False"
| "is_body EvHijack \<longleftrightarrow> False"
| "is_body _ \<longleftrightarrow> True"

fun accepted :: "event \<Rightarrow> nat" where
  "accepted (EvWrite s n) = n"
| "accepted _ = 0"

definition body_size :: "event list \<Rightarrow> nat" where
  "body_size es = sum_list (map accepted es)"

lemma body_size_simps [simp]: "body_size [] = 0" "body_size (e # es) = accepted e + body_size es"
  "body_size (xs @ ys) = body_size xs + body_size ys"
  by (simp_all add: body_size_def)

definition rec_ok :: "recorder \<Rightarrow> bool" where
  "rec_ok r \<longleftrightarrow>
     (if rec_hijacked r then rec_size r = 0
      else if rec_size r = notWritten then rec_status r = 200 \<and> list_all is_info (rec_log r)
      else \<exists>infos body. list_all is_info infos \<and> list_all is_body body
             \<and> rec_log r = infos @ EvHeader (rec_status r) # body \<and> \<not> informational (rec_status r)
             \<and> rec_size r = int (body_size body))"

text \<open>The contract of the wrapped writer: \<open>WriteHeader\<close> of \<open>net/http\<close> panics on codes of other than three digits only.\<close>

definition under_ok :: "under \<Rightarrow> bool" where
  "under_ok U \<longleftrightarrow> (\<forall>log code. 100 \<le> code \<and> code \<le> 999 \<longrightarrow> \<not> un_panics U log code)"

lemma rec_ok_reset: "rec_ok (rec_reset h)"
  by (simp add: rec_ok_def rec_reset_def)

lemma rec_okI:
  assumes "\<not> rec_hijacked r" "list_all is_info infos" "list_all is_body body"
    "rec_log r = infos @ EvHeader (rec_status r) # body" "\<not> informational (rec_status r)" "rec_size r = int (body_size body)"
  shows "rec_ok r"
  using assms by (auto simp: rec_ok_def notWritten_def)

lemma rec_ok_header: "rec_ok r \<Longrightarrow> rec_ok (fst (WriteHeader U code r))"
proof -
  assume r: "rec_ok r"
  show ?thesis
  proof (cases "rec_hijacked r \<or> rec_size r \<noteq> notWritten \<or> informational code \<or> un_panics U (rec_log r) code")
    case True
    with r show ?thesis by (auto simp: WriteHeader_def rec_ok_def)
  next
    case False
    then have "fst (WriteHeader U code r) = r\<lparr>rec_log := rec_log r @ [EvHeader code], rec_size := 0, rec_status := code\<rparr>"
      by (simp add: WriteHeader_def)
    with False r show ?thesis
      by (intro rec_okI [of _ "rec_log r" "[]"]) (auto simp: rec_ok_def)
  qed
qed

lemma not_info_200: "\<not> informational 200"
  by (simp add: informational_def)

lemma rec_ok_write:
  assumes "under_ok U" "rec_ok r"
  shows "rec_ok (fst (Write U buf r))"
proof (cases "rec_hijacked r")
  case False
  show ?thesis
  proof (cases "rec_size r = notWritten")
    case True
    with False assms(2) have r: "rec_status r = 200" "list_all is_info (rec_log r)" by (simp_all add: rec_ok_def)
    obtain n err where w: "un_write U (rec_log r @ [EvHeader 200]) buf = (n, err)" by fastforce
    have "fst (Write U buf r) = r\<lparr>rec_size := int n, rec_log := (rec_log r @ [EvHeader 200]) @ [EvWrite buf n]\<rparr>"
      using assms(1) True False w r(1) by (simp add: Write_def under_ok_def Let_def)
    with False r not_info_200 show ?thesis
      by (intro rec_okI [of _ "rec_log r" "[EvWrite buf n]"]) auto
  next
    case written: False
    with False assms(2) obtain infos body where r: "list_all is_info infos" "list_all is_body body"
        "rec_log r = infos @ EvHeader (rec_status r) # body" "\<not> informational (rec_status r)" "rec_size r = int (body_size body)"
      by (auto simp: rec_ok_def)
    obtain n err where w: "un_write U (rec_log r) buf = (n, err)" by fastforce
    have "fst (Write U buf r) = r\<lparr>rec_log := rec_log r @ [EvWrite buf n], rec_size := rec_size r + int n\<rparr>"
      using written False w by (simp add: Write_def Let_def)
    with False r show ?thesis
      by (intro rec_okI [of _ infos "body @ [EvWrite buf n]"]) auto
  qed
qed (use assms in \<open>simp add: Write_def\<close>)

lemma rec_ok_flushed:
  assumes "rec_ok r" "rec_hijacked r \<or> rec_size r \<noteq> notWritten"
  shows "rec_ok (r\<lparr>rec_log := rec_log r @ [EvFlush]\<rparr>)"
proof (cases "rec_hijacked r")
  case False
  with assms obtain infos body where "list_all is_info infos" "list_all is_body body"
      "rec_log r = infos @ EvHeader (rec_status r) # body" "\<not> informational (rec_status r)" "rec_size r = int (body_size body)"
    by (auto simp: rec_ok_def)
  with False show ?thesis by (intro rec_okI [of _ infos "body @ [EvFlush]"]) auto
qed (use assms in \<open>simp add: rec_ok_def\<close>)

lemma rec_ok_flush:
  assumes "under_ok U" "rec_ok r"
  shows "rec_ok (fst (flush_chain U ws r))"
proof (induction ws)
  case (Cons w ws)
  show ?case
  proof (cases w)
    case (Some fl)
    show ?thesis
    proof (cases "rec_size r = notWritten")
      case True
      with assms have r: "\<not> rec_hijacked r" "rec_status r = 200" by (auto simp: rec_ok_def notWritten_def split: if_splits)
      let ?r = "r\<lparr>rec_log := rec_log r @ [EvHeader 200], rec_size := 0, rec_status := 200\<rparr>"
      have wh: "WriteHeader U (rec_status r) r = (?r, Ret ())"
        using True r assms(1) not_info_200 by (simp add: WriteHeader_def under_ok_def)
      have "rec_ok ?r" using rec_ok_header [OF assms(2), of U "rec_status r"] wh by simp
      then have "rec_ok (?r\<lparr>rec_log := rec_log ?r @ [EvFlush]\<rparr>)"
        by (rule rec_ok_flushed) (simp add: notWritten_def)
      with Some True wh show ?thesis by simp
    next
      case False
      with Some rec_ok_flushed [OF assms(2)] show ?thesis by simp
    qed
  qed (use Cons in simp)
qed (use assms in simp)

lemma rec_ok_hijack: "rec_ok r \<Longrightarrow> rec_ok (fst (Hijack U r))"
  by (auto simp: Hijack_def rec_ok_def split: option.splits)

lemma rec_ok_set: "rec_ok (r\<lparr>rec_header := h\<rparr>) \<longleftrightarrow> rec_ok r"
  by (simp add: rec_ok_def)

lemma rec_step_ok: "rec_step U r r' \<Longrightarrow> under_ok U \<Longrightarrow> rec_ok r \<Longrightarrow> rec_ok r'"
  by (induction rule: rec_step.induct)
    (simp_all add: rec_ok_header rec_ok_write rec_ok_flush rec_ok_hijack rec_ok_set FlushError_def WriteString_def)



subsection \<open>The location of a redirect\<close>

definition escape_non_ascii :: "char \<Rightarrow> string" where
  "escape_non_ascii c = (if RuneSelf \<le> of_char c then ''%'' @ append_hex c else [c])"

definition ascii :: "char \<Rightarrow> bool" where "ascii c \<longleftrightarrow> of_char c < RuneSelf"

lemma hexEscape_loop_spec:
  assumes "pos \<le> i" "i \<le> length s" "\<forall>k. pos \<le> k \<longrightarrow> k < i \<longrightarrow> ascii (s ! k)"
  shows "hexEscape_loop s i pos b = b @ slice s pos i @ concat (map escape_non_ascii (drop i s))"
  using assms
proof (induction s i pos b rule: hexEscape_loop.induct)
  case (1 s i pos b)
  show ?case
  proof (cases "i < length s")
    case False
    with "1.prems" have "i = length s" by simp
    then show ?thesis by (subst hexEscape_loop.simps) (simp add: slice_def)
  next
    case True
    then have d: "drop i s = s ! i # drop (i + 1) s" by (simp add: Cons_nth_drop_Suc)
    show ?thesis
    proof (cases "RuneSelf \<le> of_char (s ! i)")
      case high: True
      have "(if pos < i then b @ slice s pos i else b) = b @ slice s pos i"
        using "1.prems"(1) by (simp add: slice_def)
      moreover have "escape_non_ascii (s ! i) = ''%'' @ append_hex (s ! i)" using high by (simp add: escape_non_ascii_def)
      ultimately show ?thesis using "1.IH"(1) [OF True high] True high d
        by (subst hexEscape_loop.simps) (simp add: slice_def)
    next
      case low: False
      then have "\<forall>k. pos \<le> k \<longrightarrow> k < i + 1 \<longrightarrow> ascii (s ! k)" using "1.prems"(3) by (auto simp: ascii_def less_Suc_eq)
      moreover have "slice s pos (i + 1) = slice s pos i @ [s ! i]"
        using True "1.prems"(1) by (simp add: slice_def Suc_diff_le take_Suc_conv_app_nth)
      moreover have "escape_non_ascii (s ! i) = [s ! i]" using low by (simp add: escape_non_ascii_def)
      ultimately show ?thesis using "1.IH"(2) [OF True low] True low d "1.prems"
        by (subst hexEscape_loop.simps) simp
    qed
  qed
qed

lemma hexEscape_spec: "hexEscapeNonASCII s = concat (map escape_non_ascii s)"
proof (cases "\<forall>c \<in> set s. ascii c")
  case True
  then have "concat (map escape_non_ascii s) = s" by (induction s) (auto simp: escape_non_ascii_def ascii_def)
  moreover from True have "sum_list (map (\<lambda>c. if RuneSelf \<le> of_char c then 3 else 1 :: nat) s) = length s"
    by (induction s) (auto simp: ascii_def)
  ultimately show ?thesis by (simp add: hexEscapeNonASCII_def)
next
  case False
  have ge: "sum_list (map (\<lambda>c. if RuneSelf \<le> of_char c then 3 else 1 :: nat) t) \<ge> length t" for t :: string
    by (induction t) auto
  from False obtain u c v where s: "s = u @ c # v" "\<not> ascii c" by (meson split_list)
  have "sum_list (map (\<lambda>c. if RuneSelf \<le> of_char c then 3 else 1 :: nat) s) \<noteq> length s"
    using ge [of u] ge [of v] s by (simp add: ascii_def)
  then show ?thesis using hexEscape_loop_spec [of 0 0 s "[]"] by (simp add: hexEscapeNonASCII_def slice_def)
qed

lemma lowerhex_ascii: "i < 16 \<Longrightarrow> ascii (lowerhex ! i)"
proof -
  assume "i < 16"
  then have "lowerhex ! i \<in> set lowerhex" by (intro nth_mem) (simp add: lowerhex_def)
  moreover have "\<forall>c \<in> set lowerhex. ascii c" by (simp add: lowerhex_def ascii_def RuneSelf_def)
  ultimately show ?thesis by blast
qed

lemma escape_non_ascii_ascii: "list_all ascii (escape_non_ascii c)"
proof -
  have "val c div 16 < 16" by (intro less_mult_imp_div_less) simp
  then show ?thesis using lowerhex_ascii [of "of_char c div 16"] lowerhex_ascii [of "of_char c mod 16"]
    by (auto simp: escape_non_ascii_def append_hex_def ascii_def RuneSelf_def)
qed

lemma hexEscape_ascii: "list_all ascii (hexEscapeNonASCII s)"
  by (simp add: hexEscape_spec list_all_iff) (use escape_non_ascii_ascii in \<open>auto simp: list_all_iff\<close>)

lemma hexEscape_not_relative:
  assumes "\<not> protocol_relative s" "2 \<le> length s"
  shows "\<not> protocol_relative (hexEscapeNonASCII (s @ t))"
proof -
  from assms(2) obtain a b r where s: "s = a # b # r" by (metis Suc_le_length_iff numeral_2_eq_2)
  with assms(1) show ?thesis
    by (cases "RuneSelf \<le> of_char a"; cases "RuneSelf \<le> of_char b")
      (auto simp: hexEscape_spec escape_non_ascii_def protocol_relative_def)
qed

lemma redirect_facts:
  assumes "under_ok U" "\<not> Written w" "\<not> rec_hijacked w" "code = 301 \<or> code = 308" "url \<noteq> ''''"
  shows "snd (redirect U req url code w) = Ret ()" "Status (fst (redirect U req url code w)) = code"
    and "Written (fst (redirect U req url code w))"
    and "rec_header (fst (redirect U req url code w)) ''Location'' = Some [hexEscapeNonASCII url]"
proof -
  let ?ct = "rec_header w ''Content-Type'' \<noteq> None"
  define w2 where "w2 = redirect_headers req url w"
  define w3 where "w3 = w2\<lparr>rec_log := rec_log w2 @ [EvHeader code], rec_size := 0, rec_status := code\<rparr>"
  have w2: "rec_header w2 ''Location'' = Some [hexEscapeNonASCII url]" "rec_size w2 = notWritten" "\<not> rec_hijacked w2"
    using assms(2,3) by (simp_all add: w2_def redirect_headers_def Written_def Let_def)
  have "\<not> informational code" "100 \<le> code \<and> code \<le> 999" using assms(4) by (auto simp: informational_def)
  with w2 assms(1) have wh: "WriteHeader U code w2 = (w3, Ret ())"
    by (simp add: WriteHeader_def under_ok_def w3_def)
  have w3: "rec_header w3 ''Location'' = Some [hexEscapeNonASCII url]" "rec_size w3 = 0" "rec_status w3 = code" "\<not> rec_hijacked w3"
    using w2 by (simp_all add: w3_def)
  have wr: "\<exists>n err k. Write U body w3 = (w3\<lparr>rec_log := rec_log w3 @ [EvWrite body n], rec_size := k\<rparr>, Ret (n, err)) \<and> k \<ge> 0" for body
    using w3 by (cases "un_write U (rec_log w3) body") (auto simp: Write_def notWritten_def Let_def)
  have run: "redirect U req url code w = (if \<not> ?ct \<and> rq_Method req = MethodGet
      then (case Write U (redirect_body url code @ [CHR 0x0A]) w3 of (w, Panic) \<Rightarrow> (w, Panic) | (w, Ret _) \<Rightarrow> (w, Ret ()))
      else (w3, Ret ()))"
    using assms(5) wh unfolding redirect_def Let_def w2_def by simp
  from wr [of "redirect_body url code @ [CHR 0x0A]"]
  show "snd (redirect U req url code w) = Ret ()" "Status (fst (redirect U req url code w)) = code"
    "Written (fst (redirect U req url code w))"
    "rec_header (fst (redirect U req url code w)) ''Location'' = Some [hexEscapeNonASCII url]"
    unfolding run using w3 by (auto simp: Status_def Written_def notWritten_def)
qed

lemma escapeLeadingSlashes_length: "length s \<le> length (escapeLeadingSlashes s)"
  by (auto simp: escapeLeadingSlashes_def)

lemma with_query_app: "\<exists>t. with_query req p = p @ t"
  by (simp add: with_query_def Let_def)



end
