(* ===== verification/Lru_List.thy ===== *)
theory Lru_List
  imports Prelude
begin

text \<open>
  The doubly linked list of \<open>internal/simplelru/list.go\<close>, at the level of its pointers: a ring through a sentinel,
  in a store with one map per pointer field. Address 0 is \<open>&l.root\<close>, \<open>None\<close> is nil, and the dereference of nil
  is a panic, the result \<open>None\<close> of an operation.
\<close>

subsection \<open>The store and the operations\<close>

record ('k, 'v) LruList =
  nxt :: "nat \<Rightarrow> nat option"
  prv :: "nat \<Rightarrow> nat option"
  owned :: "nat \<Rightarrow> bool"
  cell :: "nat \<rightharpoonup> 'k \<times> 'v"
  len :: int
  fresh :: nat

text \<open>The zero list and \<open>Init\<close>.\<close>

definition zero_list :: "('k, 'v) LruList" where
  "zero_list = \<lparr>nxt = (\<lambda>_. None), prv = (\<lambda>_. None), owned = (\<lambda>_. False), cell = Map.empty, len = 0, fresh = 1\<rparr>"

definition Init :: "('k, 'v) LruList \<Rightarrow> ('k, 'v) LruList" where
  "Init l = l\<lparr>nxt := (nxt l)(0 := Some 0), prv := (prv l)(0 := Some 0), len := 0\<rparr>"

definition NewList :: "('k, 'v) LruList" where "NewList = Init zero_list"

definition Length :: "('k, 'v) LruList \<Rightarrow> int" where "Length l = len l"

definition Back :: "('k, 'v) LruList \<Rightarrow> nat option" where
  "Back l = (if len l = 0 then None else prv l 0)"

definition PrevEntry :: "('k, 'v) LruList \<Rightarrow> nat \<Rightarrow> nat option" where
  "PrevEntry l e = (let p = prv l e in if owned l e \<and> p \<noteq> Some 0 then p else None)"

definition lazyInit :: "('k, 'v) LruList \<Rightarrow> ('k, 'v) LruList" where
  "lazyInit l = (if nxt l 0 = None then Init l else l)"

text \<open>The assignments shared by \<open>Remove\<close> and \<open>move\<close>, and by \<open>insert\<close> and \<open>move\<close>.\<close>

definition unlink :: "nat \<Rightarrow> ('k, 'v) LruList \<Rightarrow> ('k, 'v) LruList option" where
  "unlink e l =
     (case prv l e of
        None \<Rightarrow> None
      | Some p \<Rightarrow>
          let l = l\<lparr>nxt := (nxt l)(p := nxt l e)\<rparr> in
          (case nxt l e of
             None \<Rightarrow> None
           | Some n \<Rightarrow> Some (l\<lparr>prv := (prv l)(n := prv l e)\<rparr>)))"

definition link_after :: "nat \<Rightarrow> nat \<Rightarrow> ('k, 'v) LruList \<Rightarrow> ('k, 'v) LruList option" where
  "link_after e at l =
     (let l = l\<lparr>prv := (prv l)(e := Some at)\<rparr>;
          l = l\<lparr>nxt := (nxt l)(e := nxt l at)\<rparr>;
          l = l\<lparr>nxt := (nxt l)(at := Some e)\<rparr>
      in case nxt l e of
           None \<Rightarrow> None
         | Some n \<Rightarrow> Some (l\<lparr>prv := (prv l)(n := Some e)\<rparr>))"

definition list_insert :: "nat \<Rightarrow> nat \<Rightarrow> ('k, 'v) LruList \<Rightarrow> ('k, 'v) LruList option" where
  "list_insert e at l = map_option (\<lambda>l. l\<lparr>owned := (owned l)(e := True), len := len l + 1\<rparr>) (link_after e at l)"

text \<open>The expiry fields of an entry are not used by the cache.\<close>

definition insertValue :: "'k \<Rightarrow> 'v \<Rightarrow> nat \<Rightarrow> ('k, 'v) LruList \<Rightarrow> (nat \<times> ('k, 'v) LruList) option" where
  "insertValue k v at l =
     (let e = fresh l; l = l\<lparr>cell := (cell l)(e \<mapsto> (k, v)), fresh := e + 1\<rparr>
      in map_option (\<lambda>l. (e, l)) (list_insert e at l))"

definition list_Remove :: "nat \<Rightarrow> ('k, 'v) LruList \<Rightarrow> ('k, 'v) LruList option" where
  "list_Remove e l =
     map_option (\<lambda>l. l\<lparr>nxt := (nxt l)(e := None), prv := (prv l)(e := None), owned := (owned l)(e := False), len := len l - 1\<rparr>)
       (unlink e l)"

definition move :: "nat \<Rightarrow> nat \<Rightarrow> ('k, 'v) LruList \<Rightarrow> ('k, 'v) LruList option" where
  "move e at l = (if e = at then Some l else (case unlink e l of None \<Rightarrow> None | Some l \<Rightarrow> link_after e at l))"

definition PushFront :: "'k \<Rightarrow> 'v \<Rightarrow> ('k, 'v) LruList \<Rightarrow> (nat \<times> ('k, 'v) LruList) option" where
  "PushFront k v l = insertValue k v 0 (lazyInit l)"

definition MoveToFront :: "nat \<Rightarrow> ('k, 'v) LruList \<Rightarrow> ('k, 'v) LruList option" where
  "MoveToFront e l = (if \<not> owned l e \<or> nxt l 0 = Some e then Some l else move e 0 l)"

subsection \<open>The ring\<close>

text \<open>A list of addresses linked in both directions.\<close>

fun linked :: "('k, 'v) LruList \<Rightarrow> nat list \<Rightarrow> bool" where
  "linked l (x # y # zs) \<longleftrightarrow> nxt l x = Some y \<and> prv l y = Some x \<and> linked l (y # zs)"
| "linked l _ \<longleftrightarrow> True"

definition ring :: "('k, 'v) LruList \<Rightarrow> nat list \<Rightarrow> bool" where
  "ring l es \<longleftrightarrow> distinct (0 # es) \<and> linked l (0 # es @ [0])"

lemma linked_append: "linked l (xs @ y # ys) \<longleftrightarrow> linked l (xs @ [y]) \<and> linked l (y # ys)"
proof (induction xs)
  case (Cons x xs)
  then show ?case by (cases xs) auto
qed simp

lemma linked_frame:
  assumes "linked l xs" "\<forall>x \<in> set (butlast xs). nxt l' x = nxt l x" "\<forall>x \<in> set (tl xs). prv l' x = prv l x"
  shows "linked l' xs"
  using assms
proof (induction xs)
  case (Cons x xs)
  show ?case
  proof (cases xs)
    case xs: (Cons y zs)
    from Cons.prems have "nxt l x = Some y" "prv l y = Some x" "linked l xs" by (simp_all add: xs)
    moreover have "nxt l' x = nxt l x" "prv l' y = prv l y" using Cons.prems(2,3) by (simp_all add: xs)
    moreover have "linked l' xs"
      by (rule Cons.IH) (use Cons.prems in \<open>simp_all add: xs\<close>)
    ultimately show ?thesis by (simp add: xs)
  qed simp
qed simp

lemma linked_same: "nxt l' = nxt l \<Longrightarrow> prv l' = prv l \<Longrightarrow> linked l' xs = linked l xs"
  using linked_frame [of l xs l'] linked_frame [of l' xs l] by auto

lemma ring_same: "nxt l' = nxt l \<Longrightarrow> prv l' = prv l \<Longrightarrow> ring l' es = ring l es"
  using linked_same [of l' l "0 # es @ [0]"] unfolding ring_def by blast

lemma ring_unlink:
  assumes "ring l (us @ e # vs)"
  shows "\<exists>l'. unlink e l = Some l' \<and> ring l' (us @ vs) \<and> owned l' = owned l \<and> cell l' = cell l \<and> len l' = len l \<and> fresh l' = fresh l"
proof -
  obtain ps p where p: "0 # us = ps @ [p]" by (metis list.distinct(1) rev_exhaust)
  obtain n ns where n: "vs @ [0] = n # ns" by (cases "vs @ [0]") auto
  have d: "distinct (0 # us @ e # vs)" and lk: "linked l ((0 # us) @ e # vs @ [0])" using assms by (simp_all add: ring_def)
  from lk have lk: "linked l (ps @ p # e # n # ns)" unfolding p n by simp
  then have parts: "linked l (ps @ [p])" "nxt l p = Some e" "prv l e = Some p" "nxt l e = Some n" "prv l n = Some e" "linked l (n # ns)"
    using linked_append [of l ps p "e # n # ns"] by simp_all
  have mem: "set (ps @ [p]) = insert 0 (set us)" unfolding p [symmetric] by simp
  have memn: "set (n # ns) = insert 0 (set vs)" unfolding n [symmetric] by simp
  have "p \<in> insert 0 (set us)" "n \<in> insert 0 (set vs)" unfolding mem [symmetric] memn [symmetric] by simp_all
  then have ne: "e \<noteq> p" "e \<noteq> n" "n \<notin> set us" "p \<notin> set vs" using d by auto
  define l' where "l' = l\<lparr>nxt := (nxt l)(p := Some n), prv := (prv l)(n := Some p)\<rparr>"
  have run: "unlink e l = Some l'" using parts ne(1) by (simp add: unlink_def l'_def Let_def)
  have dp: "distinct (ps @ [p])" unfolding p [symmetric] using d by simp
  have dn: "distinct (n # ns)" unfolding n [symmetric] using d by simp
  have tl: "tl (ps @ [p]) = us" unfolding p [symmetric] by simp
  have bl: "butlast (n # ns) = vs" unfolding n [symmetric] by simp
  have "linked l' (ps @ [p])"
    by (rule linked_frame [OF parts(1)]) (use dp tl ne in \<open>auto simp: l'_def\<close>)
  moreover have "linked l' (n # ns)"
    by (rule linked_frame [OF parts(6)]) (unfold bl, use dn ne in \<open>auto simp: l'_def\<close>)
  ultimately have "linked l' (ps @ p # n # ns)" using linked_append [of l' ps p "n # ns"] by (simp add: l'_def)
  then have "linked l' ((0 # us) @ vs @ [0])" unfolding p n by simp
  with d have "ring l' (us @ vs)" by (simp add: ring_def)
  with run show ?thesis by (simp add: l'_def)
qed

lemma ring_link:
  assumes "ring l es" "e \<notin> set (0 # es)"
  shows "\<exists>l'. link_after e 0 l = Some l' \<and> ring l' (e # es) \<and> owned l' = owned l \<and> cell l' = cell l \<and> len l' = len l \<and> fresh l' = fresh l"
proof -
  obtain n ns where n: "es @ [0] = n # ns" by (cases "es @ [0]") auto
  have d: "distinct (0 # es)" and lk: "linked l (0 # n # ns)" using assms(1) n by (simp_all add: ring_def)
  define l' where "l' = l\<lparr>nxt := (nxt l)(e := Some n, 0 := Some e), prv := (prv l)(e := Some 0, n := Some e)\<rparr>"
  have mem: "set (n # ns) = insert 0 (set es)" unfolding n [symmetric] by simp
  have run: "link_after e 0 l = Some l'" using lk assms(2) by (simp add: link_after_def l'_def Let_def fun_upd_twist)
  have "n \<in> insert 0 (set es)" unfolding mem [symmetric] by simp
  then have "n \<noteq> e" using assms(2) by auto
  have dn: "distinct (n # ns)" unfolding n [symmetric] using d by simp
  have bl: "butlast (n # ns) = es" unfolding n [symmetric] by simp
  have e: "e \<notin> set (n # ns)" unfolding mem using assms(2) by simp
  have "linked l' (n # ns)"
    by (rule linked_frame [of l "n # ns" l'], use lk in simp, unfold bl, use d assms(2) in \<open>simp add: l'_def\<close>,
      use dn e in \<open>auto simp: l'_def\<close>)
  then have "linked l' (0 # e # n # ns)" using \<open>n \<noteq> e\<close> assms(2) by (simp add: l'_def)
  with d assms(2) n have "ring l' (e # es)" by (simp add: ring_def)
  with run show ?thesis by (simp add: l'_def)
qed

lemma ring_front: "ring l es \<Longrightarrow> nxt l 0 = Some (hd (es @ [0]))"
  by (cases es) (simp_all add: ring_def)

lemma ring_back: "ring l es \<Longrightarrow> prv l 0 = Some (last (0 # es))"
proof (cases es rule: rev_cases)
  case (snoc es' e)
  assume "ring l es"
  with snoc linked_append [of l "0 # es'" e "[0]"] show ?thesis by (simp add: ring_def)
qed (simp add: ring_def)

lemma ring_prev: "ring l (us @ e # vs) \<Longrightarrow> prv l e = Some (last (0 # us))"
proof (cases us rule: rev_cases)
  case (snoc us' u)
  assume "ring l (us @ e # vs)"
  with snoc linked_append [of l "0 # us'" u "e # vs @ [0]"] show ?thesis by (simp add: ring_def)
qed (simp add: ring_def)

end
