(* ===== verification/Lru.thy ===== *)
theory Lru
  imports Lru_List
begin

text \<open>
  The least recently used cache of \<open>internal/simplelru/lru.go\<close>: a map from keys to the entries of the list. It
  refines a list of key-value pairs, the most recently used first. The eviction callback is a function outside the
  package: the model keeps the calls it receives in a log. Results are \<open>None\<close> for a panic.
\<close>

subsection \<open>The operations\<close>

record ('k, 'v) LRU =
  evictList :: "('k, 'v) LruList"
  items :: "'k \<rightharpoonup> nat"
  onEvict :: bool
  evicted :: "('k \<times> 'v) list"
  lru_size :: int

definition NewLRU :: "int \<Rightarrow> bool \<Rightarrow> string + ('k, 'v) LRU" where
  "NewLRU sz cb =
     (if sz \<le> 0 then Inl ''must provide a positive size''
      else Inr \<lparr>evictList = NewList, items = Map.empty, onEvict = cb, evicted = [], lru_size = sz\<rparr>)"

text \<open>\<open>c.onEvict(k, v)\<close>, when there is a callback.\<close>

definition call_evict :: "'k \<times> 'v \<Rightarrow> ('k, 'v) LRU \<Rightarrow> ('k, 'v) LRU" where
  "call_evict kv c = (if onEvict c then c\<lparr>evicted := evicted c @ [kv]\<rparr> else c)"

text \<open>The loop of \<open>Purge\<close> over the map, in the order of the keys Go happens to choose.\<close>

fun purge_items :: "'k list \<Rightarrow> ('k, 'v) LRU \<Rightarrow> ('k, 'v) LRU option" where
  "purge_items [] c = Some c"
| "purge_items (k # ks) c =
     (case items c k of
        None \<Rightarrow> purge_items ks c
      | Some e \<Rightarrow>
          (case cell (evictList c) e of
             None \<Rightarrow> None
           | Some (_, v) \<Rightarrow> let c = call_evict (k, v) c in purge_items ks (c\<lparr>items := (items c)(k := None)\<rparr>)))"

definition Purge :: "'k list \<Rightarrow> ('k, 'v) LRU \<Rightarrow> ('k, 'v) LRU option" where
  "Purge ks c = map_option (\<lambda>c. c\<lparr>evictList := Init (evictList c)\<rparr>) (purge_items ks c)"

definition removeElement :: "nat \<Rightarrow> ('k, 'v) LRU \<Rightarrow> ('k, 'v) LRU option" where
  "removeElement e c =
     (case list_Remove e (evictList c) of
        None \<Rightarrow> None
      | Some l \<Rightarrow>
          (case cell l e of
             None \<Rightarrow> None
           | Some kv \<Rightarrow> Some (call_evict kv (c\<lparr>evictList := l, items := (items c)(fst kv := None)\<rparr>))))"

definition removeOldest :: "('k, 'v) LRU \<Rightarrow> ('k, 'v) LRU option" where
  "removeOldest c = (case Back (evictList c) of None \<Rightarrow> Some c | Some ent \<Rightarrow> removeElement ent c)"

definition Add :: "'k \<Rightarrow> 'v \<Rightarrow> ('k, 'v) LRU \<Rightarrow> (('k, 'v) LRU \<times> bool) option" where
  "Add key v c =
     (case items c key of
        Some ent \<Rightarrow>
          (case MoveToFront ent (evictList c) of
             None \<Rightarrow> None
           | Some l \<Rightarrow>
               Some (c\<lparr>evictList := l\<lparr>cell := (cell l)(ent := map_option (\<lambda>kv. (fst kv, v)) (cell l ent))\<rparr>\<rparr>, False))
      | None \<Rightarrow>
          (case PushFront key v (evictList c) of
             None \<Rightarrow> None
           | Some (ent, l) \<Rightarrow>
               let c = c\<lparr>evictList := l, items := (items c)(key \<mapsto> ent)\<rparr>;
                   evict = Length (evictList c) > lru_size c
               in if evict then map_option (\<lambda>c. (c, evict)) (removeOldest c) else Some (c, evict)))"

definition Get :: "'k \<Rightarrow> ('k, 'v) LRU \<Rightarrow> (('k, 'v) LRU \<times> 'v option) option" where
  "Get key c =
     (case items c key of
        Some ent \<Rightarrow>
          (case MoveToFront ent (evictList c) of
             None \<Rightarrow> None
           | Some l \<Rightarrow> (case cell l ent of None \<Rightarrow> None | Some kv \<Rightarrow> Some (c\<lparr>evictList := l\<rparr>, Some (snd kv))))
      | None \<Rightarrow> Some (c, None))"

definition cache_Contains :: "'k \<Rightarrow> ('k, 'v) LRU \<Rightarrow> bool" where
  "cache_Contains key c \<longleftrightarrow> items c key \<noteq> None"

definition Peek :: "'k \<Rightarrow> ('k, 'v) LRU \<Rightarrow> 'v option option" where
  "Peek key c =
     (case items c key of
        Some ent \<Rightarrow> (case cell (evictList c) ent of None \<Rightarrow> None | Some kv \<Rightarrow> Some (Some (snd kv)))
      | None \<Rightarrow> Some None)"

definition cache_Remove :: "'k \<Rightarrow> ('k, 'v) LRU \<Rightarrow> (('k, 'v) LRU \<times> bool) option" where
  "cache_Remove key c =
     (case items c key of
        Some ent \<Rightarrow> map_option (\<lambda>c. (c, True)) (removeElement ent c)
      | None \<Rightarrow> Some (c, False))"

definition RemoveOldest :: "('k, 'v) LRU \<Rightarrow> (('k, 'v) LRU \<times> ('k \<times> 'v) option) option" where
  "RemoveOldest c =
     (case Back (evictList c) of
        Some ent \<Rightarrow> map_option (\<lambda>c. (c, cell (evictList c) ent)) (removeElement ent c)
      | None \<Rightarrow> Some (c, None))"

definition GetOldest :: "('k, 'v) LRU \<Rightarrow> ('k \<times> 'v) option" where
  "GetOldest c = (case Back (evictList c) of Some ent \<Rightarrow> cell (evictList c) ent | None \<Rightarrow> None)"

text \<open>
  The loop of \<open>Keys\<close> and \<open>Values\<close>, from the back. A slice made by \<open>make\<close> holds \<open>None\<close> where the zero value
  still is.
\<close>

partial_function (option) walk_back ::
  "('k \<times> 'v \<Rightarrow> 'a) \<Rightarrow> ('k, 'v) LruList \<Rightarrow> nat option \<Rightarrow> nat \<Rightarrow> 'a option list \<Rightarrow> 'a option list option" where
  "walk_back f l ent i xs =
     (case ent of
        None \<Rightarrow> Some xs
      | Some e \<Rightarrow>
          (case cell l e of
             None \<Rightarrow> None
           | Some kv \<Rightarrow> if i < length xs then walk_back f l (PrevEntry l e) (i + 1) (xs[i := Some (f kv)]) else None))"

definition cache_Keys :: "('k, 'v) LRU \<Rightarrow> 'k option list option" where
  "cache_Keys c = walk_back fst (evictList c) (Back (evictList c)) 0 (replicate (nat (Length (evictList c))) None)"

text \<open>\<open>len(c.items)\<close> is the number of keys of the map.\<close>

definition cache_Values :: "('k, 'v) LRU \<Rightarrow> 'v option list option" where
  "cache_Values c = walk_back snd (evictList c) (Back (evictList c)) 0 (replicate (card (dom (items c))) None)"

definition Len :: "('k, 'v) LRU \<Rightarrow> int" where "Len c = Length (evictList c)"

definition Cap :: "('k, 'v) LRU \<Rightarrow> int" where "Cap c = lru_size c"

primrec remove_oldest_n :: "nat \<Rightarrow> ('k, 'v) LRU \<Rightarrow> ('k, 'v) LRU option" where
  "remove_oldest_n 0 c = Some c"
| "remove_oldest_n (Suc n) c = (case removeOldest c of None \<Rightarrow> None | Some c \<Rightarrow> remove_oldest_n n c)"

definition Resize :: "int \<Rightarrow> ('k, 'v) LRU \<Rightarrow> (('k, 'v) LRU \<times> int) option" where
  "Resize sz c =
     (let diff = max (Len c - sz) 0
      in map_option (\<lambda>c. (c\<lparr>lru_size := sz\<rparr>, diff)) (remove_oldest_n (nat diff) c))"

subsection \<open>The invariant\<close>

definition key_at :: "('k, 'v) LruList \<Rightarrow> nat \<Rightarrow> 'k" where "key_at l e = fst (the (cell l e))"

definition entries :: "('k, 'v) LruList \<Rightarrow> nat list \<Rightarrow> ('k \<times> 'v) list" where
  "entries l es = map (\<lambda>e. the (cell l e)) es"

text \<open>The list \<open>es\<close> of the entries from the front, and the map of their keys.\<close>

definition list_ok :: "('k, 'v) LruList \<Rightarrow> nat list \<Rightarrow> bool" where
  "list_ok l es \<longleftrightarrow> ring l es \<and> len l = int (length es) \<and> 0 < fresh l
     \<and> (\<forall>e \<in> set es. owned l e \<and> e < fresh l \<and> cell l e \<noteq> None) \<and> distinct (map (key_at l) es)"

definition lru_ok :: "('k, 'v) LRU \<Rightarrow> nat list \<Rightarrow> bool" where
  "lru_ok c es \<longleftrightarrow> list_ok (evictList c) es
     \<and> (\<forall>k e. items c k = Some e \<longleftrightarrow> e \<in> set es \<and> key_at (evictList c) e = k)"

text \<open>The cache holds the pairs \<open>kvs\<close>, the most recently used first.\<close>

definition holds :: "('k, 'v) LRU \<Rightarrow> ('k \<times> 'v) list \<Rightarrow> bool" where
  "holds c kvs \<longleftrightarrow> (\<exists>es. lru_ok c es \<and> kvs = entries (evictList c) es)"

lemma ring_distinct: "ring l es \<Longrightarrow> distinct (0 # es)"
  by (simp add: ring_def)

lemma entries_simps [simp]: "entries l [] = []" "entries l (e # es) = the (cell l e) # entries l es"
  "entries l (us @ vs) = entries l us @ entries l vs" "length (entries l es) = length es"
  by (simp_all add: entries_def)

lemma entries_same: "\<forall>e \<in> set es. cell l' e = cell l e \<Longrightarrow> entries l' es = entries l es"
  by (simp add: entries_def)

lemma fst_entries: "map fst (entries l es) = map (key_at l) es"
  by (simp add: entries_def key_at_def)

lemma holds_distinct: "holds c kvs \<Longrightarrow> distinct (map fst kvs)"
  by (auto simp: holds_def lru_ok_def list_ok_def fst_entries)

subsection \<open>The list operations under the invariant\<close>

lemma Back_ok: "list_ok l es \<Longrightarrow> Back l = (if es = [] then None else Some (last es))"
  using ring_back [of l es] by (auto simp: list_ok_def Back_def)

lemma Remove_ok:
  assumes "list_ok l (us @ e # vs)"
  shows "\<exists>l'. list_Remove e l = Some l' \<and> list_ok l' (us @ vs) \<and> cell l' = cell l"
proof -
  from assms have r: "ring l (us @ e # vs)" and d: "distinct (0 # us @ e # vs)"
    by (simp_all add: list_ok_def ring_def)
  from ring_unlink [OF r] obtain l1 where l1: "unlink e l = Some l1" "ring l1 (us @ vs)" "owned l1 = owned l" "cell l1 = cell l"
      "len l1 = len l" "fresh l1 = fresh l" by blast
  define l' where "l' = l1\<lparr>nxt := (nxt l1)(e := None), prv := (prv l1)(e := None), owned := (owned l1)(e := False), len := len l1 - 1\<rparr>"
  have "linked l' (0 # (us @ vs) @ [0])"
    by (rule linked_frame [of l1]) (use l1(2) d in \<open>auto simp: ring_def l'_def butlast_append split: if_splits dest: in_set_butlastD\<close>)
  then have "ring l' (us @ vs)" using d by (simp add: ring_def)
  moreover have "key_at l' = key_at l" using l1(4) by (simp add: key_at_def l'_def fun_eq_iff)
  ultimately have "list_ok l' (us @ vs)" using assms d l1 by (auto simp: list_ok_def l'_def)
  with l1(1,4) show ?thesis by (simp add: list_Remove_def l'_def)
qed

lemma MoveToFront_ok:
  assumes "list_ok l (us @ e # vs)"
  shows "\<exists>l'. MoveToFront e l = Some l' \<and> list_ok l' (e # us @ vs) \<and> cell l' = cell l"
proof (cases us)
  case Nil
  with assms have "nxt l 0 = Some e" using ring_front [of l "e # vs"] by (simp add: list_ok_def)
  with assms Nil show ?thesis by (simp add: MoveToFront_def)
next
  case (Cons u us')
  from assms have r: "ring l (us @ e # vs)" and d: "distinct (0 # us @ e # vs)"
    by (simp_all add: list_ok_def ring_def)
  have "nxt l 0 = Some u" using ring_front [OF r] Cons by simp
  then have front: "nxt l 0 \<noteq> Some e" using d Cons by auto
  have "e \<noteq> 0" "owned l e" using d assms by (auto simp: list_ok_def)
  from ring_unlink [OF r] obtain l1 where l1: "unlink e l = Some l1" "ring l1 (us @ vs)" "owned l1 = owned l" "cell l1 = cell l"
      "len l1 = len l" "fresh l1 = fresh l" by blast
  have "e \<notin> set (0 # us @ vs)" using d by simp
  from ring_link [OF l1(2) this] obtain l2 where l2: "link_after e 0 l1 = Some l2" "ring l2 (e # us @ vs)" "owned l2 = owned l1"
      "cell l2 = cell l1" "len l2 = len l1" "fresh l2 = fresh l1" by blast
  have "MoveToFront e l = Some l2" using front \<open>e \<noteq> 0\<close> \<open>owned l e\<close> l1(1) l2(1) by (simp add: MoveToFront_def move_def)
  moreover have "key_at l2 = key_at l" using l1(4) l2(4) by (simp add: key_at_def fun_eq_iff)
  moreover from this have "list_ok l2 (e # us @ vs)" using assms l1 l2 by (auto simp: list_ok_def)
  ultimately show ?thesis using l1(4) l2(4) by auto
qed

lemma PushFront_ok:
  assumes "list_ok l es" "k \<notin> key_at l ` set es"
  shows "\<exists>e l'. PushFront k v l = Some (e, l') \<and> list_ok l' (e # es) \<and> e \<notin> set es \<and> cell l' = (cell l)(e \<mapsto> (k, v))"
proof -
  define e where "e = fresh l"
  define l0 where "l0 = l\<lparr>cell := (cell l)(e \<mapsto> (k, v)), fresh := e + 1\<rparr>"
  have r: "ring l es" using assms(1) by (simp add: list_ok_def)
  have e: "e \<notin> set (0 # es)" using assms(1) by (auto simp: list_ok_def e_def)
  have lazy: "lazyInit l = l" using ring_front [OF r] by (simp add: lazyInit_def)
  have "ring l0 es" using ring_same [of l0 l es] r by (simp add: l0_def)
  from ring_link [OF this e] obtain l1 where l1: "link_after e 0 l0 = Some l1" "ring l1 (e # es)" "owned l1 = owned l0"
      "cell l1 = cell l0" "len l1 = len l0" "fresh l1 = fresh l0" by blast
  define l' where "l' = l1\<lparr>owned := (owned l1)(e := True), len := len l1 + 1\<rparr>"
  have run: "PushFront k v l = Some (e, l')"
    using l1(1) unfolding l0_def by (simp add: PushFront_def insertValue_def list_insert_def lazy Let_def e_def [symmetric] l'_def)
  have c: "cell l' = (cell l)(e \<mapsto> (k, v))" using l1(4) by (simp add: l'_def l0_def)
  have ring: "ring l' (e # es)" using ring_same [of l' l1] l1(2) by (simp add: l'_def)
  have keys: "key_at l' x = (if x = e then k else key_at l x)" for x by (simp add: key_at_def c)
  have mk: "map (key_at l') es = map (key_at l) es" using e by (auto simp: keys)
  have "distinct (map (key_at l') es)" "key_at l' e \<notin> set (map (key_at l') es)"
    unfolding mk using assms keys by (simp_all add: list_ok_def)
  then have d: "distinct (map (key_at l') (e # es))" by simp
  have f: "len l' = len l + 1" "fresh l' = e + 1" "owned l' = (owned l)(e := True)"
    using l1 by (simp_all add: l'_def l0_def)
  have old: "\<forall>x \<in> set es. owned l x \<and> x < e \<and> cell l x \<noteq> None" "len l = int (length es)"
    using assms(1) by (simp_all add: list_ok_def e_def)
  have "list_ok l' (e # es)"
    unfolding list_ok_def using d f c ring old by (auto simp del: list.map)
  with run c e show ?thesis by auto
qed

subsection \<open>Refinement of a list of pairs\<close>

definition drop_key :: "'k \<Rightarrow> ('k \<times> 'v) list \<Rightarrow> ('k \<times> 'v) list" where
  "drop_key k kvs = filter (\<lambda>kv. fst kv \<noteq> k) kvs"

text \<open>A use moves the pair to the front; an insertion past the size drops the last pair.\<close>

definition touch :: "'k \<Rightarrow> ('k \<times> 'v) list \<Rightarrow> ('k \<times> 'v) list" where
  "touch k kvs = (case map_of kvs k of None \<Rightarrow> kvs | Some v \<Rightarrow> (k, v) # drop_key k kvs)"

definition spec_add :: "int \<Rightarrow> 'k \<Rightarrow> 'v \<Rightarrow> ('k \<times> 'v) list \<Rightarrow> ('k \<times> 'v) list \<times> ('k \<times> 'v) list" where
  "spec_add n k v kvs =
     (if map_of kvs k \<noteq> None then ((k, v) # drop_key k kvs, [])
      else if int (length kvs) + 1 > n then (butlast ((k, v) # kvs), [last ((k, v) # kvs)])
      else ((k, v) # kvs, []))"

definition log_after :: "('k, 'v) LRU \<Rightarrow> ('k \<times> 'v) list \<Rightarrow> ('k \<times> 'v) list" where
  "log_after c gone = (if onEvict c then evicted c @ gone else evicted c)"

definition same_cache :: "('k, 'v) LRU \<Rightarrow> ('k, 'v) LRU \<Rightarrow> bool" where
  "same_cache c c' \<longleftrightarrow> onEvict c' = onEvict c \<and> lru_size c' = lru_size c"

lemma hit:
  assumes "lru_ok c es" "items c k = Some e"
  obtains us vs v where "es = us @ e # vs" "cell (evictList c) e = Some (k, v)"
    "map_of (entries (evictList c) es) k = Some v" "drop_key k (entries (evictList c) es) = entries (evictList c) (us @ vs)"
proof -
  let ?l = "evictList c"
  from assms have e: "e \<in> set es" "key_at ?l e = k" by (simp_all add: lru_ok_def)
  then obtain us vs where es: "es = us @ e # vs" by (meson split_list)
  from assms(1) e(1) obtain kv where c: "cell ?l e = Some kv" by (auto simp: lru_ok_def list_ok_def)
  with e(2) obtain v where v: "cell ?l e = Some (k, v)" by (cases kv) (simp add: key_at_def)
  have d: "distinct (map (key_at ?l) (us @ e # vs))" using assms(1) es by (simp add: lru_ok_def list_ok_def)
  have ne: "fst kv \<noteq> k" if "kv \<in> set (entries ?l us) \<or> kv \<in> set (entries ?l vs)" for kv
  proof -
    from that obtain x where "x \<in> set us \<or> x \<in> set vs" "kv = the (cell ?l x)" by (auto simp: entries_def)
    moreover have "k \<notin> key_at ?l ` (set us \<union> set vs)" using d e(2) by auto
    ultimately show ?thesis by (auto simp: key_at_def)
  qed
  have "map_of (entries ?l us) k = None" using ne by (force simp: map_of_eq_None_iff)
  then have "map_of (entries ?l es) k = Some v" by (simp add: es v map_add_def)
  moreover have "drop_key k (entries ?l es) = entries ?l (us @ vs)"
    using ne by (simp add: es drop_key_def v filter_id_conv)
  ultimately show ?thesis using that es v by blast
qed

lemma miss:
  assumes "lru_ok c es" "items c k = None"
  shows "map_of (entries (evictList c) es) k = None" "k \<notin> key_at (evictList c) ` set es"
proof -
  from assms(1) have "items c k = Some e \<longleftrightarrow> e \<in> set es \<and> key_at (evictList c) e = k" for e by (simp add: lru_ok_def)
  with assms(2) have "\<not> (e \<in> set es \<and> key_at (evictList c) e = k)" for e by simp
  then show "k \<notin> key_at (evictList c) ` set es" by auto
  then show "map_of (entries (evictList c) es) k = None"
    by (simp add: map_of_eq_None_iff) (metis fst_entries image_set set_map)
qed

lemma call_evict_simps [simp]:
  "evictList (call_evict kv c) = evictList c" "items (call_evict kv c) = items c" "onEvict (call_evict kv c) = onEvict c"
  "lru_size (call_evict kv c) = lru_size c" "evicted (call_evict kv c) = log_after c [kv]"
  by (simp_all add: call_evict_def log_after_def)

lemma removeElement_ok:
  assumes "lru_ok c (us @ e # vs)"
  shows "\<exists>c'. removeElement e c = Some c' \<and> lru_ok c' (us @ vs) \<and> cell (evictList c') = cell (evictList c)
    \<and> same_cache c c' \<and> evicted c' = log_after c [the (cell (evictList c) e)]"
proof -
  let ?l = "evictList c"
  from assms have "list_ok ?l (us @ e # vs)" by (simp add: lru_ok_def)
  from Remove_ok [OF this] obtain l' where l': "list_Remove e ?l = Some l'" "list_ok l' (us @ vs)" "cell l' = cell ?l" by blast
  from assms obtain kv where kv: "cell ?l e = Some kv" by (auto simp: lru_ok_def list_ok_def)
  define c' where "c' = call_evict kv (c\<lparr>evictList := l', items := (items c)(fst kv := None)\<rparr>)"
  have run: "removeElement e c = Some c'" using l' kv by (simp add: removeElement_def c'_def)
  have keys: "key_at l' = key_at ?l" using l'(3) by (simp add: key_at_def fun_eq_iff)
  have k: "fst kv = key_at ?l e" using kv by (simp add: key_at_def)
  have d: "distinct (map (key_at ?l) (us @ e # vs))" "distinct (us @ e # vs)"
    using assms by (auto simp: lru_ok_def list_ok_def ring_def)
  have inj: "key_at ?l y \<noteq> key_at ?l e" if "y \<in> set us \<or> y \<in> set vs" for y
    using d(1) that by (auto simp: image_iff)
  have "items c' x = Some y \<longleftrightarrow> y \<in> set (us @ vs) \<and> key_at l' y = x" for x y
    using assms d(2) k keys inj by (auto simp: c'_def lru_ok_def)
  with l' have "lru_ok c' (us @ vs)" by (simp add: lru_ok_def c'_def)
  with run l'(3) kv show ?thesis by (simp add: c'_def same_cache_def log_after_def)
qed

lemma removeOldest_ok:
  assumes "lru_ok c es" "es \<noteq> []"
  shows "\<exists>c'. removeOldest c = Some c' \<and> lru_ok c' (butlast es) \<and> cell (evictList c') = cell (evictList c)
    \<and> same_cache c c' \<and> evicted c' = log_after c [the (cell (evictList c) (last es))]"
proof -
  have "lru_ok c (butlast es @ last es # [])" using assms by simp
  from removeElement_ok [OF this] Back_ok [of "evictList c" es] assms show ?thesis
    by (simp add: removeOldest_def lru_ok_def)
qed

subsection \<open>Every operation refines\<close>

lemma log_after_Nil [simp]: "log_after c [] = evicted c"
  by (simp add: log_after_def)

lemma Add_ok:
  assumes "holds c kvs"
  shows "\<exists>c'. Add k v c = Some (c', snd (spec_add (lru_size c) k v kvs) \<noteq> []) \<and> holds c' (fst (spec_add (lru_size c) k v kvs))
    \<and> evicted c' = log_after c (snd (spec_add (lru_size c) k v kvs)) \<and> same_cache c c'"
proof -
  from assms obtain es where es: "lru_ok c es" "kvs = entries (evictList c) es" by (auto simp: holds_def)
  then have l: "list_ok (evictList c) es" by (simp add: lru_ok_def)
  show ?thesis
  proof (cases "items c k")
    case (Some e)
    from hit [OF es(1) Some] obtain us vs w where h: "es = us @ e # vs" "cell (evictList c) e = Some (k, w)"
        "map_of kvs k = Some w" "drop_key k kvs = entries (evictList c) (us @ vs)" by (metis es(2))
    from MoveToFront_ok [OF l [unfolded h(1)]] obtain l' where
      l': "MoveToFront e (evictList c) = Some l'" "list_ok l' (e # us @ vs)" "cell l' = cell (evictList c)" by blast
    define l2 where "l2 = l'\<lparr>cell := (cell l')(e \<mapsto> (k, v))\<rparr>"
    let ?c = "c\<lparr>evictList := l2\<rparr>"
    have run: "Add k v c = Some (?c, False)" using Some l' h(2) by (simp add: Add_def l2_def)
    have keys: "key_at l2 = key_at (evictList c)" using l'(3) h(2) by (auto simp: key_at_def l2_def fun_eq_iff)
    have keys': "key_at l' = key_at (evictList c)" using l'(3) by (simp add: key_at_def fun_eq_iff)
    have "ring l2 (e # us @ vs)" using ring_same [of l2 l'] l'(2) by (simp add: l2_def list_ok_def)
    with l'(2) have "list_ok l2 (e # us @ vs)" by (auto simp: list_ok_def keys keys') (simp_all add: l2_def)
    with es(1) have ok: "lru_ok ?c (e # us @ vs)" by (auto simp: lru_ok_def keys h(1))
    have "e \<notin> set (us @ vs)" using l h(1) by (auto simp: list_ok_def ring_def)
    then have "entries l2 (us @ vs) = entries (evictList c) (us @ vs)"
      by (intro entries_same) (auto simp: l2_def l'(3))
    then have "entries l2 (e # us @ vs) = (k, v) # drop_key k kvs" by (simp add: h(4)) (simp add: l2_def)
    with ok have "holds ?c ((k, v) # drop_key k kvs)" unfolding holds_def by (intro exI [of _ "e # us @ vs"]) simp
    with run h(3) show ?thesis by (simp add: spec_add_def same_cache_def)
  next
    case None
    from miss [OF es(1) None] have m: "map_of kvs k = None" "k \<notin> key_at (evictList c) ` set es" by (simp_all add: es(2))
    from PushFront_ok [OF l m(2)] obtain e l' where p: "PushFront k v (evictList c) = Some (e, l')" "list_ok l' (e # es)"
        "e \<notin> set es" "cell l' = (cell (evictList c))(e \<mapsto> (k, v))" by blast
    let ?c = "c\<lparr>evictList := l', items := (items c)(k \<mapsto> e)\<rparr>"
    have keys: "key_at l' x = (if x = e then k else key_at (evictList c) x)" for x by (simp add: key_at_def p(4))
    have it: "items c j = Some x \<longleftrightarrow> x \<in> set es \<and> key_at (evictList c) x = j" for j x
      using es(1) by (simp add: lru_ok_def)
    have "items ?c j = Some x \<longleftrightarrow> x \<in> set (e # es) \<and> key_at l' x = j" for j x
      using it [of j x] m(2) p(3) by (cases "j = k"; cases "x = e") (auto simp: keys)
    with p(2) have ok: "lru_ok ?c (e # es)" by (simp add: lru_ok_def)
    have "entries l' es = entries (evictList c) es" using p(3,4) by (intro entries_same) auto
    then have ent: "entries l' (e # es) = (k, v) # kvs" using p(4) by (simp add: es(2))
    have len: "len l' = int (length kvs) + 1" using p(2) by (simp add: list_ok_def es(2))
    show ?thesis
    proof (cases "int (length kvs) + 1 > lru_size c")
      case True
      from removeOldest_ok [OF ok] obtain c' where c': "removeOldest ?c = Some c'" "lru_ok c' (butlast (e # es))"
          "cell (evictList c') = cell l'" "same_cache ?c c'" "evicted c' = log_after ?c [the (cell l' (last (e # es)))]"
        by auto
      have eq: "entries (evictList c') (butlast (e # es)) = butlast ((k, v) # kvs)"
          "the (cell l' (last (e # es))) = last ((k, v) # kvs)"
        using ent [symmetric] c'(3) by (simp_all add: entries_def map_butlast last_map del: butlast.simps last.simps list.map)
      from c'(2) eq(1) have "holds c' (butlast ((k, v) # kvs))" unfolding holds_def by metis
      moreover have "Add k v c = Some (c', True)" using None p(1) c'(1) len True by (simp add: Add_def Length_def Let_def)
      ultimately show ?thesis using True m(1) c'(4,5) eq(2) by (simp add: spec_add_def same_cache_def log_after_def)
    next
      case False
      have "holds ?c ((k, v) # kvs)" using ok ent unfolding holds_def by (intro exI [of _ "e # es"]) simp
      moreover have "Add k v c = Some (?c, False)" using None p(1) len False by (simp add: Add_def Length_def Let_def)
      ultimately show ?thesis using False m(1) by (simp add: spec_add_def same_cache_def)
    qed
  qed
qed

lemma Get_ok:
  assumes "holds c kvs"
  shows "\<exists>c'. Get k c = Some (c', map_of kvs k) \<and> holds c' (touch k kvs) \<and> evicted c' = evicted c \<and> same_cache c c'"
proof -
  from assms obtain es where es: "lru_ok c es" "kvs = entries (evictList c) es" by (auto simp: holds_def)
  then have l: "list_ok (evictList c) es" by (simp add: lru_ok_def)
  show ?thesis
  proof (cases "items c k")
    case (Some e)
    from hit [OF es(1) Some] obtain us vs w where h: "es = us @ e # vs" "cell (evictList c) e = Some (k, w)"
        "map_of kvs k = Some w" "drop_key k kvs = entries (evictList c) (us @ vs)" by (metis es(2))
    from MoveToFront_ok [OF l [unfolded h(1)]] obtain l' where
      l': "MoveToFront e (evictList c) = Some l'" "list_ok l' (e # us @ vs)" "cell l' = cell (evictList c)" by blast
    have keys: "key_at l' = key_at (evictList c)" using l'(3) by (simp add: key_at_def fun_eq_iff)
    have "lru_ok (c\<lparr>evictList := l'\<rparr>) (e # us @ vs)" using l'(2) es(1) by (auto simp: lru_ok_def keys h(1))
    moreover have "entries l' (e # us @ vs) = (k, w) # drop_key k kvs" using l'(3) h(2,4) by (simp add: entries_def)
    ultimately have "holds (c\<lparr>evictList := l'\<rparr>) (touch k kvs)"
      unfolding holds_def by (intro exI [of _ "e # us @ vs"]) (simp add: touch_def h(3))
    moreover have "Get k c = Some (c\<lparr>evictList := l'\<rparr>, Some w)" using Some l' h(2) by (simp add: Get_def)
    ultimately show ?thesis by (simp add: h(3) same_cache_def)
  next
    case None
    from miss(1) [OF es(1) None] have "map_of kvs k = None" by (simp add: es(2))
    with None assms show ?thesis by (simp add: Get_def touch_def same_cache_def)
  qed
qed

lemma Remove_key_ok:
  assumes "holds c kvs"
  shows "\<exists>c'. cache_Remove k c = Some (c', map_of kvs k \<noteq> None) \<and> holds c' (drop_key k kvs) \<and> same_cache c c'
    \<and> evicted c' = log_after c (case map_of kvs k of None \<Rightarrow> [] | Some v \<Rightarrow> [(k, v)])"
proof -
  from assms obtain es where es: "lru_ok c es" "kvs = entries (evictList c) es" by (auto simp: holds_def)
  show ?thesis
  proof (cases "items c k")
    case (Some e)
    from hit [OF es(1) Some] obtain us vs w where h: "es = us @ e # vs" "cell (evictList c) e = Some (k, w)"
        "map_of kvs k = Some w" "drop_key k kvs = entries (evictList c) (us @ vs)" by (metis es(2))
    from removeElement_ok [OF es(1) [unfolded h(1)]] obtain c' where c': "removeElement e c = Some c'" "lru_ok c' (us @ vs)"
        "cell (evictList c') = cell (evictList c)" "same_cache c c'" "evicted c' = log_after c [the (cell (evictList c) e)]" by blast
    have "entries (evictList c') (us @ vs) = drop_key k kvs" using c'(3) h(4) by (simp add: entries_def)
    with c'(2) have "holds c' (drop_key k kvs)" unfolding holds_def by metis
    with Some c' h show ?thesis by (simp add: cache_Remove_def)
  next
    case None
    from miss(1) [OF es(1) None] have m: "map_of kvs k = None" by (simp add: es(2))
    then have "drop_key k kvs = kvs" by (auto simp: drop_key_def filter_id_conv map_of_eq_None_iff)
    with None m assms show ?thesis by (simp add: cache_Remove_def same_cache_def)
  qed
qed

lemma holds_oldest:
  assumes "holds c kvs" "kvs \<noteq> []"
  shows "\<exists>c'. removeOldest c = Some c' \<and> holds c' (butlast kvs) \<and> same_cache c c' \<and> evicted c' = log_after c [last kvs]"
proof -
  from assms(1) obtain es where es: "lru_ok c es" "kvs = entries (evictList c) es" by (auto simp: holds_def)
  with assms(2) have ne: "es \<noteq> []" by auto
  from removeOldest_ok [OF es(1) ne] obtain c' where c': "removeOldest c = Some c'" "lru_ok c' (butlast es)"
      "cell (evictList c') = cell (evictList c)" "same_cache c c'" "evicted c' = log_after c [the (cell (evictList c) (last es))]" by blast
  have "entries (evictList c') (butlast es) = butlast kvs" "the (cell (evictList c) (last es)) = last kvs"
    using c'(3) es(2) ne by (simp_all add: entries_def map_butlast last_map)
  with c' show ?thesis unfolding holds_def by metis
qed

lemma holds_Back: "holds c kvs \<Longrightarrow> (Back (evictList c) = None \<longleftrightarrow> kvs = []) \<and> Length (evictList c) = int (length kvs)"
proof -
  assume "holds c kvs"
  then obtain es where es: "list_ok (evictList c) es" "kvs = entries (evictList c) es" by (auto simp: holds_def lru_ok_def)
  then have "kvs = [] \<longleftrightarrow> es = []" by (auto simp: entries_def)
  with es Back_ok [OF es(1)] show ?thesis by (simp add: Length_def list_ok_def)
qed

lemma GetOldest_ok: "holds c kvs \<Longrightarrow> GetOldest c = (if kvs = [] then None else Some (last kvs))"
proof -
  assume "holds c kvs"
  then obtain es where es: "lru_ok c es" "kvs = entries (evictList c) es" by (auto simp: holds_def)
  then have l: "list_ok (evictList c) es" by (simp add: lru_ok_def)
  show ?thesis
  proof (cases es rule: rev_cases)
    case (snoc us e)
    with l have "cell (evictList c) e \<noteq> None" by (simp add: list_ok_def)
    with snoc es(2) Back_ok [OF l] show ?thesis by (auto simp: GetOldest_def)
  qed (use Back_ok [OF l] es(2) in \<open>simp add: GetOldest_def\<close>)
qed

lemma list_Remove_cell: "list_Remove e l = Some l' \<Longrightarrow> cell l' = cell l"
  by (auto simp: list_Remove_def unlink_def Let_def split: option.splits)

lemma keep_first: "take (length xs - (length xs - m)) xs = take m xs" "drop (length xs - (length xs - m)) xs = drop m xs"
  by (cases "m \<le> length xs", simp, simp)+

lemma RemoveOldest_ok:
  assumes "holds c kvs"
  shows "\<exists>c'. RemoveOldest c = Some (c', if kvs = [] then None else Some (last kvs)) \<and> holds c' (butlast kvs)
    \<and> evicted c' = log_after c (if kvs = [] then [] else [last kvs]) \<and> same_cache c c'"
proof (cases "kvs = []")
  case True
  with holds_Back [OF assms] have "Back (evictList c) = None" by simp
  with assms True show ?thesis by (simp add: RemoveOldest_def same_cache_def)
next
  case False
  with holds_Back [OF assms] obtain e where b: "Back (evictList c) = Some e" by auto
  from holds_oldest [OF assms False] obtain c' where c': "removeOldest c = Some c'" "holds c' (butlast kvs)" "same_cache c c'"
      "evicted c' = log_after c [last kvs]" by blast
  from c'(1) b have r: "removeElement e c = Some c'" by (simp add: removeOldest_def)
  then obtain l kv where "list_Remove e (evictList c) = Some l" "evictList c' = l"
    by (auto simp: removeElement_def split: option.splits)
  then have "cell (evictList c') = cell (evictList c)" using list_Remove_cell by blast
  moreover have "cell (evictList c) e = Some (last kvs)"
    using GetOldest_ok [OF assms] False b by (simp add: GetOldest_def)
  ultimately show ?thesis using b r c' False by (simp add: RemoveOldest_def)
qed

lemma remove_oldest_n_ok:
  "holds c kvs \<Longrightarrow> n \<le> length kvs \<Longrightarrow>
     \<exists>c'. remove_oldest_n n c = Some c' \<and> holds c' (take (length kvs - n) kvs) \<and> same_cache c c'
       \<and> evicted c' = log_after c (rev (drop (length kvs - n) kvs))"
proof (induction n arbitrary: c kvs)
  case (Suc n)
  then have "kvs \<noteq> []" by auto
  from holds_oldest [OF Suc.prems(1) this] obtain c1 where c1: "removeOldest c = Some c1" "holds c1 (butlast kvs)" "same_cache c c1"
      "evicted c1 = log_after c [last kvs]" by blast
  have "n \<le> length (butlast kvs)" using Suc.prems(2) by simp
  from Suc.IH [OF c1(2) this] obtain c' where c': "remove_oldest_n n c1 = Some c'"
      "holds c' (take (length (butlast kvs) - n) (butlast kvs))" "same_cache c1 c'"
      "evicted c' = log_after c1 (rev (drop (length (butlast kvs) - n) (butlast kvs)))" by blast
  obtain us x where kvs: "kvs = us @ [x]" using \<open>kvs \<noteq> []\<close> by (metis rev_exhaust)
  have "n \<le> length us" using Suc.prems(2) kvs by simp
  then have "take (length kvs - Suc n) kvs = take (length us - n) us" "rev (drop (length kvs - Suc n) kvs) = x # rev (drop (length us - n) us)"
    by (simp_all add: kvs)
  with c1 c' show ?case by (simp add: kvs same_cache_def log_after_def)
qed (simp add: same_cache_def)

lemma Resize_ok:
  assumes "holds c kvs" "0 \<le> n"
  defines "d \<equiv> length kvs - nat n"
  shows "\<exists>c'. Resize n c = Some (c', int d) \<and> holds c' (take (nat n) kvs) \<and> lru_size c' = n
    \<and> evicted c' = log_after c (rev (drop (nat n) kvs))"
proof -
  have len: "Len c = int (length kvs)" using holds_Back [OF assms(1)] by (simp add: Len_def)
  have d: "max (Len c - n) 0 = int d" using assms(2) by (simp add: len d_def)
  have "d \<le> length kvs" by (simp add: d_def)
  from remove_oldest_n_ok [OF assms(1) this] obtain c' where c': "remove_oldest_n d c = Some c'"
      "holds c' (take (length kvs - d) kvs)" "same_cache c c'" "evicted c' = log_after c (rev (drop (length kvs - d) kvs))" by blast
  have "take (length kvs - d) kvs = take (nat n) kvs" "drop (length kvs - d) kvs = drop (nat n) kvs"
    unfolding d_def by (rule keep_first)+
  moreover have "holds (c'\<lparr>lru_size := n\<rparr>) kvs' = holds c' kvs'" for kvs' by (simp add: holds_def lru_ok_def)
  moreover have "Resize n c = Some (c'\<lparr>lru_size := n\<rparr>, int d)" unfolding Resize_def Let_def d using c'(1) by simp
  ultimately show ?thesis using c'(2,4) by (intro exI [of _ "c'\<lparr>lru_size := n\<rparr>"]) simp
qed

lemma Peek_ok:
  assumes "holds c kvs"
  shows "Peek k c = Some (map_of kvs k)" "cache_Contains k c \<longleftrightarrow> map_of kvs k \<noteq> None"
proof -
  from assms obtain es where es: "lru_ok c es" "kvs = entries (evictList c) es" by (auto simp: holds_def)
  have "Peek k c = Some (map_of kvs k) \<and> (cache_Contains k c \<longleftrightarrow> map_of kvs k \<noteq> None)"
  proof (cases "items c k")
    case (Some e)
    from hit [OF es(1) Some] obtain v where "cell (evictList c) e = Some (k, v)" "map_of kvs k = Some v"
      using es(2) by metis
    with Some show ?thesis by (simp add: Peek_def cache_Contains_def)
  next
    case None
    from miss(1) [OF es(1) None] es(2) None show ?thesis by (simp add: Peek_def cache_Contains_def)
  qed
  then show "Peek k c = Some (map_of kvs k)" "cache_Contains k c \<longleftrightarrow> map_of kvs k \<noteq> None" by auto
qed

lemma walk_back_ok:
  assumes "list_ok l (us @ vs)" "length xs = i + length us"
  shows "walk_back f l (if us = [] then None else Some (last us)) i xs
    = Some (take i xs @ map (\<lambda>e. Some (f (the (cell l e)))) (rev us))"
  using assms
proof (induction us arbitrary: vs i xs rule: rev_induct)
  case Nil
  then show ?case by (subst walk_back.simps) simp
next
  case (snoc e us)
  then have l: "list_ok l (us @ e # vs)" by simp
  then have "ring l (us @ e # vs)" "owned l e" "cell l e \<noteq> None" "0 \<notin> set us" by (auto simp: list_ok_def ring_def)
  then have "us \<noteq> [] \<Longrightarrow> last us \<noteq> 0" using last_in_set by metis
  with \<open>ring l (us @ e # vs)\<close> \<open>owned l e\<close> have prev: "PrevEntry l e = (if us = [] then None else Some (last us))"
    using ring_prev [of l us e vs] by (auto simp: PrevEntry_def Let_def)
  obtain kv where kv: "cell l e = Some kv" using \<open>cell l e \<noteq> None\<close> by blast
  let ?xs = "xs[i := Some (f kv)]"
  from snoc.IH [OF l, of ?xs "i + 1"] snoc.prems(2)
  have "walk_back f l (PrevEntry l e) (i + 1) ?xs = Some (take (i + 1) ?xs @ map (\<lambda>e. Some (f (the (cell l e)))) (rev us))"
    by (simp add: prev)
  moreover have "take (i + 1) ?xs = take i xs @ [Some (f kv)]" using snoc.prems(2) by (simp add: take_Suc_conv_app_nth)
  ultimately show ?case using snoc.prems(2) kv by (subst walk_back.simps) simp
qed

lemma Keys_ok:
  assumes "holds c kvs"
  shows "cache_Keys c = Some (map (\<lambda>kv. Some (fst kv)) (rev kvs))" "cache_Values c = Some (map (\<lambda>kv. Some (snd kv)) (rev kvs))"
proof -
  from assms obtain es where es: "lru_ok c es" "kvs = entries (evictList c) es" by (auto simp: holds_def)
  then have l: "list_ok (evictList c) (es @ [])" by (simp add: lru_ok_def)
  have bk: "Back (evictList c) = (if es = [] then None else Some (last es))" using Back_ok [of "evictList c" es] l by simp
  have len: "nat (Length (evictList c)) = length es" using l by (simp add: list_ok_def Length_def)
  have "dom (items c) = key_at (evictList c) ` set es" using es(1) by (force simp: lru_ok_def)
  moreover have "distinct (map (key_at (evictList c)) es)" using l by (simp add: list_ok_def)
  ultimately have card: "card (dom (items c)) = length es" by (metis distinct_card length_map set_map)
  show "cache_Keys c = Some (map (\<lambda>kv. Some (fst kv)) (rev kvs))"
    using walk_back_ok [OF l, of "replicate (length es) None" 0 fst] by (simp add: cache_Keys_def bk len es(2) entries_def rev_map)
  show "cache_Values c = Some (map (\<lambda>kv. Some (snd kv)) (rev kvs))"
    using walk_back_ok [OF l, of "replicate (length es) None" 0 snd] by (simp add: cache_Values_def bk card es(2) entries_def rev_map)
qed

lemma purge_items_ok:
  assumes "distinct ks" "\<forall>k \<in> set ks. \<exists>e v. items c k = Some e \<and> cell (evictList c) e = Some (k, v) \<and> map_of kvs k = Some v"
  shows "\<exists>c'. purge_items ks c = Some c' \<and> items c' = (\<lambda>k. if k \<in> set ks then None else items c k) \<and> evictList c' = evictList c
    \<and> same_cache c c' \<and> evicted c' = log_after c (map (\<lambda>k. (k, the (map_of kvs k))) ks)"
  using assms
proof (induction ks arbitrary: c)
  case (Cons k ks)
  then obtain e v where k: "items c k = Some e" "cell (evictList c) e = Some (k, v)" "map_of kvs k = Some v" by auto
  let ?c = "(call_evict (k, v) c)\<lparr>items := (items c)(k := None)\<rparr>"
  have "\<forall>j \<in> set ks. \<exists>e v. items ?c j = Some e \<and> cell (evictList ?c) e = Some (j, v) \<and> map_of kvs j = Some v"
    using Cons.prems by auto
  with Cons.IH [of ?c] Cons.prems(1) obtain c' where c': "purge_items ks ?c = Some c'"
      "items c' = (\<lambda>j. if j \<in> set ks then None else items ?c j)" "evictList c' = evictList ?c" "same_cache ?c c'"
      "evicted c' = log_after ?c (map (\<lambda>k. (k, the (map_of kvs k))) ks)" by auto
  have "purge_items (k # ks) c = Some c'" using k c'(1) by (simp add: Let_def)
  moreover have "items c' = (\<lambda>j. if j \<in> set (k # ks) then None else items c j)" using c'(2) by (auto simp: fun_eq_iff)
  ultimately show ?case using c'(3-5) k(3) by (simp add: same_cache_def log_after_def)
qed (simp add: same_cache_def)

lemma Purge_ok:
  assumes "holds c kvs" "distinct ks" "set ks = set (map fst kvs)"
  shows "\<exists>c'. Purge ks c = Some c' \<and> holds c' [] \<and> same_cache c c' \<and> evicted c' = log_after c (map (\<lambda>k. (k, the (map_of kvs k))) ks)"
proof -
  from assms(1) obtain es where es: "lru_ok c es" "kvs = entries (evictList c) es" by (auto simp: holds_def)
  have dom: "items c k \<noteq> None \<longleftrightarrow> k \<in> set ks" for k
    using Peek_ok(2) [OF assms(1), of k] assms(3) by (simp add: cache_Contains_def map_of_eq_None_iff)
  have "\<exists>e v. items c k = Some e \<and> cell (evictList c) e = Some (k, v) \<and> map_of kvs k = Some v" if "k \<in> set ks" for k
  proof -
    from that dom obtain e where e: "items c k = Some e" by blast
    from hit [OF es(1) this] es(2) e show ?thesis by metis
  qed
  then have all: "\<forall>k \<in> set ks. \<exists>e v. items c k = Some e \<and> cell (evictList c) e = Some (k, v) \<and> map_of kvs k = Some v"
    by blast
  from purge_items_ok [OF assms(2) all] obtain c' where c': "purge_items ks c = Some c'"
      "items c' = (\<lambda>k. if k \<in> set ks then None else items c k)" "evictList c' = evictList c" "same_cache c c'"
      "evicted c' = log_after c (map (\<lambda>k. (k, the (map_of kvs k))) ks)" by blast
  let ?c = "c'\<lparr>evictList := Init (evictList c')\<rparr>"
  have "items c' k = None" for k using c'(2) dom [of k] by auto
  moreover have "0 < fresh (evictList c)" using es(1) by (simp add: lru_ok_def list_ok_def)
  ultimately have "lru_ok ?c []" using c'(3) by (simp add: lru_ok_def list_ok_def ring_def Init_def)
  then have "holds ?c []" by (auto simp: holds_def)
  with c' show ?thesis by (simp add: Purge_def same_cache_def)
qed

lemma NewLRU_ok: "0 < n \<Longrightarrow> NewLRU n cb = Inr c \<Longrightarrow> holds c [] \<and> lru_size c = n \<and> onEvict c = cb \<and> evicted c = []"
  by (auto simp: NewLRU_def holds_def lru_ok_def list_ok_def ring_def NewList_def Init_def zero_list_def intro!: exI [of _ "[]"])

section \<open>Properties of the cache\<close>

text \<open>
  C40. The cache refines a list of pairs with distinct keys, the most recently used first: no operation panics on
  its pointers; \<open>Get\<close> and \<open>Add\<close> of a present key move it to the front, \<open>Add\<close> of a new key beyond the size drops
  exactly the last pair, \<open>Resize\<close> keeps the most recently used ones, and \<open>Purge\<close> keeps none; the eviction callback
  gets exactly the pairs that were dropped, the oldest first.
\<close>

theorem lru_refines:
  assumes "holds c kvs" "0 \<le> n" "distinct ks" "set ks = set (map fst kvs)"
  shows "distinct (map fst kvs)
    \<and> (\<exists>c'. Add k v c = Some (c', snd (spec_add (lru_size c) k v kvs) \<noteq> []) \<and> holds c' (fst (spec_add (lru_size c) k v kvs))
         \<and> evicted c' = log_after c (snd (spec_add (lru_size c) k v kvs)))
    \<and> (\<exists>c'. Get k c = Some (c', map_of kvs k) \<and> holds c' (touch k kvs) \<and> evicted c' = evicted c)
    \<and> (\<exists>c'. cache_Remove k c = Some (c', map_of kvs k \<noteq> None) \<and> holds c' (drop_key k kvs)
         \<and> evicted c' = log_after c (case map_of kvs k of None \<Rightarrow> [] | Some w \<Rightarrow> [(k, w)]))
    \<and> (\<exists>c'. RemoveOldest c = Some (c', if kvs = [] then None else Some (last kvs)) \<and> holds c' (butlast kvs))
    \<and> (\<exists>c'. Resize n c = Some (c', int (length kvs - nat n)) \<and> holds c' (take (nat n) kvs) \<and> lru_size c' = n
         \<and> evicted c' = log_after c (rev (drop (nat n) kvs)))
    \<and> (\<exists>c'. Purge ks c = Some c' \<and> holds c' [] \<and> evicted c' = log_after c (map (\<lambda>k. (k, the (map_of kvs k))) ks))
    \<and> Peek k c = Some (map_of kvs k) \<and> Len c = int (length kvs)
    \<and> cache_Keys c = Some (map (\<lambda>kv. Some (fst kv)) (rev kvs)) \<and> cache_Values c = Some (map (\<lambda>kv. Some (snd kv)) (rev kvs))"
proof (intro conjI)
  show "\<exists>c'. Add k v c = Some (c', snd (spec_add (lru_size c) k v kvs) \<noteq> []) \<and> holds c' (fst (spec_add (lru_size c) k v kvs))
      \<and> evicted c' = log_after c (snd (spec_add (lru_size c) k v kvs))" using Add_ok [OF assms(1)] by blast
  show "\<exists>c'. Get k c = Some (c', map_of kvs k) \<and> holds c' (touch k kvs) \<and> evicted c' = evicted c" using Get_ok [OF assms(1)] by blast
  show "\<exists>c'. cache_Remove k c = Some (c', map_of kvs k \<noteq> None) \<and> holds c' (drop_key k kvs)
      \<and> evicted c' = log_after c (case map_of kvs k of None \<Rightarrow> [] | Some w \<Rightarrow> [(k, w)])" using Remove_key_ok [OF assms(1)] by blast
  show "\<exists>c'. RemoveOldest c = Some (c', if kvs = [] then None else Some (last kvs)) \<and> holds c' (butlast kvs)"
    using RemoveOldest_ok [OF assms(1)] by blast
  show "\<exists>c'. Resize n c = Some (c', int (length kvs - nat n)) \<and> holds c' (take (nat n) kvs) \<and> lru_size c' = n
      \<and> evicted c' = log_after c (rev (drop (nat n) kvs))" using Resize_ok [OF assms(1,2)] by blast
  show "\<exists>c'. Purge ks c = Some c' \<and> holds c' [] \<and> evicted c' = log_after c (map (\<lambda>k. (k, the (map_of kvs k))) ks)"
    using Purge_ok [OF assms(1,3,4)] by blast
qed (use assms(1) holds_distinct Peek_ok Keys_ok holds_Back [OF assms(1)] in \<open>simp_all add: Len_def\<close>)

theorem lru_refines_witness:
  "\<exists>c c1 c2. NewLRU 1 True = Inr c \<and> Add (1 :: nat) ''a'' c = Some (c1, False) \<and> Add 2 ''b'' c1 = Some (c2, True)
     \<and> holds c2 [(2, ''b'')] \<and> evicted c2 = [(1, ''a'')]"
proof -
  obtain c :: "(nat, string) LRU" where c: "NewLRU 1 True = Inr c" by (simp add: NewLRU_def)
  have new: "holds c []" "lru_size c = 1" "onEvict c" "evicted c = []" using NewLRU_ok [OF _ c] by simp_all
  have s1: "spec_add 1 1 ''a'' [] = ([(1 :: nat, ''a'')], [])" by (simp add: spec_add_def)
  from Add_ok [OF new(1), of 1 "''a''", unfolded new(2) s1] new(4) obtain c1 where
    c1: "Add 1 ''a'' c = Some (c1, False)" "holds c1 [(1, ''a'')]" "evicted c1 = []" "same_cache c c1" by auto
  have s2: "spec_add 1 2 ''b'' [(1, ''a'')] = ([(2 :: nat, ''b'')], [(1, ''a'')])" by (simp add: spec_add_def)
  have sz: "lru_size c1 = 1" "onEvict c1" using c1(4) new by (simp_all add: same_cache_def)
  have "set [1] = set (map fst [(1 :: nat, ''a'')])" by simp
  from lru_refines [OF c1(2) _ _ this, of 0 2 "''b''", unfolded sz(1) s2] have
    "\<exists>c2. Add 2 ''b'' c1 = Some (c2, True) \<and> holds c2 [(2, ''b'')] \<and> evicted c2 = log_after c1 [(1, ''a'')]" by simp
  with c c1(1,3) sz(2) show ?thesis by (simp add: log_after_def)
qed

end
