(* ===== verification/Netip.thy ===== *)
theory Netip
  imports Net_Util Strings_Util
begin

text \<open>
  The text forms of addresses and prefixes of the standard library (\<open>net/netip\<close>: \<open>ParseAddr\<close>,
  \<open>ParsePrefix\<close>, \<open>MustParsePrefix\<close>, \<open>IsUnspecified\<close>), as far as the resolvers of \<open>clientip\<close> use them.
\<close>

subsection \<open>IPv4\<close>

text \<open>An octet: decimal, at most 255, without a leading zero.\<close>

definition parse_octet :: "string \<Rightarrow> nat option" where
  "parse_octet s =
     (if s = '''' \<or> \<not> list_all is_digit s \<or> (1 < length s \<and> s ! 0 = CHR ''0'') then None
      else let v = foldl (\<lambda>a c. a * 10 + (val c - 48)) 0 s in if 255 < v then None else Some v)"

definition parse_ipv4_fields :: "string \<Rightarrow> (nat \<times> nat \<times> nat \<times> nat) option" where
  "parse_ipv4_fields s =
     (case map parse_octet (split_byte CHR ''.'' s) of
        [Some a, Some b, Some c, Some d] \<Rightarrow> Some (a, b, c, d)
      | _ \<Rightarrow> None)"

definition parse_ipv4 :: "string \<Rightarrow> addr option" where
  "parse_ipv4 s =
     map_option (\<lambda>(a, b, c, d). IPv4 (of_nat (((a * 256 + b) * 256 + c) * 256 + d))) (parse_ipv4_fields s)"

subsection \<open>IPv6\<close>

text \<open>
  Groups of at most four hexadecimal digits, separated by colons, the last two possibly as an IPv4 address;
  one \<open>::\<close> stands for the groups that are missing. The first argument counts the groups there is room for.
\<close>

fun parse_groups :: "nat \<Rightarrow> string \<Rightarrow> nat list \<Rightarrow> nat option \<Rightarrow> (string \<times> nat list \<times> nat option) option" where
  "parse_groups 0 s gs e = Some (s, gs, e)"
| "parse_groups (Suc n) s gs e =
     (let digits = takeWhile (\<lambda>c. hexDigit c \<noteq> None) s;
          rest = drop (length digits) s in
      if digits = '''' \<or> 4 < length digits then None
      else if rest \<noteq> [] \<and> hd rest = CHR ''.'' then
        (if (e = None \<and> length gs \<noteq> 6) \<or> 8 < length gs + 2 then None
         else map_option (\<lambda>(a, b, c, d). ([], gs @ [a * 256 + b, c * 256 + d], e)) (parse_ipv4_fields s))
      else
        (let gs = gs @ [foldl (\<lambda>a c. a * 16 + the (hexDigit c)) 0 digits] in
         case rest of
           [] \<Rightarrow> Some ([], gs, e)
         | [c] \<Rightarrow> None
         | c # d # r \<Rightarrow>
             if c \<noteq> CHR '':'' then None
             else if d = CHR '':'' then
               (if e \<noteq> None then None
                else if r = [] then Some ([], gs, Some (length gs))
                else parse_groups n r gs (Some (length gs)))
             else parse_groups n (d # r) gs e))"

definition ipv6_groups :: "string \<Rightarrow> nat list option" where
  "ipv6_groups s =
     (let start = (if has_prefix s ''::'' then (drop 2 s, Some 0) else (s, None)) in
      if start = ([], Some 0) then Some (replicate 8 0)
      else case parse_groups 8 (fst start) [] (snd start) of
        None \<Rightarrow> None
      | Some (s', gs, e) \<Rightarrow>
          if s' \<noteq> [] then None
          else if length gs < 8 then
            map_option (\<lambda>k. take k gs @ replicate (8 - length gs) 0 @ drop k gs) e
          else if e \<noteq> None then None
          else Some gs)"

definition ipv6_of :: "nat list \<Rightarrow> string \<Rightarrow> addr" where
  "ipv6_of gs zone = IPv6 (of_nat (foldl (\<lambda>a g. a * 65536 + g) 0 gs)) zone"

definition parse_ipv6 :: "string \<Rightarrow> addr option" where
  "parse_ipv6 s =
     (case index_byte s CHR ''%'' of
        None \<Rightarrow> map_option (\<lambda>gs. ipv6_of gs '''') (ipv6_groups s)
      | Some i \<Rightarrow>
          let zone = drop (i + 1) s in
          if zone = '''' then None
          else map_option (\<lambda>gs. ipv6_of gs zone) (ipv6_groups (take i s)))"

subsection \<open>Addresses and prefixes\<close>

text \<open>The first dot, colon or percent sign decides the form.\<close>

definition netip_ParseAddr :: "string \<Rightarrow> addr option" where
  "netip_ParseAddr s =
     (case dropWhile (\<lambda>c. c \<notin> {CHR ''.'', CHR '':'', CHR ''%''}) s of
        [] \<Rightarrow> None
      | c # _ \<Rightarrow> if c = CHR ''.'' then parse_ipv4 s else if c = CHR '':'' then parse_ipv6 s else None)"

definition netip_ParsePrefix :: "string \<Rightarrow> prefix option" where
  "netip_ParsePrefix s =
     (case last_index_byte s CHR ''/'' of
        None \<Rightarrow> None
      | Some i \<Rightarrow>
          (case netip_ParseAddr (take i s) of
             None \<Rightarrow> None
           | Some ip \<Rightarrow>
               let bitsStr = drop (i + 1) s in
               if Zone ip \<noteq> '''' \<or> bitsStr = '''' \<or> \<not> list_all is_digit bitsStr
                  \<or> (1 < length bitsStr \<and> bitsStr ! 0 = CHR ''0'')
               then None
               else let bits = foldl (\<lambda>a c. a * 10 + (val c - 48)) 0 bitsStr in
                 if BitLen ip < bits then None else Some \<lparr>paddr = ip, pbits = bits\<rparr>))"

text \<open>\<open>MustParsePrefix\<close> panics where this is not a prefix; the literals it is used on are prefixes.\<close>

definition netip_MustParsePrefix :: "string \<Rightarrow> prefix" where
  "netip_MustParsePrefix s = the (netip_ParsePrefix s)"

fun IsUnspecified :: "addr \<Rightarrow> bool" where
  "IsUnspecified (IPv4 w) = (w = 0)"
| "IsUnspecified (IPv6 w z) = (w = 0 \<and> z = '''')"

lemmas parse_groups_numeral = parse_groups.simps(2) [of "pred_numeral k" for k, folded numeral_eq_Suc]

lemma replicate_numeral: "replicate (numeral k) x = x # replicate (pred_numeral k) x"
  by (simp add: numeral_eq_Suc)

lemmas netip_eval = netip_ParseAddr_def parse_ipv4_def parse_ipv4_fields_def parse_octet_def parse_ipv6_def
  ipv6_groups_def ipv6_of_def parse_groups_numeral netip_ParsePrefix_def hexDigit_val is_digit_val Let_def replicate_numeral

text \<open>What the parsers give on the text forms of the documentation.\<close>

lemma netip_ParseAddr_examples:
  "netip_ParseAddr ''192.0.2.60'' = Some (IPv4 0xC000023C)"
  "netip_ParseAddr ''2001:db8:cafe::17%zone'' = Some (IPv6 0x20010DB8CAFE00000000000000000017 ''zone'')"
  "netip_ParseAddr ''::ffff:1.2.3.4'' = Some (IPv6 0xFFFF01020304 '''')"
  "netip_ParseAddr ''::'' = Some (IPv6 0 '''')"
  "netip_ParseAddr ''1.2.3'' = None" "netip_ParseAddr ''01.2.3.4'' = None" "netip_ParseAddr ''1.2.3.256'' = None"
  "netip_ParseAddr ''1::2::3'' = None" "netip_ParseAddr ''1:2:3:4:5:6:7:8:9'' = None" "netip_ParseAddr ''::1%'' = None"
  "netip_ParseAddr ''1:2:3:4:5:6:7::'' = Some (IPv6 0x00010002000300040005000600070000 '''')"
  by (simp_all add: netip_eval)

lemma netip_ParsePrefix_examples:
  "netip_ParsePrefix ''10.0.0.0/8'' = Some \<lparr>paddr = IPv4 0x0A000000, pbits = 8\<rparr>"
  "netip_ParsePrefix ''fe80::/10'' = Some \<lparr>paddr = IPv6 0xFE800000000000000000000000000000 '''', pbits = 10\<rparr>"
  "netip_ParsePrefix ''10.0.0.0/33'' = None" "netip_ParsePrefix ''10.0.0.0/08'' = None" "netip_ParsePrefix ''10.0.0.0'' = None"
  by (simp_all add: netip_eval)

lemma netip_ParseAddr_empty [simp]: "netip_ParseAddr '''' = None"
  by (simp add: netip_ParseAddr_def)

end
