(* ===== verification/Iter_Util.thy ===== *)
theory Iter_Util
  imports Prelude
begin

text \<open>
  Sequences (\<open>internal/iterutil/iterutil.go\<close>). An \<open>iter.Seq\<close> is modelled by the list of the elements it
  yields to a consumer that never stops; a consumer that stops sees a prefix of it. The splitting loops are
  partial functions, because with an empty separator they never end: \<open>None\<close> is a loop that does not return.
\<close>

subsection \<open>Combinators\<close>

definition SeqOf :: "'a list \<Rightarrow> 'a list" where
  "SeqOf elems = elems"

primrec Map_seq :: "'a list \<Rightarrow> ('a \<Rightarrow> 'b) \<Rightarrow> 'b list" where
  "Map_seq [] f = []"
| "Map_seq (a # seq) f = f a # Map_seq seq f"

definition Len :: "'a list \<Rightarrow> nat" where
  "Len seq = fold (\<lambda>_ n. n + 1) seq 0"

primrec Take :: "'a list \<Rightarrow> int \<Rightarrow> 'a list" where
  "Take [] count = []"
| "Take (e # seq) count = (if count > 0 then e # Take seq (count - 1) else [])"

definition First :: "'a \<Rightarrow> 'a list \<Rightarrow> 'a" where
  "First zero seq = (case seq of [] \<Rightarrow> zero | e # _ \<Rightarrow> e)"

text \<open>\<open>At\<close> panics on a negative index: \<open>None\<close>. Otherwise the element, if the sequence has one there.\<close>

primrec At_loop :: "'a list \<Rightarrow> int \<Rightarrow> 'a option" where
  "At_loop [] n = None"
| "At_loop (v # seq) n = (if 0 < n then At_loop seq (n - 1) else Some v)"

definition At :: "'a list \<Rightarrow> int \<Rightarrow> 'a option option" where
  "At seq n = (if n < 0 then None else Some (At_loop seq n))"

lemma Map_seq_map [simp]: "Map_seq seq f = map f seq"
  by (induction seq) auto

lemma Len_length [simp]: "Len seq = length seq"
proof -
  have "fold (\<lambda>_ n. n + 1) seq m = length seq + m" for m :: nat
    by (induction seq arbitrary: m) auto
  then show ?thesis by (simp add: Len_def)
qed

lemma Take_take [simp]: "Take seq count = take (nat count) seq"
  by (induction seq arbitrary: count) (auto simp: take_Cons' nat_diff_distrib)

lemma At_loop_nth: "At_loop seq (int n) = (if n < length seq then Some (seq ! n) else None)"
proof (induction seq arbitrary: n)
  case (Cons v seq)
  then show ?case using Cons.IH [of "n - 1"] by (cases n) auto
qed simp

lemma At_nth: "At seq (int n) = Some (if n < length seq then Some (seq ! n) else None)"
  by (simp add: At_def At_loop_nth)

subsection \<open>Splitting\<close>

text \<open>\<open>strings.Index\<close> and \<open>strings.LastIndex\<close>.\<close>

primrec index_sub :: "'a list \<Rightarrow> 'a list \<Rightarrow> nat option" where
  "index_sub [] p = (if p = [] then Some 0 else None)"
| "index_sub (x # s) p = (if has_prefix (x # s) p then Some 0 else map_option Suc (index_sub s p))"

primrec last_index_sub :: "'a list \<Rightarrow> 'a list \<Rightarrow> nat option" where
  "last_index_sub [] p = (if p = [] then Some 0 else None)"
| "last_index_sub (x # s) p =
     (case last_index_sub s p of
        Some i \<Rightarrow> Some (Suc i)
      | None \<Rightarrow> if has_prefix (x # s) p then Some 0 else None)"

partial_function (option) splitStringSeq :: "string \<Rightarrow> string \<Rightarrow> string list option" where
  "splitStringSeq s sep =
     (case index_sub s sep of
        None \<Rightarrow> Some [s]
      | Some i \<Rightarrow>
          Option.bind (splitStringSeq (drop (i + length sep) s) sep) (\<lambda>rest. Some (take i s # rest)))"

definition SplitStringSeq :: "string \<Rightarrow> string \<Rightarrow> string list option" where
  "SplitStringSeq s sep = splitStringSeq s sep"

text \<open>The same loop over byte slices.\<close>

definition SplitBytesSeq :: "string \<Rightarrow> string \<Rightarrow> string list option" where
  "SplitBytesSeq s sep = splitStringSeq s sep"

partial_function (option) backwardSplitSeq :: "string \<Rightarrow> string \<Rightarrow> string list option" where
  "backwardSplitSeq s sep =
     (case last_index_sub s sep of
        None \<Rightarrow> Some [s]
      | Some i \<Rightarrow>
          Option.bind (backwardSplitSeq (take i s) sep) (\<lambda>rest. Some (drop (i + length sep) s # rest)))"

definition BackwardSplitStringSeq :: "string \<Rightarrow> string \<Rightarrow> string list option" where
  "BackwardSplitStringSeq s sep = backwardSplitSeq s sep"

lemma index_sub_bound: "index_sub s p = Some i \<Longrightarrow> i + length p \<le> length s"
proof (induction s arbitrary: i)
  case (Cons x s)
  then show ?case using has_prefix_length [of "x # s" p] by (auto split: if_splits)
qed (simp split: if_splits)

lemma last_index_sub_bound: "last_index_sub s p = Some i \<Longrightarrow> i + length p \<le> length s"
proof (induction s arbitrary: i)
  case (Cons x s)
  then show ?case using has_prefix_length [of "x # s" p] by (auto split: if_splits option.splits)
qed (simp split: if_splits)

text \<open>With a separator the loops end, whatever the string; without one they do not.\<close>

lemma splitStringSeq_returns: "sep \<noteq> [] \<Longrightarrow> \<exists>parts. splitStringSeq s sep = Some parts"
proof (induction s rule: length_induct)
  case (1 s)
  show ?case
  proof (cases "index_sub s sep")
    case (Some i)
    then have "length (drop (i + length sep) s) < length s"
      using index_sub_bound [OF Some] 1(2) by (cases sep) auto
    then obtain parts where "splitStringSeq (drop (i + length sep) s) sep = Some parts"
      using 1 by blast
    then show ?thesis using Some by (subst splitStringSeq.simps) simp
  qed (subst splitStringSeq.simps, simp)
qed

lemma backwardSplitSeq_returns: "sep \<noteq> [] \<Longrightarrow> \<exists>parts. backwardSplitSeq s sep = Some parts"
proof (induction s rule: length_induct)
  case (1 s)
  show ?case
  proof (cases "last_index_sub s sep")
    case (Some i)
    then have "length (take i s) < length s"
      using last_index_sub_bound [OF Some] 1(2) by (cases sep) auto
    then obtain parts where "backwardSplitSeq (take i s) sep = Some parts"
      using 1 by blast
    then show ?thesis using Some by (subst backwardSplitSeq.simps) simp
  qed (subst backwardSplitSeq.simps, simp)
qed

text \<open>On a one-byte separator both are \<open>strings.Split\<close>, the second from the right.\<close>

lemma index_sub_byte [simp]: "index_sub s [c] = index_byte s c"
  by (induction s) auto

lemma last_index_sub_byte [simp]: "last_index_sub s [c] = last_index_byte s c"
proof (induction s)
  case (Cons x s)
  then show ?case by (cases "last_index_byte s c") auto
qed simp

lemma split_byte_at: "c \<notin> set s \<Longrightarrow> split_byte c (s @ c # t) = s # split_byte c t"
  by (simp add: split_byte_append)

lemma split_byte_last: "c \<notin> set t \<Longrightarrow> split_byte c (s @ c # t) = split_byte c s @ [t]"
proof (induction s)
  case Nil
  then show ?case using split_byte_append [of c t "[]"] by simp
next
  case (Cons x s)
  then show ?case by (cases "split_byte c s") auto
qed

lemma SplitStringSeq_byte [simp]: "SplitStringSeq s [c] = Some (split_byte c s)"
  unfolding SplitStringSeq_def
proof (induction s rule: length_induct)
  case (1 s)
  show ?case
  proof (cases "index_byte s c")
    case None
    then have "split_byte c s = [s]"
      using split_byte_append [of c s "[]"] by (simp add: index_byte_None)
    then show ?thesis using None by (subst splitStringSeq.simps) simp
  next
    case (Some i)
    then have "length (drop (Suc i) s) < length s" "c \<notin> set (take i s)"
      using index_byte_SomeD [OF Some] by auto
    moreover have "split_byte c s = take i s # split_byte c (drop (Suc i) s)"
      using index_byte_split [OF Some] split_byte_at [of c "take i s"] calculation(2) by metis
    ultimately show ?thesis using 1 Some by (subst splitStringSeq.simps) simp
  qed
qed

lemma BackwardSplitStringSeq_byte [simp]: "BackwardSplitStringSeq s [c] = Some (rev (split_byte c s))"
  unfolding BackwardSplitStringSeq_def
proof (induction s rule: length_induct)
  case (1 s)
  show ?case
  proof (cases "last_index_byte s c")
    case None
    then have "split_byte c s = [s]"
      using split_byte_append [of c s "[]"] by (simp add: last_index_byte_None)
    then show ?thesis using None by (subst backwardSplitSeq.simps) simp
  next
    case (Some i)
    note at = last_index_byte_SomeD [OF Some]
    then have "length (take i s) < length s" "s = take i s @ c # drop (Suc i) s"
      using id_take_nth_drop [of i s] by auto
    moreover have "split_byte c s = split_byte c (take i s) @ [drop (Suc i) s]"
      using split_byte_last [of c "drop (Suc i) s" "take i s"] at calculation(2) by metis
    ultimately show ?thesis using 1 Some by (subst backwardSplitSeq.simps) simp
  qed
qed

end
