(* ===== verification/Forwarded.thy ===== *)
theory Forwarded
  imports Netip Iter_Util
begin

text \<open>
  Reading addresses out of request headers (\<open>clientip/clientip.go\<close>): \<open>ParseAddr\<close>, the scanners of quoted
  strings, the elements of a Forwarded header, and the sequences of addresses of a header, read from the left
  (\<open>addrSeq\<close>) and from the right (\<open>backwardAddrSeq\<close>). The zero \<open>netip.Addr\<close> is \<open>None\<close>.
\<close>

subsection \<open>Strings\<close>

text \<open>\<open>strings.TrimSpace\<close>: the runes of \<open>unicode.IsSpace\<close>, encoded, are dropped at both ends.\<close>

definition space_runes :: "string list" where
  "space_runes =
     [[CHR 0x09], [CHR 0x0A], [CHR 0x0B], [CHR 0x0C], [CHR 0x0D], [CHR 0x20], [CHR 0xC2, CHR 0x85],
      [CHR 0xC2, CHR 0xA0], [CHR 0xE1, CHR 0x9A, CHR 0x80], [CHR 0xE2, CHR 0x80, CHR 0x80],
      [CHR 0xE2, CHR 0x80, CHR 0x81], [CHR 0xE2, CHR 0x80, CHR 0x82], [CHR 0xE2, CHR 0x80, CHR 0x83],
      [CHR 0xE2, CHR 0x80, CHR 0x84], [CHR 0xE2, CHR 0x80, CHR 0x85], [CHR 0xE2, CHR 0x80, CHR 0x86],
      [CHR 0xE2, CHR 0x80, CHR 0x87], [CHR 0xE2, CHR 0x80, CHR 0x88], [CHR 0xE2, CHR 0x80, CHR 0x89],
      [CHR 0xE2, CHR 0x80, CHR 0x8A], [CHR 0xE2, CHR 0x80, CHR 0xA8], [CHR 0xE2, CHR 0x80, CHR 0xA9],
      [CHR 0xE2, CHR 0x80, CHR 0xAF], [CHR 0xE2, CHR 0x81, CHR 0x9F], [CHR 0xE3, CHR 0x80, CHR 0x80]]"

lemma space_runes_not_Nil: "r \<in> set space_runes \<Longrightarrow> r \<noteq> []"
  by (auto simp: space_runes_def)

function trim_left :: "string \<Rightarrow> string" where
  "trim_left s = (case find (has_prefix s) space_runes of None \<Rightarrow> s | Some r \<Rightarrow> trim_left (drop (length r) s))"
  by auto

termination
proof (relation "measure length")
  fix s r assume "find (has_prefix s) space_runes = Some r"
  then have "has_prefix s r" "r \<in> set space_runes" by (auto simp: find_Some_iff)
  then show "(drop (length r) s, s) \<in> measure length"
    using space_runes_not_Nil [of r] has_prefix_length [of s r] by (cases r; cases s) auto
qed simp

function trim_right :: "string \<Rightarrow> string" where
  "trim_right s =
     (case find (has_suffix s) space_runes of None \<Rightarrow> s | Some r \<Rightarrow> trim_right (take (length s - length r) s))"
  by auto

termination
proof (relation "measure length")
  fix s r assume "find (has_suffix s) space_runes = Some r"
  then have "has_suffix s r" "r \<in> set space_runes" by (auto simp: find_Some_iff)
  then show "(take (length s - length r) s, s) \<in> measure length"
    using space_runes_not_Nil [of r] by (cases r) (auto simp: has_suffix_def)
qed simp

declare trim_left.simps [simp del] trim_right.simps [simp del]

definition TrimSpace :: "string \<Rightarrow> string" where
  "TrimSpace s = trim_right (trim_left s)"

text \<open>A string that starts and ends with visible bytes is left alone.\<close>

definition visible :: "char \<Rightarrow> bool" where
  "visible c \<longleftrightarrow> 0x21 \<le> val c \<and> val c \<le> 0x7E"

lemma space_runes_ends: "r \<in> set space_runes \<Longrightarrow> \<not> visible (hd r) \<and> \<not> visible (last r)"
  by (auto simp: space_runes_def visible_def)

lemma trim_left_visible: "visible (hd s) \<Longrightarrow> s \<noteq> [] \<Longrightarrow> trim_left s = s"
proof -
  assume s: "visible (hd s)" "s \<noteq> []"
  have "find (has_prefix s) space_runes = None"
  proof -
    have "\<not> has_prefix s r" if "r \<in> set space_runes" for r
      using space_runes_ends [OF that] space_runes_not_Nil [OF that] s
      by (cases s; cases r) (auto simp: has_prefix_iff)
    then show ?thesis by (simp add: find_None_iff)
  qed
  then show ?thesis by (simp add: trim_left.simps [of s])
qed

lemma trim_right_visible: "visible (last s) \<Longrightarrow> s \<noteq> [] \<Longrightarrow> trim_right s = s"
proof -
  assume s: "visible (last s)" "s \<noteq> []"
  have "find (has_suffix s) space_runes = None"
  proof -
    have "\<not> has_suffix s r" if "r \<in> set space_runes" for r
      using space_runes_ends [OF that] space_runes_not_Nil [OF that] s by (auto simp: has_suffix_iff)
    then show ?thesis by (simp add: find_None_iff)
  qed
  then show ?thesis by (simp add: trim_right.simps [of s])
qed

lemma TrimSpace_visible: "visible (hd s) \<Longrightarrow> visible (last s) \<Longrightarrow> s \<noteq> [] \<Longrightarrow> TrimSpace s = s"
  by (simp add: TrimSpace_def trim_left_visible trim_right_visible)

lemma trim_left_space [simp]: "trim_left (CHR '' '' # s) = trim_left s"
  by (simp add: trim_left.simps [of "_ # _"] space_runes_def)

lemma TrimSpace_space [simp]: "TrimSpace (CHR '' '' # s) = TrimSpace s"
  by (simp add: TrimSpace_def)

text \<open>\<open>None\<close> is the panic of \<open>trimMatchedEnds\<close> on its second argument.\<close>

definition trimMatchedEnds :: "string \<Rightarrow> string \<Rightarrow> string option" where
  "trimMatchedEnds s chars =
     (if length chars \<noteq> 1 \<and> length chars \<noteq> 2 then None
      else
        let first = chars ! 0; last = (if 1 < length chars then chars ! 1 else chars ! 0) in
        if length s < 2 then Some s
        else if s ! 0 \<noteq> first then Some s
        else if s ! (length s - 1) \<noteq> last then Some s
        else Some (slice s 1 (length s - 1)))"

lemma trimMatchedEnds_total: "length chars = 1 \<or> length chars = 2 \<Longrightarrow> trimMatchedEnds s chars \<noteq> None"
  by (auto simp: trimMatchedEnds_def Let_def)

text \<open>\<open>strings.Cut\<close> at one byte.\<close>

definition cut :: "string \<Rightarrow> char \<Rightarrow> (string \<times> string) option" where
  "cut s c = map_option (\<lambda>i. (take i s, drop (i + 1) s)) (index_byte s c)"

subsection \<open>Addresses\<close>

datatype ip_error =
    ErrNoClientIPResolver | ErrInvalidIPAddress | ErrUnspecifiedIPAddress | ErrTrustedPeer | ErrRemoteAddress
  | ErrSingleIPHeader | ErrLeftmostNonPrivate | ErrRightmostNonPrivate | ErrRightmostTrustedCount
  | ErrRightmostTrustedRange | Wrapped "ip_error list" string | Joined "ip_error list" | Failure string

definition ParseAddr :: "string \<Rightarrow> ip_error + addr" where
  "ParseAddr ip =
     (let ip = (case SplitHostPort ip of Some (host, _) \<Rightarrow> host | None \<Rightarrow> ip);
          ip = the (trimMatchedEnds ip ''[]'') in
      case netip_ParseAddr ip of
        None \<Rightarrow> Inl ErrInvalidIPAddress
      | Some a \<Rightarrow>
          let a = Unmap a in
          if IsUnspecified (WithoutZone a) then Inl ErrUnspecifiedIPAddress else Inr a)"

text \<open>\<open>addr, _ := ParseAddr(s)\<close>: the zero address on an error.\<close>

definition addr_or_zero :: "ip_error + addr \<Rightarrow> addr option" where
  "addr_or_zero r = (case r of Inl _ \<Rightarrow> None | Inr a \<Rightarrow> Some a)"

definition mustParseAddr :: "string \<Rightarrow> addr option" where
  "mustParseAddr ipStr = addr_or_zero (ParseAddr ipStr)"

subsection \<open>Quoted strings\<close>

abbreviation quote :: char where "quote \<equiv> CHR 0x22"
abbreviation backslash :: char where "backslash \<equiv> CHR 0x5C"

primrec backslashes :: "string \<Rightarrow> nat \<Rightarrow> nat" where
  "backslashes s 0 = 0"
| "backslashes s (Suc i) = (if s ! i = backslash then backslashes s i + 1 else 0)"

definition isEscaped :: "string \<Rightarrow> nat \<Rightarrow> bool" where
  "isEscaped s i \<longleftrightarrow> backslashes s i mod 2 = 1"

primrec lastUnquoted_loop :: "string \<Rightarrow> char \<Rightarrow> bool \<Rightarrow> nat \<Rightarrow> nat option" where
  "lastUnquoted_loop s sep quoted 0 = None"
| "lastUnquoted_loop s sep quoted (Suc i) =
     (if s ! i = sep then (if \<not> quoted then Some i else lastUnquoted_loop s sep quoted i)
      else if s ! i = quote then
        (if \<not> quoted \<or> \<not> isEscaped s i then lastUnquoted_loop s sep (\<not> quoted) i
         else lastUnquoted_loop s sep quoted i)
      else lastUnquoted_loop s sep quoted i)"

definition lastUnquoted :: "string \<Rightarrow> char \<Rightarrow> nat option" where
  "lastUnquoted s sep = lastUnquoted_loop s sep False (length s)"

text \<open>The inner loop of \<open>indexUnquoted\<close>: the quote that closes the string opened at \<open>c\<close>.\<close>

function closing_quote :: "string \<Rightarrow> nat \<Rightarrow> nat option" where
  "closing_quote s c =
     (case index_byte (drop (c + 1) s) quote of
        None \<Rightarrow> None
      | Some n \<Rightarrow> let c = c + (n + 1) in if \<not> isEscaped s c then Some c else closing_quote s c)"
  by auto

termination
  by (relation "measure (\<lambda>(s, c). length s - c)") (auto dest!: index_byte_SomeD)

declare closing_quote.simps [simp del]

lemma closing_quote_bounds: "closing_quote s c = Some d \<Longrightarrow> c < d \<and> d < length s \<and> s ! d = quote"
proof (induction s c rule: closing_quote.induct)
  case (1 s c)
  show ?case
  proof (cases "index_byte (drop (c + 1) s) quote")
    case None
    with 1(2) show ?thesis by (simp add: closing_quote.simps)
  next
    case (Some n)
    note at = index_byte_SomeD [OF Some]
    from 1(2) Some consider "d = c + (n + 1)" | "isEscaped s (c + (n + 1))" "closing_quote s (c + (n + 1)) = Some d"
      by (subst (asm) closing_quote.simps) (auto simp: Let_def split: if_splits)
    then show ?thesis
    proof cases
      case 1
      with at have "n < length s - Suc c" "drop (Suc c) s ! n = quote" by auto
      with 1 show ?thesis by auto
    next
      case 2
      with "1.IH" [OF Some refl] show ?thesis by simp
    qed
  qed
qed

function indexUnquoted_loop :: "string \<Rightarrow> char \<Rightarrow> nat \<Rightarrow> nat \<Rightarrow> nat option" where
  "indexUnquoted_loop s sep i start =
     (case index_byte (slice s start i) quote of
        None \<Rightarrow> Some i
      | Some q \<Rightarrow>
          (case closing_quote s (start + q) of
             None \<Rightarrow> None
           | Some c \<Rightarrow>
               if i < c then
                 (case index_byte (drop (c + 1) s) sep of
                    None \<Rightarrow> None
                  | Some n \<Rightarrow> indexUnquoted_loop s sep (c + 1 + n) (c + 1))
               else indexUnquoted_loop s sep i (c + 1)))"
  by auto

termination
  by (relation "measure (\<lambda>(s, sep, i, start). length s - start)") (auto dest!: closing_quote_bounds)

declare indexUnquoted_loop.simps [simp del]

definition indexUnquoted :: "string \<Rightarrow> char \<Rightarrow> nat option" where
  "indexUnquoted s sep = (case index_byte s sep of None \<Rightarrow> None | Some i \<Rightarrow> indexUnquoted_loop s sep i 0)"

subsection \<open>Elements of a Forwarded header\<close>

text \<open>The loop over at most four pairs: the value of the first \<open>for\<close> pair.\<close>

primrec for_part :: "nat \<Rightarrow> string \<Rightarrow> string" where
  "for_part 0 fwd = ''''"
| "for_part (Suc n) fwd =
     (let sep = indexUnquoted fwd CHR '';'';
          fp = (case sep of Some i \<Rightarrow> take i fwd | None \<Rightarrow> fwd);
          more = (case sep of None \<Rightarrow> '''' | Some i \<Rightarrow> for_part n (drop (i + 1) fwd)) in
      case cut (TrimSpace fp) CHR ''='' of
        Some (key, value) \<Rightarrow> if map ToLowerASCII key = ''for'' then value else more
      | None \<Rightarrow> more)"

definition parseForwardedListItem :: "string \<Rightarrow> addr option" where
  "parseForwardedListItem fwd =
     (let forPart = TrimSpace (for_part 4 fwd);
          forPart = the (trimMatchedEnds forPart [quote]) in
      if forPart = '''' then None else addr_or_zero (ParseAddr forPart))"

lemmas for_part_numeral = for_part.simps(2) [of "pred_numeral k" for k, folded numeral_eq_Suc]

subsection \<open>Sequences of addresses\<close>

definition forwardedHdr :: string where "forwardedHdr = ''Forwarded''"
definition xForwardedForHdr :: string where "xForwardedForHdr = ''X-Forwarded-For''"

lemma lastUnquoted_loop_bound: "lastUnquoted_loop s sep quoted n = Some i \<Longrightarrow> i < n \<and> s ! i = sep"
  by (induction n arbitrary: quoted) (auto split: if_splits simp: less_Suc_eq)

lemma lastUnquoted_bound: "lastUnquoted s sep = Some i \<Longrightarrow> i < length s \<and> s ! i = sep"
  by (simp add: lastUnquoted_def lastUnquoted_loop_bound)

text \<open>The loop over one value of a Forwarded header, from the right.\<close>

function backward_elements :: "string \<Rightarrow> addr option list" where
  "backward_elements v =
     (case lastUnquoted v CHR '','' of
        None \<Rightarrow> [parseForwardedListItem (TrimSpace v)]
      | Some i \<Rightarrow> parseForwardedListItem (TrimSpace (drop (i + 1) v)) # backward_elements (take i v))"
  by auto

termination
  by (relation "measure length") (auto dest!: lastUnquoted_bound)

declare backward_elements.simps [simp del]

definition backwardAddrSeq :: "string list \<Rightarrow> string \<Rightarrow> addr option list" where
  "backwardAddrSeq values headerName =
     concat (map (\<lambda>v.
       if headerName = forwardedHdr then backward_elements v
       else map (\<lambda>rawListItem. addr_or_zero (ParseAddr (TrimSpace rawListItem))) (the (BackwardSplitStringSeq v '','')))
       (rev values))"

definition addrSeq :: "string list \<Rightarrow> string \<Rightarrow> addr option list" where
  "addrSeq values headerName =
     concat (map (\<lambda>v. map (\<lambda>rawListItem.
       let rawListItem = TrimSpace rawListItem in
       if headerName = forwardedHdr then parseForwardedListItem rawListItem
       else addr_or_zero (ParseAddr rawListItem)) (the (SplitStringSeq v '',''))) values)"

end
