(* ===== verification/Forwarded_Quotes.thy ===== *)
theory Forwarded_Quotes
  imports Forwarded
begin

text \<open>
  The scanners of quoted strings against a reference: a three-state automaton that reads the string once from
  the left. \<open>indexUnquoted\<close>, which jumps from quote to quote, computes the position that the automaton finds;
  \<open>lastUnquoted\<close>, which reads from the right, recovers the elements that were appended to a header, whatever
  stands to the left of them.
\<close>

datatype qstate = Outside | Inside | Escape

fun qstep :: "qstate \<Rightarrow> char \<Rightarrow> qstate" where
  "qstep Outside c = (if c = quote then Inside else Outside)"
| "qstep Inside c = (if c = quote then Outside else if c = backslash then Escape else Inside)"
| "qstep Escape c = Inside"

primrec next_unquoted :: "char \<Rightarrow> qstate \<Rightarrow> string \<Rightarrow> nat option" where
  "next_unquoted sep q [] = None"
| "next_unquoted sep q (c # s) =
     (if q = Outside \<and> c = sep then Some 0 else map_option Suc (next_unquoted sep (qstep q c) s))"

text \<open>
  A list element of RFC 7239: outside quoted strings neither the separator nor a backslash occurs, and every
  quoted string is closed.
\<close>

primrec well_quoted :: "qstate \<Rightarrow> string \<Rightarrow> bool" where
  "well_quoted q [] = (q = Outside)"
| "well_quoted q (c # s) = ((q = Outside \<longrightarrow> c \<noteq> CHR '','' \<and> c \<noteq> backslash) \<and> well_quoted (qstep q c) s)"

definition element :: "string \<Rightarrow> bool" where
  "element s \<longleftrightarrow> well_quoted Outside s"

subsection \<open>Escapes\<close>

lemma isEscaped_0 [simp]: "\<not> isEscaped s 0"
  by (simp add: isEscaped_def)

lemma isEscaped_Suc: "isEscaped s (Suc i) \<longleftrightarrow> s ! i = backslash \<and> \<not> isEscaped s i"
  by (auto simp: isEscaped_def) presburger+

lemma isEscaped_qstep:
  assumes "isEscaped s i \<longleftrightarrow> q = Escape" "q = Outside \<longrightarrow> s ! i \<noteq> backslash"
  shows "isEscaped s (Suc i) \<longleftrightarrow> qstep q (s ! i) = Escape"
  using assms by (cases q) (auto simp: isEscaped_Suc)

subsection \<open>Scanning from the left\<close>

lemma next_unquoted_append:
  "next_unquoted sep q (s @ t) =
     (case next_unquoted sep q s of Some i \<Rightarrow> Some i
      | None \<Rightarrow> map_option (\<lambda>i. length s + i) (next_unquoted sep (foldl qstep q s) t))"
proof (induction s arbitrary: q)
  case Nil
  then show ?case by (cases "next_unquoted sep q t") auto
next
  case (Cons c s)
  then show ?case
    by (cases "next_unquoted sep (qstep q c) s"; cases "next_unquoted sep (foldl qstep (qstep q c) s) t") auto
qed

lemma next_unquoted_absent: "sep \<notin> set s \<Longrightarrow> next_unquoted sep q s = None"
  by (induction s arbitrary: q) auto

lemma next_unquoted_first:
  "quote \<notin> set (take i s) \<Longrightarrow> index_byte s sep = Some i \<Longrightarrow> next_unquoted sep Outside s = Some i"
proof (induction s arbitrary: i)
  case (Cons c s)
  then show ?case by (cases i) (auto split: if_splits)
qed simp

lemma foldl_qstep_outside: "quote \<notin> set s \<Longrightarrow> foldl qstep Outside s = Outside"
  by (induction s) auto

lemma index_byte_drop_first: "index_byte s c = Some n \<Longrightarrow> k \<le> n \<Longrightarrow> index_byte (drop k s) c = Some (n - k)"
proof (induction s arbitrary: n k)
  case (Cons x s)
  then show ?case by (cases k) (auto split: if_splits)
qed simp

text \<open>Inside a quoted string nothing is found before the quote that closes it.\<close>

lemma inside_free: "quote \<notin> set s \<Longrightarrow> q \<noteq> Outside \<Longrightarrow> next_unquoted sep q s = None \<and> foldl qstep q s \<noteq> Outside"
proof (induction s arbitrary: q)
  case (Cons c s)
  then have "qstep q c \<noteq> Outside" by (cases q) auto
  with Cons show ?case by simp
qed simp

lemma inside_escape:
  "quote \<notin> set s \<Longrightarrow> q \<noteq> Outside \<Longrightarrow> (isEscaped t i \<longleftrightarrow> q = Escape) \<Longrightarrow> take (length s) (drop i t) = s \<Longrightarrow>
     (isEscaped t (i + length s) \<longleftrightarrow> foldl qstep q s = Escape)"
proof (induction s arbitrary: q i)
  case (Cons c s)
  from Cons.prems(4) have "i < length t" by (cases "i < length t") auto
  from Cons_nth_drop_Suc [OF this] have c: "t ! i = c" and s: "take (length s) (drop (Suc i) t) = s"
    using Cons.prems(4) by (metis length_Cons list.inject take_Suc_Cons)+
  have "isEscaped t (Suc i) \<longleftrightarrow> qstep q c = Escape"
    using isEscaped_qstep [of t i q] Cons.prems c by auto
  moreover have "qstep q c \<noteq> Outside"
    using Cons.prems by (cases q) auto
  ultimately show ?case
    using Cons.IH [of "qstep q c" "Suc i"] Cons.prems s by simp
qed simp

lemma closing_quote_next:
  assumes "s ! c = quote" "c < length s"
  shows "next_unquoted sep Inside (drop (c + 1) s) =
     (case closing_quote s c of None \<Rightarrow> None
      | Some d \<Rightarrow> map_option (\<lambda>i. d - c + i) (next_unquoted sep Outside (drop (d + 1) s)))"
  using assms
proof (induction s c rule: closing_quote.induct)
  case (1 s c)
  let ?t = "drop (c + 1) s"
  have esc: "\<not> isEscaped s (c + 1)" using 1(2) by (simp add: isEscaped_Suc)
  show ?case
  proof (cases "index_byte ?t quote")
    case None
    then have "next_unquoted sep Inside ?t = None"
      using inside_free [of ?t Inside sep] by (simp add: index_byte_None)
    with None show ?thesis by (simp add: closing_quote.simps [of s c])
  next
    case (Some n)
    let ?u = "take n ?t" and ?d = "c + (n + 1)"
    note at = index_byte_SomeD [OF Some] and split = index_byte_split [OF Some]
    have d: "?d < length s" "s ! ?d = quote" using at by auto
    have rest: "drop (Suc n) ?t = drop (?d + 1) s" by (simp add: add.commute)
    have u: "quote \<notin> set ?u" "length ?u = n" using at by auto
    have q: "foldl qstep Inside ?u \<noteq> Outside" "next_unquoted sep Inside ?u = None"
      using inside_free [OF u(1), of Inside sep] by auto
    have state: "isEscaped s ?d \<longleftrightarrow> foldl qstep Inside ?u = Escape"
      using inside_escape [OF u(1), of Inside s "c + 1"] esc u(2) by (simp add: add.commute add.left_commute)
    have step: "next_unquoted sep Inside ?t =
        map_option (\<lambda>i. Suc n + i) (next_unquoted sep (qstep (foldl qstep Inside ?u) quote) (drop (?d + 1) s))"
      using arg_cong [OF split, of "next_unquoted sep Inside"] q u(2) rest
      by (simp add: next_unquoted_append option.map_comp comp_def)
    show ?thesis
    proof (cases "isEscaped s ?d")
      case True
      then have "qstep (foldl qstep Inside ?u) quote = Inside" using state by simp
      moreover have "closing_quote s c = closing_quote s ?d"
        using Some True by (simp add: closing_quote.simps [of s c])
      ultimately show ?thesis
        using step "1.IH" [OF Some refl] True d closing_quote_bounds [of s ?d]
        by (auto simp: option.map_comp comp_def split: option.splits intro!: option.map_cong)
    next
      case False
      then have "qstep (foldl qstep Inside ?u) quote = Outside"
        using state q(1) by (cases "foldl qstep Inside ?u") auto
      moreover have "closing_quote s c = Some ?d"
        using Some False by (simp add: closing_quote.simps [of s c])
      ultimately show ?thesis using step by (auto intro!: option.map_cong)
    qed
  qed
qed

text \<open>
  The loop stands at a position outside quoted strings, with a candidate at the first separator from there on.
\<close>

lemma indexUnquoted_loop_next:
  assumes "sep \<noteq> quote" "index_byte (drop start s) sep = Some n"
  shows "indexUnquoted_loop s sep (start + n) start =
     map_option (\<lambda>k. start + k) (next_unquoted sep Outside (drop start s))"
  using assms(2)
proof (induction "length s - start" arbitrary: start n rule: less_induct)
  case less
  let ?t = "drop start s"
  have slice: "slice s start (start + n) = take n ?t" by (simp add: slice_def)
  note first = index_byte_SomeD [OF less(2)]
  show ?case
  proof (cases "index_byte (take n ?t) quote")
    case None
    then have "next_unquoted sep Outside ?t = Some n"
      using next_unquoted_first [of n ?t sep] less(2) by (simp add: index_byte_None)
    with None show ?thesis by (simp add: indexUnquoted_loop.simps [of s] slice)
  next
    case (Some k)
    note at = index_byte_SomeD [OF Some]
    have k: "k < n" "s ! (start + k) = quote" "start + k < length s" using at first by auto
    have opened: "next_unquoted sep Outside ?t = map_option (\<lambda>i. Suc k + i) (next_unquoted sep Inside (drop (start + k + 1) s))"
    proof -
      have "next_unquoted sep Outside (take k ?t) = None" "foldl qstep Outside (take k ?t) = Outside"
      proof -
        have "sep \<notin> set (take k ?t)" using first k(1) by (meson in_mono less_imp_le set_take_subset_set_take)
        then show "next_unquoted sep Outside (take k ?t) = None" by (rule next_unquoted_absent)
        have "quote \<notin> set (take k ?t)" using at k(1) by (simp add: min_def)
        then show "foldl qstep Outside (take k ?t) = Outside"
          by (rule foldl_qstep_outside)
      qed
      moreover have "?t = take k ?t @ quote # drop (start + k + 1) s"
        using id_take_nth_drop [of k ?t] k by (simp add: add.commute)
      ultimately show ?thesis
        using assms(1) next_unquoted_append [of sep Outside "take k ?t" "quote # drop (start + k + 1) s"] k
        by (auto simp: option.map_comp comp_def intro!: option.map_cong)
    qed
    show ?thesis
    proof (cases "closing_quote s (start + k)")
      case None
      then show ?thesis
        using opened closing_quote_next [OF k(2,3), of sep] Some
        by (simp add: indexUnquoted_loop.simps [of s] slice)
    next
      case closed: (Some c)
      note c = closing_quote_bounds [OF closed]
      let ?i = "start + n"
      have jump: "next_unquoted sep Outside ?t =
          map_option (\<lambda>i. c + 1 + i - start) (next_unquoted sep Outside (drop (c + 1) s))"
        using opened closing_quote_next [OF k(2,3), of sep] closed c
        by (auto simp: option.map_comp comp_def intro!: option.map_cong)
      have IH: "indexUnquoted_loop s sep (c + 1 + m) (c + 1) =
          map_option (\<lambda>i. c + 1 + i) (next_unquoted sep Outside (drop (c + 1) s))"
        if "index_byte (drop (c + 1) s) sep = Some m" for m
        using less(1) [OF _ that] c k by (auto intro!: option.map_cong)
      show ?thesis
      proof (cases "?i < c")
        case True
        show ?thesis
        proof (cases "index_byte (drop (c + 1) s) sep")
          case None
          then have "next_unquoted sep Outside (drop (c + 1) s) = None"
            using next_unquoted_absent [of sep "drop (c + 1) s" Outside] by (simp add: index_byte_None)
          with None show ?thesis
            using True Some closed jump by (simp add: indexUnquoted_loop.simps [of s sep] slice)
        next
          case found: (Some m)
          show ?thesis
            using True Some closed jump IH [OF found] found c k
            by (subst indexUnquoted_loop.simps) (auto simp: slice option.map_comp comp_def intro!: option.map_cong)
        qed
      next
        case False
        have "s ! ?i = sep" "?i < length s" using first by auto
        then have "?i \<noteq> c" using c assms(1) by auto
        with False have i: "c + 1 \<le> ?i" by simp
        have "index_byte (drop (c + 1) s) sep = Some (?i - (c + 1))"
          using index_byte_drop_first [OF less(2), of "c + 1 - start"] i c k by (simp add: add.commute)
        from IH [OF this] show ?thesis
          using False Some closed jump i c k
          by (subst indexUnquoted_loop.simps) (auto simp: slice option.map_comp comp_def intro!: option.map_cong)
      qed
    qed
  qed
qed

lemma indexUnquoted_next:
  assumes "sep \<noteq> quote"
  shows "indexUnquoted s sep = next_unquoted sep Outside s"
proof (cases "index_byte s sep")
  case None
  then have "next_unquoted sep Outside s = None"
    using next_unquoted_absent [of sep s Outside] by (simp add: index_byte_None)
  with None show ?thesis by (simp add: indexUnquoted_def)
next
  case (Some n)
  then show ?thesis
    using indexUnquoted_loop_next [OF assms, of 0 s n] by (simp add: indexUnquoted_def option.map_ident)
qed

subsection \<open>Scanning from the right\<close>

lemma lastUnquoted_loop_element:
  "well_quoted q e \<Longrightarrow> take (length e) (drop j s) = e \<Longrightarrow> (isEscaped s j \<longleftrightarrow> q = Escape) \<Longrightarrow>
     lastUnquoted_loop s CHR '','' False (j + length e) = lastUnquoted_loop s CHR '','' (q \<noteq> Outside) j"
proof (induction e arbitrary: q j)
  case (Cons c e)
  from Cons.prems(2) have "j < length s" by (cases "j < length s") auto
  from Cons_nth_drop_Suc [OF this] have c: "s ! j = c" and e: "take (length e) (drop (Suc j) s) = e"
    using Cons.prems(2) by (metis length_Cons list.inject take_Suc_Cons)+
  have "isEscaped s (Suc j) \<longleftrightarrow> qstep q c = Escape"
    using isEscaped_qstep [of s j q] Cons.prems(1,3) c by auto
  then have "lastUnquoted_loop s CHR '','' False (j + length (c # e))
      = lastUnquoted_loop s CHR '','' (qstep q c \<noteq> Outside) (Suc j)"
    using Cons.IH [of "qstep q c" "Suc j"] Cons.prems(1) e by simp
  also have "\<dots> = lastUnquoted_loop s CHR '','' (q \<noteq> Outside) j"
    using Cons.prems(1,3) c by (cases q) auto
  finally show ?case .
qed simp

lemma lastUnquoted_element: "element e \<Longrightarrow> lastUnquoted e CHR '','' = None"
  using lastUnquoted_loop_element [of Outside e 0 e] by (simp add: element_def lastUnquoted_def)

lemma lastUnquoted_append: "element e \<Longrightarrow> lastUnquoted (x @ CHR '','' # e) CHR '','' = Some (length x)"
  using lastUnquoted_loop_element [of Outside e "Suc (length x)" "x @ CHR '','' # e"]
  by (simp add: element_def lastUnquoted_def isEscaped_Suc nth_append)

lemma backward_elements_single: "element e \<Longrightarrow> backward_elements e = [parseForwardedListItem (TrimSpace e)]"
  by (simp add: backward_elements.simps lastUnquoted_element)

lemma backward_elements_append:
  "element e \<Longrightarrow> backward_elements (x @ CHR '','' # e) = parseForwardedListItem (TrimSpace e) # backward_elements x"
  by (subst backward_elements.simps) (simp add: lastUnquoted_append)

section \<open>Properties of the scanners\<close>

text \<open>
  C34. Both scanners of quoted strings are right. \<open>indexUnquoted\<close> finds the first separator outside quoted
  strings, as one pass from the left defines it; \<open>lastUnquoted\<close> splits off exactly the element that was
  appended to a value, whatever the value was, an unbalanced quote included, and finds no comma in an element.
\<close>

theorem quoted_scanners_correct:
  assumes "sep \<noteq> quote" "element e"
  shows "indexUnquoted s sep = next_unquoted sep Outside s
    \<and> lastUnquoted (x @ CHR '','' # e) CHR '','' = Some (length x)
    \<and> lastUnquoted e CHR '','' = None"
  using indexUnquoted_next [OF assms(1)] lastUnquoted_append [OF assms(2)] lastUnquoted_element [OF assms(2)]
  by blast

text \<open>A client that opened a quote; the proxy behind it wrote a comma inside a quoted host.\<close>

lemma quoted_scanners_witness:
  "element (''for=1.2.3.4;host='' @ [quote] @ ''a,b;c'' @ [quote] @ '';by=x'')
   \<and> lastUnquoted ((''for='' @ [quote] @ ''6.6.6.6'') @ CHR '','' # ''for=1.2.3.4;host='' @ [quote] @ ''a,b;c'' @ [quote] @ '';by=x'') CHR '','' = Some 12
   \<and> indexUnquoted (''host='' @ [quote] @ ''a,b;c'' @ [quote] @ '';by=x'') CHR '';'' = Some 12"
proof -
  let ?e = "''for=1.2.3.4;host='' @ [quote] @ ''a,b;c'' @ [quote] @ '';by=x''"
  have e: "element ?e" by (simp add: element_def)
  note facts = quoted_scanners_correct [OF _ e, of "CHR '';''" "''host='' @ [quote] @ ''a,b;c'' @ [quote] @ '';by=x''" "''for='' @ [quote] @ ''6.6.6.6''"]
  show ?thesis using facts e by simp
qed

end
