(* ===== verification/Client_IP.thy ===== *)
theory Client_IP
  imports Forwarded_Quotes
begin

text \<open>
  The client IP resolvers (\<open>clientip/clientip.go\<close>, \<open>clientip/options.go\<close>, and the accessor of \<open>context.go\<close>).
  A resolver is a function of the request to an error or an address; of the request it reads the address of
  the connecting peer and the header. A \<open>TrustedIPRange\<close> is modelled by the answer it gives to the one call
  that a resolution makes. The prefixes of a range are valid ones, as all constructors of \<open>netip\<close> return.
\<close>

record ip_request =
  RemoteAddr :: string
  Header :: "string \<rightharpoonup> string list"

type_synonym resolver = "ip_request \<Rightarrow> ip_error + addr"
type_synonym trusted_ip_range = "ip_error + prefix list"

subsection \<open>Errors\<close>

text \<open>\<open>errors.Is\<close>: the error itself or one that it wraps.\<close>

fun errors_Is :: "ip_error \<Rightarrow> ip_error \<Rightarrow> bool" where
  "errors_Is (Wrapped es m) e = (Wrapped es m = e \<or> list_ex (\<lambda>x. errors_Is x e) es)"
| "errors_Is (Joined es) e = (Joined es = e \<or> list_ex (\<lambda>x. errors_Is x e) es)"
| "errors_Is x e = (x = e)"

text \<open>\<open>errors.Join(errs, err)\<close> for an \<open>err\<close> that is not nil.\<close>

definition errors_Join :: "ip_error option \<Rightarrow> ip_error \<Rightarrow> ip_error option" where
  "errors_Join errs e = (case errs of None \<Rightarrow> Some (Joined [e]) | Some es \<Rightarrow> Some (Joined [es, e]))"

definition errLeftmostNonPrivate :: ip_error where
  "errLeftmostNonPrivate = Wrapped [ErrLeftmostNonPrivate] '': unable to find a valid or non-private IP''"
definition errRightmostNonPrivate :: ip_error where
  "errRightmostNonPrivate = Wrapped [ErrRightmostNonPrivate] '': unable to find a valid or non-private IP''"
definition errSingleIPHeader :: ip_error where
  "errSingleIPHeader = Wrapped [ErrSingleIPHeader] '': header not found''"
definition errTrustedPeer :: ip_error where
  "errTrustedPeer = Wrapped [ErrTrustedPeer] '': untrusted connecting peer''"

subsection \<open>Header names\<close>

text \<open>\<open>http.CanonicalHeaderKey\<close>: names with a byte that is not a token byte stay as they are.\<close>

definition token_byte :: "char \<Rightarrow> bool" where
  "token_byte c \<longleftrightarrow> is_lower c \<or> is_upper c \<or> is_digit c \<or> c \<in> set (CHR 0x27 # ''!#$%&*+-.^_`|~'')"

definition ToUpperASCII :: "char \<Rightarrow> char" where
  "ToUpperASCII c = (if is_lower c then char_of (val c - 32) else c)"

primrec canonical_bytes :: "bool \<Rightarrow> string \<Rightarrow> string" where
  "canonical_bytes upper [] = []"
| "canonical_bytes upper (c # s) =
     (if upper then ToUpperASCII c else ToLowerASCII c) # canonical_bytes (c = CHR ''-'') s"

definition CanonicalHeaderKey :: "string \<Rightarrow> string" where
  "CanonicalHeaderKey s = (if list_all token_byte s then canonical_bytes True s else s)"

type_synonym HeaderKey = "8 word"

text \<open>The index is in range after the check of the constructors.\<close>

definition HeaderKey_String :: "HeaderKey \<Rightarrow> string" where
  "HeaderKey_String h = CanonicalHeaderKey ([xForwardedForHdr, forwardedHdr] ! unat h)"

definition XForwardedForKey :: HeaderKey where "XForwardedForKey = 0"
definition ForwardedKey :: HeaderKey where "ForwardedKey = 1"

subsection \<open>Ranges\<close>

definition privateAndLocalRanges :: "prefix list" where
  "privateAndLocalRanges = map netip_MustParsePrefix
     [''10.0.0.0/8'', ''172.16.0.0/12'', ''192.168.0.0/16'', ''127.0.0.0/8'', ''0.0.0.0/8'',
      ''169.254.0.0/16'', ''192.0.0.0/24'', ''192.0.2.0/24'', ''198.51.100.0/24'', ''203.0.113.0/24'',
      ''192.88.99.0/24'', ''198.18.0.0/15'', ''224.0.0.0/4'', ''240.0.0.0/4'', ''255.255.255.255/32'',
      ''100.64.0.0/10'', ''::/128'', ''::1/128'', ''100::/64'', ''2001::/23'', ''2001:2::/48'',
      ''2001:db8::/32'', ''2001::/32'', ''fc00::/7'', ''fe80::/10'', ''ff00::/8'', ''2002::/16'']"

definition privateRange :: "prefix list" where
  "privateRange = map netip_MustParsePrefix
     [''10.0.0.0/8'', ''172.16.0.0/12'', ''192.168.0.0/16'', ''0.0.0.0/8'', ''192.0.0.0/24'',
      ''192.0.2.0/24'', ''198.51.100.0/24'', ''203.0.113.0/24'', ''192.88.99.0/24'', ''198.18.0.0/15'',
      ''224.0.0.0/4'', ''240.0.0.0/4'', ''255.255.255.255/32'', ''100.64.0.0/10'', ''::/128'',
      ''100::/64'', ''2001::/23'', ''2001:2::/48'', ''2001:db8::/32'', ''2001::/32'', ''fc00::/7'',
      ''ff00::/8'', ''2002::/16'']"

definition loopbackRanges :: "prefix list" where
  "loopbackRanges = map netip_MustParsePrefix
     [''127.0.0.0/8'', ''::1/128'']"

definition linkLocalRanges :: "prefix list" where
  "linkLocalRanges = map netip_MustParsePrefix
     [''169.254.0.0/16'', ''fe80::/10'']"

definition unmap_prefix :: "prefix \<Rightarrow> prefix" where
  "unmap_prefix r =
     (if Is4In6 (paddr r) \<and> 96 \<le> pbits r then \<lparr>paddr = Unmap (paddr r), pbits = pbits r - 96\<rparr> else r)"

primrec isContainedInRanges :: "addr \<Rightarrow> prefix list \<Rightarrow> bool" where
  "isContainedInRanges addr [] = False"
| "isContainedInRanges addr (r # ranges) =
     (if Contains (unmap_prefix r) (WithoutZone addr) then True else isContainedInRanges addr ranges)"

primrec orSlice :: "'a list list \<Rightarrow> 'a list" where
  "orSlice [] = []"
| "orSlice (v # vals) = (if 0 < length v then v else orSlice vals)"

primrec ParsePrefixes :: "string list \<Rightarrow> ip_error + prefix list" where
  "ParsePrefixes [] = Inr []"
| "ParsePrefixes (r # ranges) =
     (case ParsePrefix netip_ParsePrefix netip_ParseAddr r of
        None \<Rightarrow> Inl (Failure (''invalid address or prefix '' @ r))
      | Some p \<Rightarrow> (case ParsePrefixes ranges of Inl e \<Rightarrow> Inl e | Inr ps \<Rightarrow> Inr (p # ps)))"

subsection \<open>Options\<close>

record ip_config =
  ipRanges :: "prefix list"

definition append_ranges :: "bool \<Rightarrow> prefix list \<Rightarrow> ip_config \<Rightarrow> ip_config" where
  "append_ranges enable rs c = (if enable then c\<lparr>ipRanges := ipRanges c @ rs\<rparr> else c)"

definition TrustLoopback :: "bool \<Rightarrow> ip_config \<Rightarrow> ip_config" where
  "TrustLoopback enable = append_ranges enable loopbackRanges"
definition TrustLinkLocal :: "bool \<Rightarrow> ip_config \<Rightarrow> ip_config" where
  "TrustLinkLocal enable = append_ranges enable linkLocalRanges"
definition TrustPrivateNet :: "bool \<Rightarrow> ip_config \<Rightarrow> ip_config" where
  "TrustPrivateNet enable = append_ranges enable privateRange"
definition ExcludeLoopback :: "bool \<Rightarrow> ip_config \<Rightarrow> ip_config" where
  "ExcludeLoopback enable = append_ranges enable loopbackRanges"
definition ExcludeLinkLocal :: "bool \<Rightarrow> ip_config \<Rightarrow> ip_config" where
  "ExcludeLinkLocal enable = append_ranges enable linkLocalRanges"
definition ExcludePrivateNet :: "bool \<Rightarrow> ip_config \<Rightarrow> ip_config" where
  "ExcludePrivateNet enable = append_ranges enable privateRange"

definition apply_options :: "(ip_config \<Rightarrow> ip_config) list \<Rightarrow> ip_config" where
  "apply_options opts = fold (\<lambda>opt c. opt c) opts \<lparr>ipRanges = []\<rparr>"

subsection \<open>Combinators of resolvers\<close>

record Chain =
  ch_resolvers :: "resolver list"

definition NewChain :: "resolver list \<Rightarrow> Chain" where
  "NewChain resolvers = \<lparr>ch_resolvers = resolvers\<rparr>"

primrec chain_loop :: "ip_request \<Rightarrow> resolver list \<Rightarrow> ip_error option \<Rightarrow> ip_error + addr" where
  "chain_loop c [] errs = Inl (the errs)"
| "chain_loop c (sub # subs) errs =
     (case sub c of Inr a \<Rightarrow> Inr a | Inl e \<Rightarrow> chain_loop c subs (errors_Join errs e))"

definition Chain_ClientIP :: "Chain \<Rightarrow> resolver" where
  "Chain_ClientIP s c =
     (if length (ch_resolvers s) = 0 then Inl ErrNoClientIPResolver else chain_loop c (ch_resolvers s) None)"

record TrustedPeer =
  tp_resolver :: trusted_ip_range
  tp_inner :: resolver

text \<open>A nil interface is \<open>None\<close>.\<close>

definition NewTrustedPeer :: "trusted_ip_range option \<Rightarrow> resolver option \<Rightarrow> ip_error + TrustedPeer" where
  "NewTrustedPeer r inner =
     (case r of
        None \<Rightarrow> Inl (Failure ''invalid nil resolver'')
      | Some r \<Rightarrow>
          (case inner of
             None \<Rightarrow> Inl (Failure ''invalid nil inner resolver'')
           | Some i \<Rightarrow> Inr \<lparr>tp_resolver = r, tp_inner = i\<rparr>))"

text \<open>The peer of the request, if it is a valid address outside the ranges.\<close>

definition untrusted_peer :: "ip_request \<Rightarrow> prefix list \<Rightarrow> addr option" where
  "untrusted_peer c ranges =
     (case ParseAddr (RemoteAddr c) of
        Inl _ \<Rightarrow> None
      | Inr peer \<Rightarrow> if isContainedInRanges peer ranges then None else Some peer)"

definition TrustedPeer_ClientIP :: "TrustedPeer \<Rightarrow> resolver" where
  "TrustedPeer_ClientIP s c =
     (case tp_resolver s of
        Inl e \<Rightarrow> Inl (Wrapped [ErrTrustedPeer, e] '': unable to resolve trusted ip range: '')
      | Inr trustedRange \<Rightarrow>
          (case untrusted_peer c trustedRange of
             Some peer \<Rightarrow> Inl errTrustedPeer
           | None \<Rightarrow> tp_inner s c))"

definition RemoteAddr_ClientIP :: resolver where
  "RemoteAddr_ClientIP c =
     (case ParseAddr (RemoteAddr c) of
        Inl e \<Rightarrow> Inl (Wrapped [ErrRemoteAddress, e] '': '')
      | Inr a \<Rightarrow> Inr a)"

subsection \<open>A single header\<close>

record SingleIPHeader =
  si_headerName :: string

definition NewSingleIPHeader :: "string \<Rightarrow> ip_error + SingleIPHeader" where
  "NewSingleIPHeader headerName =
     (if headerName = '''' then Inl (Failure ''empty header name'')
      else
        let headerName = CanonicalHeaderKey headerName in
        if headerName = xForwardedForHdr \<or> headerName = forwardedHdr
        then Inl (Failure (''header '' @ headerName @ '' not allowed''))
        else Inr \<lparr>si_headerName = headerName\<rparr>)"

definition lastHeader :: "(string \<rightharpoonup> string list) \<Rightarrow> string \<Rightarrow> string" where
  "lastHeader headers headerName =
     (case headers headerName of
        None \<Rightarrow> ''''
      | Some matches \<Rightarrow> if length matches = 0 then '''' else matches ! (length matches - 1))"

definition SingleIPHeader_ClientIP :: "SingleIPHeader \<Rightarrow> resolver" where
  "SingleIPHeader_ClientIP s c =
     (let ipStr = lastHeader (Header c) (si_headerName s) in
      if ipStr = '''' then Inl errSingleIPHeader
      else case ParseAddr ipStr of
        Inl e \<Rightarrow> Inl (Wrapped [ErrSingleIPHeader, e] '': '')
      | Inr a \<Rightarrow> Inr a)"

subsection \<open>List headers\<close>

text \<open>The first valid address of a sequence that is in none of the ranges.\<close>

primrec first_outside :: "prefix list \<Rightarrow> addr option list \<Rightarrow> addr option" where
  "first_outside ranges [] = None"
| "first_outside ranges (ip # ips) =
     (case ip of
        Some a \<Rightarrow> if \<not> isContainedInRanges a ranges then Some a else first_outside ranges ips
      | None \<Rightarrow> first_outside ranges ips)"

record LeftmostNonPrivate =
  ln_headerName :: string
  ln_excludedRanges :: "prefix list"
  ln_limit :: "64 word"

definition NewLeftmostNonPrivate ::
  "HeaderKey \<Rightarrow> 64 word \<Rightarrow> (ip_config \<Rightarrow> ip_config) list \<Rightarrow> ip_error + LeftmostNonPrivate" where
  "NewLeftmostNonPrivate key limit opts =
     (if key > 1 then Inl (Failure ''invalid header key'')
      else if limit = 0 then Inl (Failure ''invalid limit: expect greater than zero'')
      else Inr \<lparr>ln_headerName = HeaderKey_String key,
                ln_excludedRanges = orSlice [ipRanges (apply_options opts), privateAndLocalRanges],
                ln_limit = limit\<rparr>)"

definition LeftmostNonPrivate_ClientIP :: "LeftmostNonPrivate \<Rightarrow> resolver" where
  "LeftmostNonPrivate_ClientIP s c =
     (case Header c (ln_headerName s) of
        None \<Rightarrow> Inl errLeftmostNonPrivate
      | Some values \<Rightarrow>
          if 0 < length values then
            (case first_outside (ln_excludedRanges s) (Take (addrSeq values (ln_headerName s)) (uint (ln_limit s))) of
               Some ip \<Rightarrow> Inr ip
             | None \<Rightarrow> Inl errLeftmostNonPrivate)
          else Inl errLeftmostNonPrivate)"

record RightmostNonPrivate =
  rn_headerName :: string
  rn_trustedRanges :: "prefix list"

definition NewRightmostNonPrivate ::
  "HeaderKey \<Rightarrow> (ip_config \<Rightarrow> ip_config) list \<Rightarrow> ip_error + RightmostNonPrivate" where
  "NewRightmostNonPrivate key opts =
     (if key > 1 then Inl (Failure ''invalid header key'')
      else Inr \<lparr>rn_headerName = HeaderKey_String key,
                rn_trustedRanges = orSlice [ipRanges (apply_options opts), privateAndLocalRanges]\<rparr>)"

definition RightmostNonPrivate_ClientIP :: "RightmostNonPrivate \<Rightarrow> resolver" where
  "RightmostNonPrivate_ClientIP s c =
     (case Header c (rn_headerName s) of
        None \<Rightarrow> Inl errRightmostNonPrivate
      | Some values \<Rightarrow>
          if 0 < length values then
            (case first_outside (rn_trustedRanges s) (backwardAddrSeq values (rn_headerName s)) of
               Some ip \<Rightarrow> Inr ip
             | None \<Rightarrow> Inl errRightmostNonPrivate)
          else Inl errRightmostNonPrivate)"

text \<open>A missing header reads as no values.\<close>

definition header_values :: "(string \<rightharpoonup> string list) \<Rightarrow> string \<Rightarrow> string list" where
  "header_values h name = (case h name of None \<Rightarrow> [] | Some vs \<Rightarrow> vs)"

record RightmostTrustedCount =
  rc_headerName :: string
  rc_trustedCount :: "64 word"

definition NewRightmostTrustedCount :: "HeaderKey \<Rightarrow> 64 word \<Rightarrow> ip_error + RightmostTrustedCount" where
  "NewRightmostTrustedCount key trustedCount =
     (if key > 1 then Inl (Failure ''invalid header key'')
      else if trustedCount = 0 then Inl (Failure ''invalid trusted count: expect greater than zero'')
      else Inr \<lparr>rc_headerName = HeaderKey_String key, rc_trustedCount = trustedCount\<rparr>)"

text \<open>The verb \<open>%d\<close> of a message.\<close>

fun decimal :: "nat \<Rightarrow> string" where
  "decimal n = (if n < 10 then '''' else decimal (n div 10)) @ [char_of (48 + n mod 10)]"

declare decimal.simps [simp del]

text \<open>The index is unsigned, so \<open>At\<close> does not panic.\<close>

definition RightmostTrustedCount_ClientIP :: "RightmostTrustedCount \<Rightarrow> resolver" where
  "RightmostTrustedCount_ClientIP s c =
     (case the (At (backwardAddrSeq (header_values (Header c) (rc_headerName s)) (rc_headerName s))
                   (uint (rc_trustedCount s - 1))) of
        None \<Rightarrow> Inl (Wrapped [ErrRightmostTrustedCount]
                       ('': expected at least '' @ decimal (unat (rc_trustedCount s)) @ '' IP(s)''))
      | Some None \<Rightarrow> Inl (Wrapped [ErrRightmostTrustedCount] '': invalid IP address from the first trusted proxy'')
      | Some (Some ip) \<Rightarrow> Inr ip)"

record RightmostTrustedRange =
  rr_resolver :: trusted_ip_range
  rr_headerName :: string

definition NewRightmostTrustedRange :: "HeaderKey \<Rightarrow> trusted_ip_range option \<Rightarrow> ip_error + RightmostTrustedRange" where
  "NewRightmostTrustedRange key r =
     (if key > 1 then Inl (Failure ''invalid header key'')
      else case r of
        None \<Rightarrow> Inl (Failure ''invalid nil resolver'')
      | Some r \<Rightarrow> Inr \<lparr>rr_resolver = r, rr_headerName = HeaderKey_String key\<rparr>)"

primrec trusted_walk :: "prefix list \<Rightarrow> addr option list \<Rightarrow> addr option" where
  "trusted_walk ranges [] = None"
| "trusted_walk ranges (ip # ips) =
     (case ip of
        None \<Rightarrow> None
      | Some a \<Rightarrow> if isContainedInRanges a ranges then trusted_walk ranges ips else Some a)"

definition RightmostTrustedRange_ClientIP :: "RightmostTrustedRange \<Rightarrow> resolver" where
  "RightmostTrustedRange_ClientIP s c =
     (case rr_resolver s of
        Inl e \<Rightarrow> Inl (Wrapped [ErrRightmostTrustedRange, e] '': unable to resolve trusted ip range: '')
      | Inr trustedRange \<Rightarrow>
          (case untrusted_peer c trustedRange of
             Some peer \<Rightarrow> Inr peer
           | None \<Rightarrow>
               (case trusted_walk trustedRange
                       (backwardAddrSeq (header_values (Header c) (rr_headerName s)) (rr_headerName s)) of
                  Some ip \<Rightarrow> Inr ip
                | None \<Rightarrow> Inl (Wrapped [ErrRightmostTrustedRange] '': unable to find a valid IP address''))))"

subsection \<open>The resolver of a context\<close>

definition noClientIPResolver_ClientIP :: resolver where
  "noClientIPResolver_ClientIP c = Inl ErrNoClientIPResolver"

text \<open>The resolver of the route, or of the router where no route was matched.\<close>

definition Context_ClientIP :: "resolver option \<Rightarrow> resolver \<Rightarrow> ip_request \<Rightarrow> ip_error + addr" where
  "Context_ClientIP route_clientip fox_clientip c =
     (case route_clientip of None \<Rightarrow> fox_clientip c | Some r \<Rightarrow> r c)"

end
