(* ===== verification/Client_IP_Safe.thy ===== *)
theory Client_IP_Safe
  imports Client_IP
begin

text \<open>
  What the client IP resolvers promise. A header is built by hops: every proxy appends an item, to the last
  value or as a new one. Whatever the client sent, reading from the right sees the items of the hops first, so
  a client cannot choose the address that the rightmost resolvers return.
\<close>

subsection \<open>Hops\<close>

datatype hop = Same_line (hop_item: string) | New_line (hop_item: string)

primrec add_hop :: "string list \<Rightarrow> hop \<Rightarrow> string list" where
  "add_hop vs (New_line e) = vs @ [e]"
| "add_hop vs (Same_line e) = (if vs = [] then [e] else butlast vs @ [last vs @ CHR '','' # e])"

definition valid_item :: "string \<Rightarrow> string \<Rightarrow> bool" where
  "valid_item name e \<longleftrightarrow> (if name = forwardedHdr then element e else CHR '','' \<notin> set e)"

definition item_addr :: "string \<Rightarrow> string \<Rightarrow> addr option" where
  "item_addr name e =
     (if name = forwardedHdr then parseForwardedListItem (TrimSpace e) else addr_or_zero (ParseAddr (TrimSpace e)))"

lemma backwardAddrSeq_Nil [simp]: "backwardAddrSeq [] name = []"
  by (simp add: backwardAddrSeq_def)

lemma backwardAddrSeq_snoc:
  "backwardAddrSeq (vs @ [v]) name = backwardAddrSeq [v] name @ backwardAddrSeq vs name"
  by (simp add: backwardAddrSeq_def)

lemma backwardAddrSeq_item:
  "valid_item name e \<Longrightarrow> backwardAddrSeq [e] name = [item_addr name e]"
  using split_byte_append [of "CHR '',''" e "[]"]
  by (auto simp: backwardAddrSeq_def valid_item_def item_addr_def backward_elements_single)

lemma backwardAddrSeq_append_item:
  "valid_item name e \<Longrightarrow>
     backwardAddrSeq [v @ CHR '','' # e] name = item_addr name e # backwardAddrSeq [v] name"
  by (auto simp: backwardAddrSeq_def valid_item_def item_addr_def backward_elements_append split_byte_last)

lemma backwardAddrSeq_hop:
  "valid_item name (hop_item h) \<Longrightarrow>
     backwardAddrSeq (add_hop vs h) name = item_addr name (hop_item h) # backwardAddrSeq vs name"
proof (cases h)
  case (Same_line e)
  assume "valid_item name (hop_item h)"
  with Same_line show ?thesis
    by (cases vs rule: rev_cases)
      (simp_all add: backwardAddrSeq_snoc backwardAddrSeq_item backwardAddrSeq_append_item)
qed (simp add: backwardAddrSeq_snoc backwardAddrSeq_item)

lemma backwardAddrSeq_hops:
  "list_all (\<lambda>h. valid_item name (hop_item h)) hops \<Longrightarrow>
     backwardAddrSeq (foldl add_hop vs hops) name =
       rev (map (\<lambda>h. item_addr name (hop_item h)) hops) @ backwardAddrSeq vs name"
  by (induction hops arbitrary: vs) (simp_all add: backwardAddrSeq_hop)

text \<open>An X-Forwarded-For header reads the same from both ends.\<close>

lemma addrSeq_rev: "name \<noteq> forwardedHdr \<Longrightarrow> addrSeq vs name = rev (backwardAddrSeq vs name)"
  by (induction vs) (auto simp: addrSeq_def backwardAddrSeq_def rev_map Let_def)

subsection \<open>Addresses\<close>

text \<open>A parsed address is in its IPv4 form where it has one, and specified.\<close>

lemma ParseAddr_valid: "ParseAddr ip = Inr a \<Longrightarrow> \<not> Is4In6 a \<and> \<not> IsUnspecified (WithoutZone a)"
  by (auto simp: ParseAddr_def Let_def Unmap_def split: option.splits if_splits addr.splits)

text \<open>
  A range given in the mapped form \<open>::ffff:a.b.c.d/n\<close> contains an IPv4 address exactly when it contains the
  mapped form of the address, so unmapping the ranges loses nothing.
\<close>

lemma halves: "p = push_bit 32 (drop_bit 32 p) OR ucast (ucast p :: 32 word)" for p :: "128 word"
  by (rule bit_word_eqI) (auto simp: bit_simps)

lemma drop_halves:
  fixes h :: "128 word" and v w :: "32 word"
  assumes "k \<le> 32"
  shows "drop_bit k (push_bit 32 h OR ucast v) = drop_bit k (push_bit 32 h OR ucast w) \<longleftrightarrow> drop_bit k v = drop_bit k w"
    (is "?l v = ?l w \<longleftrightarrow> ?r v = ?r w")
proof
  assume eq: "?l v = ?l w"
  show "?r v = ?r w"
  proof (rule bit_word_eqI)
    fix n assume "n < LENGTH(32)"
    show "bit (?r v) n = bit (?r w) n"
      using arg_cong [OF eq, of "\<lambda>x. bit x n"]
        bit_imp_le_length [of v "k + n"] bit_imp_le_length [of w "k + n"]
      by (cases "k + n < 32") (auto simp: bit_simps)
  qed
next
  assume eq: "?r v = ?r w"
  show "?l v = ?l w"
  proof (rule bit_word_eqI)
    fix n assume "n < LENGTH(128)"
    show "bit (?l v) n = bit (?l w) n"
      using arg_cong [OF eq, of "\<lambda>x. bit x n"] by (auto simp: bit_simps)
  qed
qed

definition map4in6 :: "32 word \<Rightarrow> addr" where
  "map4in6 w = IPv6 (push_bit 32 0xFFFF OR ucast w) ''''"

lemma Contains_unmapped:
  assumes "Is4In6 (paddr r)" "96 \<le> pbits r" "pbits r \<le> 128"
  shows "Contains (unmap_prefix r) (IPv4 w) \<longleftrightarrow> Contains r (map4in6 w)"
proof -
  obtain p z where p: "paddr r = IPv6 p z" "drop_bit 32 p = 0xFFFF"
    using assms(1) by (cases "paddr r") auto
  have "p = push_bit 32 0xFFFF OR ucast (ucast p :: 32 word)"
    using halves [of p] unfolding p(2) .
  then have "Contains r (map4in6 w) \<longleftrightarrow>
      drop_bit (128 - pbits r) (push_bit 32 0xFFFF OR ucast w :: 128 word)
        = drop_bit (128 - pbits r) (push_bit 32 0xFFFF OR ucast (ucast p :: 32 word))"
    by (simp add: Contains_def p map4in6_def del: push_bit_numeral)
  also have "\<dots> \<longleftrightarrow> drop_bit (128 - pbits r) w = drop_bit (128 - pbits r) (ucast p :: 32 word)"
    using assms(2) by (intro drop_halves) simp
  finally show ?thesis
    using assms p by (simp add: Contains_def unmap_prefix_def Unmap_def)
qed

text \<open>The first address outside the ranges, with the invalid and the excluded ones before it.\<close>

lemma first_outside_Some:
  "first_outside ranges ips = Some a \<longleftrightarrow>
     (\<exists>ps qs. ips = ps @ Some a # qs \<and> \<not> isContainedInRanges a ranges
        \<and> list_all (\<lambda>ip. \<forall>b. ip = Some b \<longrightarrow> isContainedInRanges b ranges) ps)" (is "_ \<longleftrightarrow> ?R ips")
proof (induction ips)
  case (Cons ip ips)
  show ?case
  proof (cases "\<exists>b. ip = Some b \<and> \<not> isContainedInRanges b ranges")
    case True
    then show ?thesis by (auto simp: Cons_eq_append_conv intro: exI [of _ "[]"])
  next
    case False
    have "?R (ip # ips) \<longleftrightarrow> ?R ips"
    proof
      assume "?R (ip # ips)"
      then obtain ps qs where ps: "ip # ips = ps @ Some a # qs" "\<not> isContainedInRanges a ranges"
          "list_all (\<lambda>ip. \<forall>b. ip = Some b \<longrightarrow> isContainedInRanges b ranges) ps" by blast
      with False show "?R ips" by (cases ps) auto
    next
      assume "?R ips"
      then obtain ps qs where "ips = ps @ Some a # qs" "\<not> isContainedInRanges a ranges"
          "list_all (\<lambda>ip. \<forall>b. ip = Some b \<longrightarrow> isContainedInRanges b ranges) ps" by blast
      with False show "?R (ip # ips)" by (intro exI [of _ "ip # ps", OF exI [of _ qs]]) auto
    qed
    with False Cons show ?thesis by (auto split: option.splits)
  qed
qed simp

text \<open>\<open>LeftmostNonPrivate\<close> reads at most as many entries as its limit.\<close>

lemma LeftmostNonPrivate_within_limit:
  assumes "LeftmostNonPrivate_ClientIP s c = Inr a"
  shows "\<exists>vs i. Header c (ln_headerName s) = Some vs \<and> i < unat (ln_limit s)
    \<and> i < length (addrSeq vs (ln_headerName s)) \<and> addrSeq vs (ln_headerName s) ! i = Some a
    \<and> \<not> isContainedInRanges a (ln_excludedRanges s)"
proof -
  from assms obtain vs where v: "Header c (ln_headerName s) = Some vs"
    and "first_outside (ln_excludedRanges s) (take (unat (ln_limit s)) (addrSeq vs (ln_headerName s))) = Some a"
    by (auto simp: LeftmostNonPrivate_ClientIP_def split: option.splits if_splits)
  then obtain ps qs where ps: "take (unat (ln_limit s)) (addrSeq vs (ln_headerName s)) = ps @ Some a # qs"
    "\<not> isContainedInRanges a (ln_excludedRanges s)"
    unfolding first_outside_Some by blast
  have "length ps < length (take (unat (ln_limit s)) (addrSeq vs (ln_headerName s)))" unfolding ps by simp
  moreover from this have "addrSeq vs (ln_headerName s) ! length ps = Some a"
    using arg_cong [OF ps(1), of "\<lambda>xs. xs ! length ps"] by simp
  ultimately show ?thesis using v ps(2) by auto
qed

text \<open>\<open>RightmostNonPrivate\<close> skips the trusted and the invalid items of the hops.\<close>

lemma RightmostNonPrivate_unspoofable:
  assumes "Header c (rn_headerName s) = Some (foldl add_hop client (h # proxies))"
    and "list_all (\<lambda>h. valid_item (rn_headerName s) (hop_item h)) (h # proxies)"
    and "item_addr (rn_headerName s) (hop_item h) = Some a" "\<not> isContainedInRanges a (rn_trustedRanges s)"
    and "list_all (\<lambda>p. \<forall>b. item_addr (rn_headerName s) (hop_item p) = Some b
           \<longrightarrow> isContainedInRanges b (rn_trustedRanges s)) proxies"
  shows "RightmostNonPrivate_ClientIP s c = Inr a"
proof -
  let ?vs = "foldl add_hop client (h # proxies)" and ?name = "rn_headerName s"
  have seq: "backwardAddrSeq ?vs ?name = rev (map (\<lambda>p. item_addr ?name (hop_item p)) proxies)
      @ Some a # backwardAddrSeq client ?name"
    using backwardAddrSeq_hops [OF assms(2), of client] assms(3) by simp
  then have "?vs \<noteq> []" by auto
  moreover have "first_outside (rn_trustedRanges s) (backwardAddrSeq ?vs ?name) = Some a"
    unfolding first_outside_Some seq
    using assms(4,5) by (intro exI conjI [OF refl]) (auto simp: list_all_iff)
  ultimately show ?thesis
    using assms(1) by (simp add: RightmostNonPrivate_ClientIP_def)
qed

lemma trusted_walk_skip:
  "list_all (\<lambda>ip. \<exists>b. ip = Some b \<and> isContainedInRanges b ranges) ips \<Longrightarrow>
     trusted_walk ranges (ips @ jps) = trusted_walk ranges jps"
  by (induction ips) auto

lemma trusted_walk_outside: "trusted_walk ranges ips = Some a \<Longrightarrow> \<not> isContainedInRanges a ranges"
  by (induction ips) (auto split: option.splits if_splits)

lemma NewRightmostTrustedRange_Inr:
  "NewRightmostTrustedRange key r = Inr s \<longleftrightarrow>
     key \<le> 1 \<and> (\<exists>a. r = Some a \<and> s = \<lparr>rr_resolver = a, rr_headerName = HeaderKey_String key\<rparr>)"
  by (auto simp: NewRightmostTrustedRange_def split: option.splits)

lemma NewRightmostTrustedCount_Inr:
  "NewRightmostTrustedCount key n = Inr s \<longleftrightarrow>
     key \<le> 1 \<and> n \<noteq> 0 \<and> s = \<lparr>rc_headerName = HeaderKey_String key, rc_trustedCount = n\<rparr>"
  by (auto simp: NewRightmostTrustedCount_def)

section \<open>Properties of the client IP resolvers\<close>

text \<open>
  C13. A client cannot choose the address that \<open>RightmostTrustedRange\<close> returns. Take any header the client sent,
  a hop that reported \<open>a\<close>, an address outside the trusted ranges, and then hops of trusted proxies. The
  resolver returns \<open>a\<close>, or the connecting peer itself where that is a valid address outside the ranges.
\<close>

theorem RightmostTrustedRange_unspoofable:
  assumes "NewRightmostTrustedRange key (Some (Inr ranges)) = Inr s"
    and "Header c (HeaderKey_String key) = Some (foldl add_hop client (h # proxies))"
    and "list_all (\<lambda>h. valid_item (HeaderKey_String key) (hop_item h)) (h # proxies)"
    and "item_addr (HeaderKey_String key) (hop_item h) = Some a" "\<not> isContainedInRanges a ranges"
    and "list_all (\<lambda>p. \<exists>b. item_addr (HeaderKey_String key) (hop_item p) = Some b \<and> isContainedInRanges b ranges) proxies"
  shows "RightmostTrustedRange_ClientIP s c = Inr (case untrusted_peer c ranges of Some peer \<Rightarrow> peer | None \<Rightarrow> a)"
proof -
  let ?name = "HeaderKey_String key" and ?addrs = "\<lambda>hs. map (\<lambda>h. item_addr (HeaderKey_String key) (hop_item h)) hs"
  have s: "s = \<lparr>rr_resolver = Inr ranges, rr_headerName = ?name\<rparr>"
    using assms(1) by (simp add: NewRightmostTrustedRange_Inr)
  have "list_all (\<lambda>ip. \<exists>b. ip = Some b \<and> isContainedInRanges b ranges) (rev (?addrs proxies))"
    using assms(6) by (simp add: list_all_iff)
  from trusted_walk_skip [OF this] have "trusted_walk ranges (backwardAddrSeq (foldl add_hop client (h # proxies)) ?name) = Some a"
    using assms(4,5) by (simp add: backwardAddrSeq_hops [OF assms(3), simplified])
  then show ?thesis
    using assms(2) by (simp add: RightmostTrustedRange_ClientIP_def s header_values_def split: option.splits)
qed

text \<open>
  C14. With as many proxies as configured, each appending one item, \<open>RightmostTrustedCount\<close> behind a
  \<open>TrustedPeer\<close> returns the address that the first of them reported, or an error where that is no address,
  whatever the client sent; a request from a peer outside the ranges is refused without reading the header.
\<close>

theorem RightmostTrustedCount_unspoofable:
  assumes "NewRightmostTrustedCount key n = Inr s"
    and "NewTrustedPeer (Some (Inr ranges)) (Some (RightmostTrustedCount_ClientIP s)) = Inr tp"
    and "Header c (HeaderKey_String key) = Some (foldl add_hop client (h # proxies))"
    and "list_all (\<lambda>h. valid_item (HeaderKey_String key) (hop_item h)) (h # proxies)"
    and "unat n = length (h # proxies)"
  shows "TrustedPeer_ClientIP tp c =
     (case untrusted_peer c ranges of
        Some peer \<Rightarrow> Inl errTrustedPeer
      | None \<Rightarrow>
          (case item_addr (HeaderKey_String key) (hop_item h) of
             Some a \<Rightarrow> Inr a
           | None \<Rightarrow> Inl (Wrapped [ErrRightmostTrustedCount] '': invalid IP address from the first trusted proxy'')))"
proof -
  let ?name = "HeaderKey_String key" and ?addrs = "\<lambda>hs. map (\<lambda>h. item_addr (HeaderKey_String key) (hop_item h)) hs"
  have s: "s = \<lparr>rc_headerName = ?name, rc_trustedCount = n\<rparr>" "n \<noteq> 0"
    using assms(1) by (simp_all add: NewRightmostTrustedCount_Inr)
  have tp: "tp = \<lparr>tp_resolver = Inr ranges, tp_inner = RightmostTrustedCount_ClientIP s\<rparr>"
    using assms(2) by (simp add: NewTrustedPeer_def)
  have "uint (n - 1) = int (length proxies)"
    using assms(5) s(2) by (simp add: uint_nat unat_minus_one)
  moreover have "backwardAddrSeq (foldl add_hop client (h # proxies)) ?name
      = rev (?addrs proxies) @ item_addr ?name (hop_item h) # backwardAddrSeq client ?name"
    using backwardAddrSeq_hops [OF assms(4), of client] by simp
  ultimately have "RightmostTrustedCount_ClientIP s c =
      (case item_addr ?name (hop_item h) of
         Some a \<Rightarrow> Inr a
       | None \<Rightarrow> Inl (Wrapped [ErrRightmostTrustedCount] '': invalid IP address from the first trusted proxy''))"
    using assms(3) by (simp add: RightmostTrustedCount_ClientIP_def s header_values_def At_nth nth_append split: option.splits)
  then show ?thesis
    by (simp add: TrustedPeer_ClientIP_def tp split: option.splits)
qed
subsection \<open>Chains\<close>

lemma chain_loop_Inr:
  "chain_loop c subs errs = Inr a \<longleftrightarrow>
     (\<exists>ps r qs. subs = ps @ r # qs \<and> r c = Inr a \<and> list_all (\<lambda>p. isl (p c)) ps)"
proof (induction subs arbitrary: errs)
  case (Cons s subs)
  show ?case
  proof (cases "s c")
    case (Inl e)
    have "(\<exists>ps r qs. s # subs = ps @ r # qs \<and> r c = Inr a \<and> list_all (\<lambda>p. isl (p c)) ps) \<longleftrightarrow>
        (\<exists>ps r qs. subs = ps @ r # qs \<and> r c = Inr a \<and> list_all (\<lambda>p. isl (p c)) ps)" (is "?L = ?R")
    proof
      assume ?L
      then obtain ps r qs where ps: "s # subs = ps @ r # qs" "r c = Inr a" "list_all (\<lambda>p. isl (p c)) ps" by blast
      with Inl show ?R by (cases ps) auto
    next
      assume ?R
      then obtain ps r qs where "subs = ps @ r # qs" "r c = Inr a" "list_all (\<lambda>p. isl (p c)) ps" by blast
      with Inl show ?L by (intro exI [of _ "s # ps"]) auto
    qed
    with Inl Cons.IH show ?thesis by simp
  next
    case (Inr b)
    have "(\<exists>ps r qs. s # subs = ps @ r # qs \<and> r c = Inr a \<and> list_all (\<lambda>p. isl (p c)) ps) \<longleftrightarrow> b = a" (is "?L = ?R")
    proof
      assume ?L
      then obtain ps r qs where ps: "s # subs = ps @ r # qs" "r c = Inr a" "list_all (\<lambda>p. isl (p c)) ps" by blast
      with Inr show ?R by (cases ps) auto
    next
      assume ?R
      with Inr show ?L by (intro exI [of _ "[]"]) auto
    qed
    with Inr show ?thesis by simp
  qed
qed simp

lemma errors_Join_Is:
  "errors_Join errs e = Some e' \<Longrightarrow> errors_Is e t \<or> (\<exists>es. errs = Some es \<and> errors_Is es t) \<Longrightarrow> errors_Is e' t"
  by (auto simp: errors_Join_def split: option.splits)

lemma chain_loop_Inl:
  assumes "chain_loop c subs errs = Inl e" "subs \<noteq> [] \<or> errs \<noteq> None"
  shows "(\<forall>s \<in> set subs. \<exists>x. s c = Inl x \<and> (\<forall>t. errors_Is x t \<longrightarrow> errors_Is e t))
    \<and> (\<forall>es t. errs = Some es \<longrightarrow> errors_Is es t \<longrightarrow> errors_Is e t)"
  using assms
proof (induction subs arbitrary: errs)
  case (Cons s subs)
  then obtain x where x: "s c = Inl x" "chain_loop c subs (errors_Join errs x) = Inl e"
    by (auto split: sum.splits)
  obtain y where y: "errors_Join errs x = Some y" by (cases errs) (auto simp: errors_Join_def)
  note IH = Cons.IH [OF x(2)]
  have "errors_Is y t \<Longrightarrow> errors_Is e t" for t using IH y by simp
  moreover have "\<forall>s \<in> set subs. \<exists>x. s c = Inl x \<and> (\<forall>t. errors_Is x t \<longrightarrow> errors_Is e t)" using IH y by simp
  ultimately show ?case using errors_Join_Is [OF y] x(1) by auto
qed auto

text \<open>
  A chain returns the address of the first resolver that succeeds, and asks no resolver behind it. Where
  all fail, the error of the chain is each of their errors, and a chain without resolvers says so.
\<close>

theorem Chain_correct:
  "(Chain_ClientIP (NewChain rs) c = Inr a \<longleftrightarrow>
      (\<exists>ps r qs. rs = ps @ r # qs \<and> r c = Inr a \<and> list_all (\<lambda>p. isl (p c)) ps)) \<and>
   (Chain_ClientIP (NewChain rs) c = Inl e \<longrightarrow>
      (if rs = [] then e = ErrNoClientIPResolver
       else \<forall>r \<in> set rs. \<exists>x. r c = Inl x \<and> (\<forall>t. errors_Is x t \<longrightarrow> errors_Is e t)))"
proof (cases "rs = []")
  case False
  then have "Chain_ClientIP (NewChain rs) c = chain_loop c rs None"
    by (simp add: Chain_ClientIP_def NewChain_def)
  with False show ?thesis using chain_loop_Inr [of c rs None a] chain_loop_Inl [of c rs None e] by auto
qed (auto simp: Chain_ClientIP_def NewChain_def)

subsection \<open>Examples\<close>

lemma HeaderKey_String_eval [simp]: "HeaderKey_String 0 = xForwardedForHdr" "HeaderKey_String 1 = forwardedHdr"
  by (simp_all add: HeaderKey_String_def CanonicalHeaderKey_def token_byte_def is_lower_val
      is_upper_val is_digit_val ToUpperASCII_def ToLowerASCII_def forwardedHdr_def xForwardedForHdr_def less_eq_char_def)

lemma ParseAddr_examples:
  "ParseAddr ''1.2.3.4'' = Inr (IPv4 0x01020304)"
  "ParseAddr ''10.0.0.1'' = Inr (IPv4 0x0A000001)"
  "ParseAddr ''10.0.0.2:80'' = Inr (IPv4 0x0A000002)"
  "ParseAddr ''[::ffff:10.0.0.9]'' = Inr (IPv4 0x0A000009)"
  "ParseAddr ''0.0.0.0'' = Inl ErrUnspecifiedIPAddress"
  "ParseAddr ''@'' = Inl ErrInvalidIPAddress"
  by (simp_all add: ParseAddr_def SplitHostPort_def trimMatchedEnds_def netip_eval slice_def Unmap_def)

definition demo_ranges :: "prefix list" where
  "demo_ranges = [\<lparr>paddr = IPv4 0x0A000000, pbits = 8\<rparr>]"

lemma demo_ranges_eval:
  "isContainedInRanges (IPv4 0x0A000001) demo_ranges" "isContainedInRanges (IPv4 0x0A000002) demo_ranges"
  "\<not> isContainedInRanges (IPv4 0x01020304) demo_ranges"
  by (simp_all add: demo_ranges_def unmap_prefix_def Contains_def)

text \<open>The item of a proxy, with a comma in the host that it copied, and the address it reports.\<close>

definition demo_item :: string where
  "demo_item = '' for=1.2.3.4;host='' @ [quote] @ ''a,b'' @ [quote]"

lemma demo_item_for: "for_part 4 (''for=1.2.3.4;host='' @ [quote] @ ''a,b'' @ [quote]) = ''1.2.3.4''"
  by (simp add: for_part_numeral indexUnquoted_next cut_def TrimSpace_visible visible_def ToLowerASCII_def less_eq_char_def)

lemma demo_item_facts:
  "valid_item forwardedHdr demo_item" "item_addr forwardedHdr demo_item = Some (IPv4 0x01020304)"
proof -
  show "valid_item forwardedHdr demo_item" by (simp add: valid_item_def element_def demo_item_def)
  have "TrimSpace demo_item = ''for=1.2.3.4;host='' @ [quote] @ ''a,b'' @ [quote]"
    by (simp add: demo_item_def TrimSpace_visible visible_def)
  then show "item_addr forwardedHdr demo_item = Some (IPv4 0x01020304)"
    by (simp only: item_addr_def if_True parseForwardedListItem_def demo_item_for)
      (simp add: TrimSpace_visible visible_def trimMatchedEnds_def addr_or_zero_def ParseAddr_examples)
qed

text \<open>The next proxy reports \<open>10.0.0.1\<close>, on a line of its own.\<close>

lemma demo_proxy_facts:
  "valid_item forwardedHdr ''for=10.0.0.1''" "item_addr forwardedHdr ''for=10.0.0.1'' = Some (IPv4 0x0A000001)"
proof -
  show "valid_item forwardedHdr ''for=10.0.0.1''" by (simp add: valid_item_def element_def)
  have "for_part 4 ''for=10.0.0.1'' = ''10.0.0.1''"
    by (simp add: for_part_numeral indexUnquoted_next cut_def TrimSpace_visible visible_def ToLowerASCII_def less_eq_char_def)
  then show "item_addr forwardedHdr ''for=10.0.0.1'' = Some (IPv4 0x0A000001)"
    by (simp add: item_addr_def parseForwardedListItem_def TrimSpace_visible visible_def trimMatchedEnds_def
        addr_or_zero_def ParseAddr_examples)
qed

text \<open>
  From the left, \<open>addrSeq\<close> splits a Forwarded value at every comma, those of quoted strings included, so it
  misses the address of an element that \<open>backwardAddrSeq\<close> reads.
\<close>

lemma split_byte_free_id: "c \<notin> set s \<Longrightarrow> split_byte c s = [s]"
  using split_byte_append [of c s "[]"] by simp

lemma addrSeq_splits_quoted:
  "addrSeq [''host='' @ [quote] @ ''a,b'' @ [quote] @ '';for=1.2.3.4''] forwardedHdr = [None, None]"
  "backwardAddrSeq [''host='' @ [quote] @ ''a,b'' @ [quote] @ '';for=1.2.3.4''] forwardedHdr = [Some (IPv4 0x01020304)]"
proof -
  let ?v = "''host='' @ [quote] @ ''a,b'' @ [quote] @ '';for=1.2.3.4''"
  have e: "valid_item forwardedHdr ?v" by (simp add: valid_item_def element_def)
  have "for_part 4 ?v = ''1.2.3.4''"
    by (simp add: for_part_numeral indexUnquoted_next cut_def TrimSpace_visible visible_def ToLowerASCII_def less_eq_char_def)
  then have "item_addr forwardedHdr ?v = Some (IPv4 0x01020304)"
    by (simp add: item_addr_def parseForwardedListItem_def TrimSpace_visible visible_def trimMatchedEnds_def
        addr_or_zero_def ParseAddr_examples)
  with backwardAddrSeq_item [OF e] show "backwardAddrSeq [?v] forwardedHdr = [Some (IPv4 0x01020304)]" by simp
  have empty: "TrimSpace '''' = ''''" by (simp add: TrimSpace_def trim_left.simps trim_right.simps space_runes_def has_suffix_def)
  have "for_part 4 (''host='' @ [quote] @ ''a'') = ''''" "for_part 4 (''b'' @ [quote] @ '';for=1.2.3.4'') = ''''"
    by (simp_all add: for_part_numeral indexUnquoted_next cut_def TrimSpace_visible visible_def ToLowerASCII_def less_eq_char_def)
  then have none: "parseForwardedListItem (''host='' @ [quote] @ ''a'') = None" "parseForwardedListItem (''b'' @ [quote] @ '';for=1.2.3.4'') = None"
    by (simp_all add: parseForwardedListItem_def empty trimMatchedEnds_def del: append.simps append_Cons)
  have trim: "TrimSpace (''host='' @ [quote] @ ''a'') = ''host='' @ [quote] @ ''a''"
      "TrimSpace (''b'' @ [quote] @ '';for=1.2.3.4'') = ''b'' @ [quote] @ '';for=1.2.3.4''"
    by (simp_all add: TrimSpace_visible visible_def)
  have split: "SplitStringSeq ?v '','' = Some [''host='' @ [quote] @ ''a'', ''b'' @ [quote] @ '';for=1.2.3.4'']"
  proof -
    have "?v = (''host='' @ [quote] @ ''a'') @ CHR '','' # (''b'' @ [quote] @ '';for=1.2.3.4'')" by simp
    moreover have "CHR '','' \<notin> set (''host='' @ [quote] @ ''a'')" "CHR '','' \<notin> set (''b'' @ [quote] @ '';for=1.2.3.4'')" by simp_all
    ultimately show ?thesis
      by (simp only: SplitStringSeq_byte split_byte_at split_byte_free_id not_False_eq_True)
  qed
  show "addrSeq [?v] forwardedHdr = [None, None]"
    unfolding addrSeq_def list.map concat.simps split option.sel Let_def trim none if_True by simp
qed
text \<open>A client that sent an open quote in its header, and connects through a trusted proxy.\<close>

definition demo_client :: "string list" where
  "demo_client = [''for=6.6.6.6;host='' @ [quote]]"

definition demo_request :: ip_request where
  "demo_request =
     \<lparr>RemoteAddr = ''10.0.0.2:80'',
      Header = [forwardedHdr \<mapsto> foldl add_hop demo_client [Same_line demo_item, New_line ''for=10.0.0.1'']]\<rparr>"

lemma demo_peer: "untrusted_peer demo_request demo_ranges = None"
  by (simp add: untrusted_peer_def demo_request_def ParseAddr_examples demo_ranges_eval)

lemma RightmostTrustedRange_witness:
  "RightmostTrustedRange_ClientIP \<lparr>rr_resolver = Inr demo_ranges, rr_headerName = forwardedHdr\<rparr> demo_request
     = Inr (IPv4 0x01020304)"
  using RightmostTrustedRange_unspoofable [of 1 demo_ranges
      "\<lparr>rr_resolver = Inr demo_ranges, rr_headerName = forwardedHdr\<rparr>" demo_request demo_client
      "Same_line demo_item" "[New_line ''for=10.0.0.1'']" "IPv4 0x01020304"]
  by (simp add: NewRightmostTrustedRange_Inr demo_request_def [THEN arg_cong [where f = Header]] demo_item_facts
      demo_proxy_facts demo_ranges_eval demo_peer)

lemma RightmostTrustedCount_witness:
  "TrustedPeer_ClientIP
     \<lparr>tp_resolver = Inr demo_ranges,
      tp_inner = RightmostTrustedCount_ClientIP \<lparr>rc_headerName = forwardedHdr, rc_trustedCount = 2\<rparr>\<rparr> demo_request
     = Inr (IPv4 0x01020304)"
  using RightmostTrustedCount_unspoofable [of 1 2 "\<lparr>rc_headerName = forwardedHdr, rc_trustedCount = 2\<rparr>" demo_ranges
      "\<lparr>tp_resolver = Inr demo_ranges,
        tp_inner = RightmostTrustedCount_ClientIP \<lparr>rc_headerName = forwardedHdr, rc_trustedCount = 2\<rparr>\<rparr>"
      demo_request demo_client "Same_line demo_item" "[New_line ''for=10.0.0.1'']"]
  by (simp add: NewRightmostTrustedCount_Inr NewTrustedPeer_def demo_request_def [THEN arg_cong [where f = Header]]
      demo_item_facts demo_proxy_facts demo_peer)

text \<open>A chain of a resolver for a missing header and of the connecting peer.\<close>

lemma Chain_witness:
  "Chain_ClientIP (NewChain [SingleIPHeader_ClientIP \<lparr>si_headerName = ''X-Real-Ip''\<rparr>, RemoteAddr_ClientIP]) demo_request
     = Inr (IPv4 0x0A000002)"
proof -
  have fails: "SingleIPHeader_ClientIP \<lparr>si_headerName = ''X-Real-Ip''\<rparr> demo_request = Inl errSingleIPHeader"
    by (simp add: SingleIPHeader_ClientIP_def lastHeader_def demo_request_def forwardedHdr_def)
  have works: "RemoteAddr_ClientIP demo_request = Inr (IPv4 0x0A000002)"
    by (simp add: RemoteAddr_ClientIP_def demo_request_def ParseAddr_examples)
  show ?thesis
    using Chain_correct [of "[SingleIPHeader_ClientIP \<lparr>si_headerName = ''X-Real-Ip''\<rparr>, RemoteAddr_ClientIP]" demo_request
        "IPv4 0x0A000002"] fails works
    by (auto intro!: exI [of _ "[SingleIPHeader_ClientIP \<lparr>si_headerName = ''X-Real-Ip''\<rparr>]"])
qed

end
