(* ===== verification/Regprog.thy ===== *)
theory Regprog
  imports Strings_Util
begin

text \<open>
  The simulation of regular expressions (\<open>internal/regprog/regprog.go\<close>): a program of the standard library is
  compiled into lists of the instructions that follow one another, and \<open>Ends\<close> lists the prefixes of a string
  that match, one position at a time. An instruction of \<open>regexp/syntax\<close> comes with the set of runes that it
  matches; a program is what \<open>syntax.Compile\<close> returns, with fewer than \<open>2 ^ 31\<close> instructions, all of whose
  targets are instructions. Marks and stamps that the code compares to a generation counter are the sets of
  that generation. An index that is out of range is skipped where the code would panic; there is none.
\<close>

unbundle bit_operations_syntax

subsection \<open>Runes\<close>

text \<open>\<open>utf8.DecodeRuneInString\<close>: the size of a sequence and the range of its second byte, from the first.\<close>

definition utf8_size :: "nat \<Rightarrow> nat \<times> nat \<times> nat" where
  "utf8_size x =
     (if 0xC2 \<le> x \<and> x \<le> 0xDF then (2, 0x80, 0xBF)
      else if x = 0xE0 then (3, 0xA0, 0xBF)
      else if x = 0xED then (3, 0x80, 0x9F)
      else if 0xE1 \<le> x \<and> x \<le> 0xEF then (3, 0x80, 0xBF)
      else if x = 0xF0 then (4, 0x90, 0xBF)
      else if 0xF1 \<le> x \<and> x \<le> 0xF3 then (4, 0x80, 0xBF)
      else if x = 0xF4 then (4, 0x80, 0x8F)
      else (0, 0, 0))"

definition decode_rune :: "string \<Rightarrow> nat \<times> nat" where
  "decode_rune s =
     (if s = [] then (0xFFFD, 0)
      else
        let x = val (s ! 0); (size, lo, hi) = utf8_size x; b1 = val (s ! 1); b2 = val (s ! 2); b3 = val (s ! 3) in
        if x < 0x80 then (x, 1)
        else if size = 0 \<or> length s < size then (0xFFFD, 1)
        else if b1 < lo \<or> hi < b1 then (0xFFFD, 1)
        else if size = 2 then (x mod 0x20 * 0x40 + b1 mod 0x40, 2)
        else if b2 < 0x80 \<or> 0xBF < b2 then (0xFFFD, 1)
        else if size = 3 then ((x mod 0x10 * 0x40 + b1 mod 0x40) * 0x40 + b2 mod 0x40, 3)
        else if b3 < 0x80 \<or> 0xBF < b3 then (0xFFFD, 1)
        else (((x mod 8 * 0x40 + b1 mod 0x40) * 0x40 + b2 mod 0x40) * 0x40 + b3 mod 0x40, 4))"

subsection \<open>Instructions\<close>

datatype inst_op =
    InstAlt | InstAltMatch | InstCapture | InstEmptyWidth | InstMatch | InstFail | InstNop
  | InstRune | InstRune1 | InstRuneAny | InstRuneAnyNotNL

record inst =
  in_Op :: inst_op
  in_Out :: nat
  in_Arg :: nat
  in_MatchRune :: "nat \<Rightarrow> bool"

text \<open>\<open>syntax.EmptyOpContext\<close>; the rune \<open>-1\<close> is \<open>None\<close>.\<close>

definition IsWordChar :: "nat \<Rightarrow> bool" where
  "IsWordChar r \<longleftrightarrow> (97 \<le> r \<and> r \<le> 122) \<or> (65 \<le> r \<and> r \<le> 90) \<or> (48 \<le> r \<and> r \<le> 57) \<or> r = 95"

definition EmptyOpContext :: "nat option \<Rightarrow> nat option \<Rightarrow> 8 word" where
  "EmptyOpContext r1 r2 =
     (let word = (\<lambda>r. case r of None \<Rightarrow> False | Some c \<Rightarrow> IsWordChar c) in
      (case r1 of None \<Rightarrow> 4 OR 1 | Some c \<Rightarrow> if c = 10 then 1 else 0)
      OR (case r2 of None \<Rightarrow> 8 OR 2 | Some c \<Rightarrow> if c = 10 then 2 else 0)
      OR (if word r1 \<noteq> word r2 then 16 else 32))"

text \<open>Classes of bytes: newline, word, other.\<close>

definition Class :: "char \<Rightarrow> nat" where
  "Class b = (if val b = 10 then 0 else if IsWordChar (val b) then 1 else 2)"

definition classRune :: "nat \<Rightarrow> nat" where
  "classRune c = [10, 97, 32] ! c"

definition isRune :: "inst \<Rightarrow> bool" where
  "isRune i \<longleftrightarrow> in_Op i \<in> {InstRune, InstRune1, InstRuneAny, InstRuneAnyNotNL}"

text \<open>The instructions that \<open>empty\<close> calls \<open>fn\<close> for, in order.\<close>

definition empty_outs :: "inst \<Rightarrow> 8 word \<Rightarrow> nat list" where
  "empty_outs i flag =
     (case in_Op i of
        InstAlt \<Rightarrow> [in_Arg i, in_Out i]
      | InstAltMatch \<Rightarrow> [in_Arg i, in_Out i]
      | InstNop \<Rightarrow> [in_Out i]
      | InstCapture \<Rightarrow> [in_Out i]
      | InstEmptyWidth \<Rightarrow> (if of_nat (in_Arg i) AND NOT flag = 0 then [in_Out i] else [])
      | _ \<Rightarrow> [])"

subsection \<open>Building the lists\<close>

definition maxClosure :: nat where "maxClosure = 16"
definition expand :: nat where "expand = 2 ^ 31"

record Follow =
  fl_off :: "nat list"
  fl_pcs :: "nat list"

definition Of :: "Follow \<Rightarrow> nat \<Rightarrow> nat list" where
  "Of f pc = slice (fl_pcs f) (fl_off f ! pc) (fl_off f ! (pc + 1))"

text \<open>The loop of \<open>closure\<close>; the head of the list is the top of the stack.\<close>

function closure_loop ::
  "inst list \<Rightarrow> 8 word \<Rightarrow> nat \<Rightarrow> nat list \<Rightarrow> bool list \<Rightarrow> nat \<Rightarrow> nat list \<Rightarrow> nat list \<times> bool" where
  "closure_loop insts flag limit [] mark visited dst = (dst, True)"
| "closure_loop insts flag limit (pc # stack) mark visited dst =
     (if mark ! pc then closure_loop insts flag limit stack mark visited dst
      else
        let mark = mark[pc := True]; visited = visited + 1 in
        if limit < visited then (dst, False)
        else if isRune (insts ! pc) then closure_loop insts flag limit stack mark visited (dst @ [pc])
        else closure_loop insts flag limit (rev (empty_outs (insts ! pc) flag) @ stack) mark visited dst)"
  by pat_completeness auto

termination
  by (relation "measures [\<lambda>(insts, flag, limit, stack, mark, visited, dst). Suc limit - visited,
        \<lambda>(insts, flag, limit, stack, mark, visited, dst). length stack]") auto

definition closure :: "inst list \<Rightarrow> nat list \<Rightarrow> nat \<Rightarrow> 8 word \<Rightarrow> nat \<Rightarrow> nat list \<times> bool" where
  "closure insts dst pc flag limit = closure_loop insts flag limit [pc] (replicate (length insts) False) 0 dst"

text \<open>\<open>pc | expand\<close> is a sum, as \<open>pc\<close> is smaller than \<open>expand\<close>.\<close>

definition entry :: "inst list \<Rightarrow> nat list \<Rightarrow> nat \<Rightarrow> nat list" where
  "entry insts dst pc =
     (let i = insts ! pc in
      if isRune i then dst @ [pc]
      else if in_Op i = InstMatch \<or> in_Op i = InstFail then dst
      else dst @ [pc + expand])"

definition follow_step ::
  "inst list \<Rightarrow> 8 word \<Rightarrow> bool \<Rightarrow> nat \<Rightarrow> nat list \<times> nat list \<times> bool \<Rightarrow> nat list \<times> nat list \<times> bool" where
  "follow_step insts flag empties pc acc =
     (let (off, pcs, expands) = acc; i = insts ! pc;
          (pcs, expands) =
            (if isRune i then
               (case closure insts pcs (in_Out i) flag maxClosure of
                  (qs, ok) \<Rightarrow> if ok then (qs, expands) else (entry insts (take (length pcs) qs) (in_Out i), True))
             else if empties then (fold (\<lambda>q pcs. entry insts pcs q) (empty_outs i flag) pcs, expands)
             else (pcs, expands))
      in (off[pc + 1 := length pcs], pcs, expands))"

definition follow :: "inst list \<Rightarrow> 8 word \<Rightarrow> bool \<Rightarrow> Follow \<times> bool" where
  "follow insts flag empties =
     (let (off, pcs, expands) =
            fold (follow_step insts flag empties) [0..<length insts] (replicate (length insts + 1) 0, [], False)
      in (\<lparr>fl_off = off, fl_pcs = pcs\<rparr>, expands))"

text \<open>The empty transitions, in the order in which the loops of \<open>last\<close> meet them.\<close>

definition edges :: "inst list \<Rightarrow> 8 word \<Rightarrow> (nat \<times> nat) list" where
  "edges insts flag = concat (map (\<lambda>i. map (Pair i) (empty_outs (insts ! i) flag)) [0..<length insts])"

definition count_edges :: "(nat \<times> nat) list \<Rightarrow> nat list \<Rightarrow> nat list" where
  "count_edges es off = fold (\<lambda>(i, pc) off. off[pc + 2 := off ! (pc + 2) + 1]) es off"

definition sum_offsets :: "nat list \<Rightarrow> nat list" where
  "sum_offsets off = fold (\<lambda>i off. off[i := off ! i + off ! (i - 1)]) [2..<length off] off"

definition fill_preds :: "(nat \<times> nat) list \<Rightarrow> nat list \<times> nat list \<Rightarrow> nat list \<times> nat list" where
  "fill_preds es acc =
     fold (\<lambda>(i, pc) (preds, off). (preds[off ! (pc + 1) := i], off[pc + 1 := off ! (pc + 1) + 1])) es acc"

definition reach_visit :: "nat \<Rightarrow> bool list \<times> nat list \<Rightarrow> bool list \<times> nat list" where
  "reach_visit q acc =
     (let (reach, stack) = acc in
      if q < length reach \<and> \<not> reach ! q then (reach[q := True], q # stack) else (reach, stack))"

lemma filter_update:
  "k < length xs \<Longrightarrow> P (xs ! k) \<Longrightarrow> \<not> P y \<Longrightarrow> length (filter P xs) = Suc (length (filter P (xs[k := y])))"
proof (induction xs arbitrary: k)
  case (Cons x xs)
  then show ?case by (cases k) auto
qed simp

lemma reach_visit_measure:
  "length (filter Not (fst (reach_visit q (reach, stack)))) + length (snd (reach_visit q (reach, stack)))
     = length (filter Not reach) + length stack"
proof (cases "q < length reach \<and> \<not> reach ! q")
  case True
  then have "length (filter Not reach) = Suc (length (filter Not (reach[q := True])))"
    by (intro filter_update) auto
  then show ?thesis using True by (simp add: reach_visit_def)
qed (auto simp: reach_visit_def)

lemma reach_fold_measure:
  "length (filter Not (fst (fold reach_visit qs acc))) + length (snd (fold reach_visit qs acc))
     = length (filter Not (fst acc)) + length (snd acc)"
  by (induction qs arbitrary: acc) (auto, metis prod.collapse reach_visit_measure)

function reach_loop :: "nat list \<Rightarrow> nat list \<Rightarrow> bool list \<Rightarrow> nat list \<Rightarrow> bool list" where
  "reach_loop preds off reach [] = reach"
| "reach_loop preds off reach (pc # stack) =
     (let (reach, stack) = fold reach_visit (slice preds (off ! pc) (off ! (pc + 1))) (reach, stack)
      in reach_loop preds off reach stack)"
  by pat_completeness auto

termination
proof (relation "measure (\<lambda>(preds, off, reach, stack). length (filter Not reach) + length stack)")
  fix preds off reach pc stack acc reach' stack'
  assume "acc = fold reach_visit (slice preds (off ! pc) (off ! (pc + 1))) (reach, stack)" "(reach', stack') = acc"
  then have "fold reach_visit (slice preds (off ! pc) (off ! (pc + 1))) (reach, stack) = (reach', stack')" by simp
  then show "((preds, off, reach', stack'), (preds, off, reach, pc # stack))
      \<in> measure (\<lambda>(preds, off, reach, stack). length (filter Not reach) + length stack)"
    using reach_fold_measure [of "slice preds (off ! pc) (off ! (pc + 1))" "(reach, stack)"] by simp
qed simp

definition last_of :: "inst list \<Rightarrow> 8 word \<Rightarrow> bool list" where
  "last_of insts flag =
     (let es = edges insts flag;
          off = sum_offsets (count_edges es (replicate (length insts + 2) 0));
          (preds, off) = fill_preds es (replicate (off ! (length off - 1)) 0, off);
          reach = reach_loop preds off (map (\<lambda>i. in_Op i = InstMatch) insts)
                    (rev (filter (\<lambda>i. in_Op (insts ! i) = InstMatch) [0..<length insts]))
      in map (\<lambda>i. isRune i \<and> reach ! in_Out i) insts)"

subsection \<open>Sets of ASCII bytes\<close>

type_synonym ascii_set = "64 word \<times> 64 word"

definition ascii_add :: "nat \<Rightarrow> ascii_set \<Rightarrow> ascii_set" where
  "ascii_add c w =
     (if c div 64 = 0 then (fst w OR push_bit (c mod 64) 1, snd w) else (fst w, snd w OR push_bit (c mod 64) 1))"

definition ascii_of :: "inst \<Rightarrow> ascii_set" where
  "ascii_of i = (if isRune i then fold (\<lambda>c w. if in_MatchRune i c then ascii_add c w else w) [0..<128] (0, 0) else (0, 0))"

definition ascii_has :: "ascii_set \<Rightarrow> char \<Rightarrow> bool" where
  "ascii_has w b \<longleftrightarrow>
     (if drop_bit 6 (val b) AND 1 = 0 then fst w else snd w) AND push_bit (val b AND 63) 1 \<noteq> 0"

definition Has :: "ascii_set list \<Rightarrow> nat \<Rightarrow> char \<Rightarrow> bool" where
  "Has s pc b \<longleftrightarrow> ascii_has (s ! pc) b"

subsection \<open>Compiled programs\<close>

record Regexp =
  rx_inst :: "inst list"
  rx_ascii :: "ascii_set list"
  rx_first :: "nat list list"
  rx_follow :: "Follow list"
  rx_last :: "bool list list"
  rx_matched :: ascii_set
  rx_expands :: bool

definition used_assertions :: "inst list \<Rightarrow> 8 word" where
  "used_assertions insts = fold (\<lambda>i used. if in_Op i = InstEmptyWidth then used OR of_nat (in_Arg i) else used) insts 0"

definition context_flags :: "inst list \<Rightarrow> 8 word list" where
  "context_flags insts =
     map (\<lambda>i. EmptyOpContext (Some (classRune (i div 3))) (Some (classRune (i mod 3))) AND used_assertions insts) [0..<9]"

text \<open>
  \<open>Compile\<close>, from the program on. Contexts that set the same assertions share their lists in the code, which
  does not change the lists.
\<close>

definition Compile :: "inst list \<Rightarrow> nat \<Rightarrow> Regexp" where
  "Compile insts start =
     (let used = used_assertions insts;
          ascii = map ascii_of insts;
          flags = context_flags insts;
          expands = list_ex (\<lambda>flag. snd (follow insts flag False)) flags
      in \<lparr>rx_inst = insts,
          rx_ascii = ascii,
          rx_first = map (\<lambda>c. fst (closure insts [] start (EmptyOpContext None (Some (classRune c)) AND used) (length insts))) [0..<3],
          rx_follow = map (\<lambda>flag. fst (follow insts flag expands)) flags,
          rx_last = map (\<lambda>c. last_of insts (EmptyOpContext (Some (classRune c)) None AND used)) [0..<3],
          rx_matched = fold (\<lambda>a m. (fst m OR fst a, snd m OR snd a)) ascii (0, 0),
          rx_expands = expands\<rparr>)"

definition prog_len :: "Regexp \<Rightarrow> nat" where
  "prog_len r = length (rx_inst r)"

definition MatchRune :: "Regexp \<Rightarrow> nat \<Rightarrow> nat \<Rightarrow> bool" where
  "MatchRune r pc c = (if c < 0x80 then Has (rx_ascii r) pc (char_of c) else in_MatchRune (rx_inst r ! pc) c)"

definition Consumes :: "Regexp \<Rightarrow> char \<Rightarrow> bool" where
  "Consumes r b = ascii_has (rx_matched r) b"

definition First_of :: "Regexp \<Rightarrow> nat \<Rightarrow> nat list" where
  "First_of r n = rx_first r ! n"

definition Follow_of :: "Regexp \<Rightarrow> nat \<Rightarrow> nat \<Rightarrow> Follow" where
  "Follow_of r p n = rx_follow r ! (3 * p + n)"

definition Accepts :: "Regexp \<Rightarrow> nat \<Rightarrow> nat list \<Rightarrow> bool" where
  "Accepts r p pcs = list_ex (\<lambda>pc. rx_last r ! p ! pc) pcs"

subsection \<open>A step of the simulation\<close>

definition next_visit :: "nat \<Rightarrow> nat \<Rightarrow> nat list \<times> nat list \<times> nat list \<Rightarrow> nat list \<times> nat list \<times> nat list" where
  "next_visit stamp q acc =
     (let (dst, seen, st) = acc; k = q mod expand in
      if k < length seen \<and> seen ! k \<noteq> stamp then
        (if q < expand then (dst @ [q], seen[k := stamp], st) else (dst, seen[k := stamp], k # st))
      else (dst, seen, st))"

definition unstamped :: "nat \<Rightarrow> nat list \<Rightarrow> nat" where
  "unstamped stamp seen = length (filter (\<lambda>x. x \<noteq> stamp) seen)"

lemma next_visit_measure:
  "next_visit stamp q (dst, seen, st) = (dst', seen', st') \<Longrightarrow>
     unstamped stamp seen' + length st' \<le> unstamped stamp seen + length st"
proof -
  assume v: "next_visit stamp q (dst, seen, st) = (dst', seen', st')"
  let ?k = "q mod expand"
  show ?thesis
  proof (cases "?k < length seen \<and> seen ! ?k \<noteq> stamp")
    case True
    then have "unstamped stamp seen = Suc (unstamped stamp (seen[?k := stamp]))"
      unfolding unstamped_def by (intro filter_update) auto
    then show ?thesis using v True by (auto simp: next_visit_def Let_def split: if_splits)
  qed (use v in \<open>auto simp: next_visit_def Let_def\<close>)
qed

lemma next_fold_measure:
  "fold (next_visit stamp) qs acc = (dst', seen', st') \<Longrightarrow>
     unstamped stamp seen' + length st' \<le> unstamped stamp (fst (snd acc)) + length (snd (snd acc))"
proof (induction qs arbitrary: acc)
  case (Cons q qs)
  obtain d s t where v: "next_visit stamp q acc = (d, s, t)" by (metis prod.exhaust)
  obtain a b c where "acc = (a, b, c)" by (metis prod.exhaust)
  then show ?case using Cons v next_visit_measure [of stamp q a b c d s t] by force
qed simp

function next_loop :: "Follow \<Rightarrow> nat \<Rightarrow> nat list \<times> nat list \<times> nat list \<Rightarrow> nat list \<times> nat list" where
  "next_loop f stamp (dst, seen, []) = (dst, seen)"
| "next_loop f stamp (dst, seen, pc # st) = next_loop f stamp (fold (next_visit stamp) (Of f pc) (dst, seen, st))"
  by pat_completeness auto

termination
proof (relation "measure (\<lambda>(f, stamp, dst, seen, st). unstamped stamp seen + length st)")
  fix f stamp dst seen pc st
  obtain d s t where "fold (next_visit stamp) (Of f pc) (dst, seen, st) = (d, s, t)" by (metis prod.exhaust)
  with next_fold_measure [OF this]
  show "((f, stamp, fold (next_visit stamp) (Of f pc) (dst, seen, st)), f, stamp, dst, seen, pc # st)
      \<in> measure (\<lambda>(f, stamp, dst, seen, st). unstamped stamp seen + length st)" by simp
qed simp

text \<open>Without \<open>expands\<close> no entry is marked, and the first loop is the whole of \<open>Next\<close>.\<close>

definition Regexp_Next :: "Regexp \<Rightarrow> nat list \<Rightarrow> nat \<Rightarrow> nat \<Rightarrow> nat list \<Rightarrow> nat \<Rightarrow> nat list \<times> nat list" where
  "Regexp_Next r pcs p n seen stamp =
     (let f = Follow_of r p n;
          (dst, seen, st) = fold (\<lambda>pc acc. fold (next_visit stamp) (Of f pc) acc) pcs ([], seen, [])
      in if \<not> rx_expands r then (dst, seen) else next_loop f stamp (dst, seen, st))"

subsection \<open>Listing the ends\<close>

text \<open>
  The scratch buffers of \<open>Ends\<close> are left out. A pointer to a compiled expression is a value of \<open>'k\<close>, and \<open>rx\<close>
  gives the expression that it points to.
\<close>

record 'k Ends =
  en_r :: "'k option"
  en_s :: string
  en_cur :: "nat list"
  en_seen :: "nat list"
  en_stamp :: nat
  en_start :: nat
  en_pos :: nat
  en_steps :: nat
  en_reach :: nat
  en_delim :: char
  en_accepted :: bool

definition zero_Ends :: "'k Ends" where
  "zero_Ends = \<lparr>en_r = None, en_s = '''', en_cur = [], en_seen = [], en_stamp = 0, en_start = 0, en_pos = 0,
     en_steps = 0, en_reach = 0, en_delim = CHR 0x00, en_accepted = False\<rparr>"

text \<open>\<open>restart\<close>; the marks past the length of a smaller program stay in the buffer.\<close>

definition restart :: "('k \<Rightarrow> Regexp) \<Rightarrow> 'k Ends \<Rightarrow> 'k Ends" where
  "restart rx e =
     (let r = rx (the (en_r e)); s = en_s e; n = length (rx_inst r) in
      e\<lparr>en_reach := max (en_reach e) (en_pos e), en_pos := en_start e, en_accepted := False,
        en_seen := (if length (en_seen e) < n then replicate n 0 else en_seen e),
        en_cur := (if en_start e < length s then First_of r (Class (s ! en_start e)) else [])\<rparr>)"

definition Start :: "('k \<Rightarrow> Regexp) \<Rightarrow> 'k \<Rightarrow> string \<Rightarrow> nat \<Rightarrow> char \<Rightarrow> 'k Ends \<Rightarrow> 'k Ends" where
  "Start rx r s start delim e =
     (if en_r e = Some r \<and> en_s e = s \<and> en_start e = start \<and> en_delim e = delim then e
      else restart rx (e\<lparr>en_r := Some r, en_s := s, en_start := start, en_delim := delim,
                         en_pos := start, en_reach := start\<rparr>))"

definition Reset :: "'k Ends \<Rightarrow> 'k Ends" where
  "Reset e = e\<lparr>en_r := None, en_s := ''''\<rparr>"

definition Reach :: "'k Ends \<Rightarrow> nat" where
  "Reach e = max (en_reach e) (en_pos e)"

definition Steps :: "'k Ends \<Rightarrow> nat" where
  "Steps e = en_steps e"

text \<open>The body of the loop of \<open>Next\<close>: one rune.\<close>

definition Ends_step :: "Regexp \<Rightarrow> 'k Ends \<Rightarrow> 'k Ends" where
  "Ends_step r e =
     (let s = en_s e; pos = en_pos e; b = s ! pos;
          (matched, pos) =
            (if val b < 0x80 then (filter (\<lambda>pc. Has (rx_ascii r) pc b) (en_cur e), pos + 1)
             else let (c, w) = decode_rune (drop pos s) in
               (filter (\<lambda>pc. in_MatchRune (rx_inst r ! pc) c) (en_cur e), pos + w));
          p = Class (s ! (pos - 1));
          accepted = (pos < length s \<and> s ! pos = en_delim e \<and> Accepts r p matched);
          stamp = (if pos < length s then en_stamp e + 1 else en_stamp e);
          (cur, seen) = (if pos < length s then Regexp_Next r matched p (Class (s ! pos)) (en_seen e) stamp
                         else ([], en_seen e))
      in e\<lparr>en_steps := en_steps e + 1, en_pos := pos, en_accepted := accepted, en_stamp := stamp,
           en_cur := cur, en_seen := seen\<rparr>)"

lemma utf8_size_bound: "fst (utf8_size x) \<in> {0, 2, 3, 4}"
  by (simp add: utf8_size_def)

lemma decode_rune_width: "s \<noteq> [] \<Longrightarrow> 1 \<le> snd (decode_rune s) \<and> snd (decode_rune s) \<le> length s"
  using utf8_size_bound [of "val (s ! 0)"]
  by (auto simp: decode_rune_def Let_def split_beta Suc_le_eq)

function Ends_loop :: "Regexp \<Rightarrow> nat \<Rightarrow> 'k Ends \<Rightarrow> nat option \<times> 'k Ends" where
  "Ends_loop r from_pos e =
     (if en_cur e \<noteq> [] \<and> en_pos e < length (en_s e) then
        let e = Ends_step r e in
        if en_accepted e \<and> from_pos \<le> en_pos e then (Some (en_pos e), e) else Ends_loop r from_pos e
      else (None, e))"
  by auto

termination
proof (relation "measure (\<lambda>(r, from_pos, e). length (en_s e) - en_pos e)")
  fix r from_pos and e :: "'k Ends" and e'
  assume "en_cur e \<noteq> [] \<and> en_pos e < length (en_s e)" "e' = Ends_step r e"
  then show "((r, from_pos, e'), r, from_pos, e) \<in> measure (\<lambda>(r, from_pos, e). length (en_s e) - en_pos e)"
    using decode_rune_width [of "drop (en_pos e) (en_s e)"]
    by (auto simp: Ends_step_def Let_def split_beta)
qed simp

declare Ends_loop.simps [simp del]

definition Ends_Next :: "('k \<Rightarrow> Regexp) \<Rightarrow> nat \<Rightarrow> 'k Ends \<Rightarrow> nat option \<times> 'k Ends" where
  "Ends_Next rx from_pos e =
     (let e = e\<lparr>en_reach := max (en_reach e) from_pos\<rparr>;
          e = (if from_pos < en_pos e then restart rx e else e) in
      if en_accepted e \<and> from_pos \<le> en_pos e then (Some (en_pos e), e)
      else Ends_loop (rx (the (en_r e))) from_pos e)"

end
