(* ===== verification/Regprog_Closure.thy ===== *)
theory Regprog_Closure
  imports Regprog
begin

text \<open>
  The lists of a compiled program. The empty transitions between instructions, under the assertions that hold
  at a position, form a relation; \<open>closure\<close> and \<open>Next\<close> compute the rune instructions that its closure
  reaches, and \<open>last_of\<close> the instructions from which it reaches a match.
\<close>

subsection \<open>Programs\<close>

definition wf_prog :: "inst list \<Rightarrow> nat \<Rightarrow> bool" where
  "wf_prog P start \<longleftrightarrow> start < length P \<and> length P < expand
     \<and> (\<forall>i \<in> set P. (in_Op i \<notin> {InstMatch, InstFail} \<longrightarrow> in_Out i < length P)
          \<and> (in_Op i \<in> {InstAlt, InstAltMatch} \<longrightarrow> in_Arg i < length P))"

definition eps :: "inst list \<Rightarrow> 8 word \<Rightarrow> (nat \<times> nat) set" where
  "eps P flag = {(pc, q). q \<in> set (empty_outs (P ! pc) flag)}"

lemma empty_outs_rune [simp]: "isRune i \<Longrightarrow> empty_outs i flag = []"
  by (auto simp: isRune_def empty_outs_def)

lemma empty_outs_end [simp]: "in_Op i \<in> {InstMatch, InstFail} \<Longrightarrow> empty_outs i flag = []"
  by (auto simp: empty_outs_def)

lemma empty_outs_less:
  assumes "wf_prog P start" "pc < length P" "q \<in> set (empty_outs (P ! pc) flag)"
  shows "q < length P"
proof -
  have "P ! pc \<in> set P" using assms(2) by simp
  with assms(1,3) show ?thesis
    by (auto simp: wf_prog_def empty_outs_def split: inst_op.splits if_splits)
qed

lemma rune_Out_less: "wf_prog P start \<Longrightarrow> pc < length P \<Longrightarrow> isRune (P ! pc) \<Longrightarrow> in_Out (P ! pc) < length P"
  using nth_mem [of pc P] by (auto simp: wf_prog_def isRune_def)

lemma eps_less:
  assumes "wf_prog P start" "(pc, q) \<in> (eps P flag)\<^sup>*" "pc < length P"
  shows "q < length P"
  using assms(2) by (induction rule: rtrancl_induct)
    (use assms(1,3) in \<open>auto simp: eps_def intro: empty_outs_less\<close>)

lemma eps_rune: "isRune (P ! pc) \<Longrightarrow> (pc, q) \<in> (eps P flag)\<^sup>* \<Longrightarrow> q = pc"
  by (erule converse_rtranclE) (auto simp: eps_def)

lemma eps_end: "in_Op (P ! pc) \<in> {InstMatch, InstFail} \<Longrightarrow> (pc, q) \<in> (eps P flag)\<^sup>* \<Longrightarrow> q = pc"
  by (erule converse_rtranclE) (auto simp: eps_def)

text \<open>The rune instructions that a set of instructions leads to.\<close>

definition runes_from :: "inst list \<Rightarrow> 8 word \<Rightarrow> nat \<Rightarrow> nat set" where
  "runes_from P flag pc = {q. isRune (P ! q) \<and> (pc, q) \<in> (eps P flag)\<^sup>*}"

subsection \<open>\<open>closure\<close>\<close>

definition marked :: "bool list \<Rightarrow> nat set" where
  "marked mark = {k. k < length mark \<and> mark ! k}"

lemma marked_update [simp]: "k < length mark \<Longrightarrow> marked (mark[k := True]) = insert k (marked mark)"
  by (auto simp: marked_def nth_list_update)

lemma marked_finite [simp]: "finite (marked mark)"
  by (simp add: marked_def)

lemma marked_none [simp]: "marked (replicate n False) = {}"
  by (auto simp: marked_def)

text \<open>
  The invariant: what is marked is closed up to the stack, all of it is reached from \<open>pc\<close>, and the output
  holds the marked rune instructions.
\<close>

definition closure_inv ::
  "inst list \<Rightarrow> 8 word \<Rightarrow> nat \<Rightarrow> nat list \<Rightarrow> bool list \<Rightarrow> nat \<Rightarrow> nat list \<Rightarrow> nat list \<Rightarrow> bool" where
  "closure_inv P flag pc stack mark visited base dst \<longleftrightarrow>
     length mark = length P \<and> set stack \<subseteq> {q. q < length P \<and> (pc, q) \<in> (eps P flag)\<^sup>*}
     \<and> marked mark \<subseteq> {q. (pc, q) \<in> (eps P flag)\<^sup>*} \<and> visited = card (marked mark)
     \<and> pc \<in> marked mark \<union> set stack
     \<and> (\<forall>m \<in> marked mark. set (empty_outs (P ! m) flag) \<subseteq> marked mark \<union> set stack)
     \<and> (\<exists>ys. dst = base @ ys \<and> set ys = {q \<in> marked mark. isRune (P ! q)})"

lemma closure_loop_inv:
  "wf_prog P start \<Longrightarrow> closure_inv P flag pc stack mark visited base dst \<Longrightarrow>
    closure_loop P flag limit stack mark visited dst = (res, ok) \<Longrightarrow>
      (\<exists>ys. res = base @ ys \<and> (ok \<longrightarrow> set ys = runes_from P flag pc)) \<and> (length P \<le> limit \<longrightarrow> ok)"
proof (induction P flag limit stack mark visited dst rule: closure_loop.induct)
  case (1 P flag limit mark visited dst)
  then have inv: "pc \<in> marked mark" "\<forall>m \<in> marked mark. set (empty_outs (P ! m) flag) \<subseteq> marked mark"
    "marked mark \<subseteq> {q. (pc, q) \<in> (eps P flag)\<^sup>*}" by (auto simp: closure_inv_def)
  have "q \<in> marked mark" if "(pc, q) \<in> (eps P flag)\<^sup>*" for q
    using that inv(1,2) by (induction rule: rtrancl_induct) (auto simp: eps_def)
  with inv(3) have "marked mark = {q. (pc, q) \<in> (eps P flag)\<^sup>*}" by auto
  with 1 show ?case by (auto simp: closure_inv_def runes_from_def)
next
  case (2 P flag limit p stack mark visited dst)
  note inv = "2.prems"(2) [unfolded closure_inv_def]
  have p: "p < length P" "(pc, p) \<in> (eps P flag)\<^sup>*" "length mark = length P" using inv by auto
  show ?case
  proof (cases "mark ! p")
    case True
    then have "p \<in> marked mark" using p by (simp add: marked_def)
    then have "closure_inv P flag pc stack mark visited base dst"
      using inv by (auto simp: closure_inv_def)
    with "2.IH"(1) [OF True "2.prems"(1)] "2.prems"(3) True show ?thesis by simp
  next
    case False
    then have new: "p \<notin> marked mark" by (simp add: marked_def)
    let ?mark = "mark[p := True]"
    have m: "marked ?mark = insert p (marked mark)" using p by simp
    have card: "Suc visited = card (marked ?mark)" using inv new m by simp
    have "marked ?mark \<subseteq> {..<length P}" using p by (auto simp: marked_def)
    from card_mono [OF _ this] have bound: "Suc visited \<le> length P" using card by simp
    show ?thesis
    proof (cases "limit < Suc visited")
      case True
      with "2.prems"(3) False inv bound show ?thesis by (auto simp: Let_def)
    next
      case fits: False
      show ?thesis
      proof (cases "isRune (P ! p)")
        case True
        obtain ys where "dst = base @ ys" "set ys = {q \<in> marked mark. isRune (P ! q)}" using inv by blast
        then have "\<exists>ys. dst @ [p] = base @ ys \<and> set ys = {q \<in> marked ?mark. isRune (P ! q)}"
          using True m by (intro exI [of _ "ys @ [p]"]) auto
        then have "closure_inv P flag pc stack ?mark (Suc visited) base (dst @ [p])"
          using inv True m card p by (auto simp: closure_inv_def)
        with "2.IH"(2) [OF False refl refl] "2.prems"(1) fits True "2.prems"(3) False show ?thesis by (simp add: Let_def)
      next
        case nonrune: False
        let ?outs = "empty_outs (P ! p) flag"
        have outs: "q < length P \<and> (pc, q) \<in> (eps P flag)\<^sup>*" if "q \<in> set ?outs" for q
          using that p empty_outs_less [OF "2.prems"(1) p(1) that]
          by (auto simp: eps_def intro: rtrancl.rtrancl_into_rtrancl)
        have "{q \<in> marked ?mark. isRune (P ! q)} = {q \<in> marked mark. isRune (P ! q)}" using nonrune m by auto
        then have "closure_inv P flag pc (rev ?outs @ stack) ?mark (Suc visited) base dst"
          using inv m card p outs by (auto simp: closure_inv_def)
        with "2.IH"(3) [OF False refl refl] "2.prems"(1) fits nonrune "2.prems"(3) False show ?thesis by (simp add: Let_def)
      qed
    qed
  qed
qed

lemma closure_correct:
  assumes "wf_prog P start" "pc < length P" "closure P dst pc flag limit = (res, ok)"
  shows "\<exists>ys. res = dst @ ys \<and> (ok \<longrightarrow> set ys = runes_from P flag pc)" "length P \<le> limit \<Longrightarrow> ok"
proof -
  have "closure_inv P flag pc [pc] (replicate (length P) False) 0 dst dst"
    using assms(2) by (simp add: closure_inv_def)
  from closure_loop_inv [OF assms(1) this] assms(3)
  show "\<exists>ys. res = dst @ ys \<and> (ok \<longrightarrow> set ys = runes_from P flag pc)" "length P \<le> limit \<Longrightarrow> ok"
    by (auto simp: closure_def)
qed

subsection \<open>\<open>follow\<close>\<close>

text \<open>What \<open>follow\<close> appends for one instruction, and whether its closure is too large.\<close>

definition fits :: "inst list \<Rightarrow> 8 word \<Rightarrow> nat \<Rightarrow> bool" where
  "fits P flag pc \<longleftrightarrow> snd (closure P [] (in_Out (P ! pc)) flag maxClosure)"

definition entries :: "inst list \<Rightarrow> nat list \<Rightarrow> nat list" where
  "entries P qs = concat (map (entry P []) qs)"

definition part :: "inst list \<Rightarrow> 8 word \<Rightarrow> bool \<Rightarrow> nat \<Rightarrow> nat list" where
  "part P flag empties pc =
     (if isRune (P ! pc) then
        (if fits P flag pc then fst (closure P [] (in_Out (P ! pc)) flag maxClosure) else entries P [in_Out (P ! pc)])
      else if empties then entries P (empty_outs (P ! pc) flag) else [])"

lemma closure_loop_dst:
  "closure_loop P flag limit stack mark visited (base @ dst) =
     (let (qs, ok) = closure_loop P flag limit stack mark visited dst in (base @ qs, ok))"
  by (induction P flag limit stack mark visited dst rule: closure_loop.induct) (auto simp: Let_def split_beta)

lemma closure_dst: "closure P dst pc flag limit = (dst @ fst (closure P [] pc flag limit), snd (closure P [] pc flag limit))"
  using closure_loop_dst [of P flag limit "[pc]" "replicate (length P) False" 0 dst "[]"]
  by (simp add: closure_def split_beta Let_def)

lemma entry_dst: "entry P dst pc = dst @ entry P [] pc"
  by (simp add: entry_def Let_def)

lemma fold_entry: "fold (\<lambda>q pcs. entry P pcs q) qs dst = dst @ entries P qs"
proof (induction qs arbitrary: dst)
  case (Cons q qs)
  then show ?case by (simp add: entries_def entry_dst [of P dst q])
qed (simp add: entries_def)

lemma follow_step_part:
  "follow_step P flag empties pc (off, pcs, ex) =
     (off[pc + 1 := length (pcs @ part P flag empties pc)], pcs @ part P flag empties pc,
      ex \<or> (isRune (P ! pc) \<and> \<not> fits P flag pc))"
  using closure_dst [of P pcs "in_Out (P ! pc)" flag maxClosure] entry_dst [of P pcs "in_Out (P ! pc)"]
  by (auto simp: follow_step_def part_def fits_def entries_def fold_entry Let_def split_beta)

lemma follow_fold:
  assumes "n \<le> N"
  shows "fold (follow_step P flag empties) [0..<n] (replicate (N + 1) 0, [], False) =
     (map (\<lambda>j. if j \<le> n then length (concat (map (part P flag empties) [0..<j])) else 0) [0..<N + 1],
      concat (map (part P flag empties) [0..<n]), \<exists>pc < n. isRune (P ! pc) \<and> \<not> fits P flag pc)"
  using assms
proof (induction n)
  case 0
  show ?case by (auto simp: list_eq_iff_nth_eq nth_append)
next
  case (Suc n)
  have "(map (\<lambda>j. if j \<le> n then length (concat (map (part P flag empties) [0..<j])) else 0) [0..<N + 1])
        [n + 1 := length (concat (map (part P flag empties) [0..<n]) @ part P flag empties n)]
      = map (\<lambda>j. if j \<le> Suc n then length (concat (map (part P flag empties) [0..<j])) else 0) [0..<N + 1]"
    using Suc.prems by (auto simp: list_eq_iff_nth_eq nth_list_update nth_append less_Suc_eq_le le_Suc_eq)
  with Suc show ?case by (simp add: follow_step_part less_Suc_eq) blast
qed

lemma follow_correct:
  "pc < length P \<Longrightarrow> Of (fst (follow P flag empties)) pc = part P flag empties pc"
  "snd (follow P flag empties) \<longleftrightarrow> (\<exists>pc < length P. isRune (P ! pc) \<and> \<not> fits P flag pc)"
proof -
  note fold = follow_fold [of "length P" "length P" P flag empties, OF order_refl]
  show "snd (follow P flag empties) \<longleftrightarrow> (\<exists>pc < length P. isRune (P ! pc) \<and> \<not> fits P flag pc)"
    unfolding follow_def fold by simp
  assume pc: "pc < length P"
  let ?part = "part P flag empties"
  have split: "[0..<length P] = [0..<pc] @ pc # [Suc pc..<length P]" 
    using upt_add_eq_append [of 0 pc "length P - pc"] upt_conv_Cons [of pc "length P"] pc by simp
  have "concat (map ?part [0..<length P]) = concat (map ?part [0..<pc]) @ ?part pc @ concat (map ?part [Suc pc..<length P])"
    by (subst split) simp
  then show "Of (fst (follow P flag empties)) pc = ?part pc"
    unfolding follow_def fold using pc upt_Suc_append [of 0 pc]
    by (simp add: Of_def slice_def nth_append del: upt_Suc)
qed

subsection \<open>\<open>Next\<close>\<close>

definition stamped :: "nat \<Rightarrow> nat list \<Rightarrow> nat set" where
  "stamped stamp seen = {k. k < length seen \<and> seen ! k = stamp}"

lemma stamped_update [simp]: "k < length seen \<Longrightarrow> stamped stamp (seen[k := stamp]) = insert k (stamped stamp seen)"
  by (auto simp: stamped_def nth_list_update)

definition key :: "nat \<Rightarrow> nat" where
  "key q = q mod expand"

text \<open>An entry is a rune instruction, or another instruction marked with \<open>expand\<close>.\<close>

definition entry_ok :: "inst list \<Rightarrow> nat \<Rightarrow> bool" where
  "entry_ok P q \<longleftrightarrow> key q < length P \<and> (isRune (P ! key q) \<longleftrightarrow> q < expand)"

lemma entry_keys:
  assumes "wf_prog P start" "x < length P"
  shows "key ` set (entry P [] x) = (if in_Op (P ! x) \<in> {InstMatch, InstFail} then {} else {x})"
    "q \<in> set (entry P [] x) \<Longrightarrow> entry_ok P q"
  using assms by (auto simp: entry_def Let_def key_def entry_ok_def isRune_def wf_prog_def split: if_splits)

lemma entries_keys:
  assumes "wf_prog P start" "set xs \<subseteq> {..<length P}"
  shows "key ` set (entries P xs) = {x \<in> set xs. in_Op (P ! x) \<notin> {InstMatch, InstFail}}"
    "q \<in> set (entries P xs) \<Longrightarrow> entry_ok P q"
proof -
  show "q \<in> set (entries P xs) \<Longrightarrow> entry_ok P q"
    using assms entry_keys(2) [OF assms(1)] by (auto simp: entries_def)
  show "key ` set (entries P xs) = {x \<in> set xs. in_Op (P ! x) \<notin> {InstMatch, InstFail}}"
    using assms(2)
  proof (induction xs)
    case (Cons x xs)
    then show ?case
      using entry_keys(1) [OF assms(1), of x] by (auto simp: entries_def image_Un)
  qed (simp add: entries_def)
qed

text \<open>
  The invariant of the search: the output holds the stamped rune instructions, the stack the stamped others
  whose entries are still to be followed, but for those in \<open>X\<close>, and everything stamped is in \<open>R\<close>.
\<close>

definition next_inv ::
  "inst list \<Rightarrow> Follow \<Rightarrow> nat \<Rightarrow> nat set \<Rightarrow> nat set \<Rightarrow> nat list \<times> nat list \<times> nat list \<Rightarrow> bool" where
  "next_inv P f stamp R X = (\<lambda>(dst, seen, st).
     length P \<le> length seen \<and> stamped stamp seen \<subseteq> R \<inter> {..<length P}
     \<and> set dst = {k \<in> stamped stamp seen. isRune (P ! k)}
     \<and> set st \<subseteq> {k \<in> stamped stamp seen. \<not> isRune (P ! k)}
     \<and> (\<forall>k \<in> stamped stamp seen. \<not> isRune (P ! k) \<and> k \<notin> set st \<and> k \<notin> X
          \<longrightarrow> key ` set (Of f k) \<subseteq> stamped stamp seen))"

lemma next_visit_inv:
  assumes "next_inv P f stamp R X acc" "entry_ok P q" "key q \<in> R"
    and v: "next_visit stamp q acc = (dst', seen', st')" and acc: "acc = (dst, seen, st)"
  shows "next_inv P f stamp R X (dst', seen', st')" "stamped stamp seen' = insert (key q) (stamped stamp seen)"
    "length seen' = length seen"
proof -
  let ?V = "stamped stamp seen"
  have k: "key q < length seen" using assms(1,2) acc by (auto simp: next_inv_def entry_ok_def)
  consider (old) "seen ! key q = stamp" "dst' = dst" "seen' = seen" "st' = st"
    | (rune) "seen ! key q \<noteq> stamp" "isRune (P ! key q)" "dst' = dst @ [key q]" "seen' = seen[key q := stamp]" "st' = st"
    | (other) "seen ! key q \<noteq> stamp" "\<not> isRune (P ! key q)" "dst' = dst" "seen' = seen[key q := stamp]" "st' = key q # st"
    using v k assms(2) acc by (fastforce simp: next_visit_def Let_def key_def entry_ok_def split: if_splits)
  then show "next_inv P f stamp R X (dst', seen', st')" "stamped stamp seen' = insert (key q) ?V" "length seen' = length seen"
  proof (atomize (full), cases)
    case old
    then have "key q \<in> ?V" using k by (simp add: stamped_def)
    with old assms(1) acc show "next_inv P f stamp R X (dst', seen', st')
        \<and> stamped stamp seen' = insert (key q) ?V \<and> length seen' = length seen" by auto
  next
    case rune
    then show "next_inv P f stamp R X (dst', seen', st')
        \<and> stamped stamp seen' = insert (key q) ?V \<and> length seen' = length seen"
      using assms(1-3) acc k by (auto simp: next_inv_def entry_ok_def) blast+
  next
    case other
    then show "next_inv P f stamp R X (dst', seen', st')
        \<and> stamped stamp seen' = insert (key q) ?V \<and> length seen' = length seen"
      using assms(1-3) acc k by (auto simp: next_inv_def entry_ok_def) blast+
  qed
qed

lemma next_fold_inv:
  assumes "next_inv P f stamp R X acc" "\<And>q. q \<in> set qs \<Longrightarrow> entry_ok P q \<and> key q \<in> R"
    and "fold (next_visit stamp) qs acc = (dst', seen', st')" "acc = (dst, seen, st)"
  shows "next_inv P f stamp R X (dst', seen', st') \<and> stamped stamp seen' = stamped stamp seen \<union> key ` set qs
    \<and> length seen' = length seen"
  using assms
proof (induction qs arbitrary: acc dst seen st)
  case (Cons q qs)
  obtain d s t where v: "next_visit stamp q acc = (d, s, t)" by (metis prod.exhaust)
  have q: "entry_ok P q" "key q \<in> R" using Cons.prems(2) by auto
  note step = next_visit_inv [OF Cons.prems(1) q v Cons.prems(4)]
  show ?case using Cons.IH [OF step(1) _ _ refl] Cons.prems v step by simp
qed simp

lemma next_inv_done:
  "next_inv P f stamp R {pc} (dst, seen, st) \<Longrightarrow> key ` set (Of f pc) \<subseteq> stamped stamp seen \<Longrightarrow>
     next_inv P f stamp R {} (dst, seen, st)"
proof -
  assume inv: "next_inv P f stamp R {pc} (dst, seen, st)" and pc: "key ` set (Of f pc) \<subseteq> stamped stamp seen"
  have "key ` set (Of f k) \<subseteq> stamped stamp seen" if "k \<in> stamped stamp seen" "\<not> isRune (P ! k)" "k \<notin> set st" for k
  proof (cases "k = pc")
    case False
    with inv that show ?thesis unfolding next_inv_def split by blast
  qed (use pc in simp)
  then show ?thesis using inv unfolding next_inv_def split by blast
qed

lemma next_loop_inv:
  "(\<And>k q. k \<in> R \<Longrightarrow> k < length P \<Longrightarrow> \<not> isRune (P ! k) \<Longrightarrow> q \<in> set (Of f k) \<Longrightarrow> entry_ok P q \<and> key q \<in> R) \<Longrightarrow>
    next_inv P f stamp R {} (dst, seen, st) \<Longrightarrow> next_loop f stamp (dst, seen, st) = (dst', seen') \<Longrightarrow>
    next_inv P f stamp R {} (dst', seen', []) \<and> stamped stamp seen \<subseteq> stamped stamp seen' \<and> length seen' = length seen"
proof (induction f stamp "(dst, seen, st)" arbitrary: dst seen st rule: next_loop.induct)
  case (2 f stamp dst seen pc st)
  obtain d s t where v: "fold (next_visit stamp) (Of f pc) (dst, seen, st) = (d, s, t)" by (metis prod.exhaust)
  have pc: "pc \<in> R" "pc < length P" "\<not> isRune (P ! pc)" using "2.prems"(2) by (auto simp: next_inv_def)
  have "next_inv P f stamp R {pc} (dst, seen, st)" using "2.prems"(2) by (auto simp: next_inv_def)
  from next_fold_inv [OF this _ v refl] "2.prems"(1) [OF pc]
  have inv: "next_inv P f stamp R {pc} (d, s, t)" "stamped stamp s = stamped stamp seen \<union> key ` set (Of f pc)"
      "length s = length seen" by auto
  then have "next_inv P f stamp R {} (d, s, t)" by (intro next_inv_done) auto
  from "2.hyps" [OF v "2.prems"(1) this] "2.prems"(3) v inv(2,3) show ?case by auto
qed auto

lemma closed_runes:
  assumes "wf_prog P start" "x < length P"
    and "\<And>k q. k \<in> V \<Longrightarrow> \<not> isRune (P ! k) \<Longrightarrow> q \<in> set (empty_outs (P ! k) flag) \<Longrightarrow>
           in_Op (P ! q) \<notin> {InstMatch, InstFail} \<Longrightarrow> q \<in> V"
    and "in_Op (P ! x) \<notin> {InstMatch, InstFail} \<longrightarrow> x \<in> V"
  shows "runes_from P flag x \<subseteq> V"
proof
  fix q assume "q \<in> runes_from P flag x"
  then have q: "isRune (P ! q)" "(x, q) \<in> (eps P flag)\<^sup>*" by (auto simp: runes_from_def)
  from q(2) assms(2,4) show "q \<in> V"
  proof (induction rule: converse_rtrancl_induct)
    case base
    then show ?case using q(1) by (auto simp: isRune_def)
  next
    case (step y z)
    have z: "z \<in> set (empty_outs (P ! y) flag)" using step.hyps(1) by (simp add: eps_def)
    then have y: "\<not> isRune (P ! y)" "in_Op (P ! y) \<notin> {InstMatch, InstFail}"
      by (metis empty_iff empty_outs_rune list.set(1), metis empty_iff empty_outs_end list.set(1))
    have "z < length P" using empty_outs_less [OF assms(1) step.prems(1) z] .
    moreover have "in_Op (P ! z) \<notin> {InstMatch, InstFail} \<longrightarrow> z \<in> V"
      using assms(3) [OF _ y(1) z] step.prems(2) y(2) by blast
    ultimately show ?case by (rule step.IH)
  qed
qed
lemma fold_concat: "fold (\<lambda>x acc. fold g (h x) acc) xs acc = fold g (concat (map h xs)) acc"
  by (induction xs arbitrary: acc) auto

lemma next_visit_stamps:
  "next_visit stamp q acc = (dst', seen', st') \<Longrightarrow> set seen' \<subseteq> insert stamp (set (fst (snd acc)))"
  by (cases acc) (auto simp: next_visit_def Let_def split: if_splits dest!: subsetD [OF set_update_subset_insert])

lemma next_fold_stamps:
  "fold (next_visit stamp) qs acc = (dst', seen', st') \<Longrightarrow> set seen' \<subseteq> insert stamp (set (fst (snd acc)))"
proof (induction qs arbitrary: acc)
  case (Cons q qs)
  obtain d s t where v: "next_visit stamp q acc = (d, s, t)" by (metis prod.exhaust)
  show ?case using Cons.IH [of "(d, s, t)"] Cons.prems v next_visit_stamps [OF v] by auto
qed auto

lemma next_loop_stamps:
  "next_loop f stamp (dst, seen, st) = (dst', seen') \<Longrightarrow> set seen' \<subseteq> insert stamp (set seen)"
proof (induction f stamp "(dst, seen, st)" arbitrary: dst seen st rule: next_loop.induct)
  case (2 f stamp dst seen pc st)
  obtain d s t where v: "fold (next_visit stamp) (Of f pc) (dst, seen, st) = (d, s, t)" by (metis prod.exhaust)
  show ?case using "2.hyps" [OF v] "2.prems" v next_fold_stamps [OF v] by auto
qed auto

text \<open>The search over the lists of \<open>follow\<close> finds the rune instructions that follow, each one once marked.\<close>

lemma search_correct:
  assumes wf: "wf_prog P start" and pcs: "\<And>pc. pc \<in> set pcs \<Longrightarrow> pc < length P \<and> isRune (P ! pc)"
    and seen: "length P \<le> length seen" "stamped stamp seen = {}"
    and f: "f = fst (follow P flag ex)" and ex: "snd (follow P flag False) \<longrightarrow> ex"
    and first: "fold (next_visit stamp) (concat (map (Of f) pcs)) ([], seen, []) = (dst, seen1, st)"
    and res: "(if \<not> ex then (dst, seen1) else next_loop f stamp (dst, seen1, st)) = (dst', seen')"
  shows "set dst' = (\<Union>pc \<in> set pcs. runes_from P flag (in_Out (P ! pc)))" "length seen' = length seen"
    "set seen' \<subseteq> insert stamp (set seen)"
proof -
  define R where "R = {q. \<exists>pc \<in> set pcs. (in_Out (P ! pc), q) \<in> (eps P flag)\<^sup>*}"
  have out: "in_Out (P ! pc) < length P" if "pc \<in> set pcs" for pc
    using rune_Out_less [OF wf] pcs [OF that] by blast
  have small: "length P < expand" using wf by (simp add: wf_prog_def)
  have R_less: "q < length P" if "q \<in> R" for q
    using that out eps_less [OF wf] by (auto simp: R_def)
  have key_id: "key q = q" if "q \<in> runes_from P flag x" "x < length P" for q x
    using eps_less [OF wf, of x q flag] that small by (auto simp: runes_from_def key_def)
  have list: "Of f pc = part P flag ex pc" if "pc < length P" for pc
    using follow_correct(1) [OF that] by (simp add: f)
  have listed: "set (Of f pc) = runes_from P flag (in_Out (P ! pc))" if "pc \<in> set pcs" "fits P flag pc" for pc
  proof -
    obtain qs ok where c: "closure P [] (in_Out (P ! pc)) flag maxClosure = (qs, ok)" by (metis prod.exhaust)
    then have "ok" "Of f pc = qs" using that list [of pc] pcs [OF that(1)] by (simp_all add: part_def fits_def)
    then show ?thesis using closure_correct(1) [OF wf out [OF that(1)] c] by auto
  qed
  have entry: "Of f pc = entries P [in_Out (P ! pc)]" if "pc \<in> set pcs" "\<not> fits P flag pc" for pc
    using list [of pc] pcs [OF that(1)] that(2) by (simp add: part_def)
  have ok0: "entry_ok P q \<and> key q \<in> R" if q: "q \<in> set (concat (map (Of f) pcs))" for q
  proof -
    obtain pc where pc: "pc \<in> set pcs" "q \<in> set (Of f pc)" using q by auto
    show ?thesis
    proof (cases "fits P flag pc")
      case True
      then have "isRune (P ! q)" "q \<in> R" using listed [OF pc(1)] pc by (auto simp: runes_from_def R_def)
      then show ?thesis using R_less [of q] small by (simp add: entry_ok_def key_def)
    next
      case False
      then have "q \<in> set (entries P [in_Out (P ! pc)])" using entry [OF pc(1)] pc(2) by simp
      moreover have outs: "set [in_Out (P ! pc)] \<subseteq> {..<length P}" using out [OF pc(1)] by simp
      ultimately have "key q = in_Out (P ! pc)" "entry_ok P q"
        using entries_keys(1) [OF wf outs] imageI [of q "set (entries P [in_Out (P ! pc)])" key]
          entries_keys(2) [OF wf outs, of q] by auto
      then show ?thesis using pc(1) by (auto simp: R_def)
    qed
  qed
  have okR: "entry_ok P q \<and> key q \<in> R" if k: "k \<in> R" "k < length P" "\<not> isRune (P ! k)" "q \<in> set (Of f k)" for k q
  proof -
    have q: "q \<in> set (entries P (empty_outs (P ! k) flag))"
      using k list [of k] by (auto simp: part_def split: if_splits)
    have outs: "set (empty_outs (P ! k) flag) \<subseteq> {..<length P}" using empty_outs_less [OF wf k(2)] by blast
    have "key q \<in> set (empty_outs (P ! k) flag)"
      using entries_keys(1) [OF wf outs] imageI [OF q, of key] by auto
    then have "key q \<in> R" using k(1) by (auto simp: R_def eps_def intro: rtrancl.rtrancl_into_rtrancl)
    then show ?thesis using entries_keys(2) [OF wf outs q] by blast
  qed
  have "next_inv P f stamp R {} ([], seen, [])" using seen by (simp add: next_inv_def)
  from next_fold_inv [OF this ok0 first refl]
  have inv1: "next_inv P f stamp R {} (dst, seen1, st)" "stamped stamp seen1 = key ` set (concat (map (Of f) pcs))"
      "length seen1 = length seen" using seen(2) by auto
  have stamps1: "set seen1 \<subseteq> insert stamp (set seen)" using next_fold_stamps [OF first] by simp
  have "set dst' = (\<Union>pc \<in> set pcs. runes_from P flag (in_Out (P ! pc))) \<and> length seen' = length seen
    \<and> set seen' \<subseteq> insert stamp (set seen)"
  proof (cases ex)
    case False
    then have fits: "fits P flag pc" if "pc \<in> set pcs" for pc
      using ex follow_correct(2) [of P flag False] pcs [OF that] by blast
    have "key ` runes_from P flag x = runes_from P flag x" if "x < length P" for x
      using key_id [OF _ that] by force
    then have "stamped stamp seen1 = (\<Union>pc \<in> set pcs. runes_from P flag (in_Out (P ! pc)))"
      using inv1(2) listed fits out by (auto simp: image_UN)
    moreover have "set dst = {k \<in> stamped stamp seen1. isRune (P ! k)}" using inv1(1) by (simp add: next_inv_def)
    ultimately have "set dst = (\<Union>pc \<in> set pcs. runes_from P flag (in_Out (P ! pc)))" by (auto simp: runes_from_def)
    then show ?thesis using False res inv1(3) stamps1 by simp
  next
    case True
    then have loop: "next_loop f stamp (dst, seen1, st) = (dst', seen')" using res by simp
    from next_loop_inv [OF okR inv1(1) loop]
    have inv2: "next_inv P f stamp R {} (dst', seen', [])" "stamped stamp seen1 \<subseteq> stamped stamp seen'"
        "length seen' = length seen1" by auto
    let ?V = "stamped stamp seen'"
    have V: "?V \<subseteq> R \<inter> {..<length P}" "set dst' = {k \<in> ?V. isRune (P ! k)}" using inv2(1) by (auto simp: next_inv_def)
    have closed: "q \<in> ?V" if "k \<in> ?V" "\<not> isRune (P ! k)" "q \<in> set (empty_outs (P ! k) flag)"
        "in_Op (P ! q) \<notin> {InstMatch, InstFail}" for k q
    proof -
      have k: "k < length P" using that(1) V(1) by auto
      have outs: "set (empty_outs (P ! k) flag) \<subseteq> {..<length P}" using empty_outs_less [OF wf k] by blast
      have "Of f k = entries P (empty_outs (P ! k) flag)" using list [OF k] that(2) True by (simp add: part_def)
      moreover have "key ` set (Of f k) \<subseteq> ?V" using inv2(1) that(1,2) by (simp add: next_inv_def)
      ultimately show ?thesis using entries_keys(1) [OF wf outs] that(3,4) by auto
    qed
    have "runes_from P flag (in_Out (P ! pc)) \<subseteq> set dst'" if pc: "pc \<in> set pcs" for pc
    proof -
      have keys: "key ` set (Of f pc) \<subseteq> ?V" using inv1(2) inv2(2) pc by (auto simp: image_UN)
      have "runes_from P flag (in_Out (P ! pc)) \<subseteq> ?V"
      proof (cases "fits P flag pc")
        case True
        show ?thesis using keys listed [OF pc True] key_id [OF _ out [OF pc]] by force
      next
        case False
        then have start: "in_Op (P ! in_Out (P ! pc)) \<notin> {InstMatch, InstFail} \<longrightarrow> in_Out (P ! pc) \<in> ?V"
          using keys entry [OF pc False] entries_keys(1) [OF wf, of "[in_Out (P ! pc)]"] out [OF pc] by auto
        show ?thesis by (rule closed_runes [OF wf out [OF pc] _ start]) (rule closed)
      qed
      then show ?thesis using V(2) by (auto simp: runes_from_def)
    qed
    moreover have "set dst' \<subseteq> (\<Union>pc \<in> set pcs. runes_from P flag (in_Out (P ! pc)))"
      using V by (auto simp: R_def runes_from_def)
    ultimately show ?thesis using inv1(3) inv2(3) next_loop_stamps [OF loop] stamps1 by auto
  qed
  then show "set dst' = (\<Union>pc \<in> set pcs. runes_from P flag (in_Out (P ! pc)))" "length seen' = length seen"
    "set seen' \<subseteq> insert stamp (set seen)" by auto
qed

end
