(* ===== verification/Regprog_Last.thy ===== *)
theory Regprog_Last
  imports Regprog_Closure
begin

text \<open>
  The end of the string: \<open>last\<close> finds the rune instructions that a match follows. It sorts the empty
  transitions by their target, with offsets into one array, and searches backwards from the matches.
\<close>

subsection \<open>Sorting the transitions by their target\<close>

definition cnt :: "(nat \<times> nat) list \<Rightarrow> nat \<Rightarrow> nat" where
  "cnt es j = length (filter (\<lambda>e. snd e = j) es)"

definition base :: "(nat \<times> nat) list \<Rightarrow> nat \<Rightarrow> nat" where
  "base es j = (\<Sum>k<j. cnt es k)"

lemma cnt_simps [simp]: "cnt [] j = 0" "cnt (e # es) j = (if snd e = j then Suc (cnt es j) else cnt es j)"
  "cnt (es @ fs) j = cnt es j + cnt fs j"
  by (simp_all add: cnt_def)

lemma base_simps [simp]: "base es 0 = 0" "base es (Suc j) = base es j + cnt es j"
  by (simp_all add: base_def)

lemma base_mono: "j \<le> k \<Longrightarrow> base es j \<le> base es k"
  unfolding base_def by (rule sum_mono2) auto

lemma count_edges_nth:
  "\<forall>e \<in> set es. snd e + 2 < length off \<Longrightarrow>
     length (count_edges es off) = length off \<and>
     (\<forall>k < length off. count_edges es off ! k = off ! k + (if 2 \<le> k then cnt es (k - 2) else 0))"
proof (induction es arbitrary: off)
  case (Cons e es)
  obtain i pc where e: "e = (i, pc)" by fastforce
  let ?off = "off[pc + 2 := off ! (pc + 2) + 1]"
  have step: "count_edges (e # es) off = count_edges es ?off" by (simp add: count_edges_def e)
  show ?case using Cons.IH [of ?off] Cons.prems unfolding step by (auto simp: e nth_list_update)
qed (simp add: count_edges_def)

lemma sum_offsets_nth:
  assumes "off ! 0 = 0" "2 \<le> length off"
  shows "length (sum_offsets off) = length off" "k < length off \<Longrightarrow> sum_offsets off ! k = (\<Sum>i\<le>k. off ! i)"
proof -
  have "length (fold (\<lambda>i off. off[i := off ! i + off ! (i - 1)]) [2..<m] off) = length off \<and>
      (\<forall>k < length off. fold (\<lambda>i off. off[i := off ! i + off ! (i - 1)]) [2..<m] off ! k
         = (if k < m then (\<Sum>i\<le>k. off ! i) else off ! k))" if "2 \<le> m" "m \<le> length off" for m
    using that
  proof (induction m rule: dec_induct)
    case base
    have "(\<Sum>i\<le>k. off ! i) = off ! k" if "k < 2" for k
      using that assms(1) by (cases k) auto
    then show ?case by auto
  next
    case (step m)
    let ?f = "fold (\<lambda>i off. off[i := off ! i + off ! (i - 1)]) [2..<m] off"
    have IH: "length ?f = length off" "\<forall>k < length off. ?f ! k = (if k < m then (\<Sum>i\<le>k. off ! i) else off ! k)"
      using step by auto
    obtain j where j: "m = Suc j" using step.hyps by (cases m) auto
    have "?f ! m + ?f ! (m - 1) = (\<Sum>i\<le>m. off ! i)" using IH step.prems j by simp
    then show ?case using IH step.hyps step.prems by (auto simp: nth_list_update less_Suc_eq)
  qed
  from this [of "length off"] assms(2)
  show "length (sum_offsets off) = length off" "k < length off \<Longrightarrow> sum_offsets off ! k = (\<Sum>i\<le>k. off ! i)"
    by (auto simp: sum_offsets_def)
qed

lemma offsets_correct:
  assumes "\<forall>e \<in> set es. snd e < n"
  defines "off \<equiv> sum_offsets (count_edges es (replicate (n + 2) 0))"
  shows "length off = n + 2" "off ! 0 = 0" "j \<le> n \<Longrightarrow> off ! (j + 1) = base es j"
proof -
  let ?c = "count_edges es (replicate (n + 2) 0)"
  have c: "length ?c = n + 2" "\<And>k. k < n + 2 \<Longrightarrow> ?c ! k = (if 2 \<le> k then cnt es (k - 2) else 0)"
    using count_edges_nth [of es "replicate (n + 2) 0"] assms(1) by (auto simp del: replicate_Suc simp: nth_Cons')
  have s: "length off = n + 2" "\<And>k. k < n + 2 \<Longrightarrow> off ! k = (\<Sum>i\<le>k. ?c ! i)"
    using sum_offsets_nth [of ?c] c by (auto simp: off_def)
  show "length off = n + 2" "off ! 0 = 0" using s c by auto
  have "(\<Sum>i\<le>j + 1. ?c ! i) = base es j" if "j \<le> n" for j
    using that
  proof (induction j)
    case 0
    show ?case using c by (simp add: atMost_Suc)
  next
    case (Suc j)
    then show ?case using c(2) [of "Suc (Suc j)"] by simp
  qed
  then show "j \<le> n \<Longrightarrow> off ! (j + 1) = base es j" using s(2) [of "j + 1"] by simp
qed
text \<open>
  Filling: the offset of a target points behind the sources written so far, which stand in its range of the
  array.
\<close>

definition fill_inv :: "(nat \<times> nat) list \<Rightarrow> nat \<Rightarrow> (nat \<times> nat) list \<Rightarrow> nat list \<times> nat list \<Rightarrow> bool" where
  "fill_inv es n done_es = (\<lambda>(preds, off).
     length off = n + 2 \<and> off ! 0 = 0 \<and> length preds = base es n
     \<and> (\<forall>j \<le> n. off ! (j + 1) = base es j + cnt done_es j)
     \<and> (\<forall>j < n. slice preds (base es j) (off ! (j + 1)) = map fst (filter (\<lambda>e. snd e = j) done_es)))"

lemma slice_update_other:
  "k < i \<or> j \<le> k \<Longrightarrow> slice (xs[k := x]) i j = slice xs i j"
proof -
  assume k: "k < i \<or> j \<le> k"
  show ?thesis
  proof (cases "k < i")
    case True
    then show ?thesis by (simp add: slice_def drop_update_cancel)
  next
    case False
    then have "j \<le> k" "i \<le> k" using k by auto
    then show ?thesis by (simp add: slice_def drop_update_swap take_update_cancel)
  qed
qed

lemma slice_update_snoc: "i \<le> k \<Longrightarrow> k < length xs \<Longrightarrow> slice (xs[k := x]) i (Suc k) = slice xs i k @ [x]"
  by (simp add: slice_def drop_update_swap Suc_diff_le take_Suc_conv_app_nth)

lemma fill_step:
  assumes inv: "fill_inv es n done_es (preds, off)" and es: "es = done_es @ (i, pc) # rest" and pc: "pc < n"
  shows "fill_inv es n (done_es @ [(i, pc)]) (preds[off ! (pc + 1) := i], off[pc + 1 := off ! (pc + 1) + 1])"
proof -
  let ?o = "off ! (pc + 1)"
  have o: "?o = base es pc + cnt done_es pc" "length off = n + 2" "length preds = base es n"
    using inv pc by (auto simp: fill_inv_def)
  have room: "?o < base es (Suc pc)" using o(1) es by simp
  then have less: "?o < length preds" using base_mono [of "Suc pc" n es] pc o(3) by simp
  have "slice (preds[?o := i]) (base es j) (off[pc + 1 := ?o + 1] ! (j + 1))
      = map fst (filter (\<lambda>e. snd e = j) (done_es @ [(i, pc)]))" if j: "j < n" for j
  proof (cases "j = pc")
    case True
    have "slice preds (base es pc) ?o = map fst (filter (\<lambda>e. snd e = pc) done_es)"
      using inv pc by (auto simp: fill_inv_def)
    then show ?thesis using True o less pc slice_update_snoc [of "base es pc" ?o preds i] by simp
  next
    case False
    have off_j: "off ! (j + 1) = base es j + cnt done_es j" using inv j by (auto simp: fill_inv_def)
    have "cnt done_es j \<le> cnt es j" using es by simp
    then have "?o < base es j \<or> off ! (j + 1) \<le> ?o"
      using False base_mono [of "Suc j" pc es] base_mono [of "Suc pc" j es] room o(1) off_j
      by (cases "j < pc") auto
    then have "slice (preds[?o := i]) (base es j) (off ! (j + 1)) = slice preds (base es j) (off ! (j + 1))"
      by (rule slice_update_other)
    moreover have "slice preds (base es j) (off ! (j + 1)) = map fst (filter (\<lambda>e. snd e = j) done_es)"
      using inv j by (auto simp: fill_inv_def)
    ultimately show ?thesis using False j o(2) by simp
  qed
  moreover have "\<forall>j \<le> n. off[pc + 1 := ?o + 1] ! (j + 1) = base es j + cnt (done_es @ [(i, pc)]) j"
    using inv o pc by (auto simp: fill_inv_def nth_list_update)
  moreover have "length (off[pc + 1 := ?o + 1]) = n + 2" "off[pc + 1 := ?o + 1] ! 0 = 0" "length (preds[?o := i]) = base es n"
    using inv by (auto simp: fill_inv_def)
  ultimately show ?thesis unfolding fill_inv_def split by blast
qed

lemma fill_preds_inv:
  "fill_inv es n done_es acc \<Longrightarrow> es = done_es @ rest \<Longrightarrow> \<forall>e \<in> set rest. snd e < n \<Longrightarrow>
     fill_inv es n es (fill_preds rest acc)"
proof (induction rest arbitrary: done_es acc)
  case (Cons e rest)
  obtain i pc where e: "e = (i, pc)" by fastforce
  obtain preds off where acc: "acc = (preds, off)" by fastforce
  have "fill_inv es n (done_es @ [(i, pc)]) (preds[off ! (pc + 1) := i], off[pc + 1 := off ! (pc + 1) + 1])"
    using Cons.prems e acc by (intro fill_step [where rest = rest]) auto
  from Cons.IH [OF this] Cons.prems e acc show ?case by (simp add: fill_preds_def)
qed (simp add: fill_preds_def)

lemma preds_correct:
  assumes es: "\<forall>e \<in> set es. snd e < n" and off: "off = sum_offsets (count_edges es (replicate (n + 2) 0))"
    and f: "fill_preds es (replicate (off ! (length off - 1)) 0, off) = (preds, off')" and j: "j < n"
  shows "slice preds (off' ! j) (off' ! (j + 1)) = map fst (filter (\<lambda>e. snd e = j) es)"
proof -
  note c = offsets_correct [OF es, folded off]
  have "fill_inv es n [] (replicate (off ! (length off - 1)) 0, off)"
    using c by (auto simp: fill_inv_def)
  from fill_preds_inv [OF this, of es] es f have inv: "fill_inv es n es (preds, off')" by simp
  have "off' ! j = base es j"
    using inv j by (cases j) (auto simp: fill_inv_def)
  then show ?thesis using inv j by (auto simp: fill_inv_def)
qed

subsection \<open>The backward search\<close>

lemma reach_fold:
  "fold reach_visit qs (reach, stack) = (reach', stack') \<Longrightarrow> \<forall>q \<in> set qs. q < length reach \<Longrightarrow>
     length reach' = length reach \<and> marked reach' = marked reach \<union> set qs
     \<and> set stack \<subseteq> set stack' \<and> set stack' \<subseteq> set stack \<union> set qs \<and> set qs - marked reach \<subseteq> set stack'"
proof (induction qs arbitrary: reach stack)
  case (Cons q qs)
  show ?case
  proof (cases "reach ! q")
    case True
    then have "q \<in> marked reach" using Cons.prems(2) by (simp add: marked_def)
    moreover have "reach_visit q (reach, stack) = (reach, stack)" using True by (simp add: reach_visit_def)
    then have "fold reach_visit qs (reach, stack) = (reach', stack')" using Cons.prems by simp
    ultimately show ?thesis using Cons.IH [of reach stack] Cons.prems(2) by auto
  next
    case False
    then have "reach_visit q (reach, stack) = (reach[q := True], q # stack)"
      using Cons.prems(2) by (simp add: reach_visit_def)
    then have "fold reach_visit qs (reach[q := True], q # stack) = (reach', stack')" using Cons.prems by simp
    from Cons.IH [OF this] Cons.prems(2) show ?thesis by auto
  qed
qed simp

lemma reach_fold_length: "length (fst (fold reach_visit qs acc)) = length (fst acc)"
  by (induction qs arbitrary: acc) (auto simp: reach_visit_def split_beta)

lemma reach_loop_length: "length (reach_loop preds off reach stack) = length reach"
proof (induction preds off reach stack rule: reach_loop.induct)
  case (2 preds off reach pc stack)
  then show ?case
    using reach_fold_length [of "slice preds (off ! pc) (off ! (pc + 1))" "(reach, stack)"]
    by (auto simp: Let_def split_beta)
qed simp

definition reaches_match :: "inst list \<Rightarrow> 8 word \<Rightarrow> nat set" where
  "reaches_match P flag =
     {i. i < length P \<and> (\<exists>m < length P. in_Op (P ! m) = InstMatch \<and> (i, m) \<in> (eps P flag)\<^sup>*)}"

lemma reach_loop_correct:
  assumes wf: "wf_prog P start"
    and preds: "\<And>j. j < length P \<Longrightarrow> set (slice preds (off ! j) (off ! (j + 1))) = {i. i < length P \<and> (i, j) \<in> eps P flag}"
  shows "length reach = length P \<Longrightarrow> marked reach \<subseteq> reaches_match P flag \<Longrightarrow> set stack \<subseteq> marked reach \<Longrightarrow>
    {m. m < length P \<and> in_Op (P ! m) = InstMatch} \<subseteq> marked reach \<Longrightarrow>
    (\<forall>k \<in> marked reach - set stack. {i. i < length P \<and> (i, k) \<in> eps P flag} \<subseteq> marked reach) \<Longrightarrow>
    marked (reach_loop preds off reach stack) = reaches_match P flag"
  using preds
proof (induction preds off reach stack rule: reach_loop.induct)
  case (1 preds off reach)
  have "i \<in> marked reach" if i: "i < length P" and m: "m < length P" "in_Op (P ! m) = InstMatch" "(i, m) \<in> (eps P flag)\<^sup>*" for i m
    using m(3) i
  proof (induction rule: converse_rtrancl_induct)
    case base
    show ?case using 1(4) m by auto
  next
    case (step y z)
    have "z < length P" using step.hyps(1) step.prems by (auto simp: eps_def intro: empty_outs_less [OF wf])
    then have "z \<in> marked reach" by (rule step.IH)
    then show ?case using 1(5) step by auto
  qed
  then have "reaches_match P flag \<subseteq> marked reach" by (auto simp: reaches_match_def)
  with 1(2) show ?case by auto
next
  case (2 preds off reach pc stack)
  let ?qs = "slice preds (off ! pc) (off ! (pc + 1))"
  obtain reach' stack' where v: "fold reach_visit ?qs (reach, stack) = (reach', stack')" by fastforce
  have pc: "pc \<in> marked reach" "pc < length P" using 2(4) 2(2) by (auto simp: marked_def)
  note qs = 2(7) [OF pc(2)]
  from reach_fold [OF v] qs 2(2)
  have r: "length reach' = length P" "marked reach' = marked reach \<union> set ?qs" "set stack \<subseteq> set stack'"
      "set stack' \<subseteq> set stack \<union> set ?qs" "set ?qs - marked reach \<subseteq> set stack'" by auto
  have sound: "set ?qs \<subseteq> reaches_match P flag"
  proof
    fix q assume q: "q \<in> set ?qs"
    obtain m where m: "m < length P" "in_Op (P ! m) = InstMatch" "(pc, m) \<in> (eps P flag)\<^sup>*"
      using pc(1) 2(3) by (auto simp: reaches_match_def)
    moreover from q qs have q': "q < length P" "(q, pc) \<in> eps P flag" by auto
    ultimately show "q \<in> reaches_match P flag"
      unfolding reaches_match_def using converse_rtrancl_into_rtrancl [OF q'(2) m(3)] by auto
  qed
  have closed: "{i. i < length P \<and> (i, k) \<in> eps P flag} \<subseteq> marked reach'" if k: "k \<in> marked reach' - set stack'" for k
  proof (cases "k = pc")
    case True
    then show ?thesis using qs r(2) by blast
  next
    case False
    have "k \<in> marked reach" using k r by auto
    moreover have "k \<notin> set (pc # stack)" using k False r(3) by auto
    ultimately show ?thesis using 2(6) r(2) by auto
  qed
  have "marked (reach_loop preds off reach' stack') = reaches_match P flag"
  proof (rule "2.IH" [OF v [symmetric] refl])
    show "length reach' = length P" by fact
    show "marked reach' \<subseteq> reaches_match P flag" using 2(3) sound r(2) by auto
    show "set stack' \<subseteq> marked reach'" using 2(4) r by auto
    show "{m. m < length P \<and> in_Op (P ! m) = InstMatch} \<subseteq> marked reach'" using 2(5) r(2) by auto
    show "\<forall>k \<in> marked reach' - set stack'. {i. i < length P \<and> (i, k) \<in> eps P flag} \<subseteq> marked reach'"
      using closed by blast
    show "\<And>j. j < length P \<Longrightarrow> set (slice preds (off ! j) (off ! (j + 1))) = {i. i < length P \<and> (i, j) \<in> eps P flag}"
      by (rule 2(7))
  qed
  then show ?case using v by simp
qed

lemma last_of_correct:
  assumes wf: "wf_prog P start" and pc: "pc < length P"
  shows "last_of P flag ! pc \<longleftrightarrow> isRune (P ! pc)
    \<and> (\<exists>m < length P. in_Op (P ! m) = InstMatch \<and> (in_Out (P ! pc), m) \<in> (eps P flag)\<^sup>*)"
proof -
  let ?es = "edges P flag"
  have es: "(i, j) \<in> set ?es \<longleftrightarrow> i < length P \<and> (i, j) \<in> eps P flag" for i j
    by (auto simp: edges_def eps_def)
  have less: "\<forall>e \<in> set ?es. snd e < length P"
    using es by (auto simp: eps_def intro: empty_outs_less [OF wf])
  let ?off = "sum_offsets (count_edges ?es (replicate (length P + 2) 0))"
  obtain preds off where f: "fill_preds ?es (replicate (?off ! (length ?off - 1)) 0, ?off) = (preds, off)"
    by fastforce
  have preds: "set (slice preds (off ! j) (off ! (j + 1))) = {i. i < length P \<and> (i, j) \<in> eps P flag}" if "j < length P" for j
    unfolding preds_correct [OF less refl f that] using es by force
  let ?init = "map (\<lambda>i. in_Op i = InstMatch) P" and ?stack = "rev (filter (\<lambda>i. in_Op (P ! i) = InstMatch) [0..<length P])"
  have init: "marked ?init = {m. m < length P \<and> in_Op (P ! m) = InstMatch}" by (auto simp: marked_def)
  have "marked ?init \<subseteq> reaches_match P flag" unfolding init by (auto simp: reaches_match_def)
  then have reach: "marked (reach_loop preds off ?init ?stack) = reaches_match P flag"
    by (intro reach_loop_correct [OF wf preds]) (auto simp: init)
  have "last_of P flag ! pc \<longleftrightarrow> isRune (P ! pc) \<and> reach_loop preds off ?init ?stack ! in_Out (P ! pc)"
    using pc f by (simp add: last_of_def Let_def)
  moreover have "reach_loop preds off ?init ?stack ! x \<longleftrightarrow> x \<in> reaches_match P flag" if "x < length P" for x
    using reach that reach_loop_length [of preds off ?init ?stack] by (auto simp: marked_def)
  ultimately show ?thesis
    using rune_Out_less [OF wf pc] by (auto simp: reaches_match_def)
qed

end
