(* ===== verification/Regprog_Runs.thy ===== *)
theory Regprog_Runs
  imports Regprog_Last
begin

text \<open>
  What a program matches: runs over the runes of a string, with the assertions that hold at each position. The
  positions that runs visit are the ends of runes, so every run over a string is one over each prefix that
  ends before an ASCII byte.
\<close>

subsection \<open>Runes\<close>

lemma utf8_size_range: "utf8_size x = (sz, lo, hi) \<Longrightarrow> sz \<noteq> 0 \<Longrightarrow> 0x80 \<le> lo \<and> hi \<le> 0xBF \<and> 0xC2 \<le> x \<and> 2 \<le> sz"
  by (auto simp: utf8_size_def split: if_splits)

lemma mod_window: "m * q \<le> x \<Longrightarrow> x < m * q + m \<Longrightarrow> x mod m = x - m * q" for x m q :: nat
proof -
  assume "m * q \<le> x" "x < m * q + m"
  then have "x = m * q + (x - m * q)" "x - m * q < m" by auto
  then show "x mod m = x - m * q" by (metis mod_less mod_mult_self4)
qed

lemma decode_rune_ascii: "s \<noteq> [] \<Longrightarrow> val (s ! 0) < 0x80 \<Longrightarrow> decode_rune s = (val (s ! 0), 1)"
  by (auto simp: decode_rune_def Let_def split_beta)

lemma large: "2 \<le> a \<Longrightarrow> 0x80 \<le> (a * 0x40 + b) * 0x40 + d" for a b d :: nat
  by simp

text \<open>A sequence of several bytes consists of bytes that are not ASCII.\<close>

lemma decode_rune_bytes:
  assumes "s \<noteq> []" "0x80 \<le> val (s ! 0)" "decode_rune s = (c, w)"
  shows "k < w \<Longrightarrow> 0x80 \<le> val (s ! k)" "0x80 \<le> c"
proof -
  obtain sz lo hi where u: "utf8_size (val (s ! 0)) = (sz, lo, hi)" by (metis prod.exhaust)
  let ?b1 = "val (s ! 1)" and ?b2 = "val (s ! 2)" and ?b3 = "val (s ! 3)"
  note d = assms(3) [unfolded decode_rune_def Let_def u split]
  consider (bad) "c = 0xFFFD" "w = 1"
    | (two) "sz = 2" "w = 2" "lo \<le> ?b1" "c = val (s ! 0) mod 0x20 * 0x40 + ?b1 mod 0x40"
    | (three) "sz = 3" "w = 3" "lo \<le> ?b1" "?b1 \<le> hi" "0x80 \<le> ?b2"
        "c = (val (s ! 0) mod 0x10 * 0x40 + ?b1 mod 0x40) * 0x40 + ?b2 mod 0x40"
    | (four) "sz = 4" "w = 4" "lo \<le> ?b1" "?b1 \<le> hi" "0x80 \<le> ?b2" "0x80 \<le> ?b3"
        "c = ((val (s ! 0) mod 8 * 0x40 + ?b1 mod 0x40) * 0x40 + ?b2 mod 0x40) * 0x40 + ?b3 mod 0x40"
    using d assms(1,2) utf8_size_bound [of "val (s ! 0)"] u by (auto split: if_splits)
  then show "k < w \<Longrightarrow> 0x80 \<le> val (s ! k)" "0x80 \<le> c"
  proof (atomize (full), cases)
    case bad
    then show "(k < w \<longrightarrow> 0x80 \<le> val (s ! k)) \<and> 0x80 \<le> c" using assms(2) by simp
  next
    case two
    have "0xC2 \<le> val (s ! 0)" "val (s ! 0) \<le> 0xDF" "0x80 \<le> lo" using u two(1) by (auto simp: utf8_size_def split: if_splits)
    moreover from this have "2 \<le> val (s ! 0) mod 0x20" using mod_window [of "0x20" 6 "val (s ! 0)"] by simp
    ultimately show "(k < w \<longrightarrow> 0x80 \<le> val (s ! k)) \<and> 0x80 \<le> c"
      using two by (auto simp: less_Suc_eq numeral_2_eq_2)
  next
    case three
    have "0x80 \<le> lo" using utf8_size_range [OF u] three(1) by simp
    moreover have "2 \<le> val (s ! 0) mod 0x10 * 0x40 + ?b1 mod 0x40"
    proof (cases "val (s ! 0) = 0xE0")
      case True
      then have "lo = 0xA0" "hi = 0xBF" using u by (auto simp: utf8_size_def)
      then have "0x20 \<le> ?b1 mod 0x40" using three(3,4) mod_window [of "0x40" 2 ?b1] by simp
      then show ?thesis by simp
    next
      case False
      then have "0xE1 \<le> val (s ! 0)" "val (s ! 0) \<le> 0xEF" using u three(1) by (auto simp: utf8_size_def split: if_splits)
      then have "1 \<le> val (s ! 0) mod 0x10" using mod_window [of "0x10" 14 "val (s ! 0)"] by simp
      then show ?thesis by simp
    qed
    ultimately show "(k < w \<longrightarrow> 0x80 \<le> val (s ! k)) \<and> 0x80 \<le> c"
      using three assms(2) by (auto simp: less_Suc_eq numeral_3_eq_3 numeral_2_eq_2)
  next
    case four
    have "0x80 \<le> lo" using utf8_size_range [OF u] four(1) by simp
    moreover have "2 \<le> val (s ! 0) mod 8 * 0x40 + ?b1 mod 0x40"
    proof (cases "val (s ! 0) = 0xF0")
      case True
      then have "lo = 0x90" "hi = 0xBF" using u by (auto simp: utf8_size_def)
      then have "0x10 \<le> ?b1 mod 0x40" using four(3,4) mod_window [of "0x40" 2 ?b1] by simp
      then show ?thesis by simp
    next
      case False
      then have "0xF1 \<le> val (s ! 0)" "val (s ! 0) \<le> 0xF4" using u four(1) by (auto simp: utf8_size_def split: if_splits)
      then have "1 \<le> val (s ! 0) mod 8" using mod_window [of 8 30 "val (s ! 0)"] by simp
      then show ?thesis by simp
    qed
    moreover from large [OF this] have "0x80 \<le> c" using four(7) by simp
    moreover have "0x80 \<le> val (s ! k)" if kw: "k < w"
    proof -
      consider "k = 0" | "k = 1" | "k = 2" | "k = 3" using kw four(2) by linarith
      then show ?thesis
      proof cases
        case 2
        then show ?thesis using four(3) \<open>0x80 \<le> lo\<close> by simp
      qed (use four(5,6) assms(2) in \<open>simp_all only:\<close>)
    qed
    ultimately show "(k < w \<longrightarrow> 0x80 \<le> val (s ! k)) \<and> 0x80 \<le> c" by blast
  qed
qed

lemma decode_rune_take:
  assumes "0 < n" "n < length s \<Longrightarrow> val (s ! n) < 0x80" "s \<noteq> []"
  shows "decode_rune (take n s) = decode_rune s"
proof (cases "n < length s")
  case n: True
  obtain sz lo hi where u: "utf8_size (val (s ! 0)) = (sz, lo, hi)" by (metis prod.exhaust)
  have t: "take n s \<noteq> []" "take n s ! 0 = s ! 0" using assms(1,3) by auto
  show ?thesis
  proof (cases "sz \<le> n")
    case True
    have "sz = 0 \<or> sz = 2 \<or> sz = 3 \<or> sz = 4" using utf8_size_bound [of "val (s ! 0)"] u by simp
    moreover have "2 \<le> sz \<Longrightarrow> take n s ! 1 = s ! 1" "3 \<le> sz \<Longrightarrow> take n s ! 2 = s ! 2" "4 \<le> sz \<Longrightarrow> take n s ! 3 = s ! 3"
      using True by auto
    ultimately show ?thesis using t u True n assms(3) by (auto simp: decode_rune_def Let_def)
  next
    case False
    then have sz: "n < sz" "2 \<le> sz" "sz \<le> 4" "0x80 \<le> lo"
      using utf8_size_bound [of "val (s ! 0)"] utf8_size_range [OF u] u by auto
    then have "n = 1 \<or> n = 2 \<or> n = 3" using assms(1) by auto
    then have "decode_rune s = (if val (s ! 0) < 0x80 then (val (s ! 0), 1) else (0xFFFD, 1))"
      using sz assms n u by (auto simp: decode_rune_def Let_def)
    moreover have "decode_rune (take n s) = (if val (s ! 0) < 0x80 then (val (s ! 0), 1) else (0xFFFD, 1))"
      using t u sz n by (auto simp: decode_rune_def Let_def)
    ultimately show ?thesis by simp
  qed
qed simp
subsection \<open>Positions\<close>

text \<open>The position after the rune at \<open>i\<close>, and the positions between runes.\<close>

definition after :: "string \<Rightarrow> nat \<Rightarrow> nat" where
  "after s i = i + snd (decode_rune (drop i s))"

definition boundary :: "string \<Rightarrow> nat \<Rightarrow> bool" where
  "boundary s i \<longleftrightarrow> (\<exists>k. i = (after s ^^ k) 0)"

lemma boundary_0 [simp]: "boundary s 0"
  unfolding boundary_def by (rule exI [of _ 0]) simp

lemma boundary_after: "boundary s i \<Longrightarrow> boundary s (after s i)"
  unfolding boundary_def by (metis funpow.simps(2) o_apply)

lemma after_greater: "i < length s \<Longrightarrow> i < after s i \<and> after s i \<le> length s"
  using decode_rune_width [of "drop i s"] by (auto simp: after_def)

lemma after_le: "i \<le> after s i"
  by (simp add: after_def)

lemma boundary_next:
  assumes "boundary s i" "boundary s j" "i < j"
  shows "after s i \<le> j"
proof -
  obtain k m where k: "i = (after s ^^ k) 0" and m: "j = (after s ^^ m) 0" using assms(1,2) by (auto simp: boundary_def)
  have mono: "(after s ^^ a) 0 \<le> (after s ^^ b) 0" if "a \<le> b" for a b
    using that by (induction rule: dec_induct) (auto intro: order_trans after_le)
  have "k < m" using mono [of m k] assms(3) k m by (meson leD not_le)
  then show ?thesis using mono [of "Suc k" m] k m by simp
qed

lemma boundary_after_inj:
  assumes "boundary s i" "boundary s j" "i < length s" "j < length s" "after s i = after s j"
  shows "i = j"
  using boundary_next [OF assms(1,2)] boundary_next [OF assms(2,1)] after_greater [OF assms(3)] after_greater [OF assms(4)]
    assms(5) by (cases i j rule: linorder_cases) auto

text \<open>Between two positions there are only bytes that are not ASCII.\<close>

lemma between_bytes:
  assumes "i < length s" "i < k" "k < after s i"
  shows "0x80 \<le> val (s ! k)"
proof -
  obtain c w where d: "decode_rune (drop i s) = (c, w)" by fastforce
  have "0x80 \<le> val (drop i s ! 0)"
  proof (rule ccontr)
    assume "\<not> 0x80 \<le> val (drop i s ! 0)"
    then show False using decode_rune_ascii [of "drop i s"] assms by (simp add: after_def)
  qed
  from decode_rune_bytes(1) [OF _ this d, of "k - i"] assms d show ?thesis by (simp add: after_def)
qed

subsection \<open>Runs\<close>

definition rune_at :: "string \<Rightarrow> nat \<Rightarrow> nat option" where
  "rune_at s i = (if i < length s then Some (fst (decode_rune (drop i s))) else None)"

text \<open>A run reached instruction \<open>pc\<close> at position \<open>i\<close>, after the rune \<open>r\<close>.\<close>

inductive prog_run :: "inst list \<Rightarrow> nat \<Rightarrow> string \<Rightarrow> nat \<Rightarrow> nat option \<Rightarrow> nat \<Rightarrow> bool" for P start s where
  run_start: "prog_run P start s 0 None start"
| run_empty: "prog_run P start s i r pc \<Longrightarrow> (pc, q) \<in> eps P (EmptyOpContext r (rune_at s i)) \<Longrightarrow> prog_run P start s i r q"
| run_rune: "prog_run P start s i r pc \<Longrightarrow> isRune (P ! pc) \<Longrightarrow> i < length s \<Longrightarrow>
    in_MatchRune (P ! pc) (fst (decode_rune (drop i s))) \<Longrightarrow>
    prog_run P start s (after s i) (rune_at s i) (in_Out (P ! pc))"

definition prog_matches :: "inst list \<Rightarrow> nat \<Rightarrow> string \<Rightarrow> bool" where
  "prog_matches P start s \<longleftrightarrow> (\<exists>r m. prog_run P start s (length s) r m \<and> in_Op (P ! m) = InstMatch)"

text \<open>Classes of runes stand for the runes in the assertions.\<close>

definition rune_class :: "nat \<Rightarrow> nat" where
  "rune_class c = (if c = 10 then 0 else if IsWordChar c then 1 else 2)"

lemma Class_rune: "Class b = rune_class (val b)"
  by (simp add: Class_def rune_class_def)

lemma class_context:
  "EmptyOpContext (Some (classRune (rune_class c))) x = EmptyOpContext (Some c) x"
  "EmptyOpContext x (Some (classRune (rune_class c))) = EmptyOpContext x (Some c)"
  by (auto simp: EmptyOpContext_def rune_class_def classRune_def IsWordChar_def Let_def)

lemma class_at:
  assumes "i < length s"
  shows "rune_class (fst (decode_rune (drop i s))) = Class (s ! i)"
    "rune_class (fst (decode_rune (drop i s))) = Class (s ! (after s i - 1))"
proof -
  obtain c w where d: "decode_rune (drop i s) = (c, w)" by fastforce
  have other: "rune_class x = 2" if "0x80 \<le> x" for x
    using that by (auto simp: rune_class_def IsWordChar_def)
  have "rune_class c = Class (s ! i) \<and> rune_class c = Class (s ! (after s i - 1))"
  proof (cases "val (s ! i) < 0x80")
    case True
    then have "c = val (s ! i)" "w = 1" using decode_rune_ascii [of "drop i s"] assms d by auto
    then show ?thesis using d by (simp add: Class_def rune_class_def after_def)
  next
    case False
    note b = decode_rune_bytes [OF _ _ d]
    have "0x80 \<le> c" using b(2) False assms by simp
    moreover have "1 \<le> w" using decode_rune_width [of "drop i s"] assms d by simp
    moreover from this have "0x80 \<le> val (s ! (i + w - 1))"
      using b(1) [of "w - 1"] False assms decode_rune_width [of "drop i s"] d by (simp add: add.commute)
    ultimately show ?thesis using False other d
      by (simp add: Class_rune after_def)
  qed
  with d show "rune_class (fst (decode_rune (drop i s))) = Class (s ! i)"
    "rune_class (fst (decode_rune (drop i s))) = Class (s ! (after s i - 1))" by auto
qed

text \<open>Facts about every run.\<close>

lemma prog_run_facts:
  assumes "wf_prog P start" "prog_run P start s i r pc"
  shows "pc < length P" "boundary s i" "i \<le> length s"
  using assms(2)
proof (atomize (full), induction)
  case run_start
  then show ?case using assms(1) by (simp add: wf_prog_def)
next
  case (run_empty i r pc q)
  then show ?case using empty_outs_less [OF assms(1)] by (auto simp: eps_def)
next
  case (run_rune i r pc)
  then show ?case using rune_Out_less [OF assms(1)] boundary_after after_greater by blast
qed

text \<open>Only the positions of a run before \<open>j\<close> matter for the string up to \<open>j\<close>, when an ASCII byte stands there.\<close>

lemma decode_prefix:
  assumes "j \<le> length s" "j < length s \<longrightarrow> val (s ! j) < 0x80" "i < j"
  shows "decode_rune (drop i (take j s)) = decode_rune (drop i s)"
proof -
  have "drop i (take j s) = take (j - i) (drop i s)" by (rule drop_take)
  then show ?thesis using assms decode_rune_take [of "j - i" "drop i s"] by simp
qed

lemma prog_run_prefix:
  assumes "j \<le> length s" "j < length s \<longrightarrow> val (s ! j) < 0x80" "i < j"
  shows "prog_run P start (take j s) i r pc \<longleftrightarrow> prog_run P start s i r pc"
proof -
  have eq: "rune_at (take j s) i = rune_at s i" "after (take j s) i = after s i" if "i < j" for i
    using decode_prefix [OF assms(1,2) that] that assms(1) by (auto simp: rune_at_def after_def)
  have "prog_run P start s i r pc" if "prog_run P start (take j s) i r pc" "i < j" for i r pc
    using that
  proof (induction rule: prog_run.induct)
    case (run_empty i r pc q)
    then show ?case using eq prog_run.run_empty by metis
  next
    case (run_rune i r pc)
    then have i: "i < j" by simp
    then have "prog_run P start s i r pc" by (rule run_rune.IH)
    then show ?case
      using prog_run.run_rune [of P start s i r pc] run_rune.hyps eq [OF i] decode_prefix [OF assms(1,2) i] by simp
  qed (rule prog_run.run_start)
  moreover have "prog_run P start (take j s) i r pc" if "prog_run P start s i r pc" "i < j" for i r pc
    using that
  proof (induction rule: prog_run.induct)
    case (run_empty i r pc q)
    then show ?case using eq prog_run.run_empty by metis
  next
    case (run_rune i r pc)
    then have i: "i < j" using after_le [of i s] by linarith
    then have "prog_run P start (take j s) i r pc" by (rule run_rune.IH)
    then show ?case
      using prog_run.run_rune [of P start "take j s" i r pc] run_rune.hyps eq [OF i] decode_prefix [OF assms(1,2) i] i assms(1)
      by simp
  qed (rule prog_run.run_start)
  ultimately show ?thesis using assms(3) by blast
qed

subsection \<open>The instructions that wait for a rune\<close>

definition live :: "inst list \<Rightarrow> nat \<Rightarrow> string \<Rightarrow> nat \<Rightarrow> nat set" where
  "live P start s i = {q. isRune (P ! q) \<and> (\<exists>r. prog_run P start s i r q)}"

lemma run_eps:
  "(pc, q) \<in> (eps P (EmptyOpContext r (rune_at s i)))\<^sup>* \<Longrightarrow> prog_run P start s i r pc \<Longrightarrow> prog_run P start s i r q"
  by (induction rule: rtrancl_induct) (auto intro: run_empty)

text \<open>A run is at the start, or after the last rune, but for empty transitions.\<close>

lemma run_cases:
  assumes "prog_run P start s i r q"
  shows "(i = 0 \<and> r = None \<and> (start, q) \<in> (eps P (EmptyOpContext None (rune_at s 0)))\<^sup>*)
    \<or> (\<exists>k p r'. k < length s \<and> i = after s k \<and> r = rune_at s k \<and> prog_run P start s k r' p \<and> isRune (P ! p)
         \<and> in_MatchRune (P ! p) (fst (decode_rune (drop k s)))
         \<and> (in_Out (P ! p), q) \<in> (eps P (EmptyOpContext r (rune_at s i)))\<^sup>*)"
  using assms
proof induction
  case (run_empty i r pc q)
  then show ?case by (blast intro: rtrancl.rtrancl_into_rtrancl)
qed blast+

lemma live_start: "live P start s 0 = runes_from P (EmptyOpContext None (rune_at s 0)) start"
proof -
  have "0 \<noteq> after s k" if "k < length s" for k
    using after_greater [OF that] by simp
  then show ?thesis
    unfolding live_def runes_from_def
    using run_cases [of P start s 0] run_eps [of start _ P None s 0 start] run_start [of P start s] by blast
qed

text \<open>The instructions of \<open>live\<close> that match the rune at \<open>i\<close>.\<close>

definition matching :: "inst list \<Rightarrow> nat \<Rightarrow> string \<Rightarrow> nat \<Rightarrow> nat set" where
  "matching P start s i = {q \<in> live P start s i. in_MatchRune (P ! q) (fst (decode_rune (drop i s)))}"

lemma run_after:
  assumes "wf_prog P start" "boundary s i" "i < length s"
  shows "prog_run P start s (after s i) r q \<longleftrightarrow> r = rune_at s i
    \<and> (\<exists>p \<in> matching P start s i. (in_Out (P ! p), q) \<in> (eps P (EmptyOpContext (rune_at s i) (rune_at s (after s i))))\<^sup>*)"
    (is "?run \<longleftrightarrow> ?R")
proof
  assume ?run
  from run_cases [OF this] after_greater [OF assms(3)] obtain k p r' where k: "k < length s" "after s i = after s k" "r = rune_at s k"
      "prog_run P start s k r' p" "isRune (P ! p)" "in_MatchRune (P ! p) (fst (decode_rune (drop k s)))"
      "(in_Out (P ! p), q) \<in> (eps P (EmptyOpContext r (rune_at s (after s i))))\<^sup>*" by auto
  have "k = i" using boundary_after_inj [OF _ assms(2) k(1) assms(3)] k(2) prog_run_facts(2) [OF assms(1) k(4)] by simp
  with k show ?R by (auto simp: matching_def live_def)
next
  assume ?R
  then obtain p r' where p: "r = rune_at s i" "prog_run P start s i r' p" "isRune (P ! p)"
      "in_MatchRune (P ! p) (fst (decode_rune (drop i s)))"
      "(in_Out (P ! p), q) \<in> (eps P (EmptyOpContext (rune_at s i) (rune_at s (after s i))))\<^sup>*"
    by (auto simp: matching_def live_def)
  then show ?run using run_eps [OF p(5)] run_rune [OF p(2,3) assms(3) p(4)] by simp
qed

lemma live_after:
  assumes "wf_prog P start" "boundary s i" "i < length s"
  shows "live P start s (after s i) =
    (\<Union>p \<in> matching P start s i. runes_from P (EmptyOpContext (rune_at s i) (rune_at s (after s i))) (in_Out (P ! p)))"
  using run_after [OF assms] by (auto simp: live_def runes_from_def)

lemma live_empty:
  assumes "wf_prog P start" "boundary s i" "i < length s" "live P start s i = {}" "prog_run P start s j r q"
  shows "j \<le> i"
  using assms(5)
proof induction
  case (run_rune k r p)
  have "k \<noteq> i" using run_rune.hyps assms(4) by (auto simp: live_def)
  with run_rune.IH have "k < i" by simp
  then show ?case using boundary_next [OF _ assms(2)] prog_run_facts(2) [OF assms(1) run_rune.hyps(1)] by blast
qed auto

text \<open>A prefix matches when it ends after a rune that a waiting instruction matches before the end.\<close>

lemma matches_prefix:
  assumes wf: "wf_prog P start" and i: "boundary s i" "i < length s"
    and end_ascii: "after s i < length s \<longrightarrow> val (s ! after s i) < 0x80"
  shows "prog_matches P start (take (after s i) s) \<longleftrightarrow>
    (\<exists>p \<in> matching P start s i. \<exists>m. in_Op (P ! m) = InstMatch
       \<and> (in_Out (P ! p), m) \<in> (eps P (EmptyOpContext (rune_at s i) None))\<^sup>*)"
proof -
  let ?j = "after s i"
  let ?u = "take ?j s"
  have j: "i < ?j" "?j \<le> length s" using after_greater [OF i(2)] by auto
  note dec = decode_prefix [OF j(2) end_ascii j(1)] and pre = prog_run_prefix [OF j(2) end_ascii]
  have u: "length ?u = ?j" "after ?u i = ?j" "rune_at ?u i = rune_at s i" "rune_at ?u ?j = None"
    using dec j by (auto simp: after_def rune_at_def)
  have ui: "i < length ?u" using u j by simp
  have b: "boundary ?u i"
  proof -
    have "boundary ?u ((after s ^^ k) 0)" if "(after s ^^ k) 0 \<le> i" for k
      using that
    proof (induction k)
      case (Suc k)
      let ?a = "(after s ^^ k) 0"
      have a: "?a \<le> i" using Suc.prems after_le [of ?a s] by simp
      then have "?a < ?j" using j by simp
      then have "after ?u ?a = after s ?a" using decode_prefix [OF j(2) end_ascii, of ?a] by (simp add: after_def)
      then show ?case using boundary_after [OF Suc.IH [OF a]] by simp
    qed simp
    then show ?thesis using i(1) by (auto simp: boundary_def [of s])
  qed
  have "matching P start ?u i = matching P start s i"
    using pre [OF j(1)] dec by (auto simp: matching_def live_def)
  then show ?thesis
    using run_after [OF wf b ui] u by (auto simp: prog_matches_def)
qed

end
