(* ===== verification/Regprog_Ends.thy ===== *)
theory Regprog_Ends
  imports Regprog_Runs
begin

text \<open>
  The listing of ends is right: whatever was listed before, \<open>Next\<close> returns the first position of the delimiter
  at or after its argument where the string from the start matches the program.
\<close>

subsection \<open>Sets of ASCII bytes\<close>

lemma half_range: "v < 128 \<Longrightarrow> v div 64 mod 2 = 0 \<longleftrightarrow> v < 64" for v :: nat
proof (cases "v < 64")
  case False
  assume "v < 128"
  with False have "v div 64 = 1" by (intro div_nat_eqI) auto
  then show ?thesis using False by simp
qed simp

lemma mod64_eq: "a < 128 \<Longrightarrow> b < 128 \<Longrightarrow> a mod 64 = b mod 64 \<and> (a < 64 \<longleftrightarrow> b < 64) \<longleftrightarrow> a = b" for a b :: nat
  using mod_window [of 64 1 a] mod_window [of 64 1 b] by (cases "a < 64"; cases "b < 64") auto

lemma ascii_has_bit:
  "val b < 128 \<Longrightarrow> ascii_has w b \<longleftrightarrow> bit (if val b < 64 then fst w else snd w) (val b mod 64)"
proof -
  assume b: "val b < 128"
  have "val b AND 63 = val b mod 64"
    using take_bit_eq_mask [of 6 "val b"] by (simp add: take_bit_eq_mod mask_eq_exp_minus_1)
  moreover have "drop_bit 6 (val b) AND 1 = 0 \<longleftrightarrow> val b < 64"
    using half_range [OF b] by (simp only: drop_bit_eq_div and_one_eq power_numeral) simp
  ultimately show ?thesis
    by (simp add: ascii_has_def bit_iff_and_push_bit_not_eq_0)
qed

lemma ascii_has_add:
  assumes "val b < 128" "c < 128"
  shows "ascii_has (ascii_add c w) b \<longleftrightarrow> c = val b \<or> ascii_has w b"
proof -
  have "c div 64 = 0 \<longleftrightarrow> c < 64" by auto
  moreover have "c mod 64 = val b mod 64 \<and> (c < 64 \<longleftrightarrow> val b < 64) \<longleftrightarrow> c = val b"
    using mod64_eq [OF assms(2,1)] .
  moreover have "bit (x OR push_bit (c mod 64) 1) (val b mod 64) \<longleftrightarrow> bit x (val b mod 64) \<or> c mod 64 = val b mod 64"
    for x :: "64 word" by (auto simp: bit_simps)
  ultimately show ?thesis
    using assms by (auto simp: ascii_has_bit ascii_add_def)
qed

lemma ascii_has_zero [simp]: "\<not> ascii_has (0, 0) b"
  by (simp add: ascii_has_def)

lemma ascii_of_correct:
  assumes "val b < 128"
  shows "ascii_has (ascii_of i) b \<longleftrightarrow> isRune i \<and> in_MatchRune i (val b)"
proof -
  have "ascii_has (fold (\<lambda>c w. if in_MatchRune i c then ascii_add c w else w) cs w) b
      \<longleftrightarrow> ascii_has w b \<or> (val b \<in> set cs \<and> in_MatchRune i (val b))" if "\<forall>c \<in> set cs. c < 128" for cs w
    using that by (induction cs arbitrary: w) (auto simp: ascii_has_add assms)
  from this [of "[0..<128]" "(0, 0)"] assms show ?thesis by (simp add: ascii_of_def)
qed

lemma ascii_union:
  "val b < 128 \<Longrightarrow> ascii_has (fold (\<lambda>a m. (fst m OR fst a, snd m OR snd a)) as m) b
     \<longleftrightarrow> ascii_has m b \<or> (\<exists>a \<in> set as. ascii_has a b)"
  by (induction as arbitrary: m) (auto simp: ascii_has_bit bit_simps)

subsection \<open>The tables of a compiled program\<close>

lemma Class_less: "Class b < 3"
  by (simp add: Class_def)

lemma used_superset:
  assumes "i \<in> set P" "in_Op i = InstEmptyWidth"
  shows "of_nat (in_Arg i) AND used_assertions P = (of_nat (in_Arg i) :: 8 word)"
proof -
  let ?f = "\<lambda>i used. if in_Op i = InstEmptyWidth then used OR of_nat (in_Arg i) else used :: 8 word"
  have keep: "bit u n \<Longrightarrow> bit (fold ?f xs u) n" for xs u n
    by (induction xs arbitrary: u) (auto simp: bit_simps)
  have "bit (fold ?f xs u) n" if "i \<in> set xs" "bit (of_nat (in_Arg i) :: 8 word) n" for xs u n
    using that(1)
  proof (induction xs arbitrary: u)
    case (Cons x xs)
    show ?case
    proof (cases "x = i")
      case True
      have "bit (u OR of_nat (in_Arg i)) n" using that(2) by (simp add: bit_or_iff)
      from keep [OF this] show ?thesis using True assms(2) by simp
    next
      case False
      then show ?thesis using Cons by simp
    qed
  qed simp
  from this [OF assms(1)] show ?thesis
    unfolding used_assertions_def by (intro bit_word_eqI) (auto simp: bit_and_iff)
qed

lemma eps_used: "pc < length P \<Longrightarrow> empty_outs (P ! pc) (flag AND used_assertions P) = empty_outs (P ! pc) flag"
proof (cases "in_Op (P ! pc) = InstEmptyWidth")
  case True
  assume pc: "pc < length P"
  let ?a = "of_nat (in_Arg (P ! pc)) :: 8 word"
  have "?a AND used_assertions P = ?a" using used_superset [of "P ! pc" P] True pc by simp
  then have "\<And>n. bit ?a n \<Longrightarrow> bit (used_assertions P) n" by (metis bit_and_iff)
  then have "?a AND NOT (flag AND used_assertions P) = ?a AND NOT flag"
    by (intro bit_word_eqI) (auto simp: bit_simps)
  then show ?thesis by (simp add: empty_outs_def)
qed (auto simp: empty_outs_def split: inst_op.splits)

lemma runes_from_used:
  assumes "wf_prog P start" "pc < length P"
  shows "(pc, q) \<in> (eps P (flag AND used_assertions P))\<^sup>* \<longleftrightarrow> (pc, q) \<in> (eps P flag)\<^sup>*"
proof
  assume "(pc, q) \<in> (eps P (flag AND used_assertions P))\<^sup>*"
  then show "(pc, q) \<in> (eps P flag)\<^sup>*"
  proof (induction rule: rtrancl_induct)
    case (step y z)
    have "y < length P" using eps_less [OF assms(1) step.hyps(1) assms(2)] .
    then show ?case using step eps_used [of y P flag] by (auto simp: eps_def intro: rtrancl.rtrancl_into_rtrancl)
  qed simp
next
  assume "(pc, q) \<in> (eps P flag)\<^sup>*"
  then show "(pc, q) \<in> (eps P (flag AND used_assertions P))\<^sup>*"
  proof (induction rule: rtrancl_induct)
    case (step y z)
    have "y < length P" using eps_less [OF assms(1) step.hyps(1) assms(2)] .
    then show ?case using step eps_used [of y P flag] by (auto simp: eps_def intro: rtrancl.rtrancl_into_rtrancl)
  qed simp
qed

lemma First_correct:
  assumes "wf_prog P start" "c < 3"
  shows "set (First_of (Compile P start) c) = runes_from P (EmptyOpContext None (Some (classRune c))) start"
proof -
  let ?flag = "EmptyOpContext None (Some (classRune c)) AND used_assertions P"
  have start: "start < length P" using assms(1) by (simp add: wf_prog_def)
  obtain qs ok where c: "closure P [] start ?flag (length P) = (qs, ok)" by fastforce
  have "set qs = runes_from P ?flag start"
    using closure_correct [OF assms(1) start c] by auto
  moreover have "First_of (Compile P start) c = qs"
    using c assms(2) by (simp add: First_of_def Compile_def Let_def)
  ultimately show ?thesis using runes_from_used [OF assms(1) start] by (simp add: runes_from_def)
qed

lemma Next_correct:
  assumes wf: "wf_prog P start" and pcs: "\<And>pc. pc \<in> set pcs \<Longrightarrow> pc < length P \<and> isRune (P ! pc)"
    and cls: "p < 3" "n < 3" and seen: "length P \<le> length seen" "stamp \<notin> set seen"
    and res: "Regexp_Next (Compile P start) pcs p n seen stamp = (dst, seen')"
  shows "set dst = (\<Union>pc \<in> set pcs. runes_from P (EmptyOpContext (Some (classRune p)) (Some (classRune n))) (in_Out (P ! pc)))"
    "length seen' = length seen" "set seen' \<subseteq> insert stamp (set seen)"
proof -
  let ?r = "Compile P start" and ?flags = "context_flags P"
  define ex where "ex = list_ex (\<lambda>flag. snd (follow P flag False)) ?flags"
  define ctx where "ctx = EmptyOpContext (Some (classRune p)) (Some (classRune n))"
  let ?flag = "ctx AND used_assertions P"
  have less: "3 * p + n < 9" using cls by simp
  have flag: "?flags ! (3 * p + n) = ?flag" "?flag \<in> set ?flags"
  proof -
    show eq: "?flags ! (3 * p + n) = ?flag"
      using less cls by (simp add: context_flags_def ctx_def div_mult_self4 del: upt_Suc upt_rec_numeral)
    show "?flag \<in> set ?flags" using nth_mem [of "3 * p + n" ?flags] less eq by (simp add: context_flags_def)
  qed
  have follow: "Follow_of ?r p n = fst (follow P ?flag ex)" "rx_expands ?r = ex"
    using less flag by (simp_all add: Follow_of_def Compile_def Let_def ex_def context_flags_def del: upt_Suc upt_rec_numeral)
  have ex: "snd (follow P ?flag False) \<longrightarrow> ex" using flag(2) by (auto simp: ex_def list_ex_iff)
  have stamp: "stamped stamp seen = {}" using seen(2) by (auto simp: stamped_def)
  obtain d s t where first: "fold (next_visit stamp) (concat (map (Of (Follow_of ?r p n)) pcs)) ([], seen, []) = (d, s, t)"
    by (metis prod.exhaust)
  have "(if \<not> ex then (d, s) else next_loop (Follow_of ?r p n) stamp (d, s, t)) = (dst, seen')"
    using res first by (simp add: Regexp_Next_def fold_concat follow(2) Let_def)
  note s = search_correct [OF wf pcs seen(1) stamp follow(1) ex first this]
  show "length seen' = length seen" "set seen' \<subseteq> insert stamp (set seen)" using s(2,3) by auto
  have "runes_from P ?flag (in_Out (P ! pc)) = runes_from P ctx (in_Out (P ! pc))" if "pc \<in> set pcs" for pc
    using runes_from_used [OF wf, of "in_Out (P ! pc)"] rune_Out_less [OF wf] pcs [OF that] by (auto simp: runes_from_def)
  then show "set dst = (\<Union>pc \<in> set pcs. runes_from P (EmptyOpContext (Some (classRune p)) (Some (classRune n))) (in_Out (P ! pc)))"
    using s(1) by (simp add: ctx_def)
qed

lemma Accepts_correct:
  assumes "wf_prog P start" "p < 3" "\<And>pc. pc \<in> set pcs \<Longrightarrow> pc < length P \<and> isRune (P ! pc)"
  shows "Accepts (Compile P start) p pcs \<longleftrightarrow>
    (\<exists>pc \<in> set pcs. \<exists>m. in_Op (P ! m) = InstMatch \<and> (in_Out (P ! pc), m) \<in> (eps P (EmptyOpContext (Some (classRune p)) None))\<^sup>*)"
proof -
  let ?flag = "EmptyOpContext (Some (classRune p)) None"
  have last: "rx_last (Compile P start) ! p = last_of P (?flag AND used_assertions P)"
    using assms(2) by (simp add: Compile_def Let_def)
  have "last_of P (?flag AND used_assertions P) ! pc \<longleftrightarrow>
      (\<exists>m. in_Op (P ! m) = InstMatch \<and> (in_Out (P ! pc), m) \<in> (eps P ?flag)\<^sup>*)" if "pc \<in> set pcs" for pc
  proof -
    have pc: "pc < length P" "isRune (P ! pc)" using assms(3) [OF that] by auto
    have out: "in_Out (P ! pc) < length P" using rune_Out_less [OF assms(1) pc] .
    show ?thesis
      using last_of_correct [OF assms(1) pc(1)] runes_from_used [OF assms(1) out] pc(2)
        eps_less [OF assms(1) _ out] by blast
  qed
  then show ?thesis by (auto simp: Accepts_def list_ex_iff last)
qed
subsection \<open>The listing\<close>

text \<open>
  The invariant, for a listing over \<open>s\<close> from \<open>start\<close>: the simulation stands between two runes, waits at the
  instructions that the runs over the rest of the string reach there, and knows whether the prefix matches.
\<close>

definition good_end :: "inst list \<Rightarrow> nat \<Rightarrow> string \<Rightarrow> nat \<Rightarrow> char \<Rightarrow> nat \<Rightarrow> bool" where
  "good_end P p0 s start delim e \<longleftrightarrow> start < e \<and> e < length s \<and> s ! e = delim \<and> prog_matches P p0 (slice s start e)"

definition ends_inv :: "inst list \<Rightarrow> nat \<Rightarrow> 'k Ends \<Rightarrow> bool" where
  "ends_inv P p0 e \<longleftrightarrow> (let t = drop (en_start e) (en_s e); i = en_pos e - en_start e in
     length P \<le> length (en_seen e) \<and> (\<forall>x \<in> set (en_seen e). x \<le> en_stamp e)
     \<and> en_start e \<le> en_pos e \<and> boundary t i \<and> i \<le> length t
     \<and> set (en_cur e) = (if i < length t then live P p0 t i else {})
     \<and> (en_accepted e \<longleftrightarrow> good_end P p0 (en_s e) (en_start e) (en_delim e) (en_pos e)))"

lemma good_end_take:
  "good_end P p0 s start delim (start + j) \<longleftrightarrow>
     0 < j \<and> j < length (drop start s) \<and> drop start s ! j = delim \<and> prog_matches P p0 (take j (drop start s))"
  by (auto simp: good_end_def slice_def)

lemma Ends_step_inv:
  assumes wf: "wf_prog P p0" and inv: "ends_inv P p0 e" and delim: "val (en_delim e) < 0x80"
    and pos: "en_pos e < length (en_s e)"
  defines "e' \<equiv> Ends_step (Compile P p0) e"
  shows "ends_inv P p0 e'" "en_s e' = en_s e" "en_start e' = en_start e" "en_delim e' = en_delim e" "en_r e' = en_r e"
    "en_pos e' = en_start e + after (drop (en_start e) (en_s e)) (en_pos e - en_start e)"
proof -
  let ?s = "en_s e" and ?t = "drop (en_start e) (en_s e)" and ?i = "en_pos e - en_start e" and ?r = "Compile P p0"
  let ?j = "after ?t ?i"
  note I = inv [unfolded ends_inv_def Let_def]
  have i: "boundary ?t ?i" "?i < length ?t" and at: "en_start e + ?i = en_pos e" using I pos by auto
  have cur: "set (en_cur e) = live P p0 ?t ?i" using I i(2) by simp
  have j: "?i < ?j" "?j \<le> length ?t" using after_greater [OF i(2)] by auto
  have dropi: "drop ?i ?t = drop (en_pos e) ?s" using at by (simp add: add.commute)
  define c w where "c = fst (decode_rune (drop (en_pos e) ?s))" and "w = snd (decode_rune (drop (en_pos e) ?s))"
  have w: "en_pos e + w = en_start e + ?j" using at dropi by (simp add: w_def after_def)
  define matched where "matched = filter (\<lambda>pc. in_MatchRune (P ! pc) c) (en_cur e)"
  have ascii: "val (?s ! en_pos e) < 0x80 \<Longrightarrow> c = val (?s ! en_pos e) \<and> w = 1"
    using decode_rune_ascii [of "drop (en_pos e) ?s"] pos by (simp add: c_def w_def)
  have live_less: "pc < length P" "isRune (P ! pc)" if "pc \<in> set (en_cur e)" for pc
    using that cur prog_run_facts(1) [OF wf] by (auto simp: live_def)
  have "Has (rx_ascii ?r) pc (?s ! en_pos e) \<longleftrightarrow> in_MatchRune (P ! pc) c"
    if "pc \<in> set (en_cur e)" "val (?s ! en_pos e) < 0x80" for pc
    using live_less [OF that(1)] ascii [OF that(2)] ascii_of_correct [of "?s ! en_pos e" "P ! pc"] that(2)
    by (simp add: Has_def Compile_def Let_def)
  then have body: "(if val (?s ! en_pos e) < 0x80 then (filter (\<lambda>pc. Has (rx_ascii ?r) pc (?s ! en_pos e)) (en_cur e), en_pos e + 1)
      else let (c, w) = decode_rune (drop (en_pos e) ?s) in
        (filter (\<lambda>pc. in_MatchRune (rx_inst ?r ! pc) c) (en_cur e), en_pos e + w)) = (matched, en_start e + ?j)"
    using ascii w by (auto simp: matched_def c_def w_def split_beta Compile_def Let_def intro!: filter_cong)
  have mset: "set matched = matching P p0 ?t ?i"
    using cur dropi by (auto simp: matched_def matching_def c_def)
  have mless: "\<And>pc. pc \<in> set matched \<Longrightarrow> pc < length P \<and> isRune (P ! pc)" using live_less by (auto simp: matched_def)
  define p where "p = Class (?s ! (en_start e + ?j - 1))"
  have p: "p < 3" "rune_class c = p"
  proof -
    show "p < 3" by (simp add: p_def Class_less)
    have "?t ! (?j - 1) = ?s ! (en_start e + ?j - 1)" using j by simp
    then show "rune_class c = p" using class_at(2) [OF i(2)] dropi by (simp add: c_def p_def)
  qed
  have r1: "rune_at ?t ?i = Some c" using i(2) dropi by (simp add: rune_at_def c_def)
  have ctx1: "EmptyOpContext (Some (classRune p)) x = EmptyOpContext (rune_at ?t ?i) x" for x
    using class_context(1) [of c x] p(2) r1 by simp
  let ?acc = "en_start e + ?j < length ?s \<and> ?s ! (en_start e + ?j) = en_delim e \<and> Accepts ?r p matched"
  have acc: "?acc \<longleftrightarrow> good_end P p0 ?s (en_start e) (en_delim e) (en_start e + ?j)"
  proof (cases "en_start e + ?j < length ?s \<and> ?s ! (en_start e + ?j) = en_delim e")
    case True
    then have "?j < length ?t \<longrightarrow> val (?t ! ?j) < 0x80" using delim by simp
    from matches_prefix [OF wf i this]
    show ?thesis using True j Accepts_correct [OF wf p(1) mless, of matched] mset ctx1 [of None]
      by (auto simp: good_end_take)
  qed (auto simp: good_end_def)
  let ?stamp = "if en_start e + ?j < length ?s then en_stamp e + 1 else en_stamp e"
  obtain cur' seen' where n: "(if en_start e + ?j < length ?s
      then Regexp_Next ?r matched p (Class (?s ! (en_start e + ?j))) (en_seen e) ?stamp else ([], en_seen e)) = (cur', seen')"
    by fastforce
  have nf: "length seen' = length (en_seen e) \<and> (\<forall>x \<in> set seen'. x \<le> ?stamp)
      \<and> set cur' = (if ?j < length ?t then live P p0 ?t ?j else {})"
  proof (cases "en_start e + ?j < length ?s")
    case True
    then have jl: "?j < length ?t" by auto
    have fresh: "?stamp \<notin> set (en_seen e)" using I True by auto
    have res: "Regexp_Next ?r matched p (Class (?s ! (en_start e + ?j))) (en_seen e) ?stamp = (cur', seen')" using n True by simp
    note N = Next_correct [OF wf mless p(1) Class_less _ fresh res]
    have "EmptyOpContext (Some (classRune p)) (Some (classRune (Class (?s ! (en_start e + ?j)))))
        = EmptyOpContext (rune_at ?t ?i) (rune_at ?t ?j)"
    proof -
      have r2: "rune_at ?t ?j = Some (fst (decode_rune (drop ?j ?t)))" using jl by (simp add: rune_at_def)
      have "?t ! ?j = ?s ! (en_start e + ?j)" using jl by (intro nth_drop) simp
      then have cls: "Class (?s ! (en_start e + ?j)) = rune_class (fst (decode_rune (drop ?j ?t)))"
        using class_at(1) [OF jl] by metis
      show ?thesis unfolding cls r2 class_context(2) by (rule ctx1)
    qed
    then have "set cur' = live P p0 ?t ?j"
      using N(1) I mset live_after [OF wf i] by auto
    moreover have "\<forall>x \<in> set seen'. x \<le> ?stamp" using N(3) I True by fastforce
    ultimately show ?thesis using N(2) I jl by simp
  next
    case False
    then show ?thesis using n I j by auto
  qed
  have e': "e' = e\<lparr>en_steps := en_steps e + 1, en_pos := en_start e + ?j, en_accepted := ?acc, en_stamp := ?stamp,
      en_cur := cur', en_seen := seen'\<rparr>"
    unfolding e'_def Ends_step_def Let_def [of ?s] Let_def [of "en_pos e"] Let_def [of "?s ! en_pos e"] body
    by (cases "en_start e + ?j < length ?s") (use n in \<open>simp_all add: p_def Let_def\<close>)
  show "ends_inv P p0 e'"
    unfolding ends_inv_def e' Let_def using acc nf I boundary_after [OF i(1)] j by simp
  show "en_s e' = en_s e" "en_start e' = en_start e" "en_delim e' = en_delim e" "en_r e' = en_r e"
    "en_pos e' = en_start e + ?j" by (simp_all add: e')
qed
lemma find_first:
  "a \<le> x \<Longrightarrow> x < b \<Longrightarrow> Q x \<Longrightarrow> (\<And>y. a \<le> y \<Longrightarrow> y < x \<Longrightarrow> \<not> Q y) \<Longrightarrow> find Q [a..<b] = Some x"
  unfolding find_Some_iff by (rule exI [of _ "x - a"]) auto

lemma find_none: "(\<And>y. a \<le> y \<Longrightarrow> y < b \<Longrightarrow> \<not> Q y) \<Longrightarrow> find Q [a..<b] = None"
  by (simp add: find_None_iff)

text \<open>No end lies between two positions of the simulation, and none behind a position where nothing waits.\<close>

lemma no_end_between:
  assumes "i < length (drop start s)" "val delim < 0x80" "start + i < x" "x < start + after (drop start s) i"
  shows "\<not> good_end P p0 s start delim x"
proof -
  have "0x80 \<le> val (drop start s ! (x - start))" using between_bytes [OF assms(1), of "x - start"] assms(3,4) by simp
  moreover have "drop start s ! (x - start) = s ! x"
    using assms after_greater [OF assms(1)] by simp
  ultimately show ?thesis using assms(2) by (auto simp: good_end_def)
qed

lemma no_end_dead:
  assumes "wf_prog P p0" "boundary (drop start s) i" "i < length (drop start s)" "live P p0 (drop start s) i = {}"
    and "val delim < 0x80" "start + i < x"
  shows "\<not> good_end P p0 s start delim x"
proof
  let ?t = "drop start s" and ?j = "x - start"
  assume g: "good_end P p0 s start delim x"
  then have j: "i < ?j" "?j < length ?t" "?t ! ?j = delim" "prog_matches P p0 (take ?j ?t)"
    using assms(3,6) by (auto simp: good_end_def slice_def)
  then obtain r m where run: "prog_run P p0 (take ?j ?t) ?j r m" "in_Op (P ! m) = InstMatch"
    by (auto simp: prog_matches_def)
  have ascii: "?j < length ?t \<longrightarrow> val (?t ! ?j) < 0x80" using j assms(5) by simp
  have pre: "prog_run P p0 (take ?j ?t) k r q \<longleftrightarrow> prog_run P p0 ?t k r q" if "k < ?j" for k r q
    using prog_run_prefix [OF _ ascii that] j by simp
  have "prog_run P p0 (take ?j ?t) k r q \<Longrightarrow> k \<le> i" for k r q
  proof (induction rule: prog_run.induct)
    case (run_rune k r q)
    have k: "k < ?j" using run_rune.hyps(3) by simp
    have q: "prog_run P p0 ?t k r q" using pre [OF k] run_rune.hyps(1) by simp
    then have "k \<noteq> i" using run_rune.hyps(2) assms(4) by (auto simp: live_def)
    then have "k < i" using run_rune.IH by simp
    then have "after ?t k \<le> i" using boundary_next [OF prog_run_facts(2) [OF assms(1) q] assms(2)] by simp
    moreover have "after (take ?j ?t) k = after ?t k"
      using decode_prefix [OF _ ascii k] j by (simp add: after_def)
    ultimately show ?case by simp
  qed auto
  from this [OF run(1)] j(1) show False by simp
qed

lemma Ends_loop_correct:
  assumes wf: "wf_prog P p0" and delim: "val (en_delim e) < 0x80" and inv: "ends_inv P p0 e"
    and skipped: "\<And>x. from_pos \<le> x \<Longrightarrow> x \<le> en_pos e \<Longrightarrow> \<not> good_end P p0 (en_s e) (en_start e) (en_delim e) x"
    and res: "Ends_loop (Compile P p0) from_pos e = (a, e')"
  shows "ends_inv P p0 e' \<and> en_s e' = en_s e \<and> en_start e' = en_start e \<and> en_delim e' = en_delim e \<and> en_r e' = en_r e
    \<and> a = find (good_end P p0 (en_s e) (en_start e) (en_delim e)) [from_pos..<length (en_s e)]"
  using delim inv skipped res
proof (induction "length (en_s e) - en_pos e" arbitrary: e rule: less_induct)
  case less
  let ?s = "en_s e" and ?good = "good_end P p0 (en_s e) (en_start e) (en_delim e)"
  let ?t = "drop (en_start e) ?s" and ?i = "en_pos e - en_start e"
  note I = less.prems(2) [unfolded ends_inv_def Let_def]
  show ?case
  proof (cases "en_cur e \<noteq> [] \<and> en_pos e < length ?s")
    case True
    define e1 where "e1 = Ends_step (Compile P p0) e"
    note S = Ends_step_inv [OF wf less.prems(2,1) conjunct2 [OF True], folded e1_def]
    have i: "?i < length ?t" "en_start e + ?i = en_pos e" using I True by auto
    have pos: "en_pos e < en_pos e1" using S(6) after_greater [OF i(1)] i(2) by simp
    have between: "\<not> ?good x" if "en_pos e < x" "x < en_pos e1" for x
      using no_end_between [OF i(1) less.prems(1), of x] that S(6) i(2) by simp
    have acc: "en_accepted e1 \<longleftrightarrow> ?good (en_pos e1)" using S(1-4) by (simp add: ends_inv_def Let_def)
    have unfold: "Ends_loop (Compile P p0) from_pos e =
        (if en_accepted e1 \<and> from_pos \<le> en_pos e1 then (Some (en_pos e1), e1) else Ends_loop (Compile P p0) from_pos e1)"
      using True by (simp add: Ends_loop.simps [of _ _ e] e1_def Let_def)
    show ?thesis
    proof (cases "en_accepted e1 \<and> from_pos \<le> en_pos e1")
      case accepted: True
      then have "a = Some (en_pos e1)" "e' = e1" using less.prems(4) unfold by auto
      moreover have "find ?good [from_pos..<length ?s] = Some (en_pos e1)"
      proof (rule find_first)
        show "from_pos \<le> en_pos e1" "en_pos e1 < length ?s" "?good (en_pos e1)"
          using accepted acc by (auto simp: good_end_def)
        show "\<not> ?good y" if "from_pos \<le> y" "y < en_pos e1" for y
          using less.prems(3) [OF that(1)] between [OF _ that(2)] by (cases "y \<le> en_pos e") auto
      qed
      ultimately show ?thesis using S by simp
    next
      case False
      then have loop: "Ends_loop (Compile P p0) from_pos e1 = (a, e')"
        using less.prems(4) unfold by (simp split: if_splits)
      have "\<not> ?good x" if "from_pos \<le> x" "x \<le> en_pos e1" for x
        using less.prems(3) [OF that(1)] between [of x] that False acc by (cases "x \<le> en_pos e"; cases "x = en_pos e1") auto
      moreover have "length ?s - en_pos e1 < length ?s - en_pos e" using pos True by auto
      ultimately show ?thesis using less.hyps [OF _ _ S(1) _ loop] S less.prems(1) by auto
    qed
  next
    case False
    then have "a = None" "e' = e" using less.prems(4) by (auto simp: Ends_loop.simps [of _ _ e])
    moreover have "find ?good [from_pos..<length ?s] = None"
    proof (rule find_none)
      fix y assume y: "from_pos \<le> y" "y < length ?s"
      show "\<not> ?good y"
      proof (cases "y \<le> en_pos e")
        case above: False
        then have pos: "en_pos e < length ?s" using y by simp
        then have i: "?i < length ?t" "en_start e \<le> en_pos e" "boundary ?t ?i"
          and cur: "set (en_cur e) = (if ?i < length ?t then live P p0 ?t ?i else {})" using I by auto
        have "en_cur e = []" using False pos by blast
        then have "live P p0 ?t ?i = {}" using cur i(1) by simp
        from no_end_dead [OF wf i(3,1) this less.prems(1), of y] show ?thesis using above i(2) by simp
      qed (use less.prems(3) y in blast)
    qed
    ultimately show ?thesis using less.prems(2) by simp
  qed
qed

subsection \<open>Start and Next\<close>

text \<open>\<open>serving prog e re s start delim\<close>: the listing \<open>e\<close> is of the program \<open>re\<close> points to, over \<open>s\<close>.\<close>

definition serving :: "('k \<Rightarrow> inst list \<times> nat) \<Rightarrow> 'k Ends \<Rightarrow> 'k \<Rightarrow> string \<Rightarrow> nat \<Rightarrow> char \<Rightarrow> bool" where
  "serving prog e re s start delim \<longleftrightarrow> en_r e = Some re \<and> en_s e = s \<and> en_start e = start \<and> en_delim e = delim
     \<and> ends_inv (fst (prog re)) (snd (prog re)) e"

definition compiled :: "('k \<Rightarrow> inst list \<times> nat) \<Rightarrow> 'k \<Rightarrow> Regexp" where
  "compiled prog re = Compile (fst (prog re)) (snd (prog re))"

lemma ends_inv_reach [simp]: "ends_inv P p0 (e\<lparr>en_reach := x\<rparr>) = ends_inv P p0 e"
  by (simp add: ends_inv_def)

lemma restart_inv:
  assumes wf: "wf_prog (fst (prog re)) (snd (prog re))"
    and "en_r e = Some re" "en_s e = s" "en_start e = start" "en_delim e = delim" "\<forall>x \<in> set (en_seen e). x \<le> en_stamp e"
  shows "serving prog (restart (compiled prog) e) re s start delim" "en_pos (restart (compiled prog) e) = start"
    "\<not> en_accepted (restart (compiled prog) e)"
proof -
  let ?P = "fst (prog re)" and ?p0 = "snd (prog re)" and ?e = "restart (compiled prog) e"
  have n: "rx_inst (compiled prog re) = ?P" by (simp add: compiled_def Compile_def Let_def)
  have "set (en_cur ?e) = (if 0 < length (drop start s) then live ?P ?p0 (drop start s) 0 else {})"
  proof (cases "start < length s")
    case True
    then have "0 < length (drop start s)" by simp
    from class_at(1) [OF this] have "EmptyOpContext None (Some (classRune (Class (s ! start)))) = EmptyOpContext None (rune_at (drop start s) 0)"
      using class_context(2) [of None "fst (decode_rune (drop start s))"] True by (simp add: rune_at_def)
    then show ?thesis
      using True assms First_correct [OF wf Class_less, of "s ! start"]
      by (simp add: restart_def Let_def compiled_def live_start)
  qed (simp add: restart_def Let_def assms)
  then show "serving prog ?e re s start delim"
    using assms n by (auto simp: serving_def ends_inv_def restart_def Let_def good_end_def)
  show "en_pos ?e = start" "\<not> en_accepted ?e" using assms by (simp_all add: restart_def Let_def)
qed

lemma Start_serving:
  assumes wf: "\<And>re. wf_prog (fst (prog re)) (snd (prog re))"
    and e: "\<forall>x \<in> set (en_seen e). x \<le> en_stamp e"
      "\<And>re. en_r e = Some re \<Longrightarrow> serving prog e re (en_s e) (en_start e) (en_delim e)"
  shows "serving prog (Start (compiled prog) re s start delim e) re s start delim"
proof (cases "en_r e = Some re \<and> en_s e = s \<and> en_start e = start \<and> en_delim e = delim")
  case True
  then have "serving prog e re s start delim" using e(2) by blast
  then show ?thesis using True by (simp add: Start_def)
next
  case False
  have eq: "Start (compiled prog) re s start delim e = restart (compiled prog)
      (e\<lparr>en_r := Some re, en_s := s, en_start := start, en_delim := delim, en_pos := start, en_reach := start\<rparr>)"
    using False by (auto simp: Start_def)
  show ?thesis unfolding eq by (rule restart_inv(1)) (use e(1) wf in simp_all)
qed

lemma Next_serving:
  assumes wf: "wf_prog (fst (prog re)) (snd (prog re))" and delim: "val delim < 0x80"
    and e: "serving prog e re s start delim"
  shows "fst (Ends_Next (compiled prog) from_pos e)
      = find (good_end (fst (prog re)) (snd (prog re)) s start delim) [from_pos..<length s]"
    "serving prog (snd (Ends_Next (compiled prog) from_pos e)) re s start delim"
proof -
  let ?P = "fst (prog re)" and ?p0 = "snd (prog re)" and ?good = "good_end (fst (prog re)) (snd (prog re)) s start delim"
  let ?e0 = "e\<lparr>en_reach := max (en_reach e) from_pos\<rparr>"
  define e1 where "e1 = (if from_pos < en_pos ?e0 then restart (compiled prog) ?e0 else ?e0)"
  have e0: "serving prog ?e0 re s start delim" using e by (simp add: serving_def)
  then have stamps: "\<forall>x \<in> set (en_seen ?e0). x \<le> en_stamp ?e0" by (simp add: serving_def ends_inv_def Let_def)
  note R = restart_inv [where prog = prog and re = re and e = ?e0 and s = s and start = start and delim = delim, OF wf _ _ _ _ stamps]
  have e1: "serving prog e1 re s start delim" "from_pos < en_pos e1 \<longrightarrow> \<not> en_accepted e1 \<and> en_pos e1 = start"
    using e0 R e by (auto simp: e1_def serving_def)
  then have inv: "en_s e1 = s" "en_start e1 = start" "en_delim e1 = delim" "en_r e1 = Some re" "ends_inv ?P ?p0 e1"
    by (auto simp: serving_def)
  have acc: "en_accepted e1 \<longleftrightarrow> ?good (en_pos e1)" using inv by (simp add: ends_inv_def Let_def)
  have step: "Ends_Next (compiled prog) from_pos e = (if en_accepted e1 \<and> from_pos \<le> en_pos e1 then (Some (en_pos e1), e1)
      else Ends_loop (Compile ?P ?p0) from_pos e1)"
    using inv(4) by (simp add: Ends_Next_def e1_def Let_def compiled_def)
  have "fst (Ends_Next (compiled prog) from_pos e) = find ?good [from_pos..<length s]
      \<and> serving prog (snd (Ends_Next (compiled prog) from_pos e)) re s start delim"
  proof (cases "en_accepted e1 \<and> from_pos \<le> en_pos e1")
    case True
    then have "from_pos = en_pos e1" using e1(2) by auto
    then have "find ?good [from_pos..<length s] = Some (en_pos e1)"
      using True acc by (intro find_first) (auto simp: good_end_def)
    then show ?thesis using True step e1(1) by simp
  next
    case False
    have skip: "\<not> ?good x" if "from_pos \<le> x" "x \<le> en_pos e1" for x
    proof (cases "from_pos < en_pos e1")
      case True
      then have "x \<le> start" using e1(2) that by simp
      then show ?thesis by (simp add: good_end_def)
    next
      case at: False
      then show ?thesis using that False acc by (cases "x = en_pos e1") auto
    qed
    obtain a e' where loop: "Ends_loop (Compile ?P ?p0) from_pos e1 = (a, e')" by fastforce
    have "ends_inv ?P ?p0 e' \<and> en_s e' = s \<and> en_start e' = start \<and> en_delim e' = delim \<and> en_r e' = Some re
        \<and> a = find ?good [from_pos..<length s]"
      by (rule Ends_loop_correct [OF wf _ inv(5) _ loop, unfolded inv(1-4)]) (use delim skip in auto)
    moreover have "Ends_Next (compiled prog) from_pos e = (a, e')" using step False loop by (simp only: if_False)
    ultimately show ?thesis by (simp add: serving_def)
  qed
  then show "fst (Ends_Next (compiled prog) from_pos e) = find ?good [from_pos..<length s]"
    "serving prog (snd (Ends_Next (compiled prog) from_pos e)) re s start delim" by auto
qed
subsection \<open>Bytes that no instruction consumes\<close>

lemma position: "k < length s \<Longrightarrow> \<exists>i. boundary s i \<and> i \<le> k \<and> k < after s i"
proof (induction k)
  case 0
  then show ?case using after_greater [of 0 s] by (intro exI [of _ 0]) auto
next
  case (Suc k)
  then obtain i where i: "boundary s i" "i \<le> k" "k < after s i" by auto
  show ?case
  proof (cases "Suc k < after s i")
    case False
    then have "after s i = Suc k" using i by simp
    then show ?thesis using boundary_after [OF i(1)] after_greater [of "Suc k" s] Suc.prems by (intro exI [of _ "Suc k"]) auto
  qed (use i in auto)
qed

lemma run_consumes:
  assumes wf: "wf_prog P start" and "prog_run P start s j r q"
  shows "\<forall>k < j. boundary s k \<longrightarrow> (\<exists>p < length P. isRune (P ! p) \<and> in_MatchRune (P ! p) (fst (decode_rune (drop k s))))"
  using assms(2)
proof induction
  case (run_rune i r p)
  note f = prog_run_facts [OF wf run_rune.hyps(1)]
  show ?case
  proof (intro allI impI)
    fix k assume k: "k < after s i" "boundary s k"
    consider "k < i" | "k = i" | "i < k" by linarith
    then show "\<exists>p < length P. isRune (P ! p) \<and> in_MatchRune (P ! p) (fst (decode_rune (drop k s)))"
    proof cases
      case 1
      then show ?thesis using run_rune.IH k by blast
    next
      case 2
      then show ?thesis using run_rune.hyps f(1) by blast
    next
      case 3
      then show ?thesis using boundary_next [OF f(2) k(2)] k(1) by simp
    qed
  qed
qed auto

lemma Consumes_correct:
  assumes wf: "wf_prog P start" and c: "val c < 0x80" "\<not> Consumes (Compile P start) c" and m: "prog_matches P start s"
  shows "c \<notin> set s"
proof
  assume "c \<in> set s"
  then obtain k where k: "k < length s" "s ! k = c" by (auto simp: in_set_conv_nth)
  obtain i where i: "boundary s i" "i \<le> k" "k < after s i" using position [OF k(1)] by blast
  have "i = k"
  proof (rule ccontr)
    assume "i \<noteq> k"
    then show False using between_bytes [of i s k] i k c(1) by simp
  qed
  moreover obtain r q where "prog_run P start s (length s) r q" using m by (auto simp: prog_matches_def)
  ultimately obtain p where p: "p < length P" "isRune (P ! p)" "in_MatchRune (P ! p) (fst (decode_rune (drop k s)))"
    using run_consumes [OF wf] i(1) k(1) by blast
  have "fst (decode_rune (drop k s)) = val c" using decode_rune_ascii [of "drop k s"] k c(1) by simp
  then have "ascii_has (ascii_of (P ! p)) c" using ascii_of_correct [of c "P ! p"] p c(1) by simp
  then have "Consumes (Compile P start) c"
    using ascii_union [of c "map ascii_of P" "(0, 0)"] p(1) c(1) by (auto simp: Consumes_def Compile_def Let_def)
  with c(2) show False by simp
qed

subsection \<open>Every sequence of calls\<close>

text \<open>The states that a listing goes through; \<open>Next\<close> is called after \<open>Start\<close>, with an ASCII delimiter.\<close>

inductive listing :: "('k \<Rightarrow> inst list \<times> nat) \<Rightarrow> 'k Ends \<Rightarrow> bool" for prog where
  listing_zero: "listing prog zero_Ends"
| listing_Start: "listing prog e \<Longrightarrow> listing prog (Start (compiled prog) re s start delim e)"
| listing_Next: "listing prog e \<Longrightarrow> en_r e \<noteq> None \<Longrightarrow> val (en_delim e) < 0x80 \<Longrightarrow>
    listing prog (snd (Ends_Next (compiled prog) from_pos e))"
| listing_Reset: "listing prog e \<Longrightarrow> listing prog (Reset e)"

lemma serving_fine:
  assumes "serving prog e re s start delim"
  shows "(\<forall>x \<in> set (en_seen e). x \<le> en_stamp e) \<and>
    (\<forall>re'. en_r e = Some re' \<longrightarrow> serving prog e re' (en_s e) (en_start e) (en_delim e))"
proof
  have "ends_inv (fst (prog re)) (snd (prog re)) e" using assms by (simp add: serving_def)
  then show "\<forall>x \<in> set (en_seen e). x \<le> en_stamp e" by (simp add: ends_inv_def Let_def)
  show "\<forall>re'. en_r e = Some re' \<longrightarrow> serving prog e re' (en_s e) (en_start e) (en_delim e)"
    using assms by (auto simp only: serving_def option.inject)
qed

lemma listing_fine:
  assumes wf: "\<And>re. wf_prog (fst (prog re)) (snd (prog re))" and "listing prog e"
  shows "(\<forall>x \<in> set (en_seen e). x \<le> en_stamp e) \<and>
    (\<forall>re. en_r e = Some re \<longrightarrow> serving prog e re (en_s e) (en_start e) (en_delim e))"
  using assms(2)
proof induction
  case (listing_Start e re s start delim)
  have "serving prog (Start (compiled prog) re s start delim e) re s start delim"
    by (rule Start_serving [OF wf]) (use listing_Start.IH in auto)
  then show ?case by (rule serving_fine)
next
  case (listing_Next e from_pos)
  then obtain re where "serving prog e re (en_s e) (en_start e) (en_delim e)" by auto
  from Next_serving(2) [OF wf listing_Next.hyps(3) this] show ?case by (rule serving_fine)
qed (auto simp: zero_Ends_def Reset_def)

section \<open>Properties of the listing of ends\<close>

text \<open>
  C7. Whatever was listed before, \<open>Next\<close> on a listing of the program \<open>re\<close> over \<open>s\<close> returns the first position
  at or after its argument, behind the start, where the delimiter stands and the string from the start up to
  there is matched by a run of the program, or nothing if there is none. The closures that are listed when the
  expression is compiled, those that are followed at each step, the sets of ASCII bytes and the classes of the
  neighbouring bytes together compute the runs over runes.
\<close>

theorem Ends_lists_matches:
  assumes "\<And>re. wf_prog (fst (prog re)) (snd (prog re))" "listing prog e" "en_r e = Some re" "val (en_delim e) < 0x80"
  shows "fst (Ends_Next (compiled prog) from_pos e) =
    find (\<lambda>x. en_start e < x \<and> en_s e ! x = en_delim e
            \<and> prog_matches (fst (prog re)) (snd (prog re)) (slice (en_s e) (en_start e) x)) [from_pos..<length (en_s e)]"
proof -
  have "serving prog e re (en_s e) (en_start e) (en_delim e)" using listing_fine [OF assms(1,2)] assms(3) by blast
  from Next_serving(1) [OF assms(1,4) this]
  show ?thesis by (auto simp: good_end_def intro!: find_cong)
qed

text \<open>An example: the expression \<open>[a/]*\<close>, and the string \<open>/aa/a/b\<close> from its second byte.\<close>

definition demo_prog :: "unit \<Rightarrow> inst list \<times> nat" where
  "demo_prog _ =
     ([\<lparr>in_Op = InstAlt, in_Out = 1, in_Arg = 2, in_MatchRune = (\<lambda>_. False)\<rparr>,
       \<lparr>in_Op = InstRune, in_Out = 0, in_Arg = 0, in_MatchRune = (\<lambda>c. c = 97 \<or> c = 47)\<rparr>,
       \<lparr>in_Op = InstMatch, in_Out = 0, in_Arg = 0, in_MatchRune = (\<lambda>_. False)\<rparr>], 0)"

definition demo_listing :: "unit Ends" where
  "demo_listing = Start (compiled demo_prog) () ''/aa/a/b'' 1 (slashDelim) zero_Ends"

lemma demo_prog_ok: "wf_prog (fst (demo_prog u)) (snd (demo_prog u))"
  by (simp add: wf_prog_def demo_prog_def expand_def)

lemma demo_listing_ok:
  "listing demo_prog demo_listing" "en_r demo_listing = Some ()" "en_delim demo_listing = slashDelim"
  "en_start demo_listing = 1" "en_s demo_listing = ''/aa/a/b''"
  unfolding demo_listing_def
  by (rule listing_Start [OF listing_zero])
    (simp_all add: Start_def restart_def Let_def zero_Ends_def)


lemma demo_run_prefix:
  assumes "set s \<subseteq> {CHR ''a'', slashDelim}" "i \<le> length s"
  shows "\<exists>r. prog_run (fst (demo_prog ())) 0 s i r 0"
  using assms(2)
proof (induction i)
  case (Suc i)
  then obtain r where run: "prog_run (fst (demo_prog ())) 0 s i r 0" by auto
  have "(0, 1) \<in> eps (fst (demo_prog ())) flag" for flag by (simp add: eps_def demo_prog_def empty_outs_def)
  from run_empty [OF run this] have at1: "prog_run (fst (demo_prog ())) 0 s i r 1" .
  have i: "i < length s" "s ! i \<in> {CHR ''a'', slashDelim}" using Suc.prems assms(1) nth_mem [of i s] by (simp, force)
  then have "decode_rune (drop i s) = (val (s ! i), 1)" using decode_rune_ascii [of "drop i s"] by auto
  then have "after s i = Suc i" "in_MatchRune (fst (demo_prog ()) ! 1) (fst (decode_rune (drop i s)))"
    using i by (auto simp: after_def demo_prog_def)
  with run_rune [OF at1 _ i(1)] show ?case by (auto simp: isRune_def demo_prog_def)
qed (auto intro: run_start)

lemma demo_matches:
  assumes "set s \<subseteq> {CHR ''a'', slashDelim}"
  shows "prog_matches (fst (demo_prog ())) (snd (demo_prog ())) s"
proof -
  obtain r where "prog_run (fst (demo_prog ())) 0 s (length s) r 0" using demo_run_prefix [OF assms] by blast
  moreover have "(0, 2) \<in> eps (fst (demo_prog ())) flag" for flag by (simp add: eps_def demo_prog_def empty_outs_def)
  ultimately have "prog_run (fst (demo_prog ())) 0 s (length s) r 2" by (rule run_empty)
  moreover have "in_Op (fst (demo_prog ()) ! 2) = InstMatch" "snd (demo_prog ()) = 0" by (simp_all add: demo_prog_def)
  ultimately show ?thesis unfolding prog_matches_def by metis
qed

theorem Ends_lists_matches_witness:
  "fst (Ends_Next (compiled demo_prog) 4 demo_listing) = Some 5"
proof -
  have "prog_matches (fst (demo_prog ())) (snd (demo_prog ())) (slice ''/aa/a/b'' 1 5)"
    by (rule demo_matches) (simp add: slice_def)
  with Ends_lists_matches [where prog = demo_prog, OF demo_prog_ok demo_listing_ok(1,2), of 4]
  show ?thesis by (simp add: demo_listing_ok upt_rec)
qed

end
