(* ===== verification/Lookup_Regprog.thy ===== *)
theory Lookup_Regprog
  imports Lookup_Router Regprog_Ends
begin

text \<open>
  The path lookup with the listings of \<open>regprog\<close>: the contract on which the walk rests holds for the model of
  \<open>regprog\<close>, so that the lookup on the tree of a router needs it no longer.
\<close>

text \<open>
  The lookup runs on \<open>regprog\<close>: \<open>prog\<close> gives the program to which \<open>syntax.Compile\<close> compiles an expression.
  What is left to package \<open>regexp\<close> is that a program is well formed and that \<open>MatchString\<close> is a run of the
  program over the string; the expressions of a pattern are anchored at both ends.
\<close>

definition uses_regprog :: "('c, 'h, regexp Ends) lookup_env \<Rightarrow> (regexp \<Rightarrow> inst list \<times> nat) \<Rightarrow> bool" where
  "uses_regprog E prog \<longleftrightarrow> lk_Consumes E = (\<lambda>re. Consumes (compiled prog re)) \<and> lk_ends_zero E = zero_Ends
     \<and> lk_ends_Start E = Start (compiled prog) \<and> lk_ends_Next E = Ends_Next (compiled prog) \<and> lk_ends_Reach E = Reach"

definition regexp_package :: "(regexp \<Rightarrow> string \<Rightarrow> bool) \<Rightarrow> (regexp \<Rightarrow> inst list \<times> nat) \<Rightarrow> bool" where
  "regexp_package matches prog \<longleftrightarrow> (\<forall>re. wf_prog (fst (prog re)) (snd (prog re))
     \<and> matches re = prog_matches (fst (prog re)) (snd (prog re)))"

lemma serving_listing:
  assumes "listing_fine E (serving prog) e" "lk_ends_zero E = zero_Ends"
  shows "\<forall>x \<in> set (en_seen e). x \<le> en_stamp e"
    "en_r e = Some re \<Longrightarrow> serving prog e re (en_s e) (en_start e) (en_delim e)"
proof -
  have "(\<forall>x \<in> set (en_seen e). x \<le> en_stamp e) \<and> (\<forall>re. en_r e = Some re \<longrightarrow> serving prog e re (en_s e) (en_start e) (en_delim e))"
  proof -
    consider "e = zero_Ends" | r s start delim where "serving prog e r s start delim"
      using assms by (auto simp: Lookup_Correct.listing_fine_def)
    then show ?thesis
    proof cases
      case 2
      then show ?thesis by (rule serving_fine)
    qed (simp add: zero_Ends_def)
  qed
  then show "\<forall>x \<in> set (en_seen e). x \<le> en_stamp e"
    "en_r e = Some re \<Longrightarrow> serving prog e re (en_s e) (en_start e) (en_delim e)" by blast+
qed

lemma regprog_listing_ok:
  assumes "uses_regprog E prog" "regexp_package (lk_MatchString E) prog"
  shows "listing_ok E (serving prog)"
proof -
  have E: "lk_Consumes E = (\<lambda>re. Consumes (compiled prog re))" "lk_ends_zero E = zero_Ends"
      "lk_ends_Start E = Start (compiled prog)" "lk_ends_Next E = Ends_Next (compiled prog)"
    using assms(1) by (simp_all add: uses_regprog_def)
  have wf: "wf_prog (fst (prog re)) (snd (prog re))" for re using assms(2) by (simp add: regexp_package_def)
  have m: "lk_MatchString E re = prog_matches (fst (prog re)) (snd (prog re))" for re
    using assms(2) by (simp add: regexp_package_def)
  have "first_end (lk_MatchString E re) s start delim x
      = find (good_end (fst (prog re)) (snd (prog re)) s start delim) [x..<length s]" for re s start delim x
    unfolding first_end_def m by (intro find_cong) (auto simp: good_end_def)
  then show ?thesis
    unfolding listing_ok_def E m
    using Start_serving [OF wf serving_listing [OF _ E(2)]] Next_serving [where prog = prog, OF wf] Consumes_correct [OF wf]
    by (simp add: compiled_def m)
qed

section \<open>Properties\<close>


text \<open>An example: the route \<open>/x/*{b:[a/]*}/y\<close>, and the path \<open>/x/aa/a/y\<close>.\<close>

definition demo_regexp :: "regexp \<Rightarrow> inst list \<times> nat" where
  "demo_regexp re = demo_prog ()"

definition demo_class :: "string \<Rightarrow> bool" where
  "demo_class s = list_all (\<lambda>c. c = CHR ''a'' \<or> c = slashDelim) s"

definition demo_regprog_env :: "(unit, unit, regexp Ends) lookup_env" where
  "demo_regprog_env = \<lparr>lk_eval = (\<lambda>_ _. True), lk_method = ''GET'', lk_lazy = False, lk_MatchString = (\<lambda>re. demo_class),
     lk_Consumes = (\<lambda>re. Consumes (compiled demo_regexp re)), lk_ends_zero = zero_Ends,
     lk_ends_Start = Start (compiled demo_regexp), lk_ends_Next = Ends_Next (compiled demo_regexp), lk_ends_Reach = Reach,
     lk_pikeVM = (\<lambda>_ ls. (None, ls)), lk_hostVM = (\<lambda>_ ls. (None, ls))\<rparr>"

definition demo_class_route :: "(unit, unit) route" where
  "demo_class_route = demo_registered ''/x/*{b:[a/]*}/y''
     [demo_tok nodeStatic ''/x/'', (demo_tok nodeWildcard ''[a/]*'')\<lparr>tregexp := Some (Regexp ''^(?:[a/]*)$'')\<rparr>, demo_tok nodeStatic ''/y'']"

definition demo_class_router :: "(unit, unit) iTree" where
  "demo_class_router = fst (commit (fst (insert_route (txn newTree) demo_class_route modeInsert)))"

definition demo_class_args :: "string \<Rightarrow> (unit, unit) route path_args" where
  "demo_class_args path = \<lparr>pa_root = it_patterns demo_class_router, pa_path = path, pa_stackOffset = 0\<rparr>"

lemma demo_run_class:
  assumes "prog_run (fst (demo_prog ())) 0 s i r p"
  shows "p < 3 \<and> (\<forall>k < i. s ! k \<in> {CHR ''a'', slashDelim})"
  using assms
proof induction
  case (run_empty i r p q)
  then show ?case by (auto simp: eps_def demo_prog_def empty_outs_def less_Suc_eq numeral_3_eq_3)
next
  case (run_rune i r p)
  let ?c = "fst (decode_rune (drop i s))"
  have c: "?c = 97 \<or> ?c = 47" "in_Out (fst (demo_prog ()) ! p) < 3"
    using run_rune by (auto simp: demo_prog_def less_Suc_eq numeral_3_eq_3 isRune_def)
  have ascii: "val (s ! i) < 0x80"
  proof (rule ccontr)
    assume "\<not> val (s ! i) < 0x80"
    then show False using decode_rune_bytes(2) [of "drop i s" ?c "snd (decode_rune (drop i s))"] run_rune.hyps(3) c by auto
  qed
  then have "?c = val (s ! i)" "after s i = Suc i"
    using decode_rune_ascii [of "drop i s"] run_rune.hyps(3) by (auto simp: after_def)
  moreover from this c have "s ! i \<in> {CHR ''a'', slashDelim}"
    using of_char_eq_iff [where ?'a = nat, of "s ! i" "CHR ''a''"] of_char_eq_iff [where ?'a = nat, of "s ! i" slashDelim] by auto
  ultimately show ?case using run_rune.IH c(2) by (auto simp: less_Suc_eq)
qed simp

lemma demo_regexp_ok: "regexp_package (lk_MatchString demo_regprog_env) demo_regexp"
proof -
  have "demo_class s = prog_matches (fst (demo_prog ())) (snd (demo_prog ())) s" for s
  proof
    assume "demo_class s"
    then show "prog_matches (fst (demo_prog ())) (snd (demo_prog ())) s"
      by (intro demo_matches) (auto simp: demo_class_def list_all_iff)
  next
    assume "prog_matches (fst (demo_prog ())) (snd (demo_prog ())) s"
    then obtain r m where "prog_run (fst (demo_prog ())) 0 s (length s) r m"
      by (auto simp: prog_matches_def demo_prog_def)
    from demo_run_class [OF this] show "demo_class s" by (auto simp: demo_class_def list_all_length)
  qed
  then show ?thesis using demo_prog_ok by (auto simp: regexp_package_def demo_regexp_def demo_regprog_env_def)
qed

lemma demo_regprog_env_ok: "uses_regprog demo_regprog_env demo_regexp" "lk_method demo_regprog_env \<noteq> ''''"
  by (simp_all add: uses_regprog_def demo_regprog_env_def)

lemma demo_class_router_ok:
  "tree_inv (\<lambda>_. rpattern demo_class_route) demo_class_router" "plain_tree (it_patterns demo_class_router)"
proof -
  have route: "route_ok (\<lambda>_. rpattern demo_class_route) demo_class_route"
    by (simp add: route_ok_def demo_class_route_def demo_registered_def demo_tok_def demo_route_def fast_ok_def catch_all_ok_def)
  then have "snd (insert_route (txn newTree) demo_class_route modeInsert) = None"
    by (simp add: insert_refines_facts(1) [OF empty_txn(1)] empty_txn(2))
  from insert_route_inv [OF empty_txn(1) route this]
  show "tree_inv (\<lambda>_. rpattern demo_class_route) demo_class_router" by (simp add: demo_class_router_def handles_inv)
  show "plain_tree (it_patterns demo_class_router)" by code_simp
qed

definition demo_class_ref :: "string \<Rightarrow> (unit, unit) ref_env" where
  "demo_class_ref path = \<lparr>rf_accepts = accepts (\<lambda>_ _. True) ''GET'', rf_MatchString = (\<lambda>_. demo_class),
     rf_path = path, rf_root = it_patterns demo_class_router\<rparr>"

lemma demo_class_ref: "ref_of demo_regprog_env (demo_class_args path) = demo_class_ref path"
  by (simp add: ref_of_def demo_regprog_env_def demo_class_args_def demo_class_ref_def)

lemma demo_class_found:
  "map_option (\<lambda>(i, n, tsr, vs). (pstr (rpattern (nroutes n ! i)), tsr, vs))
     (ref (demo_class_ref ''/x/aa/a/y'') None (it_patterns demo_class_router) 0)
   = Some (''/x/*{b:[a/]*}/y'', False, [''aa/a''])"
  by code_simp

definition demo_class_outcome :: "(unit, unit, regexp Ends) wstate \<Rightarrow> (string \<times> bool \<times> string list) option" where
  "demo_class_outcome s = (case wk_label s of
     LDone (Some (i, n, tsr)) \<Rightarrow> Some (pstr (rpattern (nroutes n ! i)), tsr, wk_params s) | _ \<Rightarrow> None)"

lemma demo_class_run:
  "map_option demo_class_outcome (lookupByPath demo_regprog_env (demo_class_args ''/x/aa/a/y'') [] [] empty_lookup)
   = Some (Some (''/x/*{b:[a/]*}/y'', False, [''aa/a'']))"
proof -
  have ok: "lookup_ok demo_regprog_env (serving demo_regexp)"
    using regprog_listing_ok [OF demo_regprog_env_ok(1) demo_regexp_ok] demo_regprog_env_ok(2) by (simp add: lookup_ok_def)
  have root: "pa_root (demo_class_args path) = it_patterns demo_class_router" "pa_stackOffset (demo_class_args path) = length []"
    for path by (simp_all add: demo_class_args_def)
  have lazy: "lk_lazy demo_regprog_env = False" by (simp add: demo_regprog_env_def)
  from demo_class_found obtain i n where r: "ref (demo_class_ref ''/x/aa/a/y'') None (it_patterns demo_class_router) 0
      = Some (i, n, False, [''aa/a''])" "pstr (rpattern (nroutes n ! i)) = ''/x/*{b:[a/]*}/y''"
    by auto
  have "walk_ok (pa_root (demo_class_args ''/x/aa/a/y''))"
    unfolding root by (rule tree_walk_ok [OF demo_class_router_ok])
  from lookupByPath_facts [OF ok this root(2) empty_fine, of "[]"] r
  show ?thesis unfolding root lazy demo_class_ref by (auto simp: demo_class_outcome_def)
qed


end
