(* ===== verification/Spec2Isabelle.thy ===== *)
theory Spec2Isabelle
  imports Path_Norm Strings_Util Slices_Util Net_Util Config Serve_Dispatch Response Lru
    Client_IP_Safe Lookup_Regprog
begin

text \<open>
  A verification development of fox, an HTTP router in Go. Routes are registered under patterns with parameters
  and wildcards, in a radix tree that transactions change copy-on-write; a request is served from the published
  tree without a lock. The theories follow the code bottom up. A definition has the name of the Go function or
  type it translates, where Isabelle allows it; \<open>PROJECT.json\<close> maps each one to its lines.

  \<^bold>\<open>Strings and small helpers.\<close> \<open>Prelude\<close>: slices, searches in byte strings, splitting. A Go string is a list
  of \<open>char\<close>, its 256 byte values. \<open>Path_Norm\<close> (\<open>path.go\<close>): \<open>MergeSlashes\<close>, \<open>CollapseDotSegments\<close> and the
  redirect helpers, with their loops over indices and the lazily allocated buffer; shown equal to functions on
  lists of segments, idempotent, and free of dot segments. \<open>Strings_Util\<close> (\<open>internal/stringsutil\<close>): escaping and
  normalization of raw paths; the canonical form, its decoding and round trips. \<open>Slices_Util\<close>
  (\<open>internal/slicesutil\<close>) and \<open>Net_Util\<close> (\<open>internal/netutil\<close>): comparisons of slices, host and port, prefixes.

  \<^bold>\<open>Routes and patterns.\<close> \<open>Matchers\<close> (\<open>matcher.go\<close>), \<open>Routes\<close> (\<open>route.go\<close> and the leaf operations of
  \<open>node.go\<close>): routes, the order in which a leaf tries them, and \<open>Route.match\<close> with its memo of failed matchers.
  \<open>Pattern_Parser\<close> (\<open>parser.go\<close>): \<open>parsePattern\<close>, shown total, to produce what the tree relies on, and to be
  undone by printing.

  \<^bold>\<open>The tree and its transactions.\<close> \<open>Node_Edges\<close>: the edge tables of a node, as an interpretation of an
  interface for sorted tables. \<open>Tree_Map\<close>: the abstract view of a tree, a map from the symbols of a pattern to the
  routes of a leaf, with the lemmas on splitting and merging keys. \<open>Tree_Names\<close>, \<open>Tree_Insert\<close>, \<open>Tree_Delete\<close>
  (\<open>tree.go\<close>, \<open>node.go\<close>): insertion, update and removal. \<open>Registry\<close>: the invariant that ties the tree of names to
  the tree of patterns. \<open>Txn\<close>: \<open>iTree\<close> and \<open>tXn\<close>; every operation keeps the invariant and refines its counterpart
  on the set of registered routes. \<open>Router_Txn\<close> (\<open>txn.go\<close>, \<open>fox.go\<close>): handles, the writer lock, publication;
  mutual exclusion of writers, serialization, all-or-nothing updates. \<open>Config\<close> (\<open>options.go\<close>, \<open>fox.go\<close>):
  options, middleware, \<open>NewRouter\<close>, \<open>NewRoute\<close>, \<open>Add\<close>, \<open>Update\<close>, \<open>Delete\<close>.

  \<^bold>\<open>Lookup.\<close> \<open>Lookup_Path\<close> (\<open>lookupByPath\<close> and \<open>matchTrailingSlash\<close> of \<open>node.go\<close>, \<open>lookupstate.go\<close>): the walk
  with its explicit stack of alternatives and its memos, one jump of the Go function per step. \<open>Lookup_Reference\<close>:
  the same search as a recursion over the tree, without stack or memo. \<open>Lookup_Correct\<close>, \<open>Lookup_Scan\<close> and
  \<open>Lookup_Walk\<close>: from every state that satisfies the invariant of the memos, the walk ends, without panic, in the
  result of the recursion; each phase of the walk has one lemma, stated for any rest of the stack. \<open>Lookup_Match\<close>
  and \<open>Lookup_Router\<close>: that result is a registered route that spells the path with the captures, and there is one
  whenever a registered route matches the path. \<open>Lookup_Host\<close> (\<open>lookup\<close> and \<open>lookupByHostname\<close>): the walk over
  the host part; its definitions are used by \<open>Serve\<close>, its correctness is not shown.

  \<^bold>\<open>Regular expressions.\<close> \<open>Regprog\<close> (\<open>internal/regprog\<close>): a program of \<open>regexp/syntax\<close> compiled into lists of
  what follows each instruction, for each pair of byte classes, and \<open>Ends\<close>, the listing of the prefixes that
  match. \<open>Regprog_Closure\<close>: the lists are the closures of the empty transitions, and the stamped step with deferred
  entries reaches them all. \<open>Regprog_Last\<close>: the counted predecessor table and its backward search.
  \<open>Regprog_Runs\<close>: runs of a program over runes, their decoding from bytes, and the live instructions at a position.
  \<open>Regprog_Ends\<close>: the listing stays in step with the runs and returns every end. \<open>Lookup_Regprog\<close>: this discharges
  the contract of the lookup.

  \<^bold>\<open>Serving.\<close> \<open>Serve\<close> (\<open>fox.go\<close>): \<open>ServeHTTP\<close>, \<open>Match\<close>, \<open>Lookup\<close>, with the caller's request and its copy kept
  apart. \<open>Routing_Path\<close>: the routing path is canonical, the passes keep it canonical, a rewritten request has the
  path it was rewritten to, and a redirect is not redirected again. \<open>Serve_Dispatch\<close>: what the reply is, for a
  router or a request whose lookup goes by path, and the Allow header. \<open>Response\<close> (\<open>response_writer.go\<close> and the
  redirect handlers of \<open>fox.go\<close>): the recorder as a state machine and the Location of a redirect. \<open>Lru_List\<close> and
  \<open>Lru\<close> (\<open>internal/simplelru\<close>): the cache over its ring of pointers refines a list of pairs.

  \<^bold>\<open>Client IP.\<close> \<open>Iter_Util\<close> (\<open>internal/iterutil\<close>): sequences as lists of what they yield, the splitting loops as
  partial functions shown to return. \<open>Netip\<close>: the address syntax of the standard library. \<open>Forwarded\<close>
  (\<open>clientip/clientip.go\<close>): reading addresses out of headers, from the left and from the right.
  \<open>Forwarded_Quotes\<close>: the scanners of quoted strings against an automaton. \<open>Client_IP\<close>: the resolvers, their
  constructors and options. \<open>Client_IP_Safe\<close>: a header is built by hops, and a client cannot choose the address
  that the rightmost resolvers return.

  \<^bold>\<open>Parameters and hypotheses.\<close> \<open>MatchString\<close> of the standard library is a function from an expression to a
  predicate. The listing of capture ends is an argument of the lookup with the contract \<open>listing_ok\<close>
  (\<open>Lookup_Correct\<close>): after \<open>Start\<close>, with an ASCII delimiter, \<open>Next\<close> returns the next end, in order.
  \<open>Lookup_Regprog\<close> proves it of the model of \<open>regprog\<close>, from two facts about package \<open>regexp\<close> (\<open>regexp_package\<close>):
  compiled programs are well formed, and \<open>MatchString\<close> on an anchored expression is a run of its program. The
  Pike VM, which the walk leaves to only for patterns with nested wildcard expressions, is an argument as well; the
  theorems about lookups are for trees without such expressions (\<open>plain_tree\<close>). Matchers
  of other packages, handlers and middleware are values or functions of any type. The order of a map iteration is
  an argument. The response writer that the recorder wraps is an argument that may depend on the calls so far.

  \<^bold>\<open>Termination and bounds.\<close> Loops over an index are functions with a measure. The walks are
  \<open>partial_function (option)\<close>, so that not returning is a value, and the theorems about \<open>lookupByPath\<close>,
  \<open>ServeHTTP\<close> and the cache state that they return. There is no fuel. Scopes and option values are 8-bit words,
  the limits of patterns 16-bit; counters that the code keeps in \<open>int\<close> or \<open>uint\<close> and never brings near their
  bounds are \<open>nat\<close> or \<open>int\<close>.

  \<^bold>\<open>Not modelled.\<close> The sharing of nodes between versions of the tree: a node is a value, so a change never shows in
  an older version, which is what the copy-on-write code, its cache of writable nodes and the map of writable nodes
  have to ensure; nodes of a lookup are compared as values where the code compares pointers. The Pike VM
  (\<open>pikevm.go\<close>). The counters \<open>steps\<close> and \<open>dirty\<close> of a lookup, which only decide
  when memory is released, and the pool of contexts. The iterators over the tree and the search of a route by its
  pattern. \<open>ReadFrom\<close>, \<open>Push\<close> and the deadlines of the recorder, the accessors of the context and the
  adapters for \<open>net/http\<close>, the printing of routes, logging and recovery: they pass values on to the standard
  library.
\<close>

end
